(* ===== verification/Prelude.thy ===== *)
theory Prelude
  imports Main "HOL-Library.Word" "HOL-Library.Monad_Syntax"
begin

text \<open>
  Shared vocabulary of the development: the machine integer types of the x86-64 ABI,
  the fact collections the component theories fill and use, and the generic lemmas on
  words, naturals and options that several components need.
\<close>

unbundle bit_operations_syntax

section \<open>Machine types\<close>

type_synonym u8 = "8 word"
type_synonym u16 = "16 word"
type_synonym u32 = "32 word"
type_synonym u64 = "64 word"
type_synonym u128 = "128 word"

type_synonym byte = "8 word"
type_synonym addr = "64 word"

text \<open>
  \<open>rt_defs\<close> collects the unfolding equations of the compiler runtime, \<open>mem_simps\<close> the
  rewrite rules of the memory model, \<open>io_simps\<close> those of the stream and console layers.
\<close>

named_theorems rt_defs
named_theorems mem_simps
named_theorems io_simps

section \<open>Two's complement\<close>

lemma pow_len: "2 * 2 ^ (LENGTH('a::len) - Suc 0) = (2 :: int) ^ LENGTH('a)"
  by (metis One_nat_def len_gt_0 power_minus_mult power_commutes neq0_conv)

lemma sint_lower: "- (2 ^ (LENGTH('a) - Suc 0)) \<le> sint (a :: 'a::len word)"
  using sint_ge [of a] by simp

lemma sint_upper: "sint (a :: 'a::len word) < 2 ^ (LENGTH('a) - Suc 0)"
  using sint_lt [of a] by simp

lemmas sint_bounds = sint_lower sint_upper

text \<open>The three cases of a signed result that leaves the range by less than one turn.\<close>

lemma signed_take_bit_inside:
  "- (2 ^ n) \<le> k \<Longrightarrow> k < 2 ^ n \<Longrightarrow> signed_take_bit n (k :: int) = k"
  by (simp add: signed_take_bit_int_eq_self)

lemma signed_take_bit_above:
  assumes "2 ^ n \<le> k" "k < 3 * 2 ^ n"
  shows "signed_take_bit n (k :: int) = k - 2 * 2 ^ n"
proof -
  have "signed_take_bit n k = signed_take_bit n (k - 2 * 2 ^ n)"
    by (simp add: signed_take_bit_eq_iff_take_bit_eq take_bit_eq_mod mod_diff_right_eq [symmetric])
  with assms show ?thesis by (simp add: signed_take_bit_int_eq_self)
qed

lemma signed_take_bit_below:
  assumes "- (3 * 2 ^ n) \<le> k" "k < - (2 ^ n)"
  shows "signed_take_bit n (k :: int) = k + 2 * 2 ^ n"
proof -
  have "signed_take_bit n k = signed_take_bit n (k + 2 * 2 ^ n)"
    by (simp add: signed_take_bit_eq_iff_take_bit_eq take_bit_eq_mod)
  with assms show ?thesis by (simp add: signed_take_bit_int_eq_self)
qed

definition in_range :: "'a::len itself \<Rightarrow> int \<Rightarrow> bool" where
  "in_range t k \<longleftrightarrow> - (2 ^ (LENGTH('a) - 1)) \<le> k \<and> k < 2 ^ (LENGTH('a) - 1)"

lemma in_range_sint [simp]: "in_range TYPE('a::len) (sint (a :: 'a word))"
  using sint_bounds [of a] by (simp add: in_range_def)

lemma sint_word_of_int_range:
  "in_range TYPE('a::len) k \<Longrightarrow> sint (word_of_int k :: 'a word) = k"
  by (simp add: in_range_def sint_sbintrunc' signed_take_bit_int_eq_self)

text \<open>The sign mask \<open>a >> (N-1)\<close> and the conditional negation \<open>(a ^ s) - s\<close>.\<close>

lemma sign_mask: "signed_drop_bit (LENGTH('a) - Suc 0) (a :: 'a::len word) = (if a <s 0 then - 1 else 0)"
proof -
  have "sint (signed_drop_bit (LENGTH('a) - Suc 0) a) = sint a div 2 ^ (LENGTH('a) - Suc 0)"
    by (simp add: sint_signed_drop_bit_eq drop_bit_eq_div)
  also have "\<dots> = (if sint a < 0 then - 1 else 0)"
  proof (cases "sint a < 0")
    case True
    with sint_bounds [of a] show ?thesis
      by (simp add: int_div_pos_eq [where q = "- 1" and r = "sint a + 2 ^ (LENGTH('a) - Suc 0)"])
  next
    case False
    with sint_bounds [of a] show ?thesis by simp
  qed
  also have "\<dots> = sint (if a <s 0 then - 1 else 0 :: 'a word)"
    by (simp add: word_sless_alt)
  finally show ?thesis by (rule signed_word_eqI)
qed

lemma xor_minus_one: "(a XOR - 1) - (- 1) = - (a :: 'a::len word)"
  using minus_eq_not_plus_1 [of a] by simp

lemma cond_neg [simp]:
  "(a XOR (if P then - 1 else 0)) - (if P then - 1 else 0) = (if P then - a else (a :: 'a::len word))"
  using xor_minus_one [of a] by simp

lemma sint_not: "sint (NOT a) = - 1 - sint (a :: 'a::len word)"
proof -
  have "NOT a = - 1 - a" by (simp add: not_eq_complement)
  then have "sint (NOT a) = signed_take_bit (LENGTH('a) - 1) (sint (- 1 :: 'a word) - sint a)"
    by (simp only: sint_word_diff)
  then show ?thesis using sint_bounds [of a] by (simp add: signed_take_bit_inside)
qed

section \<open>Arithmetic\<close>

lemma int_le_div_iff:
  fixes x y b :: int
  assumes "0 < b"
  shows "x \<le> y div b \<longleftrightarrow> x * b \<le> y"
proof
  assume "x \<le> y div b"
  then have "x * b \<le> y div b * b" using assms by (simp add: mult_right_mono)
  also have "\<dots> \<le> y" using assms div_mult_mod_eq [of y b] pos_mod_sign [of b y] by linarith
  finally show "x * b \<le> y" .
next
  assume "x * b \<le> y"
  then have "x * b div b \<le> y div b" using assms by (rule zdiv_mono1)
  then show "x \<le> y div b" using assms by simp
qed

lemma int_div_nonneg_le: "0 \<le> a \<Longrightarrow> a div b \<le> (a :: int)"
  by (cases "a = 0") (auto intro: int_div_le_self)

lemma unat_of_nat_less: "n < 2 ^ LENGTH('a) \<Longrightarrow> unat (of_nat n :: 'a::len word) = n"
  by (simp add: unat_of_nat)

lemma unat_drop_bit: "unat (drop_bit n w) = unat w div 2 ^ n"
  by (subst unat_drop_bit_eq) (rule drop_bit_eq_div)

lemma unat_take_bit: "unat (take_bit n w) = unat w mod 2 ^ n"
  by (subst unsigned_take_bit_eq) (rule take_bit_eq_mod)

lemma unat_and_mask: "unat (x AND mask k) = unat x mod 2 ^ k"
  by (metis take_bit_eq_mask unat_take_bit)

lemma and_high_mask_0:
  fixes x :: "'a::len word"
  shows "x AND push_bit k (mask k) = 0 \<longleftrightarrow> unat x div 2 ^ k mod 2 ^ k = 0"
proof -
  have "x AND push_bit k (mask k) = push_bit k (take_bit k (drop_bit k x))"
    by (rule bit_word_eqI) (auto simp: bit_simps)
  moreover have "take_bit k (drop_bit k x) = drop_bit k (x AND push_bit k (mask k))"
    by (rule bit_word_eqI) (auto simp: bit_simps dest: bit_imp_le_length)
  ultimately have "x AND push_bit k (mask k) = 0 \<longleftrightarrow> take_bit k (drop_bit k x) = 0"
    by (metis push_bit_of_0 drop_bit_of_0)
  also have "\<dots> \<longleftrightarrow> unat x div 2 ^ k mod 2 ^ k = 0"
    by (metis unat_drop_bit unat_take_bit unat_eq_0)
  finally show ?thesis .
qed

section \<open>Small numbers in signed words\<close>

lemma sint_of_nat32: "k < 2 ^ 31 \<Longrightarrow> sint (of_nat k :: u32) = int k"
  using sint_word_of_int_range [of "int k", where ?'a = 32] by (simp add: in_range_def)

lemma sint64_small: "k < 2 ^ 31 \<Longrightarrow> sint (of_nat k :: u64) = int k"
  using sint_word_of_int_range [of "int k", where ?'a = 64] by (simp add: in_range_def)

lemma of_nat_sless: "i < 2 ^ 31 \<Longrightarrow> j < 2 ^ 31 \<Longrightarrow> (of_nat i :: u32) <s of_nat j \<longleftrightarrow> i < j"
  by (simp add: word_sless_alt sint_of_nat32)

lemma of_nat_sle: "i < 2 ^ 31 \<Longrightarrow> j < 2 ^ 31 \<Longrightarrow> (of_nat i :: u32) <=s of_nat j \<longleftrightarrow> i \<le> j"
  by (simp add: word_sle_eq sint_of_nat32)

end
