(* ===== verification/RtArith.thy ===== *)
theory RtArith
  imports Prelude "HOL-Library.Signed_Division"
begin

text \<open>
  The overflow-checking arithmetic of \<^verbatim>\<open>compiler-rt/builtins\<close>: the trapping family
  (\<open>__addv*\<close>, \<open>__subv*\<close>, \<open>__mulv*\<close>, \<open>__negv*\<close>, \<open>__absv*\<close>), which calls
  \<open>compilerrt_abort\<close> on overflow, and the flag-setting multiplication \<open>__mulo*\<close>.
  Each routine exists in the source once per width with the same text; the model has the
  text once, at any width, and one constant per source file as its instance at that width.
  Signed integers are two's complement words, as \<^verbatim>\<open>int_lib.h\<close> assumes.
\<close>

section \<open>Outcomes\<close>

text \<open>\<open>Aborted\<close>: control went to \<open>compilerrt_abort_impl\<close>, which calls \<open>abort\<close>.
  \<open>DivideTrap\<close>: the hardware divide instruction faulted.\<close>

datatype rt_error = Aborted | DivideTrap

type_synonym 'a rt = "rt_error + 'a"

abbreviation compilerrt_abort :: "'a rt" where
  "compilerrt_abort \<equiv> Inl Aborted"

section \<open>The routines\<close>

definition int_min :: "'a::len word" where
  "int_min = push_bit (LENGTH('a) - 1) 1"

definition addv :: "'a::len word \<Rightarrow> 'a word \<Rightarrow> 'a word rt" where
  "addv a b =
     (let s = a + b
      in if 0 \<le>s b then (if s <s a then compilerrt_abort else Inr s)
         else (if a \<le>s s then compilerrt_abort else Inr s))"

definition subv :: "'a::len word \<Rightarrow> 'a word \<Rightarrow> 'a word rt" where
  "subv a b =
     (let s = a - b
      in if 0 \<le>s b then (if a <s s then compilerrt_abort else Inr s)
         else (if s \<le>s a then compilerrt_abort else Inr s))"

definition negv :: "'a::len word \<Rightarrow> 'a word rt" where
  "negv a = (if a = int_min then compilerrt_abort else Inr (- a))"

definition absv :: "'a::len word \<Rightarrow> 'a word rt" where
  "absv a =
     (if a = int_min then compilerrt_abort
      else let t = signed_drop_bit (LENGTH('a) - 1) a in Inr ((a XOR t) - t))"

text \<open>C's signed division truncates towards zero.\<close>

definition c_sdiv :: "'a::len word \<Rightarrow> 'a word \<Rightarrow> 'a word" where
  "c_sdiv a b = word_of_int (sint a sdiv sint b)"

definition mulv :: "'a::len word \<Rightarrow> 'a word \<Rightarrow> 'a word rt" where
  "mulv a b =
     (let MIN_I = int_min; MAX_I = NOT MIN_I
      in if a = MIN_I then (if b = 0 \<or> b = 1 then Inr (a * b) else compilerrt_abort)
         else if b = MIN_I then (if a = 0 \<or> a = 1 then Inr (a * b) else compilerrt_abort)
         else
           let sa = signed_drop_bit (LENGTH('a) - 1) a; abs_a = (a XOR sa) - sa;
               sb = signed_drop_bit (LENGTH('a) - 1) b; abs_b = (b XOR sb) - sb
           in if abs_a <s 2 \<or> abs_b <s 2 then Inr (a * b)
              else if sa = sb then
                (if c_sdiv MAX_I abs_b <s abs_a then compilerrt_abort else Inr (a * b))
              else
                (if c_sdiv MIN_I (- abs_b) <s abs_a then compilerrt_abort else Inr (a * b)))"

text \<open>\<open>__mulo*\<close> returns the wrapped product and stores the flag through \<open>overflow\<close>.\<close>

definition mulo :: "'a::len word \<Rightarrow> 'a word \<Rightarrow> 'a word \<times> u32" where
  "mulo a b =
     (let MIN_I = int_min; MAX_I = NOT MIN_I; result = a * b
      in if a = MIN_I then (result, if b \<noteq> 0 \<and> b \<noteq> 1 then 1 else 0)
         else if b = MIN_I then (result, if a \<noteq> 0 \<and> a \<noteq> 1 then 1 else 0)
         else
           let sa = signed_drop_bit (LENGTH('a) - 1) a; abs_a = (a XOR sa) - sa;
               sb = signed_drop_bit (LENGTH('a) - 1) b; abs_b = (b XOR sb) - sb
           in if abs_a <s 2 \<or> abs_b <s 2 then (result, 0)
              else if sa = sb then (result, if c_sdiv MAX_I abs_b <s abs_a then 1 else 0)
              else (result, if c_sdiv MIN_I (- abs_b) <s abs_a then 1 else 0))"

text \<open>One constant per source file.\<close>

definition addvsi3 :: "u32 \<Rightarrow> u32 \<Rightarrow> u32 rt" where "addvsi3 = addv"
definition addvdi3 :: "u64 \<Rightarrow> u64 \<Rightarrow> u64 rt" where "addvdi3 = addv"
definition addvti3 :: "u128 \<Rightarrow> u128 \<Rightarrow> u128 rt" where "addvti3 = addv"
definition subvsi3 :: "u32 \<Rightarrow> u32 \<Rightarrow> u32 rt" where "subvsi3 = subv"
definition subvdi3 :: "u64 \<Rightarrow> u64 \<Rightarrow> u64 rt" where "subvdi3 = subv"
definition subvti3 :: "u128 \<Rightarrow> u128 \<Rightarrow> u128 rt" where "subvti3 = subv"
definition negvsi2 :: "u32 \<Rightarrow> u32 rt" where "negvsi2 = negv"
definition negvdi2 :: "u64 \<Rightarrow> u64 rt" where "negvdi2 = negv"
definition negvti2 :: "u128 \<Rightarrow> u128 rt" where "negvti2 = negv"
definition absvsi2 :: "u32 \<Rightarrow> u32 rt" where "absvsi2 = absv"
definition absvdi2 :: "u64 \<Rightarrow> u64 rt" where "absvdi2 = absv"
definition absvti2 :: "u128 \<Rightarrow> u128 rt" where "absvti2 = absv"
definition mulvsi3 :: "u32 \<Rightarrow> u32 \<Rightarrow> u32 rt" where "mulvsi3 = mulv"
definition mulvdi3 :: "u64 \<Rightarrow> u64 \<Rightarrow> u64 rt" where "mulvdi3 = mulv"
definition mulvti3 :: "u128 \<Rightarrow> u128 \<Rightarrow> u128 rt" where "mulvti3 = mulv"
definition mulosi4 :: "u32 \<Rightarrow> u32 \<Rightarrow> u32 \<times> u32" where "mulosi4 = mulo"
definition mulodi4 :: "u64 \<Rightarrow> u64 \<Rightarrow> u64 \<times> u32" where "mulodi4 = mulo"
definition muloti4 :: "u128 \<Rightarrow> u128 \<Rightarrow> u128 \<times> u32" where "muloti4 = mulo"
definition negdi2 :: "u64 \<Rightarrow> u64" where "negdi2 a = - a"
definition negti2 :: "u128 \<Rightarrow> u128" where "negti2 a = - a"

lemmas arith_instances [rt_defs] =
  addvsi3_def addvdi3_def addvti3_def subvsi3_def subvdi3_def subvti3_def
  negvsi2_def negvdi2_def negvti2_def absvsi2_def absvdi2_def absvti2_def
  mulvsi3_def mulvdi3_def mulvti3_def mulosi4_def mulodi4_def muloti4_def

section \<open>The contract: exact result or abort\<close>

text \<open>\<open>checked k\<close> is the value \<open>k\<close> when it is representable and the abort otherwise.\<close>

definition checked :: "int \<Rightarrow> 'a::len word rt" where
  "checked k = (if in_range TYPE('a) k then Inr (word_of_int k) else Inl Aborted)"

lemma checked_exact: "checked k = Inr (r :: 'a::len word) \<longleftrightarrow> in_range TYPE('a) k \<and> sint r = k"
  by (auto simp: checked_def sint_word_of_int_range)

lemma sint_int_min: "sint (int_min :: 'a::len word) = - (2 ^ (LENGTH('a) - 1))"
proof -
  have "uint (int_min :: 'a word) = 2 ^ (LENGTH('a) - 1)"
    by (simp add: int_min_def push_bit_eq_mult uint_2p flip_bit_eq_idem_iff word_greater_zero_iff)
  then have "sint (int_min :: 'a word) = signed_take_bit (LENGTH('a) - 1) (2 ^ (LENGTH('a) - 1))"
    by (simp add: sint_uint)
  then show ?thesis by (simp add: signed_take_bit_above)
qed

lemma eq_int_min: "a = int_min \<longleftrightarrow> sint (a :: 'a::len word) = - (2 ^ (LENGTH('a) - 1))"
  by (metis sint_int_min signed_word_eqI)

lemma sint_add_cases:
  fixes a b :: "'a::len word"
  shows "sint (a + b) =
     (if in_range TYPE('a) (sint a + sint b) then sint a + sint b
      else if 0 \<le> sint b then sint a + sint b - 2 ^ LENGTH('a)
      else sint a + sint b + 2 ^ LENGTH('a))"
  using sint_bounds [of a] sint_bounds [of b]
  by (auto simp: sint_word_add in_range_def signed_take_bit_inside signed_take_bit_above
      signed_take_bit_below simp flip: pow_len)

lemma sint_sub_cases:
  fixes a b :: "'a::len word"
  shows "sint (a - b) =
     (if in_range TYPE('a) (sint a - sint b) then sint a - sint b
      else if 0 \<le> sint b then sint a - sint b + 2 ^ LENGTH('a)
      else sint a - sint b - 2 ^ LENGTH('a))"
  using sint_bounds [of a] sint_bounds [of b]
  by (auto simp: sint_word_diff in_range_def signed_take_bit_inside signed_take_bit_above
      signed_take_bit_below simp flip: pow_len)

lemmas sint_order = word_sless_alt word_sle_eq

lemma addv_checked: "addv a b = checked (sint a + sint b)"
  using sint_bounds [of a] sint_bounds [of b] sint_add_cases [of a b]
  by (auto simp: addv_def checked_def Let_def sint_order in_range_def simp flip: pow_len)

lemma subv_checked: "subv a b = checked (sint a - sint b)"
  using sint_bounds [of a] sint_bounds [of b] sint_sub_cases [of a b]
  by (auto simp: subv_def checked_def Let_def sint_order in_range_def simp flip: pow_len)

lemma negv_checked: "negv a = checked (- sint a)"
  using sint_bounds [of a]
  by (auto simp: negv_def checked_def eq_int_min in_range_def)

lemma absv_checked: "absv a = checked \<bar>sint a\<bar>"
  using sint_bounds [of a]
  by (auto simp: absv_def checked_def eq_int_min in_range_def Let_def sign_mask sint_order abs_if)

text \<open>Multiplication: the magnitude tests decide representability of the product.\<close>

lemma sint_not_int_min: "sint (NOT int_min :: 'a::len word) = 2 ^ (LENGTH('a) - 1) - 1"
  by (simp add: sint_not sint_int_min)

lemma sint_abs:
  fixes a :: "'a::len word"
  assumes "a \<noteq> int_min"
  shows "sint (if a <s 0 then - a else a) = \<bar>sint a\<bar>"
  using assms sint_bounds [of a]
  by (auto simp: eq_int_min sint_word_minus sint_order signed_take_bit_inside)

lemma abs_mult_range:
  fixes A B M :: int
  assumes "1 < M" "- M < A" "A < M" "- M < B" "B < M"
  shows "(- M \<le> A * B \<and> A * B < M) \<longleftrightarrow>
    (if \<bar>A\<bar> < 2 \<or> \<bar>B\<bar> < 2 then True
     else if (A < 0) = (B < 0) then \<bar>A\<bar> \<le> (M - 1) div \<bar>B\<bar>
     else \<bar>A\<bar> \<le> M div \<bar>B\<bar>)"
proof (cases "\<bar>A\<bar> < 2 \<or> \<bar>B\<bar> < 2")
  case True
  then have "A = 0 \<or> A = 1 \<or> A = - 1 \<or> B = 0 \<or> B = 1 \<or> B = - 1" by arith
  with assms show ?thesis by auto
next
  case False
  then have pos: "0 < \<bar>B\<bar>" by arith
  have le_div: "x \<le> y div \<bar>B\<bar> \<longleftrightarrow> x * \<bar>B\<bar> \<le> y" for x y
    using pos by (rule int_le_div_iff)
  have nonneg: "0 \<le> \<bar>A\<bar> * \<bar>B\<bar>" by simp
  show ?thesis
  proof (cases "(A < 0) = (B < 0)")
    case True
    then have "A * B = \<bar>A\<bar> * \<bar>B\<bar>" by (auto simp: abs_if)
    with False True nonneg assms(1) show ?thesis by (simp only: le_div if_False if_True simp_thms) linarith
  next
    case opp: False
    then have "A * B = - (\<bar>A\<bar> * \<bar>B\<bar>)" by (auto simp: abs_if)
    with False opp nonneg assms(1) show ?thesis by (simp only: le_div if_False if_True simp_thms) linarith
  qed
qed

text \<open>The tests of the source on words, read as tests on the integers they stand for.\<close>

lemma sint_small [simp]:
  assumes "2 < LENGTH('a::len)"
  shows "sint (2 :: 'a word) = 2" "sint (1 :: 'a word) = 1"
proof -
  have "(2 :: int) ^ 2 \<le> 2 ^ (LENGTH('a) - 1)" using assms by (intro power_increasing) auto
  then have "in_range TYPE('a) 2" "in_range TYPE('a) 1" by (auto simp: in_range_def)
  from this [THEN sint_word_of_int_range] show "sint (2 :: 'a word) = 2" "sint (1 :: 'a word) = 1"
    by simp_all
qed

lemma c_sdiv_max:
  fixes b :: "'a::len word"
  assumes "0 < sint b"
  shows "sint (c_sdiv (NOT int_min) b) = (2 ^ (LENGTH('a) - 1) - 1) div sint b"
proof -
  let ?M = "2 ^ (LENGTH('a) - 1) :: int"
  have "(?M - 1) div sint b \<le> ?M - 1" by (rule int_div_nonneg_le) simp
  moreover have "0 \<le> (?M - 1) div sint b" using assms by (simp add: pos_imp_zdiv_nonneg_iff)
  ultimately have "in_range TYPE('a) ((?M - 1) div sint b)"
    by (simp add: in_range_def)
  then show ?thesis
    using assms by (simp add: c_sdiv_def sint_not_int_min signed_divide_int_def sgn_if
        sint_word_of_int_range)
qed

lemma c_sdiv_min:
  fixes b :: "'a::len word"
  assumes "1 < sint b"
  shows "sint (c_sdiv int_min (- b)) = 2 ^ (LENGTH('a) - 1) div sint b"
proof -
  let ?M = "2 ^ (LENGTH('a) - 1) :: int"
  have neg: "sint (- b) = - sint b"
    using assms sint_bounds [of b] by (simp add: sint_word_minus signed_take_bit_inside)
  have "?M div sint b < ?M" using assms by (simp add: int_div_less_self)
  moreover have "0 \<le> ?M div sint b" using assms by (simp add: pos_imp_zdiv_nonneg_iff)
  ultimately have "in_range TYPE('a) (?M div sint b)"
    by (simp add: in_range_def)
  then show ?thesis
    using assms by (simp add: c_sdiv_def sint_int_min neg signed_divide_int_def sgn_if
        sint_word_of_int_range)
qed

lemma word_bit_eq_sint:
  assumes "2 < LENGTH('a::len)"
  shows "a = 0 \<longleftrightarrow> sint (a :: 'a word) = 0" "a = 1 \<longleftrightarrow> sint (a :: 'a word) = 1"
  using sint_small [OF assms] by (metis signed_word_eqI signed_0)+

text \<open>Both multiplications make the same decision; it is the representability of the product.\<close>

lemma mul_decision:
  fixes a b :: "'a::len word"
  assumes len: "2 < LENGTH('a)" and ab: "a \<noteq> int_min" "b \<noteq> int_min"
  defines "abs_a \<equiv> (if a <s 0 then - a else a)" and "abs_b \<equiv> (if b <s 0 then - b else b)"
  shows "in_range TYPE('a) (sint a * sint b) \<longleftrightarrow>
    (if abs_a <s 2 \<or> abs_b <s 2 then True
     else if (a <s 0) = (b <s 0) then \<not> c_sdiv (NOT int_min) abs_b <s abs_a
     else \<not> c_sdiv int_min (- abs_b) <s abs_a)"
proof -
  let ?M = "2 ^ (LENGTH('a) - 1) :: int"
  have abs: "sint abs_a = \<bar>sint a\<bar>" "sint abs_b = \<bar>sint b\<bar>"
    using sint_abs [OF ab(1)] sint_abs [OF ab(2)] by (simp_all add: abs_a_def abs_b_def)
  have "1 < ?M" using len by simp
  moreover have "- ?M < sint a" "sint a < ?M" "- ?M < sint b" "sint b < ?M"
    using ab sint_bounds [of a] sint_bounds [of b] by (auto simp: eq_int_min)
  ultimately have rng: "in_range TYPE('a) (sint a * sint b) \<longleftrightarrow>
    (if \<bar>sint a\<bar> < 2 \<or> \<bar>sint b\<bar> < 2 then True
     else if (sint a < 0) = (sint b < 0) then \<bar>sint a\<bar> \<le> (?M - 1) div \<bar>sint b\<bar>
     else \<bar>sint a\<bar> \<le> ?M div \<bar>sint b\<bar>)"
    unfolding in_range_def by (rule abs_mult_range)
  have "\<not> \<bar>sint b\<bar> < 2 \<Longrightarrow> sint (c_sdiv (NOT int_min) abs_b) = (?M - 1) div \<bar>sint b\<bar>"
       "\<not> \<bar>sint b\<bar> < 2 \<Longrightarrow> sint (c_sdiv int_min (- abs_b)) = ?M div \<bar>sint b\<bar>"
    using c_sdiv_max [of abs_b] c_sdiv_min [of abs_b] by (simp_all add: abs)
  moreover have two: "x <s 2 \<longleftrightarrow> sint x < 2" for x :: "'a word"
    by (simp only: word_sless_alt sint_small [OF len])
  ultimately show ?thesis
    by (simp only: rng two abs) (auto simp: sint_order abs linorder_not_less)
qed

lemma mask_eq: "((if P then - 1 else 0) = (if Q then - 1 else (0 :: 'a::len word))) \<longleftrightarrow> P = Q"
  by simp

lemma int_min_range:
  fixes b :: "'a::len word"
  assumes "2 < LENGTH('a)"
  shows "in_range TYPE('a) (sint (int_min :: 'a word) * sint b) \<longleftrightarrow> b = 0 \<or> b = 1"
proof -
  let ?M = "2 ^ (LENGTH('a) - 1) :: int"
  have M: "0 < ?M" by simp
  have "(- ?M \<le> - ?M * k \<and> - ?M * k < ?M) \<longleftrightarrow> k = 0 \<or> k = 1" for k :: int
  proof -
    have "- ?M \<le> - ?M * k \<longleftrightarrow> k \<le> 1" using M by (simp add: mult_le_cancel_left1)
    moreover have "- ?M * k < ?M \<longleftrightarrow> - 1 < k"
      using M mult_less_cancel_left_pos [OF M, of "- k" 1] by simp
    ultimately show ?thesis by auto
  qed
  then show ?thesis by (simp add: in_range_def sint_int_min word_bit_eq_sint [OF assms])
qed

lemma mulo_flag:
  fixes a b :: "'a::len word"
  assumes "2 < LENGTH('a)"
  shows "mulo a b = (a * b, if in_range TYPE('a) (sint a * sint b) then 0 else 1)"
proof -
  consider "a = int_min" | "a \<noteq> int_min" "b = int_min" | "a \<noteq> int_min" "b \<noteq> int_min" by blast
  then show ?thesis
  proof cases
    case 1
    then show ?thesis
      using int_min_range [OF assms, of b] by (simp add: mulo_def Let_def)
  next
    case 2
    then show ?thesis
      using int_min_range [OF assms, of a]
      by (simp add: mulo_def Let_def mult.commute [of "sint a"] mult.commute [of a])
  next
    case 3
    then show ?thesis
      using mul_decision [OF assms, of a b] by (simp add: mulo_def Let_def sign_mask mask_eq)
  qed
qed

lemma mulv_checked:
  fixes a b :: "'a::len word"
  assumes "2 < LENGTH('a)"
  shows "mulv a b = checked (sint a * sint b)"
proof -
  consider "a = int_min" | "a \<noteq> int_min" "b = int_min" | "a \<noteq> int_min" "b \<noteq> int_min" by blast
  then show ?thesis
  proof cases
    case 1
    then show ?thesis
      using int_min_range [OF assms, of b] by (simp add: mulv_def checked_def Let_def)
  next
    case 2
    then show ?thesis
      using int_min_range [OF assms, of a]
      by (simp add: mulv_def checked_def Let_def mult.commute [of "sint a"] mult.commute [of a])
  next
    case 3
    then show ?thesis
      using mul_decision [OF assms, of a b] by (simp add: mulv_def checked_def Let_def sign_mask mask_eq)
  qed
qed

end
