(* ===== verification/RtBits.thy ===== *)
theory RtBits
  imports RtArith
begin

text \<open>
  The bit-level routines of \<^verbatim>\<open>compiler-rt/builtins\<close>: counting leading and trailing
  zeros, find-first-set, byte swap, parity and population count, and the two-word shifts and
  comparisons that work on the halves of a \<open>dwords\<close> or \<open>twords\<close> union.
\<close>

section \<open>Leading and trailing zeros\<close>

text \<open>\<open>nlen n\<close> is the number of binary digits of \<open>n\<close>, \<open>ntz n\<close> the number of trailing zeros.\<close>

fun nlen :: "nat \<Rightarrow> nat" where
  "nlen n = (if n = 0 then 0 else Suc (nlen (n div 2)))"

fun ntz :: "nat \<Rightarrow> nat" where
  "ntz n = (if n = 0 \<or> odd n then 0 else Suc (ntz (n div 2)))"

declare nlen.simps [simp del] ntz.simps [simp del]

text \<open>The compiler's \<open>__builtin_clz\<close> and \<open>__builtin_ctz\<close>, defined on nonzero arguments.\<close>

definition builtin_clz :: "'a::len word \<Rightarrow> nat" where
  "builtin_clz x = LENGTH('a) - nlen (unat x)"

definition builtin_ctz :: "'a::len word \<Rightarrow> nat" where
  "builtin_ctz x = ntz (unat x)"

text \<open>The \<open>low\<close> and \<open>high\<close> members of the unions of \<^verbatim>\<open>int_types.h\<close>, and the whole.\<close>

definition lo_half :: "'w::len word \<Rightarrow> 'h::len word" where
  "lo_half x = ucast x"

definition hi_half :: "'w::len word \<Rightarrow> 'h::len word" where
  "hi_half x = ucast (drop_bit LENGTH('h) x)"

definition join_halves :: "'h::len word \<Rightarrow> 'h word \<Rightarrow> 'w::len word" where
  "join_halves h l = push_bit LENGTH('h) (ucast h) OR ucast l"

definition make_tu :: "u64 \<Rightarrow> u64 \<Rightarrow> u128" where
  "make_tu h l = join_halves h l"

definition clzsi2 :: "u32 \<Rightarrow> u32" where
  "clzsi2 a =
     (let x = a;
          t = (if x AND 0xFFFF0000 = 0 then 16 else 0);
          x = drop_bit (unat (16 - t)) x;
          r = t;
          t = (if x AND 0xFF00 = 0 then 8 else 0);
          x = drop_bit (unat (8 - t)) x;
          r = r + t;
          t = (if x AND 0xF0 = 0 then 4 else 0);
          x = drop_bit (unat (4 - t)) x;
          r = r + t;
          t = (if x AND 0xC = 0 then 2 else 0);
          x = drop_bit (unat (2 - t)) x;
          r = r + t
      in r + ((2 - x) AND - (if x AND 2 = 0 then 1 else 0)))"

definition ctzsi2 :: "u32 \<Rightarrow> u32" where
  "ctzsi2 a =
     (let x = a;
          t = (if x AND 0x0000FFFF = 0 then 16 else 0);
          x = drop_bit (unat t) x;
          r = t;
          t = (if x AND 0x00FF = 0 then 8 else 0);
          x = drop_bit (unat t) x;
          r = r + t;
          t = (if x AND 0x0F = 0 then 4 else 0);
          x = drop_bit (unat t) x;
          r = r + t;
          t = (if x AND 0x3 = 0 then 2 else 0);
          x = drop_bit (unat t) x;
          x = x AND 3;
          r = r + t
      in r + ((2 - drop_bit 1 x) AND - (if x AND 1 = 0 then 1 else 0)))"

definition clzdi2 :: "u64 \<Rightarrow> u32" where
  "clzdi2 a =
     (let high = hi_half a :: u32; low = lo_half a :: u32;
          f = - (if high = 0 then 1 else 0) :: u32
      in of_nat (builtin_clz ((high AND NOT f) OR (low AND f))) + (f AND 32))"

definition clzti2 :: "u128 \<Rightarrow> u32" where
  "clzti2 a =
     (let high = hi_half a :: u64; low = lo_half a :: u64;
          f = - (if high = 0 then 1 else 0) :: u64
      in of_nat (builtin_clz ((high AND NOT f) OR (low AND f))) + (ucast f AND 64))"

definition ctzdi2 :: "u64 \<Rightarrow> u32" where
  "ctzdi2 a =
     (let high = hi_half a :: u32; low = lo_half a :: u32;
          f = - (if low = 0 then 1 else 0) :: u32
      in of_nat (builtin_ctz ((high AND f) OR (low AND NOT f))) + (f AND 32))"

definition ctzti2 :: "u128 \<Rightarrow> u32" where
  "ctzti2 a =
     (let high = hi_half a :: u64; low = lo_half a :: u64;
          f = - (if low = 0 then 1 else 0) :: u64
      in of_nat (builtin_ctz ((high AND f) OR (low AND NOT f))) + (ucast f AND 64))"

definition ffssi2 :: "u32 \<Rightarrow> u32" where
  "ffssi2 a = (if a = 0 then 0 else of_nat (builtin_ctz a) + 1)"

definition ffsdi2 :: "u64 \<Rightarrow> u32" where
  "ffsdi2 a =
     (if (lo_half a :: u32) = 0 then
        (if (hi_half a :: u32) = 0 then 0
         else of_nat (builtin_ctz (hi_half a :: u32)) + (1 + 32))
      else of_nat (builtin_ctz (lo_half a :: u32)) + 1)"

definition ffsti2 :: "u128 \<Rightarrow> u32" where
  "ffsti2 a =
     (if (lo_half a :: u64) = 0 then
        (if (hi_half a :: u64) = 0 then 0
         else of_nat (builtin_ctz (hi_half a :: u64)) + (1 + 64))
      else of_nat (builtin_ctz (lo_half a :: u64)) + 1)"

section \<open>Byte swap, parity, population count\<close>

definition bswapsi2 :: "u32 \<Rightarrow> u32" where
  "bswapsi2 u =
     drop_bit 24 (u AND 0xff000000) OR drop_bit 8 (u AND 0x00ff0000) OR
     push_bit 8 (u AND 0x0000ff00) OR push_bit 24 (u AND 0x000000ff)"

definition bswapdi2 :: "u64 \<Rightarrow> u64" where
  "bswapdi2 u =
     drop_bit 56 (u AND 0xff00000000000000) OR drop_bit 40 (u AND 0x00ff000000000000) OR
     drop_bit 24 (u AND 0x0000ff0000000000) OR drop_bit 8 (u AND 0x000000ff00000000) OR
     push_bit 8 (u AND 0x00000000ff000000) OR push_bit 24 (u AND 0x0000000000ff0000) OR
     push_bit 40 (u AND 0x000000000000ff00) OR push_bit 56 (u AND 0x00000000000000ff)"

definition paritysi2 :: "u32 \<Rightarrow> u32" where
  "paritysi2 a =
     (let x = a; x = x XOR drop_bit 16 x; x = x XOR drop_bit 8 x; x = x XOR drop_bit 4 x
      in drop_bit (unat (x AND 0xF)) 0x6996 AND 1)"

definition paritydi2 :: "u64 \<Rightarrow> u32" where
  "paritydi2 a = paritysi2 (hi_half a XOR lo_half a)"

definition parityti2 :: "u128 \<Rightarrow> u32" where
  "parityti2 a = paritydi2 (hi_half a XOR lo_half a)"

definition popcountsi2 :: "u32 \<Rightarrow> u32" where
  "popcountsi2 a =
     (let x = a;
          x = x - (drop_bit 1 x AND 0x55555555);
          x = (drop_bit 2 x AND 0x33333333) + (x AND 0x33333333);
          x = (x + drop_bit 4 x) AND 0x0F0F0F0F;
          x = x + drop_bit 16 x
      in (x + drop_bit 8 x) AND 0x0000003F)"

definition popcountdi2 :: "u64 \<Rightarrow> u32" where
  "popcountdi2 a =
     (let x2 = a;
          x2 = x2 - (drop_bit 1 x2 AND 0x5555555555555555);
          x2 = (drop_bit 2 x2 AND 0x3333333333333333) + (x2 AND 0x3333333333333333);
          x2 = (x2 + drop_bit 4 x2) AND 0x0F0F0F0F0F0F0F0F;
          x = ucast (x2 + drop_bit 32 x2) :: u32;
          x = x + drop_bit 16 x
      in (x + drop_bit 8 x) AND 0x0000007F)"

definition popcountti2 :: "u128 \<Rightarrow> u32" where
  "popcountti2 a =
     (let x3 = a;
          m5 = push_bit 64 0x5555555555555555 OR 0x5555555555555555;
          m3 = push_bit 64 0x3333333333333333 OR 0x3333333333333333;
          m0F = push_bit 64 0x0F0F0F0F0F0F0F0F OR 0x0F0F0F0F0F0F0F0F;
          x3 = x3 - (drop_bit 1 x3 AND m5);
          x3 = (drop_bit 2 x3 AND m3) + (x3 AND m3);
          x3 = (x3 + drop_bit 4 x3) AND m0F;
          x2 = ucast (x3 + drop_bit 64 x3) :: u64;
          x = ucast (x2 + drop_bit 32 x2) :: u32;
          x = x + drop_bit 16 x
      in (x + drop_bit 8 x) AND 0xFF)"

section \<open>Two-word shifts and comparisons\<close>

text \<open>
  The text of \<open>__ashldi3\<close> and \<open>__ashlti3\<close> and of their siblings is the same at the half
  widths 32 and 64; the first argument of each definition is the type of the half.
\<close>

definition ashl_w :: "'h::len itself \<Rightarrow> 'w::len word \<Rightarrow> u32 \<Rightarrow> 'w word" where
  "ashl_w t a b =
     (let bits = of_nat LENGTH('h); low = lo_half a :: 'h word; high = hi_half a :: 'h word
      in if b AND bits \<noteq> 0 then join_halves (push_bit (unat (b - bits)) low) 0
         else if b = 0 then a
         else join_halves (push_bit (unat b) high OR drop_bit (unat (bits - b)) low)
                          (push_bit (unat b) low))"

definition lshr_w :: "'h::len itself \<Rightarrow> 'w::len word \<Rightarrow> u32 \<Rightarrow> 'w word" where
  "lshr_w t a b =
     (let bits = of_nat LENGTH('h); low = lo_half a :: 'h word; high = hi_half a :: 'h word
      in if b AND bits \<noteq> 0 then join_halves 0 (drop_bit (unat (b - bits)) high)
         else if b = 0 then a
         else join_halves (drop_bit (unat b) high)
                          (push_bit (unat (bits - b)) high OR drop_bit (unat b) low))"

definition ashr_w :: "'h::len itself \<Rightarrow> 'w::len word \<Rightarrow> u32 \<Rightarrow> 'w word" where
  "ashr_w t a b =
     (let bits = of_nat LENGTH('h); low = lo_half a :: 'h word; high = hi_half a :: 'h word
      in if b AND bits \<noteq> 0 then
           join_halves (signed_drop_bit (LENGTH('h) - 1) high)
                       (signed_drop_bit (unat (b - bits)) high)
         else if b = 0 then a
         else join_halves (signed_drop_bit (unat b) high)
                          (push_bit (unat (bits - b)) high OR drop_bit (unat b) low))"

definition cmp_w :: "'h::len itself \<Rightarrow> 'w::len word \<Rightarrow> 'w word \<Rightarrow> u32" where
  "cmp_w t a b =
     (let xh = hi_half a :: 'h word; xl = lo_half a :: 'h word;
          yh = hi_half b :: 'h word; yl = lo_half b :: 'h word
      in if xh <s yh then 0 else if yh <s xh then 2
         else if xl < yl then 0 else if yl < xl then 2 else 1)"

definition ucmp_w :: "'h::len itself \<Rightarrow> 'w::len word \<Rightarrow> 'w word \<Rightarrow> u32" where
  "ucmp_w t a b =
     (let xh = hi_half a :: 'h word; xl = lo_half a :: 'h word;
          yh = hi_half b :: 'h word; yl = lo_half b :: 'h word
      in if xh < yh then 0 else if yh < xh then 2
         else if xl < yl then 0 else if yl < xl then 2 else 1)"

definition ashldi3 :: "u64 \<Rightarrow> u32 \<Rightarrow> u64" where "ashldi3 = ashl_w TYPE(32)"
definition ashlti3 :: "u128 \<Rightarrow> u32 \<Rightarrow> u128" where "ashlti3 = ashl_w TYPE(64)"
definition lshrdi3 :: "u64 \<Rightarrow> u32 \<Rightarrow> u64" where "lshrdi3 = lshr_w TYPE(32)"
definition lshrti3 :: "u128 \<Rightarrow> u32 \<Rightarrow> u128" where "lshrti3 = lshr_w TYPE(64)"
definition ashrdi3 :: "u64 \<Rightarrow> u32 \<Rightarrow> u64" where "ashrdi3 = ashr_w TYPE(32)"
definition ashrti3 :: "u128 \<Rightarrow> u32 \<Rightarrow> u128" where "ashrti3 = ashr_w TYPE(64)"
definition cmpdi2 :: "u64 \<Rightarrow> u64 \<Rightarrow> u32" where "cmpdi2 = cmp_w TYPE(32)"
definition cmpti2 :: "u128 \<Rightarrow> u128 \<Rightarrow> u32" where "cmpti2 = cmp_w TYPE(64)"
definition ucmpdi2 :: "u64 \<Rightarrow> u64 \<Rightarrow> u32" where "ucmpdi2 = ucmp_w TYPE(32)"
definition ucmpti2 :: "u128 \<Rightarrow> u128 \<Rightarrow> u32" where "ucmpti2 = ucmp_w TYPE(64)"

lemmas wide_instances [rt_defs] =
  ashldi3_def ashlti3_def lshrdi3_def lshrti3_def ashrdi3_def ashrti3_def
  cmpdi2_def cmpti2_def ucmpdi2_def ucmpti2_def

section \<open>Binary digits\<close>

lemma nlen_le: "nlen n \<le> k \<longleftrightarrow> n < 2 ^ k"
proof (induction n arbitrary: k rule: nlen.induct)
  case (1 n)
  show ?case
  proof (cases "n = 0")
    case False
    with 1 show ?thesis
      by (cases k) (auto simp: nlen.simps [of n] less_mult_imp_div_less div_less_iff_less_mult
          mult.commute)
  qed (simp add: nlen.simps)
qed

lemma nlen_0 [simp]: "nlen 0 = 0" by (simp add: nlen.simps)

lemma nlen_pos: "n \<noteq> 0 \<Longrightarrow> 0 < nlen n" by (simp add: nlen.simps [of n])

lemma nlen_lower: "n \<noteq> 0 \<Longrightarrow> 2 ^ (nlen n - 1) \<le> n"
  using nlen_le [of n "nlen n - 1"] nlen_pos [of n] by linarith

lemma nlen_upper: "n < 2 ^ nlen n"
  using nlen_le [of n "nlen n"] by simp

lemma nlen_unique: "2 ^ k \<le> n \<Longrightarrow> n < 2 ^ Suc k \<Longrightarrow> nlen n = Suc k"
  by (metis le_SucE le_antisym nlen_le not_less)

lemma nlen_div: "nlen (n div 2 ^ j) = nlen n - j"
proof (rule antisym)
  have "n < 2 ^ (nlen n - j + j)"
    by (rule less_le_trans [OF nlen_upper]) (rule power_increasing, auto)
  then show "nlen (n div 2 ^ j) \<le> nlen n - j"
    by (simp add: nlen_le less_mult_imp_div_less flip: power_add)
  have "n div 2 ^ j < 2 ^ nlen (n div 2 ^ j)" by (rule nlen_upper)
  then have "n < 2 ^ (nlen (n div 2 ^ j) + j)"
    by (simp add: power_add div_less_iff_less_mult)
  then show "nlen n - j \<le> nlen (n div 2 ^ j)"
    using nlen_le [of n "nlen (n div 2 ^ j) + j"] by simp
qed

lemma ntz_odd [simp]: "odd n \<Longrightarrow> ntz n = 0" by (simp add: ntz.simps)

lemma ntz_double: "n \<noteq> 0 \<Longrightarrow> ntz (2 * n) = Suc (ntz n)"
  by (simp add: ntz.simps [of "2 * n"])

lemma ntz_shift: "n \<noteq> 0 \<Longrightarrow> ntz (2 ^ k * n) = k + ntz n"
  by (induction k) (simp_all add: ntz_double mult.assoc)

lemma ntz_decomp: "n \<noteq> 0 \<Longrightarrow> \<exists>m. odd m \<and> n = 2 ^ ntz n * m"
proof (induction n rule: ntz.induct)
  case (1 n)
  show ?case
  proof (cases "odd n")
    case False
    with 1 have nz: "n div 2 \<noteq> 0" by auto
    with 1 False obtain m where m: "odd m" "n div 2 = 2 ^ ntz (n div 2) * m" by auto
    have "ntz n = Suc (ntz (n div 2))" using False 1 by (simp add: ntz.simps [of n])
    moreover have "n = 2 * (n div 2)" using False by simp
    ultimately have "n = 2 ^ ntz n * m" using m(2) by (metis mult.assoc power_Suc)
    with m(1) show ?thesis by blast
  qed (auto intro: exI [of _ n])
qed

section \<open>The counting routines\<close>

lemma small_word_numerals [simp]:
  "unat (of_nat k :: u32) = k" if "k < 2 ^ 32"
  using that by (simp add: unat_of_nat)

text \<open>One halving step of \<open>__clzsi2\<close>, on a value below \<open>2 ^ (2 * k)\<close>.\<close>

lemma clz_step:
  fixes x m t K :: u32
  assumes x: "unat x < 2 ^ (2 * k)" and k: "k \<le> 16" and K: "K = of_nat k"
    and m: "m = push_bit k (mask k)" and t: "t = (if x AND m = 0 then K else 0)"
  shows "unat (drop_bit (unat (K - t)) x) < 2 ^ k"
    and "unat t + (k - nlen (unat (drop_bit (unat (K - t)) x))) = 2 * k - nlen (unat x)"
    and "unat t \<le> k"
proof -
  have "unat x div 2 ^ k < 2 ^ k"
    using x by (simp add: less_mult_imp_div_less power_add mult_2)
  then have z: "x AND m = 0 \<longleftrightarrow> unat x < 2 ^ k"
    by (simp add: m and_high_mask_0 div_eq_0_iff)
  have k32: "k < 2 ^ 32" using k by simp
  show "unat t \<le> k" using k32 by (simp add: t K)
  have ut: "unat (K - t) = (if unat x < 2 ^ k then 0 else k)"
    using k32 by (simp add: t z K)
  show "unat (drop_bit (unat (K - t)) x) < 2 ^ k"
    using \<open>unat x div 2 ^ k < 2 ^ k\<close> by (simp add: ut unat_drop_bit)
  have "\<not> unat x < 2 ^ k \<Longrightarrow> k < nlen (unat x)" using nlen_le [of "unat x" k] by simp
  moreover have "nlen (unat x) \<le> 2 * k" using x by (simp add: nlen_le)
  moreover have "unat x < 2 ^ k \<Longrightarrow> nlen (unat x) \<le> k" by (simp add: nlen_le)
  ultimately show "unat t + (k - nlen (unat (drop_bit (unat (K - t)) x))) = 2 * k - nlen (unat x)"
    using k32 by (auto simp: ut unat_drop_bit nlen_div t z K)
qed

lemma clz_last:
  fixes x :: u32
  assumes "unat x < 4"
  shows "(2 - x) AND - (if x AND 2 = 0 then 1 else 0) = of_nat (2 - nlen (unat x))"
proof -
  have "x = 0 \<or> x = 1 \<or> x = 2 \<or> x = 3"
    using assms by (simp add: word_unat_eq_iff) arith
  then show ?thesis by (auto simp: nlen.simps)
qed

lemma clzsi2_correct: "clzsi2 a = of_nat (builtin_clz a)"
proof -
  define t1 :: u32 where "t1 = (if a AND 0xFFFF0000 = 0 then 16 else 0)"
  define x1 where "x1 = drop_bit (unat (16 - t1)) a"
  define t2 :: u32 where "t2 = (if x1 AND 0xFF00 = 0 then 8 else 0)"
  define x2 where "x2 = drop_bit (unat (8 - t2)) x1"
  define t3 :: u32 where "t3 = (if x2 AND 0xF0 = 0 then 4 else 0)"
  define x3 where "x3 = drop_bit (unat (4 - t3)) x2"
  define t4 :: u32 where "t4 = (if x3 AND 0xC = 0 then 2 else 0)"
  define x4 where "x4 = drop_bit (unat (2 - t4)) x3"
  have m: "(0xFFFF0000 :: u32) = push_bit 16 (mask 16)" "(0xFF00 :: u32) = push_bit 8 (mask 8)"
    "(0xF0 :: u32) = push_bit 4 (mask 4)" "(0xC :: u32) = push_bit 2 (mask 2)"
    by (simp_all add: mask_eq_exp_minus_1)
  have "unat a < 2 ^ (2 * 16)" using unsigned_less [of a, where ?'a = nat] by simp
  note s1 = clz_step [OF this _ _ m(1) t1_def, folded x1_def]
  have "unat x1 < 2 ^ (2 * 8)" using s1(1) by simp
  note s2 = clz_step [OF this _ _ m(2) t2_def, folded x2_def]
  have "unat x2 < 2 ^ (2 * 4)" using s2(1) by simp
  note s3 = clz_step [OF this _ _ m(3) t3_def, folded x3_def]
  have "unat x3 < 2 ^ (2 * 2)" using s3(1) by simp
  note s4 = clz_step [OF this _ _ m(4) t4_def, folded x4_def]
  have x4: "unat x4 < 4" using s4(1) by simp
  have "clzsi2 a = t1 + t2 + t3 + t4 + ((2 - x4) AND - (if x4 AND 2 = 0 then 1 else 0))"
    by (simp only: clzsi2_def Let_def t1_def t2_def t3_def t4_def x1_def x2_def x3_def x4_def)
  also have "\<dots> = of_nat (unat t1 + unat t2 + unat t3 + unat t4 + (2 - nlen (unat x4)))"
    by (simp add: clz_last [OF x4])
  also have "unat t1 + unat t2 + unat t3 + unat t4 + (2 - nlen (unat x4)) = 32 - nlen (unat a)"
    using s1(2) s2(2) s3(2) s4(2) by simp
  finally show ?thesis by (simp add: builtin_clz_def)
qed

lemma ntz_eq: "odd m \<Longrightarrow> ntz (2 ^ k * m) = k"
  by (subst ntz_shift) (auto intro: odd_pos)

lemma ntz_less: "n mod 2 ^ k \<noteq> 0 \<longleftrightarrow> ntz n < k" if n: "n \<noteq> 0"
proof -
  obtain m where m: "odd m" "n = 2 ^ ntz n * m" using ntz_decomp [OF n] by blast
  have "2 ^ k dvd n \<longleftrightarrow> k \<le> ntz n"
  proof
    assume "2 ^ k dvd n"
    show "k \<le> ntz n"
    proof (rule ccontr)
      assume "\<not> k \<le> ntz n"
      then have "2 ^ Suc (ntz n) dvd n"
        using \<open>2 ^ k dvd n\<close> by (metis dvd_trans le_imp_power_dvd not_less_eq_eq)
      then have "2 dvd m" using m(2) by (metis nat_mult_dvd_cancel_disj power_Suc2 power_eq_0_iff zero_neq_numeral)
      with m(1) show False by simp
    qed
  next
    assume "k \<le> ntz n"
    then show "2 ^ k dvd n" using m(2) by (metis dvd_triv_left dvd_trans le_imp_power_dvd)
  qed
  then show ?thesis by (auto simp: dvd_eq_mod_eq_0)
qed

lemma ntz_div: "n \<noteq> 0 \<Longrightarrow> k \<le> ntz n \<Longrightarrow> ntz (n div 2 ^ k) = ntz n - k \<and> n div 2 ^ k \<noteq> 0"
proof -
  assume n: "n \<noteq> 0" and k: "k \<le> ntz n"
  obtain m where m: "odd m" "n = 2 ^ ntz n * m" using ntz_decomp [OF n] by blast
  have "n = 2 ^ k * (2 ^ (ntz n - k) * m)"
    using m(2) k by (metis le_add_diff_inverse mult.assoc power_add)
  then have "n div 2 ^ k = 2 ^ (ntz n - k) * m"
    by (metis nonzero_mult_div_cancel_left power_eq_0_iff zero_neq_numeral)
  with m(1) show ?thesis by (auto simp: ntz_eq elim: oddE)
qed

lemma ctz_step:
  fixes x t :: u32
  assumes x: "unat x mod 2 ^ (2 * k) \<noteq> 0" and k: "k \<le> 16"
    and t: "t = (if x AND mask k = 0 then of_nat k else 0)"
  shows "unat (drop_bit (unat t) x) mod 2 ^ k \<noteq> 0"
    and "unat t + ntz (unat (drop_bit (unat t) x)) = ntz (unat x)"
proof -
  have k32: "k < 2 ^ 32" using k by simp
  have x0: "unat x \<noteq> 0" using x by (intro notI) simp
  have z: "x AND mask k = 0 \<longleftrightarrow> k \<le> ntz (unat x)"
    using ntz_less [OF x0, of k] by (metis unat_and_mask unat_eq_0 not_less)
  have n2: "ntz (unat x) < 2 * k" using ntz_less [OF x0] x by blast
  have ut: "unat t = (if k \<le> ntz (unat x) then k else 0)" using k32 by (simp add: t z)
  show "unat t + ntz (unat (drop_bit (unat t) x)) = ntz (unat x)"
    using ntz_div [OF x0, of k] by (simp add: ut unat_drop_bit)
  have "unat (drop_bit (unat t) x) \<noteq> 0"
    using ntz_div [OF x0, of k] x0 by (simp add: ut unat_drop_bit)
  note ntz_less [OF this, of k]
  moreover have "ntz (unat (drop_bit (unat t) x)) < k"
    using ntz_div [OF x0, of k] n2 by (auto simp: ut unat_drop_bit)
  ultimately show "unat (drop_bit (unat t) x) mod 2 ^ k \<noteq> 0" by blast
qed

lemma ctz_last:
  fixes x :: u32
  assumes "unat x mod 2 ^ 2 \<noteq> 0"
  shows "(2 - drop_bit 1 (x AND 3)) AND - (if (x AND 3) AND 1 = 0 then 1 else 0) = of_nat (ntz (unat x))"
proof -
  define y where "y = x AND 3"
  have 3: "(3 :: u32) = mask 2" by (simp add: mask_eq_exp_minus_1)
  have u: "unat y = unat x mod 4" by (simp add: y_def 3 unat_and_mask)
  have x0: "unat x \<noteq> 0" using assms by (intro notI) simp
  have "unat x mod 4 \<in> {1, 2, 3}" using assms by auto
  then have "y = 1 \<and> unat x mod 4 = 1 \<or> y = 2 \<and> unat x mod 4 = 2 \<or> y = 3 \<and> unat x mod 4 = 3"
    by (auto simp: word_unat_eq_iff u)
  moreover have "ntz (unat x) = (if unat x mod 4 = 2 then 1 else 0)"
    using ntz_less [OF x0, of 2] ntz_less [OF x0, of 1] assms by simp presburger
  ultimately show ?thesis unfolding y_def [symmetric] by (elim disjE) simp_all
qed

lemma ctzsi2_correct:
  assumes "a \<noteq> 0"
  shows "ctzsi2 a = of_nat (builtin_ctz a)"
proof -
  define t1 :: u32 where "t1 = (if a AND 0xFFFF = 0 then 16 else 0)"
  define x1 where "x1 = drop_bit (unat t1) a"
  define t2 :: u32 where "t2 = (if x1 AND 0xFF = 0 then 8 else 0)"
  define x2 where "x2 = drop_bit (unat t2) x1"
  define t3 :: u32 where "t3 = (if x2 AND 0xF = 0 then 4 else 0)"
  define x3 where "x3 = drop_bit (unat t3) x2"
  define t4 :: u32 where "t4 = (if x3 AND 0x3 = 0 then 2 else 0)"
  define x4 where "x4 = drop_bit (unat t4) x3"
  have t: "t1 = (if a AND mask 16 = 0 then of_nat 16 else 0)"
    "t2 = (if x1 AND mask 8 = 0 then of_nat 8 else 0)"
    "t3 = (if x2 AND mask 4 = 0 then of_nat 4 else 0)"
    "t4 = (if x3 AND mask 2 = 0 then of_nat 2 else 0)"
    by (simp_all add: t1_def t2_def t3_def t4_def mask_eq_exp_minus_1)
  have "unat a mod 2 ^ (2 * 16) \<noteq> 0"
    using assms unsigned_less [of a, where ?'a = nat] by (simp add: unat_eq_0)
  note s1 = ctz_step [OF this _ t(1), folded x1_def]
  have "unat x1 mod 2 ^ (2 * 8) \<noteq> 0" using s1(1) by simp
  note s2 = ctz_step [OF this _ t(2), folded x2_def]
  have "unat x2 mod 2 ^ (2 * 4) \<noteq> 0" using s2(1) by simp
  note s3 = ctz_step [OF this _ t(3), folded x3_def]
  have "unat x3 mod 2 ^ (2 * 2) \<noteq> 0" using s3(1) by simp
  note s4 = ctz_step [OF this _ t(4), folded x4_def]
  have x4: "unat x4 mod 2 ^ 2 \<noteq> 0" using s4(1) by simp
  have "ctzsi2 a = t1 + t2 + t3 + t4 +
      ((2 - drop_bit 1 (x4 AND 3)) AND - (if (x4 AND 3) AND 1 = 0 then 1 else 0))"
    by (simp only: ctzsi2_def Let_def t1_def t2_def t3_def t4_def x1_def x2_def x3_def x4_def)
  also have "\<dots> = of_nat (unat t1 + unat t2 + unat t3 + unat t4 + ntz (unat x4))"
    by (simp only: ctz_last [OF x4]) simp
  also have "unat t1 + unat t2 + unat t3 + unat t4 + ntz (unat x4) = ntz (unat a)"
    using s1(2) s2(2) s3(2) s4(2) by simp
  finally show ?thesis by (simp add: builtin_ctz_def)
qed

section \<open>Double words\<close>

lemma sint_eq_iff: "sint a = sint b \<longleftrightarrow> a = (b :: 'b::len word)"
  by (auto intro: signed_word_eqI)

lemma sint_unat_top:
  "sint (y :: 'b::len word) = int (unat y) - (if bit y (LENGTH('b) - 1) then 2 ^ LENGTH('b) else 0)"
  by (simp add: sint_uint signed_take_bit_eq_take_bit_minus bit_uint_iff bintr_uint)

text \<open>
  The interface between a two-word union and the routines that work on its halves: the
  half width is a power of two and the whole is twice as wide. It is interpreted below at
  the two unions of \<^verbatim>\<open>int_types.h\<close>, \<open>dwords\<close> (32/64) and \<open>twords\<close> (64/128).
\<close>

locale double_word =
  fixes h :: "'h::len itself" and w :: "'w::len itself" and k :: nat
  assumes half_len: "LENGTH('h) = 2 ^ k" and full_len: "LENGTH('w) = 2 * 2 ^ k"
    and small: "0 < k" "k < 30"
begin

lemma bit_join: "bit (join_halves a b :: 'w word) n \<longleftrightarrow>
    (if n < LENGTH('h) then bit (b :: 'h word) n else n < LENGTH('w) \<and> bit (a :: 'h word) (n - LENGTH('h)))"
  by (auto simp: join_halves_def bit_simps half_len full_len dest: bit_imp_le_length)

lemma bit_lo: "bit (lo_half x :: 'h word) n \<longleftrightarrow> n < LENGTH('h) \<and> bit (x :: 'w word) n"
  by (auto simp: lo_half_def bit_simps)

lemma bit_hi: "bit (hi_half x :: 'h word) n \<longleftrightarrow> n < LENGTH('h) \<and> bit (x :: 'w word) (n + LENGTH('h))"
  by (auto simp: hi_half_def bit_simps add.commute)

lemma lo_join [simp]: "lo_half (join_halves a b :: 'w word) = (b :: 'h word)"
  by (rule bit_word_eqI) (simp add: bit_lo bit_join)

lemma hi_join [simp]: "hi_half (join_halves a b :: 'w word) = (a :: 'h word)"
  by (rule bit_word_eqI) (simp add: bit_hi bit_join half_len full_len)

lemma join_hi_lo [simp]: "join_halves (hi_half x :: 'h word) (lo_half x) = (x :: 'w word)"
  by (rule bit_word_eqI) (auto simp: bit_join bit_lo bit_hi half_len full_len)

lemma unat_lo: "unat (lo_half x :: 'h word) = unat (x :: 'w word) mod 2 ^ LENGTH('h)"
  by (simp add: lo_half_def unsigned_ucast_eq take_bit_eq_mod)

lemma unat_hi: "unat (hi_half x :: 'h word) = unat (x :: 'w word) div 2 ^ LENGTH('h)"
proof -
  have "unat x < 2 ^ LENGTH('w)" by (rule unsigned_less)
  then have "unat x < 2 ^ LENGTH('h) * 2 ^ LENGTH('h)"
    by (simp add: half_len full_len mult_2 power_add)
  then have "unat x div 2 ^ LENGTH('h) < 2 ^ LENGTH('h)" by (rule less_mult_imp_div_less)
  then show ?thesis
    by (simp add: hi_half_def unsigned_ucast_eq take_bit_nat_eq_self unat_drop_bit)
qed

lemma unat_halves: "unat (x :: 'w word) =
    unat (hi_half x :: 'h word) * 2 ^ LENGTH('h) + unat (lo_half x :: 'h word)"
  by (simp add: unat_hi unat_lo div_mult_mod_eq)

lemma unat_join: "unat (join_halves a b :: 'w word) = unat (a :: 'h word) * 2 ^ LENGTH('h) + unat b"
  using unat_halves [of "join_halves a b"] by simp

lemma w2: "LENGTH('w) = 2 * LENGTH('h)"
  by (simp add: half_len full_len)

lemma sint_halves: "sint (x :: 'w word) =
    sint (hi_half x :: 'h word) * 2 ^ LENGTH('h) + int (unat (lo_half x :: 'h word))"
proof -
  have "LENGTH('h) - 1 + LENGTH('h) = LENGTH('w) - 1" by (simp add: w2)
  then have "bit (hi_half x :: 'h word) (LENGTH('h) - 1) \<longleftrightarrow> bit x (LENGTH('w) - 1)"
    by (simp add: bit_hi)
  then show ?thesis
    by (simp add: sint_unat_top unat_halves [of x] w2 algebra_simps flip: power_add mult_2)
qed

lemma join_shl_far:
  "LENGTH('h) \<le> s \<Longrightarrow>
    join_halves (push_bit (s - LENGTH('h)) (lo_half a :: 'h word)) 0 = push_bit s (a :: 'w word)"
  by (rule bit_word_eqI) (auto simp: bit_join bit_lo bit_simps w2 intro: arg_cong [of _ _ "bit a"])

lemma join_shl_near:
  "s < LENGTH('h) \<Longrightarrow>
    join_halves (push_bit s (hi_half a) OR drop_bit (LENGTH('h) - s) (lo_half a :: 'h word))
      (push_bit s (lo_half a)) = push_bit s (a :: 'w word)"
  by (rule bit_word_eqI)
     (auto simp: bit_join bit_lo bit_hi bit_simps w2 not_less intro: arg_cong [of _ _ "bit a", THEN iffD1])

lemma join_shr_far:
  "LENGTH('h) \<le> s \<Longrightarrow>
    join_halves 0 (drop_bit (s - LENGTH('h)) (hi_half a :: 'h word)) = drop_bit s (a :: 'w word)"
  by (rule bit_word_eqI) (auto simp: bit_join bit_hi bit_simps w2 dest: bit_imp_le_length)

lemma join_shr_near:
  "s < LENGTH('h) \<Longrightarrow>
    join_halves (drop_bit s (hi_half a))
      (push_bit (LENGTH('h) - s) (hi_half a) OR drop_bit s (lo_half a :: 'h word)) = drop_bit s (a :: 'w word)"
  by (rule bit_word_eqI) (auto simp: bit_join bit_lo bit_hi bit_simps w2 not_less add.commute dest: bit_imp_le_length)

text \<open>The shift count as the source tests it: one bit of \<open>b\<close> selects the upper half.\<close>

lemma count_cases:
  fixes b :: u32
  assumes b: "unat b < LENGTH('w)"
  shows "b AND of_nat LENGTH('h) \<noteq> 0 \<longleftrightarrow> LENGTH('h) \<le> unat b"
    and "LENGTH('h) \<le> unat b \<Longrightarrow> unat (b - of_nat LENGTH('h)) = unat b - LENGTH('h)"
    and "unat b < LENGTH('h) \<Longrightarrow> unat (of_nat LENGTH('h) - b) = LENGTH('h) - unat b"
proof -
  have "(2::nat) ^ k < 2 ^ 32" using small by (intro power_strict_increasing) auto
  then have u: "unat (of_nat LENGTH('h) :: u32) = LENGTH('h)"
    by (simp only: half_len small_word_numerals)
  have "b AND push_bit k 1 \<noteq> 0 \<longleftrightarrow> bit b k"
    using and_exp_eq_0_iff_not_bit [of b k] by (simp add: push_bit_eq_mult)
  also have "bit b k \<longleftrightarrow> bit (unat b) k"
    using small by (simp add: bit_unsigned_iff)
  also have "\<dots> \<longleftrightarrow> odd (unat b div 2 ^ k)"
    by (rule bit_iff_odd)
  also have "\<dots> \<longleftrightarrow> 2 ^ k \<le> unat b"
  proof (cases "2 ^ k \<le> unat b")
    case True
    moreover have "unat b < 2 ^ Suc k" using b by (simp add: full_len)
    ultimately have "unat b div 2 ^ k = 1" by (intro div_nat_eqI) auto
    with True show ?thesis by simp
  qed simp
  finally show "b AND of_nat LENGTH('h) \<noteq> 0 \<longleftrightarrow> LENGTH('h) \<le> unat b"
    by (simp add: half_len push_bit_eq_mult)
  show "LENGTH('h) \<le> unat b \<Longrightarrow> unat (b - of_nat LENGTH('h)) = unat b - LENGTH('h)"
    by (simp only: unat_sub u word_le_nat_alt)
  show "unat b < LENGTH('h) \<Longrightarrow> unat (of_nat LENGTH('h) - b) = LENGTH('h) - unat b"
    by (simp only: unat_sub u word_le_nat_alt)
qed

lemma ashl_w_correct:
  assumes "unat b < LENGTH('w)"
  shows "ashl_w h a b = push_bit (unat b) (a :: 'w word)"
  using count_cases [OF assms] by (auto simp: ashl_w_def Let_def join_shl_far join_shl_near not_le)

lemma lshr_w_correct:
  assumes "unat b < LENGTH('w)"
  shows "lshr_w h a b = drop_bit (unat b) (a :: 'w word)"
  using count_cases [OF assms] by (auto simp: lshr_w_def Let_def join_shr_far join_shr_near not_le)

lemma ashr_w_correct:
  assumes "unat b < LENGTH('w)"
  shows "ashr_w h a b = signed_drop_bit (unat b) (a :: 'w word)"
proof (rule bit_word_eqI)
  fix n assume "n < LENGTH('w)"
  then show "bit (ashr_w h a b) n \<longleftrightarrow> bit (signed_drop_bit (unat b) a) n"
    using count_cases [OF assms] assms
    by (auto simp: ashr_w_def Let_def bit_join bit_lo bit_hi bit_simps bit_signed_drop_bit_iff w2 not_le mult_2
        add.commute)
qed

lemma halves_eq: "a = b \<longleftrightarrow> (hi_half a :: 'h word) = hi_half b \<and> (lo_half a :: 'h word) = lo_half (b :: 'w word)"
  by (metis join_hi_lo)

lemma lex_less:
  fixes l m M :: int
  assumes "0 \<le> l" "l < M" "0 \<le> m" "m < M"
  shows "i * M + l < j * M + m \<longleftrightarrow> i < j \<or> i = j \<and> l < m"
proof -
  have "i * M + l < j * M + m" if "i < j"
  proof -
    have "(i + 1) * M \<le> j * M" using that assms by (intro mult_right_mono) auto
    with assms show ?thesis by (simp add: algebra_simps)
  qed
  moreover have "j * M + m < i * M + l" if "j < i"
  proof -
    have "(j + 1) * M \<le> i * M" using that assms by (intro mult_right_mono) auto
    with assms show ?thesis by (simp add: algebra_simps)
  qed
  ultimately show ?thesis by (cases i j rule: linorder_cases) auto
qed

lemma low_bounds: "0 \<le> int (unat (l :: 'h word))" "int (unat l) < 2 ^ LENGTH('h)"
  using unsigned_less [of l, where ?'a = int] by simp_all

lemma less_halves: "(a :: 'w word) < b \<longleftrightarrow> (hi_half a :: 'h word) < hi_half b \<or>
    (hi_half a :: 'h word) = hi_half b \<and> (lo_half a :: 'h word) < lo_half b"
proof -
  have "a < b \<longleftrightarrow> int (unat a) < int (unat b)" by (simp only: word_less_nat_alt of_nat_less_iff)
  also have "\<dots> \<longleftrightarrow> int (unat (hi_half a :: 'h word)) * 2 ^ LENGTH('h) + int (unat (lo_half a :: 'h word))
      < int (unat (hi_half b :: 'h word)) * 2 ^ LENGTH('h) + int (unat (lo_half b :: 'h word))"
    by (simp only: unat_halves [of a] unat_halves [of b] of_nat_add of_nat_mult of_nat_power of_nat_numeral)
  finally show ?thesis
    by (simp only: lex_less [OF low_bounds low_bounds] of_nat_less_iff of_nat_eq_iff
        word_less_nat_alt unsigned_word_eqI word_unat_eq_iff)
qed

lemma sless_halves: "(a :: 'w word) <s b \<longleftrightarrow> (hi_half a :: 'h word) <s hi_half b \<or>
    (hi_half a :: 'h word) = hi_half b \<and> (lo_half a :: 'h word) < lo_half b"
  by (simp only: word_sless_alt sint_halves [of a] sint_halves [of b] lex_less [OF low_bounds low_bounds]
      word_less_nat_alt of_nat_less_iff sint_eq_iff)

lemma ucmp_w_correct: "ucmp_w h a b = (if (a :: 'w word) < b then 0 else if a = b then 1 else 2)"
  by (auto simp: ucmp_w_def Let_def less_halves halves_eq)

lemma cmp_w_correct: "cmp_w h a b = (if (a :: 'w word) <s b then 0 else if a = b then 1 else 2)"
  by (auto simp: cmp_w_def Let_def sless_halves halves_eq word_sless_alt signed_word_eqI)

end

interpretation dw: double_word "TYPE(32)" "TYPE(64)" 5
  by unfold_locales simp_all

interpretation tw: double_word "TYPE(64)" "TYPE(128)" 6
  by unfold_locales simp_all

section \<open>Counting in double words\<close>

lemma nlen_join: "l < 2 ^ n \<Longrightarrow> nlen (h * 2 ^ n + l) = (if h = 0 then nlen l else nlen h + n)"
proof (cases "h = 0")
  case False
  assume l: "l < 2 ^ n"
  have "nlen ((h * 2 ^ n + l) div 2 ^ n) = nlen (h * 2 ^ n + l) - n" by (rule nlen_div)
  moreover have "(h * 2 ^ n + l) div 2 ^ n = h" using l by simp
  ultimately show ?thesis using False nlen_pos [of h] by simp
qed simp

lemma ntz_join: "l < 2 ^ n \<Longrightarrow> h \<noteq> 0 \<or> l \<noteq> 0 \<Longrightarrow> ntz (h * 2 ^ n + l) = (if l = 0 then ntz h + n else ntz l)"
proof (cases "l = 0")
  case True
  assume "h \<noteq> 0 \<or> l \<noteq> 0"
  with True show ?thesis using ntz_shift [of h n] by (simp add: mult.commute)
next
  case False
  assume l: "l < 2 ^ n"
  obtain m where m: "odd m" "l = 2 ^ ntz l * m" using ntz_decomp [OF False] by blast
  have "ntz l < n" using ntz_less [OF False, of n] l False by simp
  then obtain d where d: "n = ntz l + Suc d" by (metis add_Suc_right less_imp_Suc_add)
  have "(2::nat) ^ n = 2 ^ ntz l * (2 * 2 ^ d)" by (subst d) (simp add: power_add)
  then have "h * 2 ^ n + 2 ^ ntz l * m = 2 ^ ntz l * (2 * (h * 2 ^ d) + m)"
    by (simp add: algebra_simps)
  then have "h * 2 ^ n + l = 2 ^ ntz l * (2 * (h * 2 ^ d) + m)" using m(2) by argo
  then have "ntz (h * 2 ^ n + l) = ntz l" using m(1) by (metis ntz_eq odd_add even_mult_iff even_numeral)
  with False show ?thesis by simp
qed

lemma nonzero_halves: "(a :: 'b::len word) \<noteq> 0 \<longleftrightarrow> unat a \<noteq> 0"
  by (simp add: unat_eq_0)

context double_word
begin

lemma lo_less: "unat (l :: 'h word) < 2 ^ LENGTH('h)"
  by (rule unsigned_less)

lemma halves_0: "(a :: 'w word) = 0 \<longleftrightarrow> (hi_half a :: 'h word) = 0 \<and> (lo_half a :: 'h word) = 0"
  by (subst halves_eq) (simp add: hi_half_def lo_half_def)

lemma clz_halves: "builtin_clz (a :: 'w word) =
    (if (hi_half a :: 'h word) = 0 then builtin_clz (lo_half a :: 'h word) + LENGTH('h)
     else builtin_clz (hi_half a :: 'h word))"
proof -
  have "nlen (unat (x :: 'h word)) \<le> LENGTH('h)" for x
    using unsigned_less [of x, where ?'a = nat] by (simp add: nlen_le)
  note this [of "lo_half a"] this [of "hi_half a"]
  then show ?thesis
    by (auto simp: builtin_clz_def unat_halves [of a] nlen_join [OF lo_less] unat_eq_0 w2)
qed

lemma ctz_halves: "a \<noteq> 0 \<Longrightarrow> builtin_ctz (a :: 'w word) =
    (if (lo_half a :: 'h word) = 0 then builtin_ctz (hi_half a :: 'h word) + LENGTH('h)
     else builtin_ctz (lo_half a :: 'h word))"
  using halves_0 [of a] ntz_join [OF lo_less [of "lo_half a"], of "unat (hi_half a :: 'h word)"]
  by (auto simp: builtin_ctz_def unat_halves [of a] unat_eq_0)

end

lemma ctz_less: "a \<noteq> 0 \<Longrightarrow> builtin_ctz (a :: 'b::len word) < LENGTH('b)"
  using ntz_less [of "unat a" "LENGTH('b)"] unsigned_less [of a, where ?'a = nat]
  by (simp add: builtin_ctz_def unat_eq_0)

lemma clzdi2_correct: "a \<noteq> 0 \<Longrightarrow> clzdi2 a = of_nat (builtin_clz a)"
  by (simp add: clzdi2_def Let_def dw.clz_halves)

lemma ucast_flag: "ucast (- 1 :: u64) AND 64 = (64 :: u32)"
proof -
  have "ucast (- 1 :: u64) = (- 1 :: u32)" by (rule bit_word_eqI) (simp add: bit_ucast_iff)
  then show ?thesis by simp
qed

lemma clzti2_correct: "a \<noteq> 0 \<Longrightarrow> clzti2 a = of_nat (builtin_clz a)"
  by (simp add: clzti2_def Let_def ucast_flag tw.clz_halves)

lemma ctzdi2_correct: "a \<noteq> 0 \<Longrightarrow> ctzdi2 a = of_nat (builtin_ctz a)"
  by (simp add: ctzdi2_def Let_def dw.ctz_halves)

lemma ctzti2_correct: "a \<noteq> 0 \<Longrightarrow> ctzti2 a = of_nat (builtin_ctz a)"
  by (simp add: ctzti2_def Let_def ucast_flag tw.ctz_halves)

text \<open>Find-first-set: one more than the number of trailing zeros, 0 for 0.\<close>

definition ffs_spec :: "'b::len word \<Rightarrow> u32" where
  "ffs_spec a = (if a = 0 then 0 else of_nat (builtin_ctz a + 1))"

lemma ffs_correct: "ffssi2 x = ffs_spec x" "ffsdi2 y = ffs_spec y" "ffsti2 z = ffs_spec z"
  by (auto simp: ffssi2_def ffsdi2_def ffsti2_def ffs_spec_def dw.ctz_halves tw.ctz_halves
      dw.halves_0 tw.halves_0)

section \<open>Byte order\<close>

text \<open>The byte at position \<open>i\<close> of a byte-swapped word is the byte at the mirrored position.\<close>

definition byte_at :: "nat \<Rightarrow> 'b::len word \<Rightarrow> byte" where
  "byte_at i x = ucast (drop_bit (8 * i) x)"

lemma bit_byte_at: "bit (byte_at i (x :: 'b::len word)) n \<longleftrightarrow> n < 8 \<and> bit x (8 * i + n)"
  by (auto simp: byte_at_def bit_simps)

lemma less_4: "i < (4::nat) \<longleftrightarrow> i = 0 \<or> i = 1 \<or> i = 2 \<or> i = 3" by arith
lemma less_8: "i < (8::nat) \<longleftrightarrow> i < 4 \<or> i = 4 \<or> i = 5 \<or> i = 6 \<or> i = 7" by arith

definition byte_mask :: "nat \<Rightarrow> 'b::len word" where
  "byte_mask k = push_bit k (mask 8)"

lemma bit_byte_mask: "bit (byte_mask k :: 'b::len word) n \<longleftrightarrow> k \<le> n \<and> n < k + 8 \<and> n < LENGTH('b)"
  by (auto simp: byte_mask_def bit_simps)

lemma byte_masks:
  "(0xff :: 'b::len word) = byte_mask 0" "(0xff00 :: 'b word) = byte_mask 8"
  "(0xff0000 :: 'b word) = byte_mask 16" "(0xff000000 :: 'b word) = byte_mask 24"
  "(0xff00000000 :: 'b word) = byte_mask 32" "(0xff0000000000 :: 'b word) = byte_mask 40"
  "(0xff000000000000 :: 'b word) = byte_mask 48" "(0xff00000000000000 :: 'b word) = byte_mask 56"
  by (simp_all add: byte_mask_def mask_eq_exp_minus_1 push_bit_eq_mult)

lemma byte_at_or: "byte_at i (x OR y) = byte_at i x OR byte_at i (y :: 'b::len word)"
  by (rule bit_word_eqI) (auto simp: bit_byte_at bit_simps)

lemma byte_window:
  fixes a c n :: nat
  assumes "8 * c \<le> 8 * a + n" "8 * a + n < 8 * c + 8" "n < 8"
  shows "a = c"
  using assms by linarith

lemma byte_at_shr:
  assumes "8 dvd s" "8 dvd k"
  shows "byte_at i (drop_bit s (u AND byte_mask k)) = (if 8 * i + s = k then byte_at (k div 8) u else 0)"
proof -
  obtain s' k' where sk: "s = 8 * s'" "k = 8 * k'" using assms by (auto elim!: dvdE)
  show ?thesis
  proof (cases "8 * i + s = k")
    case True
    then have k: "k' = i + s'" by (simp add: sk)
    show ?thesis
      by (intro bit_word_eqI) (auto simp: sk k bit_byte_at bit_byte_mask bit_simps algebra_simps
          dest: bit_imp_le_length)
  next
    case False
    then have "\<not> (k \<le> s + (8 * i + n) \<and> s + (8 * i + n) < k + 8)" if "n < 8" for n
    proof -
      have "8 * k' \<le> 8 * (i + s') + n \<Longrightarrow> 8 * (i + s') + n < 8 * k' + 8 \<Longrightarrow> i + s' = k'"
        using byte_window [of k' "i + s'" n] that by simp
      with False show ?thesis by (auto simp: sk algebra_simps)
    qed
    with False show ?thesis
      by (intro bit_word_eqI) (auto simp: bit_byte_at bit_byte_mask bit_simps)
  qed
qed

lemma byte_at_shl:
  fixes u :: "'b::len word"
  assumes "8 dvd s" "8 dvd k" "k + s + 8 \<le> LENGTH('b)"
  shows "byte_at i (push_bit s (u AND byte_mask k)) = (if 8 * i = k + s then byte_at (k div 8) u else 0)"
proof -
  obtain s' k' where sk: "s = 8 * s'" "k = 8 * k'" using assms by (auto elim!: dvdE)
  show ?thesis
  proof (cases "8 * i = k + s")
    case True
    then have i: "i = k' + s'" by (simp add: sk)
    show ?thesis using assms(3)
      by (intro bit_word_eqI) (auto simp: sk i bit_byte_at bit_byte_mask bit_simps algebra_simps)
  next
    case False
    have "\<not> (s \<le> 8 * i + n \<and> k \<le> 8 * i + n - s \<and> 8 * i + n - s < k + 8)" if "n < 8" for n
    proof (intro notI, elim conjE)
      assume *: "s \<le> 8 * i + n" "k \<le> 8 * i + n - s" "8 * i + n - s < k + 8"
      have "8 * (k' + s') \<le> 8 * i + n" using *(1,2) unfolding sk add_mult_distrib2 by arith
      moreover have "8 * i + n < 8 * (k' + s') + 8" using *(1,3) unfolding sk add_mult_distrib2 by arith
      ultimately have "i = k' + s'" using that by (rule byte_window)
      with False show False by (simp add: sk)
    qed
    with False show ?thesis
      by (intro bit_word_eqI) (auto simp: bit_byte_at bit_byte_mask bit_simps)
  qed
qed

lemmas byte_at_terms = byte_at_or byte_at_shr byte_at_shl

lemma bswapsi2_byte: "i < 4 \<Longrightarrow> byte_at i (bswapsi2 u) = byte_at (3 - i) u"
  unfolding bswapsi2_def byte_masks less_4
  by (elim disjE) (simp_all add: byte_at_terms del: drop_bit_and push_bit_and)

lemma bswapdi2_byte: "i < 8 \<Longrightarrow> byte_at i (bswapdi2 u) = byte_at (7 - i) u"
  unfolding bswapdi2_def byte_masks less_8 less_4
  by (elim disjE) (simp_all add: byte_at_terms del: drop_bit_and push_bit_and)

end
