(* ===== verification/RtDiv.thy ===== *)
theory RtDiv
  imports RtBits
begin

text \<open>
  Multiplication and division of \<^verbatim>\<open>compiler-rt/builtins\<close>: the schoolbook products
  \<open>__muldsi3\<close>, \<open>__muldi3\<close> and their wide siblings, the shift-and-subtract division
  \<open>__udivsi3\<close> and \<open>__udivmoddi4\<close>/\<open>__udivmodti4\<close>, and the signed divisions and remainders
  derived from them. Signed operands are two's complement words.
\<close>

section \<open>Multiplication\<close>

text \<open>\<open>__muldsi3\<close> and \<open>__mulddi3\<close>: the full product of two halves, in quarter digits.\<close>

definition mul_halves :: "'h::len word \<Rightarrow> 'h word \<Rightarrow> 'w::len word" where
  "mul_halves a b =
     (let half = LENGTH('h) div 2;
          lower_mask = drop_bit half (NOT 0);
          low = (a AND lower_mask) * (b AND lower_mask);
          t = drop_bit half low;
          low = low AND lower_mask;
          t = t + drop_bit half a * (b AND lower_mask);
          low = low + push_bit half (t AND lower_mask);
          high = drop_bit half t;
          t = drop_bit half low;
          low = low AND lower_mask;
          t = t + drop_bit half b * (a AND lower_mask);
          low = low + push_bit half (t AND lower_mask);
          high = high + drop_bit half t;
          high = high + drop_bit half a * drop_bit half b
      in join_halves high low)"

definition mul_w :: "'h::len itself \<Rightarrow> 'w::len word \<Rightarrow> 'w word \<Rightarrow> 'w word" where
  "mul_w t a b =
     (let xh = hi_half a :: 'h word; xl = lo_half a :: 'h word;
          yh = hi_half b :: 'h word; yl = lo_half b :: 'h word;
          r = mul_halves xl yl :: 'w word
      in join_halves (hi_half r + (xh * yl + xl * yh)) (lo_half r))"

definition muldsi3 :: "u32 \<Rightarrow> u32 \<Rightarrow> u64" where "muldsi3 = mul_halves"
definition muldi3 :: "u64 \<Rightarrow> u64 \<Rightarrow> u64" where "muldi3 = mul_w TYPE(32)"
definition mulddi3 :: "u64 \<Rightarrow> u64 \<Rightarrow> u128" where "mulddi3 = mul_halves"
definition multi3 :: "u128 \<Rightarrow> u128 \<Rightarrow> u128" where "multi3 = mul_w TYPE(64)"

section \<open>Unsigned division of one word\<close>

text \<open>
  One turn of the loop of \<open>__udivsi3\<close>: shift the pair \<open>r:q\<close> left, feeding in the carry,
  and subtract \<open>d\<close> when it fits, without a branch.
\<close>

definition udiv_step :: "'a::len word \<Rightarrow> 'a word \<times> 'a word \<times> 'a word \<Rightarrow> 'a word \<times> 'a word \<times> 'a word" where
  "udiv_step d st =
     (case st of (r, q, carry) \<Rightarrow>
        let r = push_bit 1 r OR drop_bit (LENGTH('a) - 1) q;
            q = push_bit 1 q OR carry;
            s = signed_drop_bit (LENGTH('a) - 1) (d - r - 1);
            carry = s AND 1;
            r = r - (d AND s)
        in (r, q, carry))"

fun udiv_loop :: "'a::len word \<Rightarrow> nat \<Rightarrow> 'a word \<times> 'a word \<times> 'a word \<Rightarrow> 'a word \<times> 'a word \<times> 'a word" where
  "udiv_loop d 0 st = st"
| "udiv_loop d (Suc sr) st = udiv_loop d sr (udiv_step d st)"

definition udivsi3 :: "u32 \<Rightarrow> u32 \<Rightarrow> u32" where
  "udivsi3 n d =
     (if d = 0 then 0
      else if n = 0 then 0
      else
        let sr = of_nat (builtin_clz d) - of_nat (builtin_clz n) :: u32
        in if 31 < sr then 0
           else if sr = 31 then n
           else
             let sr = sr + 1;
                 q = push_bit (unat (32 - sr)) n;
                 r = drop_bit (unat sr) n
             in case udiv_loop d (unat sr) (r, q, 0) of
                  (r, q, carry) \<Rightarrow> push_bit 1 q OR carry)"

definition umodsi3 :: "u32 \<Rightarrow> u32 \<Rightarrow> u32" where
  "umodsi3 a b = a - udivsi3 a b * b"

definition udivmodsi4 :: "u32 \<Rightarrow> u32 \<Rightarrow> u32 \<times> u32" where
  "udivmodsi4 a b = (let d = udivsi3 a b in (d, a - d * b))"

section \<open>Unsigned division of two words\<close>

text \<open>
  \<open>__udivmoddi4\<close> and \<open>__udivmodti4\<close> keep remainder and quotient as halves. The state is
  \<open>(r.high, r.low, q.high, q.low, carry)\<close>; the result pairs the returned quotient with the
  value stored through \<open>rem\<close> (callers that pass a null \<open>rem\<close> drop it). A hardware division
  by a zero half is the \<open>DivideTrap\<close> of the processor.
\<close>

type_synonym ('h, 'w) wide_state = "'h word \<times> 'h word \<times> 'h word \<times> 'h word \<times> 'h word"

definition udivmod_step ::
  "'w::len word \<Rightarrow> ('h::len, 'w) wide_state \<Rightarrow> ('h, 'w) wide_state" where
  "udivmod_step d st =
     (case st of (rh, rl, qh, ql, carry) \<Rightarrow>
        let rh = push_bit 1 rh OR drop_bit (LENGTH('h) - 1) rl;
            rl = push_bit 1 rl OR drop_bit (LENGTH('h) - 1) qh;
            qh = push_bit 1 qh OR drop_bit (LENGTH('h) - 1) ql;
            ql = push_bit 1 ql OR carry;
            r = join_halves rh rl :: 'w word;
            s = signed_drop_bit (LENGTH('w) - 1) (d - r - 1);
            carry = ucast (s AND 1);
            r = r - (d AND s)
        in (hi_half r, lo_half r, qh, ql, carry))"

fun udivmod_loop ::
  "'w::len word \<Rightarrow> nat \<Rightarrow> ('h::len, 'w) wide_state \<Rightarrow> ('h, 'w) wide_state" where
  "udivmod_loop d 0 st = st"
| "udivmod_loop d (Suc sr) st = udivmod_loop d sr (udivmod_step d st)"

definition udivmod_main ::
  "'w::len word \<Rightarrow> u32 \<Rightarrow> 'h::len word \<Rightarrow> 'h word \<Rightarrow> 'h word \<Rightarrow> 'h word \<Rightarrow> 'w word \<times> 'w word" where
  "udivmod_main d sr rh rl qh ql =
     (case udivmod_loop d (unat sr) (rh, rl, qh, ql, 0) of
        (rh, rl, qh, ql, carry) \<Rightarrow>
          (push_bit 1 (join_halves qh ql) OR ucast carry, join_halves rh rl))"

definition udivmod_w :: "'h::len itself \<Rightarrow> 'w::len word \<Rightarrow> 'w word \<Rightarrow> ('w word \<times> 'w word) rt" where
  "udivmod_w t n d =
     (let bits = of_nat LENGTH('h) :: u32; dbits = of_nat LENGTH('w) :: u32;
          nh = hi_half n :: 'h word; nl = lo_half n :: 'h word;
          dh = hi_half d :: 'h word; dl = lo_half d :: 'h word
      in if nh = 0 then
           (if dh = 0 then
              (if dl = 0 then Inl DivideTrap else Inr (ucast (nl div dl), ucast (nl mod dl)))
            else Inr (0, ucast nl))
         else if dl = 0 then
           (if dh = 0 then Inl DivideTrap
            else if nl = 0 then Inr (ucast (nh div dh), join_halves (nh mod dh) 0)
            else if dh AND (dh - 1) = 0 then
              Inr (ucast (drop_bit (builtin_ctz dh) nh), join_halves (nh AND (dh - 1)) nl)
            else
              let sr = of_nat (builtin_clz dh) - of_nat (builtin_clz nh)
              in if bits - 2 < sr then Inr (0, n)
                 else
                   let sr = sr + 1
                   in Inr (udivmod_main d sr
                        (drop_bit (unat sr) nh)
                        (push_bit (unat (bits - sr)) nh OR drop_bit (unat sr) nl)
                        (push_bit (unat (bits - sr)) nl) 0))
         else if dh = 0 then
           (if dl AND (dl - 1) = 0 then
              (if dl = 1 then Inr (n, ucast (nl AND (dl - 1)))
               else
                 let sr = builtin_ctz dl
                 in Inr (join_halves (drop_bit sr nh)
                           (push_bit (LENGTH('h) - sr) nh OR drop_bit sr nl),
                         ucast (nl AND (dl - 1))))
            else
              let sr = 1 + bits + of_nat (builtin_clz dl) - of_nat (builtin_clz nh)
              in Inr (if sr = bits then udivmod_main d sr 0 nh nl 0
                      else if sr < bits then
                        udivmod_main d sr
                          (drop_bit (unat sr) nh)
                          (push_bit (unat (bits - sr)) nh OR drop_bit (unat sr) nl)
                          (push_bit (unat (bits - sr)) nl) 0
                      else
                        udivmod_main d sr
                          0 (drop_bit (unat (sr - bits)) nh)
                          (push_bit (unat (dbits - sr)) nh OR drop_bit (unat (sr - bits)) nl)
                          (push_bit (unat (dbits - sr)) nl)))
         else
           let sr = of_nat (builtin_clz dh) - of_nat (builtin_clz nh)
           in if bits - 1 < sr then Inr (0, n)
              else
                let sr = sr + 1
                in Inr (if sr = bits then udivmod_main d sr 0 nh nl 0
                        else udivmod_main d sr
                          (drop_bit (unat sr) nh)
                          (push_bit (unat (bits - sr)) nh OR drop_bit (unat sr) nl)
                          (push_bit (unat (bits - sr)) nl) 0))"

definition udivmoddi4 :: "u64 \<Rightarrow> u64 \<Rightarrow> (u64 \<times> u64) rt" where
  "udivmoddi4 = udivmod_w TYPE(32)"
definition udivmodti4 :: "u128 \<Rightarrow> u128 \<Rightarrow> (u128 \<times> u128) rt" where
  "udivmodti4 = udivmod_w TYPE(64)"

definition udivdi3 :: "u64 \<Rightarrow> u64 \<Rightarrow> u64 rt" where
  "udivdi3 a b = map_sum id fst (udivmoddi4 a b)"
definition umoddi3 :: "u64 \<Rightarrow> u64 \<Rightarrow> u64 rt" where
  "umoddi3 a b = map_sum id snd (udivmoddi4 a b)"
definition udivti3 :: "u128 \<Rightarrow> u128 \<Rightarrow> u128 rt" where
  "udivti3 a b = map_sum id fst (udivmodti4 a b)"
definition umodti3 :: "u128 \<Rightarrow> u128 \<Rightarrow> u128 rt" where
  "umodti3 a b = map_sum id snd (udivmodti4 a b)"

section \<open>Signed division\<close>

text \<open>
  The signed routines take absolute values with the sign mask, divide unsigned and put the
  sign back. \<open>div_signed\<close> and \<open>mod_signed\<close> are the text the widths share; \<open>udiv\<close> and \<open>umod\<close>
  stand for the unsigned division each file calls.
\<close>

definition sign_of :: "'a::len word \<Rightarrow> 'a word" where
  "sign_of a = signed_drop_bit (LENGTH('a) - 1) a"

definition div_signed ::
  "('a::len word \<Rightarrow> 'a word \<Rightarrow> 'a word rt) \<Rightarrow> 'a word \<Rightarrow> 'a word \<Rightarrow> 'a word rt" where
  "div_signed udiv a b =
     (let s_a = sign_of a; s_b = sign_of b;
          a = (a XOR s_a) - s_a;
          b = (b XOR s_b) - s_b;
          s_a = s_a XOR s_b
      in map_sum id (\<lambda>q. (q XOR s_a) - s_a) (udiv a b))"

definition mod_signed ::
  "('a::len word \<Rightarrow> 'a word \<Rightarrow> 'a word rt) \<Rightarrow> 'a word \<Rightarrow> 'a word \<Rightarrow> 'a word rt" where
  "mod_signed umod a b =
     (let s = sign_of b;
          b = (b XOR s) - s;
          s = sign_of a;
          a = (a XOR s) - s
      in map_sum id (\<lambda>r. (r XOR s) - s) (umod a b))"

definition hw_udiv :: "'a::len word \<Rightarrow> 'a word \<Rightarrow> 'a word rt" where
  "hw_udiv a b = (if b = 0 then Inl DivideTrap else Inr (a div b))"

definition divsi3 :: "u32 \<Rightarrow> u32 \<Rightarrow> u32 rt" where "divsi3 = div_signed hw_udiv"
definition divdi3 :: "u64 \<Rightarrow> u64 \<Rightarrow> u64 rt" where "divdi3 = div_signed udivdi3"
definition divti3 :: "u128 \<Rightarrow> u128 \<Rightarrow> u128 rt" where "divti3 = div_signed udivti3"

definition modsi3 :: "u32 \<Rightarrow> u32 \<Rightarrow> u32 rt" where
  "modsi3 a b = map_sum id (\<lambda>q. a - q * b) (divsi3 a b)"
definition moddi3 :: "u64 \<Rightarrow> u64 \<Rightarrow> u64 rt" where "moddi3 = mod_signed umoddi3"
definition modti3 :: "u128 \<Rightarrow> u128 \<Rightarrow> u128 rt" where "modti3 = mod_signed umodti3"

definition divmodsi4 :: "u32 \<Rightarrow> u32 \<Rightarrow> (u32 \<times> u32) rt" where
  "divmodsi4 a b = map_sum id (\<lambda>d. (d, a - d * b)) (divsi3 a b)"
definition divmoddi4 :: "u64 \<Rightarrow> u64 \<Rightarrow> (u64 \<times> u64) rt" where
  "divmoddi4 a b = map_sum id (\<lambda>d. (d, a - d * b)) (divdi3 a b)"

section \<open>Restoring division\<close>

text \<open>One step, on any word width: the arithmetic behind the shifts and the sign mask.\<close>

lemma top_bit_cases: "drop_bit (LENGTH('a) - 1) (q :: 'a::len word) \<in> {0, 1}"
proof -
  have "2 ^ LENGTH('a) = (2 :: nat) * 2 ^ (LENGTH('a) - 1)"
    by (metis len_gt_0 power_eq_if neq0_conv)
  then have "unat q div 2 ^ (LENGTH('a) - 1) < 2"
    using unsigned_less [of q, where ?'a = nat] by (intro less_mult_imp_div_less) simp
  then have "unat (drop_bit (LENGTH('a) - 1) q) = 0 \<or> unat (drop_bit (LENGTH('a) - 1) q) = 1"
    by (simp only: unat_drop_bit) arith
  then show ?thesis by (auto simp: word_unat_eq_iff)
qed

lemma shift_in:
  fixes r b :: "'a::len word"
  assumes b: "b \<in> {0, 1}"
  shows "push_bit 1 r OR b = 2 * r + b"
proof -
  have "push_bit 1 r AND b = 0"
    using b by (auto simp: and_one_eq mod_2_eq_odd)
  then have "push_bit 1 r OR b = push_bit 1 r + b" by (simp add: disjunctive_add_eq_or)
  then show ?thesis by (simp add: push_bit_eq_mult mult.commute)
qed

lemma unat_shift_in:
  fixes r b :: "'a::len word"
  assumes "2 * unat r + unat b < 2 ^ LENGTH('a)"
  shows "unat (2 * r + b) = 2 * unat r + unat b"
proof -
  have "2 * r + b = of_nat (2 * unat r + unat b)" by simp
  then show ?thesis using assms by (metis unat_of_nat mod_less)
qed

lemma double_mod:
  fixes x y z :: nat
  assumes "y \<le> 1" "0 < z"
  shows "(2 * x + y) mod (2 * z) = 2 * x mod (2 * z) + y"
proof -
  have "(2 * x + y) mod (2 * z) = (2 * (x mod z) + y) mod (2 * z)"
  proof -
    have "2 * x + y = (2 * (x mod z) + y) + 2 * z * (x div z)"
      using mult_div_mod_eq [of z x] unfolding mult.assoc by linarith
    then have "(2 * x + y) mod (2 * z) = (2 * (x mod z) + y + 2 * z * (x div z)) mod (2 * z)"
      by (rule arg_cong [where f = "\<lambda>v. v mod (2 * z)"])
    also have "\<dots> = (2 * (x mod z) + y) mod (2 * z)" by (rule mod_mult_self2)
    finally show ?thesis .
  qed
  also have "\<dots> = 2 * (x mod z) + y"
    using assms mod_less_divisor [of z x] by (intro mod_less) linarith
  finally show ?thesis by (simp only: mult_mod_right)
qed

lemma unat_shift_in_mod:
  fixes q c :: "'a::len word"
  assumes c: "c \<in> {0, 1}"
  shows "unat (2 * q + c) = 2 * unat q mod 2 ^ LENGTH('a) + unat c"
proof -
  have w: "2 ^ LENGTH('a) = (2 :: nat) * 2 ^ (LENGTH('a) - 1)"
    by (metis len_gt_0 power_eq_if neq0_conv)
  have "2 * q + c = of_nat (2 * unat q + unat c)" by simp
  then have "unat (2 * q + c) = (2 * unat q + unat c) mod 2 ^ LENGTH('a)"
    by (metis unat_of_nat)
  moreover have "unat c \<le> 1" using c by auto
  ultimately show ?thesis unfolding w by (simp add: double_mod)
qed

lemma sub_sign:
  fixes d r :: "'a::len word"
  assumes "unat d \<le> 2 ^ (LENGTH('a) - 1) \<and> unat r < 2 * unat d \<or> 2 ^ (LENGTH('a) - 1) \<le> unat d \<and> 2 ^ (LENGTH('a) - 1) \<le> unat r"
  shows "signed_drop_bit (LENGTH('a) - 1) (d - r - 1) = (if d \<le> r then - 1 else 0)"
proof -
  define P :: int where "P = 2 ^ (LENGTH('a) - Suc 0)"
  have P2: "2 ^ LENGTH('a) = 2 * P" using pow_len [where 'a = 'a] by (simp add: P_def)
  have bd: "int (unat d) < 2 * P" "int (unat r) < 2 * P"
    using unsigned_less [of d, where ?'a = int] unsigned_less [of r, where ?'a = int] by (simp_all add: P2)
  have PN: "P = int (2 ^ (LENGTH('a) - 1))" by (simp add: P_def)
  have as: "int (unat d) \<le> P \<and> int (unat r) < 2 * int (unat d) \<or> P \<le> int (unat d) \<and> P \<le> int (unat r)"
    using assms unfolding PN by linarith
  have "- P \<le> D - R - 1 \<and> D - R - 1 < P"
    if "0 \<le> D" "0 \<le> R" "D < 2 * P" "R < 2 * P" "D \<le> P \<and> R < 2 * D \<or> P \<le> D \<and> P \<le> R" for D R
    using that by linarith
  from this [OF _ _ bd as] have "in_range TYPE('a) (int (unat d) - int (unat r) - 1)"
    by (simp add: in_range_def P_def)
  moreover have "d - r - 1 = word_of_int (int (unat d) - int (unat r) - 1)"
    by simp
  ultimately have "sint (d - r - 1) = int (unat d) - int (unat r) - 1"
    by (metis sint_word_of_int_range)
  then have "d - r - 1 <s 0 \<longleftrightarrow> d \<le> r"
    by (simp only: word_sless_alt word_le_nat_alt sint_0) linarith
  then show ?thesis using sign_mask [of "d - r - 1"] by simp
qed

definition div_inv :: "nat \<Rightarrow> nat \<Rightarrow> nat \<Rightarrow> nat \<Rightarrow> nat \<times> nat \<times> nat \<Rightarrow> bool" where
  "div_inv w n d k st \<longleftrightarrow>
     (let Q = n div 2 ^ k div d
      in st = ((n div 2 ^ k) mod d, (n mod 2 ^ k) * 2 ^ (w - k) + Q div 2, Q mod 2))"

text \<open>The step as arithmetic on naturals: \<open>div_next\<close> advances the invariant by one digit.\<close>

definition div_next :: "nat \<Rightarrow> nat \<Rightarrow> nat \<times> nat \<times> nat \<Rightarrow> nat \<times> nat \<times> nat" where
  "div_next w d st =
     (case st of (r, q, c) \<Rightarrow>
        let r = 2 * r + q div 2 ^ (w - 1); q = (2 * q) mod 2 ^ w + c
        in if d \<le> r then (r - d, q, 1) else (r, q, 0))"

lemma div_digit:
  fixes n d k :: nat
  assumes d: "0 < d"
  defines "r \<equiv> 2 * (n div 2 ^ Suc k mod d) + n div 2 ^ k mod 2"
  shows "r < 2 * d"
    and "n div 2 ^ k mod d = (if d \<le> r then r - d else r)"
    and "n div 2 ^ k div d = 2 * (n div 2 ^ Suc k div d) + (if d \<le> r then 1 else 0)"
proof -
  define m where "m = n div 2 ^ Suc k"
  define b where "b = n div 2 ^ k mod 2"
  have m: "n div 2 ^ k = 2 * m + b"
    by (simp add: m_def b_def power_Suc2 div_mult2_eq del: power_Suc)
  have b: "b < 2" by (simp add: b_def)
  have r: "r = 2 * (m mod d) + b" by (simp add: r_def m_def b_def)
  have "m mod d < d" using d by simp
  then show r2: "r < 2 * d" using b by (simp add: r)
  have e: "n div 2 ^ k = d * (2 * (m div d)) + r"
  proof -
    have "d * (m div d) + m mod d = m" by simp
    then have "2 * m + b = 2 * (d * (m div d)) + (2 * (m mod d) + b)" by linarith
    then show ?thesis by (simp only: m r mult.left_commute)
  qed
  have rr: "r div d = (if d \<le> r then 1 else 0)" "r mod d = (if d \<le> r then r - d else r)"
    using r2 d by (auto simp: div_nat_eqI le_mod_geq div_eq_0_iff)
  show "n div 2 ^ k mod d = (if d \<le> r then r - d else r)"
    unfolding e rr(2) [symmetric] by simp
  show "n div 2 ^ k div d = 2 * (n div 2 ^ Suc k div d) + (if d \<le> r then 1 else 0)"
    unfolding e rr(1) [symmetric] using d by (simp add: m_def)
qed

lemma div_next_inv:
  assumes n: "n < 2 ^ w" and d: "0 < d" and k: "Suc k \<le> w" and inv: "div_inv w n d (Suc k) st"
  shows "div_inv w n d k (div_next w d st)" and "fst (snd st) div 2 ^ (w - 1) = n div 2 ^ k mod 2"
proof -
  define Q where "Q = n div 2 ^ Suc k div d"
  have st: "st = (n div 2 ^ Suc k mod d, n mod 2 ^ Suc k * 2 ^ (w - Suc k) + Q div 2, Q mod 2)"
    using inv by (simp add: div_inv_def Q_def Let_def)
  have "n < 2 ^ (w - Suc k) * 2 ^ Suc k" using n k by (simp flip: power_add power_Suc)
  then have "n div 2 ^ Suc k < 2 ^ (w - Suc k)" by (rule less_mult_imp_div_less)
  then have Q: "Q < 2 ^ (w - Suc k)" unfolding Q_def by (rule le_less_trans [OF div_le_dividend])
  have split: "n mod 2 ^ Suc k = n div 2 ^ k mod 2 * 2 ^ k + n mod 2 ^ k"
    by (metis add.commute mod_mult2_eq mult.commute power_Suc2)
  have pw: "2 ^ k * 2 ^ (w - Suc k) = (2 ^ (w - 1) :: nat)" "2 * 2 ^ (w - Suc k) = (2 ^ (w - k) :: nat)"
      "2 * 2 ^ (w - 1) = (2 ^ w :: nat)"
    using k by (simp_all flip: power_add power_Suc add: Suc_diff_Suc)
  define q where "q = n mod 2 ^ Suc k * 2 ^ (w - Suc k) + Q div 2"
  define l where "l = n mod 2 ^ k * 2 ^ (w - Suc k) + Q div 2"
  have q: "q = n div 2 ^ k mod 2 * 2 ^ (w - 1) + l"
    by (simp only: q_def l_def split algebra_simps flip: pw(1))
  have "(n mod 2 ^ k + 1) * 2 ^ (w - Suc k) \<le> 2 ^ k * 2 ^ (w - Suc k)"
    by (intro mult_right_mono) (simp_all add: Suc_le_eq)
  then have l: "l < 2 ^ (w - 1)" using Q by (simp add: l_def pw)
  have top: "q div 2 ^ (w - 1) = n div 2 ^ k mod 2" using l by (simp add: q)
  have "2 * q = n div 2 ^ k mod 2 * 2 ^ w + 2 * l"
    by (simp add: q algebra_simps flip: pw(3))
  then have sh: "2 * q mod 2 ^ w = 2 * l" using l by (simp flip: pw(3))
  note dg = div_digit [OF d, where n = n and k = k]
  have Q2: "2 * l + Q mod 2 = n mod 2 ^ k * 2 ^ (w - k) + Q"
    by (simp add: l_def flip: pw(2))
  show "fst (snd st) div 2 ^ (w - 1) = n div 2 ^ k mod 2"
    using top by (simp add: st q_def)
  show "div_inv w n d k (div_next w d st)"
    unfolding div_inv_def div_next_def st q_def [symmetric]
    using dg(2,3) by (simp add: Let_def top sh Q2 Q_def [symmetric] del: power_Suc One_nat_def)
qed


lemma div_loop_inv:
  "n < 2 ^ w \<Longrightarrow> 0 < d \<Longrightarrow> k \<le> w \<Longrightarrow> div_inv w n d k st \<Longrightarrow> div_inv w n d 0 ((div_next w d ^^ k) st)"
proof (induction k arbitrary: st)
  case (Suc k)
  from Suc.prems have "div_inv w n d k (div_next w d st)" by (intro div_next_inv) auto
  with Suc.prems have "div_inv w n d 0 ((div_next w d ^^ k) (div_next w d st))"
    by (intro Suc.IH) auto
  then show ?case by (simp add: funpow_swap1)
qed simp

lemma div_inv_end: "div_inv w n d 0 (r, q, c) \<Longrightarrow> r = n mod d \<and> 2 * q + c = n div d"
  by (auto simp: div_inv_def Let_def)

text \<open>The words follow the naturals as long as the shifted remainder fits.\<close>

definition div_rep :: "'a::len word \<times> 'a word \<times> 'a word \<Rightarrow> nat \<times> nat \<times> nat" where
  "div_rep st = (case st of (r, q, c) \<Rightarrow> (unat r, unat q, unat c))"

definition div_fits :: "nat \<Rightarrow> nat \<Rightarrow> nat \<times> nat \<times> nat \<Rightarrow> bool" where
  "div_fits w d st =
     (case st of (r, q, c) \<Rightarrow>
        let r' = 2 * r + q div 2 ^ (w - 1)
        in c < 2 \<and> r' < 2 ^ w \<and>
           (d \<le> 2 ^ (w - 1) \<and> r' < 2 * d \<or> 2 ^ (w - 1) \<le> d \<and> 2 ^ (w - 1) \<le> r'))"

lemma udiv_step_rep:
  fixes d :: "'a::len word"
  assumes fits: "div_fits LENGTH('a) (unat d) (div_rep st)"
  shows "div_rep (udiv_step d st) = div_next LENGTH('a) (unat d) (div_rep st)"
    and "snd (snd (udiv_step d st)) \<in> {0, 1}"
proof -
  obtain r q c where st: "st = (r, q, c)" by (cases st)
  define r' where "r' = push_bit 1 r OR drop_bit (LENGTH('a) - 1) q"
  define q' where "q' = push_bit 1 q OR c"
  have f: "unat c < 2" "2 * unat r + unat q div 2 ^ (LENGTH('a) - 1) < 2 ^ LENGTH('a)"
    "unat d \<le> 2 ^ (LENGTH('a) - 1) \<and> 2 * unat r + unat q div 2 ^ (LENGTH('a) - 1) < 2 * unat d \<or>
     2 ^ (LENGTH('a) - 1) \<le> unat d \<and> 2 ^ (LENGTH('a) - 1) \<le> 2 * unat r + unat q div 2 ^ (LENGTH('a) - 1)"
    using fits by (auto simp: div_fits_def div_rep_def st Let_def)
  have "unat c = 0 \<or> unat c = 1" using f(1) by arith
  then have c: "c \<in> {0, 1}" by (auto simp: word_unat_eq_iff)
  have r': "unat r' = 2 * unat r + unat q div 2 ^ (LENGTH('a) - 1)"
    using f(2) unfolding r'_def shift_in [OF top_bit_cases] by (simp add: unat_shift_in unat_drop_bit)
  have q': "unat q' = 2 * unat q mod 2 ^ LENGTH('a) + unat c"
    unfolding q'_def shift_in [OF c] by (rule unat_shift_in_mod [OF c])
  have s: "signed_drop_bit (LENGTH('a) - 1) (d - r' - 1) = (if d \<le> r' then - 1 else 0)"
    by (rule sub_sign) (use f(3) in \<open>simp only: r'\<close>)
  have step: "udiv_step d st = (if d \<le> r' then (r' - d, q', 1) else (r', q', 0))"
    by (simp add: udiv_step_def st Let_def r'_def [symmetric] q'_def [symmetric] s del: One_nat_def)
  show "div_rep (udiv_step d st) = div_next LENGTH('a) (unat d) (div_rep st)"
    by (simp only: step)
       (simp add: div_rep_def div_next_def st Let_def q' unat_sub word_le_nat_alt r' del: One_nat_def)
  show "snd (snd (udiv_step d st)) \<in> {0, 1}"
    by (simp add: step)
qed


text \<open>The remainder fits along the whole run, so the word loop computes quotient and remainder.\<close>

lemma div_inv_fits:
  assumes n: "n < 2 ^ w" and d: "0 < d" "d < 2 ^ w" and k: "Suc k \<le> w"
    and small: "d \<le> 2 ^ (w - 1) \<or> k = 0 \<and> 2 ^ (w - 1) \<le> n"
    and inv: "div_inv w n d (Suc k) st"
  shows "div_fits w d st"
proof -
  obtain r q c where st: "st = (r, q, c)" by (cases st)
  define b where "b = q div 2 ^ (w - 1)"
  have r: "r = n div 2 ^ Suc k mod d" and c: "c < 2"
    using inv by (auto simp: div_inv_def st Let_def)
  have "div_inv w n d k (div_next w d st)" using n d k inv by (intro div_next_inv(1))
  then have m: "n div 2 ^ k mod d = (if d \<le> 2 * r + b then 2 * r + b - d else 2 * r + b)"
    by (auto simp: div_inv_def div_next_def st Let_def b_def split: if_splits)
  have w: "2 ^ w = (2 :: nat) * 2 ^ (w - 1)" using k by (cases w) auto
  have b: "b = n div 2 ^ k mod 2"
    using div_next_inv(2) [OF n d(1) k inv] by (simp only: b_def st fst_conv snd_conv)
  have r2: "2 * r + b < 2 * d" using div_digit(1) [OF d(1), of n k] by (simp only: r b)
  show ?thesis
  proof (cases "d \<le> 2 ^ (w - 1)")
    case True
    then have "2 * r + b < 2 ^ w" using r2 w by linarith
    with True r2 c show ?thesis by (simp add: div_fits_def st Let_def b_def [symmetric] del: One_nat_def)
  next
    case False
    with small have k0: "k = 0" and n2: "2 ^ (w - 1) \<le> n" by auto
    have "n div 2 < d" using False n w by linarith
    then have "2 * r + b = n" by (simp add: r b k0)
    with n n2 False c show ?thesis by (simp add: div_fits_def st Let_def b_def [symmetric] del: One_nat_def)
  qed
qed


lemma udiv_loop_rep:
  fixes d :: "'a::len word"
  assumes n: "n < 2 ^ LENGTH('a)" and d: "d \<noteq> 0" and k: "k \<le> LENGTH('a)"
    and small: "unat d \<le> 2 ^ (LENGTH('a) - 1) \<or> k \<le> 1 \<and> 2 ^ (LENGTH('a) - 1) \<le> n"
    and inv: "div_inv LENGTH('a) n (unat d) k (div_rep st)"
  shows "div_inv LENGTH('a) n (unat d) 0 (div_rep (udiv_loop d k st))"
  using k small inv
proof (induction k arbitrary: st)
  case (Suc k)
  have ud: "0 < unat d" "unat d < 2 ^ LENGTH('a)" using d by (auto simp: unat_gt_0)
  have "div_fits LENGTH('a) (unat d) (div_rep st)"
    using Suc.prems by (intro div_inv_fits [OF n ud]) auto
  then have "div_rep (udiv_step d st) = div_next LENGTH('a) (unat d) (div_rep st)"
    by (rule udiv_step_rep)
  moreover have "div_inv LENGTH('a) n (unat d) k (div_next LENGTH('a) (unat d) (div_rep st))"
    using Suc.prems by (intro div_next_inv(1) [OF n ud(1)]) auto
  ultimately have "div_inv LENGTH('a) n (unat d) 0 (div_rep (udiv_loop d k (udiv_step d st)))"
    using Suc.prems by (intro Suc.IH) auto
  then show ?case by simp
qed simp

text \<open>The start of the loop: a shift of the dividend by \<open>k\<close> digits with \<open>n div 2 ^ k < d\<close>.\<close>

lemma udiv_loop_start:
  fixes n d :: "'a::len word"
  assumes d: "d \<noteq> 0" and k: "0 < k" "k \<le> LENGTH('a)" and q0: "unat n div 2 ^ k < unat d"
    and small: "unat d \<le> 2 ^ (LENGTH('a) - 1) \<or> k = 1 \<and> 2 ^ (LENGTH('a) - 1) \<le> unat n"
    and res: "udiv_loop d k (drop_bit k n, push_bit (LENGTH('a) - k) n, 0) = (r, q, c)"
  shows "r = n mod d" and "push_bit 1 q OR c = n div d"
proof -
  have "unat (push_bit (LENGTH('a) - k) n) = unat n mod 2 ^ k * 2 ^ (LENGTH('a) - k)"
  proof -
    have w: "2 ^ LENGTH('a) = (2 :: nat) ^ (LENGTH('a) - k) * 2 ^ k" using k by (simp flip: power_add)
    have "unat (push_bit (LENGTH('a) - k) n) = unat n * 2 ^ (LENGTH('a) - k) mod 2 ^ LENGTH('a)"
      by (subst unsigned_push_bit_eq) (simp only: push_bit_eq_mult take_bit_eq_mod)
    then show ?thesis by (simp only: w mult.commute [of "unat n"] mult_mod_right [symmetric]) simp
  qed
  then have "div_inv LENGTH('a) (unat n) (unat d) k (div_rep (drop_bit k n, push_bit (LENGTH('a) - k) n, 0))"
    using q0 by (simp add: div_inv_def div_rep_def Let_def unat_drop_bit)
  with d k small have "div_inv LENGTH('a) (unat n) (unat d) 0 (div_rep (r, q, c))"
    unfolding res [symmetric] by (intro udiv_loop_rep) auto
  then have e: "unat r = unat n mod unat d" "2 * unat q + unat c = unat n div unat d"
    and c: "unat c < 2"
    by (auto simp: div_rep_def div_inv_def Let_def)
  show "r = n mod d" using e(1) by (simp add: word_unat_eq_iff unat_mod)
  have "unat c = 0 \<or> unat c = 1" using c by arith
  then have "c \<in> {0, 1}" by (auto simp: word_unat_eq_iff)
  then have "push_bit 1 q OR c = 2 * q + c" by (rule shift_in)
  also have "unat \<dots> = unat n div unat d"
  proof -
    have "unat n div unat d < 2 ^ LENGTH('a)" by (metis div_le_dividend le_less_trans unsigned_less)
    then show ?thesis using unat_shift_in [of q c] by (simp only: e(2))
  qed
  finally show "push_bit 1 q OR c = n div d" by (simp add: word_unat_eq_iff unat_div)
qed


section \<open>\<open>__udivsi3\<close>\<close>

lemma nlen_word: "nlen (unat (x :: 'a::len word)) \<le> LENGTH('a)"
  using unsigned_less [of x, where ?'a = nat] by (simp add: nlen_le)

text \<open>The number of steps: the difference of the digit counts, plus one.\<close>

lemma steps_enough:
  assumes d: "d \<noteq> 0" and l: "nlen d \<le> nlen n"
  shows "n div 2 ^ Suc (nlen n - nlen d) < d"
proof -
  have p: "0 < nlen d" using d by (rule nlen_pos)
  have "nlen (n div 2 ^ Suc (nlen n - nlen d)) \<le> nlen d - 1"
    using l p by (simp only: nlen_div)
  then have "n div 2 ^ Suc (nlen n - nlen d) < 2 ^ (nlen d - 1)" by (simp only: nlen_le)
  also have "\<dots> \<le> d" using d by (rule nlen_lower)
  finally show ?thesis .
qed

lemma steps_small:
  assumes n: "n \<noteq> 0" "nlen n \<le> w" and l: "nlen d \<le> nlen n"
  shows "d \<le> 2 ^ (w - 1) \<or> Suc (nlen n - nlen d) = 1 \<and> 2 ^ (w - 1) \<le> n"
proof (cases "nlen d = w")
  case True
  then have "nlen n = w" using l n by simp
  with True n show ?thesis using nlen_lower [of n] by simp
next
  case False
  then have "nlen d \<le> w - 1" using l n by simp
  then show ?thesis by (simp add: nlen_le)
qed

lemma clz_diff:
  fixes d n :: "'a::len word"
  assumes L: "LENGTH('a) < 2 ^ 31"
  shows "of_nat (builtin_clz d) - of_nat (builtin_clz n) =
           (of_int (int (nlen (unat n)) - int (nlen (unat d))) :: u32)"
  using nlen_word [of d] nlen_word [of n] by (simp add: builtin_clz_def of_nat_diff)

lemma clz_diff_le:
  fixes d n :: "'a::len word"
  assumes "nlen (unat d) \<le> nlen (unat n)"
  shows "of_nat (builtin_clz d) - of_nat (builtin_clz n) = (of_nat (nlen (unat n) - nlen (unat d)) :: u32)"
  using assms nlen_word [of d] nlen_word [of n] by (simp add: builtin_clz_def of_nat_diff)

lemma clz_diff_large:
  fixes d n :: "'a::len word"
  assumes "nlen (unat n) < nlen (unat d)" "LENGTH('a) \<le> 2 ^ 31"
  shows "2 ^ 31 \<le> unat (of_nat (builtin_clz d) - of_nat (builtin_clz n) :: u32)"
proof -
  define e where "e = nlen (unat d) - nlen (unat n)"
  have e: "0 < e" "e \<le> 2 ^ 31" using assms nlen_word [of d] by (auto simp: e_def)
  have "of_nat (builtin_clz d) - of_nat (builtin_clz n) = (of_nat (2 ^ 32 - e) :: u32)"
    using assms nlen_word [of d] nlen_word [of n] by (simp add: builtin_clz_def of_nat_diff e_def)
  moreover have "unat (of_nat (2 ^ 32 - e) :: u32) = 2 ^ 32 - e"
    using e by (intro small_word_numerals) simp
  ultimately have "unat (of_nat (builtin_clz d) - of_nat (builtin_clz n) :: u32) = 2 ^ 32 - e"
    by (simp only:)
  then show ?thesis using e by simp
qed

lemma nlen_less_imp: "nlen n < nlen d \<Longrightarrow> n < d"
  by (metis less_le_trans linorder_not_le nlen_le nlen_upper)

lemma udivsi3_correct: "udivsi3 n d = n div d"
proof (cases "d = 0 \<or> n = 0")
  case False
  then have d0: "d \<noteq> 0" and n0: "n \<noteq> 0" "unat d \<noteq> 0" "unat n \<noteq> 0" by (auto simp: unat_eq_0)
  define sr :: u32 where "sr = of_nat (builtin_clz d) - of_nat (builtin_clz n)"
  have U: "udivsi3 n d =
      (if 31 < sr then 0 else if sr = 31 then n
       else case udiv_loop d (unat (sr + 1))
              (drop_bit (unat (sr + 1)) n, push_bit (unat (32 - (sr + 1))) n, 0) of
          (r, q, carry) \<Rightarrow> push_bit 1 q OR carry)"
    using d0 n0 by (simp only: udivsi3_def sr_def Let_def if_False)
  show ?thesis
  proof (cases "nlen (unat d) \<le> nlen (unat n)")
    case True
    define k where "k = nlen (unat n) - nlen (unat d)"
    have k: "k \<le> 31" using nlen_word [of n] nlen_pos [OF n0(2)] by (simp add: k_def)
    have sr: "sr = of_nat k" using clz_diff_le [OF True] by (simp add: sr_def k_def)
    have ks: "unat sr = k" using k by (simp add: sr)
    show ?thesis
    proof (cases "k = 31")
      case True
      then have "nlen (unat d) = 1" using nlen_word [of n] nlen_pos [OF n0(2)] by (simp add: k_def)
      then have "unat d = 1" using nlen_upper [of "unat d"] n0 by simp
      then have "d = 1" by (simp add: word_unat_eq_iff)
      moreover have "sr = 31" using True by (simp add: sr)
      ultimately show ?thesis using U by simp
    next
      case neq: False
      with k have k: "k < 31" by simp
      have "sr + 1 = of_nat (Suc k)" by (simp add: sr)
      moreover have "unat (of_nat (Suc k) :: u32) = Suc k"
        by (rule small_word_numerals) (use k in simp)
      ultimately have a1: "unat (sr + 1) = Suc k" by (simp only:)
      then have s1: "unat (sr + 1) = Suc k" "unat (32 - (sr + 1)) = 32 - Suc k"
        using k unat_sub [of "sr + 1" 32] by (simp_all only: word_le_nat_alt unat_numeral) simp_all
      obtain r q c where res: "udiv_loop d (Suc k) (drop_bit (Suc k) n, push_bit (LENGTH(32) - Suc k) n, 0) = (r, q, c)"
        by (metis prod_cases3)
      have "push_bit 1 q OR c = n div d"
        using steps_enough [OF n0(2) True] steps_small [OF n0(3) nlen_word True] k
        by (intro udiv_loop_start(2) [OF d0 _ _ _ _ res]) (simp_all add: k_def)
      moreover have "\<not> 31 < sr" "sr \<noteq> 31" using k ks by (auto simp: word_less_nat_alt)
      ultimately show ?thesis using res by (simp only: U s1 if_False) simp
    qed
  next
    case lt: False
    then have "unat n < unat d" by (simp only: not_le nlen_less_imp)
    then have "n div d = 0" by (simp only: word_unat_eq_iff unat_div unat_0 div_less)
    moreover have "2 ^ 31 \<le> unat sr" unfolding sr_def using lt by (intro clz_diff_large) simp_all
    then have "31 < sr" by (simp only: word_less_nat_alt) simp
    ultimately show ?thesis by (simp only: U) simp
  qed
qed (auto simp: udivsi3_def word_unat_eq_iff unat_div)


section \<open>\<open>__udivmoddi4\<close> and \<open>__udivmodti4\<close>\<close>

context double_word
begin

definition join_state where
  "join_state st = (case st of (rh, rl, qh, ql, c) \<Rightarrow>
     (join_halves rh rl :: 'w word, join_halves qh ql :: 'w word, ucast (c :: 'h word) :: 'w word))"

lemma bit_ucast_h: "bit (ucast (x :: 'h word) :: 'w word) n \<longleftrightarrow> bit x n"
  by (auto simp: bit_simps w2 dest: bit_imp_le_length)

lemma shift_pair:
  "join_halves (push_bit 1 a OR drop_bit (LENGTH('h) - 1) b)
     (push_bit 1 b OR drop_bit (LENGTH('h) - 1) x) =
   push_bit 1 (join_halves a b :: 'w word) OR ucast (drop_bit (LENGTH('h) - 1) (x :: 'h word))"
proof (rule bit_word_eqI)
  fix n assume "n < LENGTH('w)"
  moreover have "LENGTH('h) \<le> n \<Longrightarrow> \<not> bit x (LENGTH('h) - 1 + n)"
    by (auto dest!: bit_imp_le_length)
  ultimately show "bit (join_halves (push_bit 1 a OR drop_bit (LENGTH('h) - 1) b)
       (push_bit 1 b OR drop_bit (LENGTH('h) - 1) x) :: 'w word) n \<longleftrightarrow>
     bit (push_bit 1 (join_halves a b :: 'w word) OR ucast (drop_bit (LENGTH('h) - 1) x)) n"
    by (cases "n = LENGTH('h)")
       (auto simp: bit_join bit_simps bit_double_iff mult.commute [of _ "2 :: _ word"] bit_ucast_h w2 not_less Suc_le_eq dest: bit_imp_le_length)
qed

lemma shift_pair_carry:
  assumes "c \<in> {0, 1}"
  shows "join_halves (push_bit 1 a OR drop_bit (LENGTH('h) - 1) b) (push_bit 1 b OR c) =
    push_bit 1 (join_halves a b :: 'w word) OR ucast (c :: 'h word)"
proof -
  have "c = drop_bit (LENGTH('h) - 1) (push_bit (LENGTH('h) - 1) c)"
    using assms by (auto intro!: bit_word_eqI simp: bit_simps bit_1_iff)
  then show ?thesis by (metis shift_pair)
qed

lemma top_bit_high: "ucast (drop_bit (LENGTH('h) - 1) (qh :: 'h word)) =
    drop_bit (LENGTH('w) - 1) (join_halves qh ql :: 'w word)"
  by (rule bit_word_eqI) (auto simp: bit_join bit_simps bit_ucast_h w2 dest: bit_imp_le_length)

lemma udivmod_step_join:
  fixes st :: "'h word \<times> 'h word \<times> 'h word \<times> 'h word \<times> 'h word"
  assumes "snd (snd (snd (snd st))) \<in> {0, 1}"
  shows "join_state (udivmod_step (d :: 'w word) st) = udiv_step d (join_state st)"
    and "snd (snd (snd (snd (udivmod_step d st)))) \<in> {0, 1}"
proof -
  obtain rh rl qh ql c where st: "st = (rh, rl, qh, ql, c)" by (metis prod.exhaust)
  have c: "c \<in> {0, 1}" using assms by (simp add: st)
  define q where "q = (join_halves qh ql :: 'w word)"
  define r where "r = (join_halves rh rl :: 'w word)"
  define r' where "r' = push_bit 1 r OR drop_bit (LENGTH('w) - 1) q"
  define s where "s = signed_drop_bit (LENGTH('w) - 1) (d - r' - 1)"
  have r': "join_halves (push_bit 1 rh OR drop_bit (LENGTH('h) - 1) rl)
      (push_bit 1 rl OR drop_bit (LENGTH('h) - 1) qh) = r'"
    by (simp only: r'_def r_def q_def shift_pair top_bit_high [of qh ql])
  have step: "udivmod_step d st =
      (hi_half (r' - (d AND s)), lo_half (r' - (d AND s)),
       push_bit 1 qh OR drop_bit (LENGTH('h) - 1) ql, push_bit 1 ql OR c, ucast (s AND 1))"
    by (simp only: udivmod_step_def st Let_def prod.case r' s_def)
  have s1: "s AND 1 \<in> {0, 1}" by (simp add: and_one_eq mod_2_eq_odd)
  then show "snd (snd (snd (snd (udivmod_step d st)))) \<in> {0, 1}"
    by (simp add: step) auto
  have "ucast (ucast (s AND 1) :: 'h word) = s AND 1" using s1 by auto
  then show "join_state (udivmod_step (d :: 'w word) st) = udiv_step d (join_state st)"
    by (simp only: step [unfolded st] join_state_def prod.case st udiv_step_def Let_def shift_pair_carry [OF c] q_def [symmetric] r_def [symmetric])
       (simp only: r'_def [symmetric] s_def [symmetric] join_hi_lo)
qed

end

context double_word
begin

lemma udivmod_loop_join:
  fixes st :: "'h word \<times> 'h word \<times> 'h word \<times> 'h word \<times> 'h word"
  assumes "snd (snd (snd (snd st))) \<in> {0, 1}"
  shows "join_state (udivmod_loop (d :: 'w word) m st) = udiv_loop d m (join_state st)"
  using assms
proof (induction m arbitrary: st)
  case (Suc m)
  have "join_state (udivmod_loop d (Suc m) st) = udiv_loop d m (join_state (udivmod_step d st))"
    using Suc.IH [OF udivmod_step_join(2) [OF Suc.prems]] by simp
  then show ?case by (simp add: udivmod_step_join(1) [OF Suc.prems])
qed simp

lemma udivmod_main_correct:
  fixes n d :: "'w word"
  assumes d: "d \<noteq> 0" and k: "0 < unat sr" "unat sr \<le> LENGTH('w)"
    and q0: "unat n div 2 ^ unat sr < unat d"
    and sm: "unat d \<le> 2 ^ (LENGTH('w) - 1) \<or> unat sr = 1 \<and> 2 ^ (LENGTH('w) - 1) \<le> unat n"
    and r: "join_halves rh rl = drop_bit (unat sr) n"
    and q: "join_halves qh (ql :: 'h word) = push_bit (LENGTH('w) - unat sr) n"
  shows "udivmod_main d sr rh rl qh ql = (n div d, n mod d)"
proof -
  obtain rh' rl' qh' ql' c' where res: "udivmod_loop d (unat sr) (rh, rl, qh, ql, 0) = (rh', rl', qh', ql', c')"
    by (metis prod.exhaust)
  have "udiv_loop d (unat sr) (drop_bit (unat sr) n, push_bit (LENGTH('w) - unat sr) n, 0) =
      (join_halves rh' rl', join_halves qh' ql', ucast c')"
    using udivmod_loop_join [where st = "(rh, rl, qh, ql, 0)" and d = d and m = "unat sr"] by (simp add: join_state_def res r q)
  from udiv_loop_start [OF d k q0 sm this]
  show ?thesis by (simp only: udivmod_main_def res prod.case)
qed

end

text \<open>Powers of two, as the source tests for them.\<close>

lemma pow2_test:
  fixes d :: "'a::len word"
  assumes d: "d \<noteq> 0" and t: "d AND (d - 1) = 0"
  shows "unat d = 2 ^ builtin_ctz d"
proof -
  define j where "j = ntz (unat d)"
  have d0: "unat d \<noteq> 0" using d by (simp add: unat_eq_0)
  obtain m where m: "odd m" "unat d = 2 ^ j * m" using ntz_decomp [OF d0] by (auto simp: j_def)
  have u1: "unat (d - 1) = unat d - 1" using d by (simp add: unat_minus_one)
  obtain m' where m': "m = 2 * m' + 1" using m(1) by (elim oddE)
  have "unat (drop_bit (Suc j) d) = m'"
    by (simp add: unat_drop_bit m(2) m' power_Suc2 div_mult2_eq del: power_Suc)
  moreover have "unat (drop_bit (Suc j) (d - 1)) = m'"
  proof -
    have "unat d - 1 = 2 * 2 ^ j * m' + (2 ^ j - 1)" by (simp add: m(2) m' algebra_simps)
    then have "unat (d - 1) = (2 ^ j - 1) + m' * (2 * 2 ^ j)" by (simp add: u1 algebra_simps)
    moreover have "((2 ^ j - 1) + m' * (2 * 2 ^ j)) div (2 * 2 ^ j) = m'"
      by (subst div_mult_self1) (auto simp: less_imp_diff_less)
    ultimately show ?thesis by (simp only: unat_drop_bit power_Suc)
  qed
  ultimately have e: "drop_bit (Suc j) d = drop_bit (Suc j) (d - 1)" by (simp add: word_unat_eq_iff)
  have "drop_bit (Suc j) d = drop_bit (Suc j) d AND drop_bit (Suc j) (d - 1)" by (simp add: e)
  also have "\<dots> = drop_bit (Suc j) (d AND (d - 1))" by (simp only: drop_bit_and)
  finally have "drop_bit (Suc j) d = 0" by (simp add: t)
  then have "m' = 0" using \<open>unat (drop_bit (Suc j) d) = m'\<close> by simp
  then have "m = 1" using m' by simp
  then have "unat d = 2 ^ j" using m(2) by simp
  then show ?thesis unfolding builtin_ctz_def j_def .
qed

lemma pow2_mask:
  fixes d n :: "'a::len word"
  assumes d: "unat d = 2 ^ j"
  shows "unat (n AND (d - 1)) = unat n mod 2 ^ j"
proof -
  have "of_nat (unat d) = d" by simp
  then have "d = 2 ^ j" unfolding d by simp
  then have "d - 1 = mask j" by (simp only: mask_eq_exp_minus_1)
  then show ?thesis by (simp add: unat_and_mask)
qed

context double_word
begin

lemma unat_wide: "unat (ucast (x :: 'h word) :: 'w word) = unat x"
  by (simp add: unsigned_ucast_eq take_bit_nat_eq_self w2 less_le_trans [OF unsigned_less])

lemma nlen_wide:
  "(hi_half x :: 'h word) \<noteq> 0 \<Longrightarrow> nlen (unat (x :: 'w word)) = nlen (unat (hi_half x :: 'h word)) + LENGTH('h)"
  "(hi_half x :: 'h word) = 0 \<Longrightarrow> nlen (unat (x :: 'w word)) = nlen (unat (lo_half x :: 'h word))"
  by (simp_all add: unat_halves [of x] nlen_join [OF lo_less] unat_eq_0)

lemma udivmod_near:
  fixes n d :: "'w word"
  assumes d: "d \<noteq> 0" and n: "n \<noteq> 0" and l: "nlen (unat d) \<le> nlen (unat n)"
    and sr: "unat sr = Suc (nlen (unat n) - nlen (unat d))" and near: "unat sr < LENGTH('h)"
  shows "udivmod_main d sr (drop_bit (unat sr) (hi_half n))
      (push_bit (LENGTH('h) - unat sr) (hi_half n) OR drop_bit (unat sr) (lo_half n :: 'h word))
      (push_bit (LENGTH('h) - unat sr) (lo_half n)) 0 = (n div d, n mod d)"
proof (rule udivmod_main_correct [OF d])
  have d0: "unat d \<noteq> 0" "unat n \<noteq> 0" using d n by (simp_all add: unat_eq_0)
  show "unat n div 2 ^ unat sr < unat d" unfolding sr using d0(1) l by (rule steps_enough)
  show "unat d \<le> 2 ^ (LENGTH('w) - 1) \<or> unat sr = 1 \<and> 2 ^ (LENGTH('w) - 1) \<le> unat n"
    unfolding sr using d0(2) nlen_word l by (rule steps_small)
  show "join_halves (drop_bit (unat sr) (hi_half n))
      (push_bit (LENGTH('h) - unat sr) (hi_half n) OR drop_bit (unat sr) (lo_half n :: 'h word)) = drop_bit (unat sr) n"
    using near by (rule join_shr_near)
  show "join_halves (push_bit (LENGTH('h) - unat sr) (lo_half n)) (0 :: 'h word) = push_bit (LENGTH('w) - unat sr) n"
    using join_shl_far [of "LENGTH('w) - unat sr" n] near by (simp add: w2)
qed (use sr near w2 in auto)

lemma udivmod_equal:
  fixes n d :: "'w word"
  assumes d: "d \<noteq> 0" and n: "n \<noteq> 0" and l: "nlen (unat d) \<le> nlen (unat n)"
    and sr: "unat sr = Suc (nlen (unat n) - nlen (unat d))" and eq: "unat sr = LENGTH('h)"
  shows "udivmod_main d sr 0 (hi_half n) (lo_half n) (0 :: 'h word) = (n div d, n mod d)"
proof (rule udivmod_main_correct [OF d])
  have d0: "unat d \<noteq> 0" "unat n \<noteq> 0" using d n by (simp_all add: unat_eq_0)
  show "unat n div 2 ^ unat sr < unat d" unfolding sr using d0(1) l by (rule steps_enough)
  show "unat d \<le> 2 ^ (LENGTH('w) - 1) \<or> unat sr = 1 \<and> 2 ^ (LENGTH('w) - 1) \<le> unat n"
    unfolding sr using d0(2) nlen_word l by (rule steps_small)
  show "join_halves 0 (hi_half n :: 'h word) = drop_bit (unat sr) n"
    using join_shr_far [of "LENGTH('h)" n] eq by simp
  show "join_halves (lo_half n) (0 :: 'h word) = push_bit (LENGTH('w) - unat sr) n"
    using join_shl_far [of "LENGTH('h)" n] eq by (simp add: w2)
qed (use eq w2 in auto)

lemma udivmod_far:
  fixes n d :: "'w word"
  assumes d: "d \<noteq> 0" and n: "n \<noteq> 0" and l: "nlen (unat d) \<le> nlen (unat n)"
    and sr: "unat sr = Suc (nlen (unat n) - nlen (unat d))"
    and far: "LENGTH('h) < unat sr" "unat sr < LENGTH('w)"
  shows "udivmod_main d sr 0 (drop_bit (unat sr - LENGTH('h)) (hi_half n))
      (push_bit (LENGTH('w) - unat sr) (hi_half n) OR drop_bit (unat sr - LENGTH('h)) (lo_half n))
      (push_bit (LENGTH('w) - unat sr) (lo_half n :: 'h word)) = (n div d, n mod d)"
proof (rule udivmod_main_correct [OF d])
  have d0: "unat d \<noteq> 0" "unat n \<noteq> 0" using d n by (simp_all add: unat_eq_0)
  show "unat n div 2 ^ unat sr < unat d" unfolding sr using d0(1) l by (rule steps_enough)
  show "unat d \<le> 2 ^ (LENGTH('w) - 1) \<or> unat sr = 1 \<and> 2 ^ (LENGTH('w) - 1) \<le> unat n"
    unfolding sr using d0(2) nlen_word l by (rule steps_small)
  show "join_halves 0 (drop_bit (unat sr - LENGTH('h)) (hi_half n :: 'h word)) = drop_bit (unat sr) n"
    using far by (intro join_shr_far) simp
  have "LENGTH('h) - (LENGTH('w) - unat sr) = unat sr - LENGTH('h)" using far by (simp add: w2)
  then show "join_halves (push_bit (LENGTH('w) - unat sr) (hi_half n) OR drop_bit (unat sr - LENGTH('h)) (lo_half n))
      (push_bit (LENGTH('w) - unat sr) (lo_half n :: 'h word)) = push_bit (LENGTH('w) - unat sr) n"
    using join_shl_near [of "LENGTH('w) - unat sr" n] far by (simp add: w2)
qed (use far w2 in auto)

end


lemma div_scaled: "dh \<noteq> 0 \<Longrightarrow> l < M \<Longrightarrow> (nh * M + l) div (dh * M) = nh div dh"
  for dh nh l M :: nat
  by (simp add: mult.commute [of dh] div_mult2_eq)

lemma mod_scaled: "l < M \<Longrightarrow> (nh * M + l) mod (dh * M) = nh mod dh * M + l"
  for dh nh l M :: nat
  by (simp add: mult.commute [of dh] mod_mult2_eq mult.commute)

context double_word
begin

lemma udivmod_w_zero: "(d :: 'w word) = 0 \<Longrightarrow> udivmod_w h n d = Inl DivideTrap"
  by (simp add: udivmod_w_def Let_def halves_0 [of d])

lemma word_div_modI:
  "unat q = unat n div unat d \<Longrightarrow> unat r = unat n mod unat d \<Longrightarrow> (q, r) = (n div d, n mod (d :: 'w word))"
  by (simp add: word_unat_eq_iff unat_div unat_mod)

lemma bits_bound: "4 * LENGTH('h) < 2 ^ 32" "2 \<le> LENGTH('h)"
proof -
  have "(2::nat) ^ k \<le> 2 ^ 29" using small by (intro power_increasing) auto
  then show "4 * LENGTH('h) < 2 ^ 32" by (simp add: half_len)
  have "(2::nat) ^ 1 \<le> 2 ^ k" using small by (intro power_increasing) auto
  then show "2 \<le> LENGTH('h)" by (simp add: half_len)
qed

lemma bits_numeral:
  "unat (of_nat LENGTH('h) :: u32) = LENGTH('h)" "unat (of_nat LENGTH('w) :: u32) = LENGTH('w)"
  by (rule small_word_numerals, use bits_bound w2 in simp)+

lemma small_n:
  assumes d: "(d :: 'w word) \<noteq> 0" and n: "(hi_half n :: 'h word) = 0"
  shows "udivmod_w h n d = Inr (n div d, n mod d)"
proof -
  define nl :: "'h word" where "nl = lo_half n"
  define dh :: "'h word" where "dh = hi_half d"
  define dl :: "'h word" where "dl = lo_half d"
  note defs = nl_def [symmetric] dh_def [symmetric] dl_def [symmetric]
  have un: "unat n = unat nl" and ud: "unat d = unat dh * 2 ^ LENGTH('h) + unat dl"
    by (simp_all only: unat_halves [of n] unat_halves [of d] n nl_def dh_def dl_def) simp
  show ?thesis
  proof (cases "dh = 0")
    case True
    then have "dl \<noteq> 0" using d halves_0 [of d] by (simp add: dh_def dl_def)
    then have "udivmod_w h n d = Inr (ucast (nl div dl), ucast (nl mod dl))"
      by (simp add: udivmod_w_def Let_def n True defs)
    also have "(ucast (nl div dl), ucast (nl mod dl)) = (n div d, n mod d)"
      by (rule word_div_modI) (simp_all add: unat_wide unat_div unat_mod un ud True)
    finally show ?thesis .
  next
    case False
    then have "1 * 2 ^ LENGTH('h) \<le> unat dh * 2 ^ LENGTH('h)"
      by (intro mult_right_mono) (simp_all add: unat_gt_0 Suc_le_eq)
    then have "unat n < unat d" using lo_less [of nl] unfolding un ud by linarith
    then have "(0, ucast nl) = (n div d, n mod d)" by (intro word_div_modI) (simp_all add: unat_wide un)
    then show ?thesis by (simp add: udivmod_w_def Let_def n False defs)
  qed
qed


lemma step_count:
  assumes "unat (sr :: u32) \<le> LENGTH('h)"
  shows "unat (of_nat LENGTH('h) - sr) = LENGTH('h) - unat sr"
  using unat_sub [of sr "of_nat LENGTH('h)"] assms by (simp only: word_le_nat_alt bits_numeral)

lemma less_wide: "nlen (unat n) < nlen (unat d) \<Longrightarrow> (0, n) = (n div d, n mod (d :: 'w word))"
  by (drule nlen_less_imp, intro word_div_modI) simp_all

text \<open>The shift count \<open>sr\<close>, computed in 32 bits from the leading zeros of two halves.\<close>

lemma sr_close:
  fixes dh nh :: "'h word"
  assumes l: "nlen (unat dh) \<le> nlen (unat nh)"
  defines "sr \<equiv> of_nat (builtin_clz dh) - of_nat (builtin_clz nh) :: u32"
  shows "unat sr = nlen (unat nh) - nlen (unat dh)"
    and "unat (sr + 1) = Suc (nlen (unat nh) - nlen (unat dh))"
proof -
  have b: "Suc (nlen (unat nh) - nlen (unat dh)) < 2 ^ 32"
    using nlen_word [of nh] bits_bound by simp
  have e: "sr = of_nat (nlen (unat nh) - nlen (unat dh))"
    unfolding sr_def by (rule clz_diff_le [OF l])
  show "unat sr = nlen (unat nh) - nlen (unat dh)"
    unfolding e using b by (intro small_word_numerals) simp
  have "sr + 1 = of_nat (Suc (nlen (unat nh) - nlen (unat dh)))" unfolding e by simp
  then show "unat (sr + 1) = Suc (nlen (unat nh) - nlen (unat dh))"
    using small_word_numerals [OF b] by (simp only:)
qed

lemma sr_far:
  fixes dh nh :: "'h word"
  assumes "nlen (unat nh) < nlen (unat dh)" "unat b < 2 ^ 31"
  shows "(b :: u32) < of_nat (builtin_clz dh) - of_nat (builtin_clz nh)"
proof -
  have "2 ^ 31 \<le> unat (of_nat (builtin_clz dh) - of_nat (builtin_clz nh) :: u32)"
    using assms(1) bits_bound by (intro clz_diff_large) simp_all
  with assms(2) show ?thesis by (simp only: word_less_nat_alt less_le_trans)
qed

lemma bits_minus:
  "unat (of_nat LENGTH('h) - 2 :: u32) = LENGTH('h) - 2" "unat (of_nat LENGTH('h) - 1 :: u32) = LENGTH('h) - 1"
  using bits_bound bits_numeral unat_sub [of 2 "of_nat LENGTH('h) :: u32"] unat_sub [of 1 "of_nat LENGTH('h) :: u32"]
  by (simp_all only: word_le_nat_alt) simp_all

lemma bits_minus_less:
  "unat (of_nat LENGTH('h) - 2 :: u32) < 2 ^ 31" "unat (of_nat LENGTH('h) - 1 :: u32) < 2 ^ 31"
  unfolding bits_minus using bits_bound by simp_all

lemma low_zero:
  assumes dl: "(lo_half d :: 'h word) = 0" and dh: "(hi_half d :: 'h word) \<noteq> 0" and nh: "(hi_half n :: 'h word) \<noteq> 0"
  shows "udivmod_w h n (d :: 'w word) = Inr (n div d, n mod d)"
proof -
  define nh :: "'h word" where "nh = hi_half n"
  define nl :: "'h word" where "nl = lo_half n"
  define dh :: "'h word" where "dh = hi_half d"
  note defs = nh_def [symmetric] nl_def [symmetric] dh_def [symmetric]
  have n0: "nh \<noteq> 0" "dh \<noteq> 0" using assms by (simp_all add: nh_def dh_def)
  have d0: "d \<noteq> 0" and n0': "n \<noteq> 0" using assms halves_0 by blast+
  have un: "unat n = unat nh * 2 ^ LENGTH('h) + unat nl" and ud: "unat d = unat dh * 2 ^ LENGTH('h)"
    by (simp_all only: unat_halves [of n] unat_halves [of d] nh_def nl_def dh_def dl) simp
  have dm: "unat n div unat d = unat nh div unat dh" "unat n mod unat d = unat nh mod unat dh * 2 ^ LENGTH('h) + unat nl"
    unfolding un ud using n0 by (simp_all only: div_scaled mod_scaled unat_eq_0 lo_less not_False_eq_True)
  have U: "udivmod_w h n d =
      (if nl = 0 then Inr (ucast (nh div dh), join_halves (nh mod dh) 0)
       else if dh AND (dh - 1) = 0 then
         Inr (ucast (drop_bit (builtin_ctz dh) nh), join_halves (nh AND (dh - 1)) nl)
       else
         let sr = of_nat (builtin_clz dh) - of_nat (builtin_clz nh)
         in if of_nat LENGTH('h) - 2 < sr then Inr (0, n)
            else
              let sr = sr + 1
              in Inr (udivmod_main d sr (drop_bit (unat sr) nh)
                   (push_bit (unat (of_nat LENGTH('h) - sr)) nh OR drop_bit (unat sr) nl)
                   (push_bit (unat (of_nat LENGTH('h) - sr)) nl) 0))"
    using n0 by (simp only: udivmod_w_def Let_def dl defs if_True if_False simp_thms)
  consider "nl = 0" | "nl \<noteq> 0" "dh AND (dh - 1) = 0" | "nl \<noteq> 0" "dh AND (dh - 1) \<noteq> 0" by blast
  then show ?thesis
  proof cases
    case 1
    then have "(ucast (nh div dh), join_halves (nh mod dh) 0) = (n div d, n mod d)"
      by (intro word_div_modI) (simp_all add: dm unat_wide unat_div unat_join unat_mod)
    with 1 show ?thesis by (simp add: U)
  next
    case 2
    note p = pow2_test [OF n0(2) 2(2)]
    have "(ucast (drop_bit (builtin_ctz dh) nh), join_halves (nh AND (dh - 1)) nl) = (n div d, n mod d)"
      by (intro word_div_modI) (simp_all add: dm unat_wide unat_drop_bit unat_join pow2_mask [OF p] p)
    with 2 show ?thesis by (simp add: U)
  next
    case 3
    define sr :: u32 where "sr = of_nat (builtin_clz dh) - of_nat (builtin_clz nh)"
    have nl: "nlen (unat n) = nlen (unat nh) + LENGTH('h)" "nlen (unat d) = nlen (unat dh) + LENGTH('h)"
      using n0 by (simp_all add: nlen_wide nh_def dh_def)
    show ?thesis
    proof (cases "nlen (unat dh) \<le> nlen (unat nh)")
      case True
      define m where "m = nlen (unat nh) - nlen (unat dh)"
      have "dh \<noteq> 1" using 3(2) by auto
      then have "unat dh \<noteq> 1" "unat dh \<noteq> 0" using n0(2) by (simp_all add: word_unat_eq_iff)
      then have "2 \<le> nlen (unat dh)" using nlen_le [of "unat dh" 1] by simp
      then have m: "m + 2 \<le> LENGTH('h)" using nlen_word [of nh] True by (simp add: m_def)
      note s1 = sr_close [OF True, folded sr_def m_def]
      have s2: "unat (of_nat LENGTH('h) - (sr + 1)) = LENGTH('h) - unat (sr + 1)"
        using m by (intro step_count) (simp add: s1)
      have "udivmod_main d (sr + 1) (drop_bit (unat (sr + 1)) nh)
          (push_bit (unat (of_nat LENGTH('h) - (sr + 1))) nh OR drop_bit (unat (sr + 1)) nl)
          (push_bit (unat (of_nat LENGTH('h) - (sr + 1))) nl) 0 = (n div d, n mod d)"
        unfolding s2 nh_def nl_def using d0 n0' True m
        by (intro udivmod_near) (simp_all add: nl s1(2) m_def del: One_nat_def)
      moreover have "\<not> of_nat LENGTH('h) - 2 < sr"
        using m by (simp only: word_less_nat_alt s1(1) bits_minus)
      ultimately show ?thesis using 3 by (simp only: U if_False sr_def [symmetric] Let_def)
    next
      case False
      then have "(0, n) = (n div d, n mod d)" by (intro less_wide) (simp add: nl)
      moreover have "of_nat LENGTH('h) - 2 < sr"
        unfolding sr_def using False by (intro sr_far bits_minus_less) (simp_all add: not_le)
      ultimately show ?thesis using 3 by (simp only: U if_False if_True sr_def [symmetric] Let_def)
    qed
  qed
qed


lemma high_both:
  assumes dl: "(lo_half d :: 'h word) \<noteq> 0" and dh: "(hi_half d :: 'h word) \<noteq> 0" and nh: "(hi_half n :: 'h word) \<noteq> 0"
  shows "udivmod_w h n (d :: 'w word) = Inr (n div d, n mod d)"
proof -
  define nh :: "'h word" where "nh = hi_half n"
  define nl :: "'h word" where "nl = lo_half n"
  define dh :: "'h word" where "dh = hi_half d"
  note defs = nh_def [symmetric] nl_def [symmetric] dh_def [symmetric]
  have n0: "nh \<noteq> 0" "dh \<noteq> 0" using assms by (simp_all add: nh_def dh_def)
  have d0: "d \<noteq> 0" and n0': "n \<noteq> 0" using assms halves_0 by blast+
  have nl: "nlen (unat n) = nlen (unat nh) + LENGTH('h)" "nlen (unat d) = nlen (unat dh) + LENGTH('h)"
    using n0 by (simp_all add: nlen_wide nh_def dh_def)
  define sr :: u32 where "sr = of_nat (builtin_clz dh) - of_nat (builtin_clz nh)"
  have U: "udivmod_w h n d =
      (if of_nat LENGTH('h) - 1 < sr then Inr (0, n)
       else Inr (if sr + 1 = of_nat LENGTH('h) then udivmod_main d (sr + 1) 0 nh nl 0
                 else udivmod_main d (sr + 1) (drop_bit (unat (sr + 1)) nh)
                   (push_bit (unat (of_nat LENGTH('h) - (sr + 1))) nh OR drop_bit (unat (sr + 1)) nl)
                   (push_bit (unat (of_nat LENGTH('h) - (sr + 1))) nl) 0))"
    using n0 dl by (simp only: udivmod_w_def Let_def defs if_False simp_thms sr_def)
  show ?thesis
  proof (cases "nlen (unat dh) \<le> nlen (unat nh)")
    case True
    define m where "m = nlen (unat nh) - nlen (unat dh)"
    have "0 < nlen (unat dh)" using n0(2) by (intro nlen_pos) (simp add: unat_eq_0)
    then have m: "m + 1 \<le> LENGTH('h)" using nlen_word [of nh] True by (simp add: m_def)
    note s1 = sr_close [OF True, folded sr_def m_def]
    have s2: "unat (of_nat LENGTH('h) - (sr + 1)) = LENGTH('h) - unat (sr + 1)"
      using m by (intro step_count) (simp add: s1)
    have ls: "\<not> of_nat LENGTH('h) - 1 < sr"
      using m by (simp only: word_less_nat_alt s1(1) bits_minus)
    have eq: "sr + 1 = of_nat LENGTH('h) \<longleftrightarrow> unat (sr + 1) = LENGTH('h)"
      by (simp only: word_unat_eq_iff bits_numeral)
    show ?thesis
    proof (cases "unat (sr + 1) = LENGTH('h)")
      case e: True
      have "udivmod_main d (sr + 1) 0 nh nl 0 = (n div d, n mod d)"
        unfolding nh_def nl_def using d0 n0' True e
        by (intro udivmod_equal) (simp_all add: nl s1(2) m_def del: One_nat_def)
      then show ?thesis using ls e eq by (simp only: U if_False if_True simp_thms)
    next
      case ne: False
      have "udivmod_main d (sr + 1) (drop_bit (unat (sr + 1)) nh)
          (push_bit (unat (of_nat LENGTH('h) - (sr + 1))) nh OR drop_bit (unat (sr + 1)) nl)
          (push_bit (unat (of_nat LENGTH('h) - (sr + 1))) nl) 0 = (n div d, n mod d)"
        unfolding s2 nh_def nl_def using d0 n0' True m ne
        by (intro udivmod_near) (simp_all add: nl s1(2) m_def del: One_nat_def)
      then show ?thesis using ls ne eq by (simp only: U if_False)
    qed
  next
    case False
    then have "(0, n) = (n div d, n mod d)" by (intro less_wide) (simp add: nl)
    moreover have "of_nat LENGTH('h) - 1 < sr"
      unfolding sr_def using False by (intro sr_far bits_minus_less) (simp_all add: not_le)
    ultimately show ?thesis by (simp only: U if_True)
  qed
qed

text \<open>A high dividend half over a divisor of one half: the shift count needs one word more.\<close>

lemma sr_wide:
  fixes dl nh :: "'h word"
  defines "m \<equiv> Suc (nlen (unat nh) + LENGTH('h) - nlen (unat dl))"
  shows "unat (1 + of_nat LENGTH('h) + of_nat (builtin_clz dl) - of_nat (builtin_clz nh) :: u32) = m"
proof -
  have "nlen (unat nh) \<le> LENGTH('h)" "nlen (unat dl) \<le> LENGTH('h)" by (rule nlen_word)+
  then have "(1 + of_nat LENGTH('h) + of_nat (builtin_clz dl) - of_nat (builtin_clz nh) :: u32) = of_nat m"
    by (simp add: m_def builtin_clz_def of_nat_diff)
  moreover have "unat (of_nat m :: u32) = m"
    using bits_bound nlen_word [of nh] by (intro small_word_numerals) (simp add: m_def)
  ultimately show ?thesis by (simp only:)
qed

lemma high_zero:
  assumes dl: "(lo_half d :: 'h word) \<noteq> 0" and dh: "(hi_half d :: 'h word) = 0" and nh: "(hi_half n :: 'h word) \<noteq> 0"
  shows "udivmod_w h n (d :: 'w word) = Inr (n div d, n mod d)"
proof -
  define nh :: "'h word" where "nh = hi_half n"
  define nl :: "'h word" where "nl = lo_half n"
  define dl :: "'h word" where "dl = lo_half d"
  note defs = nh_def [symmetric] nl_def [symmetric] dl_def [symmetric]
  have n0: "nh \<noteq> 0" "dl \<noteq> 0" using assms by (simp_all add: nh_def dl_def)
  have d0: "d \<noteq> 0" and n0': "n \<noteq> 0" using assms halves_0 by blast+
  have nl: "nlen (unat n) = nlen (unat nh) + LENGTH('h)" "nlen (unat d) = nlen (unat dl)"
    using n0 dh by (simp_all add: nlen_wide nh_def dl_def)
  have un: "unat n = unat nh * 2 ^ LENGTH('h) + unat nl" and ud: "unat d = unat dl"
    by (simp_all only: unat_halves [of n] unat_halves [of d] nh_def nl_def dl_def dh) simp
  define sr :: u32 where "sr = 1 + of_nat LENGTH('h) + of_nat (builtin_clz dl) - of_nat (builtin_clz nh)"
  have U: "udivmod_w h n d =
      (if dl AND (dl - 1) = 0 then
         (if dl = 1 then Inr (n, ucast (nl AND (dl - 1)))
          else Inr (join_halves (drop_bit (builtin_ctz dl) nh)
                 (push_bit (LENGTH('h) - builtin_ctz dl) nh OR drop_bit (builtin_ctz dl) nl),
               ucast (nl AND (dl - 1))))
       else Inr (if sr = of_nat LENGTH('h) then udivmod_main d sr 0 nh nl 0
            else if sr < of_nat LENGTH('h) then
              udivmod_main d sr (drop_bit (unat sr) nh)
                (push_bit (unat (of_nat LENGTH('h) - sr)) nh OR drop_bit (unat sr) nl)
                (push_bit (unat (of_nat LENGTH('h) - sr)) nl) 0
            else udivmod_main d sr 0 (drop_bit (unat (sr - of_nat LENGTH('h))) nh)
                (push_bit (unat (of_nat LENGTH('w) - sr)) nh OR drop_bit (unat (sr - of_nat LENGTH('h))) nl)
                (push_bit (unat (of_nat LENGTH('w) - sr)) nl)))"
    using n0 dh by (simp only: udivmod_w_def Let_def defs if_True if_False simp_thms sr_def)
  show ?thesis
  proof (cases "dl AND (dl - 1) = 0")
    case True
    define j where "j = builtin_ctz dl"
    have p: "unat dl = 2 ^ j" unfolding j_def using n0(2) True by (rule pow2_test)
    have j: "j < LENGTH('h)" unfolding j_def using n0(2) by (rule ctz_less)
    obtain e where e: "LENGTH('h) = j + e" using j by (metis less_imp_add_positive)
    have "unat n mod 2 ^ j = unat nl mod 2 ^ j"
      unfolding un e power_add by (metis mod_mult_self2 add.commute mult.assoc mult.commute)
    then have r: "unat (ucast (nl AND (dl - 1)) :: 'w word) = unat n mod unat d"
      by (simp only: unat_wide pow2_mask [OF p] ud p)
    have "join_halves (drop_bit j nh) (push_bit (LENGTH('h) - j) nh OR drop_bit j nl) = drop_bit j n"
      unfolding nh_def nl_def using j by (rule join_shr_near)
    then have "(join_halves (drop_bit j nh) (push_bit (LENGTH('h) - j) nh OR drop_bit j nl),
        ucast (nl AND (dl - 1))) = (n div d, n mod d)"
      by (intro word_div_modI r) (simp only: unat_drop_bit ud p)
    moreover have "dl = 1 \<Longrightarrow> (n, ucast (nl AND (dl - 1))) = (n div d, n mod d)"
      by (intro word_div_modI r) (simp add: ud)
    ultimately show ?thesis using True by (simp only: U j_def if_True split: if_split) simp
  next
    case False
    have ne: "dl \<noteq> 1" using False by auto
    then have "unat dl \<noteq> 1" "unat dl \<noteq> 0" using n0(2) by (simp_all add: word_unat_eq_iff)
    then have "2 \<le> nlen (unat dl)" using nlen_le [of "unat dl" 1] by simp
    moreover have "nlen (unat nh) \<le> LENGTH('h)" "nlen (unat dl) \<le> LENGTH('h)" by (rule nlen_word)+
    ultimately have le: "nlen (unat d) \<le> nlen (unat n)" and
      m: "unat sr = Suc (nlen (unat n) - nlen (unat d))" "unat sr < LENGTH('w)"
      unfolding sr_def sr_wide nl w2 by simp_all
    have c: "sr = of_nat LENGTH('h) \<longleftrightarrow> unat sr = LENGTH('h)" "sr < of_nat LENGTH('h) \<longleftrightarrow> unat sr < LENGTH('h)"
      by (simp_all only: word_unat_eq_iff word_less_nat_alt bits_numeral)
    consider "unat sr = LENGTH('h)" | "unat sr < LENGTH('h)" | "LENGTH('h) < unat sr" by linarith
    then show ?thesis
    proof cases
      case 1
      have "udivmod_main d sr 0 nh nl 0 = (n div d, n mod d)"
        unfolding nh_def nl_def using d0 n0' le m(1) 1 by (rule udivmod_equal)
      then show ?thesis using False 1 by (simp only: U c if_False if_True) simp
    next
      case 2
      have s2: "unat (of_nat LENGTH('h) - sr) = LENGTH('h) - unat sr" using 2 by (intro step_count) simp
      have "udivmod_main d sr (drop_bit (unat sr) nh)
            (push_bit (unat (of_nat LENGTH('h) - sr)) nh OR drop_bit (unat sr) nl)
            (push_bit (unat (of_nat LENGTH('h) - sr)) nl) 0 = (n div d, n mod d)"
        unfolding nh_def nl_def s2 using d0 n0' le m(1) 2 by (rule udivmod_near)
      then show ?thesis using False 2 by (simp only: U c if_False if_True split: if_split) simp
    next
      case 3
      have s3: "unat (sr - of_nat LENGTH('h)) = unat sr - LENGTH('h)"
        using 3 unat_sub [of "of_nat LENGTH('h)" sr] by (simp only: word_le_nat_alt bits_numeral less_imp_le)
      have s4: "unat (of_nat LENGTH('w) - sr) = LENGTH('w) - unat sr"
        using m(2) unat_sub [of sr "of_nat LENGTH('w)"] by (simp only: word_le_nat_alt bits_numeral less_imp_le)
      have "udivmod_main d sr 0 (drop_bit (unat (sr - of_nat LENGTH('h))) nh)
            (push_bit (unat (of_nat LENGTH('w) - sr)) nh OR drop_bit (unat (sr - of_nat LENGTH('h))) nl)
            (push_bit (unat (of_nat LENGTH('w) - sr)) nl) = (n div d, n mod d)"
        unfolding nh_def nl_def s3 s4 using d0 n0' le m(1) 3 m(2) by (rule udivmod_far)
      then show ?thesis using False 3 by (simp only: U c if_False split: if_split) simp
    qed
  qed
qed

text \<open>The contract of the two-word division: a trap for a zero divisor, else quotient and remainder.\<close>

lemma udivmod_w_correct:
  "udivmod_w h n (d :: 'w word) = (if d = 0 then Inl DivideTrap else Inr (n div d, n mod d))"
proof (cases "d = 0")
  case False
  then consider "(hi_half n :: 'h word) = 0" | "(hi_half n :: 'h word) \<noteq> 0" "(lo_half d :: 'h word) = 0" "(hi_half d :: 'h word) \<noteq> 0"
    | "(hi_half n :: 'h word) \<noteq> 0" "(lo_half d :: 'h word) \<noteq> 0" "(hi_half d :: 'h word) = 0"
    | "(hi_half n :: 'h word) \<noteq> 0" "(lo_half d :: 'h word) \<noteq> 0" "(hi_half d :: 'h word) \<noteq> 0"
    using halves_0 [of d] by blast
  then show ?thesis using False by cases (simp_all add: small_n low_zero high_zero high_both)
qed (simp add: udivmod_w_zero)

end

section \<open>Signed division\<close>

definition c_smod :: "'a::len word \<Rightarrow> 'a word \<Rightarrow> 'a word" where
  "c_smod a b = word_of_int (sint a smod sint b)"

lemma sign_of_mask: "sign_of a = (if a <s 0 then - 1 else 0)"
  by (simp add: sign_of_def sign_mask)

definition abs_word :: "'a::len word \<Rightarrow> 'a word" where
  "abs_word a = (if a <s 0 then - a else a)"

lemma uint_abs_word: "uint (abs_word a) = \<bar>sint (a :: 'a::len word)\<bar>"
proof -
  have "abs_word a = word_of_int \<bar>sint a\<bar>"
    by (simp add: abs_word_def word_sless_alt abs_if)
  moreover have "\<bar>sint a\<bar> < 2 ^ LENGTH('a)"
  proof -
    have "\<bar>sint a\<bar> \<le> 2 ^ (LENGTH('a) - Suc 0)" using sint_bounds [of a] by simp
    also have "\<dots> < 2 ^ LENGTH('a)" by (intro power_strict_increasing) simp_all
    finally show ?thesis .
  qed
  ultimately show ?thesis by (simp add: uint_word_of_int)
qed

lemma abs_word_0: "abs_word b = 0 \<longleftrightarrow> b = 0"
  by (auto simp: abs_word_def)

lemma sign_neg: "(x XOR sign_of a) - sign_of a = (if a <s 0 then - x else x)"
  by (simp only: sign_of_mask cond_neg)

lemma sign_abs: "(a XOR sign_of a) - sign_of a = abs_word a"
  by (simp only: sign_neg abs_word_def)

lemma sign_xor: "sign_of a XOR sign_of b = (if (a <s 0) \<noteq> (b <s 0) then - 1 else 0)"
  by (simp add: sign_of_mask)

lemma div_signed_correct:
  assumes u: "\<And>a b. udiv a b = (if b = 0 then Inl DivideTrap else Inr (a div b))"
  shows "div_signed udiv a b = (if b = 0 then Inl DivideTrap else Inr (c_sdiv a b))"
proof (cases "b = 0")
  case False
  have w: "abs_word a div abs_word b = word_of_int (\<bar>sint a\<bar> div \<bar>sint b\<bar>)"
    by (simp add: word_div_def uint_abs_word)
  have "div_signed udiv a b =
      Inr (if (a <s 0) \<noteq> (b <s 0) then - (abs_word a div abs_word b) else abs_word a div abs_word b)"
    using False by (simp only: div_signed_def Let_def sign_abs sign_xor u abs_word_0 cond_neg if_False
        map_sum.simps id_apply)
  moreover have "sint b \<noteq> 0" using False sint_eq_iff [of b 0] by simp
  ultimately show ?thesis using False
    by (auto simp: w c_sdiv_def signed_divide_int_def word_sless_alt sgn_if)
qed (simp add: div_signed_def Let_def sign_of_mask u)

lemma mod_signed_correct:
  assumes u: "\<And>a b. umod a b = (if b = 0 then Inl DivideTrap else Inr (a mod b))"
  shows "mod_signed umod a b = (if b = 0 then Inl DivideTrap else Inr (c_smod a b))"
proof (cases "b = 0")
  case False
  have w: "abs_word a mod abs_word b = word_of_int (\<bar>sint a\<bar> mod \<bar>sint b\<bar>)"
    by (simp add: word_mod_def uint_abs_word)
  have "mod_signed umod a b =
      Inr (if a <s 0 then - (abs_word a mod abs_word b) else abs_word a mod abs_word b)"
    using False by (simp only: mod_signed_def Let_def sign_abs sign_neg u abs_word_0 if_False
        map_sum.simps id_apply)
  then show ?thesis using False
    by (auto simp: w c_smod_def signed_modulo_int_def smod_int_alt_def word_sless_alt sgn_if)
qed (simp add: mod_signed_def Let_def sign_of_mask u)

section \<open>The division routines\<close>

lemmas udivmod_correct = dw.udivmod_w_correct tw.udivmod_w_correct

lemma udiv_correct:
  "udivdi3 a b = (if b = 0 then Inl DivideTrap else Inr (a div b))"
  "umoddi3 a b = (if b = 0 then Inl DivideTrap else Inr (a mod b))"
  "udivti3 x y = (if y = 0 then Inl DivideTrap else Inr (x div y))"
  "umodti3 x y = (if y = 0 then Inl DivideTrap else Inr (x mod y))"
  by (simp_all add: udivdi3_def umoddi3_def udivti3_def umodti3_def udivmoddi4_def udivmodti4_def
      udivmod_correct)

lemma div_correct:
  "divsi3 p q = (if q = 0 then Inl DivideTrap else Inr (c_sdiv p q))"
  "divdi3 a b = (if b = 0 then Inl DivideTrap else Inr (c_sdiv a b))"
  "divti3 x y = (if y = 0 then Inl DivideTrap else Inr (c_sdiv x y))"
  unfolding divsi3_def divdi3_def divti3_def
  by (rule div_signed_correct, simp add: hw_udiv_def udiv_correct)+

lemma sdiv_smod_word: "a - c_sdiv a b * b = c_smod a b"
  by (simp add: c_sdiv_def c_smod_def flip: minus_sdiv_mult_eq_smod)

lemma mod_correct:
  "modsi3 p q = (if q = 0 then Inl DivideTrap else Inr (c_smod p q))"
  "moddi3 a b = (if b = 0 then Inl DivideTrap else Inr (c_smod a b))"
  "modti3 x y = (if y = 0 then Inl DivideTrap else Inr (c_smod x y))"
  by (simp add: modsi3_def div_correct sdiv_smod_word)
     (unfold moddi3_def modti3_def, (rule mod_signed_correct, simp add: udiv_correct)+)

lemma divmod_correct:
  "divmodsi4 p q = (if q = 0 then Inl DivideTrap else Inr (c_sdiv p q, c_smod p q))"
  "divmoddi4 a b = (if b = 0 then Inl DivideTrap else Inr (c_sdiv a b, c_smod a b))"
  by (simp_all add: divmodsi4_def divmoddi4_def div_correct sdiv_smod_word)

lemma umod_si_correct: "umodsi3 n d = n mod d" "udivmodsi4 n d = (n div d, n mod d)"
  by (simp_all add: umodsi3_def udivmodsi4_def udivsi3_correct minus_div_mult_eq_mod)


section \<open>Products\<close>

text \<open>The quarter-digit product on naturals: no intermediate sum leaves \<open>B * B\<close>.\<close>

lemma digit_bound: "x < B \<Longrightarrow> y < B \<Longrightarrow> z < (B::nat) \<Longrightarrow> z + x * y < B * B"
proof -
  assume "x < B" "y < B" "z < B"
  then have "(x + 1) * y \<le> B * (B - 1)" by (intro mult_le_mono) auto
  moreover have "B * (B - 1) + B = B * B" using \<open>x < B\<close> by (cases B) simp_all
  moreover have "z + x * y \<le> z + (x + 1) * y" by simp
  ultimately show ?thesis using \<open>z < B\<close> by linarith
qed

lemma digit_shift:
  assumes "x < B" "y < (B::nat)"
  shows "x + y * B < B * B"
proof -
  have "(y + 1) * B \<le> B * B" using assms by (intro mult_le_mono1) simp
  with assms show ?thesis by simp
qed

definition mul_digits :: "nat \<Rightarrow> nat \<Rightarrow> nat \<Rightarrow> nat \<Rightarrow> nat \<Rightarrow> nat \<times> nat" where
  "mul_digits B a1 a0 b1 b0 =
     (let low = a0 * b0; t = low div B + a1 * b0; l1 = low mod B + (t mod B) * B;
          u = l1 div B + b1 * a0
      in (t div B + u div B + a1 * b1, l1 mod B + (u mod B) * B))"

lemma mul_digits_value:
  assumes "0 < B" and md: "mul_digits B a1 a0 b1 b0 = (h, l)"
  shows "h * (B * B) + l = (a1 * B + a0) * (b1 * B + b0)"
proof -
  define low where "low = a0 * b0"
  define t where "t = low div B + a1 * b0"
  define u where "u = t mod B + b1 * a0"
  have l1: "(low mod B + (t mod B) * B) div B = t mod B" "(low mod B + (t mod B) * B) mod B = low mod B"
    using assms(1) by simp_all
  have hl: "h = t div B + u div B + a1 * b1" "l = low mod B + (u mod B) * B"
    using md by (simp_all add: mul_digits_def Let_def low_def [symmetric] t_def [symmetric] l1 u_def [symmetric])
  have "low = low div B * B + low mod B" "t = t div B * B + t mod B" "u = u div B * B + u mod B"
    by (simp_all only: div_mult_mod_eq)
  note parts = this
  have "h * (B * B) + l = a1 * b1 * (B * B) + (t div B * B + (u div B * B + u mod B)) * B + low mod B"
    unfolding hl by (simp only: algebra_simps)
  also have "t div B * B + (u div B * B + u mod B) = t + b1 * a0"
    using parts u_def by linarith
  also have "a1 * b1 * (B * B) + (t + b1 * a0) * B + low mod B = a1 * b1 * (B * B) + (a1 * b0 + b1 * a0) * B + low"
    using div_mult_mod_eq [of low B] unfolding t_def by (simp add: algebra_simps)
  also have "\<dots> = (a1 * B + a0) * (b1 * B + b0)" by (simp add: low_def algebra_simps)
  finally show ?thesis .
qed


context double_word
begin

lemma half_bits: "2 * (LENGTH('h) div 2) = LENGTH('h)"
proof -
  obtain m where "k = Suc m" using small(1) gr0_implies_Suc by blast
  then show ?thesis by (simp add: half_len)
qed

text \<open>Words of one half below its square, and the operations of the product on them.\<close>

lemma mul_halves_value: "unat (mul_halves a b :: 'w word) = unat a * unat (b :: 'h word)"
proof -
  define hb where "hb = LENGTH('h) div 2"
  define B :: nat where "B = 2 ^ hb"
  have BB: "B * B = 2 ^ LENGTH('h)"
    using half_bits by (simp add: B_def hb_def mult_2 flip: power_add)
  have B0: "0 < B" by (simp add: B_def)
  have mk: "drop_bit hb (NOT 0 :: 'h word) = mask hb"
    using half_bits by (intro bit_word_eqI) (auto simp: bit_simps hb_def)
  define a0 a1 b0 b1 where "a0 = unat a mod B" and "a1 = unat a div B" and "b0 = unat b mod B" and "b1 = unat b div B"
  have small: "a0 < B" "a1 < B" "b0 < B" "b1 < B"
    using B0 unsigned_less [of a, where ?'a = nat] unsigned_less [of b, where ?'a = nat]
    by (simp_all add: a0_def a1_def b0_def b1_def less_mult_imp_div_less flip: BB)
  have ops: "unat (x AND drop_bit hb (NOT 0)) = unat x mod B" "unat (drop_bit hb x) = unat x div B" for x :: "'h word"
    by (simp_all only: mk unat_and_mask unat_drop_bit B_def)
  have mul: "unat (x * y) = unat x * unat y" if "unat x < B" "unat y < B" for x y :: "'h word"
    using digit_bound [OF that B0] by (simp add: unat_mult_lem [THEN iffD1] flip: BB)
  have add: "unat (x + y) = unat x + unat y" if "unat x + unat y < B * B" for x y :: "'h word"
    using that unat_add_lem [of x y] by (simp only: BB)
  have shl: "unat (push_bit hb x) = unat x * B" if "unat x < B" for x :: "'h word"
  proof -
    have "unat x * B < B * B" using that B0 by simp
    then show ?thesis
      by (subst unsigned_push_bit_eq) (simp add: push_bit_eq_mult take_bit_eq_mod B_def [symmetric] BB)
  qed
  define M where "M = drop_bit hb (NOT 0 :: 'h word)"
  define low where "low = (a AND M) * (b AND M)"
  define t where "t = drop_bit hb low + drop_bit hb a * (b AND M)"
  define l1 where "l1 = (low AND M) + push_bit hb (t AND M)"
  define u where "u = drop_bit hb l1 + drop_bit hb b * (a AND M)"
  define l2 where "l2 = (l1 AND M) + push_bit hb (u AND M)"
  define hi where "hi = drop_bit hb t + drop_bit hb u + drop_bit hb a * drop_bit hb b"
  have res: "mul_halves a b = (join_halves hi l2 :: 'w word)"
    by (simp only: mul_halves_def Let_def hb_def [symmetric] M_def [symmetric] low_def [symmetric]
        t_def [symmetric] l1_def [symmetric] u_def [symmetric] l2_def [symmetric] hi_def [symmetric])
  have dig: "unat (a AND M) = a0" "unat (b AND M) = b0" "unat (drop_bit hb a) = a1" "unat (drop_bit hb b) = b1"
    by (simp_all only: M_def ops a0_def b0_def a1_def b1_def)
  have ulow: "unat low = a0 * b0" unfolding low_def by (subst mul) (simp_all only: dig small)
  have ab0: "a0 * b0 < B * B" using digit_bound [OF small(1,3) B0] by simp
  have "unat (drop_bit hb a * (b AND M)) = a1 * b0" by (subst mul) (simp_all only: dig small)
  moreover have "a0 * b0 div B < B" using ab0 by (rule less_mult_imp_div_less)
  ultimately have ut: "unat t = a0 * b0 div B + a1 * b0"
    unfolding t_def using digit_bound [OF small(2,3)] by (subst add) (simp_all only: ops ulow)
  have tM: "unat (t AND M) = unat t mod B" "unat t mod B < B" using B0 by (simp_all only: M_def ops mod_less_divisor)
  have lowM: "unat (low AND M) = a0 * b0 mod B" by (simp only: M_def ops ulow)
  have ul1: "unat l1 = a0 * b0 mod B + (unat t mod B) * B"
    unfolding l1_def using digit_shift [OF _ tM(2), of "a0 * b0 mod B"] B0
    by (subst add) (simp_all only: shl tM lowM mod_less_divisor)
  have d1: "unat l1 div B = unat t mod B" using B0 by (simp add: ul1)
  have "unat (drop_bit hb b * (a AND M)) = b1 * a0" by (subst mul) (simp_all only: dig small)
  then have uu: "unat u = unat l1 div B + b1 * a0"
    unfolding u_def using digit_bound [OF small(4,1) tM(2)] by (subst add) (simp_all only: ops d1)
  have uM: "unat (u AND M) = unat u mod B" "unat u mod B < B" using B0 by (simp_all only: M_def ops mod_less_divisor)
  have l1M: "unat (l1 AND M) = unat l1 mod B" by (simp only: M_def ops)
  have ul2: "unat l2 = unat l1 mod B + (unat u mod B) * B"
    unfolding l2_def using digit_shift [OF _ uM(2), of "unat l1 mod B"] B0
    by (subst add) (simp_all only: shl uM l1M mod_less_divisor)
  define H where "H = unat t div B + unat u div B + a1 * b1"
  have md: "mul_digits B a1 a0 b1 b0 = (H, unat l2)"
    by (simp only: mul_digits_def Let_def H_def ul2 uu ul1 ut)
  have ab: "a1 * B + a0 = unat a" "b1 * B + b0 = unat b"
    by (simp_all only: a0_def a1_def b0_def b1_def div_mult_mod_eq)
  note val = mul_digits_value [OF B0 md, unfolded ab]
  have "unat a * unat b < (B * B) * (B * B)"
    by (intro mult_strict_mono) (simp_all add: BB)
  then have "H * (B * B) < (B * B) * (B * B)" using val by linarith
  then have H: "H < B * B" by simp
  have "unat (drop_bit hb a * drop_bit hb b) = a1 * b1" by (subst mul) (simp_all only: dig small)
  moreover have "unat (drop_bit hb t + drop_bit hb u) = unat t div B + unat u div B"
    using H unfolding H_def by (subst add) (simp_all only: ops)
  ultimately have "unat hi = H" unfolding hi_def using H unfolding H_def by (subst add) simp_all
  then show ?thesis unfolding res unat_join using val by (simp only: BB)
qed

end

context double_word
begin

lemma join_of_nat: "(join_halves a b :: 'w word) = of_nat (unat (a :: 'h word) * 2 ^ LENGTH('h) + unat b)"
  by (metis unat_join ucast_id of_nat_unat)

lemma of_nat_high: "(of_nat (x mod 2 ^ LENGTH('h) * 2 ^ LENGTH('h) + l) :: 'w word) = of_nat (x * 2 ^ LENGTH('h) + l)"
proof -
  define P :: nat where "P = 2 ^ LENGTH('h)"
  have PP: "of_nat (P * P) = (0 :: 'w word)"
    by (simp add: P_def w2 mult_2 word_of_nat_eq_0_iff dvd_refl flip: power_add)
  have "x * P + l = (x mod P * P + l) + x div P * (P * P)"
    using div_mult_mod_eq [of x P] by (metis (no_types) add.commute add.left_commute add_mult_distrib mult.assoc)
  then have "(of_nat (x * P + l) :: 'w word) = of_nat (x mod P * P + l) + of_nat (x div P) * of_nat (P * P)"
    by (simp only: of_nat_add of_nat_mult)
  then show ?thesis unfolding PP P_def [symmetric] by (simp only: mult_zero_right add_0_right)
qed

lemma mul_w_correct: "mul_w h a b = a * (b :: 'w word)"
proof -
  define P :: nat where "P = 2 ^ LENGTH('h)"
  define xh xl yh yl where "xh = (hi_half a :: 'h word)" and "xl = (lo_half a :: 'h word)"
    and "yh = (hi_half b :: 'h word)" and "yl = (lo_half b :: 'h word)"
  define r :: "'w word" where "r = mul_halves xl yl"
  have r: "unat (hi_half r :: 'h word) * P + unat (lo_half r :: 'h word) = unat xl * unat yl"
    unfolding P_def unat_halves [of r, symmetric] by (simp add: r_def mul_halves_value)
  have s: "unat (hi_half r + (xh * yl + xl * yh)) = (unat (hi_half r :: 'h word) + (unat xh * unat yl + unat xl * unat yh)) mod P"
    by (simp add: unat_word_ariths P_def mod_simps)
  have "mul_w h a b = join_halves (hi_half r + (xh * yl + xl * yh)) (lo_half r)"
    by (simp only: mul_w_def Let_def xh_def xl_def yh_def yl_def r_def)
  also have "\<dots> = of_nat ((unat (hi_half r :: 'h word) + (unat xh * unat yl + unat xl * unat yh)) * P + unat (lo_half r :: 'h word))"
    unfolding join_of_nat s P_def by (rule of_nat_high)
  also have "(unat (hi_half r :: 'h word) + (unat xh * unat yl + unat xl * unat yh)) * P + unat (lo_half r :: 'h word)
      = unat xl * unat yl + (unat xh * unat yl + unat xl * unat yh) * P"
    using r by (simp add: algebra_simps)
  also have "of_nat \<dots> = (of_nat (unat a * unat b) :: 'w word)"
  proof -
    have ab: "unat a = unat xh * P + unat xl" "unat b = unat yh * P + unat yl"
      by (simp_all only: unat_halves [of a] unat_halves [of b] P_def xh_def xl_def yh_def yl_def)
    have "unat a * unat b = unat xl * unat yl + (unat xh * unat yl + unat xl * unat yh) * P + unat xh * unat yh * (P * P)"
      unfolding ab by (simp add: algebra_simps)
    moreover have "of_nat (P * P) = (0 :: 'w word)"
      by (simp add: P_def w2 mult_2 word_of_nat_eq_0_iff flip: power_add)
    ultimately show ?thesis by (simp only: of_nat_add of_nat_mult mult_zero_right add_0_right)
  qed
  finally show ?thesis by simp
qed

end

lemma mul_correct: "muldi3 a b = a * b" "multi3 x y = x * y"
  by (simp_all add: muldi3_def multi3_def dw.mul_w_correct tw.mul_w_correct)

lemma muls_correct: "unat (muldsi3 p q) = unat p * unat q" "unat (mulddi3 a b) = unat a * unat b"
  by (simp_all add: muldsi3_def mulddi3_def dw.mul_halves_value tw.mul_halves_value)

lemma clz_top:
  assumes "a \<noteq> (0 :: 'a::len word)" "LENGTH('a) < 2 ^ 32"
  shows "unat a div 2 ^ (LENGTH('a) - Suc (unat (of_nat (builtin_clz a) :: u32))) = 1"
proof -
  have n: "unat a \<noteq> 0" using assms by (simp add: unat_eq_0)
  define k where "k = nlen (unat a)"
  have k: "0 < k" "k \<le> LENGTH('a)" "2 ^ (k - 1) \<le> unat a" "unat a < 2 ^ k"
    using nlen_pos [OF n] nlen_word [of a] nlen_lower [OF n] nlen_upper [of "unat a"] by (simp_all add: k_def)
  have "unat (of_nat (builtin_clz a) :: u32) = LENGTH('a) - k"
    using assms(2) by (simp add: builtin_clz_def k_def unat_of_nat)
  then have "LENGTH('a) - Suc (unat (of_nat (builtin_clz a) :: u32)) = k - 1" using k by simp
  moreover have "2 ^ k = (2 :: nat) * 2 ^ (k - 1)" using k(1) by (cases k) simp_all
  ultimately show ?thesis using k(3,4) by (auto intro!: div_nat_eqI)
qed

lemma ctz_low:
  assumes "a \<noteq> (0 :: 'a::len word)" "LENGTH('a) < 2 ^ 32"
  shows "odd (unat a div 2 ^ unat (of_nat (builtin_ctz a) :: u32)) \<and> 2 ^ unat (of_nat (builtin_ctz a) :: u32) dvd unat a"
proof -
  have n: "unat a \<noteq> 0" using assms by (simp add: unat_eq_0)
  have "builtin_ctz a < LENGTH('a)" using assms(1) by (rule ctz_less)
  then have "unat (of_nat (builtin_ctz a) :: u32) = ntz (unat a)" using assms(2) by (simp add: builtin_ctz_def unat_of_nat)
  moreover obtain k where "odd k" "unat a = 2 ^ ntz (unat a) * k" using ntz_decomp [OF n] by blast
  ultimately show ?thesis by (metis dvd_triv_left nonzero_mult_div_cancel_left power_not_zero zero_neq_numeral)
qed

lemma byte_at_eqI:
  assumes "LENGTH('a) = 8 * n" "\<And>i. i < n \<Longrightarrow> byte_at i (p :: 'a::len word) = byte_at i q"
  shows "p = q"
proof (rule bit_word_eqI)
  fix k assume "k < LENGTH('a)"
  then have "byte_at (k div 8) p = byte_at (k div 8) q" using assms by auto
  then show "bit p k = bit q k" by (auto simp: bit_eq_iff bit_byte_at dest: spec [of _ "k mod 8"])
qed

lemma bswap_twice: "bswapsi2 (bswapsi2 p) = p" "bswapdi2 (bswapdi2 a) = a"
  by (rule byte_at_eqI [where n = 4], simp_all add: bswapsi2_byte)
     (rule byte_at_eqI [where n = 8], simp_all add: bswapdi2_byte)

end
