(* ===== verification/Mem.thy ===== *)
theory Mem
  imports Prelude
begin

text \<open>
  The byte-addressed memory the C library works on. An unmapped access and a loop that never
  ends are both \<open>None\<close>. Words are little-endian, as on x86-64. \<open>bytes_at\<close> and \<open>cstr\<close> are
  the assertions used in the contracts of the string functions, \<open>put_bytes\<close> the effect of the
  functions that write.
\<close>

type_synonym mem = "addr \<Rightarrow> byte option"

section \<open>Loads and stores\<close>

definition store8 :: "mem \<Rightarrow> addr \<Rightarrow> byte \<Rightarrow> mem option" where
  "store8 m a b = (if m a = None then None else Some (m(a \<mapsto> b)))"

fun load_bytes :: "mem \<Rightarrow> addr \<Rightarrow> nat \<Rightarrow> byte list option" where
  "load_bytes m a 0 = Some []"
| "load_bytes m a (Suc n) =
     (case m a of None \<Rightarrow> None
      | Some b \<Rightarrow> (case load_bytes m (a + 1) n of None \<Rightarrow> None | Some bs \<Rightarrow> Some (b # bs)))"

fun store_bytes :: "mem \<Rightarrow> addr \<Rightarrow> byte list \<Rightarrow> mem option" where
  "store_bytes m a [] = Some m"
| "store_bytes m a (b # bs) =
     (case store8 m a b of None \<Rightarrow> None | Some m \<Rightarrow> store_bytes m (a + 1) bs)"

fun le_nat :: "byte list \<Rightarrow> nat" where
  "le_nat [] = 0"
| "le_nat (b # bs) = unat b + 256 * le_nat bs"

definition le_word :: "byte list \<Rightarrow> 'a::len word" where
  "le_word bs = of_nat (le_nat bs)"

definition word_bytes :: "nat \<Rightarrow> 'a::len word \<Rightarrow> byte list" where
  "word_bytes n w = map (\<lambda>i. ucast (drop_bit (8 * i) w)) [0..<n]"

definition load32 :: "mem \<Rightarrow> addr \<Rightarrow> u32 option" where
  "load32 m a = map_option le_word (load_bytes m a 4)"

definition load64 :: "mem \<Rightarrow> addr \<Rightarrow> u64 option" where
  "load64 m a = map_option le_word (load_bytes m a 8)"

definition store32 :: "mem \<Rightarrow> addr \<Rightarrow> u32 \<Rightarrow> mem option" where
  "store32 m a w = store_bytes m a (word_bytes 4 w)"

definition store64 :: "mem \<Rightarrow> addr \<Rightarrow> u64 \<Rightarrow> mem option" where
  "store64 m a w = store_bytes m a (word_bytes 8 w)"

section \<open>Assertions\<close>

fun bytes_at :: "mem \<Rightarrow> addr \<Rightarrow> byte list \<Rightarrow> bool" where
  "bytes_at m a [] \<longleftrightarrow> True"
| "bytes_at m a (b # bs) \<longleftrightarrow> m a = Some b \<and> bytes_at m (a + 1) bs"

text \<open>A NUL-terminated string that does not wrap around the address space.\<close>

definition cstr :: "mem \<Rightarrow> addr \<Rightarrow> byte list \<Rightarrow> bool" where
  "cstr m a s \<longleftrightarrow> bytes_at m a (s @ [0]) \<and> 0 \<notin> set s \<and> unat a + length s < 2 ^ 64"

text \<open>Memory is mapped in units of aligned words (pages, on the machine).\<close>

definition word_mapped :: "mem \<Rightarrow> bool" where
  "word_mapped m \<longleftrightarrow> (\<forall>a b. m a \<noteq> None \<and> drop_bit 3 a = drop_bit 3 b \<longrightarrow> m b \<noteq> None)"

definition put_bytes :: "mem \<Rightarrow> addr \<Rightarrow> byte list \<Rightarrow> mem" where
  "put_bytes m d bs = (\<lambda>a. if unat (a - d) < length bs then Some (bs ! unat (a - d)) else m a)"

definition mapped :: "mem \<Rightarrow> addr \<Rightarrow> nat \<Rightarrow> bool" where
  "mapped m a n \<longleftrightarrow> (\<forall>i<n. m (a + of_nat i) \<noteq> None)"

text \<open>A concrete memory: one region of bytes, for evaluation.\<close>

definition region :: "addr \<Rightarrow> byte list \<Rightarrow> mem" where
  "region a bs = put_bytes (\<lambda>_. None) a bs"

section \<open>Lemmas on assertions\<close>

lemma bytes_at_append:
  "bytes_at m a (xs @ ys) \<longleftrightarrow> bytes_at m a xs \<and> bytes_at m (a + of_nat (length xs)) ys"
  by (induction xs arbitrary: a) (auto simp: add.assoc)

lemma bytes_at_nth: "bytes_at m a bs \<longleftrightarrow> (\<forall>i<length bs. m (a + of_nat i) = Some (bs ! i))"
proof (induction bs arbitrary: a)
  case (Cons b bs)
  show ?case
    by (auto simp: Cons.IH less_Suc_eq_0_disj add.assoc)
qed simp

lemma load_bytes_eq: "load_bytes m a n = Some bs \<longleftrightarrow> length bs = n \<and> bytes_at m a bs"
proof (induction n arbitrary: a bs)
  case (Suc n)
  show ?case
  proof (cases bs)
    case (Cons b bs')
    have "length bs = Suc n \<and> bytes_at m a bs \<longleftrightarrow> m a = Some b \<and> load_bytes m (a + 1) n = Some bs'"
      by (auto simp: Cons Suc.IH)
    then show ?thesis by (auto simp: Cons split: option.split)
  qed (auto split: option.split)
qed auto

lemma load_bytes_at: "bytes_at m a bs \<Longrightarrow> load_bytes m a (length bs) = Some bs"
  by (simp add: load_bytes_eq)

lemma mapped_0 [simp]: "mapped m a 0"
  by (simp add: mapped_def)

lemma mapped_Suc: "mapped m a (Suc n) \<longleftrightarrow> m a \<noteq> None \<and> mapped m (a + 1) n"
  by (auto simp: mapped_def less_Suc_eq_0_disj add.assoc)

lemma mapped_load: "mapped m a n \<Longrightarrow> \<exists>bs. length bs = n \<and> bytes_at m a bs"
proof (induction n arbitrary: a)
  case (Suc n)
  then obtain b where "m a = Some b" "mapped m (a + 1) n" by (auto simp: mapped_Suc)
  moreover from this(2) obtain bs where "length bs = n" "bytes_at m (a + 1) bs"
    using Suc.IH by blast
  ultimately have "length (b # bs) = Suc n \<and> bytes_at m a (b # bs)" by simp
  then show ?case by blast
qed auto

lemma cstr_Cons: "cstr m a (c # s) \<Longrightarrow> m a = Some c \<and> c \<noteq> 0 \<and> cstr m (a + 1) s"
proof -
  assume a: "cstr m a (c # s)"
  then have "unat (a + 1) = unat a + 1"
    by (auto simp: cstr_def unat_word_ariths)
  with a show ?thesis by (auto simp: cstr_def)
qed

lemma cstr_Nil: "cstr m a [] \<longleftrightarrow> m a = Some 0"
  using unsigned_less [of a, where ?'a = nat] by (simp add: cstr_def)

section \<open>Little-endian words\<close>

lemma le_nat_less: "le_nat bs < 256 ^ length bs"
proof (induction bs)
  case (Cons b bs)
  have "unat b < 256" using unsigned_less [of b, where ?'a = nat] by simp
  with Cons show ?case by simp
qed simp

lemma bit_le_nat: "bit (le_nat bs) k \<longleftrightarrow> k < 8 * length bs \<and> bit (bs ! (k div 8)) (k mod 8)"
proof (induction bs arbitrary: k)
  case (Cons b bs)
  have b: "unat b < 2 ^ 8" using unsigned_less [of b, where ?'a = nat] by simp
  have "le_nat (b # bs) = unat b OR push_bit 8 (le_nat bs)"
  proof -
    have "unat b AND push_bit 8 (le_nat bs) = 0"
      using b by (intro bit_eqI) (auto simp: bit_simps dest: bit_imp_le_length)
    then show ?thesis by (simp add: disjunctive_add_eq_or [symmetric] push_bit_eq_mult)
  qed
  then have "bit (le_nat (b # bs)) k \<longleftrightarrow> bit b k \<or> 8 \<le> k \<and> bit (le_nat bs) (k - 8)"
    by (simp add: bit_or_iff bit_push_bit_iff bit_unsigned_iff)
  also have "\<dots> \<longleftrightarrow> k < 8 * length (b # bs) \<and> bit ((b # bs) ! (k div 8)) (k mod 8)"
  proof (cases "k < 8")
    case False
    then have "\<not> bit b k" by (auto dest: bit_imp_le_length)
    moreover have "k div 8 = Suc ((k - 8) div 8)" "(k - 8) mod 8 = k mod 8"
      using False by (simp_all add: le_div_geq le_mod_geq)
    ultimately show ?thesis using False by (simp add: Cons.IH less_diff_conv2) auto
  qed auto
  finally show ?case .
qed simp

lemma bit_word_of_nat: "bit (of_nat n :: 'a::len word) k \<longleftrightarrow> k < LENGTH('a) \<and> bit n k"
  by transfer (simp add: bit_take_bit_iff bit_of_nat_iff)

lemma bit_le_word: "bit (le_word bs :: 'a::len word) k \<longleftrightarrow>
    k < LENGTH('a) \<and> k < 8 * length bs \<and> bit (bs ! (k div 8)) (k mod 8)"
  by (simp add: le_word_def bit_word_of_nat bit_le_nat)

lemma le_word_bytes:
  assumes "LENGTH('a) = 8 * n"
  shows "le_word (word_bytes n w) = (w :: 'a::len word)"
proof (rule bit_word_eqI)
  fix k assume k: "k < LENGTH('a)"
  then have "k div 8 < n" using assms by (simp add: less_mult_imp_div_less mult.commute)
  with k assms show "bit (le_word (word_bytes n w) :: 'a word) k \<longleftrightarrow> bit w k"
    by (simp add: bit_le_word word_bytes_def bit_simps)
qed

lemma word_bytes_le:
  assumes "LENGTH('a) = 8 * length bs"
  shows "word_bytes (length bs) (le_word bs :: 'a::len word) = bs"
proof (rule nth_equalityI)
  fix i assume "i < length (word_bytes (length bs) (le_word bs :: 'a word))"
  then have i: "i < length bs" by (simp add: word_bytes_def)
  show "word_bytes (length bs) (le_word bs :: 'a word) ! i = bs ! i"
  proof (rule bit_word_eqI)
    fix k assume k: "k < LENGTH(8)"
    have "(8 * i + k) div 8 = i" "(8 * i + k) mod 8 = k" using k by simp_all
    then show "bit (word_bytes (length bs) (le_word bs :: 'a word) ! i) k \<longleftrightarrow> bit (bs ! i) k"
      using i k assms by (simp add: word_bytes_def bit_simps bit_le_word)
  qed
qed (simp add: word_bytes_def)

lemma length_word_bytes [simp]: "length (word_bytes n w) = n"
  by (simp add: word_bytes_def)

section \<open>Zero bytes in a word\<close>

text \<open>
  The macros \<open>ONES\<close>, \<open>HIGHS\<close> and \<open>HASZERO\<close> the string functions share: a word has a zero
  byte exactly if subtracting 1 from every byte raises a high bit that was clear.
\<close>

definition ones :: u64 where "ones = 0x0101010101010101"
definition highs :: u64 where "highs = 0x8080808080808080"

definition haszero :: "u64 \<Rightarrow> u64" where
  "haszero x = (x - ones) AND NOT x AND highs"

fun ones_nat :: "nat \<Rightarrow> nat" where
  "ones_nat 0 = 0"
| "ones_nat (Suc n) = 1 + 256 * ones_nat n"

lemma ones_nat_8: "ones_nat 8 = 72340172838076673"
proof -
  have e: "(8 :: nat) = Suc (Suc (Suc (Suc (Suc (Suc (Suc (Suc 0)))))))" by simp
  show ?thesis unfolding e by simp
qed

lemma bit_split: "0 \<le> b \<Longrightarrow> b < 256 \<Longrightarrow> bit (b + 256 * x) k \<longleftrightarrow> (if k < 8 then bit b k else bit x (k - 8))"
  for b x :: int
proof -
  assume b: "0 \<le> b" "b < 256"
  have tb: "take_bit 8 b = b" using b by (simp add: take_bit_int_eq_self_iff)
  have hi: "\<not> bit b k" if "8 \<le> k" for k using that by (subst tb [symmetric]) (simp add: bit_take_bit_iff)
  have "b AND push_bit 8 x = 0"
    by (intro bit_eqI) (auto simp: bit_simps hi)
  then have "b + push_bit 8 x = b OR push_bit 8 x" by (rule disjunctive_add_eq_or)
  moreover have "256 * x = push_bit 8 x" by (simp add: push_bit_eq_mult)
  ultimately have "bit (b + 256 * x) k \<longleftrightarrow> bit b k \<or> 8 \<le> k \<and> bit x (k - 8)"
    by (simp only: bit_or_iff bit_push_bit_iff_int)
  then show ?thesis using hi [of k] by auto
qed

lemma high_bit_byte: "bit (unat (b :: byte) :: nat) 7 \<longleftrightarrow> 128 \<le> unat b"
proof -
  have "unat b < 256" using unsigned_less [of b, where ?'a = nat] by simp
  then have "unat b div 128 = (if 128 \<le> unat b then 1 else 0)" by (auto intro: div_nat_eqI)
  then show ?thesis by (simp add: bit_iff_odd)
qed

lemma high_bit_int: "0 \<le> b \<Longrightarrow> b < 256 \<Longrightarrow> bit b 7 \<longleftrightarrow> 128 \<le> b" for b :: int
proof -
  assume b: "0 \<le> b" "b < 256"
  then have "b div 128 = (if 128 \<le> b then 1 else 0)" by (auto intro: int_div_pos_eq [where r = "b - 128"])
  then show ?thesis by (simp add: bit_iff_odd)
qed

lemma borrow_scan:
  "(\<exists>i<length bs. bit (int (le_nat bs) - int (ones_nat (length bs))) (8 * i + 7) \<and>
      \<not> bit (int (le_nat bs)) (8 * i + 7)) \<longleftrightarrow> 0 \<in> set bs"
proof (induction bs)
  case (Cons b bs)
  define x where "x = int (le_nat bs)"
  define o' where "o' = int (ones_nat (length bs))"
  have b: "0 \<le> int (unat b)" "int (unat b) < 256"
    using unsigned_less [of b, where ?'a = int] by simp_all
  have e: "int (le_nat (b # bs)) = int (unat b) + 256 * x"
    "int (ones_nat (length (b # bs))) = 1 + 256 * o'" by (simp_all add: x_def o'_def)
  show ?case
  proof (cases "b = 0")
    case True
    have "bit (255 + 256 * (x - o' - 1)) 7 \<and> \<not> bit (0 + 256 * x) 7"
      by (simp only: bit_split) (simp add: bit_split high_bit_int)
    then have "bit (int (le_nat (b # bs)) - int (ones_nat (length (b # bs)))) 7 \<and> \<not> bit (int (le_nat (b # bs))) 7"
      unfolding e by (simp add: True algebra_simps)
    then show ?thesis using True by (auto intro!: exI [of _ 0])
  next
    case False
    then have "0 < unat b" by (simp add: unat_gt_0)
    then have b1: "0 \<le> int (unat b) - 1" "int (unat b) - 1 < 256" using b by linarith+
    have d: "int (le_nat (b # bs)) - int (ones_nat (length (b # bs))) = (int (unat b) - 1) + 256 * (x - o')"
      unfolding e by simp
    have k8: "\<not> 8 * Suc i + 7 < 8" "8 * Suc i + 7 - 8 = 8 * i + 7" for i by simp_all
    have "\<not> (bit ((int (unat b) - 1) + 256 * (x - o')) 7 \<and> \<not> bit (int (unat b) + 256 * x) 7)"
      using b1 b by (simp only: bit_split high_bit_int) simp
    moreover have "bit ((int (unat b) - 1) + 256 * (x - o')) (8 * Suc i + 7) = bit (x - o') (8 * i + 7)"
      "bit (int (unat b) + 256 * x) (8 * Suc i + 7) = bit x (8 * i + 7)" for i
      by (simp_all only: bit_split [OF b1] bit_split [OF b] k8 if_False)
    ultimately have "(\<exists>i<Suc (length bs). bit ((int (unat b) - 1) + 256 * (x - o')) (8 * i + 7) \<and>
        \<not> bit (int (unat b) + 256 * x) (8 * i + 7)) \<longleftrightarrow>
        (\<exists>i<length bs. bit (x - o') (8 * i + 7) \<and> \<not> bit x (8 * i + 7))"
      by (simp only: Ex_less_Suc2 mult_0_right add_0 simp_thms)
    also have "\<dots> \<longleftrightarrow> 0 \<in> set (b # bs)"
      unfolding x_def o'_def Cons.IH using False by simp
    finally show ?thesis unfolding d unfolding e(1) length_Cons .
  qed
qed simp

lemma highs_bytes: "highs = le_word (replicate 8 128)"
proof -
  have e: "replicate 8 (128 :: byte) = [128, 128, 128, 128, 128, 128, 128, 128]"
    by (simp add: numeral_eq_Suc)
  show ?thesis unfolding e by (simp add: highs_def le_word_def)
qed

lemma bit_byte_128: "bit (128 :: byte) k \<longleftrightarrow> k = 7"
proof -
  have "(128 :: byte) = push_bit 7 1" by simp
  then show ?thesis by (simp only: bit_push_bit_iff bit_1_iff) auto
qed

lemma word_nonzero_bit: "x \<noteq> 0 \<longleftrightarrow> (\<exists>k. bit (x :: 'a::len word) k)"
proof
  assume "x \<noteq> 0"
  then show "\<exists>k. bit x k" by (metis bit_0_eq bot_apply bit_word_eqI bot_bool_def)
qed auto

lemma haszero_bytes:
  assumes "length bs = 8"
  shows "haszero (le_word bs) \<noteq> 0 \<longleftrightarrow> 0 \<in> set bs"
proof -
  have o8: "ones = of_nat (ones_nat 8)" by (simp add: ones_def ones_nat_8)
  have hb: "bit highs k \<longleftrightarrow> k < 64 \<and> k mod 8 = 7" for k
  proof -
    have "bit (replicate 8 (128 :: byte) ! (k div 8)) (k mod 8) \<longleftrightarrow> k mod 8 = 7" if "k < 64"
      using that by (simp only: nth_replicate bit_byte_128 less_mult_imp_div_less)
    then show ?thesis unfolding highs_bytes by (auto simp: bit_le_word)
  qed
  have x: "le_word bs - ones = word_of_int (int (le_nat bs) - int (ones_nat 8))"
    by (simp add: le_word_def o8)
  have lo: "bit (le_word bs - ones) k \<longleftrightarrow> k < 64 \<and> bit (int (le_nat bs) - int (ones_nat 8)) k" for k
    unfolding x bit_word_of_int_iff by simp
  have nt: "bit (NOT (le_word bs :: u64)) k \<longleftrightarrow> k < 64 \<and> \<not> bit (int (le_nat bs)) k" for k
    by (auto simp: bit_not_iff le_word_def bit_word_of_nat bit_of_nat_iff)
  have "haszero (le_word bs) \<noteq> 0 \<longleftrightarrow> (\<exists>k. bit (haszero (le_word bs)) k)"
    by (rule word_nonzero_bit)
  also have "\<dots> \<longleftrightarrow> (\<exists>k<64. k mod 8 = 7 \<and> bit (int (le_nat bs) - int (ones_nat 8)) k \<and> \<not> bit (int (le_nat bs)) k)"
    by (auto simp: haszero_def bit_and_iff lo nt hb)
  also have "\<dots> \<longleftrightarrow> (\<exists>i<8. bit (int (le_nat bs) - int (ones_nat 8)) (8 * i + 7) \<and> \<not> bit (int (le_nat bs)) (8 * i + 7))"
    (is "?L \<longleftrightarrow> ?R")
  proof
    assume ?L
    then obtain k where k: "k < 64" "k mod 8 = 7" "bit (int (le_nat bs) - int (ones_nat 8)) k" "\<not> bit (int (le_nat bs)) k"
      by blast
    have "k = 8 * (k div 8) + 7" using mult_div_mod_eq [of 8 k] k(2) by simp
    moreover have "k div 8 < 8" using k(1) by simp
    ultimately show ?R using k(3,4) by metis
  next
    assume ?R
    then obtain i where "i < 8" "bit (int (le_nat bs) - int (ones_nat 8)) (8 * i + 7)" "\<not> bit (int (le_nat bs)) (8 * i + 7)"
      by blast
    then show ?L by (intro exI [of _ "8 * i + 7"]) simp
  qed
  also have "\<dots> \<longleftrightarrow> 0 \<in> set bs" using borrow_scan [of bs] by (simp add: assms)
  finally show ?thesis .
qed

lemma xor_ones:
  assumes "length bs = 8"
  shows "le_word bs XOR ones * ucast c = (le_word (map (\<lambda>b. b XOR c) bs) :: u64)"
proof (rule bit_word_eqI)
  fix k assume k: "k < LENGTH(64)"
  then have k8: "k div 8 < 8" by simp
  have c: "ones * ucast c = (le_word (replicate 8 c) :: u64)"
  proof -
    have "le_nat (replicate n c) = ones_nat n * unat c" for n
      by (induction n) (simp_all add: algebra_simps)
    then show ?thesis by (simp add: le_word_def ones_nat_8 ones_def)
  qed
  show "bit (le_word bs XOR ones * ucast c) k \<longleftrightarrow> bit (le_word (map (\<lambda>b. b XOR c) bs) :: u64) k"
    using k k8 assms by (simp add: c bit_xor_iff bit_le_word)
qed

section \<open>Writes\<close>

lemma put_bytes_Nil [simp]: "put_bytes m d [] = m"
  by (simp add: put_bytes_def)

lemma store8_put: "m d \<noteq> None \<Longrightarrow> store8 m d b = Some (put_bytes m d [b])"
  by (auto simp: store8_def put_bytes_def fun_eq_iff unat_eq_0)

lemma put_bytes_in: "i < length bs \<Longrightarrow> length bs \<le> 2 ^ 64 \<Longrightarrow> put_bytes m d bs (d + of_nat i) = Some (bs ! i)"
  by (simp add: put_bytes_def unat_of_nat)

text \<open>Two regions without a common address.\<close>

definition apart :: "addr \<Rightarrow> nat \<Rightarrow> addr \<Rightarrow> nat \<Rightarrow> bool" where
  "apart a n b k \<longleftrightarrow> (\<forall>i<n. \<forall>j<k. a + of_nat i \<noteq> b + of_nat j)"

lemma apart_sym: "apart a n b k \<longleftrightarrow> apart b k a n"
  by (auto simp: apart_def) (metis)+

lemma apart_mono: "apart a n b k \<Longrightarrow> n' \<le> n \<Longrightarrow> k' \<le> k \<Longrightarrow> apart a n' b k'"
  by (auto simp: apart_def)

lemma apart_suffix: "apart a n b k \<Longrightarrow> i \<le> n \<Longrightarrow> j \<le> k \<Longrightarrow> apart (a + of_nat i) (n - i) (b + of_nat j) (k - j)"
  unfolding apart_def
proof (intro allI impI)
  fix i' j' assume a: "\<forall>i<n. \<forall>j<k. a + word_of_nat i \<noteq> b + word_of_nat j" and "i \<le> n" "j \<le> k" "i' < n - i" "j' < k - j"
  then have "a + word_of_nat (i + i') \<noteq> b + word_of_nat (j + j')" by (simp del: of_nat_add)
  then show "a + word_of_nat i + word_of_nat i' \<noteq> b + word_of_nat j + word_of_nat j'"
    by (simp only: of_nat_add add.assoc not_False_eq_True)
qed

lemma put_bytes_other: "(\<And>j. j < length bs \<Longrightarrow> a \<noteq> d + of_nat j) \<Longrightarrow> put_bytes m d bs a = m a"
  by (auto simp: put_bytes_def) (metis add.commute diff_add_cancel of_nat_unat ucast_id)

lemma put_bytes_apart: "apart a n d (length bs) \<Longrightarrow> i < n \<Longrightarrow> put_bytes m d bs (a + of_nat i) = m (a + of_nat i)"
  by (rule put_bytes_other) (auto simp: apart_def)

lemma bytes_at_apart: "apart a (length xs) d (length bs) \<Longrightarrow> bytes_at (put_bytes m d bs) a xs = bytes_at m a xs"
  by (simp add: bytes_at_nth put_bytes_apart)

lemma bytes_at_put: "length bs \<le> 2 ^ 64 \<Longrightarrow> bytes_at (put_bytes m d bs) d bs"
  by (simp add: bytes_at_nth put_bytes_in)

lemma put_bytes_append:
  assumes "length xs + length ys \<le> 2 ^ 64"
  shows "put_bytes (put_bytes m d xs) (d + of_nat (length xs)) ys = put_bytes m d (xs @ ys)"
proof
  fix a
  define k where "k = unat (a - d)"
  have k: "k < 2 ^ 64" unfolding k_def using unsigned_less [of "a - d", where ?'a = nat] by simp
  have a: "a - d = of_nat k" by (simp add: k_def)
  have s: "a - (d + of_nat (length xs)) = of_nat k - of_nat (length xs)" using a by (simp add: algebra_simps)
  show "put_bytes (put_bytes m d xs) (d + of_nat (length xs)) ys a = put_bytes m d (xs @ ys) a"
  proof (cases "k < length xs")
    case True
    then have "a - (d + of_nat (length xs)) = of_nat (2 ^ 64 - (length xs - k))"
      using assms by (simp add: s of_nat_diff)
    moreover have "unat (of_nat (2 ^ 64 - (length xs - k)) :: addr) = 2 ^ 64 - (length xs - k)"
      using True k by (simp add: unat_of_nat)
    ultimately have "unat (a - (d + of_nat (length xs))) = 2 ^ 64 - (length xs - k)" by (simp only:)
    moreover have "\<not> 2 ^ 64 - (length xs - k) < length ys" using assms by linarith
    ultimately show ?thesis using True by (simp add: put_bytes_def k_def [symmetric] nth_append)
  next
    case False
    then have "a - (d + of_nat (length xs)) = of_nat (k - length xs)" by (simp add: s of_nat_diff)
    moreover have "unat (of_nat (k - length xs) :: addr) = k - length xs"
      using k by (simp add: unat_of_nat)
    ultimately have "unat (a - (d + of_nat (length xs))) = k - length xs" by (simp only:)
    with False show ?thesis by (auto simp: put_bytes_def k_def [symmetric] nth_append)
  qed
qed

lemma bytes_at_grow:
  assumes b: "bytes_at m a xs" and l: "length xs + length ys \<le> 2 ^ 64"
  shows "bytes_at (put_bytes m (a + of_nat (length xs)) ys) a (xs @ ys)"
proof -
  have "apart a (length xs) (a + of_nat (length xs)) (length ys)"
    unfolding apart_def
  proof (intro allI impI notI)
    fix i j assume ij: "i < length xs" "j < length ys" and e: "a + of_nat i = a + of_nat (length xs) + of_nat j"
    then have "(of_nat i :: addr) = of_nat (length xs + j)" by (simp add: add.assoc)
    then have "unat (of_nat i :: addr) = unat (of_nat (length xs + j) :: addr)" by simp
    moreover have "i < 2 ^ 64" "length xs + j < 2 ^ 64" using ij l by linarith+
    then have "unat (of_nat i :: addr) = i" "unat (of_nat (length xs + j) :: addr) = length xs + j"
      by (subst unat_of_nat_less; simp)+
    ultimately show False using ij by simp
  qed
  moreover have "length ys \<le> 2 ^ 64" using l by linarith
  ultimately show ?thesis using b by (simp add: bytes_at_append bytes_at_apart bytes_at_put)
qed

lemma put_bytes_prepend:
  assumes "length xs + length ys \<le> 2 ^ 64"
  shows "put_bytes (put_bytes m (d + of_nat (length xs)) ys) d xs = put_bytes m d (xs @ ys)"
proof -
  have "put_bytes (put_bytes m (d + of_nat (length xs)) ys) d xs a = put_bytes (put_bytes m d xs) (d + of_nat (length xs)) ys a" for a
  proof (cases "unat (a - d) < length xs")
    case True
    define k where "k = unat (a - d)"
    have a: "a = d + of_nat k" by (simp add: k_def)
    have "a \<noteq> d + of_nat (length xs) + of_nat j" if j: "j < length ys" for j
    proof
      assume "a = d + of_nat (length xs) + of_nat j"
      then have "(of_nat k :: addr) = of_nat (length xs + j)" by (simp add: a)
      then have "unat (of_nat k :: addr) = unat (of_nat (length xs + j) :: addr)" by simp
      moreover have "k < 2 ^ 64" "length xs + j < 2 ^ 64" using j assms True k_def by linarith+
      then have "unat (of_nat k :: addr) = k" "unat (of_nat (length xs + j) :: addr) = length xs + j"
        by (subst unat_of_nat_less; simp)+
      ultimately have "k = length xs + j" by metis
      with True show False by (simp add: k_def)
    qed
    then have "put_bytes (put_bytes m d xs) (d + of_nat (length xs)) ys a = put_bytes m d xs a"
      by (rule put_bytes_other)
    with True show ?thesis by (simp add: put_bytes_def)
  next
    case False
    then show ?thesis by (simp add: put_bytes_def)
  qed
  then show ?thesis using put_bytes_append [OF assms, of m d] by (metis ext)
qed

lemma put_bytes_mapped: "m a \<noteq> None \<Longrightarrow> put_bytes m d bs a \<noteq> None"
  by (simp add: put_bytes_def)

lemma mapped_put: "mapped m a n \<Longrightarrow> mapped (put_bytes m d bs) a n"
  by (simp add: mapped_def put_bytes_mapped)

lemma dom_put: "mapped m d (length bs) \<Longrightarrow> put_bytes m d bs a = None \<longleftrightarrow> m a = None"
  by (auto simp: put_bytes_def mapped_def dest: spec [of _ "unat (a - d)"])

lemma word_mapped_put: "mapped m d (length bs) \<Longrightarrow> word_mapped (put_bytes m d bs) = word_mapped m"
  by (simp add: word_mapped_def dom_put)

lemma mapped_append: "mapped m a (i + j) \<longleftrightarrow> mapped m a i \<and> mapped m (a + of_nat i) j"
proof (induction i arbitrary: a)
  case (Suc i)
  then show ?case by (simp add: mapped_Suc add.assoc)
qed simp

lemma mapped_mono: "mapped m a n \<Longrightarrow> k \<le> n \<Longrightarrow> mapped m a k"
  by (simp add: mapped_def)

lemma bytes_at_mapped: "bytes_at m a bs \<Longrightarrow> mapped m a (length bs)"
  by (simp add: bytes_at_nth mapped_def)

lemma store_bytes_put:
  "mapped m d (length bs) \<Longrightarrow> length bs \<le> 2 ^ 64 \<Longrightarrow> store_bytes m d bs = Some (put_bytes m d bs)"
proof (induction bs arbitrary: m d)
  case (Cons b bs)
  then have "m d \<noteq> None" "mapped m (d + 1) (length bs)" by (simp_all add: mapped_Suc)
  moreover from this have "mapped (put_bytes m d [b]) (d + 1) (length bs)" by (simp add: mapped_put)
  ultimately show ?case
    using Cons put_bytes_append [of "[b]" bs m d] by (simp add: store8_put)
qed simp

lemma load64_at: "bytes_at m a bs \<Longrightarrow> length bs = 8 \<Longrightarrow> load64 m a = Some (le_word bs)"
  using load_bytes_at [of m a bs] by (simp add: load64_def)

lemma load32_at: "bytes_at m a bs \<Longrightarrow> length bs = 4 \<Longrightarrow> load32 m a = Some (le_word bs)"
  using load_bytes_at [of m a bs] by (simp add: load32_def)

lemma store64_put: "mapped m d 8 \<Longrightarrow> store64 m d w = Some (put_bytes m d (word_bytes 8 w))"
  by (simp add: store64_def store_bytes_put)

lemma store32_put: "mapped m d 4 \<Longrightarrow> store32 m d w = Some (put_bytes m d (word_bytes 4 w))"
  by (simp add: store32_def store_bytes_put)

text \<open>Copying one aligned word copies its eight bytes.\<close>

lemma copy64: "length bs = 8 \<Longrightarrow> word_bytes 8 (le_word bs :: u64) = bs"
  using word_bytes_le [of bs, where ?'a = 64] by simp

lemma copy32: "length bs = 4 \<Longrightarrow> word_bytes 4 (le_word bs :: u32) = bs"
  using word_bytes_le [of bs, where ?'a = 32] by simp

lemma word_aligned_mapped:
  assumes "word_mapped m" "m a \<noteq> None" "a mod 8 = 0"
  shows "mapped m a 8"
  unfolding mapped_def
proof (intro allI impI)
  fix i :: nat assume i: "i < 8"
  have "unat (a mod 8) = unat a mod unat (8 :: addr)" by (rule unat_mod)
  then have a8: "unat a mod 8 = 0" using assms(3) by simp
  have "unat a < 2 ^ 64" using unsigned_less [of a, where ?'a = nat] by simp
  then have "unat a + 8 \<le> 2 ^ 64" using a8 by auto
  then have "unat (a + of_nat i) = unat a + i"
    using i by (simp add: unat_word_ariths unat_of_nat)
  then have "unat (drop_bit 3 (a + of_nat i)) = unat (drop_bit 3 a)"
    using a8 i by (simp add: unat_drop_bit) auto
  then have "drop_bit 3 a = drop_bit 3 (a + of_nat i)" by (simp add: word_unat_eq_iff)
  with assms(1,2) show "m (a + of_nat i) \<noteq> None" unfolding word_mapped_def by blast
qed

section \<open>A concrete memory\<close>

text \<open>Every address mapped, with given bytes at one place.\<close>

definition flat :: "addr \<Rightarrow> byte list \<Rightarrow> mem" where
  "flat a bs = put_bytes (\<lambda>_. Some 0) a bs"

lemma flat_mapped [simp]: "mapped (flat a bs) d n" "word_mapped (flat a bs)" "flat a bs x \<noteq> None"
  by (simp_all add: flat_def mapped_def word_mapped_def put_bytes_def)

lemma flat_bytes [simp]: "length bs \<le> 2 ^ 64 \<Longrightarrow> bytes_at (flat a bs) a bs"
  by (simp add: flat_def bytes_at_put)

lemma flat_cstr: "0 \<notin> set s \<Longrightarrow> unat a + length s < 2 ^ 64 \<Longrightarrow> cstr (flat a (s @ [0])) a s"
  by (simp add: cstr_def del: bytes_at.simps)

lemma apart_before:
  assumes "unat a + n \<le> unat b" "unat b + k \<le> 2 ^ 64"
  shows "apart a n b k"
  unfolding apart_def
proof (intro allI impI notI)
  fix i j assume i: "i < n" "j < k" and eq: "a + of_nat i = b + of_nat j"
  have "unat (a + of_nat i) = unat a + i" "unat (b + of_nat j) = unat b + j"
    using assms i by (simp_all add: unat_word_ariths unat_of_nat)
  with eq assms i show False by simp
qed

lemma apart_after: "unat b + k \<le> unat a \<Longrightarrow> unat a + n \<le> 2 ^ 64 \<Longrightarrow> apart a n b k"
  using apart_before [of b k a n] by (simp add: apart_sym)

end
