(* ===== verification/StrScan.thy ===== *)
theory StrScan
  imports Mem
begin

text \<open>
  The string functions of \<^verbatim>\<open>musl/src/string\<close> that only read: scans for a byte, a byte at a
  time up to an aligned address and a word at a time after it, and comparisons. Pointers are
  addresses, the null pointer is 0, an \<open>int\<close> is a 32-bit word. A loop is a
  \<open>partial_function (option)\<close>: \<open>None\<close> is a fault or a loop that never ends.
\<close>

section \<open>The loops\<close>

text \<open>\<open>for (; !stop(*s); s++);\<close>\<close>

partial_function (option) scan :: "(byte \<Rightarrow> bool) \<Rightarrow> mem \<Rightarrow> addr \<Rightarrow> addr option" where
  "scan stop m s = do { c \<leftarrow> m s; if stop c then Some s else scan stop m (s + 1) }"

text \<open>\<open>for (; (uintptr_t)s % ALIGN; s++) if (stop(*s)) return s;\<close> with the flag for the return.\<close>

partial_function (option) scan_align :: "(byte \<Rightarrow> bool) \<Rightarrow> mem \<Rightarrow> addr \<Rightarrow> (bool \<times> addr) option" where
  "scan_align stop m s =
     (if s mod 8 = 0 then Some (False, s)
      else do { c \<leftarrow> m s; if stop c then Some (True, s) else scan_align stop m (s + 1) })"

text \<open>\<open>for (; !stop(*w); w++);\<close>\<close>

partial_function (option) scan_words :: "(u64 \<Rightarrow> bool) \<Rightarrow> mem \<Rightarrow> addr \<Rightarrow> addr option" where
  "scan_words stop m w = do { x \<leftarrow> load64 m w; if stop x then Some w else scan_words stop m (w + 8) }"

definition scan_string :: "(byte \<Rightarrow> bool) \<Rightarrow> (u64 \<Rightarrow> bool) \<Rightarrow> mem \<Rightarrow> addr \<Rightarrow> addr option" where
  "scan_string stop wstop m s =
     do { (found, p) \<leftarrow> scan_align stop m s;
          if found then Some p
          else do { w \<leftarrow> scan_words wstop m p; scan stop m w } }"

definition strlen :: "mem \<Rightarrow> addr \<Rightarrow> u64 option" where
  "strlen m s = do { p \<leftarrow> scan_string (\<lambda>c. c = 0) (\<lambda>x. haszero x \<noteq> 0) m s; Some (p - s) }"

definition strchrnul :: "mem \<Rightarrow> addr \<Rightarrow> u32 \<Rightarrow> addr option" where
  "strchrnul m s c =
     (let ch = ucast c :: byte
      in if ch = 0 then do { n \<leftarrow> strlen m s; Some (s + n) }
         else scan_string (\<lambda>b. b = 0 \<or> b = ch)
                (\<lambda>x. \<not> (haszero x = 0 \<and> haszero (x XOR ones * ucast ch) = 0)) m s)"

definition strchr :: "mem \<Rightarrow> addr \<Rightarrow> u32 \<Rightarrow> addr option" where
  "strchr m s c = do { r \<leftarrow> strchrnul m s c; b \<leftarrow> m r; Some (if b = ucast c then r else 0) }"

text \<open>\<open>for (; go(s) && n && !stop(*s); s++, n--);\<close> in \<open>memchr\<close>.\<close>

partial_function (option) nscan ::
  "(addr \<Rightarrow> bool) \<Rightarrow> (byte \<Rightarrow> bool) \<Rightarrow> mem \<Rightarrow> addr \<Rightarrow> u64 \<Rightarrow> (addr \<times> u64) option" where
  "nscan go stop m s n =
     (if go s \<and> n \<noteq> 0 then
        do { c \<leftarrow> m s; if stop c then Some (s, n) else nscan go stop m (s + 1) (n - 1) }
      else Some (s, n))"

partial_function (option) nscan_words ::
  "(u64 \<Rightarrow> bool) \<Rightarrow> mem \<Rightarrow> addr \<Rightarrow> u64 \<Rightarrow> (addr \<times> u64) option" where
  "nscan_words stop m w n =
     (if 8 \<le> n then
        do { x \<leftarrow> load64 m w; if stop x then Some (w, n) else nscan_words stop m (w + 8) (n - 8) }
      else Some (w, n))"

definition memchr :: "mem \<Rightarrow> addr \<Rightarrow> u32 \<Rightarrow> u64 \<Rightarrow> addr option" where
  "memchr m src c n =
     (let ch = ucast c :: byte
      in do { (s, n) \<leftarrow> nscan (\<lambda>s. s AND 7 \<noteq> 0) (\<lambda>b. b = ch) m src n;
              hit \<leftarrow> (if n = 0 then Some True else do { b \<leftarrow> m s; Some (b = ch) });
              (s, n) \<leftarrow> (if hit then Some (s, n)
                else do { (w, n) \<leftarrow> nscan_words (\<lambda>x. haszero (x XOR ones * ucast ch) \<noteq> 0) m s n;
                          nscan (\<lambda>_. True) (\<lambda>b. b = ch) m w n });
              Some (if n \<noteq> 0 then s else 0) })"

definition strnlen :: "mem \<Rightarrow> addr \<Rightarrow> u64 \<Rightarrow> u64 option" where
  "strnlen m s n = do { p \<leftarrow> memchr m s 0 n; Some (if p \<noteq> 0 then p - s else n) }"

partial_function (option) memrchr_loop :: "mem \<Rightarrow> addr \<Rightarrow> byte \<Rightarrow> u64 \<Rightarrow> addr option" where
  "memrchr_loop m s ch n =
     (if n = 0 then Some 0
      else do { b \<leftarrow> m (s + (n - 1));
                if b = ch then Some (s + (n - 1)) else memrchr_loop m s ch (n - 1) })"

definition memrchr :: "mem \<Rightarrow> addr \<Rightarrow> u32 \<Rightarrow> u64 \<Rightarrow> addr option" where
  "memrchr m s c n = memrchr_loop m s (ucast c) n"

definition strrchr :: "mem \<Rightarrow> addr \<Rightarrow> u32 \<Rightarrow> addr option" where
  "strrchr m s c = do { n \<leftarrow> strlen m s; memrchr m s c (n + 1) }"

section \<open>Comparisons\<close>

partial_function (option) strcmp :: "mem \<Rightarrow> addr \<Rightarrow> addr \<Rightarrow> u32 option" where
  "strcmp m l r =
     do { a \<leftarrow> m l; b \<leftarrow> m r;
          if a = b \<and> a \<noteq> 0 then strcmp m (l + 1) (r + 1) else Some (ucast a - ucast b) }"

partial_function (option) strncmp_loop :: "mem \<Rightarrow> addr \<Rightarrow> addr \<Rightarrow> u64 \<Rightarrow> u32 option" where
  "strncmp_loop m l r n =
     do { a \<leftarrow> m l; b \<leftarrow> m r;
          if a \<noteq> 0 \<and> b \<noteq> 0 \<and> n \<noteq> 0 \<and> a = b then strncmp_loop m (l + 1) (r + 1) (n - 1)
          else Some (ucast a - ucast b) }"

definition strncmp :: "mem \<Rightarrow> addr \<Rightarrow> addr \<Rightarrow> u64 \<Rightarrow> u32 option" where
  "strncmp m l r n = (if n = 0 then Some 0 else strncmp_loop m l r (n - 1))"

partial_function (option) memcmp :: "mem \<Rightarrow> addr \<Rightarrow> addr \<Rightarrow> u64 \<Rightarrow> u32 option" where
  "memcmp m l r n =
     (if n = 0 then Some 0
      else do { a \<leftarrow> m l; b \<leftarrow> m r;
                if a = b then memcmp m (l + 1) (r + 1) (n - 1) else Some (ucast a - ucast b) })"

section \<open>Byte sets\<close>

text \<open>
  The 256-bit set of \<open>strspn\<close> and \<open>strcspn\<close>: four words on the stack, written and read through
  the macro \<open>BITOP\<close>.
\<close>

definition bitop_set :: "u64 list \<Rightarrow> byte \<Rightarrow> u64 list" where
  "bitop_set bs b = (let i = unat b div 64 in bs[i := bs ! i OR push_bit (unat b mod 64) 1])"

definition bitop_test :: "u64 list \<Rightarrow> byte \<Rightarrow> bool" where
  "bitop_test bs b \<longleftrightarrow> bs ! (unat b div 64) AND push_bit (unat b mod 64) 1 \<noteq> 0"

partial_function (option) fill_set :: "mem \<Rightarrow> addr \<Rightarrow> u64 list \<Rightarrow> u64 list option" where
  "fill_set m c bs =
     do { b \<leftarrow> m c;
          if b = 0 then Some bs
          else let bs = bitop_set bs b
               in if bs ! (unat b div 64) \<noteq> 0 then fill_set m (c + 1) bs else Some bs }"

definition strspn :: "mem \<Rightarrow> addr \<Rightarrow> addr \<Rightarrow> u64 option" where
  "strspn m s c =
     do { c0 \<leftarrow> m c;
          if c0 = 0 then Some 0
          else do { c1 \<leftarrow> m (c + 1);
            if c1 = 0 then do { p \<leftarrow> scan (\<lambda>b. b \<noteq> c0) m s; Some (p - s) }
            else do { bs \<leftarrow> fill_set m c [0, 0, 0, 0];
                      p \<leftarrow> scan (\<lambda>b. b = 0 \<or> \<not> bitop_test bs b) m s; Some (p - s) } } }"

definition strcspn :: "mem \<Rightarrow> addr \<Rightarrow> addr \<Rightarrow> u64 option" where
  "strcspn m s c =
     do { c0 \<leftarrow> m c;
          one \<leftarrow> (if c0 = 0 then Some True else do { c1 \<leftarrow> m (c + 1); Some (c1 = 0) });
          if one then do { p \<leftarrow> strchrnul m s (scast c0); Some (p - s) }
          else do { bs \<leftarrow> fill_set m c [0, 0, 0, 0];
                    p \<leftarrow> scan (\<lambda>b. b = 0 \<or> bitop_test bs b) m s; Some (p - s) } }"

definition strpbrk :: "mem \<Rightarrow> addr \<Rightarrow> addr \<Rightarrow> addr option" where
  "strpbrk m s b = do { n \<leftarrow> strcspn m s b; ch \<leftarrow> m (s + n); Some (if ch \<noteq> 0 then s + n else 0) }"

section \<open>Correctness of the scans\<close>

lemma scan_correct:
  "bytes_at m a (xs @ [c]) \<Longrightarrow> \<forall>x\<in>set xs. \<not> stop x \<Longrightarrow> stop c \<Longrightarrow> scan stop m a = Some (a + of_nat (length xs))"
proof (induction xs arbitrary: a)
  case (Cons x xs)
  then show ?case by (subst scan.simps) (simp add: add.assoc)
qed (simp add: scan.simps)

lemma unat_mod8: "unat ((a :: addr) mod 8) = unat a mod 8"
  using unat_mod [of a 8] by simp

lemma add8_mod8: "((a :: addr) + 8) mod 8 = a mod 8"
proof -
  have "unat (a + 8) mod 8 = (unat a + 8) mod 2 ^ 64 mod 8" by (simp add: unat_word_ariths)
  also have "\<dots> = (unat a + 8) mod 8" by (rule mod_mod_cancel) simp
  finally have "unat ((a + 8) mod 8) = unat (a mod 8)" by (simp add: unat_mod8)
  then show ?thesis by (simp only: word_unat_eq_iff)
qed

text \<open>
  The interface of a word test: it fires exactly when one of the eight bytes of the word makes
  the byte test fire. Everything the word loops need of \<open>HASZERO\<close> is this law.
\<close>

locale word_test =
  fixes stop :: "byte \<Rightarrow> bool" and wstop :: "u64 \<Rightarrow> bool"
  assumes wstop: "length bs = 8 \<Longrightarrow> wstop (le_word bs) \<longleftrightarrow> (\<exists>b\<in>set bs. stop b)"
begin

lemma scan_words_correct:
  assumes "word_mapped m" "a mod 8 = 0" "bytes_at m a (xs @ [c])" "\<forall>x\<in>set xs. \<not> stop x" "stop c"
  shows "\<exists>n\<le>length xs. scan_words wstop m a = Some (a + of_nat n)"
  using assms(2-4)
proof (induction "length xs" arbitrary: a xs rule: less_induct)
  case less
  have "m a \<noteq> None" using less.prems(2) by (cases xs) auto
  with assms(1) have "mapped m a 8" using less.prems(1) by (rule word_aligned_mapped)
  then obtain bs where bs: "length bs = 8" "bytes_at m a bs" using mapped_load by blast
  have ld: "load64 m a = Some (le_word bs)" using bs by (intro load64_at) auto
  show ?case
  proof (cases "wstop (le_word bs)")
    case True
    then have "scan_words wstop m a = Some a" by (simp add: scan_words.simps ld)
    then show ?thesis by (intro exI [of _ 0]) simp
  next
    case False
    then have ns: "\<forall>b\<in>set bs. \<not> stop b" using wstop [OF bs(1)] by blast
    have "8 \<le> length xs"
    proof (rule ccontr)
      assume "\<not> 8 \<le> length xs"
      then have l: "length xs < length bs" using bs(1) by simp
      have "m (a + of_nat (length xs)) = Some c" using less.prems(2) by (simp add: bytes_at_append)
      then have "bs ! length xs = c" using bs(2) l by (simp add: bytes_at_nth)
      then have "c \<in> set bs" using l by (metis nth_mem)
      with ns assms(5) show False by blast
    qed
    then obtain ys where xs: "xs = take 8 xs @ ys" "length xs = 8 + length ys"
      by (metis append_take_drop_id length_append length_take min.absorb2)
    have "bytes_at m a (take 8 xs @ (ys @ [c]))" using less.prems(2) xs(1) by (metis append.assoc)
    then have ys: "bytes_at m (a + 8) (ys @ [c])"
      using \<open>8 \<le> length xs\<close> by (simp add: bytes_at_append [of _ _ "take 8 xs"] min_absorb2)
    have a8: "(a + 8) mod 8 = 0" using less.prems(1) by (simp only: add8_mod8)
    have "set xs = set (take 8 xs) \<union> set ys" by (metis set_append xs(1))
    then have "\<forall>x\<in>set ys. \<not> stop x" using less.prems(3) by blast
    with less.hyps [OF _ a8 ys] xs(2) obtain n where n: "n \<le> length ys" "scan_words wstop m (a + 8) = Some (a + 8 + of_nat n)"
      by auto
    then have "scan_words wstop m a = Some (a + of_nat (8 + n))"
      by (subst scan_words.simps) (simp add: ld False)
    then show ?thesis using n(1) xs(2) by (intro exI [of _ "8 + n"]) simp
  qed
qed

lemma scan_align_correct:
  assumes "bytes_at m a (xs @ [c])" "\<forall>x\<in>set xs. \<not> stop x" "stop c"
  shows "\<exists>n\<le>length xs. scan_align stop m a = Some (True, a + of_nat n) \<and> n = length xs \<or>
           scan_align stop m a = Some (False, a + of_nat n) \<and> (a + of_nat n) mod 8 = 0"
  using assms(1,2)
proof (induction xs arbitrary: a)
  case Nil
  then show ?case using assms(3) by (auto simp: scan_align.simps)
next
  case (Cons x xs)
  show ?case
  proof (cases "a mod 8 = 0")
    case True
    then show ?thesis by (intro exI [of _ 0]) (simp add: scan_align.simps)
  next
    case False
    have "\<exists>n\<le>length xs. scan_align stop m (a + 1) = Some (True, a + 1 + of_nat n) \<and> n = length xs \<or>
           scan_align stop m (a + 1) = Some (False, a + 1 + of_nat n) \<and> (a + 1 + of_nat n) mod 8 = 0"
      by (rule Cons.IH) (use Cons.prems in auto)
    then obtain n where n: "n \<le> length xs" and
      r: "scan_align stop m (a + 1) = Some (True, a + 1 + of_nat n) \<and> n = length xs \<or>
           scan_align stop m (a + 1) = Some (False, a + 1 + of_nat n) \<and> (a + 1 + of_nat n) mod 8 = 0"
      by metis
    have "scan_align stop m a = scan_align stop m (a + 1)"
      using Cons.prems False by (subst scan_align.simps) simp
    with n r show ?thesis by (intro exI [of _ "Suc n"]) (auto simp: add.assoc)
  qed
qed

lemma scan_string_correct:
  assumes "word_mapped m" and at: "bytes_at m a (xs @ [c])" and ns: "\<forall>x\<in>set xs. \<not> stop x" and c: "stop c"
  shows "scan_string stop wstop m a = Some (a + of_nat (length xs))"
proof -
  have rest: "bytes_at m (a + of_nat n) (drop n xs @ [c])" if "n \<le> length xs" for n
  proof -
    have "bytes_at m a (take n xs @ (drop n xs @ [c]))"
      unfolding append.assoc [symmetric] append_take_drop_id using at .
    then show ?thesis using that by (simp only: bytes_at_append [of _ _ "take n xs"] length_take min_absorb2)
  qed
  have ns': "\<forall>x\<in>set (drop n xs). \<not> stop x" for n using ns by (meson in_set_dropD)
  obtain n where n: "n \<le> length xs" and
    r: "scan_align stop m a = Some (True, a + of_nat n) \<and> n = length xs \<or>
         scan_align stop m a = Some (False, a + of_nat n) \<and> (a + of_nat n) mod 8 = 0"
    using scan_align_correct [OF at ns c] by metis
  show ?thesis
  proof (cases "scan_align stop m a = Some (True, a + of_nat n) \<and> n = length xs")
    case True
    then show ?thesis by (simp add: scan_string_def)
  next
    case False
    with r have al: "scan_align stop m a = Some (False, a + of_nat n)" "(a + of_nat n) mod 8 = 0" by auto
    obtain k where k: "k \<le> length (drop n xs)" "scan_words wstop m (a + of_nat n) = Some (a + of_nat n + of_nat k)"
      using scan_words_correct [OF assms(1) al(2) rest [OF n] ns' c] by blast
    have nk: "n + k \<le> length xs" using n k(1) by simp
    have "scan stop m (a + of_nat (n + k)) = Some (a + of_nat (n + k) + of_nat (length (drop (n + k) xs)))"
      using rest [OF nk] ns' c by (intro scan_correct)
    also have "a + of_nat (n + k) + of_nat (length (drop (n + k) xs)) = a + of_nat (n + k + (length xs - (n + k)))"
      by (simp add: add.assoc)
    also have "n + k + (length xs - (n + k)) = length xs" using nk by simp
    finally show ?thesis using al(1) k(2) by (simp add: scan_string_def add.assoc)
  qed
qed

end


lemma haszero_test: "length bs = 8 \<Longrightarrow> haszero (le_word bs) \<noteq> 0 \<longleftrightarrow> (\<exists>b\<in>set bs. b = 0)"
  by (auto simp: haszero_bytes)

lemma haszero_xor:
  "length bs = 8 \<Longrightarrow> haszero (le_word bs XOR ones * ucast c) \<noteq> 0 \<longleftrightarrow> (\<exists>b\<in>set bs. b = (c :: byte))"
proof -
  have "b XOR c = 0 \<longleftrightarrow> b = c" for b :: byte
    by (auto simp: bit_eq_iff bit_xor_iff)
  then have "0 \<in> (\<lambda>b. b XOR c) ` set bs \<longleftrightarrow> (\<exists>b\<in>set bs. b = c)" by (auto simp: image_iff)
  moreover assume "length bs = 8"
  ultimately show ?thesis by (simp add: xor_ones haszero_bytes)
qed

interpretation nul: word_test "\<lambda>c. c = 0" "\<lambda>x. haszero x \<noteq> 0"
  by unfold_locales (rule haszero_test)

interpretation eq: word_test "\<lambda>b. b = (c :: byte)" "\<lambda>x. haszero (x XOR ones * ucast c) \<noteq> 0" for c
  by unfold_locales (rule haszero_xor)

interpretation chr: word_test "\<lambda>b. b = 0 \<or> b = (c :: byte)"
    "\<lambda>x. \<not> (haszero x = 0 \<and> haszero (x XOR ones * ucast c) = 0)" for c
  using haszero_test haszero_xor [where c = c] by unfold_locales blast

lemma strlen_correct:
  "word_mapped m \<Longrightarrow> cstr m a s \<Longrightarrow> strlen m a = Some (of_nat (length s))"
  unfolding cstr_def strlen_def
  by (subst nul.scan_string_correct [where xs = s and c = 0]) auto

text \<open>The first position of a byte, in the string including its terminator.\<close>

definition find_byte :: "byte \<Rightarrow> byte list \<Rightarrow> nat" where
  "find_byte c bs = length (takeWhile (\<lambda>b. b \<noteq> c) bs)"

lemma find_byte_split: "c \<in> set bs \<Longrightarrow> \<exists>zs. bs = take (find_byte c bs) bs @ c # zs \<and> c \<notin> set (take (find_byte c bs) bs)"
proof (induction bs)
  case (Cons b bs)
  then show ?case by (cases "b = c") (auto simp: find_byte_def)
qed simp

lemma find_byte_less: "c \<in> set bs \<Longrightarrow> find_byte c bs < length bs"
  by (induction bs) (auto simp: find_byte_def)

lemma find_byte_notin: "c \<notin> set bs \<Longrightarrow> find_byte c bs = length bs"
  by (induction bs) (auto simp: find_byte_def)

lemma find_byte_nth: "c \<in> set bs \<Longrightarrow> bs ! find_byte c bs = c"
  by (induction bs) (auto simp: find_byte_def)

lemma strchrnul_correct:
  assumes w: "word_mapped m" and s: "cstr m a s"
  shows "strchrnul m a c = Some (a + of_nat (find_byte (ucast c) s))"
proof (cases "ucast c = (0 :: byte)")
  case True
  moreover have "find_byte 0 s = length s" using s by (intro find_byte_notin) (simp add: cstr_def)
  ultimately show ?thesis using strlen_correct [OF w s] by (simp add: strchrnul_def)
next
  case False
  define ch :: byte where "ch = ucast c"
  have at: "bytes_at m a (s @ [0])" and nz: "0 \<notin> set s" using s by (simp_all add: cstr_def)
  have "scan_string (\<lambda>b. b = 0 \<or> b = ch) (\<lambda>x. \<not> (haszero x = 0 \<and> haszero (x XOR ones * ucast ch) = 0)) m a
      = Some (a + of_nat (find_byte ch s))"
  proof (cases "ch \<in> set s")
    case True
    then obtain zs where z: "s = take (find_byte ch s) s @ ch # zs" "ch \<notin> set (take (find_byte ch s) s)"
      using find_byte_split [OF True] by metis
    define p where "p = take (find_byte ch s) s"
    have lp: "length p = find_byte ch s" using find_byte_less [OF True] by (simp add: p_def)
    have "s @ [0] = (p @ [ch]) @ zs @ [0]" using z(1) by (simp add: p_def [symmetric])
    then have "bytes_at m a (p @ [ch])" using at by (metis bytes_at_append)
    moreover have "set p \<subseteq> set s" by (simp add: p_def set_take_subset)
    ultimately have "scan_string (\<lambda>b. b = 0 \<or> b = ch) (\<lambda>x. \<not> (haszero x = 0 \<and> haszero (x XOR ones * ucast ch) = 0)) m a
        = Some (a + of_nat (length p))"
      using z(2) nz by (intro chr.scan_string_correct w) (auto simp: p_def [symmetric])
    then show ?thesis by (simp only: lp)
  next
    case notin: False
    then have "scan_string (\<lambda>b. b = 0 \<or> b = ch) (\<lambda>x. \<not> (haszero x = 0 \<and> haszero (x XOR ones * ucast ch) = 0)) m a
        = Some (a + of_nat (length s))"
      using nz by (intro chr.scan_string_correct [OF w at]) auto
    then show ?thesis by (simp only: find_byte_notin [OF notin])
  qed
  then show ?thesis using False by (simp only: strchrnul_def Let_def ch_def [symmetric] if_False)
qed

lemma strchr_correct:
  assumes w: "word_mapped m" and s: "cstr m a s" 
  shows "strchr m a c = Some (if ucast c \<in> set (s @ [0]) then a + of_nat (find_byte (ucast c) s) else 0)"
proof -
  have at: "bytes_at m a (s @ [0])" using s by (simp add: cstr_def)
  define n where "n = find_byte (ucast c) s"
  have n: "n < length (s @ [0])"
    unfolding n_def find_byte_def by (simp add: length_takeWhile_le le_imp_less_Suc)
  have b: "m (a + of_nat n) = Some ((s @ [0]) ! n)" using at n by (simp add: bytes_at_nth)
  have "(s @ [0]) ! n = ucast c \<longleftrightarrow> ucast c \<in> set (s @ [0])"
  proof
    assume "(s @ [0]) ! n = ucast c"
    then show "ucast c \<in> set (s @ [0])" using n by (metis nth_mem)
  next
    assume c: "ucast c \<in> set (s @ [0])"
    show "(s @ [0]) ! n = ucast c"
    proof (cases "ucast c \<in> set s")
      case True
      then have "s ! n = ucast c" unfolding n_def by (rule find_byte_nth)
      then show ?thesis using find_byte_less [OF True] by (simp add: n_def nth_append)
    next
      case False
      then show ?thesis using c by (simp add: n_def find_byte_notin)
    qed
  qed
  then show ?thesis
    using strchrnul_correct [OF w s, of c] b by (simp add: strchr_def n_def [symmetric])
qed

section \<open>Bounded scans\<close>

lemma size_step:
  fixes n :: u64
  assumes "length (b # bs) = unat n"
  shows "n \<noteq> 0" and "length bs = unat (n - 1)"
proof -
  show n: "n \<noteq> 0" using assms by auto
  show "length bs = unat (n - 1)" using assms unat_minus_one [OF n] by simp
qed

lemma unat_sub_nat: "k \<le> unat n \<Longrightarrow> unat (n - of_nat k) = unat n - k" for n :: u64
proof -
  assume k: "k \<le> unat n"
  have "k < 2 ^ 64" using k unsigned_less [of n, where ?'a = nat] by simp
  then have u: "unat (of_nat k :: u64) = k" by (simp add: unat_of_nat)
  with k show ?thesis by (subst unat_sub) (simp_all add: word_le_nat_alt)
qed

lemma find_byte_le: "find_byte c bs \<le> length bs"
  by (simp add: find_byte_def length_takeWhile_le)

lemma find_byte_before: "k < find_byte c bs \<Longrightarrow> bs ! k \<noteq> c"
proof (induction bs arbitrary: k)
  case (Cons b bs)
  then show ?case by (cases k) (auto simp: find_byte_def split: if_splits)
qed (simp add: find_byte_def)

lemma find_byte_drop: "k \<le> find_byte c bs \<Longrightarrow> find_byte c (drop k bs) = find_byte c bs - k"
proof (induction k arbitrary: bs)
  case (Suc k)
  then show ?case by (cases bs) (auto simp: find_byte_def split: if_splits)
qed simp

lemma bytes_at_drop: "bytes_at m a bs \<Longrightarrow> k \<le> length bs \<Longrightarrow> bytes_at m (a + of_nat k) (drop k bs)"
  by (metis append_take_drop_id bytes_at_append length_take min.absorb2)

text \<open>
  The bytes a bounded scan for \<open>c\<close> may read: all \<open>n\<close> of them, or fewer when \<open>c\<close> is among them.
\<close>

definition covers :: "byte \<Rightarrow> byte list \<Rightarrow> u64 \<Rightarrow> bool" where
  "covers c bs n \<longleftrightarrow> length bs = unat n \<or> length bs \<le> unat n \<and> c \<in> set bs"

lemma covers_Nil: "covers c [] n \<longleftrightarrow> n = 0"
  by (auto simp: covers_def unat_eq_0)

lemma covers_Cons:
  assumes "covers c (b # bs) n"
  shows "n \<noteq> 0" and "b \<noteq> c \<Longrightarrow> covers c bs (n - 1)"
proof -
  show n: "n \<noteq> 0" using assms by (auto simp: covers_def)
  then have "Suc (unat (n - 1)) = unat n" using unat_minus_one [OF n] by (simp add: unat_gt_0)
  then show "covers c bs (n - 1)" if "b \<noteq> c" using assms that by (auto simp: covers_def)
qed

lemma covers_drop:
  assumes c: "covers c bs n" and k: "k \<le> find_byte c bs"
  shows "covers c (drop k bs) (n - of_nat k)"
proof -
  have kl: "k \<le> length bs" using k find_byte_le [of c bs] by simp
  moreover have "length bs \<le> unat n" using c by (auto simp: covers_def)
  ultimately have u: "unat (n - of_nat k) = unat n - k" by (intro unat_sub_nat) simp
  have "c \<in> set (drop k bs)" if "c \<in> set bs"
  proof (rule ccontr)
    assume "c \<notin> set (drop k bs)"
    then show False using find_byte_less [OF that] find_byte_notin [of c "drop k bs"] find_byte_drop [OF k] kl k by simp
  qed
  then show ?thesis using c kl by (auto simp: covers_def u)
qed

lemma nscan_correct:
  assumes "bytes_at m a bs" "covers c bs n"
  shows "\<exists>k\<le>find_byte c bs. nscan go (\<lambda>b. b = c) m a n = Some (a + of_nat k, n - of_nat k) \<and>
           (k = find_byte c bs \<or> \<not> go (a + of_nat k))"
  using assms
proof (induction bs arbitrary: a n)
  case Nil
  then have "n = 0" by (simp add: covers_Nil)
  then show ?case by (auto simp: nscan.simps find_byte_def)
next
  case (Cons b bs)
  note n = covers_Cons [OF Cons.prems(2)]
  have b: "m a = Some b" and bs: "bytes_at m (a + 1) bs" using Cons.prems by simp_all
  show ?case
  proof (cases "go a \<and> b \<noteq> c")
    case True
    then have n2: "covers c bs (n - 1)" using n(2) by simp
    obtain k where k: "k \<le> find_byte c bs" "nscan go (\<lambda>b. b = c) m (a + 1) (n - 1) = Some (a + 1 + of_nat k, n - 1 - of_nat k)"
      "k = find_byte c bs \<or> \<not> go (a + 1 + of_nat k)"
      using Cons.IH [OF bs n2] by metis
    have "nscan go (\<lambda>b. b = c) m a n = nscan go (\<lambda>b. b = c) m (a + 1) (n - 1)"
      using True b n(1) by (subst nscan.simps) simp
    moreover have "find_byte c (b # bs) = Suc (find_byte c bs)" using True by (simp add: find_byte_def)
    ultimately show ?thesis using k
      by (intro exI [of _ "Suc k"]) (auto simp: add.assoc diff_diff_eq)
  next
    case False
    then have "nscan go (\<lambda>b. b = c) m a n = Some (a, n)" using b n(1) by (subst nscan.simps) auto
    moreover have "find_byte c (b # bs) = 0 \<or> \<not> go a" using False by (auto simp: find_byte_def)
    ultimately show ?thesis by (intro exI [of _ 0]) simp
  qed
qed

text \<open>The word loop reads whole words: the bytes end with one, or at \<open>n\<close>.\<close>

lemma nscan_words_correct:
  assumes "bytes_at m a bs" "covers c bs n" "length bs = unat n \<or> 8 dvd length bs"
  shows "\<exists>k\<le>find_byte c bs. nscan_words (\<lambda>x. haszero (x XOR ones * ucast c) \<noteq> 0) m a n =
     Some (a + of_nat k, n - of_nat k)"
  using assms
proof (induction "length bs" arbitrary: a n bs rule: less_induct)
  case less
  show ?case
  proof (cases "8 \<le> n")
    case False
    then show ?thesis by (intro exI [of _ 0]) (simp add: nscan_words.simps)
  next
    case True
    have l8: "8 \<le> length bs"
    proof (cases "length bs = unat n")
      case False
      then have "length bs \<noteq> 0" "8 dvd length bs" using less.prems by (auto simp: covers_def)
      then show ?thesis by (auto dest: dvd_imp_le)
    qed (use True in \<open>simp add: word_le_nat_alt\<close>)
    have t8: "bytes_at m a (take 8 bs)" "length (take 8 bs) = 8"
      using less.prems(1) l8 bytes_at_append [of m a "take 8 bs" "drop 8 bs"] by simp_all
    have ld: "load64 m a = Some (le_word (take 8 bs))" using t8 by (rule load64_at)
    show ?thesis
    proof (cases "c \<in> set (take 8 bs)")
      case True
      then have "nscan_words (\<lambda>x. haszero (x XOR ones * ucast c) \<noteq> 0) m a n = Some (a, n)"
        using \<open>8 \<le> n\<close> haszero_xor [OF t8(2), of c] by (simp add: nscan_words.simps ld)
      then show ?thesis by (intro exI [of _ 0]) simp
    next
      case nin: False
      have f8: "8 \<le> find_byte c bs"
      proof (rule ccontr)
        assume "\<not> 8 \<le> find_byte c bs"
        then have "find_byte c bs < length (take 8 bs)" "find_byte c bs < length bs" using l8 by simp_all
        moreover from this have "c \<in> set bs" by (metis find_byte_notin less_irrefl)
        ultimately show False using nin find_byte_nth [of c bs] by (metis nth_mem nth_take length_take min.strict_boundedE)
      qed
      have "length bs \<le> unat n" using less.prems(2) by (auto simp: covers_def)
      then have u8: "length (drop 8 bs) = unat (n - of_nat 8) \<or> 8 dvd length (drop 8 bs)"
        using unat_sub_nat [of 8 n] l8 less.prems(3) by (auto intro: dvd_diff_nat)
      obtain k where k: "k \<le> find_byte c (drop 8 bs)"
        "nscan_words (\<lambda>x. haszero (x XOR ones * ucast c) \<noteq> 0) m (a + of_nat 8) (n - of_nat 8) =
          Some (a + of_nat 8 + of_nat k, n - of_nat 8 - of_nat k)"
      proof -
        have "length (drop 8 bs) < length bs" using l8 by simp
        from less.hyps [OF this bytes_at_drop [OF less.prems(1) l8] covers_drop [OF less.prems(2) f8] u8] that
        show ?thesis by metis
      qed
      have "nscan_words (\<lambda>x. haszero (x XOR ones * ucast c) \<noteq> 0) m a n =
          nscan_words (\<lambda>x. haszero (x XOR ones * ucast c) \<noteq> 0) m (a + 8) (n - 8)"
        using \<open>8 \<le> n\<close> nin haszero_xor [OF t8(2), of c] by (subst nscan_words.simps) (simp add: ld)
      then have "nscan_words (\<lambda>x. haszero (x XOR ones * ucast c) \<noteq> 0) m a n =
          Some (a + of_nat (8 + k), n - of_nat (8 + k))"
        using k(2) by (simp add: add.assoc diff_diff_eq)
      moreover have "8 + k \<le> find_byte c bs" using k(1) f8 find_byte_drop [OF f8] by simp
      ultimately show ?thesis by blast
    qed
  qed
qed

lemma unat_and_7: "unat (a AND 7) = unat a mod 8" for a :: u64
proof -
  have "a AND 7 = take_bit 3 a" by (simp add: take_bit_eq_mask mask_eq_exp_minus_1)
  then show ?thesis by (simp add: unsigned_take_bit_eq take_bit_nat_def)
qed

lemma memchr_covered:
  assumes at: "bytes_at m a bs" and n: "covers (ucast c) bs n"
    and end_word: "length bs = unat n \<or> 8 dvd unat a + length bs"
  shows "memchr m a c n = Some (if ucast c \<in> set bs then a + of_nat (find_byte (ucast c) bs) else 0)"
proof -
  define ch :: byte where "ch = ucast c"
  define f where "f = find_byte ch bs"
  have fl: "f \<le> length bs" by (simp add: f_def find_byte_le)
  have ln: "length bs \<le> unat n" using n by (auto simp: covers_def)
  have nch: "covers ch bs n" using n by (simp add: ch_def)
  have rest: "bytes_at m (a + of_nat k) (drop k bs)" "covers ch (drop k bs) (n - of_nat k)"
    "find_byte ch (drop k bs) = f - k" "unat (n - of_nat k) = unat n - k" if "k \<le> f" for k
    using that fl ln bytes_at_drop [OF at] unat_sub_nat [of k n] covers_drop [OF nch, of k]
    by (simp_all add: f_def find_byte_drop)
  obtain k where k: "k \<le> f" "nscan (\<lambda>s. s AND 7 \<noteq> 0) (\<lambda>b. b = ch) m a n = Some (a + of_nat k, n - of_nat k)"
      "k = f \<or> (a + of_nat k) AND 7 = 0"
    using nscan_correct [OF at nch, of "\<lambda>s. s AND 7 \<noteq> 0"] unfolding f_def by metis
  have zero: "n - of_nat k' = 0 \<longleftrightarrow> k' = length bs" if "k' \<le> f" for k'
  proof -
    have "n - of_nat k' = 0 \<longleftrightarrow> unat (n - of_nat k') = 0" by (simp only: unat_eq_0)
    also have "\<dots> \<longleftrightarrow> unat n - k' = 0" using rest(4) [OF that] by (simp only:)
    also have "\<dots> \<longleftrightarrow> k' = length bs"
      using that fl ln nch find_byte_less [of ch bs] by (auto simp: covers_def f_def)
    finally show ?thesis .
  qed
  have byte: "m (a + of_nat k') = Some (bs ! k')" if "k' \<le> f" "k' \<noteq> length bs" for k'
    using at that fl by (simp add: bytes_at_nth)
  have last: "k' = f" if "k' \<le> f" "k' = length bs \<or> bs ! k' = ch" for k'
    using that fl find_byte_before [of k' ch bs] by (cases "k' < f") (auto simp: f_def)
  have res: "(if n - of_nat f \<noteq> 0 then a + of_nat f else 0) = (if ch \<in> set bs then a + of_nat f else 0)"
    using zero [of f] find_byte_less [of ch bs] find_byte_notin [of ch bs] by (auto simp: f_def)
  show ?thesis
  proof (cases "k = length bs \<or> bs ! k = ch")
    case True
    then have kf: "k = f" using k(1) last by blast
    have "n = of_nat k \<or> n \<noteq> of_nat k \<and> m (a + of_nat k) = Some ch"
      using True zero [OF k(1)] byte [OF k(1)] by auto
    then show ?thesis unfolding memchr_def Let_def ch_def [symmetric] f_def [symmetric]
      using k(2) res kf by auto
  next
    case False
    then have hit: "n \<noteq> of_nat k" "m (a + of_nat k) = Some (bs ! k)" "bs ! k \<noteq> ch"
      using zero [OF k(1)] byte [OF k(1)] by auto
    have al: "length (drop k bs) = unat (n - of_nat k) \<or> 8 dvd length (drop k bs)"
    proof (cases "length bs = unat n")
      case True
      then show ?thesis using rest(4) [OF k(1)] by simp
    next
      case nl: False
      then have "ch \<in> set bs" using nch by (simp add: covers_def)
      then have "f < length bs" "bs ! f = ch" by (simp_all add: f_def find_byte_less find_byte_nth)
      then have kf: "k < length bs" "(a + of_nat k) AND 7 = 0" using k False by auto
      have k64: "k < 2 ^ 64" using kf(1) ln unsigned_less [of n, where ?'a = nat] by simp
      have "unat (a + of_nat k) mod 8 = 0" unfolding unat_and_7 [symmetric] kf(2) by simp
      moreover have "unat (a + of_nat k) = (unat a + k) mod 2 ^ 64"
        using k64 by (simp add: unat_word_ariths unat_of_nat mod_simps)
      moreover have "(unat a + k) mod 2 ^ 64 mod 8 = (unat a + k) mod 8" by (rule mod_mod_cancel) simp
      ultimately have "8 dvd unat a + k" by (simp only: dvd_eq_mod_eq_0)
      moreover have "8 dvd unat a + length bs" using end_word nl by simp
      ultimately have "8 dvd (unat a + length bs) - (unat a + k)" by (rule dvd_diff_nat [rotated])
      then show ?thesis by simp
    qed
    obtain j where j: "j \<le> f - k"
      "nscan_words (\<lambda>x. haszero (x XOR ones * ucast ch) \<noteq> 0) m (a + of_nat k) (n - of_nat k) =
        Some (a + of_nat k + of_nat j, n - of_nat k - of_nat j)"
      using nscan_words_correct [OF rest(1,2) [OF k(1)] al] unfolding rest(3) [OF k(1)] by metis
    have kj: "k + j \<le> f" using k(1) j(1) by simp
    have w: "nscan_words (\<lambda>x. haszero (x XOR ones * ucast ch) \<noteq> 0) m (a + of_nat k) (n - of_nat k) =
        Some (a + of_nat (k + j), n - of_nat (k + j))"
      using j(2) by (simp add: add.assoc diff_diff_eq)
    obtain i where i: "i \<le> f - (k + j)" "nscan (\<lambda>_. True) (\<lambda>b. b = ch) m (a + of_nat (k + j)) (n - of_nat (k + j)) =
        Some (a + of_nat (k + j) + of_nat i, n - of_nat (k + j) - of_nat i)" "i = f - (k + j)"
      using nscan_correct [OF rest(1,2) [OF kj], of "\<lambda>_. True"] unfolding rest(3) [OF kj] by metis
    then have "nscan (\<lambda>_. True) (\<lambda>b. b = ch) m (a + of_nat (k + j)) (n - of_nat (k + j)) =
        Some (a + of_nat (k + j + i), n - of_nat (k + j + i))"
      by (simp add: add.assoc diff_diff_eq)
    moreover have "k + j + i = f" using i(3) kj by simp
    ultimately have t: "nscan (\<lambda>_. True) (\<lambda>b. b = ch) m (a + of_nat (k + j)) (n - of_nat (k + j)) =
        Some (a + of_nat f, n - of_nat f)" by (simp only:)
    show ?thesis unfolding memchr_def Let_def ch_def [symmetric] f_def [symmetric]
      using k(2) hit w t res by simp
  qed
qed

lemma memchr_correct:
  assumes "bytes_at m a bs" "length bs = unat n"
  shows "memchr m a c n = Some (if ucast c \<in> set bs then a + of_nat (find_byte (ucast c) bs) else 0)"
  using assms by (intro memchr_covered) (simp_all add: covers_def)

lemma strnlen_covered:
  assumes at: "bytes_at m a bs" and n: "covers 0 bs n" and e: "length bs = unat n \<or> 8 dvd unat a + length bs"
    and a: "a \<noteq> 0" "unat a + length bs \<le> 2 ^ 64"
  shows "strnlen m a n = Some (of_nat (find_byte 0 bs))"
proof -
  define f where "f = find_byte 0 bs"
  have "a + of_nat f \<noteq> 0" if "f < length bs"
  proof -
    have "unat (a + of_nat f) = unat a + f" using that a(2) by (simp add: unat_word_ariths unat_of_nat)
    then show ?thesis using a(1) by (metis add_is_0 unat_0 unat_eq_0)
  qed
  moreover have "0 \<notin> set bs \<Longrightarrow> n = of_nat (length bs)" using n by (auto simp: covers_def)
  ultimately show ?thesis
    using memchr_covered [OF at, of 0 n] n e find_byte_less [of 0 bs] find_byte_notin [of 0 bs]
    by (auto simp: strnlen_def f_def)
qed

lemma strnlen_correct:
  assumes "bytes_at m a bs" "length bs = unat n" "a \<noteq> 0" "unat a + length bs \<le> 2 ^ 64"
  shows "strnlen m a n = Some (of_nat (find_byte 0 bs))"
  using assms by (intro strnlen_covered) (simp_all add: covers_def)

text \<open>On a string the limit may lie far behind the terminator: nothing beyond its word is read.\<close>

lemma word_mapped_rest:
  assumes w: "word_mapped m" and q: "m q \<noteq> None" and i: "unat q mod 8 + i < 8"
  shows "m (q + of_nat i) \<noteq> None" "unat (q + of_nat i) = unat q + i"
proof -
  have "unat q < 8 * 2 ^ 61" using unsigned_less [of q, where ?'a = nat] by simp
  then have "unat q div 8 < 2 ^ 61" by (simp add: less_mult_imp_div_less mult.commute)
  moreover have "d < 2 ^ 61 \<Longrightarrow> r + i < 8 \<Longrightarrow> 8 * d + r + i < 2 ^ 64" for d r :: nat by simp
  ultimately have "8 * (unat q div 8) + unat q mod 8 + i < 2 ^ 64" using i by blast
  then have "unat q + i < 2 ^ 64" by (simp only: mult_div_mod_eq)
  then show u: "unat (q + of_nat i) = unat q + i" using i by (simp add: unat_word_ariths unat_of_nat)
  have "unat (drop_bit 3 (q + of_nat i)) = unat (drop_bit 3 q)"
    using i by (simp add: unat_drop_bit u div_add1_eq [of "unat q" i 8])
  then have "drop_bit 3 q = drop_bit 3 (q + of_nat i)" by (simp add: word_unat_eq_iff)
  with w q show "m (q + of_nat i) \<noteq> None" unfolding word_mapped_def by blast
qed

lemma cstr_word_end:
  assumes w: "word_mapped m" and s: "cstr m a s"
  obtains zs where "bytes_at m a (s @ 0 # zs)" "8 dvd unat a + length (s @ 0 # zs)" "unat a + length (s @ 0 # zs) \<le> 2 ^ 64"
proof -
  define q where "q = a + of_nat (length s)"
  have at: "bytes_at m a (s @ [0])" and l: "unat a + length s < 2 ^ 64" using s by (simp_all add: cstr_def)
  have uq: "unat q = unat a + length s" using l by (simp add: q_def unat_word_ariths unat_of_nat)
  have mq: "m q = Some 0" using at by (simp add: bytes_at_append q_def)
  define k where "k = 7 - unat q mod 8"
  have k: "unat q mod 8 + k = 7" by (simp add: k_def)
  have "m (q + 1 + of_nat i) \<noteq> None" if "i < k" for i
    using word_mapped_rest(1) [OF w, of q "Suc i"] mq k that by (simp add: add.assoc)
  then have "mapped m (q + 1) k" by (simp add: mapped_def)
  then obtain zs where zs: "length zs = k" "bytes_at m (q + 1) zs" using mapped_load by blast
  have "bytes_at m a (s @ 0 # zs)" using at zs(2) by (simp add: bytes_at_append q_def)
  moreover have "unat a + length (s @ 0 # zs) = unat q + 1 + k" using uq zs(1) by simp
  moreover have "8 dvd unat q + 1 + k" using k by presburger
  moreover have "unat q + 1 + k \<le> 2 ^ 64"
    using word_mapped_rest(2) [OF w, of q k] mq k unsigned_less [of "q + of_nat k", where ?'a = nat] by simp
  ultimately show ?thesis using that by metis
qed

lemma strnlen_string:
  assumes w: "word_mapped m" and s: "cstr m a s" and a: "a \<noteq> 0"
  shows "strnlen m a n = Some (of_nat (min (length s) (unat n)))"
proof -
  obtain zs where z: "bytes_at m a (s @ 0 # zs)" "8 dvd unat a + length (s @ 0 # zs)" "unat a + length (s @ 0 # zs) \<le> 2 ^ 64"
    using cstr_word_end [OF w s] .
  define bs where "bs = take (unat n) (s @ 0 # zs)"
  have at: "bytes_at m a bs" using z(1) unfolding bs_def by (metis append_take_drop_id bytes_at_append)
  have nz: "0 \<notin> set s" using s by (simp add: cstr_def)
  have "find_byte 0 bs = min (length s) (unat n)"
  proof (cases "unat n \<le> length s")
    case True
    then have "bs = take (unat n) s" by (simp add: bs_def)
    then show ?thesis using nz True find_byte_notin [of 0 bs] in_set_takeD [of 0 "unat n" s] by fastforce
  next
    case False
    then obtain k where "unat n - length s = Suc k" by (cases "unat n - length s") simp_all
    then show ?thesis using nz False by (simp add: bs_def find_byte_def takeWhile_append)
  qed
  moreover have "covers 0 bs n \<and> (length bs = unat n \<or> 8 dvd unat a + length bs) \<and> unat a + length bs \<le> 2 ^ 64"
    using z(2,3) by (cases "unat n \<le> length (s @ 0 # zs)") (auto simp: covers_def bs_def)
  ultimately show ?thesis using strnlen_covered [OF at, of n] a by simp
qed

section \<open>Comparisons\<close>

text \<open>The difference of the first bytes that differ, a missing byte counting as the terminator.\<close>

fun cmp_bytes :: "byte list \<Rightarrow> byte list \<Rightarrow> u32" where
  "cmp_bytes [] [] = 0"
| "cmp_bytes [] (y # ys) = - ucast y"
| "cmp_bytes (x # xs) [] = ucast x"
| "cmp_bytes (x # xs) (y # ys) = (if x = y then cmp_bytes xs ys else ucast x - ucast y)"

lemma sint_byte_diff: "sint (ucast (x :: byte) - ucast (y :: byte) :: u32) = int (unat x) - int (unat y)"
proof -
  have b: "int (unat x) < 256" "int (unat y) < 256"
    using unsigned_less [of x, where ?'a = int] unsigned_less [of y, where ?'a = int] by simp_all
  have "ucast x - ucast y = (word_of_int (int (unat x) - int (unat y)) :: u32)"
    by (simp add: word_of_int_uint)
  moreover have "in_range TYPE(32) (X - Y)" if "0 \<le> X" "X < 256" "0 \<le> Y" "Y < 256" for X Y
    using that by (simp add: in_range_def)
  then have "in_range TYPE(32) (int (unat x) - int (unat y))" using b by simp
  ultimately show ?thesis by (metis sint_word_of_int_range)
qed

lemma ucast_byte_eq [simp]: "(ucast (x :: byte) :: u32) = ucast (y :: byte) \<longleftrightarrow> x = y"
  using sint_byte_diff [of x y] by (metis diff_self of_nat_eq_iff right_minus_eq sint_0 word_unat_eq_iff)

lemma byte_diff_less: "(ucast (x :: byte) - ucast (y :: byte) :: u32) <s 0 \<longleftrightarrow> x < y"
  by (simp only: word_sless_alt sint_byte_diff word_less_nat_alt sint_0) linarith

lemma memcmp_correct:
  assumes "bytes_at m l xs" "bytes_at m r ys" "length xs = unat n" "length ys = unat n"
  shows "memcmp m l r n = Some (cmp_bytes xs ys)"
  using assms
proof (induction xs ys arbitrary: l r n rule: cmp_bytes.induct)
  case (4 x xs y ys)
  then show ?case using size_step [of x xs n] size_step [of y ys n] by (subst memcmp.simps) auto
qed (auto simp: memcmp.simps unat_eq_0 [symmetric] simp del: unat_eq_0)

lemma strcmp_correct:
  assumes "bytes_at m l (s @ [0])" "bytes_at m r (t @ [0])" "0 \<notin> set s" "0 \<notin> set t"
  shows "strcmp m l r = Some (cmp_bytes s t)"
  using assms by (induction s t arbitrary: l r rule: cmp_bytes.induct) (auto simp: strcmp.simps)

lemma strncmp_correct:
  assumes "bytes_at m l (s @ [0])" "bytes_at m r (t @ [0])" "0 \<notin> set s" "0 \<notin> set t"
  shows "strncmp m l r n = Some (cmp_bytes (take (unat n) s) (take (unat n) t))"
proof -
  have "strncmp_loop m l r k = Some (cmp_bytes (take (Suc (unat k)) s) (take (Suc (unat k)) t))" for k
    using assms
  proof (induction s t arbitrary: l r k rule: cmp_bytes.induct)
    case (4 x xs y ys)
    have "k \<noteq> 0 \<Longrightarrow> Suc (unat (k - 1)) = unat k" by (simp add: unat_minus_one unat_gt_0)
    with 4 show ?case by (subst strncmp_loop.simps) auto
  qed (auto simp: strncmp_loop.simps)
  from this [of "n - 1"] show ?thesis
    by (auto simp: strncmp_def unat_minus_one unat_gt_0)
qed

text \<open>The order the comparisons decide: lexicographic in the unsigned bytes.\<close>

lemma cmp_bytes_less: "length xs = length ys \<or> 0 \<notin> set xs \<and> 0 \<notin> set ys \<Longrightarrow> cmp_bytes xs ys <s 0 \<longleftrightarrow> ord_class.lexordp xs ys"
proof (induction xs ys rule: cmp_bytes.induct)
  case (2 y ys)
  then show ?case using byte_diff_less [of 0 y] by (simp add: word_gt_0)
next
  case (3 x xs)
  then show ?case using byte_diff_less [of x 0] by simp
next
  case (4 x xs y ys)
  then show ?case by (auto simp: byte_diff_less)
qed simp

lemma cmp_bytes_eq: "length xs = length ys \<or> 0 \<notin> set xs \<and> 0 \<notin> set ys \<Longrightarrow> cmp_bytes xs ys = 0 \<longleftrightarrow> xs = ys"
proof (induction xs ys rule: cmp_bytes.induct)
  case (2 y ys)
  then show ?case using ucast_byte_eq [of y 0] by auto
next
  case (3 x xs)
  then show ?case using ucast_byte_eq [of x 0] by auto
next
  case (4 x xs y ys)
  then show ?case by auto
qed simp

section \<open>Byte sets\<close>

lemma and_bit_test: "x AND push_bit k 1 \<noteq> 0 \<longleftrightarrow> bit x k" for x :: "'a::len word"
  using and_exp_eq_0_iff_not_bit [of x k] by (simp add: push_bit_eq_mult)

lemma bitop_set_test:
  assumes "length bs = 4"
  shows "length (bitop_set bs b) = 4" "bitop_test (bitop_set bs b) x \<longleftrightarrow> x = b \<or> bitop_test bs x"
    "bitop_set bs b ! (unat b div 64) \<noteq> 0"
proof -
  have less: "unat y div 64 < 4" "unat y mod 64 < 64" for y :: byte
    using unsigned_less [of y, where ?'a = nat] by simp_all
  have eq: "x = b \<longleftrightarrow> unat x div 64 = unat b div 64 \<and> unat x mod 64 = unat b mod 64" for x
    by (metis div_mult_mod_eq word_unat_eq_iff)
  show "length (bitop_set bs b) = 4" using assms by (simp add: bitop_set_def Let_def)
  show t: "bitop_test (bitop_set bs b) x \<longleftrightarrow> x = b \<or> bitop_test bs x" for x
    using less [of b] less [of x] assms unfolding bitop_test_def and_bit_test bitop_set_def Let_def
    by (auto simp: eq nth_list_update bit_or_iff bit_exp_iff)
  show "bitop_set bs b ! (unat b div 64) \<noteq> 0" using t [of b] by (auto simp: bitop_test_def)
qed

lemma fill_set_correct:
  assumes "bytes_at m c (cs @ [0])" "0 \<notin> set cs" "length bs = 4"
  shows "\<exists>bs'. fill_set m c bs = Some bs' \<and> (\<forall>x. bitop_test bs' x \<longleftrightarrow> x \<in> set cs \<or> bitop_test bs x)"
  using assms
proof (induction cs arbitrary: c bs)
  case Nil
  then show ?case by (simp add: fill_set.simps)
next
  case (Cons b cs)
  note s = bitop_set_test [OF Cons.prems(3), of b]
  obtain bs' where "fill_set m (c + 1) (bitop_set bs b) = Some bs'"
    "\<forall>x. bitop_test bs' x \<longleftrightarrow> x \<in> set cs \<or> bitop_test (bitop_set bs b) x"
    using Cons.IH [of "c + 1" "bitop_set bs b"] Cons.prems s(1) by auto
  with Cons.prems s show ?case by (subst fill_set.simps) (auto simp: Let_def)
qed

lemma bitop_test_empty: "\<not> bitop_test [0, 0, 0, 0] x"
proof -
  have "unat x div 64 < 4" using unsigned_less [of x, where ?'a = nat] by simp
  then have "[0, 0, 0, 0 :: u64] ! (unat x div 64) = 0" by (auto simp: nth_Cons')
  then show ?thesis by (simp add: bitop_test_def)
qed

lemma scan_takeWhile:
  assumes "bytes_at m a (s @ [0])" "stop 0"
  shows "scan stop m a = Some (a + of_nat (length (takeWhile (\<lambda>b. \<not> stop b) s)))"
  using assms by (induction s arbitrary: a) (auto simp: scan.simps add.assoc)

lemma strspn_correct:
  assumes "bytes_at m a (s @ [0])" "bytes_at m c (cs @ [0])" "0 \<notin> set s" "0 \<notin> set cs"
  shows "strspn m a c = Some (of_nat (length (takeWhile (\<lambda>b. b \<in> set cs) s)))"
proof (cases cs)
  case Nil
  then show ?thesis using assms by (cases s) (simp_all add: strspn_def)
next
  case (Cons c0 cs')
  show ?thesis
  proof (cases cs')
    case Nil
    then show ?thesis using Cons assms scan_takeWhile [OF assms(1), of "\<lambda>b. b \<noteq> c0"]
      by (auto simp: strspn_def)
  next
    case (Cons c1 cs'')
    obtain bs where bs: "fill_set m c [0, 0, 0, 0] = Some bs" "\<forall>x. bitop_test bs x \<longleftrightarrow> x \<in> set cs"
      using fill_set_correct [OF assms(2,4), of "[0, 0, 0, 0]"] by (auto simp: bitop_test_empty)
    have "takeWhile (\<lambda>b. \<not> (b = 0 \<or> b \<notin> set cs)) s = takeWhile (\<lambda>b. b \<in> set cs) s"
      using assms(3) by (intro takeWhile_cong) auto
    then show ?thesis
      using Cons \<open>cs = c0 # cs'\<close> assms bs scan_takeWhile [OF assms(1), of "\<lambda>b. b = 0 \<or> \<not> bitop_test bs b"]
      by (simp add: strspn_def)
  qed
qed

lemma takeWhile_True [simp]: "takeWhile (\<lambda>_. True) xs = xs"
  by (induction xs) auto

lemma strcspn_correct:
  assumes w: "word_mapped m" and s: "cstr m a s" and c: "bytes_at m c (cs @ [0])" "0 \<notin> set cs"
  shows "strcspn m a c = Some (of_nat (length (takeWhile (\<lambda>b. b \<notin> set cs) s)))"
proof -
  have at: "bytes_at m a (s @ [0])" and nz: "0 \<notin> set s" using s by (simp_all add: cstr_def)
  have uc: "ucast (scast (b :: byte) :: u32) = b" for b :: byte
    by (rule bit_word_eqI) (simp add: bit_simps)
  show ?thesis
  proof (cases "length cs \<le> 1")
    case True
    then consider "cs = []" | c0 where "cs = [c0]" by (cases cs) auto
    then show ?thesis
    proof cases
      case 1
      have "find_byte 0 s = length s" "takeWhile (\<lambda>b. b \<notin> set cs) s = s"
        using 1 by (simp_all add: find_byte_notin [OF nz] takeWhile_eq_all_conv)
      then show ?thesis using 1 c strchrnul_correct [OF w s, of 0] by (simp add: strcspn_def)
    next
      case 2
      then show ?thesis using c strchrnul_correct [OF w s, of "scast c0"]
        by (simp add: strcspn_def uc find_byte_def)
    qed
  next
    case False
    then obtain c0 c1 cs'' where cs: "cs = c0 # c1 # cs''" by (metis One_nat_def Suc_le_mono length_Cons list.exhaust list.size(3) zero_le)
    obtain bs where bs: "fill_set m c [0, 0, 0, 0] = Some bs" "\<forall>x. bitop_test bs x \<longleftrightarrow> x \<in> set cs"
      using fill_set_correct [OF c, of "[0, 0, 0, 0]"] by (auto simp: bitop_test_empty)
    have "takeWhile (\<lambda>b. \<not> (b = 0 \<or> b \<in> set cs)) s = takeWhile (\<lambda>b. b \<notin> set cs) s"
      using nz by (intro takeWhile_cong) auto
    then show ?thesis
      using cs c bs scan_takeWhile [OF at, of "\<lambda>b. b = 0 \<or> bitop_test bs b"]
      by (simp add: strcspn_def)
  qed
qed

section \<open>The last occurrence\<close>

lemma memrchr_correct:
  assumes "bytes_at m a bs" "length bs = unat n"
  shows "memrchr m a c n =
    Some (if ucast c \<in> set bs then a + of_nat (length bs - 1 - find_byte (ucast c) (rev bs)) else 0)"
proof -
  have "memrchr_loop m a ch n = Some (if ch \<in> set bs then a + of_nat (length bs - 1 - find_byte ch (rev bs)) else 0)" for ch
    using assms
  proof (induction bs arbitrary: n rule: rev_induct)
    case Nil
    then show ?case by (simp add: memrchr_loop.simps unat_eq_0)
  next
    case (snoc b bs)
    have n: "n \<noteq> 0" "length bs = unat (n - 1)" using size_step [of b bs n] snoc.prems(2) by simp_all
    then have "a + (n - 1) = a + of_nat (length bs)" by simp
    then have "m (a + (n - 1)) = Some b" using snoc.prems(1) by (simp add: bytes_at_append)
    moreover have "bytes_at m a bs" using snoc.prems(1) by (simp add: bytes_at_append)
    note ih = snoc.IH [OF this n(2)]
    have "length (bs @ [b]) - 1 - find_byte ch (rev (bs @ [b])) =
        (if b = ch then length bs else length bs - 1 - find_byte ch (rev bs))"
      by (simp add: find_byte_def)
    moreover have "s + (n - 1) = s + of_nat (length bs)" for s :: addr using n(2) by simp
    ultimately show ?case
      by (subst memrchr_loop.simps) (simp only: ih n(1) if_False, simp)
  qed
  then show ?thesis by (simp add: memrchr_def)
qed

lemma strrchr_correct:
  assumes w: "word_mapped m" and s: "cstr m a s" and a: "a \<noteq> 0"
  shows "strrchr m a c =
    Some (if ucast c \<in> set (s @ [0]) then a + of_nat (length s - find_byte (ucast c) (rev (s @ [0]))) else 0)"
proof -
  have at: "bytes_at m a (s @ [0])" and l: "length s < 2 ^ 64" using s by (simp_all add: cstr_def)
  have "length (s @ [0]) = unat (of_nat (length s) + 1 :: u64)"
  proof -
    have "0 < unat a" using a by (simp add: unat_gt_0)
    then have "Suc (length s) < 2 ^ 64" using s by (simp add: cstr_def)
    then show ?thesis by (simp add: unat_word_ariths unat_of_nat)
  qed
  note r = memrchr_correct [OF at this, of c]
  have "length (s @ [0]) - 1 - k = length s - k" for k by simp
  with r show ?thesis
    using strlen_correct [OF w s] by (simp only: strrchr_def bind.bind_lunit)
qed

lemma cmp_bytes_order:
  assumes "0 \<notin> set s" "0 \<notin> set t"
  shows "(cmp_bytes s t = 0 \<longleftrightarrow> s = t) \<and> (cmp_bytes s t <s 0 \<longleftrightarrow> ord_class.lexordp s t)"
  using assms
proof (induction s t rule: cmp_bytes.induct)
  case (2 y ys)
  have "(- ucast y :: u32) = ucast (0 :: byte) - ucast y" by simp
  moreover have "ucast y \<noteq> (0 :: u32)" using 2 ucast_byte_eq [of y 0] by simp
  ultimately show ?case using 2 byte_diff_less [of 0 y] by (auto simp: word_neq_0_conv)
next
  case (3 x xs)
  have "(ucast x :: u32) = ucast x - ucast (0 :: byte)" by simp
  moreover have "ucast x \<noteq> (0 :: u32)" using 3 ucast_byte_eq [of x 0] by simp
  ultimately show ?case using 3 byte_diff_less [of x 0] by auto
next
  case (4 x xs y ys)
  then show ?case using byte_diff_less [of x y] by auto
qed simp

lemma cmp_bytes_order_len:
  assumes "length s = length t"
  shows "(cmp_bytes s t = 0 \<longleftrightarrow> s = t) \<and> (cmp_bytes s t <s 0 \<longleftrightarrow> ord_class.lexordp s t)"
  using assms
proof (induction s t rule: cmp_bytes.induct)
  case (4 x xs y ys)
  then show ?case using byte_diff_less [of x y] by auto
qed simp_all

lemma cmp_take_nonzero: "0 \<notin> set s \<Longrightarrow> (0 :: byte) \<notin> set (take n s)"
  by (auto dest: in_set_takeD)

end
