(* ===== verification/Xen.thy ===== *)
theory Xen
  imports StrScan
begin

text \<open>
  The kernel base of \<^verbatim>\<open>src/src\<close>: the hypercall wrappers, shutdown and abort, and the entry
  \<open>synthol_setup\<close> that prints a banner, runs the program and stops the domain. The hypervisor
  and the numbers of Xen's public headers are parameters (record \<open>hyp\<close>), so is the layout of
  the image (record \<open>image\<close>: string literals, \<open>buf\<close>, the stack slot of \<open>op\<close>).
\<close>

section \<open>Running code\<close>

text \<open>
  A run changes the memory and the world \<open>'x\<close> outside the domain. It returns, or the domain is
  stopped by the hypervisor; \<open>None\<close> is a fault or a run that never ends.
\<close>

datatype ('a, 'x) outcome = Done 'a mem 'x | Off 'x

type_synonym ('a, 'x) run = "mem \<Rightarrow> 'x \<Rightarrow> ('a, 'x) outcome option"

definition ret :: "'a \<Rightarrow> ('a, 'x) run" where
  "ret a m x = Some (Done a m x)"

definition seq :: "('a, 'x) run \<Rightarrow> ('a \<Rightarrow> ('b, 'x) run) \<Rightarrow> ('b, 'x) run" where
  "seq r k m x =
     Option.bind (r m x) (\<lambda>out. case out of Done a m x \<Rightarrow> k a m x | Off x \<Rightarrow> Some (Off x))"

text \<open>Reads and writes of the domain's own memory.\<close>

definition rd :: "(mem \<Rightarrow> 'a option) \<Rightarrow> ('a, 'x) run" where
  "rd f m x = map_option (\<lambda>a. Done a m x) (f m)"

definition wr :: "(mem \<Rightarrow> mem option) \<Rightarrow> (unit, 'x) run" where
  "wr f m x = map_option (\<lambda>m. Done () m x) (f m)"

definition act :: "(mem \<Rightarrow> ('a \<times> mem) option) \<Rightarrow> ('a, 'x) run" where
  "act f m x = map_option (\<lambda>(a, m). Done a m x) (f m)"

lemma seq_ret [simp]: "seq (ret a) k = k a"
  by (simp add: seq_def ret_def fun_eq_iff)

lemma seq_Done [simp]: "r m x = Some (Done a m' x') \<Longrightarrow> seq r k m x = k a m' x'"
  by (simp add: seq_def)

lemma seq_Off [simp]: "r m x = Some (Off x') \<Longrightarrow> seq r k m x = Some (Off x')"
  by (simp add: seq_def)

lemma seq_assoc: "seq (seq r k) k' = seq r (\<lambda>a. seq (k a) k')"
  by (simp add: seq_def fun_eq_iff bind_assoc split: Option.bind_split outcome.split)

lemma seq_mono [partial_function_mono]:
  assumes "\<And>m x. mono_option (\<lambda>f. B f m x)" "\<And>a m x. mono_option (\<lambda>f. C f a m x)"
  shows "mono_option (\<lambda>f. seq (B f) (C f) m x)"
  unfolding seq_def
proof (intro bind_mono assms)
  fix out
  show "mono_option (\<lambda>f. case out of Done a m x \<Rightarrow> C f a m x | Off x \<Rightarrow> Some (Off x))"
    by (cases out) (simp_all add: assms option.const_mono)
qed

section \<open>Hypercalls\<close>

datatype 'x hyp_result = Resume u64 mem 'x | Stopped 'x

text \<open>
  \<open>hypercall_page\<close> is entered at an offset with five argument registers; the other fields are
  the constants of Xen's headers the code uses.
\<close>

record 'x hyp =
  hypercall_page :: "u64 \<Rightarrow> u64 list \<Rightarrow> mem \<Rightarrow> 'x \<Rightarrow> 'x hyp_result"
  nr_mmu_update :: u64
  nr_memory_op :: u64
  nr_console_io :: u64
  nr_vcpu_op :: u64
  nr_mmuext_op :: u64
  nr_sched_op :: u64
  nr_domctl :: u64
  nr_grant_table_op :: u64
  nr_set_trap_table :: u64
  nr_set_callbacks :: u64
  nr_event_channel_op :: u64
  nr_set_timer_op :: u64
  CONSOLEIO_write :: u32
  SCHEDOP_shutdown :: u32
  SHUTDOWN_poweroff :: u32
  SHUTDOWN_crash :: u32

definition hypercall :: "'x hyp \<Rightarrow> u64 \<Rightarrow> u64 list \<Rightarrow> (u64, 'x) run" where
  "hypercall H nr args m x =
     (case hypercall_page H (nr * 32) args m x of
        Resume res m x \<Rightarrow> Some (Done res m x)
      | Stopped x \<Rightarrow> Some (Off x))"

text \<open>The wrappers return an \<open>int\<close>: the low half of \<open>rax\<close>.\<close>

definition hypercall_int :: "'x hyp \<Rightarrow> u64 \<Rightarrow> u64 list \<Rightarrow> (u32, 'x) run" where
  "hypercall_int H nr args = seq (hypercall H nr args) (\<lambda>res. ret (ucast res))"

definition HYPERCALL_mmu_update :: "'x hyp \<Rightarrow> addr \<Rightarrow> u32 \<Rightarrow> addr \<Rightarrow> u32 \<Rightarrow> (u32, 'x) run" where
  "HYPERCALL_mmu_update H reqs count done_out domid =
     hypercall_int H (nr_mmu_update H) [reqs, ucast count, done_out, ucast domid, 0]"

definition HYPERCALL_memory_op :: "'x hyp \<Rightarrow> u32 \<Rightarrow> addr \<Rightarrow> (u32, 'x) run" where
  "HYPERCALL_memory_op H cmd arg = hypercall_int H (nr_memory_op H) [ucast cmd, arg, 0, 0, 0]"

definition HYPERCALL_console_io :: "'x hyp \<Rightarrow> u32 \<Rightarrow> u32 \<Rightarrow> addr \<Rightarrow> (u32, 'x) run" where
  "HYPERCALL_console_io H cmd count buffer =
     hypercall_int H (nr_console_io H) [scast cmd, scast count, buffer, 0, 0]"

definition HYPERCALL_vcpu_op :: "'x hyp \<Rightarrow> u32 \<Rightarrow> u32 \<Rightarrow> addr \<Rightarrow> (u32, 'x) run" where
  "HYPERCALL_vcpu_op H cmd vcpuid extra =
     hypercall_int H (nr_vcpu_op H) [scast cmd, scast vcpuid, extra, 0, 0]"

definition HYPERCALL_mmuext_op :: "'x hyp \<Rightarrow> addr \<Rightarrow> u32 \<Rightarrow> addr \<Rightarrow> u32 \<Rightarrow> (u32, 'x) run" where
  "HYPERCALL_mmuext_op H ops count pdone foreigndom =
     hypercall_int H (nr_mmuext_op H) [ops, ucast count, pdone, ucast foreigndom, 0]"

definition HYPERCALL_sched_op :: "'x hyp \<Rightarrow> u32 \<Rightarrow> addr \<Rightarrow> (u32, 'x) run" where
  "HYPERCALL_sched_op H cmd arg = hypercall_int H (nr_sched_op H) [scast cmd, arg, 0, 0, 0]"

definition HYPERCALL_domctl :: "'x hyp \<Rightarrow> addr \<Rightarrow> (u32, 'x) run" where
  "HYPERCALL_domctl H ops = hypercall_int H (nr_domctl H) [ops, 0, 0, 0, 0]"

definition HYPERCALL_grant_table_op :: "'x hyp \<Rightarrow> u32 \<Rightarrow> addr \<Rightarrow> u32 \<Rightarrow> (u32, 'x) run" where
  "HYPERCALL_grant_table_op H cmd args count =
     hypercall_int H (nr_grant_table_op H) [scast cmd, args, ucast count, 0, 0]"

definition HYPERCALL_set_trap_table :: "'x hyp \<Rightarrow> addr \<Rightarrow> (u32, 'x) run" where
  "HYPERCALL_set_trap_table H traps = hypercall_int H (nr_set_trap_table H) [traps, 0, 0, 0, 0]"

definition HYPERCALL_set_callbacks :: "'x hyp \<Rightarrow> addr \<Rightarrow> addr \<Rightarrow> (u32, 'x) run" where
  "HYPERCALL_set_callbacks H event fail =
     hypercall_int H (nr_set_callbacks H) [event, fail, 0, 0, 0]"

definition HYPERCALL_event_channel_op :: "'x hyp \<Rightarrow> u32 \<Rightarrow> addr \<Rightarrow> (u32, 'x) run" where
  "HYPERCALL_event_channel_op H cmd arg =
     hypercall_int H (nr_event_channel_op H) [scast cmd, arg, 0, 0, 0]"

definition HYPERCALL_set_timer_op :: "'x hyp \<Rightarrow> u64 \<Rightarrow> (u32, 'x) run" where
  "HYPERCALL_set_timer_op H until = hypercall_int H (nr_set_timer_op H) [until, 0, 0, 0, 0]"

section \<open>Shutdown and abort\<close>

record image =
  lit :: "string \<Rightarrow> addr"
  buf_at :: addr
  op_at :: addr

text \<open>\<open>for (;;) HYPERCALL_sched_op(SCHEDOP_shutdown, &op);\<close>\<close>

partial_function (option) stop_loop :: "'x hyp \<Rightarrow> addr \<Rightarrow> mem \<Rightarrow> 'x \<Rightarrow> (unit, 'x) outcome option" where
  "stop_loop H opp m x =
     seq (HYPERCALL_sched_op H (SCHEDOP_shutdown H) opp) (\<lambda>_ m x. stop_loop H opp m x) m x"

definition stop_with :: "'x hyp \<Rightarrow> image \<Rightarrow> u32 \<Rightarrow> (unit, 'x) run" where
  "stop_with H I reason =
     seq (wr (\<lambda>m. store32 m (op_at I) reason)) (\<lambda>_. stop_loop H (op_at I))"

definition shutdown :: "'x hyp \<Rightarrow> image \<Rightarrow> u32 \<Rightarrow> (unit, 'x) run" where
  "shutdown H I reason =
     stop_with H I (if reason \<noteq> 0 then SHUTDOWN_crash H else SHUTDOWN_poweroff H)"

definition abort :: "'x hyp \<Rightarrow> image \<Rightarrow> (unit, 'x) run" where
  "abort H I = stop_with H I (SHUTDOWN_crash H)"

definition do_hypervisor_callback :: "u32 \<Rightarrow> u32" where
  "do_hypervisor_callback i = i"

section \<open>The entry\<close>

definition bytes_of :: "string \<Rightarrow> byte list" where
  "bytes_of s = map of_char s"

definition digits :: "byte list" where
  "digits = bytes_of ''0123456789abcdef''"

text \<open>The loop of \<open>itoa\<close>, \<open>k\<close> digits still to be written below \<open>p\<close>.\<close>

fun itoa_loop :: "nat \<Rightarrow> mem \<Rightarrow> addr \<Rightarrow> u64 \<Rightarrow> mem option" where
  "itoa_loop 0 m p v = Some m"
| "itoa_loop (Suc k) m p v =
     do { m \<leftarrow> store8 m (p - 1) (digits ! unat (v mod 16));
          itoa_loop k m (p - 1) (drop_bit 4 v) }"

definition itoa :: "mem \<Rightarrow> addr \<Rightarrow> u64 \<Rightarrow> mem option" where
  "itoa m p v = do { m \<leftarrow> store8 m (p + 16) 0; itoa_loop 16 m (p + 16) v }"

text \<open>The macros \<open>NL\<close>, \<open>SAY\<close> and \<open>SAYU\<close>.\<close>

definition NL :: "'x hyp \<Rightarrow> image \<Rightarrow> (u32, 'x) run" where
  "NL H I = HYPERCALL_console_io H (CONSOLEIO_write H) 1 (lit I [CHR 0x0A])"

definition SAY :: "'x hyp \<Rightarrow> addr \<Rightarrow> (u32, 'x) run" where
  "SAY H p = seq (rd (\<lambda>m. strlen m p)) (\<lambda>n. HYPERCALL_console_io H (CONSOLEIO_write H) (ucast n) p)"

definition SAYU :: "'x hyp \<Rightarrow> image \<Rightarrow> u64 \<Rightarrow> (u32, 'x) run" where
  "SAYU H I v = seq (wr (\<lambda>m. itoa m (buf_at I) v)) (\<lambda>_. SAY H (buf_at I))"

definition say_line :: "'x hyp \<Rightarrow> image \<Rightarrow> string \<Rightarrow> (u32, 'x) run" where
  "say_line H I s = seq (SAY H (lit I s)) (\<lambda>_. NL H I)"

definition say_value :: "'x hyp \<Rightarrow> image \<Rightarrow> string \<Rightarrow> u64 \<Rightarrow> (u32, 'x) run" where
  "say_value H I s v = seq (SAY H (lit I s)) (\<lambda>_. seq (SAYU H I v) (\<lambda>_. NL H I))"

definition synthol_setup :: "'x hyp \<Rightarrow> image \<Rightarrow> (u32, 'x) run \<Rightarrow> addr \<Rightarrow> addr \<Rightarrow> (unit, 'x) run" where
  "synthol_setup H I synthol_main start_info init_sp =
     seq (say_line H I ''<<<<<<<<<<<'') (\<lambda>_.
     seq (say_value H I ''start_info: '' start_info) (\<lambda>_.
     seq (say_value H I ''init_sp:    '' init_sp) (\<lambda>_.
     seq (say_line H I ''[enter main]'') (\<lambda>_.
     seq synthol_main (\<lambda>rc.
     seq (say_line H I ''[exit main]'') (\<lambda>_.
     seq (say_value H I ''ret = '' (scast rc)) (\<lambda>_.
     seq (say_line H I ''>>>>>>>>>>>'') (\<lambda>_.
     shutdown H I (SHUTDOWN_poweroff H)))))))))"

section \<open>The digits of \<open>itoa\<close>\<close>

fun hexs :: "nat \<Rightarrow> u64 \<Rightarrow> byte list" where
  "hexs 0 v = []"
| "hexs (Suc k) v = hexs k (drop_bit 4 v) @ [digits ! unat (v mod 16)]"

lemma length_hexs [simp]: "length (hexs k v) = k"
  by (induction k arbitrary: v) simp_all

lemma itoa_loop_put:
  "k \<le> 16 \<Longrightarrow> mapped m (p - of_nat k) k \<Longrightarrow> itoa_loop k m p v = Some (put_bytes m (p - of_nat k) (hexs k v))"
proof (induction k arbitrary: m p v)
  case (Suc k)
  have e: "p - of_nat (Suc k) = p - 1 - of_nat k" by simp
  have mk: "mapped m (p - of_nat (Suc k)) k" "m (p - 1) \<noteq> None"
    using Suc.prems mapped_append [of m "p - of_nat (Suc k)" k 1] by (auto simp: mapped_Suc)
  define b where "b = digits ! unat (v mod 16)"
  have "itoa_loop (Suc k) m p v = itoa_loop k (put_bytes m (p - 1) [b]) (p - 1) (drop_bit 4 v)"
    using mk by (simp add: store8_put b_def)
  also have "\<dots> = Some (put_bytes (put_bytes m (p - 1) [b]) (p - 1 - of_nat k) (hexs k (drop_bit 4 v)))"
    using Suc.prems mk unfolding e by (intro Suc.IH) (auto simp: mapped_put)
  also have "put_bytes (put_bytes m (p - 1) [b]) (p - 1 - of_nat k) (hexs k (drop_bit 4 v)) =
      put_bytes m (p - of_nat (Suc k)) (hexs k (drop_bit 4 v) @ [b])"
    using put_bytes_prepend [of "hexs k (drop_bit 4 v)" "[b]" m "p - 1 - of_nat k"] Suc.prems unfolding e by simp
  finally show ?case by (simp add: b_def)
qed simp

lemma itoa_put:
  assumes "mapped m p 17"
  shows "itoa m p v = Some (put_bytes m p (hexs 16 v @ [0]))"
proof -
  have m: "mapped m p 16" "m (p + 16) \<noteq> None"
    using assms mapped_append [of m p 16 1] by (simp_all add: mapped_Suc)
  have "itoa m p v = itoa_loop 16 (put_bytes m (p + 16) [0]) (p + 16) v"
    using m(2) by (simp add: itoa_def store8_put)
  also have "\<dots> = Some (put_bytes (put_bytes m (p + 16) [0]) p (hexs 16 v))"
    using itoa_loop_put [of 16 "put_bytes m (p + 16) [0]" "p + 16" v] m(1) by (simp add: mapped_put)
  also have "put_bytes (put_bytes m (p + 16) [0]) p (hexs 16 v) = put_bytes m p (hexs 16 v @ [0])"
    using put_bytes_prepend [of "hexs 16 v" "[0]" m p] by simp
  finally show ?thesis .
qed

text \<open>
  Reading hexadecimal digits, without the table of the code: the characters 0 to 9 and a to f by their codes, and
  \<open>None\<close> for any other.
\<close>

definition digit_value :: "byte \<Rightarrow> nat option" where
  "digit_value b = (if 48 \<le> b \<and> b \<le> 57 then Some (unat b - 48) else if 97 \<le> b \<and> b \<le> 102 then Some (unat b - 87) else None)"

fun hex_value :: "nat \<Rightarrow> byte list \<Rightarrow> nat option" where
  "hex_value a [] = Some a"
| "hex_value a (b # bs) = do { d \<leftarrow> digit_value b; hex_value (16 * a + d) bs }"

lemma hex_value_append: "hex_value a (bs @ [b]) = do { v \<leftarrow> hex_value a bs; d \<leftarrow> digit_value b; Some (16 * v + d) }"
  by (induction bs arbitrary: a) (auto split: Option.bind_splits)

lemma digits_unfold: "digits = [48, 49, 50, 51, 52, 53, 54, 55, 56, 57, 97, 98, 99, 100, 101, 102]"
  by (simp add: digits_def bytes_of_def of_char_def)

lemma digit_value_nth: "d < 16 \<Longrightarrow> digit_value (digits ! d) = Some d"
proof -
  have "\<forall>d\<in>{0..<16}. digit_value (digits ! d) = Some d"
    unfolding digit_value_def digits_unfold by code_simp
  then show "d < 16 \<Longrightarrow> ?thesis" by simp
qed

lemma hex_value_hexs: "hex_value 0 (hexs k v) = Some (unat v mod 16 ^ k)"
proof (induction k arbitrary: v)
  case (Suc k)
  have "unat (v mod 16) < 16" using unat_mod [of v 16] by simp
  then have "hex_value 0 (hexs (Suc k) v) = Some (16 * (unat v div 16 mod 16 ^ k) + unat v mod 16)"
    using unat_mod [of v 16] by (simp add: hex_value_append digit_value_nth Suc unat_drop_bit)
  then show ?case by (simp add: mod_mult2_eq)
qed simp

lemma hexs_nonzero: "0 \<notin> set (hexs k v)"
proof (induction k arbitrary: v)
  case (Suc k)
  have "unat (v mod 16) < length digits" using unat_mod [of v 16] by (simp add: digits_unfold)
  then have "digits ! unat (v mod 16) \<in> set digits" by simp
  then have "digits ! unat (v mod 16) \<noteq> 0" by (auto simp: digits_unfold)
  then show ?case using Suc by auto
qed simp

section \<open>What the entry prints\<close>

text \<open>
  The documented behaviour of the two hypercalls: a console write takes the given number of
  bytes and returns 0; a shutdown stops the domain with the reason of its argument.
\<close>

definition writes_console :: "'x hyp \<Rightarrow> ('x \<Rightarrow> byte list \<Rightarrow> 'x) \<Rightarrow> bool" where
  "writes_console H log \<longleftrightarrow>
     (\<forall>m x p bs. bytes_at m p bs \<and> length bs < 2 ^ 31 \<longrightarrow>
        hypercall_page H (nr_console_io H * 32)
          [scast (CONSOLEIO_write H), of_nat (length bs), p, 0, 0] m x = Resume 0 m (log x bs))"

definition stops_domain :: "'x hyp \<Rightarrow> ('x \<Rightarrow> u32 \<Rightarrow> 'x) \<Rightarrow> bool" where
  "stops_domain H off \<longleftrightarrow>
     (\<forall>m x p r. load32 m p = Some r \<longrightarrow>
        hypercall_page H (nr_sched_op H * 32) [scast (SCHEDOP_shutdown H), p, 0, 0, 0] m x = Stopped (off x r))"

definition newline :: string where "newline = [CHR 0x0A]"

definition setup_literals :: "string list" where
  "setup_literals = [''<<<<<<<<<<<'', ''start_info: '', ''init_sp:    '', ''[enter main]'',
     ''[exit main]'', ''ret = '', ''>>>>>>>>>>>'', newline]"

text \<open>The image as loaded: literals in place, away from \<open>buf\<close> and from the stack slot.\<close>

definition image_ok :: "image \<Rightarrow> mem \<Rightarrow> bool" where
  "image_ok I m \<longleftrightarrow> word_mapped m \<and> mapped m (buf_at I) 17 \<and> mapped m (op_at I) 4 \<and>
     unat (buf_at I) + 16 < 2 ^ 64 \<and>
     (\<forall>s\<in>set setup_literals. cstr m (lit I s) (bytes_of s) \<and>
        apart (lit I s) (Suc (length s)) (buf_at I) 17)"

lemma bytes_of_simps [simp]: "bytes_of [] = []" "bytes_of (c # s) = of_char c # bytes_of s" "length (bytes_of s) = length s"
  by (simp_all add: bytes_of_def)

lemma cstr_length: "cstr m p bs \<Longrightarrow> bytes_at m p bs"
  by (simp add: cstr_def bytes_at_append)

lemma scast_small: "n < 2 ^ 31 \<Longrightarrow> (scast (of_nat n :: u32) :: u64) = of_nat n"
proof -
  assume "n < 2 ^ 31"
  then have "signed_take_bit 31 (int n) = int n" by (simp add: signed_take_bit_int_eq_self_iff)
  then have "sint (of_nat n :: u32) = int n" by (simp add: signed_of_nat)
  then show ?thesis by (simp add: scast_eq)
qed

lemma console_write:
  assumes H: "writes_console H log" and b: "bytes_at m p bs" and l: "length bs < 2 ^ 31"
  shows "HYPERCALL_console_io H (CONSOLEIO_write H) (of_nat (length bs)) p m x = Some (Done 0 m (log x bs))"
proof -
  show ?thesis
    using H b l scast_small [OF l] by (simp add: HYPERCALL_console_io_def hypercall_int_def hypercall_def writes_console_def seq_def ret_def)
qed

lemma ucast_of_nat32: "(ucast (of_nat n :: u64) :: u32) = of_nat n"
  by (rule bit_word_eqI) (simp add: bit_ucast_iff bit_word_of_nat)

lemma SAY_at:
  assumes H: "writes_console H log" and "word_mapped m" and c: "cstr m p bs" and l: "length bs < 2 ^ 31"
  shows "SAY H p m x = Some (Done 0 m (log x bs))"
  using assms strlen_correct [OF assms(2) c] console_write [OF H cstr_length [OF c] l]
  by (simp add: SAY_def seq_def rd_def ucast_of_nat32)

lemma literals_short: "s \<in> set setup_literals \<Longrightarrow> length s < 2 ^ 31"
  by (auto simp: setup_literals_def newline_def)

lemma SAY_lit:
  assumes "writes_console H log" "image_ok I m" "s \<in> set setup_literals"
  shows "SAY H (lit I s) m x = Some (Done 0 m (log x (bytes_of s)))"
  using assms literals_short [OF assms(3)] by (intro SAY_at) (auto simp: image_ok_def)

lemma newline_in: "newline \<in> set setup_literals"
  by (simp add: setup_literals_def)

lemma NL_at:
  assumes "writes_console H log" "image_ok I m"
  shows "NL H I m x = Some (Done 0 m (log x [10]))"
proof -
  have "cstr m (lit I newline) (bytes_of newline)" using assms(2) newline_in by (auto simp: image_ok_def)
  then have "bytes_at m (lit I newline) [10]"
    by (auto simp: newline_def of_char_def dest!: cstr_length)
  from console_write [OF assms(1) this] show ?thesis by (simp add: NL_def newline_def)
qed

definition shown :: "image \<Rightarrow> mem \<Rightarrow> u64 \<Rightarrow> mem" where
  "shown I m v = put_bytes m (buf_at I) (hexs 16 v @ [0])"

lemma image_shown: "image_ok I m \<Longrightarrow> image_ok I (shown I m v)"
  by (auto simp: image_ok_def shown_def mapped_put word_mapped_put cstr_def bytes_at_apart)

lemma shown_shown: "shown I (shown I m v) w = shown I m w"
  by (auto simp: shown_def put_bytes_def fun_eq_iff)

lemma SAYU_at:
  assumes "writes_console H log" and I: "image_ok I m"
  shows "SAYU H I v m x = Some (Done 0 (shown I m v) (log x (hexs 16 v)))"
proof -
  have "cstr (shown I m v) (buf_at I) (hexs 16 v)"
    using I bytes_at_put [of "hexs 16 v @ [0]" m "buf_at I"]
    by (simp add: cstr_def shown_def hexs_nonzero image_ok_def)
  moreover have "word_mapped (shown I m v)" using image_shown [OF I] by (simp add: image_ok_def)
  moreover have "itoa m (buf_at I) v = Some (shown I m v)"
    using I by (simp add: itoa_put image_ok_def shown_def)
  ultimately show ?thesis using assms
    by (simp add: SAYU_def seq_def wr_def SAY_at)
qed

lemma say_line_at:
  assumes "writes_console H log" "image_ok I m" "s \<in> set setup_literals"
  shows "say_line H I s m x = Some (Done 0 m (log (log x (bytes_of s)) [10]))"
  using assms by (simp add: say_line_def SAY_lit NL_at)

lemma say_value_at:
  assumes "writes_console H log" "image_ok I m" "s \<in> set setup_literals"
  shows "say_value H I s v m x =
    Some (Done 0 (shown I m v) (log (log (log x (bytes_of s)) (hexs 16 v)) [10]))"
  using assms by (simp add: say_value_def SAY_lit SAYU_at NL_at image_shown)

section \<open>Shutdown\<close>

text \<open>Whatever the hypervisor does, \<open>shutdown\<close> and \<open>abort\<close> never come back to the caller.\<close>

lemma stop_loop_stops: "stop_loop H opp m x = Some out \<Longrightarrow> \<exists>x'. out = Off x'"
proof (erule stop_loop.raw_induct [where P = "\<lambda>_ _ _ _ out. \<exists>x'. out = Off x'" and xa = "(((H, opp), m), x)",
    unfolded prod.case, rotated])
qed (auto simp: seq_def split: Option.bind_splits outcome.splits)

lemma stop_with_stops: "stop_with H I r m x = Some out \<Longrightarrow> \<exists>x'. out = Off x'"
  by (auto simp: stop_with_def seq_def wr_def split: Option.bind_splits outcome.splits dest: stop_loop_stops)

lemma stop_with_reason:
  assumes "stops_domain H off" "mapped m (op_at I) 4"
  shows "stop_with H I r m x = Some (Off (off x r))"
proof -
  define m' where "m' = put_bytes m (op_at I) (word_bytes 4 r)"
  have "bytes_at m' (op_at I) (word_bytes 4 r)" unfolding m'_def by (rule bytes_at_put) simp
  then have "load32 m' (op_at I) = Some (le_word (word_bytes 4 r))" by (rule load32_at) simp
  then have "load32 m' (op_at I) = Some r" by (simp add: le_word_bytes)
  then have "stop_loop H (op_at I) m' x = Some (Off (off x r))"
    using assms(1)
    by (subst stop_loop.simps)
       (simp add: seq_def HYPERCALL_sched_op_def hypercall_int_def hypercall_def stops_domain_def)
  then show ?thesis using assms(2) by (simp add: stop_with_def seq_def wr_def store32_put m'_def)
qed

lemma shutdown_reason:
  assumes "stops_domain H off" "mapped m (op_at I) 4"
  shows "shutdown H I r m x = Some (Off (off x (if r \<noteq> 0 then SHUTDOWN_crash H else SHUTDOWN_poweroff H)))"
  using assms by (simp add: shutdown_def stop_with_reason)

lemma abort_reason:
  assumes "stops_domain H off" "mapped m (op_at I) 4"
  shows "abort H I m x = Some (Off (off x (SHUTDOWN_crash H)))"
  using assms by (simp add: abort_def stop_with_reason)

section \<open>The whole run\<close>

definition banner_before :: "u64 \<Rightarrow> u64 \<Rightarrow> byte list list" where
  "banner_before start_info init_sp =
     [bytes_of ''<<<<<<<<<<<'', [10],
      bytes_of ''start_info: '', hexs 16 start_info, [10],
      bytes_of ''init_sp:    '', hexs 16 init_sp, [10],
      bytes_of ''[enter main]'', [10]]"

definition banner_after :: "u32 \<Rightarrow> byte list list" where
  "banner_after rc =
     [bytes_of ''[exit main]'', [10], bytes_of ''ret = '', hexs 16 (scast rc), [10],
      bytes_of ''>>>>>>>>>>>'', [10]]"

lemma synthol_setup_run:
  assumes H: "writes_console H log" and S: "stops_domain H off" and p0: "SHUTDOWN_poweroff H = 0"
    and I: "image_ok I m"
    and main: "main (shown I m init_sp) (foldl log x (banner_before start_info init_sp)) = Some (Done rc m2 x2)"
    and I2: "image_ok I m2"
  shows "synthol_setup H I main start_info init_sp m x =
    Some (Off (off (foldl log x2 (banner_after rc)) (SHUTDOWN_poweroff H)))"
proof -
  note lines = say_line_at [OF H] say_value_at [OF H]
  have s: "\<forall>s\<in>{''<<<<<<<<<<<'', ''start_info: '', ''init_sp:    '', ''[enter main]'', ''[exit main]'', ''ret = '', ''>>>>>>>>>>>''}.
      s \<in> set setup_literals"
    by (simp add: setup_literals_def)
  note I' = I image_shown [OF I] image_shown [OF image_shown [OF I]]
  have after: "shutdown H I (SHUTDOWN_poweroff H) (shown I m2 (scast rc)) x' = Some (Off (off x' (SHUTDOWN_poweroff H)))" for x'
    using shutdown_reason [OF S] image_shown [OF I2] p0 by (simp add: image_ok_def)
  show ?thesis
    using main I' I2 image_shown [OF I2] s
    by (simp add: synthol_setup_def lines banner_before_def banner_after_def shown_shown after)
qed

section \<open>Constructors and destructors\<close>

text \<open>
  \<^verbatim>\<open>src/crt/crtbegin.c\<close>: the section \<open>.ctors\<close> is a table of function pointers between the
  marker at \<open>ctor_list\<close> and a null entry. \<open>call\<close> runs the function at an address.
\<close>

partial_function (option) ctors_end :: "mem \<Rightarrow> addr \<Rightarrow> addr option" where
  "ctors_end m fpp = do { f \<leftarrow> load64 m fpp; if f \<noteq> 0 then ctors_end m (fpp + 8) else Some fpp }"

partial_function (option) ctors_down ::
  "(addr \<Rightarrow> (unit, 'x) run) \<Rightarrow> addr \<Rightarrow> addr \<Rightarrow> mem \<Rightarrow> 'x \<Rightarrow> (unit, 'x) outcome option" where
  "ctors_down call ctorl fpp m x =
     (if ctorl < fpp - 8 then
        seq (rd (\<lambda>m. load64 m (fpp - 8))) (\<lambda>f. seq (call f) (\<lambda>_ m x. ctors_down call ctorl (fpp - 8) m x)) m x
      else ret () m x)"

definition do_ctors :: "(addr \<Rightarrow> (unit, 'x) run) \<Rightarrow> addr \<Rightarrow> (unit, 'x) run" where
  "do_ctors call ctorl =
     seq (rd (\<lambda>m. ctors_end m (ctorl + 8))) (\<lambda>fpp m x. ctors_down call ctorl fpp m x)"

partial_function (option) dtors_up ::
  "(addr \<Rightarrow> (unit, 'x) run) \<Rightarrow> addr \<Rightarrow> mem \<Rightarrow> 'x \<Rightarrow> (unit, 'x) outcome option" where
  "dtors_up call fpp m x =
     seq (rd (\<lambda>m. load64 m fpp)) (\<lambda>f m x.
       if f \<noteq> 0 then seq (call f) (\<lambda>_ m x. dtors_up call (fpp + 8) m x) m x else ret () m x) m x"

definition do_dtors :: "(addr \<Rightarrow> (unit, 'x) run) \<Rightarrow> addr \<Rightarrow> (unit, 'x) run" where
  "do_dtors call dtorl m x = dtors_up call (dtorl + 8) m x"

text \<open>A table of 64-bit entries in memory, and a list of calls one after the other.\<close>

fun words_at :: "mem \<Rightarrow> addr \<Rightarrow> u64 list \<Rightarrow> bool" where
  "words_at m a [] \<longleftrightarrow> True"
| "words_at m a (w # ws) \<longleftrightarrow> load64 m a = Some w \<and> words_at m (a + 8) ws"

fun call_all :: "(addr \<Rightarrow> (unit, 'x) run) \<Rightarrow> addr list \<Rightarrow> (unit, 'x) run" where
  "call_all call [] = ret ()"
| "call_all call (f # fs) = seq (call f) (\<lambda>_. call_all call fs)"

text \<open>The functions called leave the table alone.\<close>

definition keeps_table :: "(addr \<Rightarrow> (unit, 'x) run) \<Rightarrow> addr \<Rightarrow> addr list \<Rightarrow> bool" where
  "keeps_table call a fs \<longleftrightarrow>
     (\<forall>f\<in>set fs. \<forall>m x m' x'. words_at m a (fs @ [0]) \<and> call f m x = Some (Done () m' x') \<longrightarrow>
        words_at m' a (fs @ [0]))"

lemma words_at_append: "words_at m a (xs @ ys) \<longleftrightarrow> words_at m a xs \<and> words_at m (a + 8 * of_nat (length xs)) ys"
  by (induction xs arbitrary: a) (auto simp: algebra_simps)

lemma words_at_nth: "words_at m a ws \<Longrightarrow> i < length ws \<Longrightarrow> load64 m (a + 8 * of_nat i) = Some (ws ! i)"
proof (induction ws arbitrary: a i)
  case (Cons w ws)
  then show ?case using Cons.IH [of "a + 8" "i - 1"] by (cases i) (auto simp: algebra_simps)
qed simp

lemma ctors_end_at: "words_at m a (fs @ [0]) \<Longrightarrow> 0 \<notin> set fs \<Longrightarrow> ctors_end m a = Some (a + 8 * of_nat (length fs))"
proof (induction fs arbitrary: a)
  case (Cons f fs)
  then show ?case by (subst ctors_end.simps) (auto simp: algebra_simps)
qed (simp add: ctors_end.simps)

lemma dtors_up_calls:
  assumes k: "keeps_table call a fs" and z: "0 \<notin> set fs"
  shows "words_at m a (fs @ [0]) \<Longrightarrow> i \<le> length fs \<Longrightarrow>
    dtors_up call (a + 8 * of_nat i) m x = call_all call (drop i fs) m x"
proof (induction "length fs - i" arbitrary: i m x)
  case 0
  then have "i = length fs" by simp
  moreover have "load64 m (a + 8 * of_nat (length fs)) = Some 0"
    using words_at_nth [OF 0(2), of "length fs"] by simp
  ultimately show ?case by (simp add: dtors_up.simps seq_def rd_def)
next
  case (Suc n)
  then have i: "i < length fs" by simp
  have l: "load64 m (a + 8 * of_nat i) = Some (fs ! i)"
    using words_at_nth [OF Suc(3), of i] i by (simp add: nth_append)
  have nz: "fs ! i \<noteq> 0" using z i by (metis nth_mem)
  have d: "drop i fs = fs ! i # drop (Suc i) fs" using i by (simp add: Cons_nth_drop_Suc)
  have IH: "dtors_up call (a + 8 * of_nat i + 8) m' x' = call_all call (drop (Suc i) fs) m' x'"
    if "call (fs ! i) m x = Some (Done () m' x')" for m' x'
  proof -
    have "words_at m' a (fs @ [0])" using k i Suc(3) that unfolding keeps_table_def by (meson nth_mem)
    with Suc(1) [of "Suc i"] Suc(2) i show ?thesis by (simp add: algebra_simps)
  qed
  have "dtors_up call (a + 8 * of_nat i) m x = seq (call (fs ! i)) (\<lambda>_ m x. dtors_up call (a + 8 * of_nat i + 8) m x) m x"
    using l nz by (subst dtors_up.simps) (simp add: seq_def rd_def)
  also have "\<dots> = call_all call (drop i fs) m x"
    unfolding d using IH by (auto simp: seq_def split: outcome.split Option.bind_split)
  finally show ?case .
qed

lemma do_dtors_order:
  assumes "keeps_table call (a + 8) fs" "0 \<notin> set fs" "words_at m (a + 8) (fs @ [0])"
  shows "do_dtors call a m x = call_all call fs m x"
  using dtors_up_calls [OF assms(1,2), of m 0 x] assms(3) by (simp add: do_dtors_def)

lemma ctors_down_calls:
  assumes k: "keeps_table call (a + 8) fs" and w: "unat a + 8 * (length fs + 1) < 2 ^ 64"
  shows "words_at m (a + 8) (fs @ [0]) \<Longrightarrow> i \<le> length fs \<Longrightarrow>
    ctors_down call a (a + 8 + 8 * of_nat i) m x = call_all call (rev (take i fs)) m x"
proof (induction i arbitrary: m x)
  case 0
  then show ?case by (simp add: ctors_down.simps)
next
  case (Suc i)
  then have i: "i < length fs" by simp
  have e: "a + 8 + 8 * of_nat (Suc i) - 8 = a + 8 + 8 * of_nat i" by (simp add: algebra_simps)
  have "unat (8 + 8 * of_nat i :: addr) = 8 + 8 * i"
    using unat_of_nat_less [of "8 + 8 * i", where ?'a = 64] w i by simp
  then have "a < a + 8 + 8 * of_nat i"
    using w i unat_plus_simple [of a "8 + 8 * of_nat i"] by (simp add: word_less_nat_alt unat_word_ariths add.assoc)
  note lt = this
  have l: "load64 m (a + 8 + 8 * of_nat i) = Some (fs ! i)"
    using words_at_nth [OF Suc.prems(1), of i] i by (simp add: nth_append)
  have d: "rev (take (Suc i) fs) = fs ! i # rev (take i fs)" using i by (simp add: take_Suc_conv_app_nth)
  have IH: "ctors_down call a (a + 8 + 8 * of_nat i) m' x' = call_all call (rev (take i fs)) m' x'"
    if "call (fs ! i) m x = Some (Done () m' x')" for m' x'
  proof -
    have "words_at m' (a + 8) (fs @ [0])" using k i Suc.prems(1) that unfolding keeps_table_def by (meson nth_mem)
    with Suc.IH i show ?thesis by simp
  qed
  have "ctors_down call a (a + 8 + 8 * of_nat (Suc i)) m x =
      seq (call (fs ! i)) (\<lambda>_ m x. ctors_down call a (a + 8 + 8 * of_nat i) m x) m x"
    by (subst ctors_down.simps) (simp only: e lt if_True l seq_Done rd_def option.map)
  also have "\<dots> = call_all call (rev (take (Suc i) fs)) m x"
    unfolding d using IH by (auto simp: seq_def split: outcome.split Option.bind_split)
  finally show ?case .
qed

lemma do_ctors_order:
  assumes "keeps_table call (a + 8) fs" "0 \<notin> set fs" "words_at m (a + 8) (fs @ [0])"
    and "unat a + 8 * (length fs + 1) < 2 ^ 64"
  shows "do_ctors call a m x = call_all call (rev fs) m x"
proof -
  have "rd (\<lambda>m. ctors_end m (a + 8)) m x = Some (Done (a + 8 + 8 * of_nat (length fs)) m x)"
    using ctors_end_at [OF assms(3,2)] by (simp add: rd_def)
  then show ?thesis
    using ctors_down_calls [OF assms(1,4,3), of "length fs" x] by (simp add: do_ctors_def)
qed

section \<open>\<open>mmap\<close>\<close>

text \<open>
  \<^verbatim>\<open>src/src/mman/mmap.c\<close> over the system call of the port, with \<open>errno\<close> at an address and
  the constants of \<^verbatim>\<open>musl/include\<close>.
\<close>

definition EPERM :: u32 where "EPERM = 1"
definition ENOMEM :: u32 where "ENOMEM = 12"
definition EINVAL :: u32 where "EINVAL = 22"
definition EOVERFLOW :: u32 where "EOVERFLOW = 75"
definition MAP_FIXED :: u32 where "MAP_FIXED = 0x10"
definition MAP_ANON :: u32 where "MAP_ANON = 0x20"
definition SYS_mmap :: u64 where "SYS_mmap = 9"
definition MAP_FAILED :: addr where "MAP_FAILED = - 1"
definition PTRDIFF_MAX :: u64 where "PTRDIFF_MAX = 0x7fffffffffffffff"
definition OFF_MASK :: u64 where
  "OFF_MASK = push_bit 63 (- 0x2000) OR (4096 - 1)"

definition set_errno :: "addr \<Rightarrow> u32 \<Rightarrow> (unit, 'x) run" where
  "set_errno errno e = wr (\<lambda>m. store32 m errno e)"

definition syscall_ret :: "addr \<Rightarrow> u64 \<Rightarrow> (u64, 'x) run" where
  "syscall_ret errno r =
     (if - 4096 < r then seq (set_errno errno (ucast (- r))) (\<lambda>_. ret (- 1)) else ret r)"

definition mmap :: "(u64 \<Rightarrow> u64 list \<Rightarrow> (u64, 'x) run) \<Rightarrow> addr \<Rightarrow>
    addr \<Rightarrow> u64 \<Rightarrow> u32 \<Rightarrow> u32 \<Rightarrow> u32 \<Rightarrow> u64 \<Rightarrow> (addr, 'x) run" where
  "mmap syscall errno start len prot flags fd off =
     (if off AND OFF_MASK \<noteq> 0 then seq (set_errno errno EINVAL) (\<lambda>_. ret MAP_FAILED)
      else if PTRDIFF_MAX \<le> len then seq (set_errno errno ENOMEM) (\<lambda>_. ret MAP_FAILED)
      else seq (syscall SYS_mmap [start, len, scast prot, scast flags, scast fd, off]) (\<lambda>rc.
        syscall_ret errno
          (if rc = scast (- EPERM) \<and> start = 0 \<and> flags AND MAP_ANON \<noteq> 0 \<and> flags AND MAP_FIXED = 0
           then scast (- ENOMEM) else rc)))"

text \<open>The errors \<open>mmap\<close> reports, and that it never hands out a failed mapping as an address.\<close>

lemma off_mask: "OFF_MASK = mask 12"
  by (simp add: OFF_MASK_def mask_eq_exp_minus_1)

lemma off_aligned: "off AND OFF_MASK = 0 \<longleftrightarrow> 4096 dvd unat off"
proof -
  have "off AND OFF_MASK = 0 \<longleftrightarrow> unat (take_bit 12 off) = 0"
    by (simp add: off_mask take_bit_eq_mask unat_eq_0)
  also have "\<dots> \<longleftrightarrow> unat off mod 4096 = 0" by (simp add: unsigned_take_bit_eq take_bit_nat_def)
  finally show ?thesis by (simp add: dvd_eq_mod_eq_0)
qed

lemma mmap_error:
  assumes e: "m errno \<noteq> None" "mapped m errno 4"
    and b: "\<not> 4096 dvd unat off \<or> PTRDIFF_MAX \<le> len"
  shows "mmap syscall errno start len prot flags fd off m x =
    Some (Done MAP_FAILED (put_bytes m errno (word_bytes 4 (if 4096 dvd unat off then ENOMEM else EINVAL))) x)"
  using e b by (simp add: mmap_def off_aligned set_errno_def wr_def store32_put ret_def)

text \<open>
  The convention of \<open>mmap\<close>: an address is only returned when every check and the system call
  succeeded, with memory as the call left it; otherwise \<open>errno\<close> holds a code between 1 and 4095.
\<close>

lemma errno_code:
  assumes "- 4096 < (rc :: u64)"
  shows "ucast (- rc) \<noteq> (0 :: u32)" "(ucast (- rc) :: u32) < 4096"
proof -
  have r: "rc \<noteq> 0" using assms by auto
  then have "0 < unat rc" by (simp add: unat_gt_0)
  then have u: "unat (- rc) = 2 ^ 64 - unat rc" using unat_sub_if' [of 0 rc] by simp
  have "unat (- 4096 :: u64) < unat rc" using assms by (simp add: word_less_nat_alt)
  moreover have "unat (- 4096 :: u64) = 2 ^ 64 - 4096" using unat_sub_if' [of "0 :: u64" 4096] by simp
  ultimately have l: "unat (- rc) < 4096" using u by simp
  then have c: "unat (ucast (- rc) :: u32) = unat (- rc)" by (simp add: unsigned_ucast_eq take_bit_nat_eq_self)
  show "(ucast (- rc) :: u32) < 4096" using c l by (simp add: word_less_nat_alt)
  show "ucast (- rc) \<noteq> (0 :: u32)" using c r by (metis unat_eq_0 neg_equal_0_iff_equal unat_0)
qed

lemma syscall_ret_error:
  assumes "mapped m errno 4"
  shows "syscall_ret errno rc m x =
    Some (if - 4096 < rc then Done MAP_FAILED (put_bytes m errno (word_bytes 4 (ucast (- rc) :: u32))) x else Done rc m x)"
  using assms by (simp add: syscall_ret_def set_errno_def wr_def seq_def ret_def store32_put MAP_FAILED_def)

lemma mmap_convention:
  assumes e: "mapped m errno 4" and s: "syscall SYS_mmap [start, len, scast prot, scast flags, scast fd, off] m x = Some (Done rc m x')"
  shows "\<exists>r m' x''. mmap syscall errno start len prot flags fd off m x = Some (Done r m' x'') \<and>
    (r \<noteq> MAP_FAILED \<longrightarrow> r = rc \<and> m' = m \<and> rc \<le> - 4096 \<and> 4096 dvd unat off \<and> len < PTRDIFF_MAX) \<and>
    (r = MAP_FAILED \<longrightarrow> (\<exists>c :: u32. c \<noteq> 0 \<and> c < 4096 \<and> m' = put_bytes m errno (word_bytes 4 c)))"
proof -
  have nz: "EINVAL \<noteq> 0 \<and> EINVAL < 4096" "ENOMEM \<noteq> 0 \<and> ENOMEM < 4096" by (simp_all add: EINVAL_def ENOMEM_def)
  consider "\<not> 4096 dvd unat off \<or> PTRDIFF_MAX \<le> len" | "4096 dvd unat off" "len < PTRDIFF_MAX" by force
  then show ?thesis
  proof cases
    case 1
    have "m errno \<noteq> None" using e [unfolded mapped_def, rule_format, of 0] by simp
    note err = mmap_error [OF this e 1, of syscall start prot flags fd x]
    define c where "c = (if 4096 dvd unat off then ENOMEM else EINVAL)"
    have "c \<noteq> 0 \<and> c < 4096" using nz by (simp add: c_def)
    with err [folded c_def] show ?thesis by auto
  next
    case 2
    define rc' where "rc' = (if rc = scast (- EPERM) \<and> start = 0 \<and> flags AND MAP_ANON \<noteq> 0 \<and> flags AND MAP_FIXED = 0
           then scast (- ENOMEM) else rc)"
    have k: "rc' = rc \<or> - 4096 < rc'" by (auto simp: rc'_def ENOMEM_def)
    have "mmap syscall errno start len prot flags fd off m x = syscall_ret errno rc' m x'"
      using 2 s linorder_not_le [THEN iffD2, OF 2(2)] by (simp add: mmap_def off_aligned seq_def rc'_def)
    moreover have "MAP_FAILED \<noteq> rc'" if "\<not> - 4096 < rc'" using that by (auto simp: MAP_FAILED_def)
    ultimately show ?thesis using 2 k errno_code [of rc'] by (auto simp: syscall_ret_error [OF e] not_less)
  qed
qed

section \<open>A machine for examples\<close>

text \<open>
  A hypervisor that logs console writes and records the reason of a shutdown, and an image with
  the literals of \<open>synthol_setup\<close> one after the other.
\<close>

definition demo_page :: "u64 \<Rightarrow> u64 list \<Rightarrow> mem \<Rightarrow> byte list list \<times> u32 option \<Rightarrow> (byte list list \<times> u32 option) hyp_result" where
  "demo_page offset args m x =
     (if offset = 32 * 18 then
        (case load_bytes m (args ! 2) (unat (args ! 1)) of
           Some bs \<Rightarrow> Resume 0 m (fst x @ [bs], snd x) | None \<Rightarrow> Resume (- 14) m x)
      else if offset = 32 * 29 then
        (case load32 m (args ! 1) of Some r \<Rightarrow> Stopped (fst x, Some r) | None \<Rightarrow> Resume (- 14) m x)
      else Resume (- 38) m x)"

definition demo_hyp :: "(byte list list \<times> u32 option) hyp" where
  "demo_hyp =
     \<lparr>hypercall_page = demo_page, nr_mmu_update = 1, nr_memory_op = 12, nr_console_io = 18, nr_vcpu_op = 24,
      nr_mmuext_op = 26, nr_sched_op = 29, nr_domctl = 36, nr_grant_table_op = 20, nr_set_trap_table = 0,
      nr_set_callbacks = 4, nr_event_channel_op = 32, nr_set_timer_op = 15, CONSOLEIO_write = 0,
      SCHEDOP_shutdown = 2, SHUTDOWN_poweroff = 0, SHUTDOWN_crash = 3\<rparr>"

definition demo_log :: "byte list list \<times> u32 option \<Rightarrow> byte list \<Rightarrow> byte list list \<times> u32 option" where
  "demo_log x bs = (fst x @ [bs], snd x)"

definition demo_off :: "byte list list \<times> u32 option \<Rightarrow> u32 \<Rightarrow> byte list list \<times> u32 option" where
  "demo_off x r = (fst x, Some r)"

lemma demo_writes_console: "writes_console demo_hyp demo_log"
proof -
  have "load_bytes m p (unat (of_nat (length bs) :: u64)) = Some bs"
    if "bytes_at m p bs" "length bs < 2 ^ 31" for m p bs
    using load_bytes_at [OF that(1)] that(2) by (simp add: unat_of_nat)
  then show ?thesis
    by (auto simp: writes_console_def demo_hyp_def demo_page_def demo_log_def)
qed

lemma demo_stops_domain: "stops_domain demo_hyp demo_off"
  by (auto simp: stops_domain_def demo_hyp_def demo_page_def demo_off_def)

definition demo_text :: "byte list" where
  "demo_text = concat (map (\<lambda>s. bytes_of s @ [0]) setup_literals)"

fun demo_lit :: "addr \<Rightarrow> string list \<Rightarrow> string \<Rightarrow> addr" where
  "demo_lit a [] s = 0"
| "demo_lit a (t # ts) s = (if s = t then a else demo_lit (a + of_nat (length t) + 1) ts s)"

definition demo_image :: image where
  "demo_image = \<lparr>lit = demo_lit 0x1000 setup_literals, buf_at = 0x2000, op_at = 0x3000\<rparr>"

lemma demo_lit_at:
  "bytes_at m a (concat (map (\<lambda>s. bytes_of s @ [0]) ts)) \<Longrightarrow> s \<in> set ts \<Longrightarrow>
    bytes_at m (demo_lit a ts s) (bytes_of s @ [0])"
  by (induction ts arbitrary: a) (auto simp: bytes_at_append algebra_simps)

lemma demo_lit_place:
  "s \<in> set ts \<Longrightarrow> \<exists>k. demo_lit a ts s = a + of_nat k \<and> k + length s < sum_list (map (\<lambda>s. length s + 1) ts)"
proof (induction ts arbitrary: a)
  case (Cons t ts)
  show ?case
  proof (cases "s = t")
    case False
    then obtain k where "demo_lit (a + of_nat (length t) + 1) ts s = a + of_nat (length t) + 1 + of_nat k"
        "k + length s < sum_list (map (\<lambda>s. length s + 1) ts)"
      using Cons by fastforce
    then show ?thesis using False by (intro exI [of _ "length t + 1 + k"]) (simp add: algebra_simps)
  qed (simp add: exI [of _ 0])
qed simp

lemma demo_image_ok: "image_ok demo_image (flat 0x1000 demo_text)"
proof -
  have sum: "sum_list (map (\<lambda>s. length s + 1) setup_literals) = 84" by (simp add: setup_literals_def newline_def)
  have "apart (demo_lit 0x1000 setup_literals s) (Suc (length s)) 0x2000 17 \<and>
      cstr (flat 0x1000 demo_text) (demo_lit 0x1000 setup_literals s) (bytes_of s)" if s: "s \<in> set setup_literals" for s
  proof -
    obtain k where k: "demo_lit 0x1000 setup_literals s = 0x1000 + of_nat k" "k + length s < 84"
      using demo_lit_place [OF s, of "0x1000"] unfolding sum by blast
    have u: "unat (0x1000 + of_nat n :: addr) = 0x1000 + n" if "n < 0x1000" for n
      using that by (simp add: unat_word_ariths unat_of_nat)
    have "(0x1000 + of_nat k + of_nat i :: addr) \<noteq> 0x2000 + of_nat j" if "i \<le> length s" "j < 17" for i j
    proof
      assume "(0x1000 + of_nat k + of_nat i :: addr) = 0x2000 + of_nat j"
      then have "unat (0x1000 + of_nat (k + i) :: addr) = unat (0x2000 + of_nat j :: addr)" by (simp add: algebra_simps)
      moreover have "unat (0x2000 + of_nat j :: addr) = 0x2000 + j" using that by (simp add: unat_word_ariths unat_of_nat)
      ultimately show False using u [of "k + i"] k(2) that by simp
    qed
    then have "apart (demo_lit 0x1000 setup_literals s) (Suc (length s)) 0x2000 17" by (simp add: apart_def k(1) less_Suc_eq_le)
    moreover have "length demo_text \<le> 2 ^ 64" by (simp add: demo_text_def setup_literals_def newline_def)
    then have "bytes_at (flat 0x1000 demo_text) (demo_lit 0x1000 setup_literals s) (bytes_of s @ [0])"
      using s by (intro demo_lit_at) (simp_all flip: demo_text_def)
    moreover have "0 \<notin> set (bytes_of s)" using s by (auto simp: setup_literals_def newline_def)
    ultimately show ?thesis using u [of k] k by (simp add: cstr_def)
  qed
  then show ?thesis by (simp add: image_ok_def demo_image_def)
qed

lemma words_at_bytes: "bytes_at m a (concat (map (word_bytes 8) ws)) \<Longrightarrow> words_at m a ws"
  by (induction ws arbitrary: a) (auto simp: bytes_at_append load64_at le_word_bytes)

lemma words_at_flat: "8 * length ws \<le> 2 ^ 64 \<Longrightarrow> words_at (flat a (concat (map (word_bytes 8) ws))) a ws"
  by (rule words_at_bytes) (simp add: length_concat o_def sum_list_triv algebra_simps)

end
