(* ===== verification/StrCopy.thy ===== *)
theory StrCopy
  imports StrScan
begin

text \<open>
  The string functions of \<^verbatim>\<open>musl/src/string\<close> that write: copies, fills and the tokenizers.
  A function that writes returns the memory along with its C result.
\<close>

section \<open>\<open>memcpy\<close>\<close>

text \<open>\<open>*d++ = *s++;\<close> once, and \<open>k\<close> times.\<close>

type_synonym copy_state = "mem \<times> addr \<times> addr"

definition cp1 :: "copy_state \<Rightarrow> copy_state option" where
  "cp1 st = (case st of (m, d, s) \<Rightarrow>
     do { b \<leftarrow> m s; m \<leftarrow> store8 m d b; Some (m, d + 1, s + 1) })"

fun cpn :: "nat \<Rightarrow> copy_state \<Rightarrow> copy_state option" where
  "cpn 0 st = Some st"
| "cpn (Suc k) st = do { st \<leftarrow> cp1 st; cpn k st }"

text \<open>\<open>*(u32 *)(d+off) = *(u32 *)(s+off);\<close>\<close>

definition cpw :: "mem \<Rightarrow> addr \<Rightarrow> addr \<Rightarrow> addr \<Rightarrow> mem option" where
  "cpw m d s off = do { x \<leftarrow> load32 m (s + off); store32 m (d + off) x }"

partial_function (option) memcpy_head :: "copy_state \<Rightarrow> u64 \<Rightarrow> (copy_state \<times> u64) option" where
  "memcpy_head st n =
     (if snd (snd st) mod 4 \<noteq> 0 \<and> n \<noteq> 0 then do { st \<leftarrow> cp1 st; memcpy_head st (n - 1) }
      else Some (st, n))"

partial_function (option) memcpy_blocks :: "copy_state \<Rightarrow> u64 \<Rightarrow> (copy_state \<times> u64) option" where
  "memcpy_blocks st n =
     (if 16 \<le> n then
        case st of (m, d, s) \<Rightarrow>
          do { m \<leftarrow> cpw m d s 0; m \<leftarrow> cpw m d s 4; m \<leftarrow> cpw m d s 8; m \<leftarrow> cpw m d s 12;
               memcpy_blocks (m, d + 16, s + 16) (n - 16) }
      else Some (st, n))"

definition memcpy_aligned :: "copy_state \<Rightarrow> u64 \<Rightarrow> mem option" where
  "memcpy_aligned st n =
     do { (st, n) \<leftarrow> memcpy_blocks st n;
          st \<leftarrow> (if n AND 8 \<noteq> 0 then
                  case st of (m, d, s) \<Rightarrow>
                    do { m \<leftarrow> cpw m d s 0; m \<leftarrow> cpw m d s 4; Some (m, d + 8, s + 8) }
                else Some st);
          st \<leftarrow> (if n AND 4 \<noteq> 0 then
                  case st of (m, d, s) \<Rightarrow> do { m \<leftarrow> cpw m d s 0; Some (m, d + 4, s + 4) }
                else Some st);
          st \<leftarrow> (if n AND 2 \<noteq> 0 then cpn 2 st else Some st);
          st \<leftarrow> (if n AND 1 \<noteq> 0 then cp1 st else Some st);
          Some (fst st) }"

text \<open>
  The three loops for a destination that is off by \<open>4 - j\<close> from alignment: \<open>j\<close> is 1, 2, 3 in
  the cases 1, 2, 3 of the switch. \<open>w\<close> holds the word read last; its upper \<open>j\<close> bytes are still
  to be written.
\<close>

definition merge :: "nat \<Rightarrow> u32 \<Rightarrow> u32 \<Rightarrow> u32" where
  "merge j w x = drop_bit (32 - 8 * j) w OR push_bit (8 * j) x"

partial_function (option) memcpy_shift :: "nat \<Rightarrow> u32 \<Rightarrow> copy_state \<Rightarrow> u64 \<Rightarrow> (copy_state \<times> u64) option" where
  "memcpy_shift j w st n =
     (if 16 + of_nat j \<le> n then
        case st of (m, d, s) \<Rightarrow>
          do { x \<leftarrow> load32 m (s + of_nat j);
               m \<leftarrow> store32 m (d + 0) (merge j w x);
               w \<leftarrow> load32 m (s + (of_nat j + 4));
               m \<leftarrow> store32 m (d + 4) (merge j x w);
               x \<leftarrow> load32 m (s + (of_nat j + 8));
               m \<leftarrow> store32 m (d + 8) (merge j w x);
               w \<leftarrow> load32 m (s + (of_nat j + 12));
               m \<leftarrow> store32 m (d + 12) (merge j x w);
               memcpy_shift j w (m, d + 16, s + 16) (n - 16) }
      else Some (st, n))"

definition memcpy_switch :: "nat \<Rightarrow> copy_state \<Rightarrow> u64 \<Rightarrow> (copy_state \<times> u64) option" where
  "memcpy_switch j st n =
     do { w \<leftarrow> load32 (fst st) (snd (snd st));
          st \<leftarrow> cpn (4 - j) st;
          memcpy_shift j w st (n - of_nat (4 - j)) }"

definition memcpy_tail :: "copy_state \<Rightarrow> u64 \<Rightarrow> mem option" where
  "memcpy_tail st n =
     do { st \<leftarrow> (if n AND 16 \<noteq> 0 then cpn 16 st else Some st);
          st \<leftarrow> (if n AND 8 \<noteq> 0 then cpn 8 st else Some st);
          st \<leftarrow> (if n AND 4 \<noteq> 0 then cpn 4 st else Some st);
          st \<leftarrow> (if n AND 2 \<noteq> 0 then cpn 2 st else Some st);
          st \<leftarrow> (if n AND 1 \<noteq> 0 then cp1 st else Some st);
          Some (fst st) }"

definition memcpy :: "mem \<Rightarrow> addr \<Rightarrow> addr \<Rightarrow> u64 \<Rightarrow> (addr \<times> mem) option" where
  "memcpy m dest src n =
     do { (st, n) \<leftarrow> memcpy_head (m, dest, src) n;
          let d = fst (snd st);
          if d mod 4 = 0 then do { m \<leftarrow> memcpy_aligned st n; Some (dest, m) }
          else do {
            (st, n) \<leftarrow> (if 32 \<le> n then memcpy_switch (unat (d mod 4)) st n else Some (st, n));
            m \<leftarrow> memcpy_tail st n;
            Some (dest, m) } }"

section \<open>\<open>memset\<close> and \<open>memmove\<close>\<close>

definition put32s :: "mem \<Rightarrow> addr \<Rightarrow> u32 \<Rightarrow> addr list \<Rightarrow> mem option" where
  "put32s m s w offs = foldl (\<lambda>om off. do { m \<leftarrow> om; store32 m (s + off) w }) (Some m) offs"

partial_function (option) memset_loop :: "mem \<Rightarrow> addr \<Rightarrow> u64 \<Rightarrow> u64 \<Rightarrow> mem option" where
  "memset_loop m s c64 n =
     (if 32 \<le> n then
        do { m \<leftarrow> store64 m (s + 0) c64; m \<leftarrow> store64 m (s + 8) c64;
             m \<leftarrow> store64 m (s + 16) c64; m \<leftarrow> store64 m (s + 24) c64;
             memset_loop m (s + 32) c64 (n - 32) }
      else Some m)"

definition memset_words :: "mem \<Rightarrow> addr \<Rightarrow> byte \<Rightarrow> u64 \<Rightarrow> mem option" where
  "memset_words m s c n =
     (let k = - s AND 3; s = s + k; n = (n - k) AND - 4;
          c32 = 0x01010101 * ucast c :: u32
      in do { m \<leftarrow> put32s m s c32 [0, n - 4];
              if n \<le> 8 then Some m
              else do {
                m \<leftarrow> put32s m s c32 [4, 8, n - 12, n - 8];
                if n \<le> 24 then Some m
                else do {
                  m \<leftarrow> put32s m s c32 [12, 16, 20, 24, n - 28, n - 24, n - 20, n - 16];
                  let k = 24 + (s AND 4);
                  let s = s + k;
                  let n = n - k;
                  let c64 = (ucast c32 OR push_bit 32 (ucast c32) :: u64);
                  memset_loop m s c64 n } } })"

definition memset :: "mem \<Rightarrow> addr \<Rightarrow> u32 \<Rightarrow> u64 \<Rightarrow> (addr \<times> mem) option" where
  "memset m dest c n =
     (let s = dest; ch = ucast c :: byte
      in do { m \<leftarrow>
        (if n = 0 then Some m
         else do { m \<leftarrow> store8 m s ch; m \<leftarrow> store8 m (s + (n - 1)) ch;
           if n \<le> 2 then Some m
           else do { m \<leftarrow> store8 m (s + 1) ch; m \<leftarrow> store8 m (s + 2) ch;
             m \<leftarrow> store8 m (s + (n - 2)) ch; m \<leftarrow> store8 m (s + (n - 3)) ch;
             if n \<le> 6 then Some m
             else do { m \<leftarrow> store8 m (s + 3) ch; m \<leftarrow> store8 m (s + (n - 4)) ch;
               if n \<le> 8 then Some m else memset_words m s ch n } } });
        Some (dest, m) })"

text \<open>\<open>memmove\<close>: the loops of the overlapping case, upwards and downwards.\<close>

definition cpd :: "mem \<Rightarrow> addr \<Rightarrow> addr \<Rightarrow> u64 \<Rightarrow> mem option" where
  "cpd m d s n = do { b \<leftarrow> m (s + n); store8 m (d + n) b }"

text \<open>Each head loop tells whether it returned out of the function (\<open>n\<close> ran out).\<close>

partial_function (option) memmove_up_head :: "copy_state \<Rightarrow> u64 \<Rightarrow> (bool \<times> copy_state \<times> u64) option" where
  "memmove_up_head st n =
     (if fst (snd st) mod 8 \<noteq> 0 then
        (if n = 0 then Some (True, st, n)
         else do { st \<leftarrow> cp1 st; memmove_up_head st (n - 1) })
      else Some (False, st, n))"

partial_function (option) memmove_up_words :: "copy_state \<Rightarrow> u64 \<Rightarrow> (copy_state \<times> u64) option" where
  "memmove_up_words st n =
     (if 8 \<le> n then
        case st of (m, d, s) \<Rightarrow>
          do { x \<leftarrow> load64 m s; m \<leftarrow> store64 m d x; memmove_up_words (m, d + 8, s + 8) (n - 8) }
      else Some (st, n))"

partial_function (option) memmove_up_bytes :: "copy_state \<Rightarrow> u64 \<Rightarrow> mem option" where
  "memmove_up_bytes st n =
     (if n = 0 then Some (fst st) else do { st \<leftarrow> cp1 st; memmove_up_bytes st (n - 1) })"

partial_function (option) memmove_down_head :: "mem \<Rightarrow> addr \<Rightarrow> addr \<Rightarrow> u64 \<Rightarrow> (bool \<times> mem \<times> u64) option" where
  "memmove_down_head m d s n =
     (if (d + n) mod 8 \<noteq> 0 then
        (if n = 0 then Some (True, m, n)
         else do { m \<leftarrow> cpd m d s (n - 1); memmove_down_head m d s (n - 1) })
      else Some (False, m, n))"

partial_function (option) memmove_down_words :: "mem \<Rightarrow> addr \<Rightarrow> addr \<Rightarrow> u64 \<Rightarrow> (mem \<times> u64) option" where
  "memmove_down_words m d s n =
     (if 8 \<le> n then
        do { x \<leftarrow> load64 m (s + (n - 8)); m \<leftarrow> store64 m (d + (n - 8)) x;
             memmove_down_words m d s (n - 8) }
      else Some (m, n))"

partial_function (option) memmove_down_bytes :: "mem \<Rightarrow> addr \<Rightarrow> addr \<Rightarrow> u64 \<Rightarrow> mem option" where
  "memmove_down_bytes m d s n =
     (if n = 0 then Some m else do { m \<leftarrow> cpd m d s (n - 1); memmove_down_bytes m d s (n - 1) })"

definition memmove :: "mem \<Rightarrow> addr \<Rightarrow> addr \<Rightarrow> u64 \<Rightarrow> (addr \<times> mem) option" where
  "memmove m d s n =
     (if d = s then Some (d, m)
      else if s + n \<le> d \<or> d + n \<le> s then memcpy m d s n
      else if d < s then
        do { (done, st, n') \<leftarrow>
               (if s mod 8 = d mod 8 then
                  do { (done, st, n') \<leftarrow> memmove_up_head (m, d, s) n;
                       if done then Some (True, st, n')
                       else do { (st, n') \<leftarrow> memmove_up_words st n'; Some (False, st, n') } }
                else Some (False, (m, d, s), n));
             m \<leftarrow> (if done then Some (fst st) else memmove_up_bytes st n');
             Some (d, m) }
      else
        do { (done, m, n') \<leftarrow>
               (if s mod 8 = d mod 8 then
                  do { (done, m, n') \<leftarrow> memmove_down_head m d s n;
                       if done then Some (True, m, n')
                       else do { (m, n') \<leftarrow> memmove_down_words m d s n'; Some (False, m, n') } }
                else Some (False, m, n));
             m \<leftarrow> (if done then Some m else memmove_down_bytes m d s n');
             Some (d, m) })"

section \<open>Progress of a copy\<close>

text \<open>
  \<open>copying m d s bs\<close>: the bytes \<open>bs\<close> stand at \<open>s\<close> and are to be copied to the mapped region at
  \<open>d\<close>, which does not meet the source. \<open>cstate\<close> is the state after \<open>i\<close> bytes, \<open>left\<close> what is left.
\<close>

definition copying :: "mem \<Rightarrow> addr \<Rightarrow> addr \<Rightarrow> byte list \<Rightarrow> bool" where
  "copying m d s bs \<longleftrightarrow> bytes_at m s bs \<and> mapped m d (length bs) \<and>
     apart d (length bs) s (length bs) \<and> length bs < 2 ^ 64"

definition cmem :: "mem \<Rightarrow> addr \<Rightarrow> byte list \<Rightarrow> nat \<Rightarrow> mem" where
  "cmem m d bs i = put_bytes m d (take i bs)"

definition cstate :: "mem \<Rightarrow> addr \<Rightarrow> addr \<Rightarrow> byte list \<Rightarrow> nat \<Rightarrow> copy_state" where
  "cstate m d s bs i = (cmem m d bs i, d + of_nat i, s + of_nat i)"

definition left :: "byte list \<Rightarrow> nat \<Rightarrow> u64" where
  "left bs i = of_nat (length bs - i)"

lemma unat_left: "length bs < 2 ^ 64 \<Longrightarrow> unat (left bs i) = length bs - i"
  by (simp add: left_def unat_of_nat)

lemma left_0: "length bs < 2 ^ 64 \<Longrightarrow> i \<le> length bs \<Longrightarrow> left bs i = 0 \<longleftrightarrow> i = length bs"
  using unat_left [of bs i] by (auto simp: left_def unat_eq_0 [symmetric] simp del: unat_eq_0)

lemma left_sub: "i + k \<le> length bs \<Longrightarrow> left bs i - of_nat k = left bs (i + k)"
  by (simp add: left_def of_nat_diff)

lemma left_le: "length bs < 2 ^ 64 \<Longrightarrow> k < 2 ^ 64 \<Longrightarrow> of_nat k \<le> left bs i \<longleftrightarrow> k \<le> length bs - i"
  by (simp add: word_le_nat_alt unat_left unat_of_nat)

lemma copying_src:
  assumes c: "copying m d s bs" and k: "j + k \<le> length bs"
  shows "bytes_at (cmem m d bs i) (s + of_nat j) (take k (drop j bs))"
proof -
  have "apart s (length bs) d (length (take i bs))"
    using c by (auto simp: copying_def apart_sym [of d] elim: apart_mono)
  then have "bytes_at (cmem m d bs i) s bs"
    using c by (simp add: cmem_def bytes_at_apart copying_def)
  then have "bytes_at (cmem m d bs i) (s + of_nat j) (drop j bs)" using k by (intro bytes_at_drop) auto
  then show ?thesis by (metis append_take_drop_id bytes_at_append)
qed

lemma copying_put:
  assumes c: "copying m d s bs" and k: "i + k \<le> length bs"
  shows "mapped (cmem m d bs i) (d + of_nat i) k"
    and "put_bytes (cmem m d bs i) (d + of_nat i) (take k (drop i bs)) = cmem m d bs (i + k)"
proof -
  have "mapped m d (i + k)" using c k by (auto simp: copying_def elim: mapped_mono)
  then show "mapped (cmem m d bs i) (d + of_nat i) k" by (simp add: mapped_append cmem_def mapped_put)
  have "put_bytes (put_bytes m d (take i bs)) (d + of_nat (length (take i bs))) (take k (drop i bs)) =
      put_bytes m d (take i bs @ take k (drop i bs))"
    using c k by (intro put_bytes_append) (simp add: copying_def)
  then show "put_bytes (cmem m d bs i) (d + of_nat i) (take k (drop i bs)) = cmem m d bs (i + k)"
    using k by (simp add: cmem_def take_add)
qed

lemma cp1_state:
  assumes c: "copying m d s bs" and i: "i < length bs"
  shows "cp1 (cstate m d s bs i) = Some (cstate m d s bs (Suc i))"
proof -
  have t: "take 1 (drop i bs) = [bs ! i]" using i by (simp add: take_Suc_conv_app_nth hd_drop_conv_nth take_Suc)
  have "cmem m d bs i (s + of_nat i) = Some (bs ! i)"
    using copying_src [OF c, of i 1 i] i t by simp
  moreover have "store8 (cmem m d bs i) (d + of_nat i) (bs ! i) = Some (cmem m d bs (Suc i))"
    using copying_put [OF c, of i 1] i t by (simp add: mapped_Suc store8_put)
  ultimately show ?thesis by (simp add: cp1_def cstate_def add.assoc add.commute)
qed

lemma cpn_state: "copying m d s bs \<Longrightarrow> i + k \<le> length bs \<Longrightarrow> cpn k (cstate m d s bs i) = Some (cstate m d s bs (i + k))"
  by (induction k arbitrary: i) (auto simp: cp1_state)

lemma load32_state:
  assumes c: "copying m d s bs" and k: "j + 4 \<le> length bs"
  shows "load32 (cmem m d bs i) (s + of_nat j) = Some (le_word (take 4 (drop j bs)))"
  using copying_src [OF c k] k by (intro load32_at) auto

lemma store32_state:
  assumes c: "copying m d s bs" and k: "i + 4 \<le> length bs"
  shows "store32 (cmem m d bs i) (d + of_nat i) (le_word (take 4 (drop i bs))) = Some (cmem m d bs (i + 4))"
  using copying_put [OF c k] k by (simp add: store32_put copy32)

lemma cpw_state:
  assumes c: "copying m d s bs" and k: "b + k + 4 \<le> length bs"
  shows "cpw (cmem m d bs (b + k)) (d + of_nat b) (s + of_nat b) (of_nat k) = Some (cmem m d bs (b + k + 4))"
  using load32_state [OF c k, of "b + k"] store32_state [OF c k] by (simp add: cpw_def add.assoc)

lemma cpw_steps:
  assumes c: "copying m d s bs" and k: "b + 16 \<le> length bs"
  shows "cpw (cmem m d bs b) (d + of_nat b) (s + of_nat b) 0 = Some (cmem m d bs (b + 4))"
    "cpw (cmem m d bs (b + 4)) (d + of_nat b) (s + of_nat b) 4 = Some (cmem m d bs (b + 8))"
    "cpw (cmem m d bs (b + 8)) (d + of_nat b) (s + of_nat b) 8 = Some (cmem m d bs (b + 12))"
    "cpw (cmem m d bs (b + 12)) (d + of_nat b) (s + of_nat b) 12 = Some (cmem m d bs (b + 16))"
  using cpw_state [OF c, of b 0] cpw_state [OF c, of b 4] cpw_state [OF c, of b 8] cpw_state [OF c, of b 12] k
  by (simp_all add: add.commute)

lemma memcpy_head_state:
  assumes c: "copying m d s bs" and i: "i \<le> length bs"
  shows "\<exists>j\<ge>i. j \<le> length bs \<and> memcpy_head (cstate m d s bs i) (left bs i) = Some (cstate m d s bs j, left bs j)"
  using i
proof (induction "length bs - i" arbitrary: i)
  case 0
  then show ?case by (intro exI [of _ i]) (simp add: memcpy_head.simps left_def)
next
  case (Suc k)
  have l: "length bs < 2 ^ 64" using c by (simp add: copying_def)
  have i: "i < length bs" and k: "k = length bs - Suc i" using Suc.hyps(2) by simp_all
  show ?case
  proof (cases "(s + of_nat i) mod 4 = 0")
    case True
    then show ?thesis using i by (intro exI [of _ i]) (simp add: memcpy_head.simps cstate_def)
  next
    case False
    have "memcpy_head (cstate m d s bs i) (left bs i) = memcpy_head (cstate m d s bs (Suc i)) (left bs (Suc i))"
      using False left_0 [OF l, of i] i cp1_state [OF c i] left_sub [of i 1 bs]
      by (subst memcpy_head.simps) (simp add: cstate_def)
    moreover obtain j where "Suc i \<le> j" "j \<le> length bs"
      "memcpy_head (cstate m d s bs (Suc i)) (left bs (Suc i)) = Some (cstate m d s bs j, left bs j)"
      using Suc.hyps(1) [OF k] i by (metis Suc_leI)
    ultimately show ?thesis by (intro exI [of _ j]) simp
  qed
qed

lemma memcpy_blocks_state:
  assumes c: "copying m d s bs" and i: "i \<le> length bs"
  shows "\<exists>j. j \<le> length bs \<and> length bs - j < 16 \<and>
    memcpy_blocks (cstate m d s bs i) (left bs i) = Some (cstate m d s bs j, left bs j)"
  using i
proof (induction "length bs - i" arbitrary: i rule: less_induct)
  case less
  have l: "length bs < 2 ^ 64" using c by (simp add: copying_def)
  have le: "16 \<le> left bs i \<longleftrightarrow> 16 \<le> length bs - i" using left_le [OF l, of 16 i] by simp
  show ?case
  proof (cases "16 \<le> length bs - i")
    case True
    then have i: "i + 16 \<le> length bs" by simp
    have "memcpy_blocks (cstate m d s bs i) (left bs i) = memcpy_blocks (cstate m d s bs (i + 16)) (left bs (i + 16))"
      using le True i left_sub [OF i] by (subst memcpy_blocks.simps) (simp add: cstate_def cpw_steps [OF c i] add.assoc)
    moreover obtain j where "j \<le> length bs" "length bs - j < 16"
      "memcpy_blocks (cstate m d s bs (i + 16)) (left bs (i + 16)) = Some (cstate m d s bs j, left bs j)"
    proof -
      have "length bs - (i + 16) < length bs - i" using i by simp
      from less.hyps [OF this i] that show ?thesis by metis
    qed
    ultimately show ?thesis by (intro exI [of _ j]) simp
  next
    case False
    then show ?thesis using less.prems le by (intro exI [of _ i]) (simp add: memcpy_blocks.simps)
  qed
qed


text \<open>The bits of the remaining count drive the tail: bit \<open>k\<close> of \<open>n\<close> copies \<open>2 ^ k\<close> bytes.\<close>

lemma and_pow2_test: "n AND 2 ^ k \<noteq> 0 \<longleftrightarrow> odd (unat n div 2 ^ k)" for n :: u64
proof -
  have "n AND 2 ^ k \<noteq> 0 \<longleftrightarrow> bit n k" using and_bit_test [of n k] by (simp add: push_bit_eq_mult)
  also have "\<dots> \<longleftrightarrow> bit (unat n) k" by (auto simp: bit_unsigned_iff dest: bit_imp_le_length)
  finally show ?thesis by (simp add: bit_iff_odd)
qed

lemma mod_pow2_Suc: "n mod 2 ^ Suc k = (if odd (n div 2 ^ k) then 2 ^ k else 0) + n mod 2 ^ k" for n :: nat
proof -
  have "n mod 2 ^ Suc k = 2 ^ k * (n div 2 ^ k mod 2) + n mod 2 ^ k"
    by (metis mod_mult2_eq power_Suc2)
  then show ?thesis by (simp add: odd_iff_mod_2_eq_one)
qed

lemma tail_step:
  fixes n q :: u64
  assumes c: "copying m d s bs" and r: "length bs - i = unat n mod 2 ^ Suc k" and i: "i \<le> length bs"
    and p: "p = 2 ^ k" "q = 2 ^ k"
  shows "\<exists>j\<le>length bs. length bs - j = unat n mod 2 ^ k \<and>
    (if n AND q \<noteq> 0 then cpn p (cstate m d s bs i) else Some (cstate m d s bs i)) = Some (cstate m d s bs j)"
proof (cases "odd (unat n div 2 ^ k)")
  case True
  then have e: "length bs - i = 2 ^ k + unat n mod 2 ^ k" unfolding r mod_pow2_Suc by simp
  then have "i + 2 ^ k \<le> length bs" using i by linarith
  moreover have "n AND q \<noteq> 0" using True and_pow2_test [of n k] p(2) by simp
  ultimately show ?thesis using e
    by (intro exI [of _ "i + 2 ^ k"]) (simp add: p(1) cpn_state [OF c])
next
  case False
  then show ?thesis using r i by (intro exI [of _ i]) (simp only: mod_pow2_Suc p and_pow2_test if_False, simp)
qed

lemma cpn_1: "cpn 1 st = cp1 st"
  by (cases "cp1 st") simp_all

lemma memcpy_tail_state:
  assumes c: "copying m d s bs" and i: "i \<le> length bs" and n: "n = left bs i" and l: "length bs - i < 32"
  shows "memcpy_tail (cstate m d s bs i) n = Some (cmem m d bs (length bs))"
proof -
  have "unat n = length bs - i" using c by (simp add: n unat_left copying_def)
  then have r: "length bs - i = unat n mod 2 ^ Suc 4" using l by simp
  obtain i4 where 4: "i4 \<le> length bs" "length bs - i4 = unat n mod 2 ^ Suc 3"
    "(if n AND 16 \<noteq> 0 then cpn 16 (cstate m d s bs i) else Some (cstate m d s bs i)) = Some (cstate m d s bs i4)"
    using tail_step [OF c r i, of 16 16] by auto
  obtain i3 where 3: "i3 \<le> length bs" "length bs - i3 = unat n mod 2 ^ Suc 2"
    "(if n AND 8 \<noteq> 0 then cpn 8 (cstate m d s bs i4) else Some (cstate m d s bs i4)) = Some (cstate m d s bs i3)"
    using tail_step [OF c 4(2,1), of 8 8] by auto
  obtain i2 where 2: "i2 \<le> length bs" "length bs - i2 = unat n mod 2 ^ Suc 1"
    "(if n AND 4 \<noteq> 0 then cpn 4 (cstate m d s bs i3) else Some (cstate m d s bs i3)) = Some (cstate m d s bs i2)"
    using tail_step [OF c 3(2,1), of 4 4] by auto
  obtain i1 where 1: "i1 \<le> length bs" "length bs - i1 = unat n mod 2 ^ Suc 0"
    "(if n AND 2 \<noteq> 0 then cpn 2 (cstate m d s bs i2) else Some (cstate m d s bs i2)) = Some (cstate m d s bs i1)"
    using tail_step [OF c 2(2,1), of 2 2] by auto
  obtain i0 where 0: "i0 \<le> length bs" "length bs - i0 = unat n mod 2 ^ 0"
    "(if n AND 1 \<noteq> 0 then cp1 (cstate m d s bs i1) else Some (cstate m d s bs i1)) = Some (cstate m d s bs i0)"
    using tail_step [OF c 1(2,1), of 1 1] by (simp only: cpn_1 power_0) auto
  have "i0 = length bs" using 0 by simp
  then show ?thesis
    by (simp only: memcpy_tail_def 4(3) 3(3) 2(3) 1(3) 0(3) bind.bind_lunit) (simp add: cstate_def)
qed


lemma memcpy_aligned_state:
  assumes c: "copying m d s bs" and i: "i \<le> length bs"
  shows "memcpy_aligned (cstate m d s bs i) (left bs i) = Some (cmem m d bs (length bs))"
proof -
  obtain j where j: "j \<le> length bs" "length bs - j < 16"
    and b: "memcpy_blocks (cstate m d s bs i) (left bs i) = Some (cstate m d s bs j, left bs j)"
    using memcpy_blocks_state [OF c i] by metis
  define n where "n = left bs j"
  have word: "(case cstate m d s bs b of (m, d, s) \<Rightarrow> do { m \<leftarrow> cpw m d s 0; Some (m, d + 4, s + 4) }) =
      cpn 4 (cstate m d s bs b)" if "b + 4 \<le> length bs" for b
    using cpw_state [OF c, of b 0] cpn_state [OF c that] that by (simp add: cstate_def add.assoc)
  have word2: "(case cstate m d s bs b of (m, d, s) \<Rightarrow> do { m \<leftarrow> cpw m d s 0; m \<leftarrow> cpw m d s 4; Some (m, d + 8, s + 8) }) =
      cpn 8 (cstate m d s bs b)" if "b + 8 \<le> length bs" for b
    using cpw_state [OF c, of b 0] cpw_state [OF c, of b 4] cpn_state [OF c that] that
    by (simp add: cstate_def add.assoc add.commute)
  have un: "unat n = length bs - j" using c by (simp add: n_def unat_left copying_def)
  then have r: "length bs - j = unat n mod 2 ^ Suc 3" using j by simp
  have big: "n AND 2 ^ k \<noteq> 0 \<Longrightarrow> b + 2 ^ k \<le> length bs"
    if "length bs - b = unat n mod 2 ^ Suc k" "b \<le> length bs" for b k
    using that and_pow2_test [of n k] mod_pow2_Suc [of "unat n" k] by simp
  obtain i3 where 3: "i3 \<le> length bs" "length bs - i3 = unat n mod 2 ^ Suc 2"
    "(if n AND 8 \<noteq> 0 then cpn 8 (cstate m d s bs j) else Some (cstate m d s bs j)) = Some (cstate m d s bs i3)"
    using tail_step [OF c r j(1), of 8 8] by auto
  obtain i2 where 2: "i2 \<le> length bs" "length bs - i2 = unat n mod 2 ^ Suc 1"
    "(if n AND 4 \<noteq> 0 then cpn 4 (cstate m d s bs i3) else Some (cstate m d s bs i3)) = Some (cstate m d s bs i2)"
    using tail_step [OF c 3(2,1), of 4 4] by auto
  obtain i1 where 1: "i1 \<le> length bs" "length bs - i1 = unat n mod 2 ^ Suc 0"
    "(if n AND 2 \<noteq> 0 then cpn 2 (cstate m d s bs i2) else Some (cstate m d s bs i2)) = Some (cstate m d s bs i1)"
    using tail_step [OF c 2(2,1), of 2 2] by auto
  obtain i0 where 0: "i0 \<le> length bs" "length bs - i0 = unat n mod 2 ^ 0"
    "(if n AND 1 \<noteq> 0 then cp1 (cstate m d s bs i1) else Some (cstate m d s bs i1)) = Some (cstate m d s bs i0)"
    using tail_step [OF c 1(2,1), of 1 1] by (simp only: cpn_1 power_0) auto
  have c3: "(if n AND 8 \<noteq> 0 then (case cstate m d s bs j of (m, d, s) \<Rightarrow>
      do { m \<leftarrow> cpw m d s 0; m \<leftarrow> cpw m d s 4; Some (m, d + 8, s + 8) }) else Some (cstate m d s bs j)) = Some (cstate m d s bs i3)"
    using 3(3) word2 [of j] big [OF r j(1)] by (cases "n AND 8 = 0") simp_all
  have c2: "(if n AND 4 \<noteq> 0 then (case cstate m d s bs i3 of (m, d, s) \<Rightarrow>
      do { m \<leftarrow> cpw m d s 0; Some (m, d + 4, s + 4) }) else Some (cstate m d s bs i3)) = Some (cstate m d s bs i2)"
    using 2(3) word [of i3] big [OF 3(2,1)] by (cases "n AND 4 = 0") simp_all
  have "i0 = length bs" using 0 by simp
  then show ?thesis
    unfolding memcpy_aligned_def b
    by (simp only: bind.bind_lunit prod.case n_def [symmetric] c3 c2 1(3) 0(3)) (simp add: cstate_def)
qed

lemma merge_bytes:
  assumes "length ws = 4" "length xs = 4" "j = 1 \<or> j = 2 \<or> j = 3"
  shows "merge j (le_word ws) (le_word xs) = le_word (drop (4 - j) ws @ take (4 - j) xs)"
proof (rule bit_word_eqI)
  fix k assume k: "k < LENGTH(32)"
  have lj: "length (drop (4 - j) ws) = j" and jj: "4 - (4 - j) = j" using assms by auto
  show "bit (merge j (le_word ws) (le_word xs)) k \<longleftrightarrow> bit (le_word (drop (4 - j) ws @ take (4 - j) xs) :: u32) k"
  proof (cases "k < 8 * j")
    case True
    then have kd: "k div 8 < j" by (simp add: less_mult_imp_div_less mult.commute)
    have e: "32 - 8 * j + k = 8 * (4 - j) + k" using assms(3) by auto
    have "(8 * (4 - j) + k) div 8 = 4 - j + k div 8" "(8 * (4 - j) + k) mod 8 = k mod 8" by simp_all
    moreover have "8 * (4 - j) + k < 32" using True assms(3) by auto
    ultimately show ?thesis
      using True k kd assms by (simp add: merge_def bit_or_iff bit_drop_bit_eq bit_push_bit_iff bit_le_word e nth_append lj jj)
  next
    case False
    have "\<not> 32 - 8 * j + k < 32" using False assms(3) by auto
    moreover have "k div 8 = j + (k - 8 * j) div 8" "(k - 8 * j) mod 8 = k mod 8"
      using False by (metis div_mult_self2 le_add_diff_inverse not_less add.commute mult.commute zero_neq_numeral, metis le_add_diff_inverse mod_mult_self4 not_less)
    moreover have "k - 8 * j < 32" "(k - 8 * j) div 8 < 4 - j" using k False assms(3) by auto
    ultimately show ?thesis
      using False k assms
      by (simp add: merge_def bit_or_iff bit_drop_bit_eq bit_push_bit_iff bit_le_word nth_append lj)
  qed
qed

lemma store_merge:
  assumes c: "copying m d s bs" and j: "j = 1 \<or> j = 2 \<or> j = 3" and k: "i + j + 4 \<le> length bs"
    and w: "length ws = 4" "drop (4 - j) ws = take j (drop i bs)"
  shows "store32 (cmem m d bs i) (d + of_nat i) (merge j (le_word ws) (le_word (take 4 (drop (i + j) bs)))) =
      Some (cmem m d bs (i + 4))"
    and "drop (4 - j) (take 4 (drop (i + j) bs)) = take j (drop (i + 4) bs)"
proof -
  have l: "length (take 4 (drop (i + j) bs)) = 4" using k by simp
  have "drop (4 - j) ws @ take (4 - j) (take 4 (drop (i + j) bs)) = take (j + (4 - j)) (drop i bs)"
    unfolding w(2) by (simp add: take_add add.commute)
  also have "j + (4 - j) = 4" using j by auto
  finally have "merge j (le_word ws) (le_word (take 4 (drop (i + j) bs))) = le_word (take 4 (drop i bs))"
    using merge_bytes [OF w(1) l j] by (simp only:)
  then show "store32 (cmem m d bs i) (d + of_nat i) (merge j (le_word ws) (le_word (take 4 (drop (i + j) bs)))) =
      Some (cmem m d bs (i + 4))"
    using store32_state [OF c, of i] k by simp
  show "drop (4 - j) (take 4 (drop (i + j) bs)) = take j (drop (i + 4) bs)"
  proof -
    have "4 - (4 - j) = j" "4 - j + (i + j) = i + 4" using j by auto
    then show ?thesis by (simp only: drop_take drop_drop)
  qed
qed

lemma memcpy_shift_state:
  assumes c: "copying m d s bs" and j: "j = 1 \<or> j = 2 \<or> j = 3" and i: "i \<le> length bs"
    and w: "length ws = 4" "drop (4 - j) ws = take j (drop i bs)"
  shows "\<exists>i'\<le>length bs. length bs - i' < 16 + j \<and>
    memcpy_shift j (le_word ws) (cstate m d s bs i) (left bs i) = Some (cstate m d s bs i', left bs i')"
  using i w
proof (induction "length bs - i" arbitrary: i ws rule: less_induct)
  case less
  have l: "length bs < 2 ^ 64" using c by (simp add: copying_def)
  have le: "16 + of_nat j \<le> left bs i \<longleftrightarrow> 16 + j \<le> length bs - i"
    using left_le [OF l, of "16 + j" i] j by auto
  show ?case
  proof (cases "16 + j \<le> length bs - i")
    case False
    then show ?thesis using less.prems le by (intro exI [of _ i]) (simp add: memcpy_shift.simps)
  next
    case True
    then have i16: "i + j + 16 \<le> length bs" and i': "i + 16 \<le> length bs" by simp_all
    define X where "X b = take 4 (drop (b + j) bs)" for b
    have lX: "length (X b) = 4" if "b + j + 4 \<le> length bs" for b using that by (simp add: X_def)
    have s1: "store32 (cmem m d bs i) (d + of_nat i) (merge j (le_word ws) (le_word (X i))) = Some (cmem m d bs (i + 4))"
      "drop (4 - j) (X i) = take j (drop (i + 4) bs)"
      using store_merge [OF c j _ less.prems(2,3)] i16 by (simp_all add: X_def)
    have s2: "store32 (cmem m d bs (i + 4)) (d + of_nat (i + 4)) (merge j (le_word (X i)) (le_word (X (i + 4)))) = Some (cmem m d bs (i + 8))"
      "drop (4 - j) (X (i + 4)) = take j (drop (i + 8) bs)"
      using store_merge [OF c j _ lX s1(2)] i16 by (simp_all add: X_def add.commute)
    have s3: "store32 (cmem m d bs (i + 8)) (d + of_nat (i + 8)) (merge j (le_word (X (i + 4))) (le_word (X (i + 8)))) = Some (cmem m d bs (i + 12))"
      "drop (4 - j) (X (i + 8)) = take j (drop (i + 12) bs)"
      using store_merge [OF c j _ lX s2(2)] i16 by (simp_all add: X_def add.commute)
    have s4: "store32 (cmem m d bs (i + 12)) (d + of_nat (i + 12)) (merge j (le_word (X (i + 8))) (le_word (X (i + 12)))) = Some (cmem m d bs (i + 16))"
      "drop (4 - j) (X (i + 12)) = take j (drop (i + 16) bs)"
      using store_merge [OF c j _ lX s3(2)] i16 by (simp_all add: X_def add.commute)
    have ld: "load32 (cmem m d bs b) (s + of_nat i + (of_nat j + of_nat k)) = Some (le_word (X (i + k)))"
      if "k \<le> 12" for b k
      using load32_state [OF c, of "i + k + j" b] that i16 by (simp add: X_def add.assoc add.commute add.left_commute)
    have "memcpy_shift j (le_word ws) (cstate m d s bs i) (left bs i) =
        memcpy_shift j (le_word (X (i + 12))) (cstate m d s bs (i + 16)) (left bs (i + 16))"
      using le True ld [of 0] ld [of 4] ld [of 8] ld [of 12] s1 s2 s3 s4 left_sub [OF i']
      by (subst memcpy_shift.simps) (simp add: cstate_def add.assoc)
    moreover obtain i'' where "i'' \<le> length bs" "length bs - i'' < 16 + j"
      "memcpy_shift j (le_word (X (i + 12))) (cstate m d s bs (i + 16)) (left bs (i + 16)) = Some (cstate m d s bs i'', left bs i'')"
    proof -
      have "length bs - (i + 16) < length bs - i" using i' by simp
      moreover have "length (X (i + 12)) = 4" using i16 by (intro lX) simp
      ultimately have "\<exists>i''\<le>length bs. length bs - i'' < 16 + j \<and>
          memcpy_shift j (le_word (X (i + 12))) (cstate m d s bs (i + 16)) (left bs (i + 16)) = Some (cstate m d s bs i'', left bs i'')"
        using i' s4(2) by (intro less.hyps)
      then show ?thesis using that by metis
    qed
    ultimately show ?thesis by (intro exI [of _ i'']) simp
  qed
qed

lemma memcpy_switch_state:
  assumes c: "copying m d s bs" and j: "j = 1 \<or> j = 2 \<or> j = 3" and i: "i \<le> length bs" "32 \<le> length bs - i"
  shows "\<exists>i'\<le>length bs. length bs - i' < 32 \<and>
    memcpy_switch j (cstate m d s bs i) (left bs i) = Some (cstate m d s bs i', left bs i')"
proof -
  define ws where "ws = take 4 (drop i bs)"
  have k: "i + (4 - j) \<le> length bs" "i + 4 \<le> length bs" using i by simp_all
  have "length ws = 4" "drop (4 - j) ws = take j (drop (i + (4 - j)) bs)"
  proof -
    have "4 - (4 - j) = j" "4 - j + i = i + (4 - j)" using j by auto
    then show "drop (4 - j) ws = take j (drop (i + (4 - j)) bs)"
      by (simp only: ws_def drop_take drop_drop)
    show "length ws = 4" using k by (simp add: ws_def)
  qed
  from memcpy_shift_state [OF c j k(1) this] obtain i' where i': "i' \<le> length bs" "length bs - i' < 16 + j"
    "memcpy_shift j (le_word ws) (cstate m d s bs (i + (4 - j))) (left bs (i + (4 - j))) = Some (cstate m d s bs i', left bs i')"
    by metis
  have "load32 (fst (cstate m d s bs i)) (snd (snd (cstate m d s bs i))) = Some (le_word ws)"
    using load32_state [OF c k(2), of i] by (simp add: cstate_def ws_def)
  then have "memcpy_switch j (cstate m d s bs i) (left bs i) = Some (cstate m d s bs i', left bs i')"
    using cpn_state [OF c k(1)] left_sub [OF k(1)] i'(3) by (simp add: memcpy_switch_def del: of_nat_diff)
  then show ?thesis using i' j by (intro exI [of _ i']) auto
qed

text \<open>
  \<open>memcpy\<close> copies, whatever the alignments of source and destination: the whole switch of
  word loops and tails amounts to one \<open>put_bytes\<close>.
\<close>

lemma memcpy_correct:
  assumes c: "copying m d s bs" and n: "unat n = length bs"
  shows "memcpy m d s n = Some (d, put_bytes m d bs)"
proof -
  have l: "length bs < 2 ^ 64" using c by (simp add: copying_def)
  have st0: "cstate m d s bs 0 = (m, d, s)" "left bs 0 = n"
    using n by (simp_all add: cstate_def cmem_def left_def flip: n)
  have fin: "cmem m d bs (length bs) = put_bytes m d bs" by (simp add: cmem_def)
  obtain i where i: "i \<le> length bs" "memcpy_head (m, d, s) n = Some (cstate m d s bs i, left bs i)"
    using memcpy_head_state [OF c, of 0] unfolding st0 by auto
  define di where "di = fst (snd (cstate m d s bs i))"
  show ?thesis
  proof (cases "di mod 4 = 0")
    case True
    then show ?thesis
      using i(2) memcpy_aligned_state [OF c i(1)] by (simp add: memcpy_def Let_def di_def fin)
  next
    case False
    define j where "j = unat (di mod 4)"
    have "unat (di mod 4) = unat di mod 4" using unat_mod [of di 4] by simp
    moreover have "unat (di mod 4) \<noteq> 0" using False unat_eq_0 by blast
    ultimately have j: "j = 1 \<or> j = 2 \<or> j = 3" unfolding j_def by presburger
    have le: "32 \<le> left bs i \<longleftrightarrow> 32 \<le> length bs - i" using left_le [OF l, of 32 i] by simp
    obtain i' where i': "i' \<le> length bs" "length bs - i' < 32"
      "(if 32 \<le> left bs i then memcpy_switch j (cstate m d s bs i) (left bs i)
        else Some (cstate m d s bs i, left bs i)) = Some (cstate m d s bs i', left bs i')"
    proof (cases "32 \<le> length bs - i")
      case True
      then show ?thesis using memcpy_switch_state [OF c j i(1)] le that by (metis (full_types))
    next
      case False
      then show ?thesis using i(1) le by (intro that [of i]) auto
    qed
    have "memcpy_tail (cstate m d s bs i') (left bs i') = Some (put_bytes m d bs)"
      using memcpy_tail_state [OF c i'(1) refl i'(2)] by (simp add: fin)
    then show ?thesis
      using False by (simp only: memcpy_def Let_def i(2) bind.bind_lunit prod.case di_def [symmetric]
          j_def [symmetric] if_False i'(3))
  qed
qed

section \<open>\<open>memset\<close>\<close>

text \<open>Every store puts a run of the fill byte inside the region; \<open>filled\<close> tells which offsets are done.\<close>

definition filled :: "mem \<Rightarrow> addr \<Rightarrow> nat \<Rightarrow> byte \<Rightarrow> nat set \<Rightarrow> mem" where
  "filled m d n c S = (\<lambda>a. if unat (a - d) < n \<and> unat (a - d) \<in> S then Some c else m a)"

lemma filled_all: "{0..<n} \<subseteq> S \<Longrightarrow> filled m d n c S = put_bytes m d (replicate n c)"
  by (auto simp: filled_def put_bytes_def fun_eq_iff)

lemma filled_none [simp]: "filled m d n c {} = m"
  by (simp add: filled_def)

lemma fill_bytes:
  assumes "mapped m d n" "n < 2 ^ 64" "i + k \<le> n"
  shows "store_bytes (filled m d n c S) (d + of_nat i) (replicate k c) = Some (filled m d n c (S \<union> {i..<i + k}))"
proof -
  have "mapped m (d + of_nat i) k" using assms by (metis mapped_append mapped_mono)
  then have "mapped (filled m d n c S) (d + of_nat i) k" by (auto simp: mapped_def filled_def)
  then have "store_bytes (filled m d n c S) (d + of_nat i) (replicate k c) =
      Some (put_bytes (filled m d n c S) (d + of_nat i) (replicate k c))"
    using assms by (simp add: store_bytes_put)
  also have "put_bytes (filled m d n c S) (d + of_nat i) (replicate k c) = filled m d n c (S \<union> {i..<i + k})"
  proof
    fix a
    define u where "u = unat (a - d)"
    have u: "u < 2 ^ 64" unfolding u_def using unsigned_less [of "a - d", where ?'a = nat] by simp
    have "a - (d + of_nat i) = of_nat u - of_nat i" by (simp add: u_def algebra_simps)
    then have e: "unat (a - (d + of_nat i)) = (if i \<le> u then u - i else 2 ^ 64 + u - i)"
    proof (cases "i \<le> u")
      case False
      then have "of_nat u - of_nat i = (of_nat (2 ^ 64 + u - i) :: addr)" using assms by (simp add: of_nat_diff)
      moreover have "unat (of_nat (2 ^ 64 + u - i) :: addr) = 2 ^ 64 + u - i"
        using False assms u by (intro unat_of_nat_less) simp
      ultimately show ?thesis using False \<open>a - (d + of_nat i) = _\<close> by (simp only: if_False)
    next
      case True
      then have "of_nat u - of_nat i = (of_nat (u - i) :: addr)" by (simp add: of_nat_diff)
      moreover have "unat (of_nat (u - i) :: addr) = u - i" using u by (simp add: unat_of_nat)
      ultimately show ?thesis using True \<open>a - (d + of_nat i) = _\<close> by (simp only: if_True)
    qed
    have "unat (a - (d + of_nat i)) < k \<longleftrightarrow> i \<le> u \<and> u < i + k" unfolding e using assms by auto
    then show "put_bytes (filled m d n c S) (d + of_nat i) (replicate k c) a = filled m d n c (S \<union> {i..<i + k}) a"
      using assms(3) by (auto simp: put_bytes_def filled_def u_def [symmetric])
  qed
  finally show ?thesis .
qed


lemma fill8:
  assumes "mapped m d n" "n < 2 ^ 64" "i < n"
  shows "store8 (filled m d n c S) (d + of_nat i) c = Some (filled m d n c (insert i S))"
  using fill_bytes [OF assms(1,2), of i 1 c S] assms(3)
  by (auto split: option.splits)

lemma word_bytes_fill:
  "word_bytes 4 (0x01010101 * ucast c :: u32) = replicate 4 c"
  "word_bytes 8 (ucast (0x01010101 * ucast c :: u32) OR push_bit 32 (ucast (0x01010101 * ucast c :: u32)) :: u64) = replicate 8 c"
proof -
  have n: "replicate 4 c = [c, c, c, c]" by (simp add: numeral_eq_Suc)
  have c4: "(0x01010101 * ucast c :: u32) = le_word (replicate 4 c)"
    unfolding n le_word_def by (simp add: algebra_simps)
  show "word_bytes 4 (0x01010101 * ucast c :: u32) = replicate 4 c"
    unfolding c4 by (rule copy32) simp
  have "(ucast (0x01010101 * ucast c :: u32) OR push_bit 32 (ucast (0x01010101 * ucast c :: u32)) :: u64) = le_word (replicate 8 c)"
    unfolding c4
  proof (rule bit_word_eqI)
    fix k assume k: "k < LENGTH(64)"
    have k8: "k div 8 < 8" using k by simp
    show "bit (ucast (le_word (replicate 4 c) :: u32) OR push_bit 32 (ucast (le_word (replicate 4 c) :: u32)) :: u64) k \<longleftrightarrow>
        bit (le_word (replicate 8 c) :: u64) k"
    proof (cases "k < 32")
      case True
      then have "k div 8 < 4" by simp
      with True k k8 show ?thesis by (simp add: bit_or_iff bit_push_bit_iff bit_ucast_iff bit_le_word)
    next
      case False
      then obtain r where r: "k = 32 + r" by (metis le_Suc_ex not_less)
      then have "r div 8 < 4" "r < 32" using k by simp_all
      moreover have "(32 + r) mod 8 = r mod 8" by presburger
      ultimately show ?thesis using k k8 by (simp add: r bit_or_iff bit_push_bit_iff bit_ucast_iff bit_le_word)
    qed
  qed
  then show "word_bytes 8 (ucast (0x01010101 * ucast c :: u32) OR push_bit 32 (ucast (0x01010101 * ucast c :: u32)) :: u64) = replicate 8 c"
    by (simp only:) (rule copy64, simp)
qed

lemma fill32:
  assumes "mapped m d n" "n < 2 ^ 64" "i + 4 \<le> n"
  shows "store32 (filled m d n c S) (d + of_nat i) (0x01010101 * ucast c) = Some (filled m d n c (S \<union> {i..<i + 4}))"
  using fill_bytes [OF assms] by (simp only: store32_def word_bytes_fill)

lemma fill64:
  assumes "mapped m d n" "n < 2 ^ 64" "i + 8 \<le> n"
  shows "store64 (filled m d n c S) (d + of_nat i)
      (ucast (0x01010101 * ucast c :: u32) OR push_bit 32 (ucast (0x01010101 * ucast c :: u32))) =
    Some (filled m d n c (S \<union> {i..<i + 8}))"
  using fill_bytes [OF assms] by (simp only: store64_def word_bytes_fill)


lemma put32s_Cons: "put32s m s w (x # xs) = do { m \<leftarrow> store32 m (s + x) w; put32s m s w xs }"
proof -
  have "foldl (\<lambda>om off. do { m \<leftarrow> om; store32 m (s + off) w }) None ys = None" for ys
    by (induction ys) auto
  then show ?thesis by (cases "store32 m (s + x) w") (simp_all add: put32s_def)
qed

lemma put32s_filled:
  assumes "mapped m d n" "n < 2 ^ 64" "\<forall>x\<in>set xs. K + x + 4 \<le> n"
  shows "put32s (filled m d n c S) (d + of_nat K) (0x01010101 * ucast c) (map of_nat xs) =
    Some (filled m d n c (S \<union> (\<Union>x\<in>set xs. {K + x..<K + x + 4})))"
  using assms(3)
proof (induction xs arbitrary: S)
  case (Cons x xs)
  have "store32 (filled m d n c S) (d + of_nat K + of_nat x) (0x01010101 * ucast c) =
      Some (filled m d n c (S \<union> {K + x..<K + x + 4}))"
    using fill32 [OF assms(1,2), of "K + x" c S] Cons.prems by (simp add: add.assoc)
  then show ?case using Cons.prems Cons.IH by (simp add: put32s_Cons Un_assoc)
qed (simp add: put32s_def)

lemma memset_loop_filled:
  assumes "mapped m d n" "n < 2 ^ 64" "p + r \<le> n"
  shows "memset_loop (filled m d n c S) (d + of_nat p)
      (ucast (0x01010101 * ucast c :: u32) OR push_bit 32 (ucast (0x01010101 * ucast c :: u32))) (of_nat r) =
    Some (filled m d n c (S \<union> {p..<p + 32 * (r div 32)}))"
  using assms(3)
proof (induction r arbitrary: p S rule: less_induct)
  case (less r)
  have r: "r < 2 ^ 64" using assms(2) less.prems by simp
  have le: "32 \<le> (of_nat r :: u64) \<longleftrightarrow> 32 \<le> r" using r by (simp add: word_le_nat_alt unat_of_nat)
  show ?case
  proof (cases "32 \<le> r")
    case False
    then show ?thesis using le by (simp add: memset_loop.simps)
  next
    case True
    have st: "store64 (filled m d n c T) (d + of_nat p + of_nat i)
      (ucast (0x01010101 * ucast c :: u32) OR push_bit 32 (ucast (0x01010101 * ucast c :: u32))) =
      Some (filled m d n c (T \<union> {p + i..<p + i + 8}))" if "i + 8 \<le> 32" for i T
      using fill64 [OF assms(1,2), of "p + i" c T] that less.prems True by (simp add: add.assoc)
    have un: "S \<union> {p..<p + 8} \<union> {p + 8..<p + 16} \<union> {p + 16..<p + 24} \<union> {p + 24..<p + 32} = S \<union> {p..<p + 32}"
      by auto
    have "(of_nat r - 32 :: u64) = of_nat (r - 32)" using True by (simp add: of_nat_diff)
    then have "memset_loop (filled m d n c S) (d + of_nat p)
      (ucast (0x01010101 * ucast c :: u32) OR push_bit 32 (ucast (0x01010101 * ucast c :: u32))) (of_nat r) =
      memset_loop (filled m d n c (S \<union> {p..<p + 32})) (d + of_nat (p + 32))
      (ucast (0x01010101 * ucast c :: u32) OR push_bit 32 (ucast (0x01010101 * ucast c :: u32))) (of_nat (r - 32))"
      using True le st [of 0] st [of 8] st [of 16] st [of 24] un
      by (subst memset_loop.simps) (simp add: add.assoc)
    also have "\<dots> = Some (filled m d n c (S \<union> {p..<p + 32} \<union> {p + 32..<p + 32 + 32 * ((r - 32) div 32)}))"
      using less.prems True by (intro less.IH) auto
    also have "S \<union> {p..<p + 32} \<union> {p + 32..<p + 32 + 32 * ((r - 32) div 32)} = S \<union> {p..<p + 32 * (r div 32)}"
      using True by (auto simp: le_div_geq)
    finally show ?thesis .
  qed
qed

lemma unat_and_3: "unat (x AND 3) = unat x mod 4" for x :: u64
proof -
  have "(3 :: u64) = mask 2" by (simp add: mask_eq_exp_minus_1)
  then show ?thesis by (simp only: unat_and_mask) simp
qed

lemma bit_minus_4: "bit (- 4 :: u64) k \<longleftrightarrow> 2 \<le> k \<and> k < 64"
proof -
  have "(- 4 :: u64) = NOT (mask 2)" by (simp add: mask_eq_exp_minus_1 not_eq_complement)
  then show ?thesis by (simp only: bit_not_iff bit_mask_iff) auto
qed

lemma bit_four: "bit (4 :: u64) k \<longleftrightarrow> k = 2"
proof -
  have "(4 :: u64) = push_bit 2 1" by simp
  then show ?thesis by (simp only: bit_push_bit_iff bit_1_iff) auto
qed

lemma and_minus_4: "(of_nat r AND - 4 :: u64) = of_nat (4 * (r div 4))"
proof (rule bit_word_eqI)
  fix k assume k: "k < LENGTH(64)"
  have e: "4 * (r div 4) = push_bit 2 (drop_bit 2 r)" by (simp add: push_bit_eq_mult drop_bit_eq_div)
  have "bit (push_bit 2 (drop_bit 2 r)) k \<longleftrightarrow> 2 \<le> k \<and> bit r k"
    by (auto simp only: bit_push_bit_iff_nat bit_drop_bit_eq o_def le_add_diff_inverse)
  then show "bit (of_nat r AND - 4 :: u64) k \<longleftrightarrow> bit (of_nat (4 * (r div 4)) :: u64) k"
    using k by (simp only: bit_and_iff bit_word_of_nat bit_minus_4 e) auto
qed

lemma filled_cong: "S \<inter> {0..<n} = T \<inter> {0..<n} \<Longrightarrow> filled m d n c S = filled m d n c T"
  by (auto simp: filled_def fun_eq_iff set_eq_iff)

lemma memset_words_filled:
  assumes m: "mapped m d n" and n: "n < 2 ^ 64" "8 < n"
    and S: "{0..<4} \<subseteq> S" "{n - 4..<n} \<subseteq> S"
  shows "memset_words (filled m d n c S) d c (of_nat n) = Some (put_bytes m d (replicate n c))"
proof -
  define C :: u32 where "C = 0x01010101 * ucast c"
  define K where "K = unat (- d AND 3)"
  have K4: "K < 4" unfolding K_def unat_and_3 by simp
  have Kw: "- d AND 3 = of_nat K" by (simp add: K_def)
  define N where "N = 4 * ((n - K) div 4)"
  have N: "4 \<le> N" "K + N \<le> n" "n < K + N + 4" "N < 2 ^ 64"   proof -
    have "4 * ((n - K) div 4) \<le> n - K" by simp
    moreover have "n - K < 4 * ((n - K) div 4) + 4" by presburger
    moreover have "1 \<le> (n - K) div 4" using n K4 by simp
    ultimately show "4 \<le> N" "K + N \<le> n" "n < K + N + 4" "N < 2 ^ 64"
      using n K4 unfolding N_def by linarith+
  qed
  have Nw: "(of_nat n - (- d AND 3)) AND - 4 = (of_nat N :: u64)"
  proof -
    have "of_nat n - of_nat K = (of_nat (n - K) :: u64)" using n K4 by (simp add: of_nat_diff)
    then show ?thesis unfolding Kw by (simp only: and_minus_4 N_def)
  qed
  have sub: "of_nat N - of_nat x = (of_nat (N - x) :: u64)" if "x \<le> N" for x using that by (simp add: of_nat_diff)
  have le: "of_nat N \<le> (of_nat x :: u64) \<longleftrightarrow> N \<le> x" if "x < 2 ^ 64" for x
    using that N(4) by (simp add: word_le_nat_alt unat_of_nat)
  define cov where "cov xs = (\<Union>x\<in>set xs. {K + x..<K + x + 4})" for xs
  have put: "put32s (filled m d n c T) (d + of_nat K) C (map of_nat xs) = Some (filled m d n c (T \<union> cov xs))"
    if "\<forall>x\<in>set xs. x + 4 \<le> N" for xs T
    unfolding C_def cov_def using that N by (intro put32s_filled [OF m n(1)]) auto
  define T1 where "T1 = S \<union> cov [0, N - 4]"
  have p1: "put32s (filled m d n c S) (d + of_nat K) C [0, of_nat N - 4] = Some (filled m d n c T1)"
    using put [of "[0, N - 4]" S] N sub [of 4] by (simp add: T1_def)
  define T2 where "T2 = T1 \<union> cov [4, 8, N - 12, N - 8]"
  have p2: "put32s (filled m d n c T1) (d + of_nat K) C [4, 8, of_nat N - 12, of_nat N - 8] = Some (filled m d n c T2)"
    if "8 < N"
  proof -
    have "12 \<le> N" using that unfolding N_def by presburger
    then show ?thesis using put [of "[4, 8, N - 12, N - 8]" T1] sub [of 12] sub [of 8] by (simp add: T2_def)
  qed
  define T3 where "T3 = T2 \<union> cov [12, 16, 20, 24, N - 28, N - 24, N - 20, N - 16]"
  have p3: "put32s (filled m d n c T2) (d + of_nat K) C
      [12, 16, 20, 24, of_nat N - 28, of_nat N - 24, of_nat N - 20, of_nat N - 16] = Some (filled m d n c T3)"
    if "24 < N"
  proof -
    have "28 \<le> N" using that unfolding N_def by presburger
    then show ?thesis using put [of "[12, 16, 20, 24, N - 28, N - 24, N - 20, N - 16]" T2] sub [of 28] sub [of 24] sub [of 20] sub [of 16]
      by (simp add: T3_def)
  qed
  define a where "a = d + of_nat K"
  define k where "k = 24 + unat (a AND 4)"
  have "a AND 4 = 0 \<or> a AND 4 = 4"
  proof (cases "bit a 2")
    case True
    have "a AND 4 = 4" by (rule bit_word_eqI) (simp only: bit_and_iff bit_four, use True in auto)
    then show ?thesis ..
  next
    case False
    have "a AND 4 = 0" by (rule bit_word_eqI) (simp only: bit_and_iff bit_four, use False in auto)
    then show ?thesis ..
  qed
  then have k: "k = 24 \<or> k = 28" and kw: "24 + (a AND 4) = of_nat k"
    by (auto simp: k_def)
  define T4 where "T4 = T3 \<union> {K + k..<K + k + 32 * ((N - k) div 32)}"
  have p4: "memset_loop (filled m d n c T3) (a + (24 + (a AND 4)))
      (ucast C OR push_bit 32 (ucast C)) (of_nat N - (24 + (a AND 4))) = Some (filled m d n c T4)"
    if "24 < N"
  proof -
    have N28: "28 \<le> N" using that unfolding N_def by presburger
    then have "(of_nat N - of_nat k :: u64) = of_nat (N - k)" using k by (intro sub) auto
    moreover have "a + of_nat k = d + of_nat (K + k)" by (simp add: a_def add.assoc)
    moreover have "K + k + (N - k) \<le> n" using k N28 N by auto
    from memset_loop_filled [OF m n(1) this, of c T3]
    have "memset_loop (filled m d n c T3) (d + of_nat (K + k)) (ucast C OR push_bit 32 (ucast C)) (of_nat (N - k)) =
        Some (filled m d n c T4)"
      by (simp only: C_def T4_def)
    ultimately show ?thesis unfolding kw by (simp only:)
  qed
  have fin: "filled m d n c T = put_bytes m d (replicate n c)" if "{0..<n} \<subseteq> T" for T
    using that by (rule filled_all)
  have U: "memset_words (filled m d n c S) d c (of_nat n) =
      do { m \<leftarrow> put32s (filled m d n c S) a C [0, of_nat N - 4];
           if of_nat N \<le> (8 :: u64) then Some m
           else do {
             m \<leftarrow> put32s m a C [4, 8, of_nat N - 12, of_nat N - 8];
             if of_nat N \<le> (24 :: u64) then Some m
             else do {
               m \<leftarrow> put32s m a C [12, 16, 20, 24, of_nat N - 28, of_nat N - 24, of_nat N - 20, of_nat N - 16];
               memset_loop m (a + (24 + (a AND 4))) (ucast C OR push_bit 32 (ucast C)) (of_nat N - (24 + (a AND 4))) } } }"
    unfolding memset_words_def Let_def Nw unfolding Kw C_def [symmetric] a_def [symmetric] ..
  consider "N \<le> 8" | "8 < N" "N \<le> 24" | "24 < N" by linarith
  then show ?thesis
  proof cases
    case 1
    then have "{0..<n} \<subseteq> T1" using S N K4 by (auto simp: T1_def cov_def subset_eq)
    then show ?thesis using 1 p1 le [of 8] fin unfolding U a_def by simp
  next
    case 2
    then have "{0..<n} \<subseteq> T2" using S N K4 by (auto simp: T1_def T2_def cov_def subset_eq)
    then show ?thesis using 2 p1 p2 le [of 8] le [of 24] fin unfolding U a_def by simp
  next
    case 3
    have N28: "28 \<le> N" using 3 unfolding N_def by presburger
    have c3: "{0..<4} \<union> {n - 4..<n} \<union> {K..<K + 28} \<union> {K + N - 28..<K + N} \<subseteq> T3"
    proof -
      have blk: "{K + x..<K + x + 4} \<subseteq> T3"
        if "x \<in> {0, 4, 8, 12, 16, 20, 24} \<or> x \<in> {N - 28, N - 24, N - 20, N - 16, N - 12, N - 8, N - 4}" for x
        using that unfolding T3_def T2_def T1_def cov_def by (elim disjE insertE emptyE) force+
      have run: "{K + y..<K + y + 28} \<subseteq> T3" if y: "\<forall>j<7. {K + (y + 4 * j)..<K + (y + 4 * j) + 4} \<subseteq> T3" for y
      proof
        fix x assume x: "x \<in> {K + y..<K + y + 28}"
        define j where "j = (x - (K + y)) div 4"
        have "x - (K + y) < 7 * 4" using x by auto
        then have "j < 7" unfolding j_def by (rule less_mult_imp_div_less)
        moreover have "4 * j \<le> x - (K + y)" "x - (K + y) < 4 * j + 4" unfolding j_def by presburger+
        then have "x \<in> {K + (y + 4 * j)..<K + (y + 4 * j) + 4}" using x unfolding atLeastLessThan_iff by linarith
        ultimately show "x \<in> T3" using y by blast
      qed
      have j7: "j < 7 \<Longrightarrow> j = 0 \<or> j = 1 \<or> j = 2 \<or> j = 3 \<or> j = 4 \<or> j = 5 \<or> j = 6" for j :: nat by linarith
      have "\<forall>j<7. {K + (0 + 4 * j)..<K + (0 + 4 * j) + 4} \<subseteq> T3"
        using j7 by (intro allI impI blk) fastforce
      from run [OF this] have "{K..<K + 28} \<subseteq> T3" by simp
      moreover have "\<forall>j<7. {K + (N - 28 + 4 * j)..<K + (N - 28 + 4 * j) + 4} \<subseteq> T3"
      proof (intro allI impI blk disjI2)
        fix j :: nat assume "j < 7"
        then have "j = 0 \<or> j = 1 \<or> j = 2 \<or> j = 3 \<or> j = 4 \<or> j = 5 \<or> j = 6" by (rule j7)
        then show "N - 28 + 4 * j \<in> {N - 28, N - 24, N - 20, N - 16, N - 12, N - 8, N - 4}"
          by (elim disjE) (use N28 in auto)
      qed
      from run [OF this] have "{K + N - 28..<K + N} \<subseteq> T3" using N28 by simp
      moreover have "S \<subseteq> T3" by (auto simp: T1_def T2_def T3_def)
      ultimately show ?thesis using S by blast
    qed
    define r where "r = (N - k) mod 32"
    have "N - k = 4 * ((n - K) div 4 - k div 4)" using k by (auto simp: N_def)
    then have "(N - k) mod 4 = 0" by simp
    then have "r mod 4 = 0" unfolding r_def by (subst mod_mod_cancel) simp_all
    moreover have "r < 32" by (simp add: r_def)
    ultimately have "r \<le> 28" by presburger
    moreover have "N - k = 32 * ((N - k) div 32) + r" unfolding r_def by simp
    ultimately have q: "N \<le> k + 32 * ((N - k) div 32) + 28" using k N28 by linarith
    have "{0..<n} \<subseteq> {0..<4} \<union> {n - 4..<n} \<union> {K..<K + 28} \<union> {K + N - 28..<K + N} \<union> {K + k..<K + k + 32 * ((N - k) div 32)}"
      unfolding subset_eq Ball_def Un_iff atLeastLessThan_iff using q K4 N k N28 by (intro allI impI) linarith
    then have "{0..<n} \<subseteq> T4" unfolding T4_def using c3 by blast
    then show ?thesis using 3 p1 p2 p3 p4 le [of 8] le [of 24] fin unfolding U a_def by simp
  qed
qed


lemma memset_correct:
  assumes m: "mapped m d (unat n)"
  shows "memset m d c n = Some (d, put_bytes m d (replicate (unat n) (ucast c)))"
proof -
  define b :: byte where "b = ucast c"
  define k where "k = unat n"
  have n: "n = of_nat k" "k < 2 ^ 64" using unsigned_less [of n, where ?'a = nat] by (simp_all add: k_def)
  have mk: "mapped m d k" using m by (simp add: k_def)
  have le: "n \<le> of_nat x \<longleftrightarrow> k \<le> x" if "x < 2 ^ 64" for x
    using that n by (simp add: word_le_nat_alt unat_of_nat)
  have st: "store8 (filled m d k b S) (d + of_nat i) b = Some (filled m d k b (insert i S))" if "i < k" for i S
    using fill8 [OF mk n(2) that] .
  have sub: "d + (n - of_nat x) = d + of_nat (k - x)" if "x \<le> k" for x using that by (simp add: n of_nat_diff)
  define S6 where "S6 = insert (k - 3) (insert (k - 2) (insert 2 (insert 1 {k - 1, 0})))"
  define S8 where "S8 = insert (k - 4) (insert 3 S6)"
  have S8: "{0..<4} \<subseteq> S8" "6 < k \<Longrightarrow> {k - 4..<k} \<subseteq> S8"
  proof -
    show "{0..<4} \<subseteq> S8"
    proof
      fix x :: nat assume "x \<in> {0..<4}"
      then have "x = 0 \<or> x = 1 \<or> x = 2 \<or> x = 3" by auto
      then show "x \<in> S8" unfolding S8_def S6_def by (elim disjE) simp_all
    qed
    assume k: "6 < k"
    show "{k - 4..<k} \<subseteq> S8"
    proof
      fix x assume "x \<in> {k - 4..<k}"
      then have "k - 4 \<le> x" "x < k" by simp_all
      then have "x = k - 4 \<or> x = k - 3 \<or> x = k - 2 \<or> x = k - 1" using k by linarith
      then show "x \<in> S8" unfolding S8_def S6_def by (elim disjE) simp_all
    qed
  qed
  have st8: "store8 (filled m d k b {}) (d + of_nat 0) b = Some (filled m d k b {0})"
    "store8 (filled m d k b {0}) (d + of_nat (k - 1)) b = Some (filled m d k b {k - 1, 0})"
    "store8 (filled m d k b {k - 1, 0}) (d + of_nat 1) b = Some (filled m d k b (insert 1 {k - 1, 0}))"
    "store8 (filled m d k b (insert 1 {k - 1, 0})) (d + of_nat 2) b = Some (filled m d k b (insert 2 (insert 1 {k - 1, 0})))"
    "store8 (filled m d k b (insert 2 (insert 1 {k - 1, 0}))) (d + of_nat (k - 2)) b =
      Some (filled m d k b (insert (k - 2) (insert 2 (insert 1 {k - 1, 0}))))"
    "store8 (filled m d k b (insert (k - 2) (insert 2 (insert 1 {k - 1, 0})))) (d + of_nat (k - 3)) b = Some (filled m d k b S6)"
    "store8 (filled m d k b S6) (d + of_nat 3) b = Some (filled m d k b (insert 3 S6))"
    "store8 (filled m d k b (insert 3 S6)) (d + of_nat (k - 4)) b = Some (filled m d k b S8)"
    if "6 < k"
    using that unfolding S8_def S6_def by (intro st; simp)+
  consider "k = 0" | "0 < k" "k \<le> 2" | "2 < k" "k \<le> 6" | "6 < k" "k \<le> 8" | "8 < k" by linarith
  then have "memset m d c n = Some (d, put_bytes m d (replicate k b))"
  proof cases
    case 1
    then show ?thesis by (simp add: memset_def n)
  next
    case 2
    have "n \<noteq> 0" using 2 by (metis unat_0 k_def less_irrefl)
    moreover have "filled m d k b {k - 1, 0} = put_bytes m d (replicate k b)" using 2 by (intro filled_all) auto
    ultimately show ?thesis
      using 2 le [of 2] st [of 0 "{}"] st [of "k - 1" "{0}"] sub [of 1]
      by (simp add: memset_def b_def [symmetric])
  next
    case 3
    have "n \<noteq> 0" using 3 by (metis unat_0 k_def less_zeroE)
    moreover have "filled m d k b (insert (k - 3) (insert (k - 2) (insert 2 (insert 1 {k - 1, 0})))) = put_bytes m d (replicate k b)"
      using 3 by (intro filled_all) auto
    moreover have "\<not> n \<le> 2" "n \<le> 6" using 3 le [of 2] le [of 6] by simp_all
    ultimately show ?thesis
      using 3 st [of 0 "{}"] st [of "k - 1" "{0}"] st [of 1 "{k - 1, 0}"] st [of 2 "insert 1 {k - 1, 0}"]
        st [of "k - 2" "insert 2 (insert 1 {k - 1, 0})"] st [of "k - 3" "insert (k - 2) (insert 2 (insert 1 {k - 1, 0}))"]
        sub [of 1] sub [of 2] sub [of 3]
      by (simp add: memset_def b_def [symmetric] del: of_nat_diff)
  next
    case 4
    have "n \<noteq> 0" using 4 by (metis unat_0 k_def less_zeroE)
    moreover have "filled m d k b S8 = put_bytes m d (replicate k b)"
      proof (intro filled_all subsetI)
      fix x assume "x \<in> {0..<k}"
      then have "x \<in> {0..<4} \<or> x \<in> {k - 4..<k}" using 4 by auto
      then show "x \<in> S8" using 4 S8 by auto
    qed
    moreover have "\<not> n \<le> 2" "\<not> n \<le> 6" "n \<le> 8" using 4 le [of 2] le [of 6] le [of 8] by simp_all
    ultimately show ?thesis
      using 4 st8 sub [of 1] sub [of 2] sub [of 3] sub [of 4]
      by (simp add: memset_def b_def [symmetric] del: of_nat_diff)
  next
    case 5
    have "n \<noteq> 0" using 5 by (metis unat_0 k_def less_zeroE)
    moreover have "memset_words (filled m d k b S8) d b n = Some (put_bytes m d (replicate k b))"
    proof -
      have "{k - 4..<k} \<subseteq> S8" using 5 by (intro S8) simp
      from memset_words_filled [OF mk n(2) 5 S8(1) this] show ?thesis by (simp only: n(1))
    qed
    moreover have "\<not> n \<le> 2" "\<not> n \<le> 6" "\<not> n \<le> 8" using 5 le [of 2] le [of 6] le [of 8] by simp_all
    ultimately show ?thesis
      using 5 st8 sub [of 1] sub [of 2] sub [of 3] sub [of 4]
      by (simp add: memset_def b_def [symmetric] del: of_nat_diff)
  qed
  then show ?thesis by (simp add: k_def b_def)
qed

end
