(* ===== verification/StrMove.thy ===== *)
theory StrMove
  imports StrCopy
begin

text \<open>
  Correctness of \<^verbatim>\<open>musl/src/string/memmove.c\<close> for every overlap of the two regions.
\<close>

section \<open>Overlapping moves\<close>

text \<open>
  \<open>fwd\<close> and \<open>bwd\<close> say that copying upwards, respectively downwards, never reads a byte that
  was written before; \<open>dmem\<close> is the memory when the bytes from offset \<open>i\<close> on are written.
\<close>

definition fwd :: "mem \<Rightarrow> addr \<Rightarrow> addr \<Rightarrow> byte list \<Rightarrow> bool" where
  "fwd m d s bs \<longleftrightarrow> bytes_at m s bs \<and> mapped m d (length bs) \<and> length bs < 2 ^ 64 \<and>
     (\<forall>k<length bs. \<forall>j<k. d + of_nat j \<noteq> s + of_nat k)"

definition bwd :: "mem \<Rightarrow> addr \<Rightarrow> addr \<Rightarrow> byte list \<Rightarrow> bool" where
  "bwd m d s bs \<longleftrightarrow> bytes_at m s bs \<and> mapped m d (length bs) \<and> length bs < 2 ^ 64 \<and>
     (\<forall>k<length bs. \<forall>j<length bs. k < j \<longrightarrow> d + of_nat j \<noteq> s + of_nat k)"

definition dmem :: "mem \<Rightarrow> addr \<Rightarrow> byte list \<Rightarrow> nat \<Rightarrow> mem" where
  "dmem m d bs i = put_bytes m (d + of_nat i) (drop i bs)"

lemma bytes_at_part: "bytes_at m s (take k (drop j bs)) \<longleftrightarrow> (\<forall>i. i < k \<longrightarrow> j + i < length bs \<longrightarrow> m (s + of_nat i) = Some (bs ! (j + i)))"
  by (auto simp: bytes_at_nth less_diff_conv add.commute)

lemma fwd_src:
  assumes c: "fwd m d s bs" and k: "i + k \<le> length bs"
  shows "bytes_at (cmem m d bs i) (s + of_nat i) (take k (drop i bs))"
  unfolding bytes_at_part
proof (intro allI impI)
  fix x assume x: "x < k" "i + x < length bs"
  have "cmem m d bs i (s + of_nat (i + x)) = m (s + of_nat (i + x))"
    unfolding cmem_def
  proof (rule put_bytes_other)
    fix j assume "j < length (take i bs)"
    then show "s + of_nat (i + x) \<noteq> d + of_nat j"
      using c x(2) unfolding fwd_def by (metis length_take min_less_iff_conj trans_less_add1)
  qed
  also have "\<dots> = Some (bs ! (i + x))" using c x(2) unfolding fwd_def bytes_at_nth by blast
  finally show "cmem m d bs i (s + of_nat i + of_nat x) = Some (bs ! (i + x))" by (simp add: add.assoc)
qed

lemma fwd_put:
  assumes c: "fwd m d s bs" and k: "i + k \<le> length bs"
  shows "mapped (cmem m d bs i) (d + of_nat i) k"
    and "put_bytes (cmem m d bs i) (d + of_nat i) (take k (drop i bs)) = cmem m d bs (i + k)"
proof -
  have "mapped m d (i + k)" using c k by (auto simp: fwd_def elim: mapped_mono)
  then show "mapped (cmem m d bs i) (d + of_nat i) k" by (simp add: mapped_append cmem_def mapped_put)
  have "put_bytes (put_bytes m d (take i bs)) (d + of_nat (length (take i bs))) (take k (drop i bs)) =
      put_bytes m d (take i bs @ take k (drop i bs))"
    using c k by (intro put_bytes_append) (simp add: fwd_def)
  then show "put_bytes (cmem m d bs i) (d + of_nat i) (take k (drop i bs)) = cmem m d bs (i + k)"
    using k by (simp add: cmem_def take_add)
qed

lemma take1_drop: "i < length bs \<Longrightarrow> take 1 (drop i bs) = [bs ! i]"
  by (simp add: take_Suc_conv_app_nth hd_drop_conv_nth take_Suc)

lemma cp1_fwd:
  assumes c: "fwd m d s bs" and i: "i < length bs"
  shows "cp1 (cstate m d s bs i) = Some (cstate m d s bs (Suc i))"
proof -
  have "cmem m d bs i (s + of_nat i) = Some (bs ! i)"
    using fwd_src [OF c, of i 1] i take1_drop [OF i] by simp
  moreover have "store8 (cmem m d bs i) (d + of_nat i) (bs ! i) = Some (cmem m d bs (Suc i))"
    using fwd_put [OF c, of i 1] i take1_drop [OF i] by (simp add: mapped_Suc store8_put)
  ultimately show ?thesis by (simp add: cp1_def cstate_def add.assoc add.commute)
qed

lemma up_head_fwd:
  assumes c: "fwd m d s bs" and i: "i \<le> length bs"
  shows "\<exists>j\<ge>i. \<exists>r. j \<le> length bs \<and> (r \<longrightarrow> j = length bs) \<and>
    memmove_up_head (cstate m d s bs i) (left bs i) = Some (r, cstate m d s bs j, left bs j)"
  using i
proof (induction "length bs - i" arbitrary: i)
  case 0
  then show ?case
    by (intro exI [of _ i] conjI) (auto simp: memmove_up_head.simps left_def)
next
  case (Suc k)
  have l: "length bs < 2 ^ 64" using c by (simp add: fwd_def)
  have i: "i < length bs" and k: "k = length bs - Suc i" using Suc.hyps(2) by simp_all
  show ?case
  proof (cases "(d + of_nat i) mod 8 = 0")
    case True
    then show ?thesis using i by (intro exI [of _ i]) (auto simp: memmove_up_head.simps cstate_def)
  next
    case False
    have "memmove_up_head (cstate m d s bs i) (left bs i) = memmove_up_head (cstate m d s bs (Suc i)) (left bs (Suc i))"
      using False left_0 [OF l, of i] i cp1_fwd [OF c i] left_sub [of i 1 bs]
      by (subst memmove_up_head.simps) (simp add: cstate_def)
    with Suc.hyps(1) [OF k] i show ?thesis by (metis Suc_leD Suc_leI)
  qed
qed

lemma up_words_fwd:
  assumes c: "fwd m d s bs" and i: "i \<le> length bs"
  shows "\<exists>j\<ge>i. j \<le> length bs \<and>
    memmove_up_words (cstate m d s bs i) (left bs i) = Some (cstate m d s bs j, left bs j)"
  using i
proof (induction "length bs - i" arbitrary: i rule: less_induct)
  case less
  have l: "length bs < 2 ^ 64" using c by (simp add: fwd_def)
  have le: "8 \<le> left bs i \<longleftrightarrow> 8 \<le> length bs - i" using left_le [OF l, of 8 i] by simp
  show ?case
  proof (cases "8 \<le> length bs - i")
    case False
    then show ?thesis using le less.prems by (intro exI [of _ i]) (simp add: memmove_up_words.simps)
  next
    case True
    then have k: "i + 8 \<le> length bs" using less.prems by linarith
    have "load64 (cmem m d bs i) (s + of_nat i) = Some (le_word (take 8 (drop i bs)))"
      using fwd_src [OF c k] k by (intro load64_at) auto
    moreover have "store64 (cmem m d bs i) (d + of_nat i) (le_word (take 8 (drop i bs))) = Some (cmem m d bs (i + 8))"
      using fwd_put [OF c k] k by (simp add: store64_put copy64)
    ultimately have "memmove_up_words (cstate m d s bs i) (left bs i) =
        memmove_up_words (cstate m d s bs (i + 8)) (left bs (i + 8))"
      using le True left_sub [OF k]
      by (subst memmove_up_words.simps) (simp add: cstate_def flip: add.assoc)
    moreover obtain j where "i + 8 \<le> j" "j \<le> length bs"
        "memmove_up_words (cstate m d s bs (i + 8)) (left bs (i + 8)) = Some (cstate m d s bs j, left bs j)"
    proof -
      have "length bs - (i + 8) < length bs - i" using k by linarith
      then show ?thesis using less.hyps [of "i + 8"] k that by blast
    qed
    ultimately show ?thesis by (intro exI [of _ j]) simp
  qed
qed

lemma up_bytes_fwd:
  assumes c: "fwd m d s bs" and i: "i \<le> length bs"
  shows "memmove_up_bytes (cstate m d s bs i) (left bs i) = Some (put_bytes m d bs)"
  using i
proof (induction "length bs - i" arbitrary: i)
  case 0
  then have "i = length bs" by simp
  then show ?case by (subst memmove_up_bytes.simps) (simp add: left_def cstate_def cmem_def)
next
  case (Suc k)
  have l: "length bs < 2 ^ 64" using c by (simp add: fwd_def)
  have i: "i < length bs" and k: "k = length bs - Suc i" using Suc.hyps(2) by simp_all
  have "memmove_up_bytes (cstate m d s bs i) (left bs i) = memmove_up_bytes (cstate m d s bs (Suc i)) (left bs (Suc i))"
    using left_0 [OF l, of i] i cp1_fwd [OF c i] left_sub [of i 1 bs]
    by (subst memmove_up_bytes.simps) simp
  with Suc.hyps(1) [OF k] i show ?case by simp
qed

lemma bwd_src:
  assumes c: "bwd m d s bs" and k: "i + k \<le> length bs"
  shows "bytes_at (dmem m d bs (i + k)) (s + of_nat i) (take k (drop i bs))"
  unfolding bytes_at_part
proof (intro allI impI)
  fix x assume x: "x < k" "i + x < length bs"
  have "dmem m d bs (i + k) (s + of_nat (i + x)) = m (s + of_nat (i + x))"
    unfolding dmem_def
  proof (rule put_bytes_other)
    fix j assume j: "j < length (drop (i + k) bs)"
    then have "i + k + j < length bs" "i + x < i + k + j" using x by auto
    then have "d + of_nat (i + k + j) \<noteq> s + of_nat (i + x)"
      using c x(2) unfolding bwd_def by blast
    then show "s + of_nat (i + x) \<noteq> d + of_nat (i + k) + of_nat j" by (metis add.assoc of_nat_add)
  qed
  also have "\<dots> = Some (bs ! (i + x))" using c x(2) unfolding bwd_def bytes_at_nth by blast
  finally show "dmem m d bs (i + k) (s + of_nat i + of_nat x) = Some (bs ! (i + x))" by (simp add: add.assoc)
qed

lemma bwd_put:
  assumes c: "bwd m d s bs" and k: "i + k \<le> length bs"
  shows "mapped (dmem m d bs (i + k)) (d + of_nat i) k"
    and "put_bytes (dmem m d bs (i + k)) (d + of_nat i) (take k (drop i bs)) = dmem m d bs i"
proof -
  have "mapped m d (i + k)" using c k by (auto simp: bwd_def elim: mapped_mono)
  then show "mapped (dmem m d bs (i + k)) (d + of_nat i) k" by (simp add: mapped_append dmem_def mapped_put)
  have "put_bytes (put_bytes m (d + of_nat i + of_nat (length (take k (drop i bs)))) (drop (i + k) bs)) (d + of_nat i) (take k (drop i bs)) =
      put_bytes m (d + of_nat i) (take k (drop i bs) @ drop (i + k) bs)"
    using c k by (intro put_bytes_prepend) (auto simp: bwd_def)
  moreover have "take k (drop i bs) @ drop (i + k) bs = drop i bs"
    by (metis append_take_drop_id add.commute drop_drop)
  ultimately show "put_bytes (dmem m d bs (i + k)) (d + of_nat i) (take k (drop i bs)) = dmem m d bs i"
    using k by (simp add: dmem_def add.assoc)
qed

lemma cpd_bwd:
  assumes c: "bwd m d s bs" and i: "i < length bs"
  shows "cpd (dmem m d bs (Suc i)) d s (of_nat i) = Some (dmem m d bs i)"
proof -
  have "dmem m d bs (Suc i) (s + of_nat i) = Some (bs ! i)"
    using bwd_src [OF c, of i 1] i take1_drop [OF i] by simp
  moreover have "store8 (dmem m d bs (Suc i)) (d + of_nat i) (bs ! i) = Some (dmem m d bs i)"
    using bwd_put [OF c, of i 1] i take1_drop [OF i] by (simp add: mapped_Suc store8_put)
  ultimately show ?thesis by (simp add: cpd_def)
qed

lemma down_head_bwd:
  assumes c: "bwd m d s bs" and i: "i \<le> length bs"
  shows "\<exists>j r. j \<le> length bs \<and> (r \<longrightarrow> j = 0) \<and>
    memmove_down_head (dmem m d bs i) d s (of_nat i) = Some (r, dmem m d bs j, of_nat j)"
  using i
proof (induction i)
  case 0
  then show ?case
    by (intro exI [of _ 0] exI [of _ "d mod 8 \<noteq> 0"]) (auto simp: memmove_down_head.simps)
next
  case (Suc i)
  show ?case
  proof (cases "(d + of_nat (Suc i)) mod 8 = 0")
    case True
    then show ?thesis using Suc.prems
      by (intro exI [of _ "Suc i"] exI [of _ False]) (simp add: memmove_down_head.simps)
  next
    case False
    have l: "length bs < 2 ^ 64" using c by (simp add: bwd_def)
    then have nz: "(of_nat (Suc i) :: addr) \<noteq> 0" using Suc.prems by (simp only: word_of_nat_eq_0_iff) (auto dest: dvd_imp_le)
    have "memmove_down_head (dmem m d bs (Suc i)) d s (of_nat (Suc i)) = memmove_down_head (dmem m d bs i) d s (of_nat i)"
      using False nz cpd_bwd [OF c, of i] Suc.prems by (subst memmove_down_head.simps) simp
    with Suc show ?thesis by simp
  qed
qed

lemma down_words_bwd:
  assumes c: "bwd m d s bs" and i: "i \<le> length bs"
  shows "\<exists>j\<le>length bs. memmove_down_words (dmem m d bs i) d s (of_nat i) = Some (dmem m d bs j, of_nat j)"
  using i
proof (induction i rule: less_induct)
  case (less i)
  have l: "length bs < 2 ^ 64" using c by (simp add: bwd_def)
  have le: "8 \<le> (of_nat i :: addr) \<longleftrightarrow> 8 \<le> i" using less.prems l by (simp add: word_le_nat_alt unat_of_nat)
  show ?case
  proof (cases "8 \<le> i")
    case False
    then show ?thesis using le less.prems by (intro exI [of _ i]) (simp add: memmove_down_words.simps)
  next
    case True
    define k where "k = i - 8"
    have i: "i = k + 8" using True by (simp add: k_def)
    have kb: "k + 8 \<le> length bs" using less.prems i by simp
    have "load64 (dmem m d bs i) (s + of_nat k) = Some (le_word (take 8 (drop k bs)))"
      using bwd_src [OF c kb] kb unfolding i by (intro load64_at) auto
    moreover have "store64 (dmem m d bs i) (d + of_nat k) (le_word (take 8 (drop k bs))) = Some (dmem m d bs k)"
      using bwd_put [OF c kb] kb unfolding i by (simp add: store64_put copy64)
    moreover have "(of_nat i :: addr) - 8 = of_nat k" by (simp add: i)
    ultimately have "memmove_down_words (dmem m d bs i) d s (of_nat i) = memmove_down_words (dmem m d bs k) d s (of_nat k)"
      using le True by (subst memmove_down_words.simps) simp
    then show ?thesis using less.IH [of k] i less.prems by simp
  qed
qed

lemma down_bytes_bwd:
  assumes c: "bwd m d s bs" and i: "i \<le> length bs"
  shows "memmove_down_bytes (dmem m d bs i) d s (of_nat i) = Some (dmem m d bs 0)"
  using i
proof (induction i)
  case 0
  then show ?case by (simp add: memmove_down_bytes.simps)
next
  case (Suc i)
  have l: "length bs < 2 ^ 64" using c by (simp add: bwd_def)
  then have nz: "(of_nat (Suc i) :: addr) \<noteq> 0" using Suc.prems by (simp only: word_of_nat_eq_0_iff) (auto dest: dvd_imp_le)
  show ?case
    using nz cpd_bwd [OF c, of i] Suc by (subst memmove_down_bytes.simps) simp
qed

text \<open>
  The contract of \<open>memmove\<close>: for regions that do not wrap, whatever the overlap, the
  destination ends up with the bytes the source had.
\<close>

lemma no_wrap_less:
  fixes a b :: addr
  assumes "unat a + n < 2 ^ 64" "unat b + n < 2 ^ 64" "i \<le> n" "j \<le> n"
  shows "a + of_nat i = b + of_nat j \<longleftrightarrow> unat a + i = unat b + j"
proof -
  have "unat (a + of_nat i) = unat a + i" "unat (b + of_nat j) = unat b + j"
    using assms by (simp_all add: unat_word_ariths unat_of_nat)
  then show ?thesis by (metis word_unat_eq_iff)
qed

lemma memmove_correct:
  assumes b: "bytes_at m s bs" and w: "mapped m d (length bs)" and n: "unat n = length bs"
    and s: "unat s + length bs < 2 ^ 64" and d: "unat d + length bs < 2 ^ 64"
  shows "memmove m d s n = Some (d, put_bytes m d bs)"
proof -
  have l: "length bs < 2 ^ 64" using s by simp
  have nn: "n = of_nat (length bs)" using n by (metis of_nat_unat ucast_id)
  have us: "unat (s + n) = unat s + length bs" "unat (d + n) = unat d + length bs"
    using s d n by (simp_all add: unat_word_ariths)
  have eq: "d + of_nat i = s + of_nat j \<longleftrightarrow> unat d + i = unat s + j" if "i \<le> length bs" "j \<le> length bs" for i j
    using no_wrap_less [OF d s that] .
  consider (same) "d = s" | (apart) "d \<noteq> s" "s + n \<le> d \<or> d + n \<le> s"
    | (up) "d < s" "\<not> (s + n \<le> d \<or> d + n \<le> s)" | (down) "s < d" "\<not> (s + n \<le> d \<or> d + n \<le> s)"
    by (metis linorder_neqE)
  then show ?thesis
  proof cases
    case same
    have "put_bytes m d bs = m"
    proof
      fix a
      show "put_bytes m d bs a = m a"
        using b same by (auto simp: put_bytes_def bytes_at_nth dest: spec [of _ "unat (a - d)"])
    qed
    with same show ?thesis by (simp add: memmove_def)
  next
    case apart
    then have "unat s + length bs \<le> unat d \<or> unat d + length bs \<le> unat s" by (simp add: word_le_nat_alt us)
    then have "apart d (length bs) s (length bs)" by (auto simp: apart_def eq)
    then have "copying m d s bs" using b w l by (simp add: copying_def)
    from memcpy_correct [OF this n] apart show ?thesis by (simp add: memmove_def)
  next
    case up
    then have "unat d < unat s" by (simp add: word_less_nat_alt)
    then have c: "fwd m d s bs" using b w l by (auto simp: fwd_def eq)
    have st: "(m, d, s) = cstate m d s bs 0" "n = left bs 0" by (simp_all add: cstate_def cmem_def left_def nn)
    obtain j r where h: "j \<le> length bs" "r \<longrightarrow> j = length bs"
        "memmove_up_head (m, d, s) n = Some (r, cstate m d s bs j, left bs j)"
      using up_head_fwd [OF c, of 0] unfolding st by blast
    obtain j' where h': "j' \<le> length bs"
        "memmove_up_words (cstate m d s bs j) (left bs j) = Some (cstate m d s bs j', left bs j')"
      using up_words_fwd [OF c h(1)] by blast
    have fin: "fst (cstate m d s bs (length bs)) = put_bytes m d bs" by (simp add: cstate_def cmem_def)
    have "memmove_up_bytes (m, d, s) n = Some (put_bytes m d bs)"
      using up_bytes_fwd [OF c, of 0] unfolding st by simp
    then show ?thesis
      using up h h' up_bytes_fwd [OF c h'(1)] fin by (cases r) (auto simp: memmove_def)
  next
    case down
    then have "unat s < unat d" by (simp add: word_less_nat_alt)
    then have c: "bwd m d s bs" using b w l by (auto simp: bwd_def eq)
    have st: "m = dmem m d bs (length bs)" by (simp add: dmem_def)
    have fin: "dmem m d bs 0 = put_bytes m d bs" by (simp add: dmem_def)
    obtain j r where h: "j \<le> length bs" "r \<longrightarrow> j = 0"
        "memmove_down_head m d s n = Some (r, dmem m d bs j, of_nat j)"
      using down_head_bwd [OF c, of "length bs"] st nn by auto
    obtain j' where h': "j' \<le> length bs"
        "memmove_down_words (dmem m d bs j) d s (of_nat j) = Some (dmem m d bs j', of_nat j')"
      using down_words_bwd [OF c h(1)] by blast
    have "memmove_down_bytes m d s n = Some (put_bytes m d bs)"
      using down_bytes_bwd [OF c, of "length bs"] st nn fin by simp
    then show ?thesis
      using down h h' down_bytes_bwd [OF c h'(1)] fin by (cases r) (auto simp: memmove_def)
  qed
qed

end
