(* ===== verification/Stdio.thy ===== *)
theory Stdio
  imports Xen StrMove
begin

text \<open>
  Buffered output of \<^verbatim>\<open>musl/src/stdio\<close>. A \<open>FILE\<close> is a record; its buffer is in memory, and
  its \<open>write\<close> member is an argument of the functions that call it. The locks are not modelled:
  the port runs a single thread.
\<close>

section \<open>Streams\<close>

text \<open>\<open>cookie\<close> is the structure behind \<open>f->cookie\<close> in \<^verbatim>\<open>vsnprintf.c\<close>.\<close>

record cookie =
  ck_s :: addr
  ck_n :: u64

record FILE =
  flags :: u32
  rpos :: addr
  rend :: addr
  wend :: addr
  wpos :: addr
  wbase :: addr
  buf :: addr
  buf_size :: u64
  fd :: u32
  mode :: "8 word"
  lbf :: "8 word"
  fcookie :: cookie

type_synonym 'x writer = "FILE \<Rightarrow> addr \<Rightarrow> u64 \<Rightarrow> (u64 \<times> FILE, 'x) run"

definition F_NOWR :: u32 where "F_NOWR = 8"
definition F_ERR :: u32 where "F_ERR = 32"

definition towrite :: "FILE \<Rightarrow> u32 \<times> FILE" where
  "towrite f =
     (let f = f\<lparr>mode := mode f OR (mode f - 1)\<rparr>
      in if flags f AND F_NOWR \<noteq> 0 then (- 1, f\<lparr>flags := flags f OR F_ERR\<rparr>)
         else (0, f\<lparr>rpos := 0, rend := 0, wpos := buf f, wbase := buf f, wend := buf f + buf_size f\<rparr>))"

text \<open>\<open>for (i=l; i && s[i-1] != '\n'; i--);\<close>\<close>

partial_function (option) last_line :: "mem \<Rightarrow> addr \<Rightarrow> u64 \<Rightarrow> u64 option" where
  "last_line m s i =
     (if i = 0 then Some 0
      else do { b \<leftarrow> m (s + (i - 1)); if b \<noteq> 10 then last_line m s (i - 1) else Some i })"

text \<open>The copy into the buffer at the end of \<open>__fwritex\<close>, \<open>i\<close> bytes being written already.\<close>

definition fwritex_buf :: "addr \<Rightarrow> u64 \<Rightarrow> u64 \<Rightarrow> FILE \<Rightarrow> (u64 \<times> FILE, 'x) run" where
  "fwritex_buf s l i f =
     seq (act (\<lambda>m. memcpy m (wpos f) s l)) (\<lambda>_. ret (l + i, f\<lparr>wpos := wpos f + l\<rparr>))"

definition fwritex :: "'x writer \<Rightarrow> addr \<Rightarrow> u64 \<Rightarrow> FILE \<Rightarrow> (u64 \<times> FILE, 'x) run" where
  "fwritex write s l f =
     (let (err, f) = (if wend f = 0 then towrite f else (0, f))
      in if err \<noteq> 0 then ret (0, f)
         else if wend f - wpos f < l then write f s l
         else if 0 <=s lbf f then
           seq (rd (\<lambda>m. last_line m s l)) (\<lambda>i.
             if i \<noteq> 0 then
               seq (write f s i) (\<lambda>(n, f).
                 if n < i then ret (n, f) else fwritex_buf (s + i) (l - i) i f)
             else fwritex_buf s l i f)
         else fwritex_buf s l 0 f)"

definition fwrite :: "'x writer \<Rightarrow> addr \<Rightarrow> u64 \<Rightarrow> u64 \<Rightarrow> FILE \<Rightarrow> (u64 \<times> FILE, 'x) run" where
  "fwrite write src sz nmemb f =
     (let l = sz * nmemb; nmemb = (if sz = 0 then 0 else nmemb)
      in seq (fwritex write src l f) (\<lambda>(k, f). ret (if k = l then nmemb else k div sz, f)))"

definition fputs :: "'x writer \<Rightarrow> addr \<Rightarrow> FILE \<Rightarrow> (u32 \<times> FILE, 'x) run" where
  "fputs write s f =
     seq (rd (\<lambda>m. strlen m s)) (\<lambda>l.
     seq (fwrite write s 1 l f) (\<lambda>(k, f). ret (if k = l then 0 else - 1, f)))"

text \<open>\<open>slot\<close> is the stack slot of the local \<open>c\<close> whose address is passed to \<open>write\<close>.\<close>

definition overflow :: "'x writer \<Rightarrow> addr \<Rightarrow> FILE \<Rightarrow> u32 \<Rightarrow> (u32 \<times> FILE, 'x) run" where
  "overflow write slot f c0 =
     (let c = ucast c0 :: byte; (err, f) = (if wend f = 0 then towrite f else (0, f))
      in if err \<noteq> 0 then ret (- 1, f)
         else if wpos f < wend f \<and> (ucast c :: u32) \<noteq> scast (lbf f) then
           seq (wr (\<lambda>m. store8 m (wpos f) c)) (\<lambda>_. ret (ucast c, f\<lparr>wpos := wpos f + 1\<rparr>))
         else
           seq (wr (\<lambda>m. store8 m slot c)) (\<lambda>_.
           seq (write f slot 1) (\<lambda>(n, f). ret (if n \<noteq> 1 then - 1 else ucast c, f))))"

definition putc_unlocked :: "'x writer \<Rightarrow> addr \<Rightarrow> u32 \<Rightarrow> FILE \<Rightarrow> (u32 \<times> FILE, 'x) run" where
  "putc_unlocked write slot c f =
     (if (ucast (ucast c :: byte) :: u32) \<noteq> scast (lbf f) \<and> wpos f < wend f then
        seq (wr (\<lambda>m. store8 m (wpos f) (ucast c))) (\<lambda>_.
          ret (ucast (ucast c :: byte), f\<lparr>wpos := wpos f + 1\<rparr>))
      else overflow write slot f c)"

text \<open>\<open>fputc\<close> on a stream that needs no lock.\<close>

definition fputc :: "'x writer \<Rightarrow> addr \<Rightarrow> u32 \<Rightarrow> FILE \<Rightarrow> (u32 \<times> FILE, 'x) run" where
  "fputc write slot c f = putc_unlocked write slot c f"

definition fflush :: "'x writer \<Rightarrow> (FILE \<Rightarrow> u64 \<Rightarrow> (FILE, 'x) run) \<Rightarrow> FILE \<Rightarrow> (u32 \<times> FILE, 'x) run" where
  "fflush write seek f =
     seq (if wbase f < wpos f then seq (write f 0 0) (\<lambda>(_, f). ret (wpos f = 0, f)) else ret (False, f))
       (\<lambda>(failed, f).
         if failed then ret (- 1, f)
         else seq (if rpos f < rend f then seek f (rpos f - rend f) else ret f) (\<lambda>f.
           ret (0, f\<lparr>wpos := 0, wbase := 0, wend := 0, rpos := 0, rend := 0\<rparr>)))"

section \<open>Writing to a descriptor\<close>

text \<open>
  \<open>__stdio_write\<close> over the system call \<open>writev\<close>, whose second argument is the list of the
  vectors from \<open>iov\<close> on.
\<close>

type_synonym iovec = "addr \<times> u64"

fun iov_len :: "iovec list \<Rightarrow> u64" where
  "iov_len [] = 0"
| "iov_len ((base, n) # iov) = n"

text \<open>The step past \<open>cnt\<close> bytes; going past the last vector is undefined.\<close>

fun iov_advance :: "u64 \<Rightarrow> iovec list \<Rightarrow> iovec list option" where
  "iov_advance cnt [] = None"
| "iov_advance cnt ((base, n) # iov) =
     (if n < cnt then
        (case iov of [] \<Rightarrow> None
         | (base', n') # iov' \<Rightarrow> Some ((base' + (cnt - n), n' - (cnt - n)) # iov'))
      else Some ((base + cnt, n - cnt) # iov))"

partial_function (option) stdio_write_loop ::
  "(u32 \<Rightarrow> iovec list \<Rightarrow> (u64, 'x) run) \<Rightarrow> FILE \<Rightarrow> u64 \<Rightarrow> u64 \<Rightarrow> iovec list \<Rightarrow>
    mem \<Rightarrow> 'x \<Rightarrow> (u64 \<times> FILE, 'x) outcome option" where
  "stdio_write_loop writev f len remaining iov m x =
     seq (writev (fd f) iov) (\<lambda>cnt m x.
       if cnt = remaining then
         ret (len, f\<lparr>wend := buf f + buf_size f, wpos := buf f, wbase := buf f\<rparr>) m x
       else if cnt <s 0 then
         ret (if length iov = 2 then 0 else len - iov_len iov,
              f\<lparr>wpos := 0, wbase := 0, wend := 0, flags := flags f OR F_ERR\<rparr>) m x
       else
         Option.bind (iov_advance cnt iov) (\<lambda>iov.
           stdio_write_loop writev f len (remaining - cnt) iov m x)) m x"

definition stdio_write :: "(u32 \<Rightarrow> iovec list \<Rightarrow> (u64, 'x) run) \<Rightarrow> 'x writer" where
  "stdio_write writev f s len m x =
     (let iovs = [(wbase f, wpos f - wbase f), (s, len)]
      in stdio_write_loop writev f len (wpos f - wbase f + len) iovs m x)"

section \<open>Writing to a string\<close>

text \<open>One half of \<open>sn_write\<close>: as much of the \<open>l\<close> bytes at \<open>s\<close> as the cookie has room for.\<close>

definition sn_put :: "addr \<Rightarrow> u64 \<Rightarrow> cookie \<Rightarrow> (cookie, 'x) run" where
  "sn_put s l c =
     (let k = (if ck_n c < l then ck_n c else l)
      in if k \<noteq> 0 then
           seq (act (\<lambda>m. memcpy m (ck_s c) s k)) (\<lambda>_. ret \<lparr>ck_s = ck_s c + k, ck_n = ck_n c - k\<rparr>)
         else ret c)"

definition sn_write :: "'x writer" where
  "sn_write f s l =
     seq (sn_put (wbase f) (wpos f - wbase f) (fcookie f)) (\<lambda>c.
     seq (sn_put s l c) (\<lambda>c.
     seq (wr (\<lambda>m. store8 m (ck_s c) 0)) (\<lambda>_.
       ret (l, f\<lparr>fcookie := c, wpos := buf f, wbase := buf f\<rparr>))))"

section \<open>The contract of a stream\<close>

definition reg :: "addr \<Rightarrow> nat \<Rightarrow> addr set" where
  "reg a n = (\<lambda>i. a + of_nat i) ` {0..<n}"

text \<open>Outside \<open>R\<close> the memory is the same, and what is mapped stays so.\<close>

definition same_but :: "addr set \<Rightarrow> mem \<Rightarrow> mem \<Rightarrow> bool" where
  "same_but R m m' \<longleftrightarrow> (\<forall>a. a \<notin> R \<longrightarrow> m' a = m a) \<and> (\<forall>a. m' a = None \<longleftrightarrow> m a = None)"

lemma same_but_mapped: "same_but R m m' \<Longrightarrow> mapped m' a n = mapped m a n"
  by (simp add: same_but_def mapped_def)

lemma same_but_word_mapped: "same_but R m m' \<Longrightarrow> word_mapped m' = word_mapped m"
  by (simp add: same_but_def word_mapped_def)

lemma same_but_refl [simp]: "same_but R m m"
  by (simp add: same_but_def)

lemma same_but_trans: "same_but R m m' \<Longrightarrow> same_but R m' m'' \<Longrightarrow> same_but R m m''"
  by (simp add: same_but_def)

lemma same_but_mono: "same_but R m m' \<Longrightarrow> R \<subseteq> S \<Longrightarrow> same_but S m m'"
  by (auto simp: same_but_def)

lemma reg_mono: "k \<le> n \<Longrightarrow> reg a k \<subseteq> reg a n"
  by (auto simp: reg_def)

lemma reg_shift: "i + k \<le> n \<Longrightarrow> reg (a + of_nat i) k \<subseteq> reg a n"
proof
  fix y assume "i + k \<le> n" "y \<in> reg (a + of_nat i) k"
  then obtain j where "j < k" "y = a + of_nat (i + j)" by (auto simp: reg_def add.assoc)
  moreover from this have "i + j \<in> {0..<n}" using \<open>i + k \<le> n\<close> by simp
  ultimately show "y \<in> reg a n" unfolding reg_def by blast
qed

lemma apart_reg: "apart a n b k \<longleftrightarrow> reg a n \<inter> reg b k = {}"
proof
  assume "apart a n b k"
  then show "reg a n \<inter> reg b k = {}" by (auto simp: apart_def reg_def)
next
  assume d: "reg a n \<inter> reg b k = {}"
  have "a + of_nat i \<in> reg a n" if "i < n" for i using that by (simp add: reg_def)
  moreover have "b + of_nat j \<in> reg b k" if "j < k" for j using that by (simp add: reg_def)
  ultimately show "apart a n b k" unfolding apart_def using d by (metis disjoint_iff)
qed

lemma put_bytes_same_but:
  assumes "mapped m d (length bs)"
  shows "same_but (reg d (length bs)) m (put_bytes m d bs)"
  unfolding same_but_def
proof (intro conjI allI impI)
  fix a assume "a \<notin> reg d (length bs)"
  then show "put_bytes m d bs a = m a" by (intro put_bytes_other) (auto simp: reg_def)
qed (rule dom_put [OF assms])

lemma bytes_at_same_but:
  "same_but R m m' \<Longrightarrow> reg a (length bs) \<inter> R = {} \<Longrightarrow> bytes_at m' a bs = bytes_at m a bs"
proof -
  assume s: "same_but R m m'" and d: "reg a (length bs) \<inter> R = {}"
  have "m' (a + of_nat i) = m (a + of_nat i)" if "i < length bs" for i
  proof -
    have "a + of_nat i \<in> reg a (length bs)" using that by (simp add: reg_def)
    then have "a + of_nat i \<notin> R" using d by blast
    with s show ?thesis by (simp add: same_but_def)
  qed
  then show ?thesis by (simp add: bytes_at_nth)
qed

text \<open>The bytes in the buffer of an active stream that are still to be written.\<close>

definition pending :: "FILE \<Rightarrow> mem \<Rightarrow> byte list \<Rightarrow> bool" where
  "pending f m B \<longleftrightarrow>
     wbase f = buf f \<and> wpos f = buf f + of_nat (length B) \<and> wend f = buf f + buf_size f \<and> wend f \<noteq> 0 \<and>
     length B \<le> unat (buf_size f) \<and> bytes_at m (buf f) B \<and> mapped m (buf f) (unat (buf_size f))"

definition buf_reg :: "FILE \<Rightarrow> addr set" where
  "buf_reg f = reg (buf f) (unat (buf_size f))"

text \<open>The members that writing leaves alone.\<close>

definition core :: "FILE \<Rightarrow> addr \<times> u64 \<times> u32 \<times> addr \<times> addr" where
  "core f = (buf f, buf_size f, flags f, rpos f, rend f)"

text \<open>
  What \<open>fwritex\<close> and its clients rely on: \<open>wfun\<close> (the member \<open>write\<close>) hands the pending bytes and then its own to
  the sink, empties the buffer and changes nothing outside \<open>foot\<close>. \<open>holds f m x T\<close>: the sink
  has received \<open>T\<close>.
\<close>

locale stream_writer =
  fixes wfun :: "'x writer" and foot :: "addr set"
    and holds :: "FILE \<Rightarrow> mem \<Rightarrow> 'x \<Rightarrow> byte list \<Rightarrow> bool"
  assumes buffer_inside: "holds f m x T \<Longrightarrow> buf_reg f \<subseteq> foot"
    and holds_frame: "holds f m x T \<Longrightarrow> (\<And>a. a \<in> foot - buf_reg f \<Longrightarrow> m' a = m a) \<Longrightarrow>
      holds (f\<lparr>wpos := p\<rparr>) m' x T"
    and write_ok: "holds f m x T \<Longrightarrow> pending f m B \<Longrightarrow> bytes_at m s D \<Longrightarrow> length D < 2 ^ 62 \<Longrightarrow>
      reg s (length D) \<inter> foot = {} \<Longrightarrow>
      \<exists>f' m' x'. wfun f s (of_nat (length D)) m x = Some (Done (of_nat (length D), f') m' x') \<and>
        holds f' m' x' (T @ B @ D) \<and> pending f' m' [] \<and> same_but foot m m' \<and>
        core f' = core f"
begin

definition stream :: "FILE \<Rightarrow> mem \<Rightarrow> 'x \<Rightarrow> byte list \<Rightarrow> bool" where
  "stream f m x T \<longleftrightarrow> (\<exists>T0 B. T = T0 @ B \<and> holds f m x T0 \<and> pending f m B)"

lemma stream_frame:
  assumes "stream f m x T" "\<And>a. a \<in> foot \<Longrightarrow> m' a = m a"
  shows "stream f m' x T"
proof -
  from assms(1) obtain T0 B where T: "T = T0 @ B" "holds f m x T0" "pending f m B"
    by (auto simp: stream_def)
  have b: "buf_reg f \<subseteq> foot" using T(2) by (rule buffer_inside)
  have "holds (f\<lparr>wpos := wpos f\<rparr>) m' x T0" using T(2) assms(2) by (intro holds_frame) auto
  moreover have in_buf: "m' (buf f + of_nat i) = m (buf f + of_nat i)" if "i < unat (buf_size f)" for i
  proof -
    have "buf f + of_nat i \<in> buf_reg f" using that by (simp add: buf_reg_def reg_def)
    with b assms(2) show ?thesis by blast
  qed
  have "pending f m' B"
    using T(3) in_buf by (auto simp: pending_def bytes_at_nth mapped_def)
  ultimately show ?thesis using T(1) by (auto simp: stream_def)
qed

lemma fwritex_buf_ok:
  assumes h: "holds f m x T" and p: "pending f m B" and b: "bytes_at m s D"
    and r: "reg s (length D) \<inter> foot = {}" and fits: "length B + length D \<le> unat (buf_size f)"
  shows "\<exists>f' m'. fwritex_buf s (of_nat (length D)) i f m x = Some (Done (of_nat (length D) + i, f') m' x) \<and>
    stream f' m' x (T @ B @ D) \<and> same_but foot m m' \<and> core f' = core f"
proof -
  have sz: "unat (buf_size f) < 2 ^ 64" using unsigned_less [of "buf_size f", where ?'a = nat] by simp
  have w: "wpos f = buf f + of_nat (length B)" using p by (simp add: pending_def)
  have dst: "reg (wpos f) (length D) \<subseteq> buf_reg f"
    unfolding w buf_reg_def using fits by (intro reg_shift)
  have foot: "buf_reg f \<subseteq> foot" using h by (rule buffer_inside)
  have "mapped m (buf f) (length B + length D)" using p fits by (auto simp: pending_def elim: mapped_mono)
  then have "mapped m (wpos f) (length D)" unfolding w by (simp add: mapped_append)
  moreover have "apart (wpos f) (length D) s (length D)"
    unfolding apart_reg using dst foot r by blast
  ultimately have c: "copying m (wpos f) s D" using b fits sz by (simp add: copying_def)
  define m' where "m' = put_bytes m (wpos f) D"
  have cp: "memcpy m (wpos f) s (of_nat (length D)) = Some (wpos f, m')"
    unfolding m'_def using fits sz by (intro memcpy_correct [OF c]) (simp add: unat_of_nat)
  have sb: "same_but (buf_reg f) m m'"
    unfolding m'_def using \<open>mapped m (wpos f) (length D)\<close> dst by (rule same_but_mono [OF put_bytes_same_but])
  define f' where "f' = f\<lparr>wpos := wpos f + of_nat (length D)\<rparr>"
  have "holds f' m' x T"
    unfolding f'_def using h sb by (intro holds_frame) (auto simp: same_but_def)
  moreover have "pending f' m' (B @ D)"
  proof -
    have "bytes_at m' (buf f) (B @ D)"
      unfolding m'_def w using p fits sz by (intro bytes_at_grow) (auto simp: pending_def)
    then show ?thesis
      using p fits unfolding f'_def by (auto simp: pending_def m'_def mapped_put add.assoc)
  qed
  ultimately have "stream f' m' x (T @ B @ D)" by (auto simp: stream_def)
  moreover have "fwritex_buf s (of_nat (length D)) i f m x = Some (Done (of_nat (length D) + i, f') m' x)"
    using cp by (simp add: fwritex_buf_def act_def seq_def ret_def f'_def)
  ultimately show ?thesis using same_but_mono [OF sb foot] by (auto simp: f'_def core_def)
qed

end

lemma last_line_le:
  "n < 2 ^ 64 \<Longrightarrow> n \<le> length D \<Longrightarrow> bytes_at m s D \<Longrightarrow> \<exists>i\<le>n. last_line m s (of_nat n) = Some (of_nat i)"
proof (induction n)
  case 0
  then show ?case by (simp add: last_line.simps)
next
  case (Suc n)
  then have nz: "(of_nat (Suc n) :: u64) \<noteq> 0" by (simp only: word_of_nat_eq_0_iff) (auto dest: dvd_imp_le)
  have l: "last_line m s (of_nat (Suc n)) = (if D ! n \<noteq> 10 then last_line m s (of_nat n) else Some (of_nat (Suc n)))"
    using Suc.prems nz by (subst last_line.simps) (simp add: bytes_at_nth)
  have "\<exists>i\<le>n. last_line m s (of_nat n) = Some (of_nat i)" using Suc by simp
  then obtain i where "i \<le> n" "last_line m s (of_nat n) = Some (of_nat i)" by blast
  then show ?case unfolding l by (cases "D ! n = 10") (auto simp: le_Suc_eq simp del: of_nat_Suc)
qed

context stream_writer
begin

lemma stream_wend: "stream f m x T \<Longrightarrow> wend f \<noteq> 0"
  by (auto simp: stream_def pending_def)

lemma stream_written:
  assumes h: "holds f m x T0" and p: "pending f m B" and b: "bytes_at m s D"
    and l: "length D < 2 ^ 62" and r: "reg s (length D) \<inter> foot = {}"
  shows "\<exists>f' m' x'. wfun f s (of_nat (length D)) m x = Some (Done (of_nat (length D), f') m' x') \<and>
    stream f' m' x' (T0 @ B @ D) \<and> same_but foot m m' \<and> core f' = core f"
proof -
  obtain f' m' x' where w: "wfun f s (of_nat (length D)) m x = Some (Done (of_nat (length D), f') m' x')"
      "holds f' m' x' (T0 @ B @ D)" "pending f' m' []" "same_but foot m m'" "core f' = core f"
    using write_ok [OF h p b l r] by blast
  have "stream f' m' x' (T0 @ B @ D)" unfolding stream_def
    using w(2,3) by (intro exI [of _ "T0 @ B @ D"] exI [of _ "[]"]) simp
  with w show ?thesis by blast
qed

lemma fwritex_ok:
  assumes s: "stream f m x T" and b: "bytes_at m s D" and l: "length D < 2 ^ 62"
    and r: "reg s (length D) \<inter> foot = {}"
  shows "\<exists>f' m' x'. fwritex wfun s (of_nat (length D)) f m x = Some (Done (of_nat (length D), f') m' x') \<and>
    stream f' m' x' (T @ D) \<and> same_but foot m m' \<and> core f' = core f"
    (is "\<exists>f' m' x'. ?fw = _ \<and> ?Q f' m' x'")
proof -
  obtain T0 B where T: "T = T0 @ B" and h: "holds f m x T0" and p: "pending f m B"
    using s by (auto simp: stream_def)
  have room: "unat (wend f - wpos f) = unat (buf_size f) - length B"
  proof -
    have "length B \<le> unat (buf_size f)" "wend f - wpos f = buf_size f - of_nat (length B)"
      using p by (simp_all add: pending_def)
    moreover from this(1) have "unat (buf_size f - of_nat (length B)) = unat (buf_size f) - length B"
    proof -
      have "length B < 2 ^ 64" using p unsigned_less [of "buf_size f", where ?'a = nat] by (simp add: pending_def)
      then have "unat (of_nat (length B) :: u64) = length B" by (simp add: unat_of_nat)
      with p show ?thesis by (subst unat_sub) (simp_all add: pending_def word_le_nat_alt)
    qed
    ultimately show ?thesis by simp
  qed
  have ul: "unat (of_nat (length D) :: u64) = length D" using l by (simp add: unat_of_nat)
  have we: "wend f \<noteq> 0" using s by (rule stream_wend)
  show ?thesis
  proof (cases "wend f - wpos f < of_nat (length D)")
    case True
    then have "?fw = wfun f s (of_nat (length D)) m x" using we by (simp add: fwritex_def)
    with stream_written [OF h p b l r] show ?thesis by (simp add: T)
  next
    case False
    then have "length D \<le> unat (wend f - wpos f)" using ul by (simp add: word_less_nat_alt)
    moreover have "length B \<le> unat (buf_size f)" using p by (simp add: pending_def)
    ultimately have fits: "length B + length D \<le> unat (buf_size f)" unfolding room by linarith
    show ?thesis
    proof (cases "0 <=s lbf f")
      case False
      then have "?fw = fwritex_buf s (of_nat (length D)) 0 f m x" using we \<open>\<not> wend f - wpos f < _\<close> by (simp add: fwritex_def)
      with fwritex_buf_ok [OF h p b r fits, of 0] show ?thesis unfolding T by auto
    next
      case True
      have "length D < 2 ^ 64" using l by simp
      then obtain i where i: "i \<le> length D" "last_line m s (of_nat (length D)) = Some (of_nat i)"
        using last_line_le [OF _ order_refl b] by blast
      have fw: "?fw = (if (of_nat i :: u64) \<noteq> 0 then
               seq (wfun f s (of_nat i)) (\<lambda>(n, f).
                 if n < of_nat i then ret (n, f) else fwritex_buf (s + of_nat i) (of_nat (length D) - of_nat i) (of_nat i) f)
             else fwritex_buf s (of_nat (length D)) (of_nat i) f) m x"
        using we True i(2) \<open>\<not> wend f - wpos f < _\<close> by (simp add: fwritex_def seq_def rd_def)
      show ?thesis
      proof (cases "(of_nat i :: u64) = 0")
        case True
        then have "?fw = fwritex_buf s (of_nat (length D)) 0 f m x" using fw by simp
        with fwritex_buf_ok [OF h p b r fits, of 0] show ?thesis unfolding T by auto
      next
        case False
        define D1 where "D1 = take i D"
        define D2 where "D2 = drop i D"
        have D: "D = D1 @ D2" "length D1 = i" "length D2 = length D - i" using i by (simp_all add: D1_def D2_def)
        have b12: "bytes_at m s D1" "bytes_at m (s + of_nat i) D2" using b D(1,2) bytes_at_append by metis+
        have r1: "reg s (length D1) \<inter> foot = {}" using r reg_mono [of i "length D" s] i(1) by (auto simp: D(2))
        have r2: "reg (s + of_nat i) (length D2) \<inter> foot = {}"
          using r reg_shift [of i "length D2" "length D" s] i(1) D(3) by auto
        obtain f1 m1 x1 where w: "wfun f s (of_nat i) m x = Some (Done (of_nat i, f1) m1 x1)"
            and h1: "holds f1 m1 x1 (T0 @ B @ D1)" and p1: "pending f1 m1 []"
            and sb: "same_but foot m m1" and bz: "core f1 = core f"
          using write_ok [OF h p b12(1) _ r1] l i(1) D(2) by auto
        have b2: "bytes_at m1 (s + of_nat i) D2"
          using bytes_at_same_but [OF sb r2] b12(2) by simp
        have fits2: "length ([] :: byte list) + length D2 \<le> unat (buf_size f1)" using fits D(3) bz by (simp add: core_def)
        obtain f2 m2 where w2: "fwritex_buf (s + of_nat i) (of_nat (length D2)) (of_nat i) f1 m1 x1 =
              Some (Done (of_nat (length D2) + of_nat i, f2) m2 x1)"
            and s2: "stream f2 m2 x1 ((T0 @ B @ D1) @ [] @ D2)" and sb2: "same_but foot m1 m2"
            and bz2: "core f2 = core f1"
          using fwritex_buf_ok [OF h1 p1 b2 r2 fits2, of "of_nat i"] by blast
        have lens: "(of_nat (length D) :: u64) - of_nat i = of_nat (length D2)"
          "(of_nat (length D2) :: u64) + of_nat i = of_nat (length D)"
          using i(1) D(3) by (simp_all add: of_nat_diff)
        have "?fw = Some (Done (of_nat (length D), f2) m2 x1)"
          unfolding fw using False w w2 by (simp add: lens seq_def)
        moreover have "?Q f2 m2 x1"
          using s2 sb sb2 bz bz2 D(1) by (simp add: T same_but_trans)
        ultimately show ?thesis by blast
      qed
    qed
  qed
qed

lemma fwrite_ok:
  assumes s: "stream f m x T" and b: "bytes_at m s D" and l: "length D < 2 ^ 62"
    and r: "reg s (length D) \<inter> foot = {}" and n: "length D = unat sz * unat n"
  shows "\<exists>f' m' x'. fwrite wfun s sz n f m x = Some (Done (if sz = 0 then 0 else n, f') m' x') \<and>
    stream f' m' x' (T @ D) \<and> same_but foot m m' \<and> core f' = core f"
proof -
  have "sz * n = of_nat (length D)" using n by (metis of_nat_mult of_nat_unat ucast_id)
  moreover obtain f' m' x' where "fwritex wfun s (of_nat (length D)) f m x = Some (Done (of_nat (length D), f') m' x')"
      "stream f' m' x' (T @ D)" "same_but foot m m'" "core f' = core f"
    using fwritex_ok [OF s b l r] by blast
  ultimately show ?thesis
    by (intro exI [of _ f'] exI [of _ m'] exI [of _ x']) (simp add: fwrite_def seq_def ret_def Let_def)
qed

lemma fputs_ok:
  assumes s: "stream f m x T" and w: "word_mapped m" and c: "cstr m a bs" and l: "length bs < 2 ^ 62"
    and r: "reg a (length bs) \<inter> foot = {}"
  shows "\<exists>f' m' x'. fputs wfun a f m x = Some (Done (0, f') m' x') \<and>
    stream f' m' x' (T @ bs) \<and> same_but foot m m' \<and> core f' = core f"
proof -
  have "unat (of_nat (length bs) :: u64) = length bs" using l by (simp add: unat_of_nat)
  then obtain f' m' x' where "fwrite wfun a 1 (of_nat (length bs)) f m x = Some (Done (of_nat (length bs), f') m' x')"
      "stream f' m' x' (T @ bs)" "same_but foot m m'" "core f' = core f"
    using fwrite_ok [OF s cstr_length [OF c] l r, of 1 "of_nat (length bs)"] by auto
  with strlen_correct [OF w c] show ?thesis
    by (intro exI [of _ f'] exI [of _ m'] exI [of _ x']) (simp add: fputs_def seq_def rd_def ret_def)
qed

lemma fputc_ok:
  assumes s: "stream f m x T" and slot: "m slot \<noteq> None" "slot \<notin> foot"
  shows "\<exists>f' m' x'. fputc wfun slot c f m x = Some (Done (ucast (ucast c :: byte), f') m' x') \<and>
    stream f' m' x' (T @ [ucast c]) \<and> same_but (insert slot foot) m m' \<and> core f' = core f"
proof -
  obtain T0 B where T: "T = T0 @ B" and h: "holds f m x T0" and p: "pending f m B"
    using s by (auto simp: stream_def)
  define b :: byte where "b = ucast c"
  have we: "wend f \<noteq> 0" using s by (rule stream_wend)
  show ?thesis
  proof (cases "(ucast b :: u32) \<noteq> scast (lbf f) \<and> wpos f < wend f")
    case True
    have w: "wpos f = buf f + of_nat (length B)" using p by (simp add: pending_def)
    have "length B \<noteq> unat (buf_size f)" using True p by (auto simp: pending_def)
    then have l: "length B < unat (buf_size f)" using p by (simp add: pending_def)
    have sz: "unat (buf_size f) < 2 ^ 64" using unsigned_less [of "buf_size f", where ?'a = nat] by simp
    have mw: "m (wpos f) \<noteq> None" using p l unfolding w by (simp add: pending_def mapped_def)
    define m' where "m' = put_bytes m (wpos f) [b]"
    have st: "store8 m (wpos f) b = Some m'" using mw by (simp add: store8_put m'_def)
    have in_buf: "reg (wpos f) (length [b]) \<subseteq> buf_reg f" unfolding w buf_reg_def using l by (intro reg_shift) simp
    have "mapped m (wpos f) (length [b])" using mw by (simp add: mapped_Suc)
    then have sb: "same_but (buf_reg f) m m'" unfolding m'_def using in_buf by (rule same_but_mono [OF put_bytes_same_but])
    define f' where "f' = f\<lparr>wpos := wpos f + 1\<rparr>"
    have "holds f' m' x T0" unfolding f'_def using h sb by (intro holds_frame) (auto simp: same_but_def)
    moreover have "pending f' m' (B @ [b])"
    proof -
      have "bytes_at m' (buf f) (B @ [b])"
        unfolding m'_def w using p l sz by (intro bytes_at_grow) (auto simp: pending_def)
      then show ?thesis using p l unfolding f'_def by (auto simp: pending_def m'_def mapped_put add.assoc add.commute)
    qed
    ultimately have "stream f' m' x (T @ [b])" by (auto simp: stream_def T)
    moreover have "same_but (insert slot foot) m m'" using same_but_mono [OF sb] buffer_inside [OF h] by blast
    moreover have "fputc wfun slot c f m x = Some (Done (ucast b, f') m' x)"
      using True st by (simp add: fputc_def putc_unlocked_def b_def [symmetric] seq_def wr_def ret_def f'_def)
    ultimately show ?thesis by (auto simp: b_def f'_def core_def)
  next
    case False
    define m1 where "m1 = put_bytes m slot [b]"
    have st: "store8 m slot b = Some m1" using slot by (simp add: store8_put m1_def)
    have ms: "mapped m slot (length [b])" using slot by (simp add: mapped_Suc)
    have rs: "reg slot (length [b]) = {slot}" by (simp add: reg_def)
    have sb: "same_but {slot} m m1" unfolding m1_def using put_bytes_same_but [OF ms] rs by simp
    have "m1 a = m a" if "a \<in> foot" for a using sb slot(2) that unfolding same_but_def by (metis singletonD)
    then have s1: "stream f m1 x T" using stream_frame [OF s] by blast
    then obtain T1 B1 where B1: "T = T1 @ B1" "holds f m1 x T1" "pending f m1 B1" by (auto simp: stream_def)
    have b1: "bytes_at m1 slot [b]" unfolding m1_def using put_bytes_in [of 0 "[b]" m slot] by simp
    obtain f' m' x' where w: "wfun f slot (of_nat (length [b])) m1 x = Some (Done (of_nat (length [b]), f') m' x')"
        "stream f' m' x' (T1 @ B1 @ [b])" "same_but foot m1 m'" "core f' = core f"
      using stream_written [OF B1(2,3) b1] slot(2) rs by auto
    have "fputc wfun slot c f m x = overflow wfun slot f c m x"
      using False by (auto simp add: fputc_def putc_unlocked_def b_def)
    also have "\<dots> = Some (Done (ucast b, f') m' x')"
      using False we st w(1) by (auto simp: overflow_def b_def [symmetric] seq_def wr_def ret_def Let_def)
    finally have "fputc wfun slot c f m x = Some (Done (ucast b, f') m' x')" .
    moreover have "same_but (insert slot foot) m m'"
      using same_but_trans [OF same_but_mono [OF sb] same_but_mono [OF w(3)]] by blast
    ultimately show ?thesis using w(2,4) B1(1) by (auto simp: b_def)
  qed
qed


text \<open>\<open>fflush\<close> hands everything to the sink.\<close>

lemma fflush_write:
  assumes s: "stream f m x T"
  shows "\<exists>f' m' x'. wfun f 0 0 m x = Some (Done (0, f') m' x') \<and> holds f' m' x' T \<and>
    pending f' m' [] \<and> same_but foot m m' \<and> core f' = core f"
proof -
  obtain T0 B where T: "T = T0 @ B" and h: "holds f m x T0" and p: "pending f m B"
    using s by (auto simp: stream_def)
  show ?thesis using write_ok [OF h p, of 0 "[]"] by (simp add: T reg_def)
qed

end

section \<open>The string sink\<close>

text \<open>
  \<open>sn_write\<close> keeps the first \<open>N\<close> bytes it was ever given at \<open>s0\<close>, terminated; \<open>b0\<close> and \<open>z\<close> are
  the buffer of the stream.
\<close>

definition sn_cookie :: "addr \<Rightarrow> nat \<Rightarrow> byte list \<Rightarrow> cookie" where
  "sn_cookie s0 N T = \<lparr>ck_s = s0 + of_nat (min N (length T)), ck_n = of_nat (N - length T)\<rparr>"

definition sn_foot :: "addr \<Rightarrow> nat \<Rightarrow> addr \<Rightarrow> nat \<Rightarrow> addr set" where
  "sn_foot s0 N b0 z = reg s0 (Suc N) \<union> reg b0 z"

definition sn_holds :: "addr \<Rightarrow> nat \<Rightarrow> addr \<Rightarrow> nat \<Rightarrow> 'x \<Rightarrow> FILE \<Rightarrow> mem \<Rightarrow> 'x \<Rightarrow> byte list \<Rightarrow> bool" where
  "sn_holds s0 N b0 z x0 f m x T \<longleftrightarrow>
     x = x0 \<and> buf f = b0 \<and> unat (buf_size f) = z \<and> N < 2 ^ 31 \<and> z < 2 ^ 62 \<and> apart s0 (Suc N) b0 z \<and>
     fcookie f = sn_cookie s0 N T \<and> bytes_at m s0 (take N T @ [0]) \<and> mapped m s0 (Suc N)"

lemma sn_put_ok:
  assumes b: "bytes_at m s D" and l: "length D < 2 ^ 62" and N: "N < 2 ^ 31"
    and r: "reg s (length D) \<inter> reg s0 (Suc N) = {}" and w: "mapped m s0 (Suc N)"
  shows "sn_put s (of_nat (length D)) (sn_cookie s0 N T) m x =
    Some (Done (sn_cookie s0 N (T @ D))
      (put_bytes m (s0 + of_nat (min N (length T))) (take (N - length T) D)) x)"
proof -
  define k where "k = min (N - length T) (length D)"
  have ul: "unat (of_nat (length D) :: u64) = length D" "unat (of_nat (N - length T) :: u64) = N - length T"
      "unat (of_nat k :: u64) = k"
    using l N by (simp_all add: unat_of_nat k_def)
  have min_k: "(if ck_n (sn_cookie s0 N T) < of_nat (length D) then ck_n (sn_cookie s0 N T) else of_nat (length D)) = of_nat k"
    using ul by (simp add: sn_cookie_def word_less_nat_alt k_def min_def)
  have tk: "take (N - length T) D = take k D" by (simp add: k_def min_def)
  have ck: "\<lparr>ck_s = ck_s (sn_cookie s0 N T) + of_nat k, ck_n = ck_n (sn_cookie s0 N T) - of_nat k\<rparr> = sn_cookie s0 N (T @ D)"
  proof -
    have "min N (length T) + k = min N (length (T @ D))" by (simp add: k_def)
    moreover have "(of_nat (N - length T) :: u64) - of_nat k = of_nat (N - length (T @ D))"
    proof -
      have "N - length T - k = N - length (T @ D)" by (simp add: k_def min_def)
      moreover have "(of_nat (N - length T) :: u64) - of_nat k = of_nat (N - length T - k)"
        by (subst of_nat_diff) (simp_all add: k_def)
      ultimately show ?thesis by simp
    qed
    ultimately show ?thesis by (simp add: sn_cookie_def add.assoc flip: of_nat_add)
  qed
  show ?thesis
  proof (cases "k = 0")
    case True
    have "sn_put s (of_nat (length D)) (sn_cookie s0 N T) m x = Some (Done (sn_cookie s0 N T) m x)"
      unfolding sn_put_def min_k Let_def using True by (simp add: ret_def)
    moreover have "sn_cookie s0 N (T @ D) = sn_cookie s0 N T"
      using ck True by (cases "sn_cookie s0 N T") simp
    ultimately show ?thesis using True by (simp add: tk)
  next
    case False
    have kN: "min N (length T) + k \<le> Suc N" and kD: "k \<le> length D" by (auto simp: k_def)
    have nz: "(of_nat k :: u64) \<noteq> 0" using False ul(3) by (metis unat_0)
    have "mapped m s0 (min N (length T) + k)" using w kN by (rule mapped_mono)
    then have "mapped m (s0 + of_nat (min N (length T))) k" by (simp add: mapped_append)
    moreover have "bytes_at m s (take k D)" using b kD by (metis append_take_drop_id bytes_at_append)
    moreover have "apart (s0 + of_nat (min N (length T))) k s k"
      using r reg_shift [OF kN, of s0] reg_mono [OF kD, of s] unfolding apart_reg by blast
    ultimately have c: "copying m (s0 + of_nat (min N (length T))) s (take k D)"
      using kD l by (simp add: copying_def)
    have "memcpy m (s0 + of_nat (min N (length T))) s (of_nat k) =
        Some (s0 + of_nat (min N (length T)), put_bytes m (s0 + of_nat (min N (length T))) (take k D))"
      using memcpy_correct [OF c, of "of_nat k"] kD ul(3) by simp
    then show ?thesis
      unfolding sn_put_def min_k Let_def using nz ck
      by (simp add: tk ret_def seq_def act_def) (simp add: sn_cookie_def ret_def)
  qed
qed

lemma take_grow: "take N (T @ D) = take N T @ take (N - length T) D"
  by simp

lemma put_grow:
  assumes b: "bytes_at m s0 (take N T)" and N: "N < 2 ^ 31"
  shows "bytes_at (put_bytes m (s0 + of_nat (min N (length T))) (take (N - length T) D)) s0 (take N (T @ D))"
proof -
  have "length (take N T) = min N (length T)" by (simp add: min.commute)
  moreover have "length (take N T) + length (take (N - length T) D) \<le> 2 ^ 64" using N by auto
  ultimately show ?thesis using bytes_at_grow [OF b] unfolding take_grow by metis
qed

lemma put_in_reg:
  assumes "i + length bs \<le> n" "mapped m s0 n"
  shows "same_but (reg s0 n) m (put_bytes m (s0 + of_nat i) bs)"
proof -
  have "mapped m s0 (i + length bs)" using assms(2,1) by (rule mapped_mono)
  then show ?thesis using assms(1) by (intro same_but_mono [OF put_bytes_same_but reg_shift]) (simp_all add: mapped_append)
qed

lemma sn_write_ok:
  assumes h: "sn_holds s0 N b0 z x0 f m x T" and p: "pending f m B" and b: "bytes_at m s D"
    and l: "length D < 2 ^ 62" and r: "reg s (length D) \<inter> sn_foot s0 N b0 z = {}"
  shows "\<exists>f' m' x'. sn_write f s (of_nat (length D)) m x = Some (Done (of_nat (length D), f') m' x') \<and>
        sn_holds s0 N b0 z x0 f' m' x' (T @ B @ D) \<and> pending f' m' [] \<and> same_but (sn_foot s0 N b0 z) m m' \<and>
        core f' = core f"
proof -
  have N: "N < 2 ^ 31" and w: "mapped m s0 (Suc N)" and t: "bytes_at m s0 (take N T)"
    and ap: "reg s0 (Suc N) \<inter> reg b0 z = {}" and bz: "buf f = b0" "unat (buf_size f) = z"
    and ck: "fcookie f = sn_cookie s0 N T"
    using h by (simp_all add: sn_holds_def apart_reg bytes_at_append)
  have B: "wpos f - wbase f = of_nat (length B)" "wbase f = b0" "bytes_at m b0 B" "length B \<le> z"
    using p bz by (simp_all add: pending_def)
  have lB: "length B < 2 ^ 62" using h B(4) by (simp add: sn_holds_def)
  define m1 where "m1 = put_bytes m (s0 + of_nat (min N (length T))) (take (N - length T) B)"
  define m2 where "m2 = put_bytes m1 (s0 + of_nat (min N (length (T @ B)))) (take (N - length (T @ B)) D)"
  define m3 where "m3 = put_bytes m2 (s0 + of_nat (min N (length (T @ B @ D)))) [0]"
  define f' where "f' = f\<lparr>fcookie := sn_cookie s0 N (T @ B @ D), wpos := b0, wbase := b0\<rparr>"
  have w1: "mapped m1 s0 (Suc N)" "mapped m2 s0 (Suc N)" "mapped m3 s0 (Suc N)"
    using w by (simp_all add: m1_def m2_def m3_def mapped_put)
  have sb1: "same_but (reg s0 (Suc N)) m m1" unfolding m1_def using w by (intro put_in_reg) auto
  have sb2: "same_but (reg s0 (Suc N)) m1 m2" unfolding m2_def using w1(1) by (intro put_in_reg) auto
  have sb3: "same_but (reg s0 (Suc N)) m2 m3" unfolding m3_def using w1(2) by (intro put_in_reg) auto
  have sb: "same_but (reg s0 (Suc N)) m m3" using sb1 sb2 sb3 by (metis same_but_trans)
  have rB: "reg b0 (length B) \<inter> reg s0 (Suc N) = {}" using ap reg_mono [OF B(4), of b0] by blast
  have rD: "reg s (length D) \<inter> reg s0 (Suc N) = {}" using r by (auto simp: sn_foot_def)
  have b1: "bytes_at m1 s D" using bytes_at_same_but [OF sb1 rD] b by simp
  have run: "sn_write f s (of_nat (length D)) m x = Some (Done (of_nat (length D), f') m3 x)"
  proof -
    have 1: "sn_put (wbase f) (wpos f - wbase f) (fcookie f) m x = Some (Done (sn_cookie s0 N (T @ B)) m1 x)"
      unfolding B(1) unfolding B(2) ck m1_def using B(3) lB N rB w by (rule sn_put_ok)
    have 2: "sn_put s (of_nat (length D)) (sn_cookie s0 N (T @ B)) m1 x = Some (Done (sn_cookie s0 N (T @ B @ D)) m2 x)"
      using sn_put_ok [OF b1 l N rD w1(1), of "T @ B" x] by (simp add: m2_def)
    have "m2 (s0 + of_nat (min N (length (T @ B @ D)))) \<noteq> None"
      using w1(2) unfolding mapped_def by (meson less_Suc_eq_le min.cobounded1)
    then have 3: "store8 m2 (ck_s (sn_cookie s0 N (T @ B @ D))) 0 = Some m3"
      by (simp add: sn_cookie_def m3_def store8_put del: length_append)
    show ?thesis using 1 2 3 bz(1) by (simp add: sn_write_def seq_def wr_def ret_def f'_def)
  qed
  have kept: "bytes_at m3 s0 (take N (T @ B @ D) @ [0])"
  proof -
    have "bytes_at m1 s0 (take N (T @ B))" unfolding m1_def using t N by (rule put_grow)
    then have t2: "bytes_at m2 s0 (take N ((T @ B) @ D))" unfolding m2_def using N by (rule put_grow)
    have "length (take N (T @ B @ D)) = min N (length (T @ B @ D))" by (simp add: min.commute)
    moreover have "length (take N (T @ B @ D)) + length [0 :: byte] \<le> 2 ^ 64" using N by simp
    ultimately show ?thesis
      using bytes_at_grow [of m2 s0 "take N (T @ B @ D)" "[0]"] t2 unfolding m3_def by (metis append.assoc)
  qed
  have rb: "mapped m3 b0 z" using p bz by (simp add: pending_def m1_def m2_def m3_def mapped_put)
  have "sn_holds s0 N b0 z x0 f' m3 x (T @ B @ D)"
    using h kept w1(3) bz by (simp add: sn_holds_def f'_def)
  moreover have "pending f' m3 []" using p bz rb by (auto simp: pending_def f'_def)
  moreover have "same_but (sn_foot s0 N b0 z) m m3"
    using sb by (rule same_but_mono) (simp add: sn_foot_def)
  ultimately show ?thesis using run by (auto simp: f'_def core_def)
qed

interpretation sn: stream_writer sn_write "sn_foot s0 N b0 z" "sn_holds s0 N b0 z x0" for s0 N b0 z x0
proof
  fix f m x T
  assume h: "sn_holds s0 N b0 z x0 f m x T"
  then show "buf_reg f \<subseteq> sn_foot s0 N b0 z" by (auto simp: sn_holds_def buf_reg_def sn_foot_def)
next
  fix f m x T m' p
  assume h: "sn_holds s0 N b0 z x0 f m x T"
    and a: "\<And>a. a \<in> sn_foot s0 N b0 z - buf_reg f \<Longrightarrow> m' a = m a"
  have same: "m' (s0 + of_nat i) = m (s0 + of_nat i)" if "i < Suc N" for i
  proof (rule a)
    have "s0 + of_nat i \<in> reg s0 (Suc N)" using that by (simp add: reg_def)
    moreover have "reg s0 (Suc N) \<inter> buf_reg f = {}" using h by (simp add: sn_holds_def apart_reg buf_reg_def)
    ultimately show "s0 + of_nat i \<in> sn_foot s0 N b0 z - buf_reg f" by (auto simp: sn_foot_def)
  qed
  have "length (take N T @ [0 :: byte]) \<le> Suc N" by simp
  then show "sn_holds s0 N b0 z x0 (f\<lparr>wpos := p\<rparr>) m' x T"
    using h same by (auto simp: sn_holds_def mapped_def bytes_at_nth simp del: length_append)
qed (rule sn_write_ok)

section \<open>The descriptor sink\<close>

fun iov_bytes :: "mem \<Rightarrow> iovec list \<Rightarrow> byte list \<Rightarrow> bool" where
  "iov_bytes m [] bs \<longleftrightarrow> bs = []"
| "iov_bytes m ((a, n) # iov) bs \<longleftrightarrow>
     unat n \<le> length bs \<and> bytes_at m a (take (unat n) bs) \<and> iov_bytes m iov (drop (unat n) bs)"

text \<open>
  The documented behaviour of \<open>writev\<close> on a healthy descriptor: it appends a nonempty prefix of
  the bytes described, possibly a short one, to the outp and returns its length.
\<close>

definition writev_ok :: "(u32 \<Rightarrow> iovec list \<Rightarrow> (u64, 'x) run) \<Rightarrow> ('x \<Rightarrow> byte list) \<Rightarrow> bool" where
  "writev_ok writev outp \<longleftrightarrow>
     (\<forall>d iov m x bs. iov_bytes m iov bs \<longrightarrow>
        (\<exists>k x'. k \<le> length bs \<and> (bs \<noteq> [] \<longrightarrow> 0 < k) \<and> writev d iov m x = Some (Done (of_nat k) m x') \<and>
           outp x' = outp x @ take k bs))"

lemma iov_bytes_advance:
  assumes b: "iov_bytes m iov bs" and k: "k \<le> length bs" "length bs < 2 ^ 63"
    and iov: "length iov = 1 \<or> length iov = 2"
  shows "\<exists>iov'. iov_advance (of_nat k) iov = Some iov' \<and> iov_bytes m iov' (drop k bs) \<and>
    (length iov' = 1 \<or> length iov' = 2)"
proof -
  obtain a n rest where e: "iov = (a, n) # rest" "rest = [] \<or> (\<exists>a' n'. rest = [(a', n')])"
    using iov by (cases iov) (auto simp: length_Suc_conv)
  have uk: "unat (of_nat k :: u64) = k" using k by (simp add: unat_of_nat)
  have part: "bytes_at m (a + of_nat i) (take (j - i) (drop i bs))" if "bytes_at m a (take j bs)" "i \<le> j" for a i j bs
    using that by (metis bytes_at_drop drop_take length_take linorder_le_cases min.absorb1 min.absorb2 take_all drop_all bytes_at.simps(1))
  show ?thesis
  proof (cases "n < of_nat k")
    case False
    then have kn: "k \<le> unat n" using uk by (simp add: word_less_nat_alt)
    then have "unat (n - of_nat k) = unat n - k" using uk by (subst unat_sub) (simp_all add: word_le_nat_alt)
    moreover have "bytes_at m (a + of_nat k) (take (unat n - k) (drop k bs))"
      using b kn unfolding e by (intro part) auto
    ultimately show ?thesis using b e kn False by (auto simp: add.commute)
  next
    case True
    then have nk: "unat n < k" using uk by (simp add: word_less_nat_alt)
    then obtain a' n' where r: "rest = [(a', n')]" using b e k by auto
    have d: "of_nat k - n = of_nat (k - unat n)" using nk by (simp add: of_nat_diff)
    define j where "j = k - unat n"
    have n': "unat n' = length bs - unat n" using b k by (simp add: e r) linarith
    have jn: "j \<le> unat n'" "j < 2 ^ 64" using k nk n' by (simp_all add: j_def)
    then have "unat (of_nat j :: u64) = j" by (simp add: unat_of_nat)
    with jn(1) have "unat (n' - of_nat j) = unat n' - j" by (subst unat_sub) (simp_all add: word_le_nat_alt)
    moreover have "bytes_at m (a' + of_nat j) (take (unat n' - j) (drop j (drop (unat n) bs)))"
      using b n' k nk by (intro part) (auto simp: e r j_def)
    moreover have "drop j (drop (unat n) bs) = drop k bs" using nk by (simp add: j_def)
    moreover have "iov_advance (of_nat k) iov = Some [(a' + of_nat j, n' - of_nat j)]"
      using True by (simp add: e r d j_def)
    moreover have "length bs - k = unat n' - j" using n' k nk by (simp add: j_def)
    ultimately show ?thesis by simp
  qed
qed

lemma stdio_write_loop_ok:
  assumes W: "writev_ok writev outp"
  shows "iov_bytes m iov bs \<Longrightarrow> length bs < 2 ^ 63 \<Longrightarrow> length iov = 1 \<or> length iov = 2 \<Longrightarrow>
    \<exists>x'. stdio_write_loop writev f len (of_nat (length bs)) iov m x =
        Some (Done (len, f\<lparr>wend := buf f + buf_size f, wpos := buf f, wbase := buf f\<rparr>) m x') \<and>
      outp x' = outp x @ bs"
proof (induction "length bs" arbitrary: bs iov x rule: less_induct)
  case less
  obtain k x1 where k: "k \<le> length bs" "bs \<noteq> [] \<longrightarrow> 0 < k" "writev (fd f) iov m x = Some (Done (of_nat k) m x1)"
      "outp x1 = outp x @ take k bs"
    using W less.prems(1) unfolding writev_ok_def by blast
  have uk: "unat (of_nat k :: u64) = k" "unat (of_nat (length bs) :: u64) = length bs"
    using k(1) less.prems(2) by (simp_all add: unat_of_nat)
  then have inj: "(of_nat k :: u64) = of_nat (length bs) \<longleftrightarrow> k = length bs" by metis
  show ?case
  proof (cases "k = length bs")
    case True
    then show ?thesis using k(3,4) by (subst stdio_write_loop.simps) (simp add: seq_def ret_def)
  next
    case False
    have pos: "\<not> (of_nat k :: u64) <s 0"
    proof -
      have "signed_take_bit 63 (int k) = int k" using k(1) less.prems(2) by (simp add: signed_take_bit_int_eq_self_iff)
      then show ?thesis by (simp add: word_sless_alt signed_of_nat)
    qed
    obtain iov' where a: "iov_advance (of_nat k) iov = Some iov'" "iov_bytes m iov' (drop k bs)"
        "length iov' = 1 \<or> length iov' = 2"
      using iov_bytes_advance [OF less.prems(1) k(1) less.prems(2,3)] by blast
    have rem: "(of_nat (length bs) :: u64) - of_nat k = of_nat (length (drop k bs))"
      using k(1) by (simp add: of_nat_diff)
    have "stdio_write_loop writev f len (of_nat (length bs)) iov m x =
        stdio_write_loop writev f len (of_nat (length (drop k bs))) iov' m x1"
      using k(3) inj False pos a(1) rem by (subst stdio_write_loop.simps) (simp add: seq_def)
    moreover have "length (drop k bs) < length bs" using k(1,2) False by auto
    ultimately show ?thesis
      using less.hyps [OF _ a(2) _ a(3)] less.prems(2) k(4) by (simp add: less_imp_diff_less) (metis append.assoc append_take_drop_id)
  qed
qed

text \<open>The footprint of a descriptor stream is its buffer alone.\<close>

definition fd_holds :: "(u32 \<Rightarrow> iovec list \<Rightarrow> (u64, 'x) run) \<Rightarrow> ('x \<Rightarrow> byte list) \<Rightarrow> addr \<Rightarrow> nat \<Rightarrow>
    byte list \<Rightarrow> FILE \<Rightarrow> mem \<Rightarrow> 'x \<Rightarrow> byte list \<Rightarrow> bool" where
  "fd_holds writev outp b0 z start f m x T \<longleftrightarrow>
     writev_ok writev outp \<and> buf f = b0 \<and> unat (buf_size f) = z \<and> z < 2 ^ 62 \<and> outp x = start @ T"

lemma stdio_write_ok:
  assumes h: "fd_holds writev outp b0 z start f m x T" and p: "pending f m B" and b: "bytes_at m s D"
    and l: "length D < 2 ^ 62"
  shows "\<exists>f' m' x'. stdio_write writev f s (of_nat (length D)) m x = Some (Done (of_nat (length D), f') m' x') \<and>
        fd_holds writev outp b0 z start f' m' x' (T @ B @ D) \<and> pending f' m' [] \<and> m' = m \<and>
        core f' = core f"
proof -
  have B: "wpos f - wbase f = of_nat (length B)" "bytes_at m (wbase f) B" "length B \<le> z"
    using p h by (simp_all add: pending_def fd_holds_def)
  have zz: "z < 2 ^ 62" using h by (simp add: fd_holds_def)
  have u: "unat (of_nat (length B) :: u64) = length B" "unat (of_nat (length D) :: u64) = length D"
    using l B(3) zz by (simp_all add: unat_of_nat)
  have iov: "iov_bytes m [(wbase f, wpos f - wbase f), (s, of_nat (length D))] (B @ D)"
    using b B by (simp add: u)
  have lBD: "length (B @ D) < 2 ^ 63" using l B(3) zz by simp
  have W: "writev_ok writev outp" and start: "outp x = start @ T" using h by (simp_all add: fd_holds_def)
  obtain x' where r: "stdio_write_loop writev f (of_nat (length D)) (of_nat (length (B @ D)))
        [(wbase f, wpos f - wbase f), (s, of_nat (length D))] m x =
      Some (Done (of_nat (length D), f\<lparr>wend := buf f + buf_size f, wpos := buf f, wbase := buf f\<rparr>) m x')"
      "outp x' = outp x @ B @ D"
    using stdio_write_loop_ok [OF W iov lBD] by fastforce
  have "stdio_write writev f s (of_nat (length D)) m x =
      Some (Done (of_nat (length D), f\<lparr>wend := buf f + buf_size f, wpos := buf f, wbase := buf f\<rparr>) m x')"
    using r(1) by (simp add: stdio_write_def Let_def B(1))
  then show ?thesis
    using r(2) h p by (auto simp: fd_holds_def pending_def core_def)
qed

interpretation fdw: stream_writer "stdio_write writev" "reg b0 z" "fd_holds writev outp b0 z start"
  for writev outp b0 z start
proof
  fix f m x T
  assume "fd_holds writev outp b0 z start f m x T"
  then show "buf_reg f \<subseteq> reg b0 z" by (simp add: fd_holds_def buf_reg_def)
next
  fix f m x T m' p
  assume "fd_holds writev outp b0 z start f m x T"
  then show "fd_holds writev outp b0 z start (f\<lparr>wpos := p\<rparr>) m' x T" by (simp add: fd_holds_def)
next
  fix f m x T B s D
  assume h: "fd_holds writev outp b0 z start f m x T" "pending f m B" "bytes_at m s D" "length D < 2 ^ 62"
  from stdio_write_ok [OF this]
  show "\<exists>f' m' x'. stdio_write writev f s (of_nat (length D)) m x = Some (Done (of_nat (length D), f') m' x') \<and>
      fd_holds writev outp b0 z start f' m' x' (T @ B @ D) \<and> pending f' m' [] \<and> same_but (reg b0 z) m m' \<and>
      core f' = core f"
    by (metis same_but_refl)
qed

context stream_writer
begin

lemma fflush_ok:
  assumes s: "stream f m x T" and b: "buf f \<noteq> 0" "unat (buf f) + unat (buf_size f) < 2 ^ 64"
    and r: "\<not> rpos f < rend f"
  shows "\<exists>f' m' x' g. fflush wfun seek f m x = Some (Done (0, f') m' x') \<and> holds g m' x' T \<and> same_but foot m m' \<and>
    core g = core f \<and> f' = g\<lparr>wpos := 0, wbase := 0, wend := 0, rpos := 0, rend := 0\<rparr>"
proof -
  obtain T0 B where T: "T = T0 @ B" and h: "holds f m x T0" and p: "pending f m B"
    using s by (auto simp: stream_def)
  show ?thesis
  proof (cases "wbase f < wpos f")
    case True
    obtain g m1 x1 where w: "wfun f 0 0 m x = Some (Done (0, g) m1 x1)" "holds g m1 x1 T" "pending g m1 []"
        "same_but foot m m1" "core g = core f"
      using fflush_write [OF s] by blast
    then have "wpos g \<noteq> 0" "\<not> rpos g < rend g" using b r by (simp_all add: pending_def core_def)
    then have "fflush wfun seek f m x = Some (Done (0, g\<lparr>wpos := 0, wbase := 0, wend := 0, rpos := 0, rend := 0\<rparr>) m1 x1)"
      using w(1) True by (simp add: fflush_def seq_def ret_def)
    then show ?thesis using w by blast
  next
    case False
    have "length B = 0"
    proof (rule ccontr)
      assume nz: "length B \<noteq> 0"
      have le: "length B \<le> unat (buf_size f)" using p by (simp add: pending_def)
      then have "unat (of_nat (length B) :: addr) = length B"
        using unsigned_less [of "buf_size f", where ?'a = nat] by (simp add: unat_of_nat)
      then have "unat (buf f + of_nat (length B)) = unat (buf f) + length B"
        using b(2) le by (simp add: unat_word_ariths)
      then have "wbase f < wpos f" using p nz by (simp add: pending_def word_less_nat_alt)
      with False show False by simp
    qed
    then have "holds f m x T" using h by (simp add: T)
    moreover have "fflush wfun seek f m x = Some (Done (0, f\<lparr>wpos := 0, wbase := 0, wend := 0, rpos := 0, rend := 0\<rparr>) m x)"
      using False r by (simp add: fflush_def seq_def ret_def)
    ultimately show ?thesis using same_but_refl by blast
  qed
qed

end

section \<open>Programs that write\<close>

text \<open>
  A stream that can be written to (its buffer is mapped, it is not read-only and holds no unread input), with the bytes it
  has buffered: it is new or flushed (\<open>wend\<close> is null), and has none, or it is being written to.
\<close>

definition out_stream :: "FILE \<Rightarrow> mem \<Rightarrow> byte list \<Rightarrow> bool" where
  "out_stream f m B \<longleftrightarrow> unat (buf_size f) < 2 ^ 62 \<and> buf f \<noteq> 0 \<and> unat (buf f) + unat (buf_size f) < 2 ^ 64 \<and>
     mapped m (buf f) (unat (buf_size f)) \<and> flags f AND F_NOWR = 0 \<and> \<not> rpos f < rend f \<and>
     (if wend f = 0 then B = [] \<and> \<not> wbase f < wpos f else pending f m B)"

definition activate :: "FILE \<Rightarrow> FILE" where
  "activate f = (if wend f = 0 then snd (towrite f) else f)"

lemma activate_fields [simp]:
  "flags f AND F_NOWR = 0 \<Longrightarrow> buf (activate f) = buf f" "flags f AND F_NOWR = 0 \<Longrightarrow> buf_size (activate f) = buf_size f"
  "flags f AND F_NOWR = 0 \<Longrightarrow> flags (activate f) = flags f"
  by (simp_all add: activate_def towrite_def Let_def)

lemma out_stream_end: "out_stream f m B \<Longrightarrow> buf f + buf_size f \<noteq> 0"
proof
  assume o: "out_stream f m B" and z: "buf f + buf_size f = 0"
  have "unat (buf f + buf_size f) = unat (buf f) + unat (buf_size f)" using o by (simp add: out_stream_def unat_word_ariths)
  moreover have "unat (buf f + buf_size f) = 0" using z by simp
  ultimately have "unat (buf f) = 0" by linarith
  then show False using o by (simp add: out_stream_def unat_eq_0)
qed

lemma out_stream_activate:
  assumes "out_stream f m B"
  shows "pending (activate f) m B" "out_stream (activate f) m B"
proof -
  have e: "buf f + buf_size f \<noteq> 0" using out_stream_end [OF assms] .
  show p: "pending (activate f) m B"
    using assms e by (auto simp: out_stream_def activate_def towrite_def pending_def Let_def split: if_splits)
  then have "wend (activate f) \<noteq> 0" unfolding pending_def by blast
  moreover have "\<not> rpos (activate f) < rend (activate f)" using assms by (simp add: out_stream_def activate_def towrite_def Let_def)
  ultimately show "out_stream (activate f) m B" using p assms by (simp add: out_stream_def)
qed

lemma fwritex_activate:
  assumes "flags f AND F_NOWR = 0" "buf f + buf_size f \<noteq> 0"
  shows "fwritex w s l (activate f) = fwritex w s l f"
  using assms by (auto simp: fwritex_def activate_def towrite_def Let_def)

lemma fputc_activate:
  assumes "flags f AND F_NOWR = 0" "buf f + buf_size f \<noteq> 0"
  shows "fputc w slot c (activate f) = fputc w slot c f"
  using assms by (auto simp: fputc_def putc_unlocked_def overflow_def activate_def towrite_def Let_def)

datatype out_call = Fwrite addr u64 u64 | Fputs addr | Fputc u32 | Fflush

fun do_call :: "'x writer \<Rightarrow> (FILE \<Rightarrow> u64 \<Rightarrow> (FILE, 'x) run) \<Rightarrow> addr \<Rightarrow> out_call \<Rightarrow> FILE \<Rightarrow> (u64 \<times> FILE, 'x) run" where
  "do_call w seek slot (Fwrite s sz n) f = fwrite w s sz n f"
| "do_call w seek slot (Fputs s) f = seq (fputs w s f) (\<lambda>(r, f). ret (ucast r, f))"
| "do_call w seek slot (Fputc c) f = seq (fputc w slot c f) (\<lambda>(r, f). ret (ucast r, f))"
| "do_call w seek slot Fflush f = seq (fflush w seek f) (\<lambda>(r, f). ret (ucast r, f))"

fun do_calls :: "'x writer \<Rightarrow> (FILE \<Rightarrow> u64 \<Rightarrow> (FILE, 'x) run) \<Rightarrow> addr \<Rightarrow> out_call list \<Rightarrow> FILE \<Rightarrow> (u64 list \<times> FILE, 'x) run" where
  "do_calls w seek slot [] f = ret ([], f)"
| "do_calls w seek slot (c # cs) f =
     seq (do_call w seek slot c f) (\<lambda>(r, f). seq (do_calls w seek slot cs f) (\<lambda>(rs, f). ret (r # rs, f)))"

text \<open>The bytes a call is to write, which are outside \<open>R\<close>, and the answer it is to give.\<close>

fun call_bytes :: "mem \<Rightarrow> addr set \<Rightarrow> out_call \<Rightarrow> byte list \<Rightarrow> bool" where
  "call_bytes m R (Fwrite s sz n) D \<longleftrightarrow> bytes_at m s D \<and> length D = unat sz * unat n \<and> length D < 2 ^ 62 \<and> reg s (length D) \<inter> R = {}"
| "call_bytes m R (Fputs s) D \<longleftrightarrow> word_mapped m \<and> cstr m s D \<and> length D < 2 ^ 62 \<and> reg s (Suc (length D)) \<inter> R = {}"
| "call_bytes m R (Fputc c) D \<longleftrightarrow> D = [ucast c]"
| "call_bytes m R Fflush D \<longleftrightarrow> D = []"

fun answer :: "out_call \<Rightarrow> u64" where
  "answer (Fwrite s sz n) = (if sz = 0 then 0 else n)"
| "answer (Fputs s) = 0"
| "answer (Fputc c) = ucast (ucast c :: byte)"
| "answer Fflush = 0"

lemma call_bytes_kept: "call_bytes m R c D \<Longrightarrow> same_but R m m' \<Longrightarrow> call_bytes m' R c D"
proof (induction m R c D rule: call_bytes.induct)
  case (1 m R s sz n D)
  have "reg s (length D) \<inter> R = {}" using 1(1) unfolding call_bytes.simps by blast
  from bytes_at_same_but [OF 1(2) this] show ?case using 1(1) unfolding call_bytes.simps by blast
next
  case (2 m R s D)
  then show ?case using bytes_at_same_but [of R m m' s "D @ [0]"] same_but_word_mapped [of R m m'] by (simp add: cstr_def)
qed simp_all

text \<open>One call: what was delivered and what is buffered are together what was put so far.\<close>

lemma do_call_ok:
  assumes W: "writev_ok writev outp" and o: "out_stream f m B" and slot: "m slot \<noteq> None" "slot \<notin> buf_reg f"
    and c: "call_bytes m (insert slot (buf_reg f)) c D"
  shows "\<exists>f' m' x' B'. do_call (stdio_write writev) seek slot c f m x = Some (Done (answer c, f') m' x') \<and> out_stream f' m' B' \<and>
    outp x' @ B' = outp x @ B @ D \<and> same_but (insert slot (buf_reg f)) m m' \<and> buf_reg f' = buf_reg f \<and> (c = Fflush \<longrightarrow> B' = [])"
proof -
  let ?w = "stdio_write writev" and ?R = "insert slot (buf_reg f)" and ?z = "unat (buf_size f)"
  let ?h = "fd_holds writev outp (buf f) ?z []"
  let ?foot = "reg (buf f) ?z"
  define g where "g = activate f"
  have nowr: "flags f AND F_NOWR = 0" using o by (simp add: out_stream_def)
  note A = out_stream_activate [OF o, folded g_def]
  note og = A(2) [unfolded out_stream_def]
  have g: "buf g = buf f" "buf_size g = buf_size f" "flags g = flags f" using nowr by (simp_all add: g_def)
  have foot: "?foot = buf_reg f" by (simp add: buf_reg_def)
  have "?h g m x (outp x)" using W og g by (simp add: fd_holds_def)
  then have st: "fdw.stream writev outp (buf f) ?z [] g m x (outp x @ B)" using A(1) by (auto simp: fdw.stream_def)
  have fin: "\<exists>B'. out_stream f' m' B' \<and> outp x' @ B' = T \<and> buf_reg f' = buf_reg f"
    if "fdw.stream writev outp (buf f) ?z [] f' m' x' T" "core f' = core g" for f' m' x' T
  proof -
    from that(1) obtain T0 B' where B': "T = T0 @ B'" "?h f' m' x' T0" "pending f' m' B'" unfolding fdw.stream_def by blast
    have k: "buf f' = buf f" "buf_size f' = buf_size f" "flags f' = flags f" "rpos f' = rpos g" "rend f' = rend g"
      using that(2) g by (simp_all add: core_def)
    then have "out_stream f' m' B'" using B'(3) og g by (auto simp: out_stream_def pending_def)
    then show ?thesis using B'(1,2) k by (auto simp: fd_holds_def buf_reg_def)
  qed
  have act: "buf f + buf_size f \<noteq> 0" using out_stream_end [OF o] .
  note X = fwritex_activate [OF nowr act, of ?w, folded g_def]
  show ?thesis
  proof (cases c)
    case (Fwrite s sz n)
    have r: "reg s (length D) \<inter> ?foot = {}" using c by (auto simp: Fwrite foot)
    obtain f' m' x' where w: "fwrite ?w s sz n g m x = Some (Done (if sz = 0 then 0 else n, f') m' x')"
        "fdw.stream writev outp (buf f) ?z [] f' m' x' ((outp x @ B) @ D)" "same_but ?foot m m'" "core f' = core g"
      using fdw.fwrite_ok [OF st _ _ r, of sz n] c by (auto simp: Fwrite)
    have "fwrite ?w s sz n f = fwrite ?w s sz n g" by (simp add: fwrite_def X)
    then have "do_call ?w seek slot c f m x = Some (Done (answer c, f') m' x')" using w(1) by (simp add: Fwrite)
    then show ?thesis using fin [OF w(2,4)] same_but_mono [OF w(3), of ?R] foot Fwrite by auto
  next
    case (Fputs s)
    have "reg s (length D) \<subseteq> reg s (Suc (length D))" by (rule reg_mono) simp
    then have r: "reg s (length D) \<inter> ?foot = {}" using c by (auto simp: Fputs foot)
    obtain f' m' x' where w: "fputs ?w s g m x = Some (Done (0, f') m' x')"
        "fdw.stream writev outp (buf f) ?z [] f' m' x' ((outp x @ B) @ D)" "same_but ?foot m m'" "core f' = core g"
      using fdw.fputs_ok [OF st _ _ _ r] c by (auto simp: Fputs)
    have "fputs ?w s f = fputs ?w s g" by (simp add: fputs_def fwrite_def X)
    then have "do_call ?w seek slot c f m x = Some (Done (answer c, f') m' x')" using w(1) by (simp add: Fputs seq_def ret_def)
    then show ?thesis using fin [OF w(2,4)] same_but_mono [OF w(3), of ?R] foot Fputs by auto
  next
    case (Fputc k)
    have nf: "slot \<notin> ?foot" using slot(2) by (simp add: foot)
    obtain f' m' x' where w: "fputc ?w slot k g m x = Some (Done (ucast (ucast k :: byte), f') m' x')"
        "fdw.stream writev outp (buf f) ?z [] f' m' x' ((outp x @ B) @ [ucast k])" "same_but (insert slot ?foot) m m'" "core f' = core g"
      using fdw.fputc_ok [OF st slot(1) nf] by blast
    have "fputc ?w slot k f = fputc ?w slot k g" using fputc_activate [OF nowr act, of ?w slot k] by (simp add: g_def)
    moreover have "ucast (ucast (ucast k :: byte) :: u32) = (ucast (ucast k :: byte) :: u64)" by (rule bit_word_eqI) (auto simp: bit_simps)
    ultimately have "do_call ?w seek slot c f m x = Some (Done (answer c, f') m' x')" using w(1) by (simp add: Fputc seq_def ret_def)
    then show ?thesis using fin [OF w(2,4)] w(3) foot c Fputc by auto
  next
    case Fflush
    show ?thesis
    proof (cases "wend f = 0")
      case True
      then have "\<not> wbase f < wpos f" "\<not> rpos f < rend f" "B = []" using o by (simp_all add: out_stream_def)
      then have "do_call ?w seek slot c f m x = Some (Done (answer c, f\<lparr>wpos := 0, wbase := 0, wend := 0, rpos := 0, rend := 0\<rparr>) m x)"
        by (simp add: Fflush fflush_def seq_def ret_def)
      moreover have "out_stream (f\<lparr>wpos := 0, wbase := 0, wend := 0, rpos := 0, rend := 0\<rparr>) m []" using o by (simp add: out_stream_def)
      ultimately show ?thesis using c \<open>B = []\<close> by (auto simp: Fflush buf_reg_def)
    next
      case False
      then have gf: "g = f" by (simp add: g_def activate_def)
      obtain f' m' x' g' where w: "fflush ?w seek f m x = Some (Done (0, f') m' x')" "?h g' m' x' (outp x @ B)" "same_but ?foot m m'"
          "core g' = core f" "f' = g'\<lparr>wpos := 0, wbase := 0, wend := 0, rpos := 0, rend := 0\<rparr>"
        using fdw.fflush_ok [OF st, of seek] og unfolding gf by blast
      have "mapped m' (buf f) ?z" using same_but_mapped [OF w(3)] o by (simp add: out_stream_def)
      then have "out_stream f' m' []" using w(4,5) o by (auto simp: out_stream_def core_def)
      moreover have "do_call ?w seek slot c f m x = Some (Done (answer c, f') m' x')" using w(1) by (simp add: Fflush seq_def ret_def)
      moreover have "buf_reg f' = buf_reg f" using w(4,5) by (simp add: buf_reg_def core_def)
      ultimately show ?thesis using w(2) same_but_mono [OF w(3), of ?R] foot c by (auto simp: Fflush fd_holds_def)
    qed
  qed
qed

lemma do_calls_ok:
  assumes W: "writev_ok writev outp"
  shows "out_stream f m B \<Longrightarrow> m slot \<noteq> None \<Longrightarrow> slot \<notin> buf_reg f \<Longrightarrow> list_all2 (call_bytes m (insert slot (buf_reg f))) cs Ds \<Longrightarrow>
    \<exists>f' m' x' B'. do_calls (stdio_write writev) seek slot cs f m x = Some (Done (map answer cs, f') m' x') \<and> out_stream f' m' B' \<and>
      outp x' @ B' = outp x @ B @ concat Ds \<and> same_but (insert slot (buf_reg f)) m m' \<and> buf_reg f' = buf_reg f"
proof (induction cs arbitrary: f m x B Ds)
  case Nil
  then show ?case by (auto simp: ret_def)
next
  case (Cons c cs)
  let ?R = "insert slot (buf_reg f)"
  obtain D Es where D: "Ds = D # Es" "call_bytes m ?R c D" "list_all2 (call_bytes m ?R) cs Es"
    using Cons.prems(4) by (auto simp: list_all2_Cons1)
  obtain f1 m1 x1 B1 where 1: "do_call (stdio_write writev) seek slot c f m x = Some (Done (answer c, f1) m1 x1)" "out_stream f1 m1 B1"
      "outp x1 @ B1 = outp x @ B @ D" "same_but ?R m m1" "buf_reg f1 = buf_reg f"
    using do_call_ok [OF W Cons.prems(1-3) D(2)] by blast
  have "list_all2 (call_bytes m1 (insert slot (buf_reg f1))) cs Es"
    using list_all2_mono [OF D(3)] call_bytes_kept [OF _ 1(4)] unfolding 1(5) by blast
  moreover have "m1 slot \<noteq> None" using 1(4) Cons.prems(2) by (simp add: same_but_def)
  moreover have "slot \<notin> buf_reg f1" using Cons.prems(3) 1(5) by simp
  ultimately obtain f' m' x' B' where 2: "do_calls (stdio_write writev) seek slot cs f1 m1 x1 = Some (Done (map answer cs, f') m' x')"
      "out_stream f' m' B'" "outp x' @ B' = outp x1 @ B1 @ concat Es" "same_but (insert slot (buf_reg f1)) m1 m'" "buf_reg f' = buf_reg f1"
    using Cons.IH [OF 1(2)] by blast
  have "outp x' @ B' = outp x @ B @ concat Ds" using 2(3) 1(3) D(1) by (metis append.assoc concat.simps(2))
  moreover have "same_but ?R m m'" using same_but_trans [OF 1(4)] 2(4) unfolding 1(5) by blast
  moreover have "do_calls (stdio_write writev) seek slot (c # cs) f m x = Some (Done (map answer (c # cs), f') m' x')"
    using 1(1) 2(1) by (simp add: seq_def ret_def)
  ultimately show ?case using 2(2,5) 1(5) by auto
qed

text \<open>A program that flushes at its end has everything delivered.\<close>

lemma do_calls_flush:
  assumes W: "writev_ok writev outp" and o: "out_stream f m B" and slot: "m slot \<noteq> None" "slot \<notin> buf_reg f"
    and c: "list_all2 (call_bytes m (insert slot (buf_reg f))) cs Ds"
  shows "\<exists>f' m' x'. seq (do_calls (stdio_write writev) seek slot cs f)
      (\<lambda>(rs, f). seq (fflush (stdio_write writev) seek f) (\<lambda>(r, f). ret (rs, r, f))) m x = Some (Done (map answer cs, 0, f') m' x') \<and>
    outp x' = outp x @ B @ concat Ds \<and> out_stream f' m' [] \<and> same_but (insert slot (buf_reg f)) m m'"
proof -
  obtain f1 m1 x1 B1 where 1: "do_calls (stdio_write writev) seek slot cs f m x = Some (Done (map answer cs, f1) m1 x1)" "out_stream f1 m1 B1"
      "outp x1 @ B1 = outp x @ B @ concat Ds" "same_but (insert slot (buf_reg f)) m m1" "buf_reg f1 = buf_reg f"
    using do_calls_ok [OF W o slot c] by blast
  have "m1 slot \<noteq> None" using 1(4) slot(1) by (simp add: same_but_def)
  then obtain f' m' x' where 2: "do_call (stdio_write writev) seek slot Fflush f1 m1 x1 = Some (Done (0, f') m' x')" "out_stream f' m' []"
      "outp x' = outp x1 @ B1" "same_but (insert slot (buf_reg f)) m1 m'"
    using do_call_ok [OF W 1(2), of slot Fflush "[]" seek x1] slot(2) 1(5) by auto
  obtain r where r: "fflush (stdio_write writev) seek f1 m1 x1 = Some (Done (r, f') m' x')" "(ucast r :: u64) = 0"
    using 2(1) by (auto simp: seq_def ret_def split: option.splits outcome.splits bind_splits)
  have "r = ucast (ucast r :: u64)" by (rule bit_word_eqI) (auto simp: bit_simps)
  then have "r = 0" using r(2) by simp
  then show ?thesis using r(1) 1(1,3) 2(2,3) same_but_trans [OF 1(4) 2(4)] by (auto simp: seq_def ret_def)
qed

section \<open>A system call for examples\<close>

text \<open>A \<open>writev\<close> that takes at most two bytes at a time.\<close>

fun iov_load :: "mem \<Rightarrow> iovec list \<Rightarrow> byte list option" where
  "iov_load m [] = Some []"
| "iov_load m ((a, n) # iov) =
     do { xs \<leftarrow> load_bytes m a (unat n); ys \<leftarrow> iov_load m iov; Some (xs @ ys) }"

definition demo_writev :: "u32 \<Rightarrow> iovec list \<Rightarrow> (u64, byte list) run" where
  "demo_writev d iov m x =
     (case iov_load m iov of None \<Rightarrow> Some (Done (- 1) m x)
      | Some bs \<Rightarrow> Some (Done (of_nat (min 2 (length bs))) m (x @ take 2 bs)))"

lemma iov_load_bytes: "iov_bytes m iov bs \<Longrightarrow> iov_load m iov = Some bs"
proof (induction m iov bs rule: iov_bytes.induct)
  case (2 m a n iov bs)
  then have "load_bytes m a (unat n) = Some (take (unat n) bs)"
    using load_bytes_at [of m a "take (unat n) bs"] by simp
  with 2 show ?case by simp
qed simp

lemma demo_writev_ok: "writev_ok demo_writev (\<lambda>x. x)"
  unfolding writev_ok_def
proof (intro allI impI)
  fix d iov m x bs assume "iov_bytes m iov bs"
  then have "demo_writev d iov m x = Some (Done (of_nat (min 2 (length bs))) m (x @ take 2 bs))"
    by (simp add: demo_writev_def iov_load_bytes)
  then show "\<exists>k x'. k \<le> length bs \<and> (bs \<noteq> [] \<longrightarrow> 0 < k) \<and> demo_writev d iov m x = Some (Done (of_nat k) m x') \<and>
      x' = x @ take k bs"
    by (intro exI [of _ "min 2 (length bs)"] exI [of _ "x @ take 2 bs"]) (simp add: min_def)
qed

definition demo_file :: FILE where
  "demo_file =
     \<lparr>flags = 0, rpos = 0, rend = 0, wend = 0, wpos = 0, wbase = 0, buf = 0x2000, buf_size = 8, fd = 1,
      mode = 0, lbf = 10, fcookie = \<lparr>ck_s = 0, ck_n = 0\<rparr>\<rparr>"

lemma demo_file_out: "out_stream demo_file (flat a bs) []"
  by (simp add: out_stream_def demo_file_def F_NOWR_def)

end
