(* ===== verification/Multibyte.thy ===== *)
theory Multibyte
  imports Mem
begin

text \<open>
  UTF-8 conversion, \<^verbatim>\<open>musl/src/multibyte\<close>: the table-driven decoder \<open>mbrtowc\<close>, which can stop
  inside a character and go on later from its state word, the encoder \<open>wcrtomb\<close>, and the
  functions on top of them. A call returns its result and the memory.
\<close>

section \<open>The decoder table\<close>

text \<open>The macros \<open>R\<close>, \<open>C\<close>, \<open>D\<close>, \<open>E\<close>, \<open>F\<close> of \<^verbatim>\<open>internal.h\<close> and \<^verbatim>\<open>internal.c\<close>.\<close>

definition mb_R :: "u32 \<Rightarrow> u32 \<Rightarrow> u32" where
  "mb_R a b = push_bit 23 (if a = 0x80 then 0x40 - b else 0 - a)"

definition mb_C :: "u32 \<Rightarrow> u32" where
  "mb_C x = (if x < 2 then - 1 else mb_R 0x80 0xc0 OR x)"

definition mb_D :: "u32 \<Rightarrow> u32" where
  "mb_D x = mb_C (x + 16)"

definition mb_E :: "u32 \<Rightarrow> u32" where
  "mb_E x =
     (if x = 0 then mb_R 0xa0 0xc0 else if x = 0xd then mb_R 0x80 0xa0 else mb_R 0x80 0xc0) OR
     drop_bit 6 (mb_R 0x80 0xc0) OR x"

definition mb_F :: "u32 \<Rightarrow> u32" where
  "mb_F x =
     (if 5 \<le> x then 0 else if x = 0 then mb_R 0x90 0xc0 else if x = 4 then mb_R 0x80 0x90 else mb_R 0x80 0xc0) OR
     drop_bit 6 (mb_R 0x80 0xc0) OR drop_bit 12 (mb_R 0x80 0xc0) OR x"

definition bittab :: "u32 list" where
  "bittab =
     map mb_C [2, 3, 4, 5, 6, 7, 8, 9, 10, 11, 12, 13, 14, 15] @
     map mb_D [0, 1, 2, 3, 4, 5, 6, 7, 8, 9, 10, 11, 12, 13, 14, 15] @
     map mb_E [0, 1, 2, 3, 4, 5, 6, 7, 8, 9, 10, 11, 12, 13, 14, 15] @
     map mb_F [0, 1, 2, 3, 4]"

text \<open>The bound check for the second byte: the upper six bits of the state are an offset.\<close>

definition mb_oob :: "u32 \<Rightarrow> byte \<Rightarrow> bool" where
  "mb_oob c b \<longleftrightarrow>
     ((ucast (drop_bit 3 b) - 0x10) OR (ucast (drop_bit 3 b) + signed_drop_bit 26 c)) AND NOT 7 \<noteq> (0 :: u32)"

definition mb_step :: "u32 \<Rightarrow> byte \<Rightarrow> u32" where
  "mb_step c b = push_bit 6 c OR (ucast b - 0x80)"

definition CODEUNIT :: "byte \<Rightarrow> u32" where
  "CODEUNIT c = 0xdfff AND scast c"

definition IS_CODEUNIT :: "u32 \<Rightarrow> bool" where
  "IS_CODEUNIT c \<longleftrightarrow> c - 0xdf80 < 0x80"

section \<open>Conversion functions\<close>

text \<open>
  \<open>one_byte\<close>: \<open>MB_CUR_MAX == 1\<close> in the current locale; the other fields are the addresses of
  \<open>errno\<close>, of the static \<open>internal_state\<close> and of the local \<open>dummy\<close>.
\<close>

record mbenv =
  one_byte :: bool
  errno_at :: addr
  mb_state_at :: addr
  dummy_at :: addr

definition EILSEQ :: u32 where "EILSEQ = 84"

definition ilseq :: "mbenv \<Rightarrow> mem \<Rightarrow> (u64 \<times> mem) option" where
  "ilseq E m = do { m \<leftarrow> store32 m (errno_at E) EILSEQ; Some (- 1, m) }"

definition ilseq_reset :: "mbenv \<Rightarrow> addr \<Rightarrow> mem \<Rightarrow> (u64 \<times> mem) option" where
  "ilseq_reset E st m = do { m \<leftarrow> store32 m st 0; ilseq E m }"

text \<open>From the label \<open>loop\<close>; \<open>N\<close> is the count the call started with, cut to 32 bits.\<close>

partial_function (option) mbrtowc_loop ::
  "mbenv \<Rightarrow> addr \<Rightarrow> addr \<Rightarrow> u32 \<Rightarrow> mem \<Rightarrow> u32 \<Rightarrow> addr \<Rightarrow> u64 \<Rightarrow> (u64 \<times> mem) option" where
  "mbrtowc_loop E wc st N m c s n =
     do { b \<leftarrow> m s;
          let c = mb_step c b;
          let s = s + 1;
          let n = n - 1;
          if \<not> bit c 31 then
            do { m \<leftarrow> store32 m st 0; m \<leftarrow> store32 m wc c; Some (ucast N - n, m) }
          else if n \<noteq> 0 then
            do { b \<leftarrow> m s;
                 if 0x40 \<le> (ucast b - 0x80 :: u32) then ilseq_reset E st m
                 else mbrtowc_loop E wc st N m c s n }
          else do { m \<leftarrow> store32 m st c; Some (- 2, m) } }"

definition mbrtowc_rest ::
  "mbenv \<Rightarrow> addr \<Rightarrow> addr \<Rightarrow> u32 \<Rightarrow> mem \<Rightarrow> u32 \<Rightarrow> addr \<Rightarrow> u64 \<Rightarrow> (u64 \<times> mem) option" where
  "mbrtowc_rest E wc st N m c s n =
     (if n \<noteq> 0 then
        do { b \<leftarrow> m s; if mb_oob c b then ilseq_reset E st m else mbrtowc_loop E wc st N m c s n }
      else do { m \<leftarrow> store32 m st c; Some (- 2, m) })"

definition mbrtowc :: "mbenv \<Rightarrow> mem \<Rightarrow> addr \<Rightarrow> addr \<Rightarrow> u64 \<Rightarrow> addr \<Rightarrow> (u64 \<times> mem) option" where
  "mbrtowc E m wc s n st =
     (let N = ucast n; st = (if st = 0 then mb_state_at E else st)
      in do { c \<leftarrow> load32 m st;
              if s = 0 then (if c \<noteq> 0 then ilseq_reset E st m else Some (0, m))
              else
                (let wc = (if wc = 0 then dummy_at E else wc)
                 in if n = 0 then Some (- 2, m)
                 else if c = 0 then
                   do { b \<leftarrow> m s;
                        if b < 0x80 then
                          do { m \<leftarrow> store32 m wc (ucast b); Some (if b \<noteq> 0 then 1 else 0, m) }
                        else if one_byte E then
                          do { m \<leftarrow> store32 m wc (CODEUNIT b); Some (1, m) }
                        else if 0xf4 - 0xc2 < (ucast b - 0xc2 :: u32) then ilseq_reset E st m
                        else mbrtowc_rest E wc st N m (bittab ! unat (b - 0xc2)) (s + 1) (n - 1) }
                 else mbrtowc_rest E wc st N m c s n) })"

definition wcrtomb :: "mbenv \<Rightarrow> mem \<Rightarrow> addr \<Rightarrow> u32 \<Rightarrow> (u64 \<times> mem) option" where
  "wcrtomb E m s wc =
     (if s = 0 then Some (1, m)
      else if wc < 0x80 then do { m \<leftarrow> store8 m s (ucast wc); Some (1, m) }
      else if one_byte E then
        (if \<not> IS_CODEUNIT wc then ilseq E m
         else do { m \<leftarrow> store8 m s (ucast wc); Some (1, m) })
      else if wc < 0x800 then
        do { m \<leftarrow> store8 m s (ucast (0xc0 OR drop_bit 6 wc));
             m \<leftarrow> store8 m (s + 1) (ucast (0x80 OR (wc AND 0x3f)));
             Some (2, m) }
      else if wc < 0xd800 \<or> wc - 0xe000 < 0x2000 then
        do { m \<leftarrow> store8 m s (ucast (0xe0 OR drop_bit 12 wc));
             m \<leftarrow> store8 m (s + 1) (ucast (0x80 OR (drop_bit 6 wc AND 0x3f)));
             m \<leftarrow> store8 m (s + 2) (ucast (0x80 OR (wc AND 0x3f)));
             Some (3, m) }
      else if wc - 0x10000 < 0x100000 then
        do { m \<leftarrow> store8 m s (ucast (0xf0 OR drop_bit 18 wc));
             m \<leftarrow> store8 m (s + 1) (ucast (0x80 OR (drop_bit 12 wc AND 0x3f)));
             m \<leftarrow> store8 m (s + 2) (ucast (0x80 OR (drop_bit 6 wc AND 0x3f)));
             m \<leftarrow> store8 m (s + 3) (ucast (0x80 OR (wc AND 0x3f)));
             Some (4, m) }
      else ilseq E m)"

text \<open>\<open>mbtowc\<close>: the same decoder, unrolled and without a state.\<close>

definition mbtowc_ilseq :: "mbenv \<Rightarrow> mem \<Rightarrow> (u32 \<times> mem) option" where
  "mbtowc_ilseq E m = do { m \<leftarrow> store32 m (errno_at E) EILSEQ; Some (- 1, m) }"

definition mbtowc_tail :: "mbenv \<Rightarrow> mem \<Rightarrow> addr \<Rightarrow> addr \<Rightarrow> u64 \<Rightarrow> u32 \<Rightarrow> (u32 \<times> mem) option" where
  "mbtowc_tail E m wc s n c =
     (if n < 4 \<and> bit (push_bit (unat (6 * n - 6)) c) 31 then mbtowc_ilseq E m
      else do {
        b \<leftarrow> m s;
        if mb_oob c b then mbtowc_ilseq E m
        else let c = mb_step c b in
          if \<not> bit c 31 then do { m \<leftarrow> store32 m wc c; Some (2, m) }
          else do {
            b \<leftarrow> m (s + 1);
            if 0x40 \<le> (ucast b - 0x80 :: u32) then mbtowc_ilseq E m
            else let c = mb_step c b in
              if \<not> bit c 31 then do { m \<leftarrow> store32 m wc c; Some (3, m) }
              else do {
                b \<leftarrow> m (s + 2);
                if 0x40 \<le> (ucast b - 0x80 :: u32) then mbtowc_ilseq E m
                else do { m \<leftarrow> store32 m wc (mb_step c b); Some (4, m) } } } })"

definition mbtowc :: "mbenv \<Rightarrow> mem \<Rightarrow> addr \<Rightarrow> addr \<Rightarrow> u64 \<Rightarrow> (u32 \<times> mem) option" where
  "mbtowc E m wc s n =
     (if s = 0 then Some (0, m)
      else if n = 0 then mbtowc_ilseq E m
      else let wc = (if wc = 0 then dummy_at E else wc) in
        do { b \<leftarrow> m s;
             if b < 0x80 then do { m \<leftarrow> store32 m wc (ucast b); Some (if b \<noteq> 0 then 1 else 0, m) }
             else if one_byte E then do { m \<leftarrow> store32 m wc (CODEUNIT b); Some (1, m) }
             else if 0xf4 - 0xc2 < (ucast b - 0xc2 :: u32) then mbtowc_ilseq E m
             else mbtowc_tail E m wc (s + 1) n (bittab ! unat (b - 0xc2)) })"

definition wctomb :: "mbenv \<Rightarrow> mem \<Rightarrow> addr \<Rightarrow> u32 \<Rightarrow> (u32 \<times> mem) option" where
  "wctomb E m s wc = (if s = 0 then Some (0, m) else do { (n, m) \<leftarrow> wcrtomb E m s wc; Some (ucast n, m) })"

definition mblen :: "mbenv \<Rightarrow> mem \<Rightarrow> addr \<Rightarrow> u64 \<Rightarrow> (u32 \<times> mem) option" where
  "mblen E m s n = mbtowc E m 0 s n"

text \<open>\<open>internal\<close> is the address of the static state of \<open>mbrlen\<close>.\<close>

definition mbrlen :: "mbenv \<Rightarrow> addr \<Rightarrow> mem \<Rightarrow> addr \<Rightarrow> u64 \<Rightarrow> addr \<Rightarrow> (u64 \<times> mem) option" where
  "mbrlen E internal m s n st = mbrtowc E m 0 s n (if st \<noteq> 0 then st else internal)"

definition mbsinit :: "mem \<Rightarrow> addr \<Rightarrow> bool option" where
  "mbsinit m st = (if st = 0 then Some True else do { c \<leftarrow> load32 m st; Some (c = 0) })"

definition btowc :: "bool \<Rightarrow> u32 \<Rightarrow> u32" where
  "btowc one c =
     (let b = ucast (ucast c :: byte) :: u32
      in if b < 128 then b else if one \<and> c \<noteq> - 1 then CODEUNIT (ucast c) else - 1)"

definition wctob :: "bool \<Rightarrow> u32 \<Rightarrow> u32" where
  "wctob one c =
     (if c < 128 then c else if one \<and> IS_CODEUNIT c then ucast (ucast c :: byte) else - 1)"

section \<open>Encoding and decoding\<close>

text \<open>The bytes \<open>wcrtomb\<close> writes, and the code points it accepts.\<close>

definition cont :: "u32 \<Rightarrow> byte" where
  "cont x = ucast (0x80 OR (x AND 0x3f))"

definition utf8 :: "u32 \<Rightarrow> byte list" where
  "utf8 wc =
     (if wc < 0x80 then [ucast wc]
      else if wc < 0x800 then [ucast (0xc0 OR drop_bit 6 wc), cont wc]
      else if wc < 0x10000 then [ucast (0xe0 OR drop_bit 12 wc), cont (drop_bit 6 wc), cont wc]
      else [ucast (0xf0 OR drop_bit 18 wc), cont (drop_bit 12 wc), cont (drop_bit 6 wc), cont wc])"

definition scalar :: "u32 \<Rightarrow> bool" where
  "scalar wc \<longleftrightarrow> wc < 0xd800 \<or> 0xe000 \<le> wc \<and> wc < 0x110000"

lemma and_3f: "x AND 0x3f = take_bit 6 (x :: u32)"
  by (simp add: take_bit_eq_mask mask_eq_exp_minus_1)

lemma bit_80: "bit (0x80 :: int) k \<longleftrightarrow> k = 7"
proof -
  have "(0x80 :: int) = push_bit 7 1" by simp
  then show ?thesis by (simp only: bit_push_bit_iff_int bit_1_iff) auto
qed

lemma or_80: "(0x80 :: u32) OR take_bit 6 x = 0x80 + take_bit 6 x"
  by (rule disjunctive_add_eq_or [symmetric], rule bit_word_eqI) (auto simp: bit_and_iff bit_take_bit_iff bit_80)

lemma ucast_cont: "ucast (cont x) = (0x80 :: u32) OR take_bit 6 x"
  by (rule bit_word_eqI) (auto simp: cont_def and_3f bit_ucast_iff bit_or_iff bit_take_bit_iff bit_80)

lemma cont_value: "ucast (cont x) - 0x80 = take_bit 6 x"
  by (simp add: ucast_cont or_80)

lemma take6_less: "take_bit 6 (x :: u32) < 0x40"
  by (simp add: word_less_nat_alt unsigned_take_bit_eq take_bit_nat_def)

lemma cont_ok: "\<not> 0x40 \<le> ucast (cont x) - (0x80 :: u32)"
  using take6_less [of x] by (simp only: cont_value not_le)

lemma mb_step_cont: "mb_step c (cont x) = push_bit 6 c OR take_bit 6 x"
  by (simp only: mb_step_def cont_value)

text \<open>The table entries, by class; \<open>hi\<close> keeps the offset of the bound check.\<close>

lemma bittab_list:
  "bittab =
    [0xc0000002, 0xc0000003, 0xc0000004, 0xc0000005, 0xc0000006, 0xc0000007,
     0xc0000008, 0xc0000009, 0xc000000a, 0xc000000b, 0xc000000c, 0xc000000d,
     0xc000000e, 0xc000000f, 0xc0000010, 0xc0000011, 0xc0000012, 0xc0000013,
     0xc0000014, 0xc0000015, 0xc0000016, 0xc0000017, 0xc0000018, 0xc0000019,
     0xc000001a, 0xc000001b, 0xc000001c, 0xc000001d, 0xc000001e, 0xc000001f,
     0xb3000000, 0xc3000001, 0xc3000002, 0xc3000003, 0xc3000004, 0xc3000005,
     0xc3000006, 0xc3000007, 0xc3000008, 0xc3000009, 0xc300000a, 0xc300000b,
     0xc300000c, 0xd300000d, 0xc300000e, 0xc300000f, 0xbb0c0000, 0xc30c0001,
     0xc30c0002, 0xc30c0003, 0xdb0c0004]"
  by code_simp

lemma bittab_C: "x \<in> {2..<32} \<Longrightarrow> bittab ! (x - 2) = 0xC0000000 OR of_nat x"
proof -
  have "\<forall>x\<in>set [2..<32]. bittab ! (x - 2) = 0xC0000000 OR of_nat x" unfolding bittab_list by code_simp
  then show "x \<in> {2..<32} \<Longrightarrow> ?thesis" unfolding atLeastLessThan_upt [symmetric] by blast
qed

lemma bittab_E: "x < 16 \<Longrightarrow> push_bit 6 (bittab ! (x + 30)) = 0xC0000000 OR push_bit 6 (of_nat x)"
proof -
  have "\<forall>x\<in>set [0..<16]. push_bit 6 (bittab ! (x + 30)) = 0xC0000000 OR push_bit 6 (of_nat x)" unfolding bittab_list by code_simp
  then show "x < 16 \<Longrightarrow> ?thesis" unfolding atLeastLessThan_upt [symmetric] by simp
qed

lemma bittab_F: "x < 5 \<Longrightarrow> push_bit 12 (bittab ! (x + 46)) = 0xC0000000 OR push_bit 12 (of_nat x)"
proof -
  have "\<forall>x\<in>set [0..<5]. push_bit 12 (bittab ! (x + 46)) = 0xC0000000 OR push_bit 12 (of_nat x)" unfolding bittab_list by code_simp
  then show "x < 5 \<Longrightarrow> ?thesis" unfolding atLeastLessThan_upt [symmetric] by simp
qed

lemma bittab_F_bit: "x < 5 \<Longrightarrow> bit (push_bit 6 (bittab ! (x + 46))) 31"
proof -
  have "\<forall>x\<in>set [0..<5]. bit (push_bit 6 (bittab ! (x + 46))) 31" unfolding bittab_list by code_simp
  then show "x < 5 \<Longrightarrow> ?thesis" unfolding atLeastLessThan_upt [symmetric] by simp
qed

text \<open>The bound check accepts exactly the second bytes of the well-formed sequences.\<close>

definition second_ok :: "nat \<Rightarrow> nat \<Rightarrow> bool" where
  "second_ok i y \<longleftrightarrow> (i = 30 \<longrightarrow> 0x20 \<le> y) \<and> (i = 43 \<longrightarrow> y < 0x20) \<and> (i = 46 \<longrightarrow> 0x10 \<le> y) \<and> (i = 50 \<longrightarrow> y < 0x10)"

definition mb_offset :: "nat \<Rightarrow> u32" where
  "mb_offset i = (if i = 30 then - 20 else if i = 43 then - 12 else if i = 46 then - 18 else if i = 50 then - 10 else - 16)"

lemma mb_offset_tab: "\<forall>i\<in>set [0..<51]. signed_drop_bit 26 (bittab ! i) = mb_offset i"
  unfolding bittab_list by code_simp

lemma mb_offset_check:
  "\<forall>i\<in>{0, 30, 43, 46, 50}. \<forall>y\<in>set [0..<64].
     ((ucast (drop_bit 3 (0x80 OR of_nat y :: byte)) - 0x10) OR
      (ucast (drop_bit 3 (0x80 OR of_nat y :: byte)) + mb_offset i)) AND NOT 7 \<noteq> (0 :: u32) \<longleftrightarrow> \<not> second_ok i y"
  by code_simp

lemma mb_oob_check:
  assumes i: "i < 51" and y: "y < 64"
  shows "mb_oob (bittab ! i) (0x80 OR of_nat y) \<longleftrightarrow> \<not> second_ok i y"
proof -
  have t: "signed_drop_bit 26 (bittab ! i) = mb_offset i"
    using mb_offset_tab i unfolding atLeastLessThan_upt [symmetric] by simp
  define j where "j = (if i \<in> {30, 43, 46, 50} then i else 0)"
  have j: "mb_offset i = mb_offset j" "second_ok i y = second_ok j y" "j \<in> {0, 30, 43, 46, 50}"
    by (auto simp: j_def mb_offset_def second_ok_def)
  have "y \<in> set [0..<64]" using y by simp
  then show ?thesis
    unfolding mb_oob_def t j(1,2) using mb_offset_check j(3) by blast
qed

lemma split6: "push_bit 6 (drop_bit 6 w) OR take_bit 6 w = (w :: u32)"
  by (rule bit_word_eqI) (auto simp: bit_simps)

lemma small_bit: "unat w < 2 ^ k \<Longrightarrow> k \<le> j \<Longrightarrow> \<not> bit (w :: u32) j"
proof -
  assume w: "unat w < 2 ^ k" and j: "k \<le> j"
  have "(2 :: nat) ^ k \<le> 2 ^ j" using j by simp
  with w have "unat w < 2 ^ j" by linarith
  then have "unat w div 2 ^ j = 0" by simp
  then have "\<not> bit (unat w) j" by (simp add: bit_iff_odd)
  then show ?thesis by (simp add: bit_unsigned_iff)
qed

lemma bit_C0: "bit (0xC0000000 OR w :: u32) 31"
  by (simp add: bit_or_iff)

lemma cont_of_nat: "cont x = 0x80 OR of_nat (unat (take_bit 6 x))"
  by (rule bit_word_eqI) (auto simp: cont_def and_3f bit_simps bit_word_of_nat bit_unsigned_iff)

lemma loop_last:
  assumes "m s = Some (cont y)" "\<not> bit (push_bit 6 c OR take_bit 6 y) 31"
  shows "mbrtowc_loop E wc st N m c s n =
    do { m \<leftarrow> store32 m st 0; m \<leftarrow> store32 m wc (push_bit 6 c OR take_bit 6 y); Some (ucast N - (n - 1), m) }"
  using assms by (subst mbrtowc_loop.simps) (simp add: mb_step_cont Let_def)

lemma loop_next:
  assumes "m s = Some (cont y)" "m (s + 1) = Some (cont z)" "bit (push_bit 6 c OR take_bit 6 y) 31" "n - 1 \<noteq> 0"
  shows "mbrtowc_loop E wc st N m c s n = mbrtowc_loop E wc st N m (push_bit 6 c OR take_bit 6 y) (s + 1) (n - 1)"
  using assms cont_ok [of z] by (subst mbrtowc_loop.simps) (simp add: mb_step_cont Let_def)

text \<open>The last step of every character: the state has become the high bits of the code point.\<close>

lemma loop_finish:
  assumes "m s = Some (cont wc)" "unat wc < 2 ^ 31"
  shows "mbrtowc_loop E a st N m (0xC0000000 OR drop_bit 6 wc) s n =
    do { m \<leftarrow> store32 m st 0; m \<leftarrow> store32 m a wc; Some (ucast N - (n - 1), m) }"
proof -
  have e: "push_bit 6 (0xC0000000 OR drop_bit 6 wc) OR take_bit 6 wc = wc"
  proof -
    have "push_bit 6 (0xC0000000 :: u32) = 0" by code_simp
    then show ?thesis by (simp only: push_bit_or or.left_neutral split6)
  qed
  show ?thesis
    using loop_last [of m s wc "0xC0000000 OR drop_bit 6 wc" E a st N n] assms(1) small_bit [OF assms(2), of 31]
    unfolding e by blast
qed

lemma drop_drop6: "push_bit 6 (drop_bit 12 wc) OR take_bit 6 (drop_bit 6 wc) = (drop_bit 6 wc :: u32)"
  using split6 [of "drop_bit 6 wc"] by simp

lemma drop_drop12: "push_bit 6 (drop_bit 18 wc) OR take_bit 6 (drop_bit 12 wc) = (drop_bit 12 wc :: u32)"
  using split6 [of "drop_bit 12 wc"] by simp

text \<open>The first byte and its table index.\<close>

lemma lead_bytes:
  "\<forall>x\<in>set [0..<32]. (ucast ((0xc0 :: u32) OR of_nat x) :: byte) = of_nat (0xc0 + x)"
  "\<forall>x\<in>set [0..<16]. (ucast ((0xe0 :: u32) OR of_nat x) :: byte) = of_nat (0xe0 + x)"
  "\<forall>x\<in>set [0..<5]. (ucast ((0xf0 :: u32) OR of_nat x) :: byte) = of_nat (0xf0 + x)"
  by code_simp+

lemma lead_byte:
  "unat v < 32 \<Longrightarrow> (ucast ((0xc0 :: u32) OR v) :: byte) = of_nat (0xc0 + unat v)"
  "unat v < 16 \<Longrightarrow> (ucast ((0xe0 :: u32) OR v) :: byte) = of_nat (0xe0 + unat v)"
  "unat v < 5 \<Longrightarrow> (ucast ((0xf0 :: u32) OR v) :: byte) = of_nat (0xf0 + unat v)"
  using lead_bytes unfolding atLeastLessThan_upt [symmetric] by (metis atLeastLessThan_iff zero_le of_nat_unat ucast_id)+

lemma lead_checks:
  assumes k: "0xc2 \<le> k" "k \<le> 0xf4" and b: "b = (of_nat k :: byte)"
  shows "\<not> b < 0x80" "\<not> 0xf4 - 0xc2 < (ucast b - 0xc2 :: u32)" "unat (b - 0xc2) = k - 0xc2" "b \<noteq> 0"
proof -
  have u: "unat b = k" using k b by (simp add: unat_of_nat)
  then show "\<not> b < 0x80" "b \<noteq> 0" using k by (auto simp: word_less_nat_alt)
  have "unat (ucast b - 0xc2 :: u32) = k - 0xc2"
    using k u by (subst unat_sub) (simp_all add: word_le_nat_alt unsigned_ucast_eq take_bit_nat_def)
  then show "\<not> 0xf4 - 0xc2 < (ucast b - 0xc2 :: u32)" using k by (simp add: word_less_nat_alt)
  show "unat (b - 0xc2) = k - 0xc2" using k u by (subst unat_sub) (simp_all add: word_le_nat_alt)
qed

lemma class_bounds:
  "wc < 0x800 \<Longrightarrow> unat (drop_bit 6 wc) < 32" "\<not> wc < 0x80 \<Longrightarrow> 2 \<le> unat (drop_bit 6 wc)"
  "wc < 0x10000 \<Longrightarrow> unat (drop_bit 12 wc) < 16" "wc < 0x110000 \<Longrightarrow> unat (drop_bit 18 wc) < 5"
  for wc :: u32
  by (auto simp: unat_drop_bit word_less_nat_alt)

lemma take_drop_nat: "unat (take_bit 6 (drop_bit k wc)) = unat wc div 2 ^ k mod 64" for wc :: u32
  by (simp add: unsigned_take_bit_eq take_bit_nat_def unat_drop_bit)

lemma oob_cont: "i < 51 \<Longrightarrow> mb_oob (bittab ! i) (cont y) \<longleftrightarrow> \<not> second_ok i (unat (take_bit 6 y))"
  using take6_less [of y] unfolding cont_of_nat by (subst mb_oob_check) (auto simp: word_less_nat_alt)

lemma second3:
  assumes "\<not> wc < 0x800" "wc < 0x10000" "scalar wc"
  shows "second_ok (unat (drop_bit 12 wc) + 30) (unat (take_bit 6 (drop_bit 6 wc)))"
proof -
  define w where "w = unat wc"
  have w: "0x800 \<le> w" "w < 0x10000" "w < 0xd800 \<or> 0xe000 \<le> w"
    using assms by (auto simp: scalar_def w_def word_less_nat_alt word_le_nat_alt)
  define q where "q = w div 64"
  have q: "0x20 \<le> q" "q < 0x400" "q < 0x360 \<or> 0x380 \<le> q" using w unfolding q_def by linarith+
  have d: "w div 4096 = q div 64" by (simp add: q_def div_mult2_eq [symmetric])
  have "q div 64 = 0 \<Longrightarrow> 0x20 \<le> q mod 64" using q(1) by (simp add: div_eq_0_iff)
  moreover have "q div 64 = 13 \<Longrightarrow> q mod 64 < 0x20"
    using q mult_div_mod_eq [of 64 q] by linarith
  moreover have "q div 64 < 16" using q(2) mult_div_mod_eq [of 64 q] by linarith
  ultimately have "(w div 4096 = 0 \<longrightarrow> 0x20 \<le> w div 64 mod 64) \<and> (w div 4096 = 13 \<longrightarrow> w div 64 mod 64 < 0x20) \<and> w div 4096 < 16"
    unfolding d q_def [symmetric] by blast
  then show ?thesis by (simp add: second_ok_def take_drop_nat unat_drop_bit flip: w_def)
qed

lemma second4:
  fixes wc :: u32
  assumes "\<not> wc < 0x10000" "wc < 0x110000"
  shows "second_ok (unat (drop_bit 18 wc) + 46) (unat (take_bit 6 (drop_bit 12 wc)))"
proof -
  define w where "w = unat wc"
  have w: "0x10000 \<le> w" "w < 0x110000"
    using assms by (auto simp: w_def word_less_nat_alt)
  define q where "q = w div 4096"
  have q: "0x10 \<le> q" "q < 0x110" using w unfolding q_def by linarith+
  have d: "w div 262144 = q div 64" by (simp add: q_def div_mult2_eq [symmetric])
  have "q div 64 = 0 \<Longrightarrow> 0x10 \<le> q mod 64" using q(1) by (simp add: div_eq_0_iff)
  moreover have "q div 64 = 4 \<Longrightarrow> q mod 64 < 0x10"
    using q mult_div_mod_eq [of 64 q] by linarith
  ultimately have "(w div 262144 = 0 \<longrightarrow> 0x10 \<le> w div 4096 mod 64) \<and> (w div 262144 = 4 \<longrightarrow> w div 4096 mod 64 < 0x10)"
    unfolding d q_def [symmetric] by blast
  then show ?thesis by (simp add: second_ok_def take_drop_nat unat_drop_bit flip: w_def)
qed

lemma scalar_small: "scalar wc \<Longrightarrow> unat wc < 2 ^ 31"
  by (auto simp: scalar_def word_less_nat_alt)

text \<open>Everything after the first byte, for the three multibyte classes.\<close>

lemma rest2:
  assumes "\<not> wc < 0x80" "wc < 0x800" "m s = Some (cont wc)" "n \<noteq> 0"
  shows "mbrtowc_rest E a st N m (bittab ! (unat (drop_bit 6 wc) - 2)) s n =
    do { m \<leftarrow> store32 m st 0; m \<leftarrow> store32 m a wc; Some (ucast N - (n - 1), m) }"
proof -
  have x: "unat (drop_bit 6 wc) \<in> {2..<32}" using class_bounds(1,2) assms by auto
  have t: "bittab ! (unat (drop_bit 6 wc) - 2) = 0xC0000000 OR drop_bit 6 wc"
    using bittab_C [OF x] by simp
  have "second_ok (unat (drop_bit 6 wc) - 2) (unat (take_bit 6 wc))" using x by (auto simp: second_ok_def)
  then have "\<not> mb_oob (bittab ! (unat (drop_bit 6 wc) - 2)) (cont wc)" using x by (subst oob_cont) auto
  moreover have "unat wc < 2 ^ 31" using assms(2) by (simp add: word_less_nat_alt)
  ultimately show ?thesis
    using loop_finish [of m s wc E a st N n] assms(3,4) unfolding t by (simp add: mbrtowc_rest_def)
qed

lemma rest3:
  assumes "\<not> wc < 0x800" "wc < 0x10000" "scalar wc"
    and "m s = Some (cont (drop_bit 6 wc))" "m (s + 1) = Some (cont wc)" "n \<noteq> 0" "n - 1 \<noteq> 0"
  shows "mbrtowc_rest E a st N m (bittab ! (unat (drop_bit 12 wc) + 30)) s n =
    do { m \<leftarrow> store32 m st 0; m \<leftarrow> store32 m a wc; Some (ucast N - (n - 1 - 1), m) }"
proof -
  let ?c = "bittab ! (unat (drop_bit 12 wc) + 30)"
  have x: "unat (drop_bit 12 wc) < 16" using class_bounds(3) assms(2) by blast
  have "push_bit 6 ?c OR take_bit 6 (drop_bit 6 wc) = 0xC0000000 OR drop_bit 6 wc"
    unfolding bittab_E [OF x] by (simp only: or.assoc of_nat_unat ucast_id drop_drop6)
  note t = this
  have "\<not> mb_oob ?c (cont (drop_bit 6 wc))"
    using second3 [OF assms(1-3)] x by (subst oob_cont) auto
  then have "mbrtowc_rest E a st N m ?c s n = mbrtowc_loop E a st N m ?c s n"
    using assms(4,6) by (simp add: mbrtowc_rest_def)
  also have "\<dots> = mbrtowc_loop E a st N m (0xC0000000 OR drop_bit 6 wc) (s + 1) (n - 1)"
    using loop_next [of m s "drop_bit 6 wc" wc ?c n E a st N] assms(4,5,7) bit_C0 [of "drop_bit 6 wc"] unfolding t by blast
  finally show ?thesis using loop_finish [of m "s + 1" wc E a st N "n - 1"] assms(5) scalar_small [OF assms(3)] by simp
qed

lemma rest4:
  assumes "\<not> wc < 0x10000" "scalar wc"
    and "m s = Some (cont (drop_bit 12 wc))" "m (s + 1) = Some (cont (drop_bit 6 wc))" "m (s + 2) = Some (cont wc)"
    and "n \<noteq> 0" "n - 1 \<noteq> 0" "n - 1 - 1 \<noteq> 0"
  shows "mbrtowc_rest E a st N m (bittab ! (unat (drop_bit 18 wc) + 46)) s n =
    do { m \<leftarrow> store32 m st 0; m \<leftarrow> store32 m a wc; Some (ucast N - (n - 1 - 1 - 1), m) }"
proof -
  let ?c = "bittab ! (unat (drop_bit 18 wc) + 46)"
  let ?c1 = "push_bit 6 ?c OR take_bit 6 (drop_bit 12 wc)"
  have lt: "wc < 0x110000" using assms(1,2) by (auto simp: scalar_def word_less_nat_alt)
  then have x: "unat (drop_bit 18 wc) < 5" by (rule class_bounds)
  have "push_bit 6 ?c1 = push_bit 12 ?c OR push_bit 6 (take_bit 6 (drop_bit 12 wc))"
    by (simp add: push_bit_or)
  also have "\<dots> = 0xC0000000 OR (push_bit 6 (push_bit 6 (drop_bit 18 wc) OR take_bit 6 (drop_bit 12 wc)))"
    unfolding bittab_F [OF x] by (simp add: push_bit_or or.assoc)
  also have "\<dots> = 0xC0000000 OR push_bit 6 (drop_bit 12 wc)" unfolding drop_drop12 ..
  finally have t: "push_bit 6 ?c1 OR take_bit 6 (drop_bit 6 wc) = 0xC0000000 OR drop_bit 6 wc"
    by (simp only: or.assoc drop_drop6)
  have b: "bit ?c1 31" using bittab_F_bit [OF x] by (simp add: bit_or_iff)
  have s2: "s + 1 + 1 = s + 2" by simp
  have "\<not> mb_oob ?c (cont (drop_bit 12 wc))"
    using second4 [OF assms(1) lt] x by (subst oob_cont) auto
  then have "mbrtowc_rest E a st N m ?c s n = mbrtowc_loop E a st N m ?c s n"
    using assms(3,6) by (simp add: mbrtowc_rest_def)
  also have "\<dots> = mbrtowc_loop E a st N m ?c1 (s + 1) (n - 1)"
    using loop_next [of m s "drop_bit 12 wc" "drop_bit 6 wc" ?c n E a st N] assms(3,4,7) b by blast
  also have "\<dots> = mbrtowc_loop E a st N m (0xC0000000 OR drop_bit 6 wc) (s + 2) (n - 1 - 1)"
    using loop_next [of m "s + 1" "drop_bit 6 wc" wc ?c1 "n - 1" E a st N] assms(4,5,8) bit_C0 [of "drop_bit 6 wc"] unfolding t s2 by blast
  finally show ?thesis using loop_finish [of m "s + 2" wc E a st N "n - 1 - 1"] assms(5) scalar_small [OF assms(2)] by simp
qed

text \<open>Storing the zero the state word already holds changes nothing.\<close>

lemma store32_same:
  assumes "load32 m a = Some w"
  shows "store32 m a w = Some m"
proof -
  obtain bs where bs: "bytes_at m a bs" "length bs = 4" "le_word bs = w"
    using assms by (auto simp: load32_def load_bytes_eq)
  then have "word_bytes 4 w = bs" using copy32 by metis
  moreover have "put_bytes m a bs = m"
    using bs(1) by (auto simp: put_bytes_def fun_eq_iff bytes_at_nth dest: spec [of _ "unat (_ - a)"])
  moreover have "mapped m a 4" using bytes_at_mapped [OF bs(1)] bs(2) by simp
  ultimately show ?thesis by (simp add: store32_put)
qed

text \<open>What the decoder is asked for: a fresh state, room for the result, and the encoding there.\<close>

definition decoding :: "mbenv \<Rightarrow> mem \<Rightarrow> addr \<Rightarrow> addr \<Rightarrow> addr \<Rightarrow> u32 \<Rightarrow> bool" where
  "decoding E m a s st wc \<longleftrightarrow>
     \<not> one_byte E \<and> scalar wc \<and> a \<noteq> 0 \<and> s \<noteq> 0 \<and> st \<noteq> 0 \<and> mapped m a 4 \<and>
     load32 m st = Some 0 \<and> bytes_at m s (utf8 wc)"

lemma count_minus: "length bs \<le> unat n \<Longrightarrow> i < length bs \<Longrightarrow> n - of_nat i \<noteq> (0 :: u64)"
proof
  assume l: "length bs \<le> unat n" "i < length bs" and "n - of_nat i = (0 :: u64)"
  then have "n = of_nat i" by simp
  moreover have "i < 2 ^ 64" using l unsigned_less [of n, where ?'a = nat] by simp
  ultimately have "unat n = i" by (simp add: unat_of_nat)
  with l show False by simp
qed

lemma mbrtowc_first:
  assumes d: "decoding E m a s st wc" and k: "0xc2 \<le> k" "k \<le> 0xf4" and b: "m s = Some (of_nat k)" and n: "n \<noteq> 0"
  shows "mbrtowc E m a s n st = mbrtowc_rest E a st (ucast n) m (bittab ! (k - 0xc2)) (s + 1) (n - 1)"
  using d b n lead_checks [OF k refl] by (simp add: mbrtowc_def decoding_def Let_def)

lemma mbrtowc_decodes:
  assumes d: "decoding E m a s st wc" and n: "length (utf8 wc) \<le> unat n"
  shows "mbrtowc E m a s n st =
    Some (if wc < 0x80 then (if wc = 0 then 0 else 1) else ucast (ucast n :: u32) - (n - of_nat (length (utf8 wc))),
          put_bytes m a (word_bytes 4 wc))"
proof -
  have sc: "scalar wc" and st: "store32 m st 0 = Some m" and w: "store32 m a wc = Some (put_bytes m a (word_bytes 4 wc))"
    and bs: "bytes_at m s (utf8 wc)"
    using d by (simp_all add: decoding_def store32_same store32_put)
  note cnt = count_minus [OF n]
  consider (1) "wc < 0x80" | (2) "\<not> wc < 0x80" "wc < 0x800" | (3) "\<not> wc < 0x800" "wc < 0x10000" | (4) "\<not> wc < 0x10000"
    by blast
  then show ?thesis
  proof cases
    case 1
    then have u: "utf8 wc = [ucast wc]" by (simp add: utf8_def)
    have "wc = of_nat (unat wc)" "unat wc < 128" using 1 by (simp_all add: word_less_nat_alt)
    then obtain k where k: "wc = of_nat k" "k < 128" by blast
    have c: "(ucast (ucast wc :: byte) :: u32) = wc" "(ucast wc :: byte) < 0x80" "(ucast wc :: byte) = 0 \<longleftrightarrow> wc = 0"
    proof -
      have uu: "unat (ucast wc :: byte) = unat wc" using 1 by (simp add: unsigned_ucast_eq take_bit_nat_def word_less_nat_alt)
      show "(ucast wc :: byte) < 0x80" using uu 1 by (simp add: word_less_nat_alt)
      show "(ucast wc :: byte) = 0 \<longleftrightarrow> wc = 0" using uu by (metis unat_eq_0)
      show "(ucast (ucast wc :: byte) :: u32) = wc"
        using uu by (metis of_nat_unat unsigned_of_nat ucast_id)
    qed
    show ?thesis
      using d 1 c w bs cnt [of 0] unfolding u by (simp add: mbrtowc_def decoding_def Let_def)
  next
    case 2
    define x where "x = unat (drop_bit 6 wc)"
    have x: "2 \<le> x" "x < 32" using class_bounds(1,2) 2 by (simp_all add: x_def)
    have u: "utf8 wc = [of_nat (0xc0 + x), cont wc]" using 2 lead_byte(1) [of "drop_bit 6 wc"] x by (simp add: utf8_def x_def)
    have "mbrtowc E m a s n st = mbrtowc_rest E a st (ucast n) m (bittab ! (0xc0 + x - 0xc2)) (s + 1) (n - 1)"
      using x bs cnt [of 0] by (intro mbrtowc_first [OF d]) (simp_all add: u)
    also have "0xc0 + x - 0xc2 = x - 2" by simp
    finally show ?thesis
      using rest2 [of wc m "s + 1" "n - 1" E a st "ucast n"] 2 bs cnt [of 1] st w
      by (simp add: u x_def)
  next
    case 3
    define x where "x = unat (drop_bit 12 wc)"
    have x: "x < 16" using class_bounds(3) 3 by (simp add: x_def)
    have ge: "\<not> wc < 0x80" using 3 by (auto simp: word_less_nat_alt)
    have u: "utf8 wc = [of_nat (0xe0 + x), cont (drop_bit 6 wc), cont wc]"
      using 3 ge lead_byte(2) [of "drop_bit 12 wc"] x by (simp add: utf8_def x_def)
    have "mbrtowc E m a s n st = mbrtowc_rest E a st (ucast n) m (bittab ! (0xe0 + x - 0xc2)) (s + 1) (n - 1)"
      using x bs cnt [of 0] by (intro mbrtowc_first [OF d]) (simp_all add: u)
    also have "0xe0 + x - 0xc2 = x + 30" by simp
    finally show ?thesis
      using rest3 [of wc m "s + 1" "n - 1" E a st "ucast n"] 3 sc ge bs cnt [of 1] cnt [of 2] st w
      by (simp add: u x_def add.assoc diff_diff_eq)
  next
    case 4
    define x where "x = unat (drop_bit 18 wc)"
    have lt: "wc < 0x110000" using 4 sc by (auto simp: scalar_def word_less_nat_alt)
    have x: "x < 5" using class_bounds(4) lt by (simp add: x_def)
    have ge: "\<not> wc < 0x80" "\<not> wc < 0x800" using 4 by (auto simp: word_less_nat_alt)
    have u: "utf8 wc = [of_nat (0xf0 + x), cont (drop_bit 12 wc), cont (drop_bit 6 wc), cont wc]"
      using 4 ge lead_byte(3) [of "drop_bit 18 wc"] x by (simp add: utf8_def x_def)
    have "mbrtowc E m a s n st = mbrtowc_rest E a st (ucast n) m (bittab ! (0xf0 + x - 0xc2)) (s + 1) (n - 1)"
      using x bs cnt [of 0] by (intro mbrtowc_first [OF d]) (simp_all add: u)
    also have "0xf0 + x - 0xc2 = x + 46" by simp
    finally show ?thesis
      using rest4 [of wc m "s + 1" "n - 1" E a st "ucast n"] 4 sc ge bs cnt [of 1] cnt [of 2] cnt [of 3] st w
      by (simp add: u x_def add.assoc diff_diff_eq)
  qed
qed

lemma put_bytes_snoc:
  "length bs < 2 ^ 63 \<Longrightarrow> put_bytes (put_bytes m d bs) (d + of_nat (length bs)) [b] = put_bytes m d (bs @ [b])"
  by (rule put_bytes_append) simp

lemma store8_next:
  "mapped m d (Suc (length bs)) \<Longrightarrow> length bs < 2 ^ 63 \<Longrightarrow>
    store8 (put_bytes m d bs) (d + of_nat (length bs)) b = Some (put_bytes m d (bs @ [b]))"
  using mapped_append [of m d "length bs" 1]
  by (simp add: store8_put put_bytes_mapped mapped_Suc put_bytes_snoc)

lemma wcrtomb_encodes:
  assumes "\<not> one_byte E" "scalar wc" "s \<noteq> 0" "mapped m s (length (utf8 wc))"
  shows "wcrtomb E m s wc = Some (of_nat (length (utf8 wc)), put_bytes m s (utf8 wc))"
proof -
  note nx = store8_next [of m s "[]"] store8_next [of m s "[b]" for b] store8_next [of m s "[b, c]" for b c]
    store8_next [of m s "[b, c, d]" for b c d]
  consider (1) "wc < 0x80" | (2) "\<not> wc < 0x80" "wc < 0x800" | (3) "\<not> wc < 0x800" "wc < 0x10000" | (4) "\<not> wc < 0x10000"
    by blast
  then show ?thesis
  proof cases
    case 1
    then show ?thesis using assms nx by (simp add: wcrtomb_def utf8_def)
  next
    case 2
    then show ?thesis using assms nx by (simp add: wcrtomb_def utf8_def mapped_mono cont_def)
  next
    case 3
    then have ge: "\<not> wc < 0x80" by (auto simp: word_less_nat_alt)
    have "wc < 0xd800 \<or> wc - 0xe000 < 0x2000"
    proof (cases "wc < 0xd800")
      case False
      then have "0xe000 \<le> wc" using assms(2) by (auto simp: scalar_def)
      then have "unat (wc - 0xe000) = unat wc - 0xe000" by (subst unat_sub) simp_all
      then show ?thesis using 3 by (simp add: word_less_nat_alt less_diff_conv2) (auto simp: word_less_nat_alt)
    qed simp
    then show ?thesis using 3 ge assms nx by (simp add: wcrtomb_def utf8_def mapped_mono cont_def)
  next
    case 4
    then have ge: "\<not> wc < 0x80" "\<not> wc < 0x800" "\<not> wc < 0xd800" by (auto simp: word_less_nat_alt)
    have lt: "unat wc < 0x110000" "0x10000 \<le> unat wc" using 4 assms(2) ge by (auto simp: scalar_def word_less_nat_alt)
    have "unat (wc - 0xe000) = unat wc - 0xe000" using lt by (subst unat_sub) (simp_all add: word_le_nat_alt)
    then have a: "\<not> wc - 0xe000 < 0x2000" using lt by (simp add: word_less_nat_alt)
    have "unat (wc - 0x10000) = unat wc - 0x10000" using lt by (subst unat_sub) (simp_all add: word_le_nat_alt)
    then have b: "wc - 0x10000 < 0x100000" using lt by (simp add: word_less_nat_alt)
    show ?thesis using 4 ge a b assms nx by (simp add: wcrtomb_def utf8_def mapped_mono cont_def)
  qed
qed

lemma wcrtomb_rejects:
  assumes "\<not> one_byte E" "\<not> scalar wc" "s \<noteq> 0" "mapped m (errno_at E) 4"
  shows "wcrtomb E m s wc = Some (- 1, put_bytes m (errno_at E) (word_bytes 4 EILSEQ))"
proof -
  have ge: "\<not> wc < 0x80" "\<not> wc < 0x800" "\<not> wc < 0xd800" using assms(2) by (auto simp: scalar_def word_less_nat_alt)
  have lo: "\<not> wc - 0xe000 < 0x2000"
  proof (cases "0xe000 \<le> wc")
    case True
    then have "unat (wc - 0xe000) = unat wc - 0xe000" by (subst unat_sub) simp_all
    then show ?thesis using assms(2) True by (auto simp: word_less_nat_alt scalar_def)
  next
    case False
    then have "unat (wc - 0xe000) = 2 ^ 32 + unat wc - 0xe000"
      using ge by (simp add: unat_sub_if' word_less_nat_alt word_le_nat_alt)
    then show ?thesis using ge by (simp add: word_less_nat_alt)
  qed
  have hi: "\<not> wc - 0x10000 < 0x100000"
  proof (cases "0x10000 \<le> wc")
    case True
    then have "unat (wc - 0x10000) = unat wc - 0x10000" by (subst unat_sub) simp_all
    then show ?thesis using assms(2) True by (auto simp: word_less_nat_alt scalar_def word_le_nat_alt)
  next
    case False
    then have "unat (wc - 0x10000) = 2 ^ 32 + unat wc - 0x10000"
      by (simp add: unat_sub_if' word_le_nat_alt)
    then show ?thesis using ge by (simp add: word_less_nat_alt)
  qed
  show ?thesis using ge lo hi assms by (simp add: wcrtomb_def ilseq_def store32_put)
qed

text \<open>What the encoder writes the decoder reads back.\<close>

lemma utf8_length: "1 \<le> length (utf8 wc)" "length (utf8 wc) \<le> 4"
  by (simp_all add: utf8_def)

lemma utf8_multi: "length (utf8 wc) = 1 \<longleftrightarrow> wc < 0x80"
  by (simp add: utf8_def)

lemma wcrtomb_mbrtowc:
  assumes E: "\<not> one_byte E" and sc: "scalar wc" and nz: "s \<noteq> 0" "a \<noteq> 0" "st \<noteq> 0"
    and w: "mapped m s (length (utf8 wc))" "mapped m a 4" and st: "load32 m st = Some 0" "apart st 4 s (length (utf8 wc))"
  shows "\<exists>k m1 m2. wcrtomb E m s wc = Some (k, m1) \<and> unat k = length (utf8 wc) \<and>
    mbrtowc E m1 a s k st = Some (if wc = 0 then 0 else k, m2) \<and> load32 m2 a = Some wc"
proof -
  define n :: u64 where "n = of_nat (length (utf8 wc))"
  define m1 where "m1 = put_bytes m s (utf8 wc)"
  have l: "length (utf8 wc) \<le> 4" by (rule utf8_length)
  have n: "unat n = length (utf8 wc)" using l by (simp add: n_def unat_of_nat)
  have e: "wcrtomb E m s wc = Some (n, m1)"
    unfolding n_def m1_def using E sc nz(1) w(1) by (rule wcrtomb_encodes)
  obtain bs where bs: "bytes_at m st bs" "length bs = 4" "le_word bs = (0 :: u32)"
    using st(1) by (auto simp: load32_def load_bytes_eq)
  have "load32 m1 st = Some 0"
    using bs st(2) load32_at [of m1 st bs] by (simp add: m1_def bytes_at_apart)
  then have d: "decoding E m1 a s st wc"
    using E sc nz w(2) l bytes_at_put [of "utf8 wc" m s] by (simp add: decoding_def m1_def mapped_put)
  have "(ucast (ucast n :: u32) :: u64) = n"
    using l by (simp add: n_def word_unat_eq_iff unat_of_nat unsigned_ucast_eq unsigned_take_bit_eq take_bit_nat_eq_self)
  moreover have "n = 1" if "wc < 0x80" using that utf8_multi [of wc] by (simp add: n_def)
  ultimately have "mbrtowc E m1 a s n st = Some (if wc = 0 then 0 else n, put_bytes m1 a (word_bytes 4 wc))"
    using mbrtowc_decodes [OF d, of n] n by (auto simp: n_def)
  moreover have "load32 (put_bytes m1 a (word_bytes 4 wc)) a = Some wc"
    using load32_at [OF bytes_at_put [of "word_bytes 4 wc" m1 a]] by (simp add: le_word_bytes)
  ultimately show ?thesis using e n by blast
qed

text \<open>The count returned for a multibyte character is wrong as soon as the limit does not fit 32 bits.\<close>

lemma mbrtowc_count:
  assumes d: "decoding E m a s st wc" and n: "length (utf8 wc) \<le> unat n" and wc: "\<not> wc < 0x80"
  shows "\<exists>k. mbrtowc E m a s n st = Some (k, put_bytes m a (word_bytes 4 wc)) \<and>
    (k = of_nat (length (utf8 wc)) \<longleftrightarrow> n < 2 ^ 32)"
proof -
  let ?l = "of_nat (length (utf8 wc)) :: u64"
  have "ucast (ucast n :: u32) - (n - ?l) = ?l \<longleftrightarrow> ucast (ucast n :: u32) = n" by (auto simp: algebra_simps)
  also have "\<dots> \<longleftrightarrow> n < 2 ^ 32"
    by (simp add: word_unat_eq_iff word_less_nat_alt unsigned_ucast_eq unsigned_take_bit_eq take_bit_nat_eq_self_iff)
  finally show ?thesis using mbrtowc_decodes [OF d n] wc by simp
qed

text \<open>An environment for examples: the UTF-8 locale, with \<open>errno\<close> at 0x4000.\<close>

definition demo_mbenv :: mbenv where
  "demo_mbenv = \<lparr>one_byte = False, errno_at = 0x4000, mb_state_at = 0x5000, dummy_at = 0x6000\<rparr>"

end
