(* ===== verification/Printf.thy ===== *)
theory Printf
  imports Stdio Multibyte
begin

text \<open>
  \<^verbatim>\<open>musl/src/stdio/vfprintf.c\<close> without the floating-point conversion \<open>fmt_fp\<close>, which is a
  parameter: the format state machine, the argument types, padding, integer, string and
  character conversions, positional arguments, and \<open>vfprintf\<close>, \<open>vsnprintf\<close> on top.
\<close>

section \<open>Flags, types and arguments\<close>

definition ALT_FORM :: u32 where "ALT_FORM = push_bit 3 1"
definition ZERO_PAD :: u32 where "ZERO_PAD = push_bit 16 1"
definition LEFT_ADJ :: u32 where "LEFT_ADJ = push_bit 13 1"
definition PAD_POS :: u32 where "PAD_POS = push_bit 0 1"
definition MARK_POS :: u32 where "MARK_POS = push_bit 11 1"
definition GROUPED :: u32 where "GROUPED = push_bit 7 1"

definition FLAGMASK :: u32 where
  "FLAGMASK = ALT_FORM OR ZERO_PAD OR LEFT_ADJ OR PAD_POS OR MARK_POS OR GROUPED"

definition INT_MAX :: u32 where "INT_MAX = 0x7fffffff"

text \<open>\<open>SINT\<close> and \<open>SCHAR\<close> are the source's \<open>INT\<close> and \<open>CHAR\<close>, which are HOL syntax.\<close>

datatype ptype =
    BARE | LPRE | LLPRE | HPRE | HHPRE | BIGLPRE | ZTPRE | JPRE
  | STOP
  | PTR | SINT | UINT | ULLONG | LONG | ULONG | SHORT | USHORT | SCHAR | UCHAR
  | LLONG | SIZET | IMAX | UMAX | PDIFF | UIPTR | DBL | LDBL | NOARG

text \<open>\<open>st-1 < STOP\<close>, on unsigned numbers.\<close>

definition is_prefix :: "ptype \<Rightarrow> bool" where
  "is_prefix st \<longleftrightarrow> st \<in> {LPRE, LLPRE, HPRE, HHPRE, BIGLPRE, ZTPRE, JPRE, STOP}"

definition transitions :: "(string \<times> ptype) list \<Rightarrow> byte \<Rightarrow> ptype" where
  "transitions rows c = (case filter (\<lambda>(cs, t). c \<in> set (map of_char cs)) rows of [] \<Rightarrow> BARE | (cs, t) # _ \<Rightarrow> t)"

fun states :: "ptype \<Rightarrow> byte \<Rightarrow> ptype" where
  "states BARE = transitions
     [(''di'', SINT), (''ouxX'', UINT), (''efgaEFGA'', DBL), (''c'', SCHAR), (''C'', SINT), (''sSn'', PTR),
      (''p'', UIPTR), (''m'', NOARG), (''l'', LPRE), (''h'', HPRE), (''L'', BIGLPRE), (''zt'', ZTPRE), (''j'', JPRE)]"
| "states LPRE = transitions
     [(''di'', LONG), (''ouxX'', ULONG), (''efgaEFGA'', DBL), (''c'', SINT), (''sn'', PTR), (''l'', LLPRE)]"
| "states LLPRE = transitions [(''di'', LLONG), (''ouxX'', ULLONG), (''n'', PTR)]"
| "states HPRE = transitions [(''di'', SHORT), (''ouxX'', USHORT), (''n'', PTR), (''h'', HHPRE)]"
| "states HHPRE = transitions [(''di'', SCHAR), (''ouxX'', UCHAR), (''n'', PTR)]"
| "states BIGLPRE = transitions [(''efgaEFGA'', LDBL), (''n'', PTR)]"
| "states ZTPRE = transitions [(''di'', PDIFF), (''ouxX'', SIZET), (''n'', PTR)]"
| "states JPRE = transitions [(''di'', IMAX), (''ouxX'', UMAX), (''n'', PTR)]"
| "states _ = (\<lambda>_. BARE)"

definition fmt_oob :: "byte \<Rightarrow> bool" where
  "fmt_oob c \<longleftrightarrow> 0x7a - 0x41 < (scast c - 0x41 :: u32)"

text \<open>
  A variadic argument is a 64-bit slot or a floating-point value; the same type serves for
  \<open>union arg\<close>, whose members \<open>i\<close> and \<open>p\<close> share their bits.
\<close>

datatype 'f slot = ISlot u64 | FSlot 'f

fun arg_i :: "'f slot \<Rightarrow> u64 option" where
  "arg_i (ISlot v) = Some v"
| "arg_i (FSlot f) = None"

fun arg_f :: "'f slot \<Rightarrow> 'f option" where
  "arg_f (ISlot v) = None"
| "arg_f (FSlot f) = Some f"

fun convert :: "ptype \<Rightarrow> u64 \<Rightarrow> u64" where
  "convert SINT v = scast (ucast v :: u32)"
| "convert UINT v = ucast (ucast v :: u32)"
| "convert SHORT v = scast (ucast v :: u16)"
| "convert USHORT v = ucast (ucast v :: u16)"
| "convert SCHAR v = scast (ucast v :: u8)"
| "convert UCHAR v = ucast (ucast v :: u8)"
| "convert _ v = v"

definition pop_arg :: "'f slot \<Rightarrow> ptype \<Rightarrow> 'f slot list \<Rightarrow> ('f slot \<times> 'f slot list) option" where
  "pop_arg arg t ap =
     (if t \<in> {BARE, LPRE, LLPRE, HPRE, HHPRE, BIGLPRE, ZTPRE, JPRE, STOP, NOARG} then Some (arg, ap)
      else case ap of [] \<Rightarrow> None
        | ISlot v # ap \<Rightarrow> if t \<in> {DBL, LDBL} then None else Some (ISlot (convert t v), ap)
        | FSlot f # ap \<Rightarrow> if t \<in> {DBL, LDBL} then Some (FSlot f, ap) else None)"

fun pop_int :: "'f slot list \<Rightarrow> (u32 \<times> 'f slot list) option" where
  "pop_int (ISlot v # ap) = Some (ucast v, ap)"
| "pop_int _ = None"

section \<open>Digits\<close>

definition xdigits :: "byte list" where
  "xdigits = bytes_of ''0123456789ABCDEF''"

partial_function (option) fmt_x :: "mem \<Rightarrow> u64 \<Rightarrow> addr \<Rightarrow> byte \<Rightarrow> (addr \<times> mem) option" where
  "fmt_x m v s lower =
     (if v \<noteq> 0 then
        do { m \<leftarrow> store8 m (s - 1) (xdigits ! unat (v AND 15) OR lower);
             fmt_x m (drop_bit 4 v) (s - 1) lower }
      else Some (s, m))"

partial_function (option) fmt_o :: "mem \<Rightarrow> u64 \<Rightarrow> addr \<Rightarrow> (addr \<times> mem) option" where
  "fmt_o m v s =
     (if v \<noteq> 0 then
        do { m \<leftarrow> store8 m (s - 1) (0x30 + ucast (v AND 7)); fmt_o m (drop_bit 3 v) (s - 1) }
      else Some (s, m))"

text \<open>\<open>uintmax_t\<close> is \<open>unsigned long\<close> here: the first loop of \<open>fmt_u\<close> has nothing to do.\<close>

partial_function (option) fmt_u :: "mem \<Rightarrow> u64 \<Rightarrow> addr \<Rightarrow> (addr \<times> mem) option" where
  "fmt_u m v s =
     (if v \<noteq> 0 then
        do { m \<leftarrow> store8 m (s - 1) (0x30 + ucast (v mod 10)); fmt_u m (v div 10) (s - 1) }
      else Some (s, m))"

definition is_digit :: "byte \<Rightarrow> bool" where
  "is_digit b \<longleftrightarrow> scast b - 0x30 < (10 :: u32)"

partial_function (option) getint_loop :: "mem \<Rightarrow> addr \<Rightarrow> u32 \<Rightarrow> (u32 \<times> addr) option" where
  "getint_loop m s i =
     do { b \<leftarrow> m s;
          if \<not> is_digit b then Some (i, s)
          else let d = scast b - 0x30 :: u32
               in getint_loop m (s + 1)
                    (if INT_MAX div 10 < i \<or> INT_MAX - 10 * i <s d then - 1 else 10 * i + d) }"

definition getint :: "mem \<Rightarrow> addr \<Rightarrow> (u32 \<times> addr) option" where
  "getint m s = getint_loop m s 0"

section \<open>Output and padding\<close>

text \<open>
  The addresses of the locals and literals, the conversion \<open>fmt_fp\<close> (stream, value, \<open>w\<close>, \<open>p\<close>,
  \<open>fl\<close>, \<open>t\<close>) and the message \<open>strerror(errno)\<close>; \<open>pf_nl_junk\<close> is what the uninitialised array \<open>nl_arg\<close> holds.
\<close>

record ('f, 'x) pfenv =
  pf_mb :: mbenv
  pf_write :: "'x writer"
  pf_fmt_fp :: "FILE \<Rightarrow> 'f \<Rightarrow> u32 \<Rightarrow> u32 \<Rightarrow> u32 \<Rightarrow> byte \<Rightarrow> (u32 \<times> FILE, 'x) run"
  pf_strerror :: addr
  pf_null :: addr
  pf_prefix :: addr
  pf_buf :: addr
  pf_pad :: addr
  pf_mbc :: addr
  pf_wc :: addr
  pf_internal :: addr
  pf_sn_buf :: addr
  pf_sn_dummy :: addr
  pf_nl_junk :: "'f slot list"

definition out :: "('f, 'x) pfenv \<Rightarrow> addr \<Rightarrow> u64 \<Rightarrow> FILE \<Rightarrow> (FILE, 'x) run" where
  "out E s l f =
     (if flags f AND F_ERR = 0 then seq (fwritex (pf_write E) s l f) (\<lambda>(_, f). ret f) else ret f)"

partial_function (option) pad_loop :: "('f, 'x) pfenv \<Rightarrow> u32 \<Rightarrow> FILE \<Rightarrow> mem \<Rightarrow> 'x \<Rightarrow> (FILE, 'x) outcome option" where
  "pad_loop E l f m x =
     (if 256 \<le> (scast l :: u64) then
        seq (out E (pf_pad E) 256 f) (\<lambda>f m x. pad_loop E (l - 256) f m x) m x
      else out E (pf_pad E) (scast l) f m x)"

definition pad :: "('f, 'x) pfenv \<Rightarrow> byte \<Rightarrow> u32 \<Rightarrow> u32 \<Rightarrow> u32 \<Rightarrow> FILE \<Rightarrow> (FILE, 'x) run" where
  "pad E c w l fl f =
     (if fl AND (LEFT_ADJ OR ZERO_PAD) \<noteq> 0 \<or> w <=s l then ret f
      else let l = w - l
           in seq (act (\<lambda>m. memset m (pf_pad E) (scast c) (if 256 < (scast l :: u64) then 256 else scast l)))
                (\<lambda>_ m x. pad_loop E l f m x))"

section \<open>One directive\<close>

text \<open>
  The state of \<open>printf_core\<close> between two rounds of its loop. \<open>f\<close> is \<open>None\<close> in the first pass,
  which only collects the types of the positional arguments.
\<close>

record 'f pfstate =
  pf_s :: addr
  pf_cnt :: u32
  pf_l :: u32
  pf_l10n :: bool
  pf_ap :: "'f slot list"
  pf_nl_arg :: "'f slot list"
  pf_nl_type :: "ptype list"
  pf_f :: "FILE option"

text \<open>How a part of the body ends: it goes on, or jumps to \<open>inval\<close> or \<open>overflow\<close>, or returns.\<close>

datatype 'a ctl = Go 'a | Inval | Overflow | Return u32

definition go :: "('a ctl, 'x) run \<Rightarrow> ('a \<Rightarrow> ('b ctl, 'x) run) \<Rightarrow> ('b ctl, 'x) run" where
  "go r k = seq r (\<lambda>c. case c of Go a \<Rightarrow> k a | Inval \<Rightarrow> ret Inval | Overflow \<Rightarrow> ret Overflow | Return v \<Rightarrow> ret (Return v))"

text \<open>\<open>for (z=s; s[0]=='%' && s[1]=='%'; z++, s+=2);\<close>\<close>

partial_function (option) percents :: "mem \<Rightarrow> addr \<Rightarrow> addr \<Rightarrow> (addr \<times> addr) option" where
  "percents m z s =
     do { b \<leftarrow> m s;
          if b \<noteq> 0x25 then Some (z, s)
          else do { b \<leftarrow> m (s + 1); if b \<noteq> 0x25 then Some (z, s) else percents m (z + 1) (s + 2) } }"

partial_function (option) read_flags :: "mem \<Rightarrow> addr \<Rightarrow> u32 \<Rightarrow> (u32 \<times> addr) option" where
  "read_flags m s fl =
     do { b \<leftarrow> m s;
          let k = (scast b - 0x20 :: u32);
          if k < 32 \<and> FLAGMASK AND push_bit (unat k) 1 \<noteq> 0
          then read_flags m (s + 1) (fl OR push_bit (unat k) 1) else Some (fl, s) }"

text \<open>\<open>isdigit(s[0]) && s[1]=='$'\<close>, giving the digit.\<close>

definition dollar :: "mem \<Rightarrow> addr \<Rightarrow> nat option option" where
  "dollar m s =
     do { b \<leftarrow> m s;
          if is_digit b then do { d \<leftarrow> m (s + 1); Some (if d = 0x24 then Some (unat (b - 0x30)) else None) }
          else Some None }"

text \<open>The argument of a \<open>*\<close>: a positional one, the next one, or an error once \<open>$\<close> was used.\<close>

definition star :: "'f pfstate \<Rightarrow> addr \<Rightarrow> ((u32 \<times> 'f pfstate) ctl, 'x) run" where
  "star st s =
     seq (rd (\<lambda>m. dollar m s)) (\<lambda>d. case d of
       Some i \<Rightarrow>
         seq (rd (\<lambda>_. arg_i (pf_nl_arg st ! i))) (\<lambda>v.
           ret (Go (ucast v, st\<lparr>pf_l10n := True, pf_nl_type := (pf_nl_type st)[i := SINT], pf_s := s + 2\<rparr>)))
     | None \<Rightarrow>
         if pf_l10n st then ret Inval
         else if pf_f st = None then ret (Go (0, st\<lparr>pf_s := s\<rparr>))
         else seq (rd (\<lambda>_. pop_int (pf_ap st))) (\<lambda>(v, ap). ret (Go (v, st\<lparr>pf_ap := ap, pf_s := s\<rparr>))))"

text \<open>Field width: \<open>w\<close> and the flags.\<close>

definition read_width :: "'f pfstate \<Rightarrow> u32 \<Rightarrow> ((u32 \<times> u32 \<times> 'f pfstate) ctl, 'x) run" where
  "read_width st fl =
     seq (rd (\<lambda>m. m (pf_s st))) (\<lambda>b.
       if b = 0x2a then
         go (star st (pf_s st + 1)) (\<lambda>(w, st).
           ret (Go (if w <s 0 then (- w, fl OR LEFT_ADJ, st) else (w, fl, st))))
       else
         seq (rd (\<lambda>m. getint m (pf_s st))) (\<lambda>(w, s).
           if w <s 0 then ret Overflow else ret (Go (w, fl, st\<lparr>pf_s := s\<rparr>))))"

text \<open>
  Precision: \<open>p\<close> and \<open>xp\<close>. Unlike the width, a positional precision leaves \<open>l10n\<close> as it is.
\<close>

definition read_precision :: "'f pfstate \<Rightarrow> ((u32 \<times> bool \<times> 'f pfstate) ctl, 'x) run" where
  "read_precision st =
     seq (rd (\<lambda>m. m (pf_s st))) (\<lambda>b.
       if b \<noteq> 0x2e then ret (Go (- 1, False, st))
       else seq (rd (\<lambda>m. m (pf_s st + 1))) (\<lambda>b.
         if b = 0x2a then
           go (star st (pf_s st + 2)) (\<lambda>(p, st').
             ret (Go (p, 0 <=s p, st'\<lparr>pf_l10n := pf_l10n st\<rparr>)))
         else seq (rd (\<lambda>m. getint m (pf_s st + 1))) (\<lambda>(p, s). ret (Go (p, True, st\<lparr>pf_s := s\<rparr>)))))"

text \<open>The state machine: the type reached, the state before it, and the character that led there.\<close>

partial_function (option) read_type ::
  "mem \<Rightarrow> addr \<Rightarrow> ptype \<Rightarrow> (ptype \<times> ptype \<times> byte \<times> addr) ctl option" where
  "read_type m s st =
     do { b \<leftarrow> m s;
          if fmt_oob b then Some Inval
          else let st' = states st b
               in if is_prefix st' then read_type m (s + 1) st'
                  else if st' = BARE then Some Inval
                  else Some (Go (st', st, b, s + 1)) }"

section \<open>Conversions\<close>

text \<open>
  A conversion leaves its text between \<open>a\<close> and \<open>z\<close>, with precision, flags and a prefix of
  \<open>pl\<close> bytes.
\<close>

record field =
  fa :: addr
  fz :: addr
  fp :: u32
  ffl :: u32
  fpl :: u32
  fprefix :: addr

definition smax :: "u64 \<Rightarrow> u64 \<Rightarrow> u64" where
  "smax a b = (if b <s a then a else b)"

text \<open>What all integer conversions end with.\<close>

definition int_tail :: "u64 \<Rightarrow> bool \<Rightarrow> field \<Rightarrow> field ctl" where
  "int_tail v xp t =
     (if xp \<and> fp t <s 0 then Overflow
      else let t = (if xp then t\<lparr>ffl := ffl t AND NOT ZERO_PAD\<rparr> else t)
           in if v = 0 \<and> fp t = 0 then Go (t\<lparr>fa := fz t\<rparr>)
              else Go (t\<lparr>fp := ucast (smax (scast (fp t)) (fz t - fa t + (if v = 0 then 1 else 0)))\<rparr>))"

definition conv_int :: "('f, 'x) pfenv \<Rightarrow> byte \<Rightarrow> u64 \<Rightarrow> u32 \<Rightarrow> bool \<Rightarrow> u32 \<Rightarrow> (field ctl, 'x) run" where
  "conv_int E t v p xp fl =
     (let z = pf_buf E + 43;
          field = \<lparr>fa = z, fz = z, fp = p, ffl = fl, fpl = 0, fprefix = pf_prefix E\<rparr>
      in if t = 0x6f then
           seq (act (\<lambda>m. fmt_o m v z)) (\<lambda>a.
             ret (int_tail v xp
               (field\<lparr>fa := a, fp := if fl AND ALT_FORM \<noteq> 0 \<and> scast p <s z - a + 1 then ucast (z - a + 1) else p\<rparr>)))
         else if t = 0x64 \<or> t = 0x69 then
           (let (v, pl, prefix) =
                  (if 0x7fffffffffffffff < v then (- v, 1, 0)
                   else if fl AND MARK_POS \<noteq> 0 then (v, 1, 1)
                   else if fl AND PAD_POS \<noteq> 0 then (v, 1, 2)
                   else (v, 0, 0))
            in seq (act (\<lambda>m. fmt_u m v z)) (\<lambda>a.
                 ret (int_tail v xp (field\<lparr>fa := a, fpl := pl, fprefix := pf_prefix E + prefix\<rparr>))))
         else if t = 0x75 then
           seq (act (\<lambda>m. fmt_u m v z)) (\<lambda>a. ret (int_tail v xp (field\<lparr>fa := a\<rparr>)))
         else
           (let (p, t, fl) =
                  (if t = 0x70 then (if 16 < (scast p :: u64) then p else 16, 0x78, fl OR ALT_FORM) else (p, t, fl))
            in seq (act (\<lambda>m. fmt_x m v z (t AND 32))) (\<lambda>a.
                 ret (int_tail v xp
                   (if v \<noteq> 0 \<and> fl AND ALT_FORM \<noteq> 0
                    then field\<lparr>fa := a, fp := p, ffl := fl, fpl := 2, fprefix := pf_prefix E + ucast (drop_bit 4 t)\<rparr>
                    else field\<lparr>fa := a, fp := p, ffl := fl\<rparr>)))))"

definition conv_char :: "('f, 'x) pfenv \<Rightarrow> u64 \<Rightarrow> u32 \<Rightarrow> (field ctl, 'x) run" where
  "conv_char E v fl =
     (let z = pf_buf E + 43
      in seq (wr (\<lambda>m. store8 m (z - 1) (ucast v))) (\<lambda>_.
           ret (Go \<lparr>fa = z - 1, fz = z, fp = 1, ffl = fl AND NOT ZERO_PAD, fpl = 0, fprefix = pf_prefix E\<rparr>)))"

definition conv_str :: "('f, 'x) pfenv \<Rightarrow> addr \<Rightarrow> u32 \<Rightarrow> u32 \<Rightarrow> (field ctl, 'x) run" where
  "conv_str E a p fl =
     seq (rd (\<lambda>m. strnlen m a (if p <s 0 then ucast INT_MAX else scast p))) (\<lambda>n.
       let z = a + n;
           done = ret (Go \<lparr>fa = a, fz = z, fp = ucast (z - a), ffl = fl AND NOT ZERO_PAD, fpl = 0, fprefix = pf_prefix E\<rparr>)
       in if p <s 0 then seq (rd (\<lambda>m. m z)) (\<lambda>b. if b \<noteq> 0 then ret Overflow else done) else done)"

text \<open>The lines after the switch: sign or prefix, padding, text.\<close>

definition emit :: "('f, 'x) pfenv \<Rightarrow> u32 \<Rightarrow> u32 \<Rightarrow> field \<Rightarrow> FILE \<Rightarrow> ((u32 \<times> FILE) ctl, 'x) run" where
  "emit E cnt w t f =
     (let p = (if scast (fp t) <s fz t - fa t then ucast (fz t - fa t) else fp t); pl = fpl t; fl = ffl t
      in if INT_MAX - pl <s p then ret Overflow
         else let w = (if w <s pl + p then pl + p else w)
         in if INT_MAX - cnt <s w then ret Overflow
         else
           seq (pad E 0x20 w (pl + p) fl f) (\<lambda>f.
           seq (out E (fprefix t) (scast pl) f) (\<lambda>f.
           seq (pad E 0x30 w (pl + p) (fl XOR ZERO_PAD) f) (\<lambda>f.
           seq (pad E 0x30 p (ucast (fz t - fa t)) 0 f) (\<lambda>f.
           seq (out E (fa t) (fz t - fa t) f) (\<lambda>f.
           seq (pad E 0x20 w (pl + p) (fl XOR LEFT_ADJ) f) (\<lambda>f.
             ret (Go (w, f)))))))))"

text \<open>Wide strings: the length in bytes within the precision, then the output.\<close>

partial_function (option) wide_count ::
  "mbenv \<Rightarrow> addr \<Rightarrow> u32 \<Rightarrow> mem \<Rightarrow> addr \<Rightarrow> u64 \<Rightarrow> u32 \<Rightarrow> ((u64 \<times> u32) \<times> mem) option" where
  "wide_count M mb p m ws i l =
     (if \<not> i < scast p then Some ((i, l), m)
      else do { c \<leftarrow> load32 m ws;
                if c = 0 then Some ((i, l), m)
                else do { (l, m) \<leftarrow> wctomb M m mb c;
                          if l <s 0 \<or> scast p - i < scast l then Some ((i, l), m)
                          else wide_count M mb p m (ws + 4) (i + scast l) l } })"

partial_function (option) wide_out ::
  "('f, 'x) pfenv \<Rightarrow> u32 \<Rightarrow> addr \<Rightarrow> u64 \<Rightarrow> FILE \<Rightarrow> mem \<Rightarrow> 'x \<Rightarrow> (FILE, 'x) outcome option" where
  "wide_out E p ws i f m x =
     (if \<not> i < ucast p then ret f m x
      else seq (rd (\<lambda>m. load32 m ws)) (\<lambda>c m x.
        if c = 0 then ret f m x
        else seq (act (\<lambda>m. wctomb (pf_mb E) m (pf_mbc E) c)) (\<lambda>l m x.
          if scast p < i + scast l then ret f m x
          else seq (out E (pf_mbc E) (scast l) f) (\<lambda>f m x. wide_out E p (ws + 4) (i + scast l) f m x) m x) m x) m x)"

definition conv_wide :: "('f, 'x) pfenv \<Rightarrow> addr \<Rightarrow> u32 \<Rightarrow> u32 \<Rightarrow> u32 \<Rightarrow> FILE \<Rightarrow> ((u32 \<times> FILE) ctl, 'x) run" where
  "conv_wide E ws w p fl f =
     seq (act (\<lambda>m. wide_count (pf_mb E) (pf_mbc E) p m ws 0 0)) (\<lambda>(i, l).
       if l <s 0 then ret (Return (- 1))
       else if ucast INT_MAX < i then ret Overflow
       else let p = ucast i
         in seq (pad E 0x20 w p fl f) (\<lambda>f.
            seq (\<lambda>m x. wide_out E p ws 0 f m x) (\<lambda>f.
            seq (pad E 0x20 w p (fl XOR LEFT_ADJ) f) (\<lambda>f.
              ret (Go (if p <s w then w else p, f))))))"

definition store_count :: "mem \<Rightarrow> ptype \<Rightarrow> addr \<Rightarrow> u32 \<Rightarrow> mem option" where
  "store_count m ps a cnt =
     (if ps = BARE then store32 m a cnt
      else if ps \<in> {LPRE, LLPRE, ZTPRE, JPRE} then store64 m a (scast cnt)
      else if ps = HPRE then store_bytes m a (word_bytes 2 cnt)
      else if ps = HHPRE then store8 m a (ucast cnt)
      else Some m)"

text \<open>\<open>switch(t)\<close>: the field width written, and the stream.\<close>

definition conversion ::
  "('f, 'x) pfenv \<Rightarrow> 'f pfstate \<Rightarrow> byte \<Rightarrow> ptype \<Rightarrow> 'f slot \<Rightarrow> u32 \<Rightarrow> u32 \<Rightarrow> bool \<Rightarrow> u32 \<Rightarrow> FILE \<Rightarrow>
    ((u32 \<times> FILE) ctl, 'x) run" where
  "conversion E st t ps arg w p xp fl f =
     (let t = (if ps \<noteq> BARE \<and> t AND 15 = 3 then t AND NOT 32 else t);
          fl = (if fl AND LEFT_ADJ \<noteq> 0 then fl AND NOT ZERO_PAD else fl)
      in if t \<in> set (map of_char ''efgaEFGA'') then
           (if xp \<and> p <s 0 then ret Overflow
            else seq (rd (\<lambda>_. arg_f arg)) (\<lambda>y.
                 seq (pf_fmt_fp E f y w p fl t) (\<lambda>(l, f).
                   if l <s 0 then ret Overflow else ret (Go (l, f)))))
         else if t = 0x6d then go (conv_str E (pf_strerror E) p fl) (\<lambda>d. emit E (pf_cnt st) w d f)
         else seq (rd (\<lambda>_. arg_i arg)) (\<lambda>v.
           if t = 0x6e then
             seq (wr (\<lambda>m. store_count m ps v (pf_cnt st))) (\<lambda>_. ret (Go (pf_l st, f)))
           else if t = 0x63 then go (conv_char E v fl) (\<lambda>d. emit E (pf_cnt st) w d f)
           else if t = 0x73 then
             go (conv_str E (if v \<noteq> 0 then v else pf_null E) p fl) (\<lambda>d. emit E (pf_cnt st) w d f)
           else if t = 0x43 then
             seq (wr (\<lambda>m. do { m \<leftarrow> store32 m (pf_wc E) (ucast v); store32 m (pf_wc E + 4) 0 })) (\<lambda>_.
               conv_wide E (pf_wc E) w (- 1) fl f)
           else if t = 0x53 then conv_wide E v w p fl f
           else go (conv_int E t v p xp fl) (\<lambda>d. emit E (pf_cnt st) w d f)))"

section \<open>\<open>printf_core\<close>\<close>

text \<open>A directive, from the \<open>%\<close> on: the new state, with the width written in \<open>pf_l\<close>.\<close>

definition directive :: "('f, 'x) pfenv \<Rightarrow> 'f pfstate \<Rightarrow> ('f pfstate ctl, 'x) run" where
  "directive E st =
     seq (rd (\<lambda>m. dollar m (pf_s st + 1))) (\<lambda>d.
     let (argpos, st) =
           (case d of Some i \<Rightarrow> (Some i, st\<lparr>pf_l10n := True, pf_s := pf_s st + 3\<rparr>)
            | None \<Rightarrow> (None, st\<lparr>pf_s := pf_s st + 1\<rparr>))
     in seq (rd (\<lambda>m. read_flags m (pf_s st) 0)) (\<lambda>(fl, s).
        go (read_width (st\<lparr>pf_s := s\<rparr>) fl) (\<lambda>(w, fl, st).
        go (read_precision st) (\<lambda>(p, xp, st).
        go (rd (\<lambda>m. read_type m (pf_s st) BARE)) (\<lambda>(ty, ps, t, s).
        let st = st\<lparr>pf_s := s\<rparr>
        in if ty = NOARG \<and> argpos \<noteq> None then ret Inval
           else if ty \<noteq> NOARG \<and> argpos = None \<and> pf_f st = None then ret (Return 0)
           else
             seq (rd (\<lambda>_.
               if ty = NOARG then Some (ISlot 0, st)
               else case argpos of
                 Some i \<Rightarrow> Some (pf_nl_arg st ! i, st\<lparr>pf_nl_type := (pf_nl_type st)[i := ty]\<rparr>)
               | None \<Rightarrow> do { (arg, ap) \<leftarrow> pop_arg (ISlot 0) ty (pf_ap st); Some (arg, st\<lparr>pf_ap := ap\<rparr>) }))
             (\<lambda>(arg, st). case pf_f st of
               None \<Rightarrow> ret (Go st)
             | Some f \<Rightarrow>
                 go (conversion E st t ps arg w p xp fl f) (\<lambda>(l, f).
                   ret (Go (st\<lparr>pf_l := l, pf_f := Some f\<rparr>)))))))))"

text \<open>
  One round: the loop ends (\<open>Inl\<close>) or goes on with a new state. A jump out of the directive
  leaves the stream as the literal text before it has; nothing of a failing directive is
  written.
\<close>

definition printf_round :: "('f, 'x) pfenv \<Rightarrow> 'f pfstate \<Rightarrow> (('f pfstate + 'f pfstate) ctl \<times> FILE option, 'x) run" where
  "printf_round E st =
     (if INT_MAX - pf_cnt st <s pf_l st then ret (Overflow, pf_f st)
      else let st = st\<lparr>pf_cnt := pf_cnt st + pf_l st\<rparr>
      in seq (rd (\<lambda>m. m (pf_s st))) (\<lambda>b.
        if b = 0 then ret (Go (Inl st), pf_f st)
        else
          seq (rd (\<lambda>m. scan (\<lambda>c. c = 0 \<or> c = 0x25) m (pf_s st))) (\<lambda>e.
          seq (rd (\<lambda>m. percents m e e)) (\<lambda>(z, s).
            let a = pf_s st
            in if scast (INT_MAX - pf_cnt st) <s z - a then ret (Overflow, pf_f st)
               else
                 let l = ucast (z - a); st = st\<lparr>pf_l := l, pf_s := s\<rparr>
                 in seq (case pf_f st of None \<Rightarrow> ret st
                         | Some f \<Rightarrow> seq (out E a (scast l) f) (\<lambda>f. ret (st\<lparr>pf_f := Some f\<rparr>)))
                      (\<lambda>st. if l \<noteq> 0 then ret (Go (Inr st), pf_f st)
                            else seq (go (directive E st) (\<lambda>st. ret (Go (Inr st)))) (\<lambda>c. ret (c, pf_f st)))))))"

partial_function (option) printf_loop ::
  "('f, 'x) pfenv \<Rightarrow> 'f pfstate \<Rightarrow> mem \<Rightarrow> 'x \<Rightarrow> ('f pfstate ctl \<times> FILE option, 'x) outcome option" where
  "printf_loop E st m x =
     seq (printf_round E st) (\<lambda>(c, fo) m x. case c of
         Go (Inr st) \<Rightarrow> printf_loop E st m x
       | Go (Inl st) \<Rightarrow> ret (Go st, pf_f st) m x
       | Inval \<Rightarrow> ret (Inval, fo) m x
       | Overflow \<Rightarrow> ret (Overflow, fo) m x
       | Return v \<Rightarrow> ret (Return v, fo) m x) m x"

text \<open>The collection of the positional arguments, \<open>i\<close> from 1 to \<open>NL_ARGMAX\<close>, and the check for holes.\<close>

fun nl_collect :: "nat \<Rightarrow> nat \<Rightarrow> ptype list \<Rightarrow> 'f slot list \<Rightarrow> 'f slot list \<Rightarrow> (nat \<times> 'f slot list \<times> 'f slot list) option" where
  "nl_collect 0 i types args ap = Some (i, args, ap)"
| "nl_collect (Suc k) i types args ap =
     (if types ! i = BARE then Some (i, args, ap)
      else do { (arg, ap) \<leftarrow> pop_arg (args ! i) (types ! i) ap;
                nl_collect k (Suc i) types (args[i := arg]) ap })"

definition nl_holes :: "nat \<Rightarrow> ptype list \<Rightarrow> bool" where
  "nl_holes i types \<longleftrightarrow> (\<exists>j\<in>set [i..<10]. types ! j \<noteq> BARE)"

definition printf_end :: "'f pfstate \<Rightarrow> ((u32 \<times> 'f pfstate) ctl, 'x) run" where
  "printf_end st =
     (if pf_f st \<noteq> None then ret (Go (pf_cnt st, st))
      else if \<not> pf_l10n st then ret (Go (0, st))
      else seq (rd (\<lambda>_. nl_collect 9 1 (pf_nl_type st) (pf_nl_arg st) (pf_ap st))) (\<lambda>(i, args, ap).
        if nl_holes i (pf_nl_type st) then ret Inval
        else ret (Go (1, st\<lparr>pf_nl_arg := args, pf_ap := ap\<rparr>))))"

text \<open>
  The return value, the stream, and the state where the call got to the end (the arrays of
  positional arguments and the argument list go on to the second pass).
\<close>

definition printf_core :: "('f, 'x) pfenv \<Rightarrow> 'f pfstate \<Rightarrow> (u32 \<times> FILE option \<times> 'f pfstate option, 'x) run" where
  "printf_core E st =
     seq (\<lambda>m x. printf_loop E st m x) (\<lambda>(c, fo).
     seq (go (ret c) printf_end) (\<lambda>c. case c of
         Go (v, st) \<Rightarrow> ret (v, fo, Some st)
       | Return v \<Rightarrow> ret (v, fo, None)
       | Inval \<Rightarrow> seq (set_errno (mbenv.errno_at (pf_mb E)) EINVAL) (\<lambda>_. ret (- 1, fo, None))
       | Overflow \<Rightarrow> seq (set_errno (mbenv.errno_at (pf_mb E)) EOVERFLOW) (\<lambda>_. ret (- 1, fo, None))))"

section \<open>\<open>vfprintf\<close> and \<open>vsnprintf\<close>\<close>

definition first_pass :: "('f, 'x) pfenv \<Rightarrow> addr \<Rightarrow> 'f slot list \<Rightarrow> 'f pfstate" where
  "first_pass E fmt ap =
     \<lparr>pf_s = fmt, pf_cnt = 0, pf_l = 0, pf_l10n = False, pf_ap = ap, pf_nl_arg = pf_nl_junk E,
      pf_nl_type = replicate 10 BARE, pf_f = None\<rparr>"

definition second_pass :: "'f pfstate \<Rightarrow> addr \<Rightarrow> FILE \<Rightarrow> 'f pfstate" where
  "second_pass st fmt f =
     st\<lparr>pf_s := fmt, pf_cnt := 0, pf_l := 0, pf_l10n := False, pf_f := Some f\<rparr>"

text \<open>A stream without a buffer gets one of 80 bytes for the call.\<close>

definition borrow_buffer :: "('f, 'x) pfenv \<Rightarrow> FILE \<Rightarrow> addr \<times> FILE" where
  "borrow_buffer E f =
     (if buf_size f = 0 then
        (buf f, f\<lparr>wpos := pf_internal E, wbase := pf_internal E, buf := pf_internal E, buf_size := 80,
                  wend := pf_internal E + 80\<rparr>)
      else (0, f))"

definition return_buffer :: "('f, 'x) pfenv \<Rightarrow> addr \<Rightarrow> u32 \<Rightarrow> FILE \<Rightarrow> (u32 \<times> FILE, 'x) run" where
  "return_buffer E saved rc f =
     (if saved \<noteq> 0 then
        seq (pf_write E f 0 0) (\<lambda>(_, f).
          ret (if wpos f = 0 then - 1 else rc,
               f\<lparr>buf := saved, buf_size := 0, wpos := 0, wbase := 0, wend := 0\<rparr>))
      else ret (rc, f))"

definition vfprintf :: "('f, 'x) pfenv \<Rightarrow> FILE \<Rightarrow> addr \<Rightarrow> 'f slot list \<Rightarrow> (u32 \<times> FILE, 'x) run" where
  "vfprintf E f fmt ap =
     seq (printf_core E (first_pass E fmt ap)) (\<lambda>(rc, _, st).
       if rc <s 0 then ret (- 1, f)
       else
         let st = (case st of None \<Rightarrow> first_pass E fmt ap | Some st \<Rightarrow> st);
             olderr = flags f AND F_ERR;
             f = (if mode f <s 1 then f\<lparr>flags := flags f AND NOT F_ERR\<rparr> else f);
             (saved, f) = borrow_buffer E f
         in seq (printf_core E (second_pass st fmt f)) (\<lambda>(rc, fo, _).
            seq (return_buffer E saved rc (case fo of None \<Rightarrow> f | Some f \<Rightarrow> f)) (\<lambda>(rc, f).
              ret (if flags f AND F_ERR \<noteq> 0 then - 1 else rc, f\<lparr>flags := flags f OR olderr\<rparr>))))"

definition empty_file :: FILE where
  "empty_file =
     \<lparr>flags = 0, rpos = 0, rend = 0, wend = 0, wpos = 0, wbase = 0, buf = 0, buf_size = 0, fd = 0, mode = 0,
      lbf = 0, fcookie = \<lparr>ck_s = 0, ck_n = 0\<rparr>\<rparr>"

definition vsnprintf :: "('f, 'x) pfenv \<Rightarrow> addr \<Rightarrow> u64 \<Rightarrow> addr \<Rightarrow> 'f slot list \<Rightarrow> (u32, 'x) run" where
  "vsnprintf E s n fmt ap =
     (let c = \<lparr>ck_s = (if n \<noteq> 0 then s else pf_sn_dummy E), ck_n = (if n \<noteq> 0 then n - 1 else 0)\<rparr>;
          f = empty_file\<lparr>lbf := - 1, buf := pf_sn_buf E, fcookie := c\<rparr>
      in if ucast INT_MAX < n then
           seq (set_errno (mbenv.errno_at (pf_mb E)) EOVERFLOW) (\<lambda>_. ret (- 1))
         else
           seq (wr (\<lambda>m. store8 m (ck_s c) 0)) (\<lambda>_.
           seq (vfprintf (E\<lparr>pf_write := sn_write\<rparr>) f fmt ap) (\<lambda>(rc, _). ret rc)))"

end
