(* ===== verification/PrintfField.thy ===== *)
theory PrintfField
  imports Printf
begin

text \<open>
  The parts of \<open>printf\<close> below a directive: the digit loops, the readers of numbers and flags,
  \<open>out\<close>, \<open>pad\<close> and the output of a field on every stream that keeps the contract
  \<open>stream_writer\<close>, and the integer, character and string conversions against a reference
  (\<open>int_text\<close>).
\<close>

section \<open>Digits\<close>

text \<open>The digits of a number, most significant first, none for 0.\<close>

fun digits_of :: "nat \<Rightarrow> nat \<Rightarrow> nat list" where
  "digits_of b n = (if b < 2 \<or> n = 0 then [] else digits_of b (n div b) @ [n mod b])"

declare digits_of.simps [simp del]

definition dec_digit :: "nat \<Rightarrow> byte" where
  "dec_digit d = 0x30 + of_nat d"

definition hex_digit :: "byte \<Rightarrow> nat \<Rightarrow> byte" where
  "hex_digit lower d = xdigits ! d OR lower"

lemma digits_of_0 [simp]: "digits_of b 0 = []"
  by (simp add: digits_of.simps)

lemma digits_of_step: "2 \<le> b \<Longrightarrow> n \<noteq> 0 \<Longrightarrow> digits_of b n = digits_of b (n div b) @ [n mod b]"
  by (subst digits_of.simps) simp

lemma digits_of_Nil: "2 \<le> b \<Longrightarrow> digits_of b n = [] \<longleftrightarrow> n = 0"
  by (cases "n = 0") (simp_all add: digits_of_step)

lemma digits_of_length: "n < b ^ k \<Longrightarrow> length (digits_of b n) \<le> k"
proof (induction k arbitrary: n)
  case (Suc k)
  show ?case
  proof (cases "b < 2 \<or> n = 0")
    case True
    then show ?thesis by (subst digits_of.simps) simp
  next
    case False
    then have "n div b < b ^ k" using Suc.prems by (simp add: less_mult_imp_div_less mult.commute)
    then show ?thesis using Suc.IH False by (simp add: digits_of_step)
  qed
qed (simp add: digits_of.simps)

lemma digits_of_less: "2 \<le> b \<Longrightarrow> d \<in> set (digits_of b n) \<Longrightarrow> d < b"
proof (induction b n rule: digits_of.induct)
  case (1 b n)
  then show ?case by (cases "n = 0") (auto simp: digits_of_step)
qed

text \<open>The three conversion loops have one shape; each leaves its digits below \<open>s\<close>.\<close>

lemma digit_loop:
  assumes F: "\<And>m v s. F m v s = (if v \<noteq> 0 then Option.bind (store8 m (s - 1) (g v)) (\<lambda>m. F m (shrink v) (s - 1)) else Some (s, m))"
    and g: "\<And>v :: u64. v \<noteq> 0 \<Longrightarrow> g v = f (unat v mod b) \<and> unat (shrink v) = unat v div b" and b: "2 \<le> b"
  shows "mapped m p (length (digits_of b (unat v))) \<Longrightarrow>
    F m v (p + of_nat (length (digits_of b (unat v)))) = Some (p, put_bytes m p (map f (digits_of b (unat v))))"
proof (induction "unat v" arbitrary: v m rule: less_induct)
  case less
  show ?case
  proof (cases "v = 0")
    case True
    then show ?thesis by (subst F) simp
  next
    case False
    then have nz: "unat v \<noteq> 0" by (simp add: unat_eq_0)
    define D where "D = digits_of b (unat v div b)"
    define q where "q = p + of_nat (length D)"
    have D: "digits_of b (unat v) = D @ [unat v mod b]" using digits_of_step [OF b nz] by (simp add: D_def)
    have v: "g v = f (unat v mod b)" "unat (shrink v) = unat v div b" using g [OF False] by simp_all
    have w: "mapped m p (length D)" "m q \<noteq> None"
      using less.prems mapped_append [of m p "length D" 1] by (simp_all add: D q_def mapped_Suc)
    define m1 where "m1 = put_bytes m q [f (unat v mod b)]"
    have st: "store8 m q (g v) = Some m1" using w(2) by (simp add: m1_def v(1) store8_put)
    have "unat (shrink v) < unat v" using nz b by (simp add: v(2))
    moreover have "mapped m1 p (length (digits_of b (unat (shrink v))))" using w(1) by (simp add: v(2) m1_def mapped_put D_def)
    ultimately have "F m1 (shrink v) q = Some (p, put_bytes m1 p (map f D))"
      using less.hyps [of "shrink v" m1] unfolding v(2) by (simp add: D_def q_def)
    moreover have "put_bytes m1 p (map f D) = put_bytes m p (map f (D @ [unat v mod b]))"
      using put_bytes_prepend [of "map f D" "[f (unat v mod b)]" m p]
        digits_of_length [of "unat (shrink v)" b 64] power_mono [of 2 b 64] unsigned_less [of "shrink v", where ?'a = nat] b
      by (simp add: m1_def q_def D_def v(2))
    moreover have "F m v (p + of_nat (length (digits_of b (unat v)))) = F m1 (shrink v) q"
      using False st by (subst F) (simp add: D q_def)
    ultimately show ?thesis by (simp add: D)
  qed
qed

lemma ucast_of_unat: "(ucast (x :: u64) :: byte) = of_nat (unat x)"
  by (simp add: word_unat_eq_iff unsigned_ucast_eq unat_of_nat unsigned_take_bit_eq take_bit_nat_def)

lemma fmt_u_text:
  "mapped m p (length (digits_of 10 (unat v))) \<Longrightarrow>
    fmt_u m v (p + of_nat (length (digits_of 10 (unat v)))) = Some (p, put_bytes m p (map dec_digit (digits_of 10 (unat v))))"
  by (rule digit_loop [OF fmt_u.simps]) (simp_all add: ucast_of_unat dec_digit_def unat_mod unat_div)

lemma fmt_o_text:
  "mapped m p (length (digits_of 8 (unat v))) \<Longrightarrow>
    fmt_o m v (p + of_nat (length (digits_of 8 (unat v)))) = Some (p, put_bytes m p (map dec_digit (digits_of 8 (unat v))))"
  by (rule digit_loop [OF fmt_o.simps]) (simp_all add: ucast_of_unat dec_digit_def unat_and_7 unat_drop_bit)

lemma unat_and_15: "unat (a AND 15) = unat a mod 16" for a :: u64
proof -
  have "a AND 15 = take_bit 4 a" by (simp add: take_bit_eq_mask mask_eq_exp_minus_1)
  then show ?thesis by (simp add: unsigned_take_bit_eq take_bit_nat_def)
qed

lemma fmt_x_text:
  "mapped m p (length (digits_of 16 (unat v))) \<Longrightarrow>
    fmt_x m v (p + of_nat (length (digits_of 16 (unat v)))) lower =
      Some (p, put_bytes m p (map (hex_digit lower) (digits_of 16 (unat v))))"
  by (rule digit_loop [where F = "\<lambda>m v s. fmt_x m v s lower", OF fmt_x.simps])
     (simp_all add: hex_digit_def unat_and_15 unat_drop_bit)

section \<open>Reading the format\<close>

lemma sint_byte: "sint (b :: byte) = (if unat b < 128 then int (unat b) else int (unat b) - 256)"
proof -
  have l: "uint b < 256" using unsigned_less [of b, where ?'a = int] by simp
  have "uint b div 128 = (if uint b < 128 then 0 else 1)" using l by auto
  then have "bit (uint b) 7 \<longleftrightarrow> \<not> uint b < 128" by (simp add: bit_iff_odd)
  moreover have "take_bit 8 (uint b) = uint b" using l by (simp add: take_bit_int_eq_self)
  ultimately have "sint b = (if uint b < 128 then uint b else uint b - 256)"
    unfolding sint_uint by (simp add: signed_take_bit_eq_take_bit_minus)
  moreover have "uint b < 128 \<longleftrightarrow> unat b < 128" unfolding uint_nat by linarith
  ultimately show ?thesis by simp
qed

lemma scast_range:
  assumes "c + n \<le> 128" "(s :: u32) = of_nat c" "(l :: u32) = of_nat n"
  shows "(scast (b :: byte) - s :: u32) < l \<longleftrightarrow> c \<le> unat b \<and> unat b < c + n"
    and "c \<le> unat b \<Longrightarrow> unat b < 128 \<Longrightarrow> unat (scast (b :: byte) - s :: u32) = unat b - c"
proof -
  define B where "B = unat b"
  have sb: "sint b = (if B < 128 then int B else int B - 256)" unfolding B_def by (rule sint_byte)
  have e: "(scast b - s :: u32) = word_of_int (sint b - int c)" using assms(2) by simp
  have u: "uint (scast b - s :: u32) = (sint b - int c) mod 2 ^ 32" unfolding e by (subst uint_word_of_int) simp
  have "B < 256" using unsigned_less [of b, where ?'a = nat] by (simp add: B_def)
  then have k: "- (2 ^ 31) \<le> sint b - int c" "sint b - int c < 2 ^ 31" "0 \<le> sint b - int c \<longleftrightarrow> B < 128 \<and> c \<le> B"
    using assms(1) unfolding sb by auto
  have m: "k mod 2 ^ 32 = (if 0 \<le> k then k else k + 2 ^ 32)" if "- (2 ^ 31) \<le> k" "k < 2 ^ 31" for k :: int
    using that mod_add_self2 [of k "2 ^ 32"] mod_pos_pos_trivial [of "k + 2 ^ 32" "2 ^ 32"] by auto
  have r: "(sint b - int c) mod 2 ^ 32 = (if B < 128 \<and> c \<le> B then int (B - c) else sint b - int c + 2 ^ 32)"
    unfolding m [OF k(1,2)] k(3) by (auto simp: sb)
  show "(scast b - s :: u32) < l \<longleftrightarrow> c \<le> unat b \<and> unat b < c + n"
    using assms u r k unfolding B_def [symmetric]
    by (auto simp: word_less_def unsigned_of_nat take_bit_nat_eq_self)
  show "unat (scast b - s :: u32) = unat b - c" if "c \<le> unat b" "unat b < 128"
    using u r that unfolding B_def [symmetric] by (simp add: unat_eq_nat_uint del: uint_nat)
qed

lemma is_digit_iff: "is_digit b \<longleftrightarrow> 48 \<le> unat b \<and> unat b < 58"
  unfolding is_digit_def using scast_range(1) [of 48 10 "0x30" 10 b] by simp

definition dec_value :: "nat \<Rightarrow> byte list \<Rightarrow> nat" where
  "dec_value i ds = foldl (\<lambda>n d. 10 * n + (unat d - 48)) i ds"

lemma dec_value_simps [simp]:
  "dec_value i [] = i" "dec_value i (d # ds) = dec_value (10 * i + (unat d - 48)) ds"
  by (simp_all add: dec_value_def)

lemma dec_value_mono: "i \<le> dec_value i ds"
proof (induction ds arbitrary: i)
  case (Cons d ds)
  from Cons [of "10 * i + (unat d - 48)"] show ?case by simp
qed simp

lemma getint_loop_text:
  "bytes_at m s (ds @ [c]) \<Longrightarrow> \<forall>d\<in>set ds. is_digit d \<Longrightarrow> \<not> is_digit c \<Longrightarrow> dec_value i ds < 2 ^ 31 \<Longrightarrow>
    getint_loop m s (of_nat i) = Some (of_nat (dec_value i ds), s + of_nat (length ds))"
proof (induction ds arbitrary: i s)
  case Nil
  then show ?case by (subst getint_loop.simps) simp
next
  case (Cons d ds)
  define e where "e = unat d - 48"
  have d: "48 \<le> unat d" "unat d < 58" using Cons.prems(2) by (simp_all add: is_digit_iff)
  have v: "dec_value (10 * i + e) ds < 2 ^ 31" using Cons.prems(4) by (simp add: e_def)
  then have ub: "10 * i + e < 2 ^ 31" using dec_value_mono [of "10 * i + e" ds] by simp
  have ud: "unat (scast d - 0x30 :: u32) = e" unfolding e_def
    by (rule scast_range(2) [of 48 10 "0x30" 10]) (use d in simp_all)
  then have de: "(scast d - 0x30 :: u32) = of_nat e" by (metis of_nat_unat ucast_id)
  have "unat (of_nat i :: u32) = i" using ub by (simp add: unat_of_nat)
  then have 1: "\<not> INT_MAX div 10 < of_nat i" using ub by (simp add: word_less_nat_alt INT_MAX_def)
  have dd: "INT_MAX - 10 * of_nat i = of_nat (2 ^ 31 - 1 - 10 * i)"
    using ub by (subst of_nat_diff) (simp_all add: INT_MAX_def)
  have 2: "\<not> INT_MAX - 10 * of_nat i <s (of_nat e :: u32)"
    unfolding dd word_sless_alt using ub sint_of_nat32 [of e] sint_of_nat32 [of "2 ^ 31 - 1 - 10 * i"] by simp
  have "getint_loop m s (of_nat i) = getint_loop m (s + 1) (of_nat (10 * i + e))"
    using Cons.prems 1 2 by (subst getint_loop.simps) (simp add: de)
  then show ?case using Cons.IH [of "s + 1" "10 * i + e"] Cons.prems v by (simp add: e_def add.assoc)
qed

lemma getint_text:
  assumes "bytes_at m s (ds @ [c])" "\<forall>d\<in>set ds. is_digit d" "\<not> is_digit c" "dec_value 0 ds < 2 ^ 31"
  shows "getint m s = Some (of_nat (dec_value 0 ds), s + of_nat (length ds))"
  using getint_loop_text [OF assms] by (simp add: getint_def)

text \<open>Flags: the characters and the mask they leave.\<close>

definition is_flag :: "byte \<Rightarrow> bool" where
  "is_flag c \<longleftrightarrow> c \<in> {0x23, 0x30, 0x2d, 0x20, 0x2b, 0x27}"

definition flag_bits :: "byte list \<Rightarrow> u32" where
  "flag_bits fs = foldl (\<lambda>fl c. fl OR push_bit (unat c - 32) 1) 0 fs"

lemma push_bit_and_zero: "push_bit k 1 AND (x :: u32) = 0 \<longleftrightarrow> \<not> bit x k" if "k < 32"
proof -
  have "push_bit k 1 AND x = 0 \<longleftrightarrow> (\<forall>n. \<not> bit (push_bit k 1 AND x) n)" by (metis bit_0_eq bot_apply bot_bool_def word_nonzero_bit)
  then show ?thesis using that by (auto simp: bit_simps)
qed

lemma bit_push_bit_1: "n < 32 \<Longrightarrow> bit (push_bit n 1 :: u32) k \<longleftrightarrow> k = n"
  by (auto simp: bit_simps)

lemma flagmask_bit: "k < 32 \<Longrightarrow> FLAGMASK AND push_bit k 1 \<noteq> 0 \<longleftrightarrow> k \<in> {3, 16, 13, 0, 11, 7}"
proof -
  assume k: "k < 32"
  have "bit FLAGMASK k \<longleftrightarrow> k \<in> {3, 16, 13, 0, 11, 7}"
    unfolding FLAGMASK_def ALT_FORM_def ZERO_PAD_def LEFT_ADJ_def PAD_POS_def MARK_POS_def GROUPED_def bit_or_iff
    by (subst bit_push_bit_1, simp)+ auto
  with push_bit_and_zero [OF k, of FLAGMASK] show ?thesis by (simp only: and.commute not_not)
qed

lemma flag_range: "(scast (b::byte) - 0x20 :: u32) < 32 \<longleftrightarrow> 32 \<le> unat b \<and> unat b < 64"
proof -
  have "(32::nat) + 32 \<le> 128" "(0x20 :: u32) = of_nat 32"  "(32 :: u32) = of_nat 32" by simp_all
  from scast_range(1) [OF this, of b] show ?thesis by (simp only: numeral_plus_numeral add_num_simps)
qed

lemma flag_test:
  defines "k b \<equiv> (scast (b :: byte) - 0x20 :: u32)"
  shows "k b < 32 \<and> FLAGMASK AND push_bit (unat (k b)) 1 \<noteq> 0 \<longleftrightarrow> is_flag b" (is ?T)
    and "is_flag b \<Longrightarrow> unat (k b) = unat b - 32"
proof -
  have lt: "k b < 32 \<longleftrightarrow> 32 \<le> unat b \<and> unat b < 64" unfolding k_def by (rule flag_range)
  have kv: "unat (k b) = unat b - 32" if "32 \<le> unat b" "unat b < 64"
    unfolding k_def by (rule scast_range(2) [of 32 32 "0x20" 32]) (use that in simp_all)
  have fl: "is_flag b \<longleftrightarrow> unat b \<in> {35, 48, 45, 32, 43, 39}" by (simp add: is_flag_def word_unat_eq_iff)
  show ?T
  proof (cases "32 \<le> unat b \<and> unat b < 64")
    case True
    then obtain j where j: "unat b = 32 + j" "j < 32" by (auto dest!: le_Suc_ex)
    then show ?thesis using True kv flagmask_bit [of j] by (auto simp: lt fl)
  qed (auto simp: lt fl)
  show "is_flag b \<Longrightarrow> unat (k b) = unat b - 32" using kv by (auto simp: fl)
qed

lemma read_flags_text:
  "bytes_at m s (fs @ [c]) \<Longrightarrow> \<forall>f\<in>set fs. is_flag f \<Longrightarrow> \<not> is_flag c \<Longrightarrow>
    read_flags m s fl = Some (foldl (\<lambda>fl c. fl OR push_bit (unat c - 32) 1) fl fs, s + of_nat (length fs))"
proof (induction fs arbitrary: s fl)
  case Nil
  then show ?case by (subst read_flags.simps) (simp only: Let_def flag_test(1), simp)
next
  case (Cons f fs)
  have "read_flags m s fl = read_flags m (s + 1) (fl OR push_bit (unat f - 32) 1)"
    using Cons.prems by (subst read_flags.simps) (simp only: Let_def flag_test(1), simp add: flag_test(2))
  with Cons show ?case by (simp add: add.assoc)
qed

lemma flag_bits_bit: "\<forall>f\<in>set fs. is_flag f \<Longrightarrow> k < 32 \<Longrightarrow> bit (flag_bits fs) k \<longleftrightarrow> of_nat (32 + k) \<in> set fs"
proof (induction fs rule: rev_induct)
  case (snoc f fs)
  have "32 \<le> unat f" using snoc.prems(1) by (auto simp: is_flag_def)
  moreover have "unat (of_nat (32 + k) :: byte) = 32 + k" using snoc.prems(2) by (simp only: unat_of_nat) simp
  ultimately have "of_nat (32 + k) = f \<longleftrightarrow> k = unat f - 32" by (auto simp only: word_unat_eq_iff)
  with snoc show ?case by (auto simp: flag_bits_def bit_simps)
qed (simp add: flag_bits_def)

lemma flag_in:
  assumes "\<forall>f\<in>set fs. is_flag f"
  shows "flag_bits fs AND LEFT_ADJ \<noteq> 0 \<longleftrightarrow> 0x2d \<in> set fs"
    and "flag_bits fs AND ZERO_PAD \<noteq> 0 \<longleftrightarrow> 0x30 \<in> set fs"
    and "flag_bits fs AND ALT_FORM \<noteq> 0 \<longleftrightarrow> 0x23 \<in> set fs"
    and "flag_bits fs AND MARK_POS \<noteq> 0 \<longleftrightarrow> 0x2b \<in> set fs"
    and "flag_bits fs AND PAD_POS \<noteq> 0 \<longleftrightarrow> 0x20 \<in> set fs"
  using push_bit_and_zero [of 13 "flag_bits fs"] push_bit_and_zero [of 16 "flag_bits fs"] push_bit_and_zero [of 3 "flag_bits fs"]
    push_bit_and_zero [of 11 "flag_bits fs"] push_bit_and_zero [of 0 "flag_bits fs"] flag_bits_bit [OF assms]
  by (simp_all only: and.commute LEFT_ADJ_def ZERO_PAD_def ALT_FORM_def MARK_POS_def PAD_POS_def) simp_all

section \<open>Text on a stream\<close>

lemma scast_of_nat32: "k < 2 ^ 31 \<Longrightarrow> (scast (of_nat k :: u32) :: u64) = of_nat k"
  by (rule scast_small)

lemma of_nat_sless64:
  assumes "i < 2 ^ 31" "j < 2 ^ 31"
  shows "(of_nat i :: u64) <s of_nat j \<longleftrightarrow> i < j"
proof -
  have "sint (of_nat k :: u64) = int k" if "k < 2 ^ 31" for k
    using sint_word_of_int_range [of "int k", where ?'a = 64] that by (simp add: in_range_def)
  with assms show ?thesis by (simp add: word_sless_alt)
qed

lemma int_max_minus: "k < 2 ^ 31 \<Longrightarrow> INT_MAX - of_nat k = of_nat (2 ^ 31 - 1 - k)"
  by (subst of_nat_diff) (simp_all add: INT_MAX_def)

context stream_writer
begin

text \<open>
  \<open>r\<close> appends \<open>D\<close> to what the stream has received, changes nothing outside \<open>S\<close>, and returns \<open>h\<close> of
  the stream.
\<close>

definition yields :: "(FILE \<Rightarrow> 'a) \<Rightarrow> ('a, 'x) run \<Rightarrow> FILE \<Rightarrow> mem \<Rightarrow> 'x \<Rightarrow> byte list \<Rightarrow> byte list \<Rightarrow> addr set \<Rightarrow> bool" where
  "yields h r f m x T D S \<longleftrightarrow>
     (\<exists>f' m' x'. r m x = Some (Done (h f') m' x') \<and> stream f' m' x' (T @ D) \<and> same_but S m m' \<and> core f' = core f)"

abbreviation delivers :: "(FILE, 'x) run \<Rightarrow> FILE \<Rightarrow> mem \<Rightarrow> 'x \<Rightarrow> byte list \<Rightarrow> byte list \<Rightarrow> addr set \<Rightarrow> bool" where
  "delivers \<equiv> yields (\<lambda>f. f)"

lemma yields_mono: "yields h r f m x T D S \<Longrightarrow> S \<subseteq> S' \<Longrightarrow> yields h r f m x T D S'"
  unfolding yields_def using same_but_mono by meson

lemma yields_ret: "stream f m x T \<Longrightarrow> yields h (ret (h f)) f m x T [] S"
  by (auto simp: yields_def ret_def)

lemma yields_seq:
  assumes "delivers r f m x T D S"
    and "\<And>f' m' x'. stream f' m' x' (T @ D) \<Longrightarrow> same_but S m m' \<Longrightarrow> core f' = core f \<Longrightarrow> yields h (k f') f' m' x' (T @ D) D' S"
  shows "yields h (seq r k) f m x T (D @ D') S"
proof -
  obtain f1 m1 x1 where 1: "r m x = Some (Done f1 m1 x1)" "stream f1 m1 x1 (T @ D)" "same_but S m m1" "core f1 = core f"
    using assms(1) by (auto simp: yields_def)
  obtain f2 m2 x2 where 2: "k f1 m1 x1 = Some (Done (h f2) m2 x2)" "stream f2 m2 x2 ((T @ D) @ D')" "same_but S m1 m2" "core f2 = core f1"
    using assms(2) [OF 1(2-4)] by (auto simp: yields_def)
  show ?thesis unfolding yields_def
    using 1 2 same_but_trans [OF 1(3) 2(3)] by (intro exI [of _ f2] exI [of _ m2] exI [of _ x2]) simp
qed

lemma out_ok:
  assumes E: "pf_write E = wfun" and s: "stream f m x T" and fl: "flags f AND F_ERR = 0" and b: "bytes_at m s D"
    and l: "length D < 2 ^ 62" and r: "reg s (length D) \<inter> foot = {}" and S: "foot \<subseteq> S"
  shows "delivers (out E s (of_nat (length D)) f) f m x T D S"
proof -
  obtain f' m' x' where "fwritex wfun s (of_nat (length D)) f m x = Some (Done (of_nat (length D), f') m' x')"
      "stream f' m' x' (T @ D)" "same_but foot m m'" "core f' = core f"
    using fwritex_ok [OF s b l r] by blast
  then show ?thesis unfolding yields_def
    using fl E same_but_mono [OF _ S] by (intro exI [of _ f'] exI [of _ m'] exI [of _ x']) (simp add: out_def seq_def ret_def)
qed

lemma pad_loop_ok:
  assumes E: "pf_write E = wfun" and r: "reg (pf_pad E) 256 \<inter> foot = {}"
  shows "stream f m x T \<Longrightarrow> flags f AND F_ERR = 0 \<Longrightarrow> k < 2 ^ 31 \<Longrightarrow> n \<le> 256 \<Longrightarrow> min 256 k \<le> n \<Longrightarrow>
    bytes_at m (pf_pad E) (replicate n c) \<Longrightarrow> delivers (pad_loop E (of_nat k) f) f m x T (replicate k c) foot"
proof (induction k arbitrary: f m x T rule: less_induct)
  case (less k)
  have sk: "(scast (of_nat k :: u32) :: u64) = of_nat k" using less.prems(3) by (rule scast_of_nat32)
  have le: "256 \<le> (of_nat k :: u64) \<longleftrightarrow> 256 \<le> k" using less.prems(3) by (simp add: word_le_nat_alt unat_of_nat)
  have part: "delivers (out E (pf_pad E) (of_nat j) f) f m x T (replicate j c) foot" if "j \<le> n" for j
  proof -
    have "bytes_at m (pf_pad E) (replicate j c)"
      using less.prems(6) that by (metis bytes_at_append le_add_diff_inverse replicate_add)
    moreover have "reg (pf_pad E) j \<inter> foot = {}" using r reg_mono [of j 256 "pf_pad E"] that less.prems(4) by auto
    ultimately show ?thesis
      using out_ok [OF E less.prems(1,2), of "pf_pad E" "replicate j c" foot] that less.prems(4) by simp
  qed
  show ?case
  proof (cases "256 \<le> k")
    case True
    then have n: "n = 256" using less.prems(4,5) by simp
    have "(of_nat k :: u32) - 256 = of_nat (k - 256)" using True by (simp add: of_nat_diff)
    then have eq: "pad_loop E (of_nat k) f m x = seq (out E (pf_pad E) 256 f) (\<lambda>f m x. pad_loop E (of_nat (k - 256)) f m x) m x"
      using True by (subst pad_loop.simps) (simp add: sk le)
    have "delivers (seq (out E (pf_pad E) 256 f) (\<lambda>f. pad_loop E (of_nat (k - 256)) f)) f m x T (replicate 256 c @ replicate (k - 256) c) foot"
    proof (rule yields_seq)
      show "delivers (out E (pf_pad E) 256 f) f m x T (replicate 256 c) foot" using part [of 256] n by simp
      fix f' m' x' assume *: "stream f' m' x' (T @ replicate 256 c)" "same_but foot m m'" "core f' = core f"
      show "delivers (pad_loop E (of_nat (k - 256)) f') f' m' x' (T @ replicate 256 c) (replicate (k - 256) c) foot"
      proof (rule less.IH)
        have "reg (pf_pad E) (length (replicate n c)) \<inter> foot = {}" using r reg_mono [of n 256 "pf_pad E"] less.prems(4) by auto
        then show "bytes_at m' (pf_pad E) (replicate n c)" using less.prems(6) bytes_at_same_but [OF *(2)] by blast
        show "flags f' AND F_ERR = 0" using *(3) less.prems(2) by (simp add: core_def)
      qed (use True *(1) less.prems n in auto)
    qed
    moreover have "replicate 256 c @ replicate (k - 256) c = replicate k c" using True by (simp flip: replicate_add)
    ultimately show ?thesis by (simp add: yields_def eq)
  next
    case False
    then have "pad_loop E (of_nat k) f m x = out E (pf_pad E) (of_nat k) f m x"
      by (subst pad_loop.simps) (simp add: sk le)
    with part [of k] False less.prems(5) show ?thesis by (simp add: yields_def)
  qed
qed

lemma pad_ok:
  assumes E: "pf_write E = wfun" and r: "reg (pf_pad E) 256 \<inter> foot = {}" and w: "mapped m (pf_pad E) 256"
    and s: "stream f m x T" and fl: "flags f AND F_ERR = 0" and l: "i < 2 ^ 31" "j < 2 ^ 31"
    and S: "foot \<subseteq> S" "reg (pf_pad E) 256 \<subseteq> S"
  shows "delivers (pad E c (of_nat i) (of_nat j) k f) f m x T
    (if k AND (LEFT_ADJ OR ZERO_PAD) \<noteq> 0 then [] else replicate (i - j) c) S"
proof (cases "k AND (LEFT_ADJ OR ZERO_PAD) \<noteq> 0 \<or> i \<le> j")
  case True
  then have "pad E c (of_nat i) (of_nat j) k f = ret f" using of_nat_sle [OF l] by (auto simp: pad_def)
  then show ?thesis using yields_ret [OF s] True by auto
next
  case False
  define d where "d = i - j"
  define n where "n = min 256 d"
  define m1 where "m1 = put_bytes m (pf_pad E) (replicate n c)"
  have d: "d < 2 ^ 31" "(of_nat i :: u32) - of_nat j = of_nat d" using l False by (simp_all add: d_def of_nat_diff)
  have sc: "(if 256 < (scast (of_nat d :: u32) :: u64) then 256 else scast (of_nat d :: u32)) = (of_nat n :: u64)"
    using d(1) by (auto simp: scast_of_nat32 n_def word_less_nat_alt unat_of_nat)
  have un: "unat (of_nat n :: u64) = n" by (simp add: n_def unat_of_nat)
  have uc: "(ucast (scast c :: u32) :: byte) = c" by (rule bit_word_eqI) (simp add: bit_simps)
  have mn: "mapped m (pf_pad E) n" using w by (rule mapped_mono) (simp add: n_def)
  have ms: "memset m (pf_pad E) (scast c) (of_nat n) = Some (pf_pad E, m1)"
    using memset_correct [of m "pf_pad E" "of_nat n" "scast c"] mn by (simp add: un uc m1_def)
  have rn: "reg (pf_pad E) n \<subseteq> reg (pf_pad E) 256" by (rule reg_mono) (simp add: n_def)
  have sb: "same_but (reg (pf_pad E) n) m m1" using put_bytes_same_but [of m "pf_pad E" "replicate n c"] mn by (simp add: m1_def)
  have s1: "stream f m1 x T" using s
  proof (rule stream_frame)
    fix a assume "a \<in> foot"
    then show "m1 a = m a" using sb r rn by (auto simp: same_but_def)
  qed
  have "bytes_at m1 (pf_pad E) (replicate n c)" unfolding m1_def by (rule bytes_at_put) (simp add: n_def)
  then have "delivers (pad_loop E (of_nat d) f) f m1 x T (replicate d c) foot"
    using pad_loop_ok [OF E r s1 fl d(1), of n c] by (simp add: n_def)
  then obtain f2 m2 x2 where 2: "pad_loop E (of_nat d) f m1 x = Some (Done f2 m2 x2)" "stream f2 m2 x2 (T @ replicate d c)"
      "same_but foot m1 m2" "core f2 = core f"
    by (auto simp: yields_def)
  have "same_but S m m2"
    using same_but_trans [OF same_but_mono [OF sb] same_but_mono [OF 2(3) S(1)]] rn S(2) by blast
  moreover have "pad E c (of_nat i) (of_nat j) k f m x = Some (Done f2 m2 x2)"
    using False of_nat_sle [OF l] ms 2(1) by (simp add: pad_def Let_def d(2) sc act_def seq_def)
  ultimately show ?thesis using False 2 by (auto simp: yields_def d_def)
qed

end

section \<open>A field\<close>

text \<open>The layout of a field: blanks, or zeros behind the prefix, up to the width.\<close>

definition padded :: "bool \<Rightarrow> bool \<Rightarrow> nat \<Rightarrow> byte list \<Rightarrow> byte list \<Rightarrow> byte list" where
  "padded lf zr W pre body =
     (let k = W - length (pre @ body)
      in if lf then pre @ body @ replicate k 0x20
         else if zr then pre @ replicate k 0x30 @ body
         else replicate k 0x20 @ pre @ body)"

lemma length_padded: "length (padded lf zr W pre body) = max W (length pre + length body)"
  by (simp add: padded_def Let_def max_def)

definition work :: "('f, 'x) pfenv \<Rightarrow> addr set" where
  "work E = reg (pf_buf E) 43 \<union> reg (pf_pad E) 256"

definition prefix_text :: "byte list" where
  "prefix_text = bytes_of ''-+   0X0x''"

lemma length_prefix_text [simp]: "length prefix_text = 9"
  by (simp add: prefix_text_def)

definition env_ok :: "('f, 'x) pfenv \<Rightarrow> mem \<Rightarrow> addr set \<Rightarrow> bool" where
  "env_ok E m R \<longleftrightarrow>
     mapped m (pf_buf E) 43 \<and> mapped m (pf_pad E) 256 \<and> bytes_at m (pf_prefix E) prefix_text \<and>
     reg (pf_buf E) 43 \<inter> R = {} \<and> reg (pf_pad E) 256 \<inter> R = {} \<and> reg (pf_buf E) 43 \<inter> reg (pf_pad E) 256 = {} \<and>
     reg (pf_prefix E) 9 \<inter> (R \<union> work E) = {}"

lemma env_ok_kept: "env_ok E m R \<Longrightarrow> same_but (R \<union> work E) m m' \<Longrightarrow> env_ok E m' R"
  using bytes_at_same_but [of "R \<union> work E" m m' "pf_prefix E" prefix_text]
  by (simp add: env_ok_def same_but_mapped)

text \<open>A field in memory: its text, its prefix, the precision.\<close>

definition field_at :: "mem \<Rightarrow> addr set \<Rightarrow> field \<Rightarrow> byte list \<Rightarrow> nat \<Rightarrow> byte list \<Rightarrow> bool" where
  "field_at m R t pre P ds \<longleftrightarrow>
     fz t = fa t + of_nat (length ds) \<and> bytes_at m (fa t) ds \<and> reg (fa t) (length ds) \<inter> R = {} \<and>
     fpl t = of_nat (length pre) \<and> bytes_at m (fprefix t) pre \<and> reg (fprefix t) (length pre) \<inter> R = {} \<and>
     fp t = of_nat P \<and> P < 2 ^ 31 \<and> length ds < 2 ^ 31 \<and> length pre < 2 ^ 31"

lemma field_at_kept: "field_at m R t pre P ds \<Longrightarrow> same_but R m m' \<Longrightarrow> field_at m' R t pre P ds"
  using bytes_at_same_but [of R m m'] by (auto simp: field_at_def)

lemma left_bit: "x AND LEFT_ADJ \<noteq> 0 \<longleftrightarrow> bit x 13" and zero_bit: "x AND ZERO_PAD \<noteq> 0 \<longleftrightarrow> bit x 16"
  using push_bit_and_zero [of 13 x] push_bit_and_zero [of 16 x] by (simp_all only: LEFT_ADJ_def ZERO_PAD_def and.commute) simp_all

lemma pad_flags:
  "x AND (LEFT_ADJ OR ZERO_PAD) \<noteq> 0 \<longleftrightarrow> bit x 13 \<or> bit x 16"
  "bit (x XOR LEFT_ADJ) 13 \<longleftrightarrow> \<not> bit x 13" "bit (x XOR LEFT_ADJ) 16 \<longleftrightarrow> bit x 16"
  "bit (x XOR ZERO_PAD) 13 \<longleftrightarrow> bit x 13" "bit (x XOR ZERO_PAD) 16 \<longleftrightarrow> \<not> bit x 16"
proof -
  have "x AND (LEFT_ADJ OR ZERO_PAD) = (x AND LEFT_ADJ) OR (x AND ZERO_PAD)" by (simp add: bit.conj_disj_distrib)
  then show "x AND (LEFT_ADJ OR ZERO_PAD) \<noteq> 0 \<longleftrightarrow> bit x 13 \<or> bit x 16"
    using left_bit [of x] zero_bit [of x] by (simp add: or_eq_0_iff)
qed (simp_all add: bit_xor_iff LEFT_ADJ_def ZERO_PAD_def bit_push_bit_1 del: push_bit_of_1)

context stream_writer
begin

lemma emit_ok:
  assumes E: "pf_write E = wfun" "env_ok E m foot" and s: "stream f m x T" and fl: "flags f AND F_ERR = 0"
    and t: "field_at m (foot \<union> reg (pf_pad E) 256) t pre P ds"
    and lr: "\<not> (ffl t AND LEFT_ADJ \<noteq> 0 \<and> ffl t AND ZERO_PAD \<noteq> 0)"
    and tx: "D = padded (ffl t AND LEFT_ADJ \<noteq> 0) (ffl t AND ZERO_PAD \<noteq> 0) W pre (replicate (P - length ds) 0x30 @ ds)"
    and n: "C + length D < 2 ^ 31"
  shows "yields (\<lambda>f. Go (of_nat (length D), f)) (emit E (of_nat C) (of_nat W) t f) f m x T D (foot \<union> work E)"
proof -
  define S where "S = foot \<union> reg (pf_pad E) 256"
  define Q where "Q = max P (length ds)"
  define w where "w = max W (length pre + Q)"
  have ft: "fz t - fa t = of_nat (length ds)" "fpl t = of_nat (length pre)" "fp t = of_nat P" "P < 2 ^ 31"
      "length ds < 2 ^ 31" "length pre < 2 ^ 31"
    using t by (simp_all add: field_at_def)
  have lD: "length D = w" unfolding tx w_def Q_def by (simp add: length_padded max_def)
  have b: "w < 2 ^ 31" "C < 2 ^ 31" "Q < 2 ^ 31" "W < 2 ^ 31" "length pre + Q < 2 ^ 31" "C + w < 2 ^ 31"
    using n lD by (auto simp: w_def)
  have p: "(if scast (fp t) <s fz t - fa t then ucast (fz t - fa t) else fp t) = of_nat Q"
    using b ft(4-6) by (simp add: ft scast_of_nat32 of_nat_sless64 ucast_of_nat32 Q_def max_def)
  have 0: "fpl t + of_nat Q = of_nat (length pre + Q)" by (simp add: ft)
  have 1: "\<not> INT_MAX - fpl t <s of_nat Q"
    unfolding ft(2) int_max_minus [OF ft(6)] using b by (subst of_nat_sless) auto
  have 2: "(if of_nat W <s fpl t + of_nat Q then fpl t + of_nat Q else of_nat W) = (of_nat w :: u32)"
    unfolding 0 using b by (simp add: of_nat_sless w_def max_def del: of_nat_add)
  have 3: "\<not> INT_MAX - of_nat C <s of_nat w"
    unfolding int_max_minus [OF b(2)] using b by (subst of_nat_sless) auto
  define fg where "fg = ffl t"
  define D1 where "D1 = (if fg AND (LEFT_ADJ OR ZERO_PAD) \<noteq> 0 then [] else replicate (w - (length pre + Q)) (0x20 :: byte))"
  define D3 where "D3 = (if (fg XOR ZERO_PAD) AND (LEFT_ADJ OR ZERO_PAD) \<noteq> 0 then [] else replicate (w - (length pre + Q)) (0x30 :: byte))"
  define D4 where "D4 = (if (0 :: u32) AND (LEFT_ADJ OR ZERO_PAD) \<noteq> 0 then [] else replicate (Q - length ds) (0x30 :: byte))"
  define D6 where "D6 = (if (fg XOR LEFT_ADJ) AND (LEFT_ADJ OR ZERO_PAD) \<noteq> 0 then [] else replicate (w - (length pre + Q)) (0x20 :: byte))"
  have D: "D = D1 @ pre @ D3 @ D4 @ ds @ D6 @ []"
  proof -
    have "w - (length pre + Q) = W - length (pre @ replicate (P - length ds) (0x30 :: byte) @ ds)" "Q - length ds = P - length ds"
      by (auto simp: w_def Q_def)
    then show ?thesis using lr unfolding tx padded_def Let_def D1_def D3_def D4_def D6_def pad_flags left_bit zero_bit fg_def [symmetric]
      by auto
  qed
  have emit: "emit E (of_nat C) (of_nat W) t f =
      seq (pad E 0x20 (of_nat w) (of_nat (length pre + Q)) fg f) (\<lambda>f.
      seq (out E (fprefix t) (of_nat (length pre)) f) (\<lambda>f.
      seq (pad E 0x30 (of_nat w) (of_nat (length pre + Q)) (fg XOR ZERO_PAD) f) (\<lambda>f.
      seq (pad E 0x30 (of_nat Q) (of_nat (length ds)) 0 f) (\<lambda>f.
      seq (out E (fa t) (of_nat (length ds)) f) (\<lambda>f.
      seq (pad E 0x20 (of_nat w) (of_nat (length pre + Q)) (fg XOR LEFT_ADJ) f) (\<lambda>f.
        ret (Go (of_nat w, f))))))))"
  proof -
    have "scast (fpl t) = (of_nat (length pre) :: u64)" using ft by (simp add: scast_of_nat32)
    then show ?thesis
      unfolding emit_def p Let_def 2 unfolding 0 using 1 3 by (simp add: ft(1) ucast_of_nat32 fg_def ft(2))
  qed
  define good where "good f' m' x' T' \<longleftrightarrow> stream f' m' x' T' \<and> same_but S m m' \<and> core f' = core f" for f' m' x' T'
  have step: "good f2 m2 x2 T2" if "good f1 m1 x1 T1" "stream f2 m2 x2 T2" "same_but S m1 m2" "core f2 = core f1" for f1 m1 x1 T1 f2 m2 x2 T2
    using that by (auto simp: good_def elim: same_but_trans)
  have S: "foot \<subseteq> S" "reg (pf_pad E) 256 \<subseteq> S" "S \<subseteq> foot \<union> work E" by (auto simp: S_def work_def)
  have env: "mapped m (pf_pad E) 256" "reg (pf_pad E) 256 \<inter> foot = {}" using E(2) by (simp_all add: env_ok_def)
  have pads: "yields h (seq (pad E c (of_nat i) (of_nat j) k f1) K) f1 m1 x1 T1
      ((if k AND (LEFT_ADJ OR ZERO_PAD) \<noteq> 0 then [] else replicate (i - j) c) @ D') S"
    if g: "good f1 m1 x1 T1" and l: "i < 2 ^ 31" "j < 2 ^ 31"
      and K: "\<And>f2 m2 x2 T2. good f2 m2 x2 T2 \<Longrightarrow> yields h (K f2) f2 m2 x2 T2 D' S" for h c i j k K f1 m1 x1 T1 D'
  proof (rule yields_seq)
    have "mapped m1 (pf_pad E) 256" "flags f1 AND F_ERR = 0" "stream f1 m1 x1 T1"
      using g env fl by (auto simp: good_def same_but_mapped core_def)
    then show "delivers (pad E c (of_nat i) (of_nat j) k f1) f1 m1 x1 T1
        (if k AND (LEFT_ADJ OR ZERO_PAD) \<noteq> 0 then [] else replicate (i - j) c) S"
      by (intro pad_ok E(1) env l S)
  qed (rule K, rule step [OF g])
  have outs: "yields h (seq (out E s (of_nat (length X)) f1) K) f1 m1 x1 T1 (X @ D') S"
    if g: "good f1 m1 x1 T1" and X: "bytes_at m s X" "length X < 2 ^ 31" "reg s (length X) \<inter> S = {}"
      and K: "\<And>f2 m2 x2 T2. good f2 m2 x2 T2 \<Longrightarrow> yields h (K f2) f2 m2 x2 T2 D' S" for h s X K f1 m1 x1 T1 D'
  proof (rule yields_seq)
    have "bytes_at m1 s X" "flags f1 AND F_ERR = 0" "stream f1 m1 x1 T1"
      using g fl X bytes_at_same_but [of S m m1 s X] by (auto simp: good_def core_def)
    then show "delivers (out E s (of_nat (length X)) f1) f1 m1 x1 T1 X S"
      using X S(1) by (intro out_ok E(1)) auto
  qed (rule K, rule step [OF g])
  have ret: "yields h (ret (h f1)) f1 m1 x1 T1 [] S" if "good f1 m1 x1 T1" for h f1 m1 x1 T1
    using that by (intro yields_ret) (simp add: good_def)
  have texts: "bytes_at m (fprefix t) pre" "reg (fprefix t) (length pre) \<inter> S = {}" "bytes_at m (fa t) ds" "reg (fa t) (length ds) \<inter> S = {}"
    using t by (simp_all add: field_at_def S_def)
  have "good f m x T" using s by (simp add: good_def)
  then have "yields (\<lambda>f. Go (of_nat w, f)) (emit E (of_nat C) (of_nat W) t f) f m x T D S"
    unfolding emit D D1_def D3_def D4_def D6_def
    by (intro pads outs ret texts b ft(5,6))
  then show ?thesis unfolding lD using S(3) by (rule yields_mono)
qed

end

section \<open>Integer conversions\<close>

text \<open>
  The reference: prefix and digits of an integer conversion \<open>t\<close> with flags \<open>fs\<close> and precision
  \<open>pr\<close>, as the C standard describes them. A value is given by the bits it has after the
  conversion to the argument's type.
\<close>

definition int_body :: "nat option \<Rightarrow> byte list \<Rightarrow> byte list" where
  "int_body pr ds = replicate ((case pr of None \<Rightarrow> 1 | Some k \<Rightarrow> k) - length ds) 0x30 @ ds"

definition number :: "nat \<Rightarrow> (nat \<Rightarrow> byte) \<Rightarrow> nat \<Rightarrow> byte list" where
  "number b f n = map f (digits_of b n)"

definition hex_text :: "byte \<Rightarrow> bool \<Rightarrow> nat option \<Rightarrow> u64 \<Rightarrow> byte list \<times> byte list" where
  "hex_text t alt pr v =
     (if alt \<and> v \<noteq> 0 then [0x30, t] else [], int_body pr (number 16 (hex_digit (t AND 32)) (unat v)))"

definition int_text :: "byte \<Rightarrow> byte list \<Rightarrow> nat option \<Rightarrow> u64 \<Rightarrow> byte list \<times> byte list" where
  "int_text t fs pr v =
     (if t = of_char (CHR ''d'') \<or> t = of_char (CHR ''i'') then
        (if sint v < 0 then [0x2d] else if 0x2b \<in> set fs then [0x2b] else if 0x20 \<in> set fs then [0x20] else [],
         int_body pr (number 10 dec_digit (nat \<bar>sint v\<bar>)))
      else if t = of_char (CHR ''u'') then ([], int_body pr (number 10 dec_digit (unat v)))
      else if t = of_char (CHR ''o'') then
        (let ds = number 8 dec_digit (unat v)
         in ([], int_body (if 0x23 \<in> set fs then Some (max (case pr of None \<Rightarrow> 0 | Some k \<Rightarrow> k) (length ds + 1)) else pr) ds))
      else if t = of_char (CHR ''p'') then hex_text 0x78 True (map_option (max 16) pr) v
      else hex_text t (0x23 \<in> set fs) pr v)"

text \<open>A precision as the code keeps it.\<close>

definition prec :: "nat option \<Rightarrow> u32" where
  "prec pr = (case pr of None \<Rightarrow> - 1 | Some k \<Rightarrow> of_nat k)"

definition prec_small :: "nat option \<Rightarrow> bool" where
  "prec_small pr \<longleftrightarrow> (\<forall>k. pr = Some k \<longrightarrow> k < 2 ^ 31)"

lemma prec_sign: "prec_small pr \<Longrightarrow> prec pr <s 0 \<longleftrightarrow> pr = None"
  by (cases pr) (auto simp: prec_def prec_small_def word_sless_alt sint_of_nat32)

lemma prec_scast: "prec_small pr \<Longrightarrow> (scast (prec pr) :: u64) = (case pr of None \<Rightarrow> - 1 | Some k \<Rightarrow> of_nat k)"
  by (cases pr) (auto simp: prec_def prec_small_def scast_of_nat32)

lemma prec_zero: "prec_small pr \<Longrightarrow> prec pr = 0 \<longleftrightarrow> pr = Some 0"
proof (cases pr)
  case (Some k)
  then show "prec_small pr \<Longrightarrow> prec pr = 0 \<longleftrightarrow> pr = Some 0"
    by (auto simp: prec_def prec_small_def word_unat_eq_iff unat_of_nat)
qed (simp add: prec_def)

lemma int_tail_ok:
  assumes L: "fz t - fa t = of_nat L" "v = 0 \<longleftrightarrow> L = 0" "L < 2 ^ 30" and q: "fp t = prec q" "prec_small q" "xp \<longrightarrow> q \<noteq> None"
  shows "int_tail v xp t =
    Go (t\<lparr>fp := of_nat (max (case q of None \<Rightarrow> 1 | Some k \<Rightarrow> k) L), ffl := if xp then ffl t AND NOT ZERO_PAD else ffl t\<rparr>)"
proof (cases "v = 0 \<and> q = Some 0")
  case True
  then have "fa t = fz t" using L by simp
  then show ?thesis using True L q prec_sign [OF q(2)] prec_zero [OF q(2)]
    by (auto simp: int_tail_def Let_def prec_def)
next
  case False
  define M where "M = L + (if v = 0 then 1 else 0)"
  have m: "fz t - fa t + (if v = 0 then 1 else 0) = of_nat M" "M < 2 ^ 31" using L by (auto simp: M_def)
  have "ucast (smax (scast (prec q)) (of_nat M)) = (of_nat (max (case q of None \<Rightarrow> 1 | Some k \<Rightarrow> k) L) :: u32)"
  proof (cases q)
    case None
    then show ?thesis using L m(2)
      by (auto simp: smax_def prec_def word_sless_alt sint64_small ucast_of_nat32 M_def max_def)
  next
    case (Some k)
    then show ?thesis using L False m(2) q(2)
      by (auto simp: smax_def prec_scast prec_small_def word_sless_alt sint64_small ucast_of_nat32 M_def max_def not_less le_Suc_eq)
  qed
  then show ?thesis using False q prec_sign [OF q(2)] prec_zero [OF q(2)]
    by (auto simp: int_tail_def Let_def m(1))
qed

lemma length_number: "n < b ^ k \<Longrightarrow> length (number b f n) \<le> k"
  by (simp add: number_def digits_of_length)

lemma number_Nil: "2 \<le> b \<Longrightarrow> length (number b f n) = 0 \<longleftrightarrow> n = 0"
  by (simp add: number_def digits_of_Nil)

lemma digits_in_buf:
  assumes e: "env_ok E m R" and l: "length ds \<le> 43"
  defines "p \<equiv> pf_buf E + of_nat (43 - length ds)"
  shows "p + of_nat (length ds) = pf_buf E + 43" and "mapped m p (length ds)"
    and "same_but (reg (pf_buf E) 43) m (put_bytes m p ds)" and "bytes_at (put_bytes m p ds) p ds"
    and "reg p (length ds) \<inter> (R \<union> reg (pf_pad E) 256) = {}" and "env_ok E (put_bytes m p ds) R"
proof -
  have w: "mapped m (pf_buf E) 43" using e by (simp add: env_ok_def)
  have "(of_nat (43 - length ds) :: u64) + of_nat (length ds) = of_nat 43" using l by (simp flip: of_nat_add)
  then show "p + of_nat (length ds) = pf_buf E + 43" by (simp add: p_def add.assoc)
  have "mapped m (pf_buf E) (43 - length ds + length ds)" using w l by simp
  then show "mapped m p (length ds)" unfolding p_def mapped_append by simp
  show sb: "same_but (reg (pf_buf E) 43) m (put_bytes m p ds)" unfolding p_def using l w by (intro put_in_reg) auto
  show "bytes_at (put_bytes m p ds) p ds" using l by (intro bytes_at_put) simp
  have "reg p (length ds) \<subseteq> reg (pf_buf E) 43" unfolding p_def using l by (intro reg_shift) simp
  then show "reg p (length ds) \<inter> (R \<union> reg (pf_pad E) 256) = {}" using e by (auto simp: env_ok_def)
  show "env_ok E (put_bytes m p ds) R"
    using env_ok_kept [OF e same_but_mono [OF sb]] by (auto simp: work_def)
qed

lemma prefix_part:
  assumes e: "env_ok E m R" and k: "i + k \<le> 9"
  shows "bytes_at m (pf_prefix E + of_nat i) (take k (drop i prefix_text))"
    and "reg (pf_prefix E + of_nat i) k \<inter> (R \<union> reg (pf_pad E) 256) = {}"
proof -
  have "bytes_at m (pf_prefix E + of_nat i) (drop i prefix_text)"
    using e k by (intro bytes_at_drop) (simp_all add: env_ok_def)
  then show "bytes_at m (pf_prefix E + of_nat i) (take k (drop i prefix_text))"
    by (metis append_take_drop_id bytes_at_append)
  have "reg (pf_prefix E + of_nat i) k \<subseteq> reg (pf_prefix E) 9" using k by (rule reg_shift)
  then show "reg (pf_prefix E + of_nat i) k \<inter> (R \<union> reg (pf_pad E) 256) = {}" using e by (auto simp: env_ok_def work_def)
qed

text \<open>A field of an integer conversion: digits at the end of the buffer, a part of the prefix text.\<close>

lemma int_field:
  assumes e: "env_ok E m R" and l: "length ds \<le> 43" and z: "v = 0 \<longleftrightarrow> length ds = 0"
    and q: "prec_small q" "xp \<longrightarrow> q \<noteq> None" and k: "i + k \<le> 9"
  defines "p \<equiv> pf_buf E + of_nat (43 - length ds)"
  shows "\<exists>d P. int_tail v xp \<lparr>fa = p, fz = pf_buf E + 43, fp = prec q, ffl = fl, fpl = of_nat k, fprefix = pf_prefix E + of_nat i\<rparr> = Go d \<and>
    field_at (put_bytes m p ds) (R \<union> reg (pf_pad E) 256) d (take k (drop i prefix_text)) P ds \<and>
    replicate (P - length ds) 0x30 @ ds = int_body q ds \<and>
    ffl d = (if xp then fl AND NOT ZERO_PAD else fl)"
proof -
  note b = digits_in_buf [OF e l, folded p_def]
  note pre = prefix_part [OF b(6) k]
  have diff: "pf_buf E + 43 - p = of_nat (length ds)" by (simp add: b(1) [symmetric])
  have lp: "length (take k (drop i prefix_text)) = k" using k by simp
  have "field_at (put_bytes m p ds) (R \<union> reg (pf_pad E) 256)
     \<lparr>fa = p, fz = pf_buf E + 43, fp = of_nat (max (case q of None \<Rightarrow> 1 | Some k \<Rightarrow> k) (length ds)),
      ffl = if xp then fl AND NOT ZERO_PAD else fl, fpl = of_nat k, fprefix = pf_prefix E + of_nat i\<rparr>
     (take k (drop i prefix_text)) (max (case q of None \<Rightarrow> 1 | Some k \<Rightarrow> k) (length ds)) ds"
    using b pre l k q(1) unfolding field_at_def lp by (auto simp: prec_small_def split: option.splits)
  moreover have "max c (length ds) - length ds = c - length ds" for c :: nat by simp
  ultimately show ?thesis
    using int_tail_ok [OF _ z, where t = "\<lparr>fa = p, fz = pf_buf E + 43, fp = prec q, ffl = fl, fpl = of_nat k, fprefix = pf_prefix E + of_nat i\<rparr>"
        and q = q and xp = xp] diff l q
    by (auto simp: int_body_def)
qed

text \<open>What a conversion has to leave: a field with the given prefix and text, and the two padding flags.\<close>

definition field_done :: "mem \<Rightarrow> addr set \<Rightarrow> ('f, 'x) pfenv \<Rightarrow> bool \<Rightarrow> bool \<Rightarrow> byte list \<times> byte list \<Rightarrow> (field ctl, 'x) outcome option \<Rightarrow> 'x \<Rightarrow> bool" where
  "field_done m R E lf zr txt res x \<longleftrightarrow>
     (\<exists>d m' P ds. res = Some (Done (Go d) m' x) \<and> field_at m' (R \<union> reg (pf_pad E) 256) d (fst txt) P ds \<and>
        replicate (P - length ds) 0x30 @ ds = snd txt \<and> same_but (reg (pf_buf E) 43) m m' \<and>
        (bit (ffl d) 13 \<longleftrightarrow> lf) \<and> (bit (ffl d) 16 \<longleftrightarrow> zr))"

abbreviation int_done :: "mem \<Rightarrow> addr set \<Rightarrow> ('f, 'x) pfenv \<Rightarrow> bool \<Rightarrow> u32 \<Rightarrow> byte list \<times> byte list \<Rightarrow> (field ctl, 'x) outcome option \<Rightarrow> 'x \<Rightarrow> bool" where
  "int_done m R E xp fl \<equiv> field_done m R E (bit fl 13) (bit fl 16 \<and> \<not> xp)"

lemma clear_zero: "bit (x AND NOT ZERO_PAD) 13 \<longleftrightarrow> bit x 13" "\<not> bit (x AND NOT ZERO_PAD) 16"
  by (simp_all add: bit_and_iff bit_not_iff ZERO_PAD_def bit_push_bit_1 del: push_bit_of_1)

lemma or_alt: "bit (x OR ALT_FORM) 13 \<longleftrightarrow> bit x 13" "bit (x OR ALT_FORM) 16 \<longleftrightarrow> bit x 16"
  by (simp_all add: bit_or_iff ALT_FORM_def bit_push_bit_1 del: push_bit_of_1)

lemma or_alt_set: "(x OR ALT_FORM) AND ALT_FORM \<noteq> 0"
proof -
  have "bit ((x OR ALT_FORM) AND ALT_FORM) 3" by (simp add: bit_and_iff bit_or_iff ALT_FORM_def bit_push_bit_1 del: push_bit_of_1)
  then show ?thesis by auto
qed

text \<open>One conversion: write the digits, then finish the field.\<close>

lemma int_finish:
  assumes e: "env_ok E m R" and l: "length ds \<le> 43" and z: "v = 0 \<longleftrightarrow> length ds = 0"
    and q: "prec_small q" "xp \<longrightarrow> q \<noteq> None" and k: "i + k \<le> 9"
    and F: "\<And>p. mapped m p (length ds) \<Longrightarrow> F m (p + of_nat (length ds)) = Some (p, put_bytes m p ds)"
    and fl: "bit fl' 13 \<longleftrightarrow> bit fl 13" "bit fl' 16 \<longleftrightarrow> bit fl 16"
  shows "int_done m R E xp fl (take k (drop i prefix_text), int_body q ds)
    (seq (act (\<lambda>m. F m (pf_buf E + 43))) (\<lambda>a.
       ret (int_tail v xp \<lparr>fa = a, fz = pf_buf E + 43, fp = prec q, ffl = fl', fpl = of_nat k, fprefix = pf_prefix E + of_nat i\<rparr>)) m x) x"
proof -
  define p where "p = pf_buf E + of_nat (43 - length ds)"
  note b = digits_in_buf [OF e l, folded p_def]
  have "F m (pf_buf E + 43) = Some (p, put_bytes m p ds)" using F [OF b(2)] b(1) by simp
  moreover obtain d P where d: "int_tail v xp \<lparr>fa = p, fz = pf_buf E + 43, fp = prec q, ffl = fl', fpl = of_nat k,
        fprefix = pf_prefix E + of_nat i\<rparr> = Go d"
      "field_at (put_bytes m p ds) (R \<union> reg (pf_pad E) 256) d (take k (drop i prefix_text)) P ds"
      "replicate (P - length ds) 0x30 @ ds = int_body q ds" "ffl d = (if xp then fl' AND NOT ZERO_PAD else fl')"
    using int_field [OF e l z q k, of fl', folded p_def] by blast
  ultimately show ?thesis unfolding field_done_def
    using b(3) fl by (intro exI [of _ d] exI [of _ "put_bytes m p ds"] exI [of _ P] exI [of _ ds])
      (simp add: act_def seq_def ret_def clear_zero)
qed

lemma sint_64: "sint (v :: u64) < 0 \<longleftrightarrow> 0x7fffffffffffffff < v"
  "nat \<bar>sint v\<bar> = unat (if 0x7fffffffffffffff < v then - v else v)"
proof -
  have l: "uint v < 2 ^ 64" using unsigned_less [of v, where ?'a = int] by simp
  have gt: "0x7fffffffffffffff < v \<longleftrightarrow> \<not> uint v < 2 ^ 63" by (simp add: word_less_def) linarith
  have "uint v div 2 ^ 63 = (if uint v < 2 ^ 63 then 0 else 1)" using l by auto
  then have "bit (uint v) 63 \<longleftrightarrow> \<not> uint v < 2 ^ 63" by (simp add: bit_iff_odd)
  moreover have "take_bit 64 (uint v) = uint v" using l by (simp add: take_bit_int_eq_self)
  ultimately have s: "sint v = (if uint v < 2 ^ 63 then uint v else uint v - 2 ^ 64)"
    unfolding sint_uint by (simp add: signed_take_bit_eq_take_bit_minus)
  then show "sint v < 0 \<longleftrightarrow> 0x7fffffffffffffff < v" using gt l by auto
  have "uint (- v) = 2 ^ 64 - uint v" if "\<not> uint v < 2 ^ 63"
  proof -
    have "uint (- v) = (- uint v) mod 2 ^ 64" by (simp add: uint_word_ariths)
    also have "\<dots> = (2 ^ 64 - uint v) mod 2 ^ 64" using mod_add_self2 [of "- uint v" "2 ^ 64"] by simp
    also have "\<dots> = 2 ^ 64 - uint v" using that l by (intro mod_pos_pos_trivial) auto
    finally show ?thesis .
  qed
  then show "nat \<bar>sint v\<bar> = unat (if 0x7fffffffffffffff < v then - v else v)"
    using s gt l by (auto simp: unat_eq_nat_uint simp del: uint_nat nat_uint_eq)
qed

lemma conv_int_ok:
  assumes e: "env_ok E m R" and t: "t \<in> set (bytes_of ''diouxXp'')" and pr: "prec_small pr"
    and fl: "fl AND ALT_FORM \<noteq> 0 \<longleftrightarrow> 0x23 \<in> set fs" "fl AND MARK_POS \<noteq> 0 \<longleftrightarrow> 0x2b \<in> set fs"
      "fl AND PAD_POS \<noteq> 0 \<longleftrightarrow> 0x20 \<in> set fs"
  shows "int_done m R E (pr \<noteq> None) fl (int_text t fs pr v) (conv_int E t v (prec pr) (pr \<noteq> None) fl m x) x"
proof -
  have u64: "unat w < 2 ^ 64" for w :: u64 using unsigned_less [of w, where ?'a = nat] by simp
  have len: "length (number 10 dec_digit (unat w)) \<le> 43" "length (number 8 dec_digit (unat w)) \<le> 42"
      "length (number 16 (hex_digit c) (unat w)) \<le> 43" for w :: u64 and c
    using length_number [of "unat w" 10 43] length_number [of "unat w" 8 42] length_number [of "unat w" 16 43] u64 [of w] by simp_all
  have nil: "w = 0 \<longleftrightarrow> length (number b f (unat w)) = 0" if "2 \<le> b" for b f and w :: u64
    unfolding number_Nil [OF that] by (simp only: unat_eq_0)
  note pre = length_prefix_text
  have hex: "int_done m R E (pr \<noteq> None) fl (hex_text t' alt q v)
      (seq (act (\<lambda>m. fmt_x m v (pf_buf E + 43) (t' AND 32))) (\<lambda>a.
        ret (int_tail v (pr \<noteq> None) (if v \<noteq> 0 \<and> alt
          then \<lparr>fa = a, fz = pf_buf E + 43, fp = prec q, ffl = fl', fpl = 2, fprefix = pf_prefix E + of_nat i\<rparr>
          else \<lparr>fa = a, fz = pf_buf E + 43, fp = prec q, ffl = fl', fpl = 0, fprefix = pf_prefix E\<rparr>))) m x) x"
    if "t' = 0x78 \<and> i = 7 \<or> t' = 0x58 \<and> i = 5" "prec_small q" "pr \<noteq> None \<longrightarrow> q \<noteq> None"
      "bit fl' 13 \<longleftrightarrow> bit fl 13" "bit fl' 16 \<longleftrightarrow> bit fl 16" for t' i q alt fl'
  proof -
    have go: "int_done m R E (pr \<noteq> None) fl (take k (drop j prefix_text), int_body q (number 16 (hex_digit (t' AND 32)) (unat v)))
      (seq (act (\<lambda>m. fmt_x m v (pf_buf E + 43) (t' AND 32))) (\<lambda>a.
       ret (int_tail v (pr \<noteq> None) \<lparr>fa = a, fz = pf_buf E + 43, fp = prec q, ffl = fl', fpl = of_nat k, fprefix = pf_prefix E + of_nat j\<rparr>)) m x) x"
      if "j + k \<le> 9" for j k
      by (rule int_finish [OF e len(3) nil \<open>prec_small q\<close> \<open>pr \<noteq> None \<longrightarrow> q \<noteq> None\<close> that,
            where F = "\<lambda>m v' . fmt_x m v v' (t' AND 32)" and fl = fl and fl' = fl'])
         (use \<open>bit fl' 13 \<longleftrightarrow> bit fl 13\<close> \<open>bit fl' 16 \<longleftrightarrow> bit fl 16\<close> in \<open>auto simp: number_def fmt_x_text\<close>)
    have tk: "take 2 (drop i prefix_text) = [0x30, t']" using that(1) by (auto simp: prefix_text_def)
    show ?thesis using go [of 0 0] go [of i 2] that(1) by (auto simp: hex_text_def tk)
  qed
  consider "t = 0x64 \<or> t = 0x69" | "t = 0x75" | "t = 0x6f" | "t = 0x78" | "t = 0x58" | "t = 0x70" using t by auto
  then show ?thesis
  proof cases
    case 1
    define n where "n = (if 0x7fffffffffffffff < v then - v else v)"
    have go: "int_done m R E (pr \<noteq> None) fl (take k (drop i prefix_text), int_body pr (number 10 dec_digit (unat n)))
        (seq (act (\<lambda>m. fmt_u m n (pf_buf E + 43))) (\<lambda>a.
         ret (int_tail n (pr \<noteq> None) \<lparr>fa = a, fz = pf_buf E + 43, fp = prec pr, ffl = fl, fpl = of_nat k, fprefix = pf_prefix E + of_nat i\<rparr>)) m x) x"
      if "i + k \<le> 9" for i k
      by (rule int_finish [OF e len(1) nil pr]) (use that in \<open>auto simp: number_def fmt_u_text\<close>)
    define k :: nat where "k = (if 0x7fffffffffffffff < v \<or> 0x2b \<in> set fs \<or> 0x20 \<in> set fs then 1 else 0)"
    define i :: nat where "i = (if 0x7fffffffffffffff < v then 0 else if 0x2b \<in> set fs then 1 else if 0x20 \<in> set fs then 2 else 0)"
    have "(if 0x7fffffffffffffff < v then [0x2d] else if 0x2b \<in> set fs then [0x2b] else if 0x20 \<in> set fs then [0x20] else []) =
        take k (drop i prefix_text)"
      by (auto simp: k_def i_def prefix_text_def)
    then have tx: "int_text t fs pr v = (take k (drop i prefix_text), int_body pr (number 10 dec_digit (unat n)))"
      using 1 by (elim disjE) (simp_all add: int_text_def sint_64 n_def)
    have "(if 0x7fffffffffffffff < v then (- v, 1, 0) else if fl AND MARK_POS \<noteq> 0 then (v, 1, 1)
        else if fl AND PAD_POS \<noteq> 0 then (v, 1, 2) else (v, 0, 0)) = (n, of_nat k :: u32, of_nat i :: u64)"
      using fl(2,3) by (simp add: n_def k_def i_def)
    then have "conv_int E t v (prec pr) (pr \<noteq> None) fl =
        seq (act (\<lambda>m. fmt_u m n (pf_buf E + 43))) (\<lambda>a.
         ret (int_tail n (pr \<noteq> None) \<lparr>fa = a, fz = pf_buf E + 43, fp = prec pr, ffl = fl, fpl = of_nat k, fprefix = pf_prefix E + of_nat i\<rparr>))"
      using 1 by (elim disjE) (simp_all add: conv_int_def Let_def [of "pf_buf E + 43"])
    then show ?thesis using go [of i k] by (simp add: tx k_def i_def split: if_splits)
  next
    case 2
    have "int_done m R E (pr \<noteq> None) fl (take 0 (drop 0 prefix_text), int_body pr (number 10 dec_digit (unat v)))
      (seq (act (\<lambda>m. fmt_u m v (pf_buf E + 43))) (\<lambda>a.
       ret (int_tail v (pr \<noteq> None) \<lparr>fa = a, fz = pf_buf E + 43, fp = prec pr, ffl = fl, fpl = of_nat 0, fprefix = pf_prefix E + of_nat 0\<rparr>)) m x) x"
      by (rule int_finish [OF e len(1) nil pr]) (auto simp: number_def fmt_u_text)
    then show ?thesis using 2 by (simp add: conv_int_def int_text_def Let_def)
  next
    case 3
    define ds where "ds = number 8 dec_digit (unat v)"
    define q where "q = (if 0x23 \<in> set fs then Some (max (case pr of None \<Rightarrow> 0 | Some k \<Rightarrow> k) (length ds + 1)) else pr)"
    have l: "length ds \<le> 42" using len(2) by (simp add: ds_def)
    have q: "prec_small q" "pr \<noteq> None \<longrightarrow> q \<noteq> None" using pr l by (auto simp: q_def prec_small_def split: option.splits)
    have go: "int_done m R E (pr \<noteq> None) fl (take 0 (drop 0 prefix_text), int_body q ds)
      (seq (act (\<lambda>m. fmt_o m v (pf_buf E + 43))) (\<lambda>a.
       ret (int_tail v (pr \<noteq> None) \<lparr>fa = a, fz = pf_buf E + 43, fp = prec q, ffl = fl, fpl = of_nat 0, fprefix = pf_prefix E + of_nat 0\<rparr>)) m x) x"
      by (rule int_finish [OF e _ _ q]) (use l nil [of 8 v] in \<open>auto simp: number_def fmt_o_text ds_def\<close>)
    define p where "p = pf_buf E + of_nat (43 - length ds)"
    have l43: "length ds \<le> 43" using l by simp
    note b = digits_in_buf [OF e l43, folded p_def]
    have "fmt_o m v (pf_buf E + 43) = Some (p, put_bytes m p ds)"
      using fmt_o_text [of m p v] b(1,2) by (simp add: ds_def number_def)
    moreover have z: "pf_buf E + 43 - p + 1 = of_nat (length ds + 1)" by (simp add: b(1) [symmetric])
    have "(if fl AND ALT_FORM \<noteq> 0 \<and> scast (prec pr) <s pf_buf E + 43 - p + 1 then ucast (pf_buf E + 43 - p + 1) else prec pr) = prec q"
    proof (cases "0x23 \<in> set fs")
      case True
      then have alt: "fl AND ALT_FORM \<noteq> 0" using fl(1) by simp
      show ?thesis
      proof (cases pr)
        case None
        have "sint (of_nat (length ds + 1) :: u64) = int (length ds + 1)" using l by (intro sint64_small) simp
        then have "- 1 <s (of_nat (length ds + 1) :: u64)" unfolding word_sless_alt by simp
        then show ?thesis unfolding z q_def using True alt None ucast_of_nat32 [of "length ds + 1"] by (simp add: prec_def)
      next
        case (Some k)
        have "(scast (prec pr) <s (of_nat (length ds + 1) :: u64)) \<longleftrightarrow> k < length ds + 1"
          using Some pr l by (simp add: prec_scast prec_small_def of_nat_sless64 del: of_nat_add of_nat_Suc)
        then show ?thesis unfolding z q_def using True alt Some ucast_of_nat32 [of "length ds + 1"]
          by (auto simp: prec_def max_def)
      qed
    qed (use fl(1) in \<open>simp add: q_def\<close>)
    ultimately have "conv_int E t v (prec pr) (pr \<noteq> None) fl m x =
        seq (act (\<lambda>m. fmt_o m v (pf_buf E + 43))) (\<lambda>a.
          ret (int_tail v (pr \<noteq> None) \<lparr>fa = a, fz = pf_buf E + 43, fp = prec q, ffl = fl, fpl = of_nat 0, fprefix = pf_prefix E + of_nat 0\<rparr>)) m x"
      using 3 by (simp add: conv_int_def Let_def act_def seq_def ret_def)
    moreover have "int_text t fs pr v = ([], int_body q ds)" using 3 by (simp add: int_text_def ds_def q_def Let_def)
    ultimately show ?thesis using go by simp
  next
    case 4
    have "int_text t fs pr v = hex_text t (0x23 \<in> set fs) pr v" using 4 by (simp add: int_text_def)
    then show ?thesis using hex [of t 7 pr fl "0x23 \<in> set fs"] 4 pr fl(1) by (simp add: conv_int_def Let_def cong: if_cong)
  next
    case 5
    have "int_text t fs pr v = hex_text t (0x23 \<in> set fs) pr v" using 5 by (simp add: int_text_def)
    then show ?thesis using hex [of t 5 pr fl "0x23 \<in> set fs"] 5 pr fl(1) by (simp add: conv_int_def Let_def cong: if_cong)
  next
    case 6
    have p: "(if 16 < (scast (prec pr) :: u64) then prec pr else 16) = prec (map_option (max 16) pr)"
    proof (cases pr)
      case (Some k)
      then have "16 < (of_nat k :: u64) \<longleftrightarrow> 16 < k" using pr by (simp add: prec_small_def word_less_nat_alt unat_of_nat)
      then show ?thesis using Some pr by (auto simp: prec_scast) (auto simp: prec_def max_def)
    next
      case None
      have "16 < (- 1 :: u64)" by (simp add: word_less_nat_alt unsigned_minus_1_eq_mask mask_eq_exp_minus_1)
      then show ?thesis using None by (simp add: prec_def)
    qed
    have q: "prec_small (map_option (max 16) pr)" using pr by (auto simp: prec_small_def)
    have "int_text t fs pr v = hex_text 0x78 True (map_option (max 16) pr) v" using 6 by (simp add: int_text_def)
    then show ?thesis using hex [of "0x78" 7 "map_option (max 16) pr" "fl OR ALT_FORM" True] 6 q or_alt_set [of fl]
      by (simp add: conv_int_def Let_def p or_alt cong: if_cong)
  qed
qed

section \<open>Characters and strings\<close>

lemma conv_char_ok:
  assumes e: "env_ok E m R"
  shows "field_done m R E (bit fl 13) False ([], [ucast v]) (conv_char E v fl m x) x"
proof -
  note b = digits_in_buf [OF e, of "[ucast v]"]
  have z: "pf_buf E + of_nat (43 - length [ucast v :: byte]) = pf_buf E + 43 - 1" by simp
  have "m (pf_buf E + 43 - 1) \<noteq> None" using b(2) unfolding z by (simp add: mapped_Suc)
  then have "store8 m (pf_buf E + 43 - 1) (ucast v) = Some (put_bytes m (pf_buf E + 43 - 1) [ucast v])" by (rule store8_put)
  moreover have "same_but (reg (pf_buf E) 43) m (put_bytes m (pf_buf E + 43 - 1) [ucast v])"
      "bytes_at (put_bytes m (pf_buf E + 43 - 1) [ucast v]) (pf_buf E + 43 - 1) [ucast v :: byte]"
      "reg (pf_buf E + 43 - 1) (Suc 0) \<inter> (R \<union> reg (pf_pad E) 256) = {}"
    using b(3,4,5) unfolding z by simp_all
  ultimately show ?thesis unfolding field_done_def conv_char_def
    by (intro exI [of _ "\<lparr>fa = pf_buf E + 43 - 1, fz = pf_buf E + 43, fp = 1, ffl = fl AND NOT ZERO_PAD, fpl = 0, fprefix = pf_prefix E\<rparr>"]
          exI [of _ "put_bytes m (pf_buf E + 43 - 1) [ucast v]"] exI [of _ 1] exI [of _ "[ucast v]"])
       (simp add: Let_def seq_def wr_def ret_def field_at_def clear_zero reg_def)
qed

lemma conv_str_ok:
  assumes w: "word_mapped m" and s: "cstr m a bs" "a \<noteq> 0" and r: "reg a (length bs) \<inter> (R \<union> reg (pf_pad E) 256) = {}"
    and pr: "prec_small pr" and l: "pr = None \<longrightarrow> length bs < 2 ^ 31"
  shows "field_done m R E (bit fl 13) False ([], case pr of None \<Rightarrow> bs | Some k \<Rightarrow> take k bs) (conv_str E a (prec pr) fl m x) x"
proof -
  define n where "n = (case pr of None \<Rightarrow> length bs | Some k \<Rightarrow> min (length bs) k)"
  define D where "D = (case pr of None \<Rightarrow> bs | Some k \<Rightarrow> take k bs)"
  have D: "D = take n bs" "length D = n" "n < 2 ^ 31" "n \<le> length bs"
    using pr l by (auto simp: D_def n_def prec_small_def min_def split: option.splits)
  define lim where "lim = (if prec pr <s 0 then ucast INT_MAX else scast (prec pr) :: u64)"
  have lim: "min (length bs) (unat lim) = n"
  proof (cases pr)
    case None
    then have "unat lim = 2 ^ 31 - 1" using prec_sign [OF pr] by (simp add: lim_def INT_MAX_def)
    then show ?thesis using None l by (simp add: n_def)
  next
    case (Some k)
    then have "lim = of_nat k" using prec_sign [OF pr] prec_scast [OF pr] by (simp add: lim_def)
    moreover have "k < 2 ^ 31" using pr Some by (simp add: prec_small_def)
    ultimately show ?thesis using Some by (simp add: n_def unat_of_nat)
  qed
  have sn: "strnlen m a lim = Some (of_nat n)" using strnlen_string [OF w s(1,2), of lim] lim by simp
  have end0: "m (a + of_nat n) = Some 0" if "pr = None"
    using s(1) that by (simp add: cstr_def bytes_at_append n_def)
  define d where "d = \<lparr>fa = a, fz = a + of_nat n, fp = ucast (of_nat n :: u64), ffl = fl AND NOT ZERO_PAD, fpl = 0, fprefix = pf_prefix E\<rparr>"
  have "conv_str E a (prec pr) fl m x = Some (Done (Go d) m x)"
    using sn end0 prec_sign [OF pr] by (simp add: conv_str_def seq_def rd_def Let_def ret_def d_def lim_def)
  moreover have "bytes_at m a D"
    using cstr_length [OF s(1)] unfolding D(1) by (metis append_take_drop_id bytes_at_append)
  moreover have "reg a n \<inter> (R \<union> reg (pf_pad E) 256) = {}" using r reg_mono [OF D(4), of a] by auto
  ultimately show ?thesis unfolding field_done_def D_def [symmetric]
    using D(3) by (intro exI [of _ d] exI [of _ m] exI [of _ n] exI [of _ D])
       (simp add: field_at_def clear_zero D(2,3) d_def ucast_of_nat32 reg_def)
qed

context stream_writer
begin

lemma go_emit:
  assumes E: "pf_write E = wfun" "env_ok E m foot" and s: "stream f m x T" and fl: "flags f AND F_ERR = 0"
    and r: "field_done m foot E lf zr (pre, body) (r m x) x" and lr: "\<not> (lf \<and> zr)"
    and D: "D = padded lf zr W pre body" and n: "C + length D < 2 ^ 31"
  shows "yields (\<lambda>f. Go (of_nat (length D), f)) (go r (\<lambda>d. emit E (of_nat C) (of_nat W) d f)) f m x T D (foot \<union> work E)"
proof -
  obtain d m' P ds where d: "r m x = Some (Done (Go d) m' x)" "field_at m' (foot \<union> reg (pf_pad E) 256) d pre P ds"
      "replicate (P - length ds) 0x30 @ ds = body" "same_but (reg (pf_buf E) 43) m m'"
      "bit (ffl d) 13 \<longleftrightarrow> lf" "bit (ffl d) 16 \<longleftrightarrow> zr"
    using r by (auto simp: field_done_def)
  have sw: "same_but (foot \<union> work E) m m'" using d(4) by (rule same_but_mono) (auto simp: work_def)
  have "stream f m' x T" using s
  proof (rule stream_frame)
    fix a assume "a \<in> foot"
    then show "m' a = m a" using d(4) E(2) by (auto simp: same_but_def env_ok_def)
  qed
  then have "yields (\<lambda>f. Go (of_nat (length D), f)) (emit E (of_nat C) (of_nat W) d f) f m' x T D (foot \<union> work E)"
    using d lr unfolding D d(3) [symmetric] by (intro emit_ok E(1) env_ok_kept [OF E(2) sw] fl n [unfolded D d(3) [symmetric]]) (simp_all add: left_bit zero_bit)
  then obtain f2 m2 x2 where 2: "emit E (of_nat C) (of_nat W) d f m' x = Some (Done (Go (of_nat (length D), f2)) m2 x2)"
      "stream f2 m2 x2 (T @ D)" "same_but (foot \<union> work E) m' m2" "core f2 = core f"
    by (auto simp: yields_def)
  have "go r (\<lambda>d. emit E (of_nat C) (of_nat W) d f) m x = Some (Done (Go (of_nat (length D), f2)) m2 x2)"
    using d(1) 2(1) by (simp add: go_def seq_def)
  then show ?thesis using 2 same_but_trans [OF sw 2(3)] by (auto simp: yields_def)
qed

end

end
