(* ===== verification/PrintfSpec.thy ===== *)
theory PrintfSpec
  imports PrintfField
begin

text \<open>
  Directives: their syntax (\<open>cspec\<close>: flags, width, precision, length modifier and one of
  \<open>d i o u x X c s p\<close>), what a directive prints (\<open>spec_text\<close>), and the proof that \<open>directive\<close>
  reads and prints exactly that.
\<close>

section \<open>Directives\<close>

text \<open>
  The syntax of a directive behind its \<open>%\<close>: flags, width, precision, length modifier, conversion
  letter.
\<close>

record cspec =
  cs_flags :: "byte list"
  cs_width :: "byte list"
  cs_prec :: "byte list option"
  cs_mods :: "byte list"
  cs_conv :: byte

definition spec_bytes :: "cspec \<Rightarrow> byte list" where
  "spec_bytes d =
     cs_flags d @ cs_width d @ (case cs_prec d of None \<Rightarrow> [] | Some p \<Rightarrow> 0x2e # p) @ cs_mods d @ [cs_conv d]"

definition decimal :: "byte list \<Rightarrow> bool" where
  "decimal ds \<longleftrightarrow> (\<forall>b\<in>set ds. is_digit b) \<and> dec_value 0 ds < 2 ^ 31"

definition int_convs :: "byte list" where "int_convs = bytes_of ''diouxX''"

definition int_mods :: "byte list list" where
  "int_mods = map bytes_of ['''', ''hh'', ''h'', ''l'', ''ll'', ''j'', ''z'', ''t'']"

definition valid_spec :: "cspec \<Rightarrow> bool" where
  "valid_spec d \<longleftrightarrow>
     (\<forall>c\<in>set (cs_flags d). is_flag c) \<and> decimal (cs_width d) \<and> (cs_width d \<noteq> [] \<longrightarrow> hd (cs_width d) \<noteq> 0x30) \<and>
     (\<forall>p. cs_prec d = Some p \<longrightarrow> decimal p) \<and>
     (cs_mods d \<in> set int_mods \<and> cs_conv d \<in> set int_convs \<or> cs_mods d = [] \<and> cs_conv d \<in> set (bytes_of ''csp''))"

definition spec_width :: "cspec \<Rightarrow> nat" where
  "spec_width d = dec_value 0 (cs_width d)"

definition spec_prec :: "cspec \<Rightarrow> nat option" where
  "spec_prec d = map_option (dec_value 0) (cs_prec d)"

definition spec_state :: "cspec \<Rightarrow> ptype" where
  "spec_state d = foldl states BARE (cs_mods d)"

definition spec_type :: "cspec \<Rightarrow> ptype" where
  "spec_type d = states (spec_state d) (cs_conv d)"

definition letter :: "byte \<Rightarrow> bool" where
  "letter b \<longleftrightarrow> 65 \<le> unat b \<and> unat b < 123"

lemma letter_facts:
  assumes "letter b"
  shows "\<not> is_flag b" "\<not> is_digit b" "b \<noteq> 0x2e" "b \<noteq> 0x2a" "b \<noteq> 0x24" "b \<noteq> 0x25" "\<not> fmt_oob b"
proof -
  have "(65::nat) + 58 \<le> 128" "(0x41 :: u32) = of_nat 65" "(58 :: u32) = of_nat 58" by simp_all
  from scast_range(1) [OF this, of b] have "(scast b - 0x41 :: u32) < 58" using assms by (simp add: letter_def)
  then show "\<not> fmt_oob b" by (simp add: fmt_oob_def word_less_nat_alt)
qed (use assms in \<open>auto simp: letter_def is_flag_def is_digit_iff\<close>)

fun prefixes :: "ptype \<Rightarrow> byte list \<Rightarrow> bool" where
  "prefixes st [] = True"
| "prefixes st (b # bs) = (is_prefix (states st b) \<and> prefixes (states st b) bs)"

lemma read_type_text:
  "bytes_at m s (bs @ [c]) \<Longrightarrow> \<forall>b\<in>set (bs @ [c]). letter b \<Longrightarrow> prefixes st bs \<Longrightarrow>
    \<not> is_prefix (states (foldl states st bs) c) \<Longrightarrow> states (foldl states st bs) c \<noteq> BARE \<Longrightarrow>
    read_type m s st = Some (Go (states (foldl states st bs) c, foldl states st bs, c, s + of_nat (length bs) + 1))"
proof (induction bs arbitrary: s st)
  case Nil
  then show ?case by (subst read_type.simps) (simp add: letter_facts)
next
  case (Cons b bs)
  have "read_type m s st = read_type m (s + 1) (states st b)"
    using Cons.prems by (subst read_type.simps) (simp add: letter_facts)
  with Cons show ?case by (simp add: add.assoc)
qed

text \<open>The value of an integer argument, by length modifier and signedness.\<close>

definition int_value :: "byte list \<Rightarrow> bool \<Rightarrow> u64 \<Rightarrow> u64" where
  "int_value mods sg v =
     (if mods = bytes_of ''hh'' then (if sg then scast (ucast v :: u8) else ucast (ucast v :: u8))
      else if mods = bytes_of ''h'' then (if sg then scast (ucast v :: u16) else ucast (ucast v :: u16))
      else if mods = [] then (if sg then scast (ucast v :: u32) else ucast (ucast v :: u32))
      else v)"

definition signed_conv :: "byte \<Rightarrow> bool" where
  "signed_conv c \<longleftrightarrow> c \<in> set (bytes_of ''di'')"

lemma spec_cases:
  assumes "valid_spec d"
  obtains "cs_mods d \<in> set int_mods" "cs_conv d \<in> set int_convs"
  | "cs_mods d = []" "cs_conv d = 0x63" | "cs_mods d = []" "cs_conv d = 0x73" | "cs_mods d = []" "cs_conv d = 0x70"
  using assms by (auto simp: valid_spec_def)

lemma transitions_rows [simp]:
  "transitions [] c = BARE"
  "transitions ((cs, t) # rows) c = (if c \<in> set (bytes_of cs) then t else transitions rows c)"
  by (auto simp: transitions_def bytes_of_def)

text \<open>The types of the integer directives: \<open>SCHAR\<close> for \<open>hhd\<close>, and so on.\<close>

lemma int_convs_cases: "c \<in> set int_convs \<longleftrightarrow> c = 0x64 \<or> c = 0x69 \<or> c = 0x6f \<or> c = 0x75 \<or> c = 0x78 \<or> c = 0x58"
  by (simp add: int_convs_def)

lemma signed_conv_cases: "signed_conv c \<longleftrightarrow> c = 0x64 \<or> c = 0x69"
  by (simp add: signed_conv_def)

lemma int_state_letters:
  "states BARE 0x64 = SINT" "states BARE 0x69 = SINT" "states BARE 0x6f = UINT" "states BARE 0x75 = UINT" "states BARE 0x78 = UINT" "states BARE 0x58 = UINT"
  "states LPRE 0x64 = LONG" "states LPRE 0x69 = LONG" "states LPRE 0x6f = ULONG" "states LPRE 0x75 = ULONG" "states LPRE 0x78 = ULONG" "states LPRE 0x58 = ULONG"
  "states LLPRE 0x64 = LLONG" "states LLPRE 0x69 = LLONG" "states LLPRE 0x6f = ULLONG" "states LLPRE 0x75 = ULLONG" "states LLPRE 0x78 = ULLONG" "states LLPRE 0x58 = ULLONG"
  "states HPRE 0x64 = SHORT" "states HPRE 0x69 = SHORT" "states HPRE 0x6f = USHORT" "states HPRE 0x75 = USHORT" "states HPRE 0x78 = USHORT" "states HPRE 0x58 = USHORT"
  "states HHPRE 0x64 = SCHAR" "states HHPRE 0x69 = SCHAR" "states HHPRE 0x6f = UCHAR" "states HHPRE 0x75 = UCHAR" "states HHPRE 0x78 = UCHAR" "states HHPRE 0x58 = UCHAR"
  "states JPRE 0x64 = IMAX" "states JPRE 0x69 = IMAX" "states JPRE 0x6f = UMAX" "states JPRE 0x75 = UMAX" "states JPRE 0x78 = UMAX" "states JPRE 0x58 = UMAX"
  "states ZTPRE 0x64 = PDIFF" "states ZTPRE 0x69 = PDIFF" "states ZTPRE 0x6f = SIZET" "states ZTPRE 0x75 = SIZET" "states ZTPRE 0x78 = SIZET" "states ZTPRE 0x58 = SIZET"
  by simp_all

lemma int_state_types:
  assumes "c \<in> set int_convs"
  shows "states BARE c = (if signed_conv c then SINT else UINT)"
    "states LPRE c = (if signed_conv c then LONG else ULONG)"
    "states LLPRE c = (if signed_conv c then LLONG else ULLONG)"
    "states HPRE c = (if signed_conv c then SHORT else USHORT)"
    "states HHPRE c = (if signed_conv c then SCHAR else UCHAR)"
    "states JPRE c = (if signed_conv c then IMAX else UMAX)"
    "states ZTPRE c = (if signed_conv c then PDIFF else SIZET)"
  using assms unfolding int_convs_cases signed_conv_cases
  by (auto simp: int_state_letters simp del: states.simps)

lemma int_states:
  assumes "bs \<in> set int_mods" "c \<in> set int_convs"
  shows "prefixes BARE bs" "convert (states (foldl states BARE bs) c) v = int_value bs (signed_conv c) v"
    "\<not> is_prefix (states (foldl states BARE bs) c)" "states (foldl states BARE bs) c \<notin> {BARE, NOARG, DBL, LDBL}"
proof -
  have "foldl states BARE bs = (if bs = bytes_of ''hh'' then HHPRE else if bs = bytes_of ''h'' then HPRE else if bs = [] then BARE
      else if bs = bytes_of ''l'' then LPRE else if bs = bytes_of ''ll'' then LLPRE else if bs = bytes_of ''j'' then JPRE else ZTPRE)"
    using assms(1) by (auto simp: int_mods_def)
  then show "convert (states (foldl states BARE bs) c) v = int_value bs (signed_conv c) v"
    "\<not> is_prefix (states (foldl states BARE bs) c)" "states (foldl states BARE bs) c \<notin> {BARE, NOARG, DBL, LDBL}"
    using int_state_types [OF assms(2)] by (simp_all add: int_value_def is_prefix_def)
  show "prefixes BARE bs" using assms(1) by (auto simp: int_mods_def is_prefix_def)
qed

lemma spec_letters:
  assumes "valid_spec d"
  shows "\<forall>b\<in>set (cs_mods d @ [cs_conv d]). letter b"
proof -
  have "\<forall>c\<in>set (int_convs @ bytes_of ''csp'' @ concat int_mods). letter c"
    by (simp add: int_convs_def int_mods_def letter_def)
  with assms show ?thesis by (auto simp: valid_spec_def)
qed

lemma spec_states:
  assumes "valid_spec d"
  shows "prefixes BARE (cs_mods d)" "\<not> is_prefix (spec_type d)" "spec_type d \<notin> {BARE, NOARG, DBL, LDBL}"
  using assms int_states [of "cs_mods d" "cs_conv d"]
  by (cases rule: spec_cases; simp add: spec_type_def spec_state_def is_prefix_def)+

lemma spec_convert:
  assumes "valid_spec d"
  shows "convert (spec_type d) v = (if cs_conv d \<in> set int_convs then int_value (cs_mods d) (signed_conv (cs_conv d)) v
    else if cs_conv d = 0x63 then scast (ucast v :: u8) else v)"
  using assms int_states(2) [of "cs_mods d" "cs_conv d" v]
  by (cases rule: spec_cases) (simp_all add: spec_type_def spec_state_def int_convs_cases)

lemma pop_spec:
  assumes "valid_spec d"
  shows "pop_arg a (spec_type d) (ISlot v # ap) = Some (ISlot (convert (spec_type d) v), ap)"
  using spec_states [OF assms] by (simp add: pop_arg_def is_prefix_def)

text \<open>What follows each part of a directive cannot belong to it.\<close>

definition spec_rest :: "cspec \<Rightarrow> byte list" where
  "spec_rest d = (case cs_prec d of None \<Rightarrow> [] | Some p \<Rightarrow> 0x2e # p) @ cs_mods d @ [cs_conv d]"

lemma letters_hd:
  assumes "valid_spec d"
  obtains b bs where "cs_mods d @ [cs_conv d] = b # bs" "letter b"
  using spec_letters [OF assms] by (cases "cs_mods d") auto

lemma rest_hd:
  assumes "valid_spec d"
  obtains b bs where "spec_rest d = b # bs" "letter b \<or> b = 0x2e"
proof (cases "cs_prec d")
  case None
  from letters_hd [OF assms] obtain b bs where "cs_mods d @ [cs_conv d] = b # bs" "letter b" by blast
  with None that show thesis by (simp add: spec_rest_def)
next
  case (Some p)
  with that show thesis by (simp add: spec_rest_def)
qed

lemma width_hd:
  assumes "valid_spec d"
  obtains b bs where "cs_width d @ spec_rest d = b # bs" "\<not> is_flag b" "b \<noteq> 0x2a"
proof (cases "cs_width d")
  case Nil
  from rest_hd [OF assms] obtain b bs where "spec_rest d = b # bs" "letter b \<or> b = 0x2e" by blast
  with Nil that letter_facts(1,4) [of b] show thesis by (fastforce simp: is_flag_def)
next
  case (Cons b bs)
  then have "is_digit b" "b \<noteq> 0x30" using assms by (simp_all add: valid_spec_def decimal_def)
  then have "\<not> is_flag b" "b \<noteq> 0x2a" by (auto simp: is_digit_iff is_flag_def)
  with Cons that show thesis by simp
qed

lemma no_dollar:
  assumes "valid_spec d"
  shows "0x24 \<notin> set (spec_bytes d)" "0 \<notin> set (spec_bytes d)" "spec_bytes d \<noteq> []" "hd (spec_bytes d) \<noteq> 0x25"
proof -
  have parts: "\<forall>c\<in>set (cs_flags d). is_flag c" "\<forall>c\<in>set (cs_width d). is_digit c" "\<forall>p. cs_prec d = Some p \<longrightarrow> (\<forall>c\<in>set p. is_digit c)"
    using assms by (simp_all add: valid_spec_def decimal_def)
  have "c \<noteq> 0x24 \<and> c \<noteq> 0 \<and> c \<noteq> 0x25" if cin: "c \<in> set (spec_bytes d)" for c
  proof -
    consider "is_flag c" | "is_digit c" | "c = 0x2e" | "letter c"
      using cin parts spec_letters [OF assms] unfolding spec_bytes_def by (cases "cs_prec d") auto
    then show ?thesis by cases (auto simp: is_flag_def is_digit_iff letter_def)
  qed
  then show "0x24 \<notin> set (spec_bytes d)" "0 \<notin> set (spec_bytes d)" "hd (spec_bytes d) \<noteq> 0x25"
    using hd_in_set [of "spec_bytes d"] by (auto simp: spec_bytes_def)
  show "spec_bytes d \<noteq> []" by (simp add: spec_bytes_def)
qed

lemma dollar_none:
  assumes b: "bytes_at m s (spec_bytes d)" and v: "valid_spec d"
  shows "dollar m s = Some None"
proof -
  obtain c cs where c: "spec_bytes d = c # cs" using no_dollar(3) [OF v] by (cases "spec_bytes d") auto
  show ?thesis
  proof (cases "is_digit c")
    case True
    have "letter (last (spec_bytes d))" using spec_letters [OF v] by (simp add: spec_bytes_def)
    then have "cs \<noteq> []" using True letter_facts(2) c by auto
    then obtain c' cs' where "cs = c' # cs'" by (cases cs) auto
    with True b c no_dollar(1) [OF v] show ?thesis by (simp add: dollar_def)
  qed (use b c in \<open>simp add: dollar_def\<close>)
qed


text \<open>Reading a directive.\<close>

lemma spec_parts:
  assumes "bytes_at m s (spec_bytes d)"
  shows "bytes_at m s (cs_flags d @ cs_width d @ spec_rest d)"
  using assms by (simp add: spec_bytes_def spec_rest_def)

lemma bytes_at_hd: "bytes_at m s (xs @ b # bs) \<Longrightarrow> bytes_at m s (xs @ [b])"
  by (simp add: bytes_at_append)

lemma read_spec_flags:
  assumes b: "bytes_at m s (spec_bytes d)" and v: "valid_spec d"
  shows "read_flags m s 0 = Some (flag_bits (cs_flags d), s + of_nat (length (cs_flags d)))"
proof -
  obtain c cs where c: "cs_width d @ spec_rest d = c # cs" "\<not> is_flag c" using width_hd [OF v] by blast
  have "bytes_at m s (cs_flags d @ [c])" using bytes_at_hd spec_parts [OF b] unfolding c by blast
  then show ?thesis unfolding flag_bits_def using c(2) v by (intro read_flags_text) (simp_all add: valid_spec_def)
qed

lemma getint_small:
  assumes "bytes_at m s (ds @ c # cs)" "decimal ds" "letter c \<or> c = 0x2e"
  shows "getint m s = Some (of_nat (dec_value 0 ds), s + of_nat (length ds))"
proof -
  have "\<not> is_digit c" using assms(3) letter_facts(2) by (auto simp: is_digit_iff)
  then show ?thesis using assms(2) bytes_at_hd [OF assms(1)] by (intro getint_text) (simp_all add: decimal_def)
qed

lemma not_negative: "k < 2 ^ 31 \<Longrightarrow> \<not> (of_nat k :: u32) <s 0"
  by (simp add: word_sless_alt sint_of_nat32)

lemma read_spec_width:
  assumes b: "bytes_at m (pf_s st) (cs_width d @ spec_rest d)" and v: "valid_spec d"
  shows "read_width st fl m x = Some (Done (Go (of_nat (spec_width d), fl, st\<lparr>pf_s := pf_s st + of_nat (length (cs_width d))\<rparr>)) m x)"
proof -
  obtain c cs where c: "cs_width d @ spec_rest d = c # cs" "c \<noteq> 0x2a" using width_hd [OF v] by blast
  have "m (pf_s st) = Some c" using b unfolding c by simp
  moreover obtain c' cs' where r: "spec_rest d = c' # cs'" "letter c' \<or> c' = 0x2e" using rest_hd [OF v] by blast
  have dw: "decimal (cs_width d)" using v by (simp add: valid_spec_def)
  have "getint m (pf_s st) = Some (of_nat (spec_width d), pf_s st + of_nat (length (cs_width d)))"
    using getint_small [of m "pf_s st" "cs_width d" c' cs'] b dw r by (simp add: spec_width_def)
  moreover have "\<not> (of_nat (spec_width d) :: u32) <s 0"
    using dw by (intro not_negative) (simp add: decimal_def spec_width_def)
  ultimately show ?thesis using c(2) by (simp add: read_width_def seq_def rd_def ret_def)
qed

lemma read_spec_precision:
  assumes b: "bytes_at m (pf_s st) (spec_rest d)" and v: "valid_spec d"
  shows "read_precision st m x =
    Some (Done (Go (prec (spec_prec d), spec_prec d \<noteq> None,
      st\<lparr>pf_s := pf_s st + of_nat (case cs_prec d of None \<Rightarrow> 0 | Some p \<Rightarrow> Suc (length p))\<rparr>)) m x)"
proof -
  obtain c cs where c: "cs_mods d @ [cs_conv d] = c # cs" "letter c" using letters_hd [OF v] by blast
  show ?thesis
  proof (cases "cs_prec d")
    case None
    then have "m (pf_s st) = Some c" using b c by (simp add: spec_rest_def)
    then show ?thesis using None letter_facts(3) [OF c(2)]
      by (simp add: read_precision_def seq_def rd_def ret_def spec_prec_def prec_def)
  next
    case (Some p)
    have dp: "decimal p" using v Some by (simp add: valid_spec_def)
    have b2: "m (pf_s st) = Some 0x2e" "bytes_at m (pf_s st + 1) (p @ c # cs)" using b Some c by (simp_all add: spec_rest_def)
    obtain c1 where c1: "m (pf_s st + 1) = Some c1" "c1 \<noteq> 0x2a"
    proof (cases p)
      case Nil
      with b2(2) that letter_facts(4) [OF c(2)] show thesis by simp
    next
      case (Cons c1 p')
      then have "is_digit c1" using dp by (simp add: decimal_def)
      then have "c1 \<noteq> 0x2a" by (auto simp: is_digit_iff)
      with b2(2) Cons that show thesis by simp
    qed
    have "getint m (pf_s st + 1) = Some (of_nat (dec_value 0 p), pf_s st + 1 + of_nat (length p))"
      using getint_small [OF b2(2) dp] c(2) by blast
    then show ?thesis using Some b2(1) c1
      by (simp add: read_precision_def seq_def rd_def ret_def spec_prec_def prec_def add.assoc)
  qed
qed

lemma read_spec_type:
  assumes b: "bytes_at m s (cs_mods d @ [cs_conv d])" and v: "valid_spec d"
  shows "read_type m s BARE =
    Some (Go (spec_type d, spec_state d, cs_conv d, s + of_nat (length (cs_mods d)) + 1))"
  using read_type_text [OF b spec_letters [OF v]] spec_states [OF v] by (simp add: spec_type_def spec_state_def)

lemma bytes_at_split: "bytes_at m s (xs @ ys) \<Longrightarrow> bytes_at m (s + of_nat (length xs)) ys"
  by (simp add: bytes_at_append)

text \<open>What a directive does once it is read.\<close>

definition spec_run :: "('f, 'x) pfenv \<Rightarrow> 'f pfstate \<Rightarrow> cspec \<Rightarrow> ('f pfstate ctl, 'x) run" where
  "spec_run E st d =
     (if pf_f st = None then ret (Return 0)
      else seq (rd (\<lambda>_. do { (arg, ap) \<leftarrow> pop_arg (ISlot 0) (spec_type d) (pf_ap st); Some (arg, st\<lparr>pf_ap := ap\<rparr>) }))
        (\<lambda>(arg, st). case pf_f st of None \<Rightarrow> ret (Go st)
         | Some f \<Rightarrow>
             go (conversion E st (cs_conv d) (spec_state d) arg (of_nat (spec_width d)) (prec (spec_prec d))
                   (spec_prec d \<noteq> None) (flag_bits (cs_flags d)) f)
               (\<lambda>(l, f). ret (Go (st\<lparr>pf_l := l, pf_f := Some f\<rparr>)))))"

lemma seq_rd: "g m = Some a \<Longrightarrow> seq (rd g) k m x = k a m x"
  by (simp add: seq_def rd_def)

lemma go_Done: "r m x = Some (Done (Go a) m' x') \<Longrightarrow> go r k m x = k a m' x'"
  by (simp add: go_def seq_def)

lemma go_rd: "g m = Some (Go a) \<Longrightarrow> go (rd g) k m x = k a m x"
  by (simp add: go_def seq_def rd_def)

lemma directive_reads:
  assumes b: "bytes_at m (pf_s st) (0x25 # spec_bytes d)" and v: "valid_spec d"
  shows "directive E st m x = spec_run E (st\<lparr>pf_s := pf_s st + of_nat (Suc (length (spec_bytes d)))\<rparr>) d m x"
proof -
  define s1 where "s1 = pf_s st + 1"
  define s2 where "s2 = s1 + of_nat (length (cs_flags d))"
  define s3 where "s3 = s2 + of_nat (length (cs_width d))"
  define s4 where "s4 = s3 + of_nat (case cs_prec d of None \<Rightarrow> 0 | Some p \<Rightarrow> Suc (length p))"
  have b1: "bytes_at m s1 (spec_bytes d)" using b by (simp add: s1_def)
  have b2: "bytes_at m s2 (cs_width d @ spec_rest d)" using bytes_at_split [OF spec_parts [OF b1]] by (simp add: s2_def)
  have b3: "bytes_at m s3 (spec_rest d)" using bytes_at_split [OF b2] by (simp add: s3_def)
  have b4: "bytes_at m s4 (cs_mods d @ [cs_conv d])"
    using b3 bytes_at_split [of m s3 "case cs_prec d of None \<Rightarrow> [] | Some p \<Rightarrow> 0x2e # p" "cs_mods d @ [cs_conv d]"]
    by (simp add: spec_rest_def s4_def split: option.splits)
  have s5: "s4 + of_nat (length (cs_mods d)) + 1 = pf_s st + of_nat (Suc (length (spec_bytes d)))"
    by (simp add: s4_def s3_def s2_def s1_def spec_bytes_def split: option.splits)
  have 1: "dollar m (pf_s st + 1) = Some None" using dollar_none [OF b1 v] by (simp add: s1_def)
  have 2: "read_flags m s1 0 = Some (flag_bits (cs_flags d), s2)" using read_spec_flags [OF b1 v] by (simp add: s2_def)
  have 3: "read_width (st\<lparr>pf_s := s2\<rparr>) (flag_bits (cs_flags d)) m x =
      Some (Done (Go (of_nat (spec_width d), flag_bits (cs_flags d), st\<lparr>pf_s := s3\<rparr>)) m x)"
    using read_spec_width [of m "st\<lparr>pf_s := s2\<rparr>" d] b2 v by (simp add: s3_def)
  have 4: "read_precision (st\<lparr>pf_s := s3\<rparr>) m x = Some (Done (Go (prec (spec_prec d), spec_prec d \<noteq> None, st\<lparr>pf_s := s4\<rparr>)) m x)"
    using read_spec_precision [of m "st\<lparr>pf_s := s3\<rparr>" d] b3 v by (simp add: s4_def)
  have 5: "read_type m s4 BARE = Some (Go (spec_type d, spec_state d, cs_conv d, pf_s st + of_nat (Suc (length (spec_bytes d)))))"
    using read_spec_type [OF b4 v] unfolding s5 .
  have ty: "spec_type d \<noteq> NOARG" using spec_states(3) [OF v] by simp
  show ?thesis
    using 1 2 3 4 5 ty
    by (cases "pf_f st")
       (simp_all add: directive_def seq_def rd_def go_def ret_def Let_def spec_run_def s1_def del: not_None_eq cong: if_cong split del: if_split)
qed

section \<open>The text of a directive\<close>

text \<open>
  The reference: what the directive \<open>d\<close> prints for the argument \<open>v\<close>, a pointer to the string
  \<open>str\<close> for \<open>%s\<close>.
\<close>

definition spec_field :: "cspec \<Rightarrow> u64 \<Rightarrow> byte list \<Rightarrow> byte list \<times> byte list" where
  "spec_field d v str =
     (if cs_conv d = of_char (CHR ''c'') then ([], [ucast v])
      else if cs_conv d = of_char (CHR ''s'') then ([], case spec_prec d of None \<Rightarrow> str | Some k \<Rightarrow> take k str)
      else if cs_conv d = of_char (CHR ''p'') then int_text (cs_conv d) (cs_flags d) (spec_prec d) v
      else int_text (cs_conv d) (cs_flags d) (spec_prec d) (int_value (cs_mods d) (signed_conv (cs_conv d)) v))"

definition spec_text :: "cspec \<Rightarrow> u64 \<Rightarrow> byte list \<Rightarrow> byte list" where
  "spec_text d v str =
     (case spec_field d v str of (pre, body) \<Rightarrow>
        padded (0x2d \<in> set (cs_flags d))
          (0x30 \<in> set (cs_flags d) \<and> 0x2d \<notin> set (cs_flags d) \<and> cs_conv d \<notin> set (bytes_of ''cs'') \<and> spec_prec d = None)
          (spec_width d) pre body)"

definition str_arg :: "('f, 'x) pfenv \<Rightarrow> mem \<Rightarrow> addr set \<Rightarrow> cspec \<Rightarrow> u64 \<Rightarrow> byte list \<Rightarrow> bool" where
  "str_arg E m S d v str \<longleftrightarrow>
     (cs_conv d = of_char (CHR ''s'') \<longrightarrow>
        (let a = (if v \<noteq> 0 then v else pf_null E)
         in a \<noteq> 0 \<and> cstr m a str \<and> reg a (Suc (length str)) \<inter> S = {}))"

lemma str_arg_kept: "str_arg E m S d v str \<Longrightarrow> same_but S m m' \<Longrightarrow> str_arg E m' S d v str"
  using bytes_at_same_but [of S m m' "if v \<noteq> 0 then v else pf_null E" "str @ [0]"]
  by (simp add: str_arg_def Let_def cstr_def)

definition clear_left :: "u32 \<Rightarrow> u32" where
  "clear_left fl = (if fl AND LEFT_ADJ \<noteq> 0 then fl AND NOT ZERO_PAD else fl)"

lemma clear_left_bits:
  "bit (clear_left fl) 13 \<longleftrightarrow> bit fl 13" "bit (clear_left fl) 16 \<longleftrightarrow> bit fl 16 \<and> \<not> bit fl 13"
  "clear_left fl AND ALT_FORM = fl AND ALT_FORM" "clear_left fl AND MARK_POS = fl AND MARK_POS"
  "clear_left fl AND PAD_POS = fl AND PAD_POS"
proof -
  show "bit (clear_left fl) 13 \<longleftrightarrow> bit fl 13" "bit (clear_left fl) 16 \<longleftrightarrow> bit fl 16 \<and> \<not> bit fl 13"
    by (simp_all add: clear_left_def clear_zero left_bit)
  have "NOT ZERO_PAD AND ALT_FORM = ALT_FORM" "NOT ZERO_PAD AND MARK_POS = MARK_POS" "NOT ZERO_PAD AND PAD_POS = PAD_POS"
    by (simp_all add: ZERO_PAD_def ALT_FORM_def MARK_POS_def PAD_POS_def)
  then show "clear_left fl AND ALT_FORM = fl AND ALT_FORM" "clear_left fl AND MARK_POS = fl AND MARK_POS"
    "clear_left fl AND PAD_POS = fl AND PAD_POS"
    by (simp_all add: clear_left_def and.assoc)
qed

definition spec_conv :: "('f, 'x) pfenv \<Rightarrow> cspec \<Rightarrow> u64 \<Rightarrow> (field ctl, 'x) run" where
  "spec_conv E d v =
     (let fl = clear_left (flag_bits (cs_flags d)); p = prec (spec_prec d); w = convert (spec_type d) v
      in if cs_conv d = 0x63 then conv_char E w fl
         else if cs_conv d = 0x73 then conv_str E (if w \<noteq> 0 then w else pf_null E) p fl
         else conv_int E (cs_conv d) w p (spec_prec d \<noteq> None) fl)"

lemma conversion_spec:
  assumes "valid_spec d"
  shows "conversion E st (cs_conv d) (spec_state d) (ISlot (convert (spec_type d) v)) w (prec (spec_prec d)) (spec_prec d \<noteq> None)
      (flag_bits (cs_flags d)) f m x = go (spec_conv E d v) (\<lambda>t. emit E (pf_cnt st) w t f) m x"
proof -
  have c: "cs_conv d \<in> set (int_convs @ [0x63, 0x73, 0x70])" using assms by (cases rule: spec_cases) auto
  have "spec_state d = BARE \<or> cs_conv d AND 15 \<noteq> 3"
    using assms c by (cases rule: spec_cases) (auto simp: int_convs_cases spec_state_def)
  then have t: "(if spec_state d \<noteq> BARE \<and> cs_conv d AND 15 = 3 then cs_conv d AND NOT 32 else cs_conv d) = cs_conv d" by auto
  have "cs_conv d \<notin> set (map of_char ''efgaEFGA'')" "cs_conv d \<notin> {0x6d, 0x6e, 0x43, 0x53}"
    using c by (auto simp: int_convs_cases)
  then show ?thesis
    unfolding conversion_def t unfolding spec_conv_def Let_def clear_left_def [symmetric]
    by (simp add: seq_def rd_def del: not_None_eq cong: if_cong)
qed

lemma prec_small_spec: "valid_spec d \<Longrightarrow> prec_small (spec_prec d)"
  by (auto simp: valid_spec_def prec_small_def spec_prec_def decimal_def)

lemma flag_bits_set:
  assumes "valid_spec d"
  shows "bit (flag_bits (cs_flags d)) 13 \<longleftrightarrow> 0x2d \<in> set (cs_flags d)" "bit (flag_bits (cs_flags d)) 16 \<longleftrightarrow> 0x30 \<in> set (cs_flags d)"
  using assms flag_in(1,2) [of "cs_flags d"] by (simp_all add: valid_spec_def left_bit zero_bit)

lemma spec_conv_done:
  assumes e: "env_ok E m R" and w: "word_mapped m" and v: "valid_spec d" and s: "str_arg E m (R \<union> work E) d v str"
    and l: "length (spec_text d v str) < 2 ^ 31"
  defines "lf \<equiv> 0x2d \<in> set (cs_flags d)"
  shows "field_done m R E lf
      (0x30 \<in> set (cs_flags d) \<and> \<not> lf \<and> cs_conv d \<notin> set (bytes_of ''cs'') \<and> spec_prec d = None)
      (spec_field d v str) (spec_conv E d v m x) x"
proof -
  define fl where "fl = clear_left (flag_bits (cs_flags d))"
  have fl: "bit fl 13 \<longleftrightarrow> lf" "bit fl 16 \<longleftrightarrow> 0x30 \<in> set (cs_flags d) \<and> \<not> lf"
    using flag_bits_set [OF v] by (auto simp: fl_def clear_left_bits lf_def)
  have fs: "\<forall>c\<in>set (cs_flags d). is_flag c" using v by (simp add: valid_spec_def)
  note small = prec_small_spec [OF v]
  have ints: "field_done m R E lf (0x30 \<in> set (cs_flags d) \<and> \<not> lf \<and> spec_prec d = None)
      (int_text t (cs_flags d) (spec_prec d) u) (conv_int E t u (prec (spec_prec d)) (spec_prec d \<noteq> None) fl m x) x"
    if "t \<in> set (bytes_of ''diouxXp'')" for t u
    using conv_int_ok [OF e that small, of fl "cs_flags d" u x] flag_in(3-5) [OF fs] fl
    by (simp add: fl_def clear_left_bits conj_ac)
  show ?thesis using v
  proof (cases rule: spec_cases)
    case 1
    then have t: "cs_conv d \<in> set (bytes_of ''diouxXp'')" "cs_conv d \<notin> {0x63, 0x73, 0x70}" "cs_conv d \<notin> set (bytes_of ''cs'')"
      by (auto simp: int_convs_cases)
    show ?thesis
      using ints [OF t(1), of "int_value (cs_mods d) (signed_conv (cs_conv d)) v"] t(2,3) spec_convert [OF v, of v] 1(2)
      by (simp add: spec_field_def spec_conv_def Let_def fl_def del: not_None_eq)
  next
    case 2
    have "(ucast (scast (ucast v :: u8) :: u64) :: byte) = ucast v" by (rule bit_word_eqI) (simp add: bit_simps)
    then show ?thesis
      using conv_char_ok [OF e, of fl "scast (ucast v :: u8)" x] 2 fl(1) spec_convert [OF v, of v]
      by (simp add: spec_field_def spec_conv_def Let_def fl_def int_convs_cases)
  next
    case 3
    define a where "a = (if v \<noteq> 0 then v else pf_null E)"
    have a: "a \<noteq> 0" "cstr m a str" "reg a (Suc (length str)) \<inter> (R \<union> work E) = {}"
      using s 3 by (simp_all add: str_arg_def Let_def a_def)
    have "reg a (length str) \<inter> (R \<union> reg (pf_pad E) 256) = {}"
      using a(3) reg_mono [of "length str" "Suc (length str)" a] by (auto simp: work_def)
    moreover have "length str < 2 ^ 31" if "spec_prec d = None"
      using l that 3 by (simp add: spec_text_def spec_field_def length_padded)
    ultimately have "field_done m R E (bit fl 13) False ([], case spec_prec d of None \<Rightarrow> str | Some k \<Rightarrow> take k str)
        (conv_str E a (prec (spec_prec d)) fl m x) x"
      by (intro conv_str_ok [OF w a(2,1) _ small]) auto
    then show ?thesis using 3 fl(1) spec_convert [OF v, of v]
      by (simp add: spec_field_def spec_conv_def Let_def fl_def a_def int_convs_cases)
  next
    case 4
    then show ?thesis using ints [of "0x70" v] spec_convert [OF v, of v]
      by (simp add: spec_field_def spec_conv_def Let_def fl_def int_convs_cases del: not_None_eq)
  qed
qed

context stream_writer
begin

lemma directive_ok:
  assumes E: "pf_write E = wfun" "env_ok E m foot" and w: "word_mapped m" and s: "stream f m x T" and fl: "flags f AND F_ERR = 0"
    and b: "bytes_at m (pf_s st) (0x25 # spec_bytes d)" and v: "valid_spec d" and str: "str_arg E m (foot \<union> work E) d v str"
    and st: "pf_f st = Some f" "pf_ap st = ISlot v # ap" "pf_cnt st = of_nat C"
    and n: "C + length (spec_text d v str) < 2 ^ 31"
  defines "D \<equiv> spec_text d v str"
  shows "yields (\<lambda>f. Go (st\<lparr>pf_s := pf_s st + of_nat (Suc (length (spec_bytes d))), pf_ap := ap, pf_l := of_nat (length D), pf_f := Some f\<rparr>))
     (directive E st) f m x T D (foot \<union> work E)"
proof -
  obtain pre body where t: "spec_field d v str = (pre, body)" by (cases "spec_field d v str")
  have "length (spec_text d v str) < 2 ^ 31" using n by simp
  from spec_conv_done [OF E(2) w v str this, of x]
  have "yields (\<lambda>f. Go (of_nat (length D), f)) (go (spec_conv E d v) (\<lambda>t. emit E (of_nat C) (of_nat (spec_width d)) t f)) f m x T D (foot \<union> work E)"
    unfolding t by (rule go_emit [OF E s fl]) (use n t in \<open>simp_all add: D_def spec_text_def\<close>)
  then obtain f' m' x' where 1: "go (spec_conv E d v) (\<lambda>t. emit E (of_nat C) (of_nat (spec_width d)) t f) m x =
        Some (Done (Go (of_nat (length D), f')) m' x')"
      "stream f' m' x' (T @ D)" "same_but (foot \<union> work E) m m'" "core f' = core f"
    by (auto simp: yields_def)
  define st1 where "st1 = st\<lparr>pf_s := pf_s st + of_nat (Suc (length (spec_bytes d)))\<rparr>"
  have c: "conversion E (st1\<lparr>pf_ap := ap\<rparr>) (cs_conv d) (spec_state d) (ISlot (convert (spec_type d) v)) (of_nat (spec_width d)) (prec (spec_prec d))
          (spec_prec d \<noteq> None) (flag_bits (cs_flags d)) f m x = Some (Done (Go (of_nat (length D), f')) m' x')"
    unfolding conversion_spec [OF v] using 1(1) st(3) by (simp add: st1_def)
  have "directive E st m x =
      go (conversion E (st1\<lparr>pf_ap := ap\<rparr>) (cs_conv d) (spec_state d) (ISlot (convert (spec_type d) v)) (of_nat (spec_width d)) (prec (spec_prec d))
          (spec_prec d \<noteq> None) (flag_bits (cs_flags d)) f)
        (\<lambda>(l, f). ret (Go (st1\<lparr>pf_ap := ap, pf_l := l, pf_f := Some f\<rparr>))) m x"
    unfolding directive_reads [OF b v] st1_def [symmetric]
    using st by (simp add: spec_run_def pop_spec [OF v] seq_def rd_def st1_def)
  also have "\<dots> = Some (Done (Go (st1\<lparr>pf_ap := ap, pf_l := of_nat (length D), pf_f := Some f'\<rparr>)) m' x')"
    using c by (simp add: go_def seq_def ret_def del: not_None_eq)
  finally show ?thesis using 1 by (auto simp: yields_def st1_def)
qed

end

end
