(* ===== verification/PrintfText.thy ===== *)
theory PrintfText
  imports PrintfSpec
begin

text \<open>
  Whole formats: a reference (\<open>formats\<close>: plain text, \<open>%%\<close>, directives), and the proof that both
  passes of \<open>printf_core\<close> end and that \<open>vfprintf\<close> and \<open>vsnprintf\<close> print exactly what it says.
\<close>

section \<open>Formats\<close>

text \<open>
  The reference: the format \<open>fmt\<close> applied to the arguments \<open>args\<close> prints the third list. Strings
  are read in memory, outside of \<open>S\<close>.
\<close>

inductive formats :: "('f, 'x) pfenv \<Rightarrow> mem \<Rightarrow> addr set \<Rightarrow> byte list \<Rightarrow> u64 list \<Rightarrow> byte list \<Rightarrow> bool"
  for E m S where
  formats_nil: "formats E m S [] [] []"
| formats_char: "c \<noteq> 0 \<Longrightarrow> c \<noteq> 0x25 \<Longrightarrow> formats E m S fmt args T \<Longrightarrow> formats E m S (c # fmt) args (c # T)"
| formats_percent: "formats E m S fmt args T \<Longrightarrow>
    formats E m S (0x25 # 0x25 # fmt) args (0x25 # T)"
| formats_spec: "valid_spec d \<Longrightarrow> str_arg E m S d v str \<Longrightarrow> formats E m S fmt args T \<Longrightarrow>
    formats E m S (0x25 # spec_bytes d @ fmt) (v # args) (spec_text d v str @ T)"

inductive_cases formats_NilE: "formats E m S [] args T"
inductive_cases formats_ConsE: "formats E m S (c # fmt) args T"

lemma formats_kept: "formats E m S fmt args T \<Longrightarrow> same_but S m m' \<Longrightarrow> formats E m' S fmt args T"
  by (induction rule: formats.induct) (auto intro: formats.intros str_arg_kept)

lemma formats_no_nul: "formats E m S fmt args T \<Longrightarrow> 0 \<notin> set fmt"
  by (induction rule: formats.induct) (simp_all add: no_dollar)

abbreviation plain :: "byte \<Rightarrow> bool" where
  "plain c \<equiv> c \<noteq> 0 \<and> c \<noteq> 0x25"

fun pcount :: "byte list \<Rightarrow> nat" where
  "pcount (c # c' # fmt) = (if c = 0x25 \<and> c' = 0x25 then Suc (pcount fmt) else 0)"
| "pcount _ = 0"

lemma formats_plain:
  "formats E m S fmt args T \<Longrightarrow>
    \<exists>T'. T = takeWhile plain fmt @ T' \<and> formats E m S (dropWhile plain fmt) args T'"
proof (induction rule: formats.induct)
  case (formats_percent fmt args T)
  then show ?case using formats.formats_percent [of E m S fmt args T] by simp
next
  case (formats_spec d v str fmt args T)
  then show ?case using formats.formats_spec [of d E m S v str fmt args T] by simp
qed (simp_all add: formats_nil)

lemma pcount_spec: "valid_spec d \<Longrightarrow> pcount (0x25 # spec_bytes d @ fmt) = 0"
  using no_dollar(3,4) [of d] by (cases "spec_bytes d") auto

lemma pcount_plain: "c \<noteq> 0x25 \<Longrightarrow> pcount (c # fmt) = 0"
  by (cases fmt) auto

lemma formats_percents:
  "formats E m S fmt args T \<Longrightarrow>
    \<exists>T'. T = replicate (pcount fmt) 0x25 @ T' \<and> formats E m S (drop (2 * pcount fmt) fmt) args T'"
proof (induction rule: formats.induct)
  case (formats_spec d v str fmt args T)
  then show ?case using formats.formats_spec [of d E m S v str fmt args T] by (simp add: pcount_spec)
next
  case (formats_char c fmt args T)
  then show ?case using formats.formats_char [of c E m S fmt args T] by (simp add: pcount_plain)
qed (simp_all add: formats_nil)

lemma percents_text:
  "bytes_at m s (fmt @ [0]) \<Longrightarrow> percents m z s = Some (z + of_nat (pcount fmt), s + of_nat (2 * pcount fmt))"
proof (induction fmt arbitrary: s z rule: pcount.induct)
  case (1 c c' fmt)
  show ?case
  proof (cases "c = 0x25 \<and> c' = 0x25")
    case True
    have "percents m z s = percents m (z + 1) (s + 2)" using 1(2) True by (subst percents.simps) simp
    also have "\<dots> = Some (z + 1 + of_nat (pcount fmt), s + 2 + of_nat (2 * pcount fmt))"
      by (rule 1) (use True 1(2) in \<open>simp_all add: add.assoc\<close>)
    finally show ?thesis using True by (simp add: add.assoc)
  qed (use 1(2) in \<open>subst percents.simps, auto\<close>)
qed (subst percents.simps, simp)+

lemma drop_plain_hd: "dropWhile plain fmt = c # r \<Longrightarrow> 0 \<notin> set fmt \<Longrightarrow> c = 0x25"
  by (metis (mono_tags, lifting) hd_dropWhile list.distinct(1) list.sel(1) list.set_intros(1) set_dropWhileD)

text \<open>One round: the plain text in front, with the run of \<open>%%\<close> behind it, or a directive.\<close>

definition chunk :: "byte list \<Rightarrow> nat" where
  "chunk fmt = length (takeWhile plain fmt) + pcount (dropWhile plain fmt)"

definition chunk_len :: "byte list \<Rightarrow> nat" where
  "chunk_len fmt = length (takeWhile plain fmt) + 2 * pcount (dropWhile plain fmt)"

lemma pcount_length: "2 * pcount fmt \<le> length fmt"
  by (induction fmt rule: pcount.induct) auto

lemma pcount_run: "take (2 * pcount fmt) fmt = replicate (2 * pcount fmt) 0x25"
  by (induction fmt rule: pcount.induct) auto

lemma chunk_bytes:
  assumes "bytes_at m s (fmt @ [0])"
  shows "bytes_at m s (takeWhile plain fmt @ replicate (pcount (dropWhile plain fmt)) 0x25)"
    and "bytes_at m (s + of_nat (chunk_len fmt)) (drop (chunk_len fmt) fmt @ [0])"
    and "chunk_len fmt \<le> length fmt"
proof -
  define p q where "p = takeWhile plain fmt" and "q = dropWhile plain fmt"
  have f: "fmt = p @ q" by (simp add: p_def q_def)
  have "replicate (pcount q + pcount q) 0x25 @ drop (2 * pcount q) q = q"
    using append_take_drop_id [of "2 * pcount q" q] unfolding pcount_run by (simp only: mult_2)
  then have q: "q = replicate (pcount q) 0x25 @ replicate (pcount q) 0x25 @ drop (2 * pcount q) q"
    unfolding replicate_add append_assoc by (rule sym)
  have "bytes_at m s ((p @ replicate (pcount q) 0x25) @ replicate (pcount q) 0x25 @ drop (2 * pcount q) q @ [0])"
    using assms q unfolding f by (metis append.assoc)
  then show "bytes_at m s (takeWhile plain fmt @ replicate (pcount (dropWhile plain fmt)) 0x25)"
    unfolding bytes_at_append [of m s "p @ _"] by (simp add: p_def q_def)
  show le: "chunk_len fmt \<le> length fmt"
    using pcount_length [of q] arg_cong [OF f, of length] by (simp add: chunk_len_def flip: p_def q_def)
  show "bytes_at m (s + of_nat (chunk_len fmt)) (drop (chunk_len fmt) fmt @ [0])"
    using bytes_at_drop [OF assms, of "chunk_len fmt"] le by simp
qed

lemma formats_chunk:
  assumes "formats E m S fmt args T"
  shows "\<exists>T'. T = (takeWhile plain fmt @ replicate (pcount (dropWhile plain fmt)) 0x25) @ T' \<and>
    formats E m S (drop (chunk_len fmt) fmt) args T'"
proof -
  obtain T1 where 1: "T = takeWhile plain fmt @ T1" "formats E m S (dropWhile plain fmt) args T1"
    using formats_plain [OF assms] by blast
  from formats_percents [OF 1(2)] obtain T2 where
      2: "T1 = replicate (pcount (dropWhile plain fmt)) 0x25 @ T2"
        "formats E m S (drop (2 * pcount (dropWhile plain fmt)) (dropWhile plain fmt)) args T2" by blast
  have "drop (2 * pcount (dropWhile plain fmt)) (dropWhile plain fmt) = drop (chunk_len fmt) fmt"
    by (simp add: chunk_len_def dropWhile_eq_drop add.commute)
  with 1 2 show ?thesis by auto
qed

section \<open>The loop\<close>

definition round_state :: "'f pfstate \<Rightarrow> nat \<Rightarrow> byte list \<Rightarrow> 'f pfstate" where
  "round_state st C fmt =
     st\<lparr>pf_cnt := of_nat C, pf_l := of_nat (chunk fmt), pf_s := pf_s st + of_nat (chunk_len fmt)\<rparr>"

lemma round_text:
  assumes b: "bytes_at m (pf_s st) (fmt @ [0])" and z: "0 \<notin> set fmt" "fmt \<noteq> []"
    and st: "pf_cnt st = of_nat C" "pf_l st = of_nat L" and n: "C + L + chunk fmt < 2 ^ 31"
  shows "printf_round E st m x =
    seq (case pf_f st of None \<Rightarrow> ret (round_state st (C + L) fmt)
         | Some f \<Rightarrow> seq (out E (pf_s st) (of_nat (chunk fmt)) f) (\<lambda>f. ret (round_state st (C + L) fmt\<lparr>pf_f := Some f\<rparr>)))
      (\<lambda>st. if chunk fmt \<noteq> 0 then ret (Go (Inr st), pf_f st)
            else seq (go (directive E st) (\<lambda>st. ret (Go (Inr st)))) (\<lambda>c. ret (c, pf_f st))) m x"
proof -
  define p where "p = takeWhile plain fmt"
  define k where "k = pcount (dropWhile plain fmt)"
  have ck: "chunk fmt = length p + k" "chunk_len fmt = length p + 2 * k" by (simp_all add: chunk_def chunk_len_def p_def k_def)
  obtain c cs where c: "fmt = c # cs" using z(2) by (cases fmt) auto
  have m0: "m (pf_s st) = Some c" "c \<noteq> 0" using b z(1) c by auto
  have le: "\<not> INT_MAX - of_nat C <s (of_nat L :: u32)"
    using n int_max_minus [of C] by (simp add: of_nat_sless del: of_nat_diff)
  have sc: "scan (\<lambda>c. c = 0 \<or> c = 0x25) m (pf_s st) = Some (pf_s st + of_nat (length p))"
    using scan_takeWhile [OF b, of "\<lambda>c. c = 0 \<or> c = 0x25"] by (simp add: p_def)
  have "bytes_at m (pf_s st) (p @ dropWhile plain fmt @ [0])" using b by (simp add: p_def flip: append_assoc)
  then have "bytes_at m (pf_s st + of_nat (length p)) (dropWhile plain fmt @ [0])" by (rule bytes_at_split)
  then have pc: "percents m (pf_s st + of_nat (length p)) (pf_s st + of_nat (length p)) =
      Some (pf_s st + of_nat (chunk fmt), pf_s st + of_nat (chunk_len fmt))"
    using percents_text [of m "pf_s st + of_nat (length p)" "dropWhile plain fmt"] by (simp add: ck k_def add.assoc)
  have sum: "(of_nat C :: u32) + of_nat L = of_nat (C + L)" by simp
  have sc3: "(scast (INT_MAX - of_nat (C + L) :: u32) :: u64) = of_nat (2 ^ 31 - 1 - (C + L))"
    using n int_max_minus [of "C + L"] by (simp add: scast_of_nat32 del: of_nat_diff of_nat_add)
  have le2: "\<not> (scast (INT_MAX - of_nat (C + L) :: u32) :: u64) <s of_nat (chunk fmt)"
    unfolding sc3 using n by (simp add: of_nat_sless64 del: of_nat_add of_nat_diff)
  have uc: "ucast (of_nat (chunk fmt) :: u64) = (of_nat (chunk fmt) :: u32)" using n by (intro ucast_of_nat32)
  have sc2: "(scast (of_nat (chunk fmt) :: u32) :: u64) = of_nat (chunk fmt)" using n by (intro scast_of_nat32) simp
  have nz: "(of_nat (chunk fmt) :: u32) = 0 \<longleftrightarrow> chunk fmt = 0"
    using n by (auto simp: word_unat_eq_iff unat_of_nat)
  show ?thesis
    unfolding printf_round_def st using le m0 sc pc le2
    by (cases "pf_f st") (simp_all add: seq_def rd_def ret_def Let_def sum round_state_def uc sc2 nz st del: of_nat_add cong: if_cong)
qed

lemma round_end:
  assumes "m (pf_s st) = Some 0" "pf_cnt st = of_nat C" "pf_l st = of_nat L" "C + L < 2 ^ 31"
  shows "printf_round E st m x = Some (Done (Go (Inl (st\<lparr>pf_cnt := of_nat (C + L)\<rparr>)), pf_f st) m x)"
proof -
  have "\<not> INT_MAX - of_nat C <s (of_nat L :: u32)"
    using assms(4) int_max_minus [of C] by (simp add: of_nat_sless del: of_nat_diff)
  with assms show ?thesis by (simp add: printf_round_def seq_def rd_def ret_def Let_def)
qed

lemma chunk_zero:
  assumes "chunk fmt = 0" "fmt \<noteq> []" "formats E m S fmt args T"
  shows "\<exists>d v args' T' str rest. fmt = 0x25 # spec_bytes d @ rest \<and> args = v # args' \<and> T = spec_text d v str @ T' \<and>
    valid_spec d \<and> str_arg E m S d v str \<and> formats E m S rest args' T'"
  using assms(3)
proof (cases rule: formats.cases)
  case (formats_percent fmt' T')
  then show ?thesis using assms(1) by (simp add: chunk_def)
qed (use assms in \<open>auto simp: chunk_def\<close>)

text \<open>The first pass prints nothing and keeps the argument list.\<close>

lemma first_loop:
  "formats E m S fmt args T \<Longrightarrow> bytes_at m (pf_s st) (fmt @ [0]) \<Longrightarrow> pf_f st = None \<Longrightarrow>
    pf_cnt st = of_nat C \<Longrightarrow> pf_l st = of_nat L \<Longrightarrow> C + L + length T < 2 ^ 31 \<Longrightarrow>
    \<exists>c. printf_loop E st m x = Some (Done (c, None) m x) \<and>
      (c = Return 0 \<or> (\<exists>s k l. c = Go (st\<lparr>pf_s := s, pf_cnt := k, pf_l := l\<rparr>)))"
proof (induction "length fmt" arbitrary: fmt T st C L rule: less_induct)
  case less
  note at = less.prems(2) and n = less.prems(6)
  have z: "0 \<notin> set fmt" using less.prems(1) by (rule formats_no_nul)
  show ?case
  proof (cases "fmt = []")
    case True
    then have "m (pf_s st) = Some 0" using at by simp
    then have "printf_round E st m x = Some (Done (Go (Inl (st\<lparr>pf_cnt := of_nat (C + L)\<rparr>)), pf_f st) m x)"
      using n by (intro round_end less.prems) auto
    then have "printf_loop E st m x = Some (Done (Go (st\<lparr>pf_cnt := of_nat (C + L)\<rparr>), None) m x)"
      using less.prems(3) by (subst printf_loop.simps) (simp add: seq_def ret_def)
    moreover have "st\<lparr>pf_cnt := of_nat (C + L)\<rparr> = st\<lparr>pf_s := pf_s st, pf_cnt := of_nat (C + L), pf_l := pf_l st\<rparr>" by simp
    ultimately show ?thesis by blast
  next
    case False
    define st1 where "st1 = round_state st (C + L) fmt"
    obtain T' where T: "T = (takeWhile plain fmt @ replicate (pcount (dropWhile plain fmt)) 0x25) @ T'"
        "formats E m S (drop (chunk_len fmt) fmt) args T'"
      using formats_chunk [OF less.prems(1)] by blast
    have lT: "length T = chunk fmt + length T'" unfolding T(1) by (simp add: chunk_def)
    have f1: "pf_f st1 = None" using less.prems(3) by (simp add: st1_def round_state_def)
    have rd: "printf_round E st m x = (if chunk fmt \<noteq> 0 then ret (Go (Inr st1), None)
        else seq (go (directive E st1) (\<lambda>st. ret (Go (Inr st)))) (\<lambda>c. ret (c, None))) m x"
      using round_text [OF at z False less.prems(4,5), of E x] n lT less.prems(3) f1 by (simp add: seq_def ret_def st1_def)
    show ?thesis
    proof (cases "chunk fmt = 0")
      case True
      obtain d rest where d: "fmt = 0x25 # spec_bytes d @ rest" "valid_spec d"
        using chunk_zero [OF True False less.prems(1)] by blast
      have "chunk_len fmt = 0" using True by (simp add: chunk_def chunk_len_def)
      then have "pf_s st1 = pf_s st" by (simp add: st1_def round_state_def)
      then have "bytes_at m (pf_s st1) (0x25 # spec_bytes d)" using at unfolding d(1) by (simp add: bytes_at_append)
      from directive_reads [OF this d(2), of E x] f1
      have "directive E st1 m x = Some (Done (Return 0) m x)" by (simp add: spec_run_def ret_def)
      then have "printf_loop E st m x = Some (Done (Return 0, None) m x)"
        using rd True by (subst printf_loop.simps) (simp add: seq_def go_def ret_def)
      then show ?thesis by blast
    next
      case nz: False
      have eq: "printf_loop E st m x = printf_loop E st1 m x"
        using rd nz by (subst printf_loop.simps) (simp add: seq_def ret_def)
      have shorter: "length (drop (chunk_len fmt) fmt) < length fmt"
        using nz False by (auto simp: chunk_def chunk_len_def)
      from less.hyps [OF shorter T(2), of st1 "C + L" "chunk fmt"] chunk_bytes(2) [OF at] f1 n lT
      obtain c where "printf_loop E st1 m x = Some (Done (c, None) m x)"
          "c = Return 0 \<or> (\<exists>s k l. c = Go (st1\<lparr>pf_s := s, pf_cnt := k, pf_l := l\<rparr>))"
        by (auto simp: st1_def round_state_def)
      then show ?thesis unfolding eq by (auto simp: st1_def round_state_def)
    qed
  qed
qed

context stream_writer
begin

text \<open>What has to hold between two rounds of the second pass.\<close>

definition ready_to_print :: "('f, 'x) pfenv \<Rightarrow> 'f pfstate \<Rightarrow> byte list \<Rightarrow> FILE \<Rightarrow> mem \<Rightarrow> 'x \<Rightarrow> byte list \<Rightarrow> bool" where
  "ready_to_print E st fmt f m x T \<longleftrightarrow>
     pf_write E = wfun \<and> env_ok E m foot \<and> word_mapped m \<and> stream f m x T \<and> flags f AND F_ERR = 0 \<and> pf_f st = Some f \<and>
     bytes_at m (pf_s st) (fmt @ [0]) \<and> reg (pf_s st) (Suc (length fmt)) \<inter> (foot \<union> work E) = {}"

lemma ready_kept:
  assumes r: "ready_to_print E st fmt f m x T" and k: "k \<le> length fmt"
    and n: "stream f' m' x' T'" "same_but (foot \<union> work E) m m'" "core f' = core f"
    and st: "pf_s st' = pf_s st + of_nat k" "pf_f st' = Some f'"
  shows "ready_to_print E st' (drop k fmt) f' m' x' T'"
proof -
  have "reg (pf_s st + of_nat k) (Suc (length fmt - k)) \<subseteq> reg (pf_s st) (Suc (length fmt))"
    using k by (intro reg_shift) simp
  moreover have "bytes_at m' (pf_s st) (fmt @ [0])"
    using r bytes_at_same_but [OF n(2), of "pf_s st" "fmt @ [0]"] by (simp add: ready_to_print_def)
  then have "bytes_at m' (pf_s st + of_nat k) (drop k fmt @ [0])"
    using bytes_at_drop [of m' "pf_s st" "fmt @ [0]" k] k by simp
  ultimately show ?thesis
    using r n st env_ok_kept [OF _ n(2)] same_but_word_mapped [OF n(2)]
    by (auto simp: ready_to_print_def core_def)
qed

definition prints :: "('f, 'x) pfenv \<Rightarrow> 'f pfstate \<Rightarrow> FILE \<Rightarrow> mem \<Rightarrow> 'x \<Rightarrow> byte list \<Rightarrow> byte list \<Rightarrow> nat \<Rightarrow> bool" where
  "prints E st f m x T D C \<longleftrightarrow>
     (\<exists>st' f' m' x'. printf_loop E st m x = Some (Done (Go st', Some f') m' x') \<and> pf_f st' = Some f' \<and>
        pf_cnt st' = of_nat (C + length D) \<and> stream f' m' x' (T @ D) \<and> same_but (foot \<union> work E) m m' \<and> core f' = core f)"

lemma prints_step:
  assumes r: "printf_round E st m x = Some (Done (Go (Inr st1), fo) m1 x1)"
    and k: "stream f1 m1 x1 (T @ D)" "same_but (foot \<union> work E) m m1" "core f1 = core f"
    and p: "prints E st1 f1 m1 x1 (T @ D) D' C'" and C: "C' + length D' = C + length (D @ D')"
  shows "prints E st f m x T (D @ D') C"
proof -
  have "printf_loop E st m x = printf_loop E st1 m1 x1"
    using r by (subst printf_loop.simps) (simp add: seq_def)
  then show ?thesis using p k C same_but_trans [OF k(2)] unfolding prints_def by (fastforce simp flip: append_assoc)
qed

lemma second_loop:
  "formats E m (foot \<union> work E) fmt args D \<Longrightarrow> ready_to_print E st fmt f m x T \<Longrightarrow> pf_ap st = map ISlot args @ ap \<Longrightarrow>
    pf_cnt st = of_nat C \<Longrightarrow> pf_l st = of_nat L \<Longrightarrow> C + L + length D < 2 ^ 31 \<Longrightarrow> prints E st f m x T D (C + L)"
proof (induction "length fmt" arbitrary: fmt args D st C L f m x T rule: less_induct)
  case less
  note ready = less.prems(2) and n = less.prems(6)
  have at: "bytes_at m (pf_s st) (fmt @ [0])" and sf: "pf_f st = Some f" and E: "pf_write E = wfun" "env_ok E m foot"
    and s: "stream f m x T" and fl: "flags f AND F_ERR = 0"
    using ready by (simp_all add: ready_to_print_def)
  have z: "0 \<notin> set fmt" using less.prems(1) by (rule formats_no_nul)
  show ?case
  proof (cases "fmt = []")
    case True
    then have D: "D = []" using less.prems(1) by (auto elim: formats_NilE)
    have "m (pf_s st) = Some 0" using at True by simp
    then have "printf_round E st m x = Some (Done (Go (Inl (st\<lparr>pf_cnt := of_nat (C + L)\<rparr>)), pf_f st) m x)"
      using n by (intro round_end less.prems) auto
    then have "printf_loop E st m x = Some (Done (Go (st\<lparr>pf_cnt := of_nat (C + L)\<rparr>), Some f) m x)"
      using sf by (subst printf_loop.simps) (simp add: seq_def ret_def)
    then show ?thesis using s sf by (simp add: prints_def D)
  next
    case False
    define X where "X = takeWhile plain fmt @ replicate (pcount (dropWhile plain fmt)) 0x25"
    obtain D' where D: "D = X @ D'" "formats E m (foot \<union> work E) (drop (chunk_len fmt) fmt) args D'"
      using formats_chunk [OF less.prems(1)] unfolding X_def by blast
    have lX: "length X = chunk fmt" by (simp add: X_def chunk_def)
    note cb = chunk_bytes [OF at]
    have "chunk fmt \<le> chunk_len fmt" by (simp add: chunk_def chunk_len_def)
    then have "reg (pf_s st) (length X) \<inter> foot = {}"
      using ready reg_mono [of "length X" "Suc (length fmt)" "pf_s st"] cb(3) by (auto simp: ready_to_print_def lX)
    moreover have "length X < 2 ^ 62" using n unfolding D(1) by simp
    ultimately have "delivers (out E (pf_s st) (of_nat (length X)) f) f m x T X (foot \<union> work E)"
      using E(1) s fl cb(1) by (intro out_ok) (simp_all add: X_def)
    then obtain f1 m1 x1 where o: "out E (pf_s st) (of_nat (chunk fmt)) f m x = Some (Done f1 m1 x1)"
        and k: "stream f1 m1 x1 (T @ X)" "same_but (foot \<union> work E) m m1" "core f1 = core f"
      by (auto simp: yields_def lX)
    define st1 where "st1 = round_state st (C + L) fmt\<lparr>pf_f := Some f1\<rparr>"
    have st1: "pf_s st1 = pf_s st + of_nat (chunk_len fmt)" "pf_f st1 = Some f1" "pf_ap st1 = map ISlot args @ ap"
        "pf_cnt st1 = of_nat (C + L)" "pf_l st1 = of_nat (chunk fmt)"
      using less.prems(3) by (simp_all add: st1_def round_state_def)
    have r1: "ready_to_print E st1 (drop (chunk_len fmt) fmt) f1 m1 x1 (T @ X)"
      using ready_kept [OF ready cb(3) k st1(1,2)] .
    have f1: "formats E m1 (foot \<union> work E) (drop (chunk_len fmt) fmt) args D'" using D(2) k(2) by (rule formats_kept)
    have n1: "C + L + chunk fmt < 2 ^ 31" using n lX unfolding D(1) by simp
    have rd: "printf_round E st m x = (if chunk fmt \<noteq> 0 then ret (Go (Inr st1), Some f1)
        else seq (go (directive E st1) (\<lambda>st. ret (Go (Inr st)))) (\<lambda>c. ret (c, Some f1))) m1 x1"
      using round_text [OF at z False less.prems(4,5) n1, of E x] sf o st1(2) by (simp add: seq_def ret_def st1_def)
    show ?thesis
    proof (cases "chunk fmt = 0")
      case nz: False
      have shorter: "length (drop (chunk_len fmt) fmt) < length fmt"
        using nz False by (auto simp: chunk_def chunk_len_def)
      have "prints E st1 f1 m1 x1 (T @ X) D' (C + L + chunk fmt)"
        using n by (intro less.hyps [OF shorter f1 r1 st1(3-5)]) (simp add: D(1) lX)
      then show ?thesis unfolding D(1)
        using rd nz lX by (intro prints_step [OF _ k]) (simp_all add: ret_def add.assoc)
    next
      case True
      then have X: "X = []" "chunk_len fmt = 0" by (simp_all add: X_def chunk_def chunk_len_def)
      obtain d v args' D2 str rest where d: "fmt = 0x25 # spec_bytes d @ rest" "args = v # args'" "D' = spec_text d v str @ D2"
          "valid_spec d" "str_arg E m1 (foot \<union> work E) d v str" "formats E m1 (foot \<union> work E) rest args' D2"
        using chunk_zero [OF True False, of E m1 "foot \<union> work E" args D'] f1 by (auto simp: X(2))
      have b: "bytes_at m1 (pf_s st1) (0x25 # spec_bytes d)" and E1: "env_ok E m1 foot" "word_mapped m1" "flags f1 AND F_ERR = 0"
        using r1 X(2) unfolding d(1) by (simp_all add: ready_to_print_def bytes_at_append)
      have n2: "C + L + length (spec_text d v str) < 2 ^ 31" using n by (simp add: D(1) d(3))
      define st2 where "st2 f = st1\<lparr>pf_s := pf_s st1 + of_nat (Suc (length (spec_bytes d))), pf_ap := map ISlot args' @ ap,
          pf_l := of_nat (length (spec_text d v str)), pf_f := Some f\<rparr>" for f
      have ap1: "pf_ap st1 = ISlot v # map ISlot args' @ ap" using st1(3) by (simp add: d(2))
      have "yields (\<lambda>f. Go (st2 f)) (directive E st1) f1 m1 x1 (T @ X) (spec_text d v str) (foot \<union> work E)"
        unfolding st2_def by (rule directive_ok [OF E(1) E1(1,2) k(1) E1(3) b d(4,5) st1(2) ap1 st1(4) n2])
      then obtain f2 m2 x2 where y: "directive E st1 m1 x1 = Some (Done (Go (st2 f2)) m2 x2)"
          and k2: "stream f2 m2 x2 ((T @ X) @ spec_text d v str)" "same_but (foot \<union> work E) m1 m2" "core f2 = core f1"
        by (auto simp: yields_def)
      have r2: "ready_to_print E (st2 f2) rest f2 m2 x2 ((T @ X) @ spec_text d v str)"
        using ready_kept [OF r1 _ k2, of "Suc (length (spec_bytes d))" "st2 f2"] X(2) unfolding d(1) by (simp add: st2_def)
      have "prints E (st2 f2) f2 m2 x2 (T @ spec_text d v str) D2 (C + L + length (spec_text d v str))"
        using n r2 by (intro less.hyps [OF _ formats_kept [OF d(6) k2(2)]]) (simp_all add: d(1,3) D(1) X(1) st2_def st1)
      then show ?thesis unfolding D(1) d(3) X(1) append_Nil
        using rd True y k k2 same_but_trans [OF k(2) k2(2)]
        by (intro prints_step [of E st m x "st2 f2" _ m2 x2 f2]) (simp_all add: X(1) seq_def go_def ret_def add.assoc)
    qed
  qed
qed

end

section \<open>\<open>printf_core\<close> and \<open>vsnprintf\<close>\<close>

lemma first_core:
  assumes f: "formats E m S fmt args T" and b: "bytes_at m a (fmt @ [0])" and n: "length T < 2 ^ 31"
  shows "\<exists>so. printf_core E (first_pass E a ap) m x = Some (Done (0, None, so) m x) \<and>
    second_pass (case so of None \<Rightarrow> first_pass E a ap | Some st \<Rightarrow> st) a f = second_pass (first_pass E a ap) a f"
proof -
  have "bytes_at m (pf_s (first_pass E a ap)) (fmt @ [0])" "pf_f (first_pass E a ap) = None"
      "pf_cnt (first_pass E a ap) = of_nat 0" "pf_l (first_pass E a ap) = of_nat 0" "0 + 0 + length T < 2 ^ 31"
    using b n by (simp_all add: first_pass_def)
  from first_loop [OF f this] obtain c where
      l: "printf_loop E (first_pass E a ap) m x = Some (Done (c, None) m x)"
      and c: "c = Return 0 \<or> (\<exists>s k l. c = Go (first_pass E a ap\<lparr>pf_s := s, pf_cnt := k, pf_l := l\<rparr>))" by blast
  from c show ?thesis
  proof
    assume "c = Return 0"
    then show ?thesis using l by (intro exI [of _ None]) (simp add: printf_core_def seq_def go_def ret_def)
  next
    assume "\<exists>s k l. c = Go (first_pass E a ap\<lparr>pf_s := s, pf_cnt := k, pf_l := l\<rparr>)"
    then obtain s k l' where g: "c = Go (first_pass E a ap\<lparr>pf_s := s, pf_cnt := k, pf_l := l'\<rparr>)" by blast
    show ?thesis using l unfolding g
      by (intro exI [of _ "Some (first_pass E a ap\<lparr>pf_s := s, pf_cnt := k, pf_l := l'\<rparr>)"])
         (simp add: printf_core_def seq_def go_def ret_def printf_end_def first_pass_def second_pass_def)
  qed
qed

lemma str_arg_env: "str_arg E m S d v str \<Longrightarrow> pf_null E' = pf_null E \<Longrightarrow> str_arg E' m S d v str"
  by (simp only: str_arg_def)

lemma formats_env: "formats E m S fmt args T \<Longrightarrow> pf_null E' = pf_null E \<Longrightarrow> formats E' m S fmt args T"
  by (induction rule: formats.induct) (auto intro: formats.intros str_arg_env)

context stream_writer
begin

lemma second_core:
  assumes f: "formats E m (foot \<union> work E) fmt args D" and r: "ready_to_print E (second_pass st a f) fmt f m x T"
    and ap: "pf_ap st = map ISlot args @ ap" and n: "length D < 2 ^ 31"
  shows "\<exists>f' m' x' st'. printf_core E (second_pass st a f) m x = Some (Done (of_nat (length D), Some f', Some st') m' x') \<and>
    stream f' m' x' (T @ D) \<and> same_but (foot \<union> work E) m m' \<and> core f' = core f"
proof -
  have "prints E (second_pass st a f) f m x T D (0 + 0)"
    using n ap by (intro second_loop [OF f r]) (simp_all add: second_pass_def)
  then show ?thesis by (auto simp: prints_def printf_core_def seq_def go_def ret_def printf_end_def)
qed

text \<open>\<open>vfprintf\<close> on a stream that has a buffer appends the text; a borrowed buffer is flushed.\<close>

lemma vfprintf_ok:
  fixes f :: FILE
  defines "f0 \<equiv> (if mode f <s 1 then f\<lparr>flags := flags f AND NOT F_ERR\<rparr> else f)"
  assumes f: "formats E m (foot \<union> work E) fmt args D" and b: "bytes_at m a (fmt @ [0])"
    and r: "reg a (Suc (length fmt)) \<inter> (foot \<union> work E) = {}" and E: "pf_write E = wfun" "env_ok E m foot" "word_mapped m"
    and fl: "flags f AND F_ERR = 0" and bb: "borrow_buffer E f0 = (saved, f1)" and s: "stream f1 m x T"
    and n: "length D < 2 ^ 31" and ok: "buf f1 \<noteq> 0"
  shows "\<exists>f' m' x'. vfprintf E f a (map ISlot args @ ap) m x = Some (Done (of_nat (length D), f') m' x') \<and>
    same_but (foot \<union> work E) m m' \<and> (if saved = 0 then \<exists>f2. stream f2 m' x' (T @ D) else \<exists>f2. holds f2 m' x' (T @ D))"
proof -
  have f1: "flags f1 AND F_ERR = 0"
    using fl bb by (auto simp: f0_def borrow_buffer_def and.assoc split: if_splits)
  define st where "st = first_pass E a (map ISlot args @ ap)"
  obtain so where c1: "printf_core E st m x = Some (Done (0, None, so) m x)"
      and sec: "second_pass (case so of None \<Rightarrow> st | Some st \<Rightarrow> st) a f1 = second_pass st a f1"
    using first_core [OF f b n] unfolding st_def by blast
  have "ready_to_print E (second_pass st a f1) fmt f1 m x T"
    using b r E f1 s by (simp add: ready_to_print_def second_pass_def)
  from second_core [OF f this, of ap] n obtain f2 m2 x2 st2 where
      c2: "printf_core E (second_pass st a f1) m x = Some (Done (of_nat (length D), Some f2, Some st2) m2 x2)"
        "stream f2 m2 x2 (T @ D)" "same_but (foot \<union> work E) m m2" "core f2 = core f1"
    by (auto simp: st_def first_pass_def)
  have rc: "\<not> (of_nat (length D) :: u32) <s 0" using n by (rule not_negative)
  have f2: "flags f2 AND F_ERR = 0" using c2(4) f1 by (simp add: core_def)
  show ?thesis
  proof (cases "saved = 0")
    case True
    have "vfprintf E f a (map ISlot args @ ap) m x =
        Some (Done (of_nat (length D), f2\<lparr>flags := flags f2 OR (flags f AND F_ERR)\<rparr>) m2 x2)"
      unfolding vfprintf_def st_def [symmetric] f0_def [symmetric]
      using c1 sec c2(1) bb True f2 by (simp add: seq_def Let_def return_buffer_def ret_def f0_def [symmetric])
    with c2 True show ?thesis by auto
  next
    case False
    obtain f3 m3 x3 where w: "wfun f2 0 0 m2 x2 = Some (Done (0, f3) m3 x3)" "holds f3 m3 x3 (T @ D)" "pending f3 m3 []"
        "same_but foot m2 m3" "core f3 = core f2"
      using fflush_write [OF c2(2)] by blast
    have "wpos f3 \<noteq> 0" "flags f3 AND F_ERR = 0"
      using w(3,5) c2(4) ok f2 by (simp_all add: pending_def core_def)
    then have "\<exists>f'. vfprintf E f a (map ISlot args @ ap) m x = Some (Done (of_nat (length D), f') m3 x3)"
      unfolding vfprintf_def st_def [symmetric] f0_def [symmetric]
      using c1 sec c2(1) bb False w(1) E(1) by (simp add: seq_def Let_def return_buffer_def ret_def f0_def [symmetric])
    moreover have "same_but (foot \<union> work E) m m3"
      using same_but_trans [OF c2(3) same_but_mono [OF w(4)]] by blast
    ultimately show ?thesis using w(2) False by auto
  qed
qed

end

text \<open>
  Where \<open>vsnprintf\<close> writes, and what it needs: a mapped destination and working storage that are
  apart from each other and from the format.
\<close>

definition sn_start :: "('f, 'x) pfenv \<Rightarrow> addr \<Rightarrow> u64 \<Rightarrow> addr" where
  "sn_start E s n = (if n \<noteq> 0 then s else pf_sn_dummy E)"

definition sn_area :: "('f, 'x) pfenv \<Rightarrow> addr \<Rightarrow> u64 \<Rightarrow> addr set" where
  "sn_area E s n = sn_foot (sn_start E s n) (unat n - 1) (pf_internal E) 80"

definition sn_ready :: "('f, 'x) pfenv \<Rightarrow> addr \<Rightarrow> u64 \<Rightarrow> addr \<Rightarrow> byte list \<Rightarrow> mem \<Rightarrow> bool" where
  "sn_ready E s n a fmt m \<longleftrightarrow>
     n \<le> ucast INT_MAX \<and> word_mapped m \<and> mapped m (sn_start E s n) (Suc (unat n - 1)) \<and> mapped m (pf_internal E) 80 \<and>
     reg (sn_start E s n) (Suc (unat n - 1)) \<inter> reg (pf_internal E) 80 = {} \<and>
     pf_sn_buf E \<noteq> 0 \<and> pf_internal E \<noteq> 0 \<and> pf_internal E + 80 \<noteq> 0 \<and> env_ok E m (sn_area E s n) \<and>
     bytes_at m a (fmt @ [0]) \<and> reg a (Suc (length fmt)) \<inter> (sn_area E s n \<union> work E) = {}"

lemma env_ok_write [simp]: "env_ok (E\<lparr>pf_write := w\<rparr>) m R = env_ok E m R" "work (E\<lparr>pf_write := w\<rparr>) = work E"
  by (simp_all add: env_ok_def work_def)

lemma vsnprintf_ok:
  assumes r: "sn_ready E s n a fmt m" and f: "formats E m (sn_area E s n \<union> work E) fmt args T" and l: "length T < 2 ^ 31"
  shows "\<exists>m'. vsnprintf E s n a (map ISlot args @ ap) m x = Some (Done (of_nat (length T)) m' x) \<and>
    bytes_at m' (sn_start E s n) (take (unat n - 1) T @ [0]) \<and> same_but (sn_area E s n \<union> work E) m m'"
proof -
  define N where "N = unat n - 1"
  define s0 where "s0 = sn_start E s n"
  define c where "c = \<lparr>ck_s = s0, ck_n = (if n \<noteq> 0 then n - 1 else 0)\<rparr>"
  define f0 where "f0 = empty_file\<lparr>lbf := - 1, buf := pf_sn_buf E, fcookie := c\<rparr>"
  define E' where "E' = E\<lparr>pf_write := sn_write\<rparr>"
  define S where "S = sn_area E s n"
  have S: "S = sn_foot s0 N (pf_internal E) 80" by (simp add: S_def sn_area_def s0_def N_def)
  have w: "word_mapped m" "mapped m s0 (Suc N)" "mapped m (pf_internal E) 80" "reg s0 (Suc N) \<inter> reg (pf_internal E) 80 = {}"
      "pf_sn_buf E \<noteq> 0" "pf_internal E \<noteq> 0" "pf_internal E + 80 \<noteq> 0" "env_ok E m S" "bytes_at m a (fmt @ [0])"
      "reg a (Suc (length fmt)) \<inter> (S \<union> work E) = {}" and n0: "n \<le> ucast INT_MAX"
    using r [unfolded sn_ready_def, folded s0_def N_def S_def] by blast+
  have "unat (ucast INT_MAX :: u64) = 2 ^ 31 - 1" by (simp add: INT_MAX_def)
  with n0 have n: "unat n \<le> 2 ^ 31 - 1" by (simp only: word_le_nat_alt)
  have ck: "ck_n c = of_nat N"
  proof (cases "n = 0")
    case False
    then have "unat (n - 1) = N" unfolding N_def by (intro unat_minus_one) simp
    then have "n - 1 = of_nat N" by (metis of_nat_unat ucast_id)
    then show ?thesis using False by (simp add: c_def)
  qed (simp add: c_def N_def)
  define m0 where "m0 = put_bytes m s0 [0]"
  have "m s0 \<noteq> None" using w(2) by (simp add: mapped_Suc)
  then have st: "store8 m s0 0 = Some m0" unfolding m0_def by (rule store8_put)
  have sb: "same_but (reg s0 (Suc N)) m m0" using put_in_reg [of 0 "[0]" "Suc N" m s0] w(2) by (simp add: m0_def)
  have sbS: "same_but (S \<union> work E) m m0" using sb by (rule same_but_mono) (auto simp: S sn_foot_def)
  define f1 where "f1 = f0\<lparr>wpos := pf_internal E, wbase := pf_internal E, buf := pf_internal E, buf_size := 80, wend := pf_internal E + 80\<rparr>"
  have "sn_holds s0 N (pf_internal E) 80 x f1 m0 x []"
    using w(2,4) n ck bytes_at_put [of "[0]" m s0]
    by (simp add: sn_holds_def f1_def f0_def apart_reg m0_def mapped_put sn_cookie_def N_def c_def)
  moreover have "pending f1 m0 []"
    using w(3,7) by (simp add: pending_def f1_def m0_def mapped_put)
  ultimately have stream: "sn.stream s0 N (pf_internal E) 80 x f1 m0 x []" unfolding sn.stream_def by blast
  have fl: "flags f0 = 0" "mode f0 = 0" "buf_size f0 = 0" "buf f0 = pf_sn_buf E" by (simp_all add: f0_def empty_file_def)
  have bb: "borrow_buffer E' (if mode f0 <s 1 then f0\<lparr>flags := flags f0 AND NOT F_ERR\<rparr> else f0) = (pf_sn_buf E, f1)"
  proof -
    have "f0\<lparr>flags := flags f0 AND NOT F_ERR\<rparr> = f0" using fl(1) by simp
    then show ?thesis using fl by (simp add: borrow_buffer_def E'_def f1_def)
  qed
  have "formats E' m0 (S \<union> work E') fmt args T"
    using formats_env [OF formats_kept [OF f [folded S_def] sbS], of E'] by (simp add: E'_def)
  moreover have "bytes_at m0 a (fmt @ [0])" using bytes_at_same_but [OF sbS, of a "fmt @ [0]"] w(9,10) by simp
  moreover have "env_ok E' m0 S" using env_ok_kept [OF w(8) sbS] by (simp add: E'_def)
  moreover have "word_mapped m0" using same_but_word_mapped [OF sb] w(1) by simp
  moreover have "reg a (Suc (length fmt)) \<inter> (S \<union> work E') = {}" "pf_write E' = sn_write" "flags f0 AND F_ERR = 0" "buf f1 \<noteq> 0"
    using w(6,10) fl by (simp_all add: E'_def f1_def)
  ultimately obtain f2 m2 x2 f3 where v: "vfprintf E' f0 a (map ISlot args @ ap) m0 x = Some (Done (of_nat (length T), f2) m2 x2)"
      "same_but (S \<union> work E) m0 m2" "sn_holds s0 N (pf_internal E) 80 x f3 m2 x2 T"
    using sn.vfprintf_ok [of E' m0 s0 N "pf_internal E" 80 fmt args T a f0 "pf_sn_buf E" f1 x x "[]" ap] bb stream l w(5)
    by (auto simp: S E'_def)
  have x2: "x2 = x" using v(3) by (simp add: sn_holds_def)
  have "\<not> ucast INT_MAX < n" using n0 by simp
  then have "vsnprintf E s n a (map ISlot args @ ap) m x = Some (Done (of_nat (length T)) m2 x)"
    unfolding vsnprintf_def Let_def sn_start_def [symmetric] s0_def [symmetric] c_def [symmetric] f0_def [symmetric] E'_def [symmetric]
    using st v(1) x2 by (simp add: seq_def wr_def ret_def) (simp add: c_def ret_def)
  moreover have "bytes_at m2 s0 (take N T @ [0])" using v(3) by (simp add: sn_holds_def)
  moreover have "same_but (S \<union> work E) m m2" using same_but_trans [OF sbS v(2)] .
  ultimately show ?thesis by (simp add: s0_def N_def S_def)
qed

section \<open>An example\<close>

text \<open>The literals, a format and a string in one block; the working storage behind them.\<close>

definition demo_pfenv :: "(unit, 'x) pfenv" where
  "demo_pfenv =
     \<lparr>pf_mb = demo_mbenv, pf_write = sn_write, pf_fmt_fp = (\<lambda>_ _ _ _ _ _ _ _. None), pf_strerror = 0, pf_null = 0x1010,
      pf_prefix = 0x1000, pf_buf = 0x2000, pf_pad = 0x2100, pf_mbc = 0, pf_wc = 0, pf_internal = 0x2200,
      pf_sn_buf = 0x2300, pf_sn_dummy = 0x2400, pf_nl_junk = []\<rparr>"

definition demo_fmt :: "byte list" where
  "demo_fmt = bytes_of ''%s: %04d%%''"

definition demo_mem :: mem where
  "demo_mem = flat 0x1000 (prefix_text @ [0] @ demo_fmt @ [0] @ bytes_of ''cpu'' @ [0])"

lemma demo_mapped: "mapped demo_mem a n" "word_mapped demo_mem"
  by (simp_all add: demo_mem_def)

lemma demo_pfenv_simps [simp]: "pf_sn_buf demo_pfenv = 0x2300" "pf_internal demo_pfenv = 0x2200"
  by (simp_all add: demo_pfenv_def)

lemma demo_blocks:
  "bytes_at demo_mem 0x1000 prefix_text" "bytes_at demo_mem 0x100a (demo_fmt @ [0])" "bytes_at demo_mem 0x1015 (bytes_of ''cpu'' @ [0])"
proof -
  have "bytes_at demo_mem 0x1000 (prefix_text @ [0] @ demo_fmt @ [0] @ bytes_of ''cpu'' @ [0])"
    unfolding demo_mem_def by (intro flat_bytes) (simp add: demo_fmt_def)
  then show "bytes_at demo_mem 0x1000 prefix_text" "bytes_at demo_mem 0x100a (demo_fmt @ [0])" "bytes_at demo_mem 0x1015 (bytes_of ''cpu'' @ [0])"
    by (simp_all only: bytes_at_append length_prefix_text demo_fmt_def bytes_of_simps list.size) simp_all
qed

lemma reg_apart: "unat a + n \<le> unat b \<Longrightarrow> unat b + k \<le> 2 ^ 64 \<Longrightarrow> reg a n \<inter> reg b k = {} \<and> reg b k \<inter> reg a n = {}"
  using apart_before [of a n b k] by (simp add: apart_reg inf_commute)

lemma demo_env_ok:
  assumes "R = reg 0x3000 k \<union> reg 0x2200 80" "k \<le> 0x1000"
  shows "env_ok demo_pfenv demo_mem R"
  using assms reg_apart [of "0x2000" 43 "0x3000" k] reg_apart [of "0x2000" 43 "0x2200" 80] reg_apart [of "0x2100" 256 "0x3000" k]
    reg_apart [of "0x2100" 256 "0x2200" 80] reg_apart [of "0x2000" 43 "0x2100" 256] reg_apart [of "0x1000" 9 "0x3000" k]
    reg_apart [of "0x1000" 9 "0x2200" 80] reg_apart [of "0x1000" 9 "0x2000" 43] reg_apart [of "0x1000" 9 "0x2100" 256] demo_blocks(1)
  by (simp add: env_ok_def work_def demo_pfenv_def Int_Un_distrib Int_Un_distrib2 demo_mem_def)

lemma demo_low:
  assumes "unat a + n \<le> 0x2000" "k \<le> 0x1000"
  shows "reg a n \<inter> (sn_foot 0x3000 k 0x2200 80 \<union> work demo_pfenv) = {}"
  using assms reg_apart [of a n "0x3000" "Suc k"] reg_apart [of a n "0x2200" 80] reg_apart [of a n "0x2000" 43] reg_apart [of a n "0x2100" 256]
  by (simp add: sn_foot_def work_def demo_pfenv_def Int_Un_distrib)

lemma demo_sn_ready:
  assumes "n \<noteq> 0" "n < 0x1000"
  shows "sn_ready demo_pfenv 0x3000 n 0x100a demo_fmt demo_mem"
proof -
  have n: "unat n \<noteq> 0" "unat n < 0x1000" using assms by (simp_all add: unat_eq_0 word_less_nat_alt)
  have area: "sn_area demo_pfenv 0x3000 n = sn_foot 0x3000 (unat n - 1) 0x2200 80" "sn_start demo_pfenv 0x3000 n = 0x3000"
    using assms(1) by (simp_all add: sn_area_def sn_start_def demo_pfenv_def)
  have "n \<le> ucast INT_MAX" using n by (simp add: word_le_nat_alt INT_MAX_def)
  moreover have "env_ok demo_pfenv demo_mem (sn_foot 0x3000 (unat n - 1) 0x2200 80)"
    unfolding sn_foot_def using n by (intro demo_env_ok [where k = "Suc (unat n - 1)"]) auto
  moreover have "reg 0x100a (Suc (length demo_fmt)) \<inter> (sn_foot 0x3000 (unat n - 1) 0x2200 80 \<union> work demo_pfenv) = {}"
    using n by (intro demo_low) (simp_all add: demo_fmt_def)
  moreover have "reg 0x3000 (Suc (unat n - 1)) \<inter> reg 0x2200 80 = {}"
    using n reg_apart [of "0x2200" 80 "0x3000" "Suc (unat n - 1)"] by simp
  ultimately show ?thesis
    using demo_blocks(2) demo_mapped unfolding sn_ready_def area by simp
qed

lemma demo_formats:
  assumes "k < 0x1000"
  shows "formats (demo_pfenv :: (unit, 'x) pfenv) demo_mem (sn_foot 0x3000 k 0x2200 80 \<union> work (demo_pfenv :: (unit, 'x) pfenv)) demo_fmt [0x1015, 42] (bytes_of ''cpu: 0042%'')"
proof -
  define S where "S = sn_foot 0x3000 k 0x2200 80 \<union> work (demo_pfenv :: (unit, 'x) pfenv)"
  define d1 where "d1 = \<lparr>cs_flags = [], cs_width = [], cs_prec = None, cs_mods = [], cs_conv = 0x73\<rparr>"
  define d2 where "d2 = \<lparr>cs_flags = [0x30], cs_width = [0x34], cs_prec = None, cs_mods = [], cs_conv = 0x64\<rparr>"
  have v: "valid_spec d1" "valid_spec d2"
    by (simp_all add: d1_def d2_def valid_spec_def decimal_def is_flag_def is_digit_iff int_mods_def int_convs_def)
  have "reg 0x1015 (Suc (length (bytes_of ''cpu''))) \<inter> S = {}"
    unfolding S_def using assms by (intro demo_low) simp_all
  then have s: "str_arg (demo_pfenv :: (unit, 'x) pfenv) demo_mem S d1 0x1015 (bytes_of ''cpu'')" "str_arg (demo_pfenv :: (unit, 'x) pfenv) demo_mem S d2 42 []"
    using demo_blocks(3) by (simp_all add: str_arg_def d1_def d2_def cstr_def Let_def)
  have t1: "spec_text d1 0x1015 (bytes_of ''cpu'') = bytes_of ''cpu''"
    by (simp add: spec_text_def spec_field_def d1_def spec_prec_def spec_width_def padded_def)
  have r2: "replicate 2 c = [c, c]" for c :: byte by (simp add: numeral_2_eq_2)
  have "int_value [] True 42 = 42" by (simp add: int_value_def)
  then have t2: "spec_text d2 42 [] = bytes_of ''0042''"
    by (simp add: spec_text_def spec_field_def d2_def spec_prec_def spec_width_def padded_def signed_conv_def int_text_def
        int_body_def number_def digits_of.simps dec_digit_def r2)
  have "formats (demo_pfenv :: (unit, 'x) pfenv) demo_mem S [0x25, 0x25] [] [0x25]" by (intro formats.intros)
  then have "formats (demo_pfenv :: (unit, 'x) pfenv) demo_mem S (0x25 # spec_bytes d2 @ [0x25, 0x25]) [42] (spec_text d2 42 [] @ [0x25])"
    by (rule formats_spec [OF v(2) s(2)])
  then have "formats (demo_pfenv :: (unit, 'x) pfenv) demo_mem S (0x3a # 0x20 # 0x25 # spec_bytes d2 @ [0x25, 0x25]) [42] (0x3a # 0x20 # spec_text d2 42 [] @ [0x25])"
    by (intro formats_char) simp_all
  then have "formats (demo_pfenv :: (unit, 'x) pfenv) demo_mem S (0x25 # spec_bytes d1 @ 0x3a # 0x20 # 0x25 # spec_bytes d2 @ [0x25, 0x25]) [0x1015, 42]
      (spec_text d1 0x1015 (bytes_of ''cpu'') @ 0x3a # 0x20 # spec_text d2 42 [] @ [0x25])"
    by (rule formats_spec [OF v(1) s(1)])
  then show ?thesis unfolding t1 t2 S_def by (simp add: demo_fmt_def spec_bytes_def d1_def d2_def)
qed

lemma demo_formats_area:
  assumes "n \<noteq> 0" "n < 0x1000"
  shows "formats (demo_pfenv :: (unit, 'x) pfenv) demo_mem (sn_area (demo_pfenv :: (unit, 'x) pfenv) 0x3000 n \<union> work (demo_pfenv :: (unit, 'x) pfenv))
    demo_fmt [0x1015, 42] (bytes_of ''cpu: 0042%'')"
proof -
  have "unat n - 1 < 0x1000" using assms(2) by (simp add: word_less_nat_alt)
  moreover have "sn_area (demo_pfenv :: (unit, 'x) pfenv) 0x3000 n = sn_foot 0x3000 (unat n - 1) 0x2200 80"
    using assms(1) by (simp add: sn_area_def sn_start_def)
  ultimately show ?thesis using demo_formats [of "unat n - 1"] by simp
qed

end
