(* ===== verification/Logging.thy ===== *)
theory Logging
  imports PrintfText
begin

text \<open>
  Logging on the console, \<^verbatim>\<open>src/src/logging.c\<close> and \<^verbatim>\<open>assert.c\<close>: \<open>synthol_nlogf\<close> formats into
  a buffer of a given size, \<open>synthol_logf\<close> through a stream whose \<open>write\<close> is a console write.
\<close>

record logframe =
  log_buf :: addr
  assert_buf :: addr
  stream_buf :: addr
  assert_expr :: addr
  assert_file :: addr
  assert_func :: addr
  assert_line :: u32
  assert_fmt :: addr

text \<open>\<open>buf\<close> is the variable-length array; its size is the caller's \<open>n\<close>.\<close>

definition synthol_vnlogf :: "'x hyp \<Rightarrow> ('f, 'x) pfenv \<Rightarrow> addr \<Rightarrow> u64 \<Rightarrow> addr \<Rightarrow> 'f slot list \<Rightarrow> (u32, 'x) run" where
  "synthol_vnlogf H E bufp n fmt ap =
     seq (vsnprintf E bufp n fmt ap) (\<lambda>k. HYPERCALL_console_io H (CONSOLEIO_write H) k bufp)"

definition synthol_nlogf :: "'x hyp \<Rightarrow> ('f, 'x) pfenv \<Rightarrow> addr \<Rightarrow> u64 \<Rightarrow> addr \<Rightarrow> 'f slot list \<Rightarrow> (u32, 'x) run" where
  "synthol_nlogf H E bufp n fmt ap = synthol_vnlogf H E bufp n fmt ap"

text \<open>\<open>__assert_fail\<close> logs and aborts; control does not come back.\<close>

definition assert_fail :: "'x hyp \<Rightarrow> image \<Rightarrow> ('f, 'x) pfenv \<Rightarrow> logframe \<Rightarrow> ('a, 'x) run" where
  "assert_fail H I E L =
     seq (synthol_nlogf H E (assert_buf L) 4096 (assert_fmt L)
            [ISlot (assert_expr L), ISlot (assert_file L), ISlot (assert_func L), ISlot (scast (assert_line L))])
       (\<lambda>_. seq (abort H I) (\<lambda>_ m x. None))"

definition vlogf_write :: "'x hyp \<Rightarrow> image \<Rightarrow> ('f, 'x) pfenv \<Rightarrow> logframe \<Rightarrow> 'x writer" where
  "vlogf_write H I E L f s l =
     seq (HYPERCALL_console_io H (CONSOLEIO_write H) (ucast l) s) (\<lambda>err.
       if err = 0 then ret (l, f) else assert_fail H I E L)"

definition vlogf_file :: "logframe \<Rightarrow> FILE" where
  "vlogf_file L = empty_file\<lparr>lbf := 10, buf := stream_buf L, buf_size := 1\<rparr>"

definition synthol_vlogf :: "'x hyp \<Rightarrow> image \<Rightarrow> ('f, 'x) pfenv \<Rightarrow> logframe \<Rightarrow> addr \<Rightarrow> 'f slot list \<Rightarrow> (u32, 'x) run" where
  "synthol_vlogf H I E L fmt ap =
     seq (vfprintf (E\<lparr>pf_write := vlogf_write H I E L\<rparr>) (vlogf_file L) fmt ap) (\<lambda>(rc, _). ret rc)"

definition synthol_logf :: "'x hyp \<Rightarrow> image \<Rightarrow> ('f, 'x) pfenv \<Rightarrow> logframe \<Rightarrow> addr \<Rightarrow> 'f slot list \<Rightarrow> (u32, 'x) run" where
  "synthol_logf H I E L fmt ap = synthol_vlogf H I E L fmt ap"

section \<open>What reaches the console\<close>

text \<open>
  \<open>synthol_nlogf\<close> hands the console as many bytes as the whole text has, though the buffer holds
  only the part that fits.
\<close>

lemma nlogf_console:
  assumes r: "sn_ready E p n a fmt m" and f: "formats E m (sn_area E p n \<union> work E) fmt args T" and l: "length T < 2 ^ 31"
    and n: "n \<noteq> 0"
  shows "\<exists>m'. synthol_nlogf H E p n a (map ISlot args @ ap) m x =
      HYPERCALL_console_io H (CONSOLEIO_write H) (of_nat (length T)) p m' x \<and>
    bytes_at m' p (take (unat n - 1) T @ [0]) \<and> same_but (sn_area E p n \<union> work E) m m'"
proof -
  obtain m' where "vsnprintf E p n a (map ISlot args @ ap) m x = Some (Done (of_nat (length T)) m' x)"
      "bytes_at m' (sn_start E p n) (take (unat n - 1) T @ [0])" "same_but (sn_area E p n \<union> work E) m m'"
    using vsnprintf_ok [OF r f l] by blast
  with n show ?thesis
    by (intro exI [of _ m']) (simp add: synthol_nlogf_def synthol_vnlogf_def sn_start_def)
qed

lemma console_count:
  assumes "writes_console H log" "bytes_at m p bs" "length bs < 2 ^ 31"
  shows "HYPERCALL_console_io H (CONSOLEIO_write H) (ucast (of_nat (length bs) :: u64)) p m x = Some (Done 0 m (log x bs))"
  using console_write [OF assms] by (simp add: ucast_of_nat32)

lemma vlogf_write_ok:
  assumes "writes_console H log" "bytes_at m p bs" "length bs < 2 ^ 31"
  shows "vlogf_write H I E L f p (of_nat (length bs)) m x = Some (Done (of_nat (length bs), f) m (log x bs))"
  using console_count [OF assms] by (simp add: vlogf_write_def ret_def)

text \<open>
  The first text on the stream of \<open>synthol_vlogf\<close>: a single byte other than a newline goes to the
  buffer of one byte, which nothing ever writes out.
\<close>

definition lost :: "byte list \<Rightarrow> bool" where
  "lost bs \<longleftrightarrow> length bs = 1 \<and> bs \<noteq> [10]"

lemma vlogf_fwritex:
  assumes H: "writes_console H log" and b: "bytes_at m p bs" and l: "length bs < 2 ^ 31" "bs \<noteq> []"
    and w: "mapped m (stream_buf L) 1" "stream_buf L \<noteq> p"
  shows "\<exists>f' m'. fwritex (vlogf_write H I E L) p (of_nat (length bs)) (vlogf_file L) m x =
    Some (Done (of_nat (length bs), f') m' (if lost bs then x else log x bs)) \<and>
    flags f' = 0 \<and> same_but (reg (stream_buf L) 1) m m'"
proof -
  define f1 where "f1 = (vlogf_file L)\<lparr>mode := - 1, wpos := stream_buf L, wbase := stream_buf L, wend := stream_buf L + 1\<rparr>"
  have tw: "towrite (vlogf_file L) = (0, f1)"
    by (simp add: towrite_def vlogf_file_def empty_file_def f1_def Let_def)
  have f1: "flags f1 = 0" "wend f1 = stream_buf L + 1" "lbf f1 = 10" "wpos f1 = stream_buf L"
    by (simp_all add: f1_def vlogf_file_def empty_file_def)
  have "wend (vlogf_file L) = 0" by (simp add: vlogf_file_def empty_file_def)
  then have fw: "fwritex (vlogf_write H I E L) p (of_nat (length bs)) (vlogf_file L) m x =
      (if 1 < (of_nat (length bs) :: u64) then vlogf_write H I E L f1 p (of_nat (length bs))
       else seq (rd (\<lambda>m. last_line m p (of_nat (length bs)))) (\<lambda>i.
         if i \<noteq> 0 then seq (vlogf_write H I E L f1 p i) (\<lambda>(n, f).
           if n < i then ret (n, f) else fwritex_buf (p + i) (of_nat (length bs) - i) i f)
         else fwritex_buf p (of_nat (length bs)) i f1)) m x"
    by (simp add: fwritex_def tw f1 word_sle_eq)
  show ?thesis
  proof (cases "length bs = 1")
    case False
    then have "1 < length bs" using l(2) by (cases bs) auto
    then have "1 < (of_nat (length bs) :: u64)" using l(1) by (simp add: word_less_nat_alt unat_of_nat)
    then show ?thesis using fw vlogf_write_ok [OF H b l(1), of I E L f1 x] f1(1) False by (auto simp: lost_def)
  next
    case True
    then obtain c where c: "bs = [c]" by (cases bs) auto
    have mp: "m p = Some c" using b c by simp
    show ?thesis
    proof (cases "c = 10")
      case True
      have "last_line m p 1 = Some 1" using mp True by (subst last_line.simps) simp
      moreover have "copying m (stream_buf L) (p + 1) []" by (simp add: copying_def apart_def)
      then have "memcpy m (stream_buf L) (p + 1) 0 = Some (stream_buf L, m)"
        using memcpy_correct [of m "stream_buf L" "p + 1" "[]" 0] by simp
      ultimately show ?thesis using fw vlogf_write_ok [OF H b l(1), of I E L f1 x] f1 c True
        by (simp add: rd_def seq_def fwritex_buf_def act_def ret_def lost_def)
    next
      case False
      have "last_line m p 0 = Some 0" by (subst last_line.simps) simp
      then have "last_line m p 1 = Some 0" using mp False by (subst last_line.simps) simp
      moreover have "copying m (stream_buf L) p [c]" using w mp by (simp add: copying_def apart_def)
      then have "memcpy m (stream_buf L) p 1 = Some (stream_buf L, put_bytes m (stream_buf L) [c])"
        using memcpy_correct [of m "stream_buf L" p "[c]" 1] by simp
      moreover have "same_but (reg (stream_buf L) 1) m (put_bytes m (stream_buf L) [c])"
        using put_bytes_same_but [of m "stream_buf L" "[c]"] w(1) by simp
      ultimately show ?thesis using fw f1 c False
        by (simp add: rd_def seq_def fwritex_buf_def act_def ret_def lost_def)
    qed
  qed
qed

lemma formats_text: "\<forall>c\<in>set T. plain c \<Longrightarrow> formats E m S T [] T"
  by (induction T) (auto intro: formats.intros)

lemma logf_text:
  assumes H: "writes_console H log" and T: "\<forall>c\<in>set T. plain c" "T \<noteq> []" "length T < 2 ^ 31"
    and b: "bytes_at m a (T @ [0])" and w: "mapped m (stream_buf L) 1" "stream_buf L \<notin> reg a (Suc (length T))"
  shows "\<exists>m'. synthol_logf H I E L a ap m x = Some (Done (of_nat (length T)) m' (if lost T then x else log x T))"
proof -
  define E' where "E' = E\<lparr>pf_write := vlogf_write H I E L\<rparr>"
  define f where "f = vlogf_file L"
  define st where "st = second_pass (first_pass E' a ap) a f"
  have fT: "formats E' m {} T [] T" using T(1) by (rule formats_text)
  have ck: "chunk T = length T" "chunk_len T = length T"
    using T(1) by (simp_all add: chunk_def chunk_len_def takeWhile_eq_all_conv [THEN iffD2] dropWhile_eq_Nil_conv [THEN iffD2])
  have z: "0 \<notin> set T" using T(1) by auto
  have bT: "bytes_at m a T" using b by (simp add: bytes_at_append)
  have "a + of_nat 0 \<in> reg a (Suc (length T))" unfolding reg_def by (rule imageI) simp
  then have sa: "stream_buf L \<noteq> a" using w(2) by auto
  obtain f' m' where o: "fwritex (vlogf_write H I E L) a (of_nat (length T)) f m x =
      Some (Done (of_nat (length T), f') m' (if lost T then x else log x T))" "flags f' = 0" "same_but (reg (stream_buf L) 1) m m'"
    using vlogf_fwritex [OF H bT T(3,2) w(1) sa] unfolding f_def by blast
  have f0: "flags f = 0" "mode f = 0" "buf_size f \<noteq> 0" by (simp_all add: f_def vlogf_file_def empty_file_def)
  define st1 where "st1 = round_state st 0 T\<lparr>pf_f := Some f'\<rparr>"
  have stp: "pf_s st = a" "pf_cnt st = of_nat 0" "pf_l st = of_nat 0" "pf_f st = Some f" by (simp_all add: st_def second_pass_def)
  have at: "bytes_at m (pf_s st) (T @ [0])" using b stp by simp
  have n: "0 + 0 + chunk T < 2 ^ 31" using T(3) ck by simp
  have "printf_round E' st m x = Some (Done (Go (Inr st1), Some f') m' (if lost T then x else log x T))"
    using round_text [OF at z T(2) stp(2,3) n, of E' x] stp o f0(1) T(2)
    by (simp add: seq_def ret_def out_def ck st1_def E'_def)
  then have l1: "printf_loop E' st m x = printf_loop E' st1 m' (if lost T then x else log x T)"
    by (subst printf_loop.simps) (simp add: seq_def)
  have "m (a + of_nat (length T)) = Some 0" using b by (simp add: bytes_at_append)
  moreover have "a + of_nat (length T) \<in> reg a (Suc (length T))" unfolding reg_def by (rule imageI) simp
  then have "a + of_nat (length T) \<noteq> stream_buf L" using w(2) by auto
  ultimately have "m' (pf_s st1) = Some 0"
    using o(3) stp(1) by (auto simp: same_but_def reg_def st1_def round_state_def ck)
  then have "printf_round E' st1 m' (if lost T then x else log x T) =
      Some (Done (Go (Inl (st1\<lparr>pf_cnt := of_nat (0 + length T)\<rparr>)), Some f') m' (if lost T then x else log x T))"
    using round_end [of m' st1 0 "length T" E'] T(3) by (simp add: st1_def round_state_def ck)
  then have "printf_loop E' st1 m' (if lost T then x else log x T) =
      Some (Done (Go (st1\<lparr>pf_cnt := of_nat (length T)\<rparr>), Some f') m' (if lost T then x else log x T))"
    by (subst printf_loop.simps) (simp add: seq_def ret_def st1_def)
  then have c2: "printf_core E' st m x =
      Some (Done (of_nat (length T), Some f', Some (st1\<lparr>pf_cnt := of_nat (length T)\<rparr>)) m' (if lost T then x else log x T))"
    by (simp add: l1 printf_core_def seq_def go_def ret_def printf_end_def st1_def)
  obtain so where c1: "printf_core E' (first_pass E' a ap) m x = Some (Done (0, None, so) m x)"
      and sec: "second_pass (case so of None \<Rightarrow> first_pass E' a ap | Some st \<Rightarrow> st) a f = st"
    using first_core [OF fT b T(3), of ap x f] unfolding st_def by blast
  have ff: "f\<lparr>flags := 0\<rparr> = f" using f0(1) by (metis FILE.surjective FILE.update_convs(1))
  have m1: "(if mode f <s 1 then f\<lparr>flags := flags f AND NOT F_ERR\<rparr> else f) = f" using ff f0(1) by simp
  have "\<exists>f2. vfprintf E' f a ap m x = Some (Done (of_nat (length T), f2) m' (if lost T then x else log x T))"
    unfolding vfprintf_def Let_def m1
    using c1 c2 sec f0 o(2) by (simp add: borrow_buffer_def return_buffer_def ret_def seq_def)
  then show ?thesis
    by (auto simp: synthol_logf_def synthol_vlogf_def E'_def [symmetric] f_def [symmetric] seq_def ret_def)
qed

definition demo_frame :: logframe where
  "demo_frame =
     \<lparr>log_buf = 0x7000, assert_buf = 0x8000, stream_buf = 0x9000, assert_expr = 0, assert_file = 0, assert_func = 0,
      assert_line = 0, assert_fmt = 0\<rparr>"

end
