(* ===== verification/Hash.thy ===== *)
theory Hash
  imports Prelude
begin

text \<open>
  The hash functions behind \<open>crypt\<close>, \<^verbatim>\<open>musl/src/crypt\<close>: MD5, SHA-256 and SHA-512 with their
  incremental interface. The context structure is a record, its block buffer a list of bytes;
  a message passed as pointer and length is the list of its bytes.
\<close>

section \<open>The incremental interface\<close>

text \<open>
  The three files have the same \<open>update\<close> and \<open>pad\<close> up to the block size \<open>B\<close>, the offset \<open>L\<close>
  past which the length no longer fits, the offset \<open>Z\<close> of the last eight length bytes, and
  their byte order \<open>lenb\<close>.
\<close>

record 'w hash_ctx =
  hlen :: u64
  hst :: "'w list"
  hbuf :: "byte list"

text \<open>\<open>memcpy(buf + r, p, n)\<close> and \<open>memset(buf + r, 0, n)\<close> within the buffer.\<close>

definition blit :: "byte list \<Rightarrow> nat \<Rightarrow> byte list \<Rightarrow> byte list" where
  "blit b r p = take r b @ p @ drop (r + length p) b"

text \<open>\<open>for (; len >= B; len -= B, p += B) processblock(s, p);\<close> with what is left.\<close>

function hash_blocks :: "nat \<Rightarrow> ('w list \<Rightarrow> byte list \<Rightarrow> 'w list) \<Rightarrow> 'w list \<Rightarrow> byte list \<Rightarrow> 'w list \<times> byte list" where
  "hash_blocks B pb h p =
     (if 0 < B \<and> B \<le> length p then hash_blocks B pb (pb h (take B p)) (drop B p) else (h, p))"
  by pat_completeness auto
termination by (relation "measure (\<lambda>(B, pb, h, p). length p)") auto

declare hash_blocks.simps [simp del]

definition hash_tail :: "nat \<Rightarrow> ('w list \<Rightarrow> byte list \<Rightarrow> 'w list) \<Rightarrow> 'w hash_ctx \<Rightarrow> byte list \<Rightarrow> 'w hash_ctx" where
  "hash_tail B pb s p =
     (let (h, rest) = hash_blocks B pb (hst s) p in s\<lparr>hst := h, hbuf := blit (hbuf s) 0 rest\<rparr>)"

definition hash_update :: "nat \<Rightarrow> ('w list \<Rightarrow> byte list \<Rightarrow> 'w list) \<Rightarrow> 'w hash_ctx \<Rightarrow> byte list \<Rightarrow> 'w hash_ctx" where
  "hash_update B pb s p =
     (let r = unat (hlen s mod of_nat B); s = s\<lparr>hlen := hlen s + of_nat (length p)\<rparr>
      in if r \<noteq> 0 then
           (if length p < B - r then s\<lparr>hbuf := blit (hbuf s) r p\<rparr>
            else let b = blit (hbuf s) r (take (B - r) p)
                 in hash_tail B pb (s\<lparr>hbuf := b, hst := pb (hst s) b\<rparr>) (drop (B - r) p))
         else hash_tail B pb s p)"

definition hash_pad :: "nat \<Rightarrow> nat \<Rightarrow> nat \<Rightarrow> (u64 \<Rightarrow> byte list) \<Rightarrow> ('w list \<Rightarrow> byte list \<Rightarrow> 'w list) \<Rightarrow> 'w hash_ctx \<Rightarrow> 'w hash_ctx" where
  "hash_pad B L Z lenb pb s =
     (let r = unat (hlen s mod of_nat B);
          s = s\<lparr>hbuf := (hbuf s)[r := 0x80]\<rparr>;
          r = r + 1;
          (s, r) =
            (if L < r then
               (let b = blit (hbuf s) r (replicate (B - r) 0) in (s\<lparr>hbuf := b, hst := pb (hst s) b\<rparr>, 0))
             else (s, r));
          s = s\<lparr>hbuf := blit (hbuf s) r (replicate (Z - r) 0), hlen := hlen s * 8\<rparr>;
          b = blit (hbuf s) Z (lenb (hlen s))
      in s\<lparr>hbuf := b, hst := pb (hst s) b\<rparr>)"

definition le_len :: "u64 \<Rightarrow> byte list" where
  "le_len v = map (\<lambda>i. ucast (drop_bit (8 * i) v)) [0..<8]"

definition be_len :: "u64 \<Rightarrow> byte list" where
  "be_len v = map (\<lambda>i. ucast (drop_bit (8 * (7 - i)) v)) [0..<8]"

section \<open>MD5\<close>

definition rol :: "u32 \<Rightarrow> nat \<Rightarrow> u32" where
  "rol n k = push_bit k n OR drop_bit (32 - k) n"

definition md5_F :: "u32 \<Rightarrow> u32 \<Rightarrow> u32 \<Rightarrow> u32" where "md5_F x y z = z XOR (x AND (y XOR z))"
definition md5_G :: "u32 \<Rightarrow> u32 \<Rightarrow> u32 \<Rightarrow> u32" where "md5_G x y z = y XOR (z AND (y XOR x))"
definition md5_H :: "u32 \<Rightarrow> u32 \<Rightarrow> u32 \<Rightarrow> u32" where "md5_H x y z = x XOR y XOR z"
definition md5_I :: "u32 \<Rightarrow> u32 \<Rightarrow> u32 \<Rightarrow> u32" where "md5_I x y z = y XOR (x OR NOT z)"

definition md5_tab :: "u32 list" where
  "md5_tab =
    [0xd76aa478, 0xe8c7b756, 0x242070db, 0xc1bdceee, 0xf57c0faf, 0x4787c62a, 0xa8304613, 0xfd469501,
     0x698098d8, 0x8b44f7af, 0xffff5bb1, 0x895cd7be, 0x6b901122, 0xfd987193, 0xa679438e, 0x49b40821,
     0xf61e2562, 0xc040b340, 0x265e5a51, 0xe9b6c7aa, 0xd62f105d, 0x02441453, 0xd8a1e681, 0xe7d3fbc8,
     0x21e1cde6, 0xc33707d6, 0xf4d50d87, 0x455a14ed, 0xa9e3e905, 0xfcefa3f8, 0x676f02d9, 0x8d2a4c8a,
     0xfffa3942, 0x8771f681, 0x6d9d6122, 0xfde5380c, 0xa4beea44, 0x4bdecfa9, 0xf6bb4b60, 0xbebfbc70,
     0x289b7ec6, 0xeaa127fa, 0xd4ef3085, 0x04881d05, 0xd9d4d039, 0xe6db99e5, 0x1fa27cf8, 0xc4ac5665,
     0xf4292244, 0x432aff97, 0xab9423a7, 0xfc93a039, 0x655b59c3, 0x8f0ccc92, 0xffeff47d, 0x85845dd1,
     0x6fa87e4f, 0xfe2ce6e0, 0xa3014314, 0x4e0811a1, 0xf7537e82, 0xbd3af235, 0x2ad7d2bb, 0xeb86d391]"

definition md5_words :: "byte list \<Rightarrow> u32 list" where
  "md5_words b =
     map (\<lambda>i. ucast (b ! (4 * i)) OR push_bit 8 (ucast (b ! (4 * i + 1))) OR
               push_bit 16 (ucast (b ! (4 * i + 2))) OR push_bit 24 (ucast (b ! (4 * i + 3)))) [0..<16]"

text \<open>
  One macro step: the new \<open>a\<close> from \<open>(a, b, c, d)\<close>. The four macros of a group rotate the roles
  of the variables, so a step is followed by the rotation \<open>(d, a, b, c)\<close>.
\<close>

type_synonym md5_regs = "u32 \<times> u32 \<times> u32 \<times> u32"

definition md5_step :: "(u32 \<Rightarrow> u32 \<Rightarrow> u32 \<Rightarrow> u32) \<Rightarrow> u32 \<Rightarrow> nat \<Rightarrow> u32 \<Rightarrow> md5_regs \<Rightarrow> md5_regs" where
  "md5_step f w s t r = (case r of (a, b, c, d) \<Rightarrow> (d, rol (a + (f b c d + w + t)) s + b, b, c))"

definition md5_round :: "u32 list \<Rightarrow> nat \<Rightarrow> md5_regs \<Rightarrow> md5_regs" where
  "md5_round W i =
     (if i < 16 then md5_step md5_F (W ! i) ([7, 12, 17, 22] ! (i mod 4)) (md5_tab ! i)
      else if i < 32 then md5_step md5_G (W ! ((5 * i + 1) mod 16)) ([5, 9, 14, 20] ! (i mod 4)) (md5_tab ! i)
      else if i < 48 then md5_step md5_H (W ! ((3 * i + 5) mod 16)) ([4, 11, 16, 23] ! (i mod 4)) (md5_tab ! i)
      else md5_step md5_I (W ! (7 * i mod 16)) ([6, 10, 15, 21] ! (i mod 4)) (md5_tab ! i))"

definition md5_block :: "u32 list \<Rightarrow> byte list \<Rightarrow> u32 list" where
  "md5_block h b =
     (case foldl (\<lambda>r i. md5_round (md5_words b) i r) (h ! 0, h ! 1, h ! 2, h ! 3) [0..<64] of
        (a, b, c, d) \<Rightarrow> [h ! 0 + a, h ! 1 + b, h ! 2 + c, h ! 3 + d])"

definition md5_init :: "u32 hash_ctx \<Rightarrow> u32 hash_ctx" where
  "md5_init s = s\<lparr>hlen := 0, hst := [0x67452301, 0xefcdab89, 0x98badcfe, 0x10325476]\<rparr>"

definition md5_update :: "u32 hash_ctx \<Rightarrow> byte list \<Rightarrow> u32 hash_ctx" where
  "md5_update = hash_update 64 md5_block"

definition md5_pad :: "u32 hash_ctx \<Rightarrow> u32 hash_ctx" where
  "md5_pad = hash_pad 64 56 56 le_len md5_block"

definition md5_out :: "u32 list \<Rightarrow> byte list" where
  "md5_out h = concat (map (\<lambda>w. map (\<lambda>i. ucast (drop_bit (8 * i) w)) [0..<4]) h)"

definition md5_sum :: "u32 hash_ctx \<Rightarrow> u32 hash_ctx \<times> byte list" where
  "md5_sum s = (let s = md5_pad s in (s, md5_out (hst s)))"

section \<open>SHA-256 and SHA-512\<close>

definition ror :: "'w::len word \<Rightarrow> nat \<Rightarrow> 'w word" where
  "ror n k = drop_bit k n OR push_bit (LENGTH('w) - k) n"

definition Ch :: "'w::len word \<Rightarrow> 'w word \<Rightarrow> 'w word \<Rightarrow> 'w word" where
  "Ch x y z = z XOR (x AND (y XOR z))"

definition Maj :: "'w::len word \<Rightarrow> 'w word \<Rightarrow> 'w word \<Rightarrow> 'w word" where
  "Maj x y z = (x AND y) OR (z AND (x OR y))"

definition S0_256 :: "u32 \<Rightarrow> u32" where "S0_256 x = ror x 2 XOR ror x 13 XOR ror x 22"
definition S1_256 :: "u32 \<Rightarrow> u32" where "S1_256 x = ror x 6 XOR ror x 11 XOR ror x 25"
definition R0_256 :: "u32 \<Rightarrow> u32" where "R0_256 x = ror x 7 XOR ror x 18 XOR drop_bit 3 x"
definition R1_256 :: "u32 \<Rightarrow> u32" where "R1_256 x = ror x 17 XOR ror x 19 XOR drop_bit 10 x"
definition S0_512 :: "u64 \<Rightarrow> u64" where "S0_512 x = ror x 28 XOR ror x 34 XOR ror x 39"
definition S1_512 :: "u64 \<Rightarrow> u64" where "S1_512 x = ror x 14 XOR ror x 18 XOR ror x 41"
definition R0_512 :: "u64 \<Rightarrow> u64" where "R0_512 x = ror x 1 XOR ror x 8 XOR drop_bit 7 x"
definition R1_512 :: "u64 \<Rightarrow> u64" where "R1_512 x = ror x 19 XOR ror x 61 XOR drop_bit 6 x"

definition K_256 :: "u32 list" where
  "K_256 =
    [0x428a2f98, 0x71374491, 0xb5c0fbcf, 0xe9b5dba5, 0x3956c25b, 0x59f111f1, 0x923f82a4, 0xab1c5ed5,
     0xd807aa98, 0x12835b01, 0x243185be, 0x550c7dc3, 0x72be5d74, 0x80deb1fe, 0x9bdc06a7, 0xc19bf174,
     0xe49b69c1, 0xefbe4786, 0x0fc19dc6, 0x240ca1cc, 0x2de92c6f, 0x4a7484aa, 0x5cb0a9dc, 0x76f988da,
     0x983e5152, 0xa831c66d, 0xb00327c8, 0xbf597fc7, 0xc6e00bf3, 0xd5a79147, 0x06ca6351, 0x14292967,
     0x27b70a85, 0x2e1b2138, 0x4d2c6dfc, 0x53380d13, 0x650a7354, 0x766a0abb, 0x81c2c92e, 0x92722c85,
     0xa2bfe8a1, 0xa81a664b, 0xc24b8b70, 0xc76c51a3, 0xd192e819, 0xd6990624, 0xf40e3585, 0x106aa070,
     0x19a4c116, 0x1e376c08, 0x2748774c, 0x34b0bcb5, 0x391c0cb3, 0x4ed8aa4a, 0x5b9cca4f, 0x682e6ff3,
     0x748f82ee, 0x78a5636f, 0x84c87814, 0x8cc70208, 0x90befffa, 0xa4506ceb, 0xbef9a3f7, 0xc67178f2]"

definition K_512 :: "u64 list" where
  "K_512 =
    [0x428a2f98d728ae22, 0x7137449123ef65cd, 0xb5c0fbcfec4d3b2f, 0xe9b5dba58189dbbc,
     0x3956c25bf348b538, 0x59f111f1b605d019, 0x923f82a4af194f9b, 0xab1c5ed5da6d8118,
     0xd807aa98a3030242, 0x12835b0145706fbe, 0x243185be4ee4b28c, 0x550c7dc3d5ffb4e2,
     0x72be5d74f27b896f, 0x80deb1fe3b1696b1, 0x9bdc06a725c71235, 0xc19bf174cf692694,
     0xe49b69c19ef14ad2, 0xefbe4786384f25e3, 0x0fc19dc68b8cd5b5, 0x240ca1cc77ac9c65,
     0x2de92c6f592b0275, 0x4a7484aa6ea6e483, 0x5cb0a9dcbd41fbd4, 0x76f988da831153b5,
     0x983e5152ee66dfab, 0xa831c66d2db43210, 0xb00327c898fb213f, 0xbf597fc7beef0ee4,
     0xc6e00bf33da88fc2, 0xd5a79147930aa725, 0x06ca6351e003826f, 0x142929670a0e6e70,
     0x27b70a8546d22ffc, 0x2e1b21385c26c926, 0x4d2c6dfc5ac42aed, 0x53380d139d95b3df,
     0x650a73548baf63de, 0x766a0abb3c77b2a8, 0x81c2c92e47edaee6, 0x92722c851482353b,
     0xa2bfe8a14cf10364, 0xa81a664bbc423001, 0xc24b8b70d0f89791, 0xc76c51a30654be30,
     0xd192e819d6ef5218, 0xd69906245565a910, 0xf40e35855771202a, 0x106aa07032bbd1b8,
     0x19a4c116b8d2d0c8, 0x1e376c085141ab53, 0x2748774cdf8eeb99, 0x34b0bcb5e19b48a8,
     0x391c0cb3c5c95a63, 0x4ed8aa4ae3418acb, 0x5b9cca4f7763e373, 0x682e6ff3d6b2b8a3,
     0x748f82ee5defb2fc, 0x78a5636f43172f60, 0x84c87814a1f0ab72, 0x8cc702081a6439ec,
     0x90befffa23631e28, 0xa4506cebde82bde9, 0xbef9a3f7b2c67915, 0xc67178f2e372532b,
     0xca273eceea26619c, 0xd186b8c721c0c207, 0xeada7dd6cde0eb1e, 0xf57d4f7fee6ed178,
     0x06f067aa72176fba, 0x0a637dc5a2c898a6, 0x113f9804bef90dae, 0x1b710b35131c471b,
     0x28db77f523047d84, 0x32caab7b40c72493, 0x3c9ebe0a15c9bebc, 0x431d67c49c100d4c,
     0x4cc5d4becb3e42b6, 0x597f299cfc657e2a, 0x5fcb6fab3ad6faec, 0x6c44198c4a475817]"

text \<open>Big-endian words of \<open>n\<close> bytes, the message schedule, and the rounds.\<close>

definition be_words :: "nat \<Rightarrow> byte list \<Rightarrow> 'w::len word list" where
  "be_words n b =
     map (\<lambda>i. foldl (\<lambda>w j. push_bit 8 w OR ucast (b ! (n * i + j))) 0 [0..<n]) [0..<16]"

fun sha_schedule :: "('w::len word \<Rightarrow> 'w word) \<Rightarrow> ('w word \<Rightarrow> 'w word) \<Rightarrow> nat \<Rightarrow> 'w word list \<Rightarrow> 'w word list" where
  "sha_schedule R0 R1 0 W = W"
| "sha_schedule R0 R1 (Suc n) W =
     (let i = length W
      in sha_schedule R0 R1 n (W @ [R1 (W ! (i - 2)) + W ! (i - 7) + R0 (W ! (i - 15)) + W ! (i - 16)]))"

definition sha_round :: "('w::len word \<Rightarrow> 'w word) \<Rightarrow> ('w word \<Rightarrow> 'w word) \<Rightarrow> 'w word \<Rightarrow> 'w word list \<Rightarrow> 'w word list" where
  "sha_round S0 S1 kw r =
     (let a = r ! 0; b = r ! 1; c = r ! 2; d = r ! 3; e = r ! 4; f = r ! 5; g = r ! 6; h = r ! 7;
          t1 = h + S1 e + Ch e f g + kw;
          t2 = S0 a + Maj a b c
      in [t1 + t2, a, b, c, d + t1, e, f, g])"

definition sha256_block :: "u32 list \<Rightarrow> byte list \<Rightarrow> u32 list" where
  "sha256_block h b =
     (let W = sha_schedule R0_256 R1_256 48 (be_words 4 b)
      in map2 (+) h (foldl (\<lambda>r i. sha_round S0_256 S1_256 (K_256 ! i + W ! i) r) h [0..<64]))"

definition sha512_block :: "u64 list \<Rightarrow> byte list \<Rightarrow> u64 list" where
  "sha512_block h b =
     (let W = sha_schedule R0_512 R1_512 64 (be_words 8 b)
      in map2 (+) h (foldl (\<lambda>r i. sha_round S0_512 S1_512 (K_512 ! i + W ! i) r) h [0..<80]))"

definition sha256_init :: "u32 hash_ctx \<Rightarrow> u32 hash_ctx" where
  "sha256_init s = s\<lparr>hlen := 0,
     hst := [0x6a09e667, 0xbb67ae85, 0x3c6ef372, 0xa54ff53a, 0x510e527f, 0x9b05688c, 0x1f83d9ab, 0x5be0cd19]\<rparr>"

definition sha512_init :: "u64 hash_ctx \<Rightarrow> u64 hash_ctx" where
  "sha512_init s = s\<lparr>hlen := 0,
     hst := [0x6a09e667f3bcc908, 0xbb67ae8584caa73b, 0x3c6ef372fe94f82b, 0xa54ff53a5f1d36f1,
             0x510e527fade682d1, 0x9b05688c2b3e6c1f, 0x1f83d9abfb41bd6b, 0x5be0cd19137e2179]\<rparr>"

definition sha256_update :: "u32 hash_ctx \<Rightarrow> byte list \<Rightarrow> u32 hash_ctx" where
  "sha256_update = hash_update 64 sha256_block"

definition sha512_update :: "u64 hash_ctx \<Rightarrow> byte list \<Rightarrow> u64 hash_ctx" where
  "sha512_update = hash_update 128 sha512_block"

definition sha256_pad :: "u32 hash_ctx \<Rightarrow> u32 hash_ctx" where
  "sha256_pad = hash_pad 64 56 56 be_len sha256_block"

definition sha512_pad :: "u64 hash_ctx \<Rightarrow> u64 hash_ctx" where
  "sha512_pad = hash_pad 128 112 120 be_len sha512_block"

definition be_out :: "nat \<Rightarrow> 'w::len word list \<Rightarrow> byte list" where
  "be_out n h = concat (map (\<lambda>w. map (\<lambda>i. ucast (drop_bit (8 * (n - 1 - i)) w)) [0..<n]) h)"

definition sha256_sum :: "u32 hash_ctx \<Rightarrow> u32 hash_ctx \<times> byte list" where
  "sha256_sum s = (let s = sha256_pad s in (s, be_out 4 (hst s)))"

definition sha512_sum :: "u64 hash_ctx \<Rightarrow> u64 hash_ctx \<times> byte list" where
  "sha512_sum s = (let s = sha512_pad s in (s, be_out 8 (hst s)))"

section \<open>Correctness of the interface\<close>

text \<open>
  The reference: a message is padded with \<open>0x80\<close>, zeros up to \<open>L\<close> modulo the block size, the
  high length bytes (always zero) and the length in bits, and hashed block by block.
\<close>

definition padding :: "nat \<Rightarrow> nat \<Rightarrow> nat \<Rightarrow> (u64 \<Rightarrow> byte list) \<Rightarrow> nat \<Rightarrow> byte list" where
  "padding B L Z lenb n =
     0x80 # replicate ((L + B - Suc n mod B) mod B) 0 @ replicate (Z - L) 0 @ lenb (of_nat n * 8)"

definition hash_ref :: "nat \<Rightarrow> nat \<Rightarrow> nat \<Rightarrow> (u64 \<Rightarrow> byte list) \<Rightarrow> ('w list \<Rightarrow> byte list \<Rightarrow> 'w list) \<Rightarrow> 'w list \<Rightarrow> byte list \<Rightarrow> 'w list" where
  "hash_ref B L Z lenb pb h0 M = fst (hash_blocks B pb h0 (M @ padding B L Z lenb (length M)))"

text \<open>The context after the message \<open>M\<close>.\<close>

definition absorbed :: "nat \<Rightarrow> ('w list \<Rightarrow> byte list \<Rightarrow> 'w list) \<Rightarrow> 'w list \<Rightarrow> 'w hash_ctx \<Rightarrow> byte list \<Rightarrow> bool" where
  "absorbed B pb h0 s M \<longleftrightarrow>
     length (hbuf s) = B \<and> hlen s = of_nat (length M) \<and>
     (\<exists>rest. hash_blocks B pb h0 M = (hst s, rest) \<and> take (length rest) (hbuf s) = rest)"

lemma hash_blocks_rest: "0 < B \<Longrightarrow> length (snd (hash_blocks B pb h p)) = length p mod B"
proof (induction B pb h p rule: hash_blocks.induct)
  case (1 B pb h p)
  show ?case
  proof (cases "B \<le> length p")
    case True
    have "hash_blocks B pb h p = hash_blocks B pb (pb h (take B p)) (drop B p)"
      using 1(2) True by (subst hash_blocks.simps) simp
    then show ?thesis using 1 True by (simp add: le_mod_geq)
  next
    case False
    then show ?thesis by (subst hash_blocks.simps) simp
  qed
qed

lemma hash_blocks_append:
  "0 < B \<Longrightarrow> hash_blocks B pb h (M @ p) = (case hash_blocks B pb h M of (h', rest) \<Rightarrow> hash_blocks B pb h' (rest @ p))"
proof (induction B pb h M rule: hash_blocks.induct)
  case (1 B pb h M)
  show ?case
  proof (cases "B \<le> length M")
    case True
    have "hash_blocks B pb h M = hash_blocks B pb (pb h (take B M)) (drop B M)"
      using 1(2) True by (subst hash_blocks.simps) simp
    moreover have "hash_blocks B pb h (M @ p) = hash_blocks B pb (pb h (take B M)) (drop B M @ p)"
      using 1(2) True by (subst hash_blocks.simps) simp
    ultimately show ?thesis using 1 True by simp
  next
    case False
    then have "hash_blocks B pb h M = (h, M)" by (subst hash_blocks.simps) simp
    then show ?thesis by simp
  qed
qed

lemma hash_blocks_small: "length p < B \<Longrightarrow> hash_blocks B pb h p = (h, p)"
  by (subst hash_blocks.simps) simp

lemma hash_blocks_one: "0 < B \<Longrightarrow> length b = B \<Longrightarrow> hash_blocks B pb h (b @ p) = hash_blocks B pb (pb h b) p"
  by (subst hash_blocks.simps) simp

locale block_hash =
  fixes B L Z :: nat and lenb :: "u64 \<Rightarrow> byte list" and pb :: "'w list \<Rightarrow> byte list \<Rightarrow> 'w list" and h0 :: "'w list"
  assumes B_pos: "0 < B" and B_dvd: "B dvd 2 ^ 64" and B_small: "B < 2 ^ 64"
    and L_le: "L \<le> Z" and Z_B: "Z + 8 = B" and L_pos: "0 < L" and lenb_8: "length (lenb v) = 8"
begin

lemma len_mod: "hlen s = of_nat n \<Longrightarrow> unat (hlen s mod of_nat B) = n mod B"
proof -
  assume h: "hlen s = of_nat n"
  have "unat (of_nat B :: u64) = B" using B_small by (simp add: unat_of_nat)
  then have "unat (hlen s mod of_nat B) = n mod 2 ^ 64 mod B" by (simp add: h unat_mod unat_of_nat)
  also have "\<dots> = n mod B" using B_dvd by (rule mod_mod_cancel)
  finally show ?thesis .
qed

lemma absorbed_tail:
  assumes l: "length (hbuf s) = B" and h: "hlen s = of_nat (length M)"
    and hb: "hash_blocks B pb h0 M = hash_blocks B pb (hst s) p"
  shows "absorbed B pb h0 (hash_tail B pb s p) M"
proof -
  obtain h' rest where e: "hash_blocks B pb (hst s) p = (h', rest)" by (cases "hash_blocks B pb (hst s) p")
  then have "length rest < B" using hash_blocks_rest [OF B_pos, of pb "hst s" p] B_pos by simp
  then show ?thesis using l h hb e by (simp add: absorbed_def hash_tail_def blit_def)
qed

lemma update_absorbed:
  assumes a: "absorbed B pb h0 s M"
  shows "absorbed B pb h0 (hash_update B pb s p) (M @ p)"
proof -
  obtain rest where l: "length (hbuf s) = B" and h: "hlen s = of_nat (length M)"
      and hb: "hash_blocks B pb h0 M = (hst s, rest)" and t: "take (length rest) (hbuf s) = rest"
    using a by (auto simp: absorbed_def)
  define r where "r = length M mod B"
  have r: "length rest = r" "r < B" using hash_blocks_rest [OF B_pos, of pb h0 M] hb B_pos by (simp_all add: r_def)
  have ur: "unat (hlen s mod of_nat B) = r" unfolding r_def by (rule len_mod [OF h])
  have app: "hash_blocks B pb h0 (M @ p) = hash_blocks B pb (hst s) (rest @ p)"
    using hash_blocks_append [OF B_pos, of pb h0 M p] hb by simp
  have hl: "hlen s + of_nat (length p) = of_nat (length (M @ p))" by (simp add: h)
  show ?thesis
  proof (cases "r = 0")
    case True
    then have "hash_update B pb s p = hash_tail B pb (s\<lparr>hlen := hlen s + of_nat (length p)\<rparr>) p"
      by (simp add: hash_update_def ur)
    moreover have "absorbed B pb h0 (hash_tail B pb (s\<lparr>hlen := hlen s + of_nat (length p)\<rparr>) p) (M @ p)"
      using app l True r hl by (intro absorbed_tail) simp_all
    ultimately show ?thesis by simp
  next
    case r0: False
    show ?thesis
    proof (cases "length p < B - r")
      case True
      then have "hash_update B pb s p = s\<lparr>hlen := hlen s + of_nat (length p), hbuf := blit (hbuf s) r p\<rparr>"
        using r0 by (simp add: hash_update_def ur Let_def)
      moreover have "hash_blocks B pb (hst s) (rest @ p) = (hst s, rest @ p)"
        using True r by (intro hash_blocks_small) simp
      moreover have "take (length (rest @ p)) (blit (hbuf s) r p) = rest @ p" "length (blit (hbuf s) r p) = B"
        using True r l t by (auto simp: blit_def)
      ultimately show ?thesis using app hl by (simp add: absorbed_def)
    next
      case False
      define b where "b = blit (hbuf s) r (take (B - r) p)"
      have b: "b = rest @ take (B - r) p" "length b = B"
        using False r l t by (auto simp: b_def blit_def)
      have u: "hash_update B pb s p =
          hash_tail B pb (s\<lparr>hlen := hlen s + of_nat (length p), hbuf := b, hst := pb (hst s) b\<rparr>) (drop (B - r) p)"
        using False r0 by (simp add: hash_update_def ur Let_def b_def)
      have "rest @ p = b @ drop (B - r) p" by (simp add: b)
      then have "hash_blocks B pb h0 (M @ p) = hash_blocks B pb (pb (hst s) b) (drop (B - r) p)"
        using app hash_blocks_one [OF B_pos b(2)] by simp
      then show ?thesis unfolding u using b(2) hl by (intro absorbed_tail) simp_all
    qed
  qed
qed

lemma pad_state:
  assumes a: "absorbed B pb h0 s M"
  shows "hst (hash_pad B L Z lenb pb s) = hash_ref B L Z lenb pb h0 M"
proof -
  obtain rest where l: "length (hbuf s) = B" and h: "hlen s = of_nat (length M)"
      and hb: "hash_blocks B pb h0 M = (hst s, rest)" and t: "take (length rest) (hbuf s) = rest"
    using a by (auto simp: absorbed_def)
  define r where "r = length M mod B"
  have r: "length rest = r" "r < B" using hash_blocks_rest [OF B_pos, of pb h0 M] hb B_pos by (simp_all add: r_def)
  have ur: "unat (hlen s mod of_nat B) = r" unfolding r_def by (rule len_mod [OF h])
  define b0 where "b0 = (hbuf s)[r := 0x80]"
  have b0: "take (Suc r) b0 = rest @ [0x80]" "length b0 = B"
    using r l t by (simp_all add: b0_def take_Suc_conv_app_nth)
  have ref: "hash_ref B L Z lenb pb h0 M =
      fst (hash_blocks B pb (hst s) (rest @ padding B L Z lenb (length M)))"
    unfolding hash_ref_def using hash_blocks_append [OF B_pos, of pb h0 M] hb by simp
  define k where "k = (L + B - Suc (length M) mod B) mod B"
  have sm: "Suc (length M) mod B = Suc r mod B" by (simp add: r_def mod_Suc_eq)
  show ?thesis
  proof (cases "L < r + 1")
    case False
    have "Suc r mod B = Suc r" using False L_le Z_B by simp
    moreover have "L + B - Suc r = (L - Suc r) + B" using False by simp
    ultimately have k: "k = L - Suc r" using L_le Z_B by (simp only: k_def sm mod_add_self2) simp
    define b1 where "b1 = blit (blit b0 (r + 1) (replicate (Z - (r + 1)) 0)) Z (lenb (hlen s * 8))"
    have "b1 = rest @ [0x80] @ replicate (Z - Suc r) 0 @ lenb (hlen s * 8)"
      using b0 r False L_le Z_B lenb_8 by (simp add: b1_def blit_def Suc_diff_Suc [symmetric])
    also have "replicate (Z - Suc r) (0 :: byte) = replicate k 0 @ replicate (Z - L) 0"
      using False L_le by (simp add: k flip: replicate_add)
    finally have b1: "b1 = rest @ padding B L Z lenb (length M)"
      by (simp add: padding_def k_def h)
    have "length b1 = B" using b0 r False L_le Z_B lenb_8 by (simp add: b1_def blit_def)
    then have "hash_ref B L Z lenb pb h0 M = pb (hst s) b1"
      unfolding ref b1 [symmetric] using hash_blocks_one [OF B_pos, of b1 pb "hst s" "[]"] B_pos
      by (simp add: hash_blocks_small)
    moreover have "hst (hash_pad B L Z lenb pb s) = pb (hst s) b1"
      using False by (simp add: hash_pad_def ur Let_def b0_def b1_def)
    ultimately show ?thesis by simp
  next
    case True
    define b1 where "b1 = blit b0 (r + 1) (replicate (B - (r + 1)) 0)"
    have b1: "b1 = rest @ [0x80] @ replicate (B - Suc r) 0" "length b1 = B"
      using b0 r by (simp_all add: b1_def blit_def)
    define b2 where "b2 = blit (blit b1 0 (replicate Z 0)) Z (lenb (hlen s * 8))"
    have b2: "b2 = replicate Z 0 @ lenb (hlen s * 8)" "length b2 = B"
      using b1(2) Z_B lenb_8 by (simp_all add: b2_def blit_def)
    have k: "replicate k (0 :: byte) = replicate (B - Suc r) 0 @ replicate L 0"
    proof (cases "Suc r = B")
      case True
      then show ?thesis unfolding k_def sm using L_le Z_B by simp
    next
      case False
      then have "Suc r mod B = Suc r" using r(2) by simp
      then have "k = (L + B - Suc r) mod B" by (simp only: k_def sm)
      also have "\<dots> = (B - Suc r) + L" using True r(2) by simp
      finally show ?thesis by (simp add: replicate_add)
    qed
    have z: "replicate L (0 :: byte) @ replicate (Z - L) 0 = replicate Z 0"
      using L_le by (simp flip: replicate_add)
    have "rest @ padding B L Z lenb (length M) = b1 @ b2"
      unfolding padding_def k_def [symmetric] k b1(1) b2(1) by (simp add: h flip: z)
    then have "hash_ref B L Z lenb pb h0 M = pb (pb (hst s) b1) b2"
      unfolding ref using hash_blocks_one [OF B_pos b1(2), of pb "hst s" b2] hash_blocks_one [OF B_pos b2(2), of pb "pb (hst s) b1" "[]"] B_pos
      by (simp add: hash_blocks_small)
    moreover have "hst (hash_pad B L Z lenb pb s) = pb (pb (hst s) b1) b2"
      using True by (simp add: hash_pad_def ur Let_def b0_def b1_def b2_def)
    ultimately show ?thesis by simp
  qed
qed

text \<open>Any way of cutting a message into calls gives the hash of the whole message.\<close>

lemma updates_absorbed: "absorbed B pb h0 s M \<Longrightarrow> absorbed B pb h0 (foldl (hash_update B pb) s ps) (M @ concat ps)"
proof (induction ps arbitrary: s M)
  case (Cons p ps)
  from Cons.IH [OF update_absorbed [OF Cons.prems, of p]] show ?case by simp
qed simp

lemma chunks_hash:
  assumes "absorbed B pb h0 s []"
  shows "hst (hash_pad B L Z lenb pb (foldl (hash_update B pb) s ps)) = hash_ref B L Z lenb pb h0 (concat ps)"
  using pad_state [OF updates_absorbed [OF assms]] by simp

end

interpretation md5: block_hash 64 56 56 le_len md5_block h0 for h0
  by unfold_locales (simp_all add: le_len_def)

interpretation sha256: block_hash 64 56 56 be_len sha256_block h0 for h0
  by unfold_locales (simp_all add: be_len_def)

interpretation sha512: block_hash 128 112 120 be_len sha512_block h0 for h0
  by unfold_locales (simp_all add: be_len_def)

lemma absorbed_init: "length (hbuf s) = B \<Longrightarrow> 0 < B \<Longrightarrow> hlen s = 0 \<Longrightarrow> absorbed B pb (hst s) s []"
  by (simp add: absorbed_def hash_blocks_small)

lemma md5_chunks:
  assumes "length (hbuf s) = 64"
  shows "snd (md5_sum (foldl md5_update (md5_init s) ps)) =
    md5_out (hash_ref 64 56 56 le_len md5_block (hst (md5_init s)) (concat ps))"
  using md5.chunks_hash [OF absorbed_init, of "md5_init s" ps] assms
  by (simp add: md5_sum_def md5_pad_def md5_update_def md5_init_def Let_def)

lemma sha256_chunks:
  assumes "length (hbuf s) = 64"
  shows "snd (sha256_sum (foldl sha256_update (sha256_init s) ps)) =
    be_out 4 (hash_ref 64 56 56 be_len sha256_block (hst (sha256_init s)) (concat ps))"
  using sha256.chunks_hash [OF absorbed_init, of "sha256_init s" ps] assms
  by (simp add: sha256_sum_def sha256_pad_def sha256_update_def sha256_init_def Let_def)

lemma sha512_chunks:
  assumes "length (hbuf s) = 128"
  shows "snd (sha512_sum (foldl sha512_update (sha512_init s) ps)) =
    be_out 8 (hash_ref 128 112 120 be_len sha512_block (hst (sha512_init s)) (concat ps))"
  using sha512.chunks_hash [OF absorbed_init, of "sha512_init s" ps] assms
  by (simp add: sha512_sum_def sha512_pad_def sha512_update_def sha512_init_def Let_def)

end
