(* ===== verification/Tsearch.thy ===== *)
theory Tsearch
  imports Mem "HOL-Library.Tree"
begin

text \<open>
  The balanced search trees of \<open>search/tsearch_avl.c\<close>: \<open>tsearch\<close>, \<open>tfind\<close>, \<open>tdelete\<close> and \<open>twalk\<close> with their
  static functions, over a heap of nodes that is a partial map from addresses, so that following a null or a freed
  pointer is \<open>None\<close>. \<open>tree_at\<close> ties a tree of addresses and keys to the heap, with the heights the nodes store;
  \<open>search_tree\<close> adds balance and order. Every operation is shown to return and to keep \<open>search_tree\<close>, nodes that
  the tree does not own are left alone, and a session of operations answers as a set of keys does.
\<close>

section \<open>Nodes\<close>

record node =
  nkey :: u64
  nleft :: addr
  nright :: addr
  nheight :: u32

type_synonym nheap = "addr \<Rightarrow> node option"

section \<open>The code\<close>

text \<open>\<open>p ? p->height : 0\<close>\<close>

definition child_height :: "nheap \<Rightarrow> addr \<Rightarrow> u32 option" where
  "child_height h p = (if p = 0 then Some 0 else map_option nheight (h p))"

definition delta :: "nheap \<Rightarrow> addr \<Rightarrow> u32 option" where
  "delta h n = do { d \<leftarrow> h n; a \<leftarrow> child_height h (nleft d); b \<leftarrow> child_height h (nright d); Some (a - b) }"

text \<open>\<open>if (c && c->height > n->height) n->height = c->height;\<close>\<close>

definition raise_height :: "nheap \<Rightarrow> addr \<Rightarrow> addr \<Rightarrow> nheap option" where
  "raise_height h n c =
     (if c = 0 then Some h
      else do { e \<leftarrow> h c; d \<leftarrow> h n;
                Some (if nheight d <s nheight e then h(n \<mapsto> d\<lparr>nheight := nheight e\<rparr>) else h) })"

definition updateheight :: "nheap \<Rightarrow> addr \<Rightarrow> nheap option" where
  "updateheight h n =
     do { d \<leftarrow> h n;
          let h = h(n \<mapsto> d\<lparr>nheight := 0\<rparr>);
          h \<leftarrow> raise_height h n (nleft d);
          h \<leftarrow> raise_height h n (nright d);
          d \<leftarrow> h n;
          Some (h(n \<mapsto> d\<lparr>nheight := nheight d + 1\<rparr>)) }"

definition rotl :: "nheap \<Rightarrow> addr \<Rightarrow> (addr \<times> nheap) option" where
  "rotl h n =
     do { d \<leftarrow> h n;
          let r = nright d;
          e \<leftarrow> h r;
          let h = h(n \<mapsto> d\<lparr>nright := nleft e\<rparr>);
          e \<leftarrow> h r;
          let h = h(r \<mapsto> e\<lparr>nleft := n\<rparr>);
          h \<leftarrow> updateheight h n;
          h \<leftarrow> updateheight h r;
          Some (r, h) }"

definition rotr :: "nheap \<Rightarrow> addr \<Rightarrow> (addr \<times> nheap) option" where
  "rotr h n =
     do { d \<leftarrow> h n;
          let l = nleft d;
          e \<leftarrow> h l;
          let h = h(n \<mapsto> d\<lparr>nleft := nright e\<rparr>);
          e \<leftarrow> h l;
          let h = h(l \<mapsto> e\<lparr>nright := n\<rparr>);
          h \<leftarrow> updateheight h n;
          h \<leftarrow> updateheight h l;
          Some (l, h) }"

definition balance :: "nheap \<Rightarrow> addr \<Rightarrow> (addr \<times> nheap) option" where
  "balance h n =
     do { d \<leftarrow> delta h n;
          if d <s - 1 then
            do { e \<leftarrow> h n;
                 c \<leftarrow> delta h (nright e);
                 h \<leftarrow> (if 0 <s c then
                          do { (r, h) \<leftarrow> rotr h (nright e); e \<leftarrow> h n; Some (h(n \<mapsto> e\<lparr>nright := r\<rparr>)) }
                        else Some h);
                 rotl h n }
          else if 1 <s d then
            do { e \<leftarrow> h n;
                 c \<leftarrow> delta h (nleft e);
                 h \<leftarrow> (if c <s 0 then
                          do { (l, h) \<leftarrow> rotl h (nleft e); e \<leftarrow> h n; Some (h(n \<mapsto> e\<lparr>nleft := l\<rparr>)) }
                        else Some h);
                 rotr h n }
          else do { h \<leftarrow> updateheight h n; Some (n, h) } }"

partial_function (option) find_node :: "(u64 \<Rightarrow> u64 \<Rightarrow> u32) \<Rightarrow> nheap \<Rightarrow> addr \<Rightarrow> u64 \<Rightarrow> addr option" where
  "find_node cmp h n k =
     (if n = 0 then Some 0
      else do { d \<leftarrow> h n;
                let c = cmp k (nkey d);
                if c = 0 then Some n
                else if c <s 0 then find_node cmp h (nleft d) k
                else find_node cmp h (nright d) k })"

text \<open>
  \<open>malloc\<close> is a parameter over the state \<open>'x\<close> of the allocator. The result is the new root or 0,
  and what \<open>*found\<close> holds.
\<close>

partial_function (option) insert_node ::
  "(u64 \<Rightarrow> u64 \<Rightarrow> u32) \<Rightarrow> ('x \<Rightarrow> addr \<times> 'x) \<Rightarrow> addr \<Rightarrow> u64 \<Rightarrow> nheap \<Rightarrow> 'x \<Rightarrow> ((addr \<times> addr) \<times> nheap \<times> 'x) option" where
  "insert_node cmp malloc n k h x =
     (if n = 0 then
        (let (n, x) = malloc x;
             h = (if n \<noteq> 0 then h(n \<mapsto> \<lparr>nkey = k, nleft = 0, nright = 0, nheight = 1\<rparr>) else h)
         in Some ((n, n), h, x))
      else do { d \<leftarrow> h n;
                let c = cmp k (nkey d);
                if c = 0 then Some ((0, n), h, x)
                else do { ((r, found), h, x) \<leftarrow> insert_node cmp malloc (if c <s 0 then nleft d else nright d) k h x;
                          if r \<noteq> 0 then
                            do { d \<leftarrow> h n;
                                 let h = (if c <s 0 then h(n \<mapsto> d\<lparr>nleft := r\<rparr>) else h(n \<mapsto> d\<lparr>nright := r\<rparr>));
                                 (r, h) \<leftarrow> balance h n;
                                 Some ((r, found), h, x) }
                          else Some ((r, found), h, x) } })"

text \<open>\<open>rootp\<close> is \<open>None\<close> for a null pointer, or the root it points to.\<close>

definition tsearch :: "(u64 \<Rightarrow> u64 \<Rightarrow> u32) \<Rightarrow> ('x \<Rightarrow> addr \<times> 'x) \<Rightarrow> u64 \<Rightarrow> addr option \<Rightarrow> nheap \<Rightarrow> 'x \<Rightarrow>
    (addr \<times> addr option \<times> nheap \<times> 'x) option" where
  "tsearch cmp malloc key rootp h x =
     (case rootp of None \<Rightarrow> Some (0, None, h, x)
      | Some root \<Rightarrow>
          do { ((update, found), h, x) \<leftarrow> insert_node cmp malloc root key h x;
               Some (found, Some (if update \<noteq> 0 then update else root), h, x) })"

definition tfind :: "(u64 \<Rightarrow> u64 \<Rightarrow> u32) \<Rightarrow> u64 \<Rightarrow> addr option \<Rightarrow> nheap \<Rightarrow> addr option" where
  "tfind cmp key rootp h = (case rootp of None \<Rightarrow> Some 0 | Some root \<Rightarrow> find_node cmp h root key)"

text \<open>A \<open>struct node **\<close>: the local \<open>n\<close> of \<open>tdelete\<close> or a member of a node.\<close>

datatype place = Root | LeftOf addr | RightOf addr

text \<open>The tree with the root variable.\<close>

type_synonym troot = "addr \<times> nheap"

fun peek :: "troot \<Rightarrow> place \<Rightarrow> addr option" where
  "peek (p, h) Root = Some p"
| "peek (p, h) (LeftOf a) = map_option nleft (h a)"
| "peek (p, h) (RightOf a) = map_option nright (h a)"

fun poke :: "troot \<Rightarrow> place \<Rightarrow> addr \<Rightarrow> troot option" where
  "poke (p, h) Root v = Some (v, h)"
| "poke (p, h) (LeftOf a) v = map_option (\<lambda>d. (p, h(a \<mapsto> d\<lparr>nleft := v\<rparr>))) (h a)"
| "poke (p, h) (RightOf a) v = map_option (\<lambda>d. (p, h(a \<mapsto> d\<lparr>nright := v\<rparr>))) (h a)"

partial_function (option) remove_rightmost :: "troot \<Rightarrow> addr \<Rightarrow> place \<Rightarrow> (addr \<times> troot) option" where
  "remove_rightmost s n out =
     do { d \<leftarrow> snd s n;
          if nright d = 0 then do { s \<leftarrow> poke s out n; d \<leftarrow> snd s n; Some (nleft d, s) }
          else do { (r, s) \<leftarrow> remove_rightmost s (nright d) out;
                    s \<leftarrow> poke s (RightOf n) r;
                    (n, h) \<leftarrow> balance (snd s) n;
                    Some (n, fst s, h) } }"

definition balance_at :: "troot \<Rightarrow> place \<Rightarrow> troot option" where
  "balance_at s n =
     do { p \<leftarrow> peek s n; (p, h) \<leftarrow> balance (snd s) p; poke (fst s, h) n p }"

text \<open>The removal of the node in \<open>*n\<close>. Freeing takes it from the heap.\<close>

definition unlink :: "troot \<Rightarrow> place \<Rightarrow> troot option" where
  "unlink s n =
     do { r \<leftarrow> peek s n;
          d \<leftarrow> snd s r;
          s \<leftarrow> (if nleft d \<noteq> 0 then
                   do { (l, s) \<leftarrow> remove_rightmost s (nleft d) n;
                        s \<leftarrow> poke s (LeftOf r) l;
                        p \<leftarrow> peek s n; l \<leftarrow> peek s (LeftOf r); s \<leftarrow> poke s (LeftOf p) l;
                        p \<leftarrow> peek s n; q \<leftarrow> peek s (RightOf r); s \<leftarrow> poke s (RightOf p) q;
                        balance_at s n }
                 else poke s n (nright d));
          Some (fst s, (snd s)(r := None)) }"

partial_function (option) remove_node ::
  "(u64 \<Rightarrow> u64 \<Rightarrow> u32) \<Rightarrow> troot \<Rightarrow> place \<Rightarrow> u64 \<Rightarrow> addr \<Rightarrow> (addr \<times> troot) option" where
  "remove_node cmp s n k parent =
     do { p \<leftarrow> peek s n;
          if p = 0 then Some (0, s)
          else do { d \<leftarrow> snd s p;
                    let c = cmp k (nkey d);
                    if c = 0 then do { s \<leftarrow> unlink s n; Some (parent, s) }
                    else do { (parent, s) \<leftarrow> remove_node cmp s (if c <s 0 then LeftOf p else RightOf p) k p;
                              if parent \<noteq> 0 then do { s \<leftarrow> balance_at s n; Some (parent, s) }
                              else Some (parent, s) } } }"

definition tdelete :: "(u64 \<Rightarrow> u64 \<Rightarrow> u32) \<Rightarrow> u64 \<Rightarrow> addr option \<Rightarrow> nheap \<Rightarrow> (addr \<times> addr option \<times> nheap) option" where
  "tdelete cmp key rootp h =
     (case rootp of None \<Rightarrow> Some (0, None, h)
      | Some root \<Rightarrow>
          do { (r, root, h) \<leftarrow> remove_node cmp (root, h) Root key root;
               Some (r, Some root, h) })"

datatype visit = preorder | postorder | endorder | leaf

text \<open>The calls of \<open>action\<close>, in order.\<close>

partial_function (option) walk_from :: "nheap \<Rightarrow> addr \<Rightarrow> u32 \<Rightarrow> (addr \<times> visit \<times> u32) list option" where
  "walk_from h r d =
     (if r = 0 then Some []
      else do { e \<leftarrow> h r;
                if nleft e = 0 \<and> nright e = 0 then Some [(r, leaf, d)]
                else do { xs \<leftarrow> walk_from h (nleft e) (d + 1);
                          ys \<leftarrow> walk_from h (nright e) (d + 1);
                          Some ((r, preorder, d) # xs @ (r, postorder, d) # ys @ [(r, endorder, d)]) } })"

definition twalk :: "addr \<Rightarrow> nheap \<Rightarrow> (addr \<times> visit \<times> u32) list option" where
  "twalk root h = walk_from h root 0"

section \<open>Trees in the heap\<close>

type_synonym atree = "(addr \<times> u64) tree"

fun addr_of :: "atree \<Rightarrow> addr" where
  "addr_of Leaf = 0"
| "addr_of (Node l (a, k) r) = a"

definition addrs :: "atree \<Rightarrow> addr set" where
  "addrs t = fst ` set_tree t"

lemma addrs_simps [simp]: "addrs Leaf = {}" "addrs (Node l (a, k) r) = insert a (addrs l \<union> addrs r)"
  by (auto simp: addrs_def)

text \<open>The node of \<open>a\<close> as the code keeps it.\<close>

definition cell :: "atree \<Rightarrow> u64 \<Rightarrow> atree \<Rightarrow> node" where
  "cell l k r = \<lparr>nkey = k, nleft = addr_of l, nright = addr_of r, nheight = of_nat (max (height l) (height r) + 1)\<rparr>"

fun tree_at :: "nheap \<Rightarrow> atree \<Rightarrow> bool" where
  "tree_at h Leaf \<longleftrightarrow> True"
| "tree_at h (Node l (a, k) r) \<longleftrightarrow>
     a \<noteq> 0 \<and> h a = Some (cell l k r) \<and> tree_at h l \<and> tree_at h r \<and>
     a \<notin> addrs l \<and> a \<notin> addrs r \<and> addrs l \<inter> addrs r = {}"

fun avl :: "atree \<Rightarrow> bool" where
  "avl Leaf \<longleftrightarrow> True"
| "avl (Node l x r) \<longleftrightarrow> avl l \<and> avl r \<and> height l \<le> height r + 1 \<and> height r \<le> height l + 1"

lemma tree_at_frame: "tree_at h t \<Longrightarrow> (\<And>a. a \<in> addrs t \<Longrightarrow> h' a = h a) \<Longrightarrow> tree_at h' t"
  by (induction h t rule: tree_at.induct) auto

lemma tree_at_upd [simp]: "a \<notin> addrs t \<Longrightarrow> tree_at (h(a := v)) t = tree_at h t"
  by (metis fun_upd_other fun_upd_idem_iff fun_upd_upd tree_at_frame)

lemma addr_of_0: "tree_at h t \<Longrightarrow> addr_of t = 0 \<longleftrightarrow> t = Leaf"
  by (cases t) auto

lemma addr_of_in: "t \<noteq> Leaf \<Longrightarrow> addr_of t \<in> addrs t"
  by (cases t) auto

lemma zero_not_in: "tree_at h t \<Longrightarrow> 0 \<notin> addrs t"
  by (induction h t rule: tree_at.induct) auto

text \<open>AVL trees are shallow: the height of a tree in the address space fits in an \<open>int\<close>.\<close>

lemma avl_size: "avl t \<Longrightarrow> 2 ^ (height t div 2) \<le> size1 t"
proof (induction t)
  case (Node l x r)
  have "height l \<le> height r + 1" "height r \<le> height l + 1" using Node.prems by simp_all
  then have hd: "height (Node l x r) div 2 \<le> Suc (height l div 2)" "height (Node l x r) div 2 \<le> Suc (height r div 2)" by auto
  have "(2::nat) ^ (height (Node l x r) div 2) \<le> 2 ^ Suc (min (height l div 2) (height r div 2))"
    using hd by (intro power_increasing) (simp_all add: min_def del: height_tree.simps)
  also have "\<dots> \<le> 2 ^ (height l div 2) + 2 ^ (height r div 2)" by (simp add: min_def)
  also have "\<dots> \<le> size1 l + size1 r" using Node by (intro add_mono) simp_all
  finally show ?case by simp
qed simp

lemma card_addrs: "tree_at h t \<Longrightarrow> finite (addrs t) \<and> card (addrs t) = size t"
  by (induction h t rule: tree_at.induct) (auto simp: card_Un_disjoint)

lemma avl_height:
  assumes "tree_at h t" "avl t"
  shows "height t \<le> 129"
proof -
  have "card (addrs t) \<le> card (UNIV :: addr set)" by (rule card_mono) simp_all
  also have "\<dots> = 2 ^ 64" by (simp add: card_word)
  finally have "size1 t \<le> 2 ^ 64 + 1" using card_addrs [OF assms(1)] by (simp add: size1_size)
  then have "(2 :: nat) ^ (height t div 2) < 2 ^ 65" using avl_size [OF assms(2)] by simp
  then have "height t div 2 < 65" by (rule power_less_imp_less_exp [rotated]) simp
  then show ?thesis by simp
qed

section \<open>Rotations\<close>

lemma child_height_at: "tree_at h t \<Longrightarrow> child_height h (addr_of t) = Some (of_nat (height t))"
  by (cases t) (auto simp: child_height_def cell_def)

lemma raise_ok:
  assumes "tree_at h t" "a \<notin> addrs t" "h a = Some \<lparr>nkey = k, nleft = p, nright = q, nheight = of_nat i\<rparr>" "i < 2 ^ 31" "height t < 2 ^ 31"
  shows "raise_height h a (addr_of t) = Some (h(a \<mapsto> \<lparr>nkey = k, nleft = p, nright = q, nheight = of_nat (max i (height t))\<rparr>))"
proof (cases t)
  case Leaf
  then show ?thesis using assms by (simp add: raise_height_def fun_upd_idem)
next
  case (Node l x r)
  obtain b j where x: "x = (b, j)" by fastforce
  have "nheight (cell l j r) = of_nat (height t)" by (simp add: cell_def Node)
  then show ?thesis using assms x Node of_nat_sless [of i "height t"]
    by (auto simp: raise_height_def fun_upd_idem max_def simp del: height_tree.simps)
qed

lemma updateheight_ok:
  assumes h: "h a = Some \<lparr>nkey = k, nleft = addr_of l, nright = addr_of r, nheight = v\<rparr>"
    and t: "tree_at h l" "tree_at h r" "a \<notin> addrs l" "a \<notin> addrs r" and n: "height l < 2 ^ 31" "height r < 2 ^ 31"
  shows "updateheight h a = Some (h(a \<mapsto> cell l k r))"
proof -
  define h1 where "h1 = h(a \<mapsto> \<lparr>nkey = k, nleft = addr_of l, nright = addr_of r, nheight = of_nat 0\<rparr>)"
  define h2 where "h2 = h1(a \<mapsto> \<lparr>nkey = k, nleft = addr_of l, nright = addr_of r, nheight = of_nat (max 0 (height l))\<rparr>)"
  have 1: "raise_height h1 a (addr_of l) = Some h2"
    unfolding h2_def using t n by (intro raise_ok) (simp_all add: h1_def)
  have 2: "raise_height h2 a (addr_of r) = Some (h2(a \<mapsto> \<lparr>nkey = k, nleft = addr_of l, nright = addr_of r,
      nheight = of_nat (max (max 0 (height l)) (height r))\<rparr>))"
    using t n by (intro raise_ok) (simp_all add: h1_def h2_def)
  show ?thesis using h 1 2 by (simp add: updateheight_def Let_def h1_def h2_def cell_def add.commute)
qed

lemma rotl_ok:
  assumes h: "h a = Some \<lparr>nkey = k, nleft = addr_of l, nright = b, nheight = v\<rparr>"
    and r: "h b = Some (cell m j r)" "b \<noteq> a"
    and t: "tree_at h l" "tree_at h m" "tree_at h r" "{a, b} \<inter> (addrs l \<union> addrs m \<union> addrs r) = {}" "addrs l \<inter> addrs m = {}"
    and n: "height l < 2 ^ 30" "height m < 2 ^ 30" "height r < 2 ^ 30" and a: "a \<noteq> 0"
  shows "rotl h a = Some (b, h(a \<mapsto> cell l k m, b \<mapsto> cell (Node l (a, k) m) j r))"
proof -
  define h1 where "h1 = h(a \<mapsto> \<lparr>nkey = k, nleft = addr_of l, nright = addr_of m, nheight = v\<rparr>)"
  define h2 where "h2 = h1(b \<mapsto> (cell m j r)\<lparr>nleft := a\<rparr>)"
  have 1: "updateheight h2 a = Some (h2(a \<mapsto> cell l k m))"
    using t n r(2) by (intro updateheight_ok [where v = v]) (auto simp: h2_def h1_def)
  have 2: "updateheight (h2(a \<mapsto> cell l k m)) b = Some (h2(a \<mapsto> cell l k m, b \<mapsto> cell (Node l (a, k) m) j r))"
    using t n r a by (intro updateheight_ok [where v = "nheight (cell m j r)"]) (auto simp: h2_def h1_def cell_def)
  have "h2(a \<mapsto> cell l k m, b \<mapsto> cell (Node l (a, k) m) j r) = h(a \<mapsto> cell l k m, b \<mapsto> cell (Node l (a, k) m) j r)"
    using r(2) by (auto simp: h2_def h1_def)
  then show ?thesis using h r 1 2 by (simp add: rotl_def Let_def h1_def h2_def) (simp add: cell_def)
qed

lemma rotr_ok:
  assumes h: "h a = Some \<lparr>nkey = k, nleft = b, nright = addr_of r, nheight = v\<rparr>"
    and l: "h b = Some (cell l j m)" "b \<noteq> a"
    and t: "tree_at h l" "tree_at h m" "tree_at h r" "{a, b} \<inter> (addrs l \<union> addrs m \<union> addrs r) = {}" "addrs m \<inter> addrs r = {}"
    and n: "height l < 2 ^ 30" "height m < 2 ^ 30" "height r < 2 ^ 30" and a: "a \<noteq> 0"
  shows "rotr h a = Some (b, h(a \<mapsto> cell m k r, b \<mapsto> cell l j (Node m (a, k) r)))"
proof -
  define h1 where "h1 = h(a \<mapsto> \<lparr>nkey = k, nleft = addr_of m, nright = addr_of r, nheight = v\<rparr>)"
  define h2 where "h2 = h1(b \<mapsto> (cell l j m)\<lparr>nright := a\<rparr>)"
  have 1: "updateheight h2 a = Some (h2(a \<mapsto> cell m k r))"
    using t n l(2) by (intro updateheight_ok [where v = v]) (auto simp: h2_def h1_def)
  have 2: "updateheight (h2(a \<mapsto> cell m k r)) b = Some (h2(a \<mapsto> cell m k r, b \<mapsto> cell l j (Node m (a, k) r)))"
    using t n l a by (intro updateheight_ok [where v = "nheight (cell l j m)"]) (auto simp: h2_def h1_def cell_def)
  have "h2(a \<mapsto> cell m k r, b \<mapsto> cell l j (Node m (a, k) r)) = h(a \<mapsto> cell m k r, b \<mapsto> cell l j (Node m (a, k) r))"
    using l(2) by (auto simp: h2_def h1_def)
  then show ?thesis using h l 1 2 by (simp add: rotr_def Let_def h1_def h2_def) (simp add: cell_def)
qed

lemma height_diff:
  assumes "i < 2 ^ 30" "j < 2 ^ 30"
  defines "d \<equiv> of_nat i - of_nat j :: u32"
  shows "d <s - 1 \<longleftrightarrow> i + 1 < j" "1 <s d \<longleftrightarrow> j + 1 < i" "0 <s d \<longleftrightarrow> j < i" "d <s 0 \<longleftrightarrow> i < j"
proof -
  have "d = word_of_int (int i - int j)" by (simp add: d_def)
  then have "sint d = int i - int j"
    using sint_word_of_int_range [of "int i - int j", where ?'a = 32] assms(1,2) by (simp add: in_range_def)
  then show "d <s - 1 \<longleftrightarrow> i + 1 < j" "1 <s d \<longleftrightarrow> j + 1 < i" "0 <s d \<longleftrightarrow> j < i" "d <s 0 \<longleftrightarrow> i < j"
    by (auto simp: word_sless_alt)
qed

lemma delta_at:
  assumes "h n = Some d" "nleft d = addr_of l" "nright d = addr_of r" "tree_at h l" "tree_at h r"
  shows "delta h n = Some (of_nat (height l) - of_nat (height r))"
  using assms by (simp add: delta_def child_height_at)

text \<open>What \<open>balance\<close> makes of a node with subtrees \<open>l\<close> and \<open>r\<close>.\<close>

definition bal :: "atree \<Rightarrow> addr \<times> u64 \<Rightarrow> atree \<Rightarrow> atree" where
  "bal l x r =
     (if height l + 1 < height r then
        (case r of Leaf \<Rightarrow> Leaf
         | Node rl y rr \<Rightarrow>
             if height rr < height rl then
               (case rl of Leaf \<Rightarrow> Leaf | Node p z q \<Rightarrow> Node (Node l x p) z (Node q y rr))
             else Node (Node l x rl) y rr)
      else if height r + 1 < height l then
        (case l of Leaf \<Rightarrow> Leaf
         | Node ll y lr \<Rightarrow>
             if height ll < height lr then
               (case lr of Leaf \<Rightarrow> Leaf | Node p z q \<Rightarrow> Node (Node ll y p) z (Node q x r))
             else Node ll y (Node lr x r))
      else Node l x r)"

lemma inorder_bal: "inorder (bal l x r) = inorder l @ x # inorder r"
  by (auto simp: bal_def split: tree.splits)

lemma addrs_inorder: "addrs t = fst ` set (inorder t)"
  by (simp add: addrs_def)

lemma addrs_bal [simp]: "addrs (bal l (a, k) r) = insert a (addrs l \<union> addrs r)"
  by (auto simp: addrs_inorder inorder_bal)

lemma bal_avl:
  assumes "avl l" "avl r" "height l \<le> height r + 2" "height r \<le> height l + 2"
  shows "avl (bal l x r)" "max (height l) (height r) \<le> height (bal l x r)" "height (bal l x r) \<le> max (height l) (height r) + 1"
proof -
  have "avl (bal l x r) \<and> max (height l) (height r) \<le> height (bal l x r) \<and> height (bal l x r) \<le> max (height l) (height r) + 1"
  proof -
    consider "height l + 1 < height r" | "height r + 1 < height l" | "height l \<le> height r + 1" "height r \<le> height l + 1" by linarith
    then show ?thesis
    proof cases
      case 1
      then obtain rl y rr where r: "r = Node rl y rr" by (cases r) auto
      show ?thesis
      proof (cases "height rr < height rl")
        case True
        then obtain p z q where "rl = Node p z q" by (cases rl) auto
        then show ?thesis using 1 True assms by (simp add: bal_def r) linarith
      next
        case False
        then show ?thesis using 1 assms by (simp add: bal_def r)
      qed
    next
      case 2
      then obtain ll y lr where l: "l = Node ll y lr" by (cases l) auto
      show ?thesis
      proof (cases "height ll < height lr")
        case True
        then obtain p z q where "lr = Node p z q" by (cases lr) auto
        then show ?thesis using 2 True assms by (simp add: bal_def l) linarith
      next
        case False
        then show ?thesis using 2 assms by (simp add: bal_def l)
      qed
    next
      case 3
      then show ?thesis using assms by (auto simp: bal_def)
    qed
  qed
  then show "avl (bal l x r)" "max (height l) (height r) \<le> height (bal l x r)" "height (bal l x r) \<le> max (height l) (height r) + 1"
    by blast+
qed

text \<open>A heap whose tree is replaced by \<open>t\<close>, nothing outside \<open>S\<close> being changed.\<close>

definition becomes :: "(addr \<times> nheap) option \<Rightarrow> atree \<Rightarrow> nheap \<Rightarrow> addr set \<Rightarrow> bool" where
  "becomes res t h S \<longleftrightarrow> (\<exists>h'. res = Some (addr_of t, h') \<and> tree_at h' t \<and> (\<forall>b. b \<notin> S \<longrightarrow> h' b = h b))"

lemma balance_ok:
  assumes h: "h a = Some \<lparr>nkey = k, nleft = addr_of l, nright = addr_of r, nheight = v\<rparr>" "a \<noteq> 0"
    and t: "tree_at h l" "tree_at h r" "a \<notin> addrs l" "a \<notin> addrs r" "addrs l \<inter> addrs r = {}"
    and n: "height l < 2 ^ 29" "height r < 2 ^ 29"
  shows "becomes (balance h a) (bal l (a, k) r) h (insert a (addrs l \<union> addrs r))"
proof -
  have d: "delta h a = Some (of_nat (height l) - of_nat (height r))" using delta_at [OF h(1) _ _ t(1,2)] by simp
  note diff = height_diff [of "height l" "height r"]
  consider "height l + 1 < height r" | "height r + 1 < height l" | "height l \<le> height r + 1" "height r \<le> height l + 1" by linarith
  then show ?thesis
  proof cases
    case 1
    then obtain rl b j rr where r: "r = Node rl (b, j) rr" by (cases r) auto
    have b: "b \<noteq> 0" "h b = Some (cell rl j rr)" "tree_at h rl" "tree_at h rr" "b \<notin> addrs rl" "b \<notin> addrs rr"
        "addrs rl \<inter> addrs rr = {}" using t(2) r by auto
    have hr: "height rl < 2 ^ 29" "height rr < 2 ^ 29" using n(2) by (simp_all add: r)
    have db: "delta h b = Some (of_nat (height rl) - of_nat (height rr))" using delta_at [OF b(2) _ _ b(3,4)] by (simp add: cell_def)
    show ?thesis
    proof (cases "height rr < height rl")
      case True
      then obtain p c i q where rl: "rl = Node p (c, i) q" by (cases rl) auto
      define h1 where "h1 = h(b \<mapsto> cell q j rr, c \<mapsto> cell p i (Node q (b, j) rr))"
      define h2 where "h2 = h1(a \<mapsto> \<lparr>nkey = k, nleft = addr_of l, nright = c, nheight = v\<rparr>)"
      have rot1: "rotr h b = Some (c, h1)"
        unfolding h1_def using b hr
        by (intro rotr_ok [where v = "nheight (cell rl j rr)"]) (auto simp: rl cell_def)
      have rot2: "rotl h2 a = Some (c, h2(a \<mapsto> cell l k p, c \<mapsto> cell (Node l (a, k) p) i (Node q (b, j) rr)))"
        using b hr t n h(2) r
        by (intro rotl_ok [where v = v]) (auto simp: rl h2_def h1_def)
      have "balance h a = Some (c, h2(a \<mapsto> cell l k p, c \<mapsto> cell (Node l (a, k) p) i (Node q (b, j) rr)))"
        using d db diff height_diff [of "height rl" "height rr"] 1 n hr True rot1 rot2 h(1) b t r
        by (simp add: balance_def h2_def) (simp add: h1_def rl)
      moreover have "tree_at (h2(a \<mapsto> cell l k p, c \<mapsto> cell (Node l (a, k) p) i (Node q (b, j) rr)))
          (Node (Node l (a, k) p) (c, i) (Node q (b, j) rr))"
        using b t h(2) r by (auto simp: rl h2_def h1_def)
      ultimately show ?thesis using 1 True
        by (auto simp: becomes_def bal_def r rl h2_def h1_def)
    next
      case False
      have rot: "rotl h a = Some (b, h(a \<mapsto> cell l k rl, b \<mapsto> cell (Node l (a, k) rl) j rr))"
        using b hr t n h r by (intro rotl_ok [where v = v]) auto
      have "balance h a = Some (b, h(a \<mapsto> cell l k rl, b \<mapsto> cell (Node l (a, k) rl) j rr))"
        using d db diff height_diff [of "height rl" "height rr"] 1 n hr False rot h(1) r by (simp add: balance_def)
      moreover have "tree_at (h(a \<mapsto> cell l k rl, b \<mapsto> cell (Node l (a, k) rl) j rr)) (Node (Node l (a, k) rl) (b, j) rr)"
        using b t h(2) r by auto
      ultimately show ?thesis using 1 False by (auto simp: becomes_def bal_def r)
    qed
  next
    case 2
    then obtain ll b j lr where l: "l = Node ll (b, j) lr" by (cases l) auto
    have b: "b \<noteq> 0" "h b = Some (cell ll j lr)" "tree_at h ll" "tree_at h lr" "b \<notin> addrs ll" "b \<notin> addrs lr"
        "addrs ll \<inter> addrs lr = {}" using t(1) l by auto
    have hl: "height ll < 2 ^ 29" "height lr < 2 ^ 29" using n(1) by (simp_all add: l)
    have db: "delta h b = Some (of_nat (height ll) - of_nat (height lr))" using delta_at [OF b(2) _ _ b(3,4)] by (simp add: cell_def)
    show ?thesis
    proof (cases "height ll < height lr")
      case True
      then obtain p c i q where lr: "lr = Node p (c, i) q" by (cases lr) auto
      define h1 where "h1 = h(b \<mapsto> cell ll j p, c \<mapsto> cell (Node ll (b, j) p) i q)"
      define h2 where "h2 = h1(a \<mapsto> \<lparr>nkey = k, nleft = c, nright = addr_of r, nheight = v\<rparr>)"
      have rot1: "rotl h b = Some (c, h1)"
        unfolding h1_def using b hl
        by (intro rotl_ok [where v = "nheight (cell ll j lr)"]) (auto simp: lr cell_def)
      have rot2: "rotr h2 a = Some (c, h2(a \<mapsto> cell q k r, c \<mapsto> cell (Node ll (b, j) p) i (Node q (a, k) r)))"
        using b hl t n h(2) l
        by (intro rotr_ok [where v = v]) (auto simp: lr h2_def h1_def)
      have "balance h a = Some (c, h2(a \<mapsto> cell q k r, c \<mapsto> cell (Node ll (b, j) p) i (Node q (a, k) r)))"
        using d db diff height_diff [of "height ll" "height lr"] 2 n hl True rot1 rot2 h(1) b t l
        by (simp add: balance_def h2_def) (simp add: h1_def lr)
      moreover have "tree_at (h2(a \<mapsto> cell q k r, c \<mapsto> cell (Node ll (b, j) p) i (Node q (a, k) r)))
          (Node (Node ll (b, j) p) (c, i) (Node q (a, k) r))"
        using b t h(2) l by (auto simp: lr h2_def h1_def)
      ultimately show ?thesis using 2 True
        by (auto simp: becomes_def bal_def l lr h2_def h1_def)
    next
      case False
      have rot: "rotr h a = Some (b, h(a \<mapsto> cell lr k r, b \<mapsto> cell ll j (Node lr (a, k) r)))"
        using b hl t n h l by (intro rotr_ok [where v = v]) auto
      have "balance h a = Some (b, h(a \<mapsto> cell lr k r, b \<mapsto> cell ll j (Node lr (a, k) r)))"
        using d db diff height_diff [of "height ll" "height lr"] 2 n hl False rot h(1) l by (simp add: balance_def)
      moreover have "tree_at (h(a \<mapsto> cell lr k r, b \<mapsto> cell ll j (Node lr (a, k) r))) (Node ll (b, j) (Node lr (a, k) r))"
        using b t h(2) l by auto
      ultimately show ?thesis using 2 False by (auto simp: becomes_def bal_def l)
    qed
  next
    case 3
    have "updateheight h a = Some (h(a \<mapsto> cell l k r))" using n by (intro updateheight_ok [OF h(1) t(1-4)]) auto
    then have "balance h a = Some (a, h(a \<mapsto> cell l k r))" using d diff 3 n by (simp add: balance_def)
    then show ?thesis using 3 h t by (auto simp: becomes_def bal_def)
  qed
qed

section \<open>Search and insertion\<close>

text \<open>What the comparison function has to be: an order of the keys, here by their ranks.\<close>

definition orders :: "(u64 \<Rightarrow> u64 \<Rightarrow> u32) \<Rightarrow> (u64 \<Rightarrow> int) \<Rightarrow> bool" where
  "orders cmp rank \<longleftrightarrow> (\<forall>x y. (cmp x y = 0 \<longleftrightarrow> rank x = rank y) \<and> (cmp x y <s 0 \<longleftrightarrow> rank x < rank y))"

definition ranks :: "(u64 \<Rightarrow> int) \<Rightarrow> atree \<Rightarrow> int list" where
  "ranks rank t = map (rank \<circ> snd) (inorder t)"

lemma ranks_simps [simp]: "ranks rank Leaf = []" "ranks rank (Node l (a, k) r) = ranks rank l @ rank k # ranks rank r"
  by (simp_all add: ranks_def)

lemma ranks_bal [simp]: "ranks rank (bal l (a, k) r) = ranks rank l @ rank k # ranks rank r"
  by (simp add: ranks_def inorder_bal)

text \<open>The invariant of a search tree: balanced, ordered, and in the heap.\<close>

definition search_tree :: "(u64 \<Rightarrow> int) \<Rightarrow> nheap \<Rightarrow> atree \<Rightarrow> bool" where
  "search_tree rank h t \<longleftrightarrow> tree_at h t \<and> avl t \<and> sorted_wrt (<) (ranks rank t)"

lemma search_tree_Node:
  "search_tree rank h (Node l (a, k) r) \<Longrightarrow>
     search_tree rank h l \<and> search_tree rank h r \<and> (\<forall>i\<in>set (ranks rank l). i < rank k) \<and> (\<forall>i\<in>set (ranks rank r). rank k < i)"
  by (auto simp: search_tree_def sorted_wrt_append)

lemma find_ok:
  "orders cmp rank \<Longrightarrow> search_tree rank h t \<Longrightarrow>
    \<exists>p. find_node cmp h (addr_of t) k = Some p \<and>
      (if rank k \<in> set (ranks rank t) then \<exists>j. (p, j) \<in> set (inorder t) \<and> rank j = rank k else p = 0)"
proof (induction t)
  case (Node l x r)
  obtain a j where x: "x = (a, j)" by fastforce
  note st = search_tree_Node [OF Node.prems(2) [unfolded x]]
  have a: "a \<noteq> 0" "h a = Some (cell l j r)" using Node.prems(2) by (simp_all add: search_tree_def x)
  have c: "cmp k j = 0 \<longleftrightarrow> rank k = rank j" "cmp k j <s 0 \<longleftrightarrow> rank k < rank j" using Node.prems(1) by (simp_all add: orders_def)
  consider "rank k = rank j" | "rank k < rank j" | "rank j < rank k" by linarith
  then show ?case
  proof cases
    case 1
    then show ?thesis using a c by (intro exI [of _ a]) (subst find_node.simps, auto simp: x cell_def)
  next
    case 2
    have "find_node cmp h a k = find_node cmp h (addr_of l) k" using 2 a c by (subst find_node.simps) (simp add: cell_def)
    moreover have "rank k \<in> set (ranks rank (Node l x r)) \<longleftrightarrow> rank k \<in> set (ranks rank l)" using st 2 by (auto simp: x)
    moreover obtain p where "find_node cmp h (addr_of l) k = Some p"
        "if rank k \<in> set (ranks rank l) then \<exists>j. (p, j) \<in> set (inorder l) \<and> rank j = rank k else p = 0"
      using Node.IH(1) [OF Node.prems(1)] st by blast
    ultimately show ?thesis by (intro exI [of _ p]) (auto simp: x)
  next
    case 3
    have "find_node cmp h a k = find_node cmp h (addr_of r) k" using 3 a c by (subst find_node.simps) (simp add: cell_def)
    moreover have "rank k \<in> set (ranks rank (Node l x r)) \<longleftrightarrow> rank k \<in> set (ranks rank r)" using st 3 by (auto simp: x)
    moreover obtain p where "find_node cmp h (addr_of r) k = Some p"
        "if rank k \<in> set (ranks rank r) then \<exists>j. (p, j) \<in> set (inorder r) \<and> rank j = rank k else p = 0"
      using Node.IH(2) [OF Node.prems(1)] st by blast
    ultimately show ?thesis by (intro exI [of _ p]) (auto simp: x)
  qed
qed (simp add: find_node.simps)

text \<open>The tree after the insertion of the node \<open>p\<close> with key \<open>k\<close>.\<close>

definition inserted :: "(u64 \<Rightarrow> int) \<Rightarrow> addr \<Rightarrow> u64 \<Rightarrow> atree \<Rightarrow> atree \<Rightarrow> bool" where
  "inserted rank p k t t' \<longleftrightarrow>
     (\<exists>xs ys. inorder t = xs @ ys \<and> inorder t' = xs @ (p, k) # ys \<and>
        (\<forall>x\<in>set xs. rank (snd x) < rank k) \<and> (\<forall>y\<in>set ys. rank k < rank (snd y)))"

lemma inserted_addrs: "inserted rank p k t t' \<Longrightarrow> addrs t' = insert p (addrs t)"
  unfolding inserted_def addrs_inorder by (elim exE conjE) (simp del: set_inorder)

lemma inserted_sorted:
  assumes "inserted rank p k t t'" "sorted_wrt (<) (ranks rank t)"
  shows "sorted_wrt (<) (ranks rank t')"
proof -
  obtain xs ys where "inorder t = xs @ ys" "inorder t' = xs @ (p, k) # ys"
      "\<forall>x\<in>set xs. rank (snd x) < rank k" "\<forall>y\<in>set ys. rank k < rank (snd y)"
    using assms(1) by (auto simp: inserted_def)
  with assms(2) show ?thesis by (auto simp: ranks_def sorted_wrt_append sorted_wrt_map)
qed

lemma inserted_left:
  "inserted rank p k l l' \<Longrightarrow> rank k < rank j \<Longrightarrow> \<forall>i\<in>set (ranks rank r). rank j < i \<Longrightarrow>
    inserted rank p k (Node l (a, j) r) (bal l' (a, j) r)"
proof -
  assume i: "inserted rank p k l l'" and k: "rank k < rank j" and r: "\<forall>i\<in>set (ranks rank r). rank j < i"
  obtain xs ys where x: "inorder l = xs @ ys" "inorder l' = xs @ (p, k) # ys"
      "\<forall>x\<in>set xs. rank (snd x) < rank k" "\<forall>y\<in>set ys. rank k < rank (snd y)"
    using i by (auto simp: inserted_def)
  have "\<forall>y\<in>set (inorder r). rank k < rank (snd y)" using r k by (fastforce simp: ranks_def)
  with x k show ?thesis unfolding inserted_def
    by (intro exI [of _ xs] exI [of _ "ys @ (a, j) # inorder r"]) (auto simp: inorder_bal)
qed

lemma inserted_right:
  "inserted rank p k r r' \<Longrightarrow> rank j < rank k \<Longrightarrow> \<forall>i\<in>set (ranks rank l). i < rank j \<Longrightarrow>
    inserted rank p k (Node l (a, j) r) (bal l (a, j) r')"
proof -
  assume i: "inserted rank p k r r'" and k: "rank j < rank k" and l: "\<forall>i\<in>set (ranks rank l). i < rank j"
  obtain xs ys where x: "inorder r = xs @ ys" "inorder r' = xs @ (p, k) # ys"
      "\<forall>x\<in>set xs. rank (snd x) < rank k" "\<forall>y\<in>set ys. rank k < rank (snd y)"
    using i by (auto simp: inserted_def)
  have "\<forall>y\<in>set (inorder l). rank (snd y) < rank k" using l k by (fastforce simp: ranks_def)
  with x k show ?thesis unfolding inserted_def
    by (intro exI [of _ "inorder l @ (a, j) # xs"] exI [of _ ys]) (auto simp: inorder_bal)
qed

text \<open>Rebalancing after a subtree has grown or shrunk by one.\<close>

lemma rebalance:
  assumes "h a = Some \<lparr>nkey = k, nleft = addr_of l, nright = addr_of r, nheight = v\<rparr>" "a \<noteq> 0"
    "tree_at h l" "tree_at h r" "a \<notin> addrs l" "a \<notin> addrs r" "addrs l \<inter> addrs r = {}"
    and "avl l" "avl r" "height l \<le> height r + 2" "height r \<le> height l + 2"
  shows "\<exists>h'. balance h a = Some (addr_of (bal l (a, k) r), h') \<and> tree_at h' (bal l (a, k) r) \<and> avl (bal l (a, k) r) \<and>
    (\<forall>b. b \<notin> insert a (addrs l \<union> addrs r) \<longrightarrow> h' b = h b)"
proof -
  have "height l < 2 ^ 29" "height r < 2 ^ 29" using avl_height [of h l] avl_height [of h r] assms by simp_all
  with balance_ok [OF assms(1-7)] bal_avl(1) [OF assms(8-11)] show ?thesis by (auto simp: becomes_def)
qed

lemma bal_near: "height l \<le> height r + 1 \<Longrightarrow> height r \<le> height l + 1 \<Longrightarrow> height (bal l x r) = max (height l) (height r) + 1"
  by (simp add: bal_def)

definition grows :: "atree \<Rightarrow> atree \<Rightarrow> bool" where
  "grows t t' \<longleftrightarrow> height t' = height t \<or> height t' = Suc (height t)"

lemma grown_left:
  assumes "avl (Node l x r)" "avl l'" "grows l l'"
  shows "height l' \<le> height r + 2" "height r \<le> height l' + 2" "grows (Node l x r) (bal l' x r)"
proof -
  show d: "height l' \<le> height r + 2" "height r \<le> height l' + 2" using assms by (auto simp: grows_def)
  show "grows (Node l x r) (bal l' x r)"
  proof (cases "height l' \<le> height r + 1")
    case True
    then have "height (bal l' x r) = max (height l') (height r) + 1" using assms by (intro bal_near) (auto simp: grows_def)
    then show ?thesis using assms True by (auto simp: grows_def)
  next
    case False
    then have "height l' = height r + 2" "height l = height r + 1" using assms by (auto simp: grows_def)
    then show ?thesis using bal_avl(2,3) [OF assms(2) _ d, of x] assms(1) by (auto simp: grows_def)
  qed
qed

lemma grown_right:
  assumes "avl (Node l x r)" "avl r'" "grows r r'"
  shows "height l \<le> height r' + 2" "height r' \<le> height l + 2" "grows (Node l x r) (bal l x r')"
proof -
  show d: "height l \<le> height r' + 2" "height r' \<le> height l + 2" using assms by (auto simp: grows_def)
  show "grows (Node l x r) (bal l x r')"
  proof (cases "height r' \<le> height l + 1")
    case True
    then have "height (bal l x r') = max (height l) (height r') + 1" using assms by (intro bal_near) (auto simp: grows_def)
    then show ?thesis using assms True by (auto simp: grows_def)
  next
    case False
    then have "height r' = height l + 2" "height r = height l + 1" using assms by (auto simp: grows_def)
    then show ?thesis using bal_avl(2,3) [OF _ assms(2) d, of x] assms(1) by (auto simp: grows_def)
  qed
qed

lemma tree_at_mapped: "tree_at h t \<Longrightarrow> b \<in> addrs t \<Longrightarrow> h b \<noteq> None"
  by (induction h t rule: tree_at.induct) auto

lemma insert_ok:
  assumes cmp: "orders cmp rank" and m: "malloc x = (p, x')" "p \<noteq> 0" "h p = None"
  shows "search_tree rank h t \<Longrightarrow> rank k \<notin> set (ranks rank t) \<Longrightarrow>
    \<exists>t' h'. insert_node cmp malloc (addr_of t) k h x = Some ((addr_of t', p), h', x') \<and>
      tree_at h' t' \<and> avl t' \<and> inserted rank p k t t' \<and> grows t t' \<and> (\<forall>b. b \<notin> insert p (addrs t) \<longrightarrow> h' b = h b)"
proof (induction t)
  case Leaf
  have "insert_node cmp malloc 0 k h x = Some ((p, p), h(p \<mapsto> \<lparr>nkey = k, nleft = 0, nright = 0, nheight = 1\<rparr>), x')"
    using m by (subst insert_node.simps) simp
  moreover have "tree_at (h(p \<mapsto> \<lparr>nkey = k, nleft = 0, nright = 0, nheight = 1\<rparr>)) (Node Leaf (p, k) Leaf)"
    using m by (simp add: cell_def)
  ultimately show ?case
    by (intro exI [of _ "Node Leaf (p, k) Leaf"]) (auto simp: inserted_def grows_def)
next
  case (Node l y r)
  obtain a j where y: "y = (a, j)" by fastforce
  note st = search_tree_Node [OF Node.prems(1) [unfolded y]]
  have t: "tree_at h (Node l (a, j) r)" "avl (Node l (a, j) r)" using Node.prems(1) by (simp_all add: search_tree_def y)
  then have a: "a \<noteq> 0" "h a = Some (cell l j r)" "tree_at h l" "tree_at h r" "a \<notin> addrs l" "a \<notin> addrs r" "addrs l \<inter> addrs r = {}"
      "avl l" "avl r" by simp_all
  have pn: "p \<notin> addrs (Node l (a, j) r)" using tree_at_mapped [OF t(1)] m(3) by blast
  then have ap: "a \<noteq> p" by auto
  have c: "cmp k j \<noteq> 0" "cmp k j <s 0 \<longleftrightarrow> rank k < rank j" using cmp Node.prems(2) by (auto simp: orders_def y)
  show ?case
  proof (cases "rank k < rank j")
    case True
    obtain l' h' where 1: "insert_node cmp malloc (addr_of l) k h x = Some ((addr_of l', p), h', x')"
        "tree_at h' l'" "avl l'" "inserted rank p k l l'" "grows l l'" "\<forall>b. b \<notin> insert p (addrs l) \<longrightarrow> h' b = h b"
      using Node.IH(1) st Node.prems(2) by (auto simp: y)
    have al: "addrs l' = insert p (addrs l)" using 1(4) by (rule inserted_addrs)
    define h2 where "h2 = h'(a \<mapsto> (cell l j r)\<lparr>nleft := addr_of l'\<rparr>)"
    have ha: "h' a = Some (cell l j r)" using 1(6) pn a(2,5) by auto
    have "tree_at h' r" using 1(6) a(7) pn by (intro tree_at_frame [OF a(4)]) auto
    then have t2: "tree_at h2 l'" "tree_at h2 r" using 1(2) al ap a(5,6) by (simp_all add: h2_def)
    have "h2 a = Some \<lparr>nkey = j, nleft = addr_of l', nright = addr_of r, nheight = nheight (cell l j r)\<rparr>"
      by (simp add: h2_def cell_def)
    from rebalance [OF this a(1) t2 _ a(6) _ 1(3) a(9) grown_left(1,2) [OF t(2) 1(3,5)]]
    obtain h3 where 3: "balance h2 a = Some (addr_of (bal l' (a, j) r), h3)" "tree_at h3 (bal l' (a, j) r)"
        "avl (bal l' (a, j) r)" "\<forall>b. b \<notin> insert a (addrs l' \<union> addrs r) \<longrightarrow> h3 b = h2 b"
      using al pn a(5,7) by auto
    have "addr_of l' \<noteq> 0" using al addr_of_0 [OF 1(2)] by auto
    then have "insert_node cmp malloc a k h x = Some ((addr_of (bal l' (a, j) r), p), h3, x')"
      using a(1,2) c True 1(1) ha 3(1)
      by (subst insert_node.simps) (simp add: Let_def h2_def cell_def)
    moreover have "\<forall>b. b \<notin> insert p (addrs (Node l (a, j) r)) \<longrightarrow> h3 b = h b"
      using 3(4) 1(6) by (auto simp: al h2_def)
    ultimately show ?thesis using 3(2,3) inserted_left [OF 1(4) True] grown_left(3) [OF t(2) 1(3,5)] st unfolding y
      by (intro exI [of _ "bal l' (a, j) r"] exI [of _ h3]) simp
  next
    case False
    then have gt: "rank j < rank k" using Node.prems(2) by (auto simp: y)
    obtain r' h' where 1: "insert_node cmp malloc (addr_of r) k h x = Some ((addr_of r', p), h', x')"
        "tree_at h' r'" "avl r'" "inserted rank p k r r'" "grows r r'" "\<forall>b. b \<notin> insert p (addrs r) \<longrightarrow> h' b = h b"
      using Node.IH(2) st Node.prems(2) by (auto simp: y)
    have ar: "addrs r' = insert p (addrs r)" using 1(4) by (rule inserted_addrs)
    define h2 where "h2 = h'(a \<mapsto> (cell l j r)\<lparr>nright := addr_of r'\<rparr>)"
    have ha: "h' a = Some (cell l j r)" using 1(6) pn a(2,6) by auto
    have "tree_at h' l" using 1(6) a(7) pn by (intro tree_at_frame [OF a(3)]) auto
    then have t2: "tree_at h2 l" "tree_at h2 r'" using 1(2) ar ap a(5,6) by (simp_all add: h2_def)
    have "h2 a = Some \<lparr>nkey = j, nleft = addr_of l, nright = addr_of r', nheight = nheight (cell l j r)\<rparr>"
      by (simp add: h2_def cell_def)
    from rebalance [OF this a(1) t2 a(5) _ _ a(8) 1(3) grown_right(1,2) [OF t(2) 1(3,5)]]
    obtain h3 where 3: "balance h2 a = Some (addr_of (bal l (a, j) r'), h3)" "tree_at h3 (bal l (a, j) r')"
        "avl (bal l (a, j) r')" "\<forall>b. b \<notin> insert a (addrs l \<union> addrs r') \<longrightarrow> h3 b = h2 b"
      using ar pn a(6,7) by auto
    have "addr_of r' \<noteq> 0" using ar addr_of_0 [OF 1(2)] by auto
    then have "insert_node cmp malloc a k h x = Some ((addr_of (bal l (a, j) r'), p), h3, x')"
      using a(1,2) c False 1(1) ha 3(1)
      by (subst insert_node.simps) (simp add: Let_def h2_def cell_def)
    moreover have "\<forall>b. b \<notin> insert p (addrs (Node l (a, j) r)) \<longrightarrow> h3 b = h b"
      using 3(4) 1(6) by (auto simp: ar h2_def)
    ultimately show ?thesis using 3(2,3) inserted_right [OF 1(4) gt] grown_right(3) [OF t(2) 1(3,5)] st unfolding y
      by (intro exI [of _ "bal l (a, j) r'"] exI [of _ h3]) simp
  qed
qed

text \<open>A key that is there, and an allocation that fails, leave the tree alone.\<close>

lemma insert_present:
  "orders cmp rank \<Longrightarrow> search_tree rank h t \<Longrightarrow> rank k \<in> set (ranks rank t) \<Longrightarrow>
    \<exists>p j. insert_node cmp malloc (addr_of t) k h x = Some ((0, p), h, x) \<and> (p, j) \<in> set (inorder t) \<and> rank j = rank k"
proof (induction t)
  case (Node l y r)
  obtain a j where y: "y = (a, j)" by fastforce
  note st = search_tree_Node [OF Node.prems(2) [unfolded y]]
  have a: "a \<noteq> 0" "h a = Some (cell l j r)" using Node.prems(2) by (simp_all add: search_tree_def y)
  have c: "cmp k j = 0 \<longleftrightarrow> rank k = rank j" "cmp k j <s 0 \<longleftrightarrow> rank k < rank j" using Node.prems(1) by (simp_all add: orders_def)
  consider "rank k = rank j" | "rank k < rank j" | "rank j < rank k" by linarith
  then show ?case
  proof cases
    case 1
    then show ?thesis using a c by (subst insert_node.simps) (auto simp: y cell_def)
  next
    case 2
    then have "rank k \<in> set (ranks rank l)" using Node.prems(3) st by (auto simp: y)
    with Node.IH(1) Node.prems(1) st obtain p i where
        "insert_node cmp malloc (addr_of l) k h x = Some ((0, p), h, x)" "(p, i) \<in> set (inorder l)" "rank i = rank k" by blast
    then show ?thesis using a c 2 by (subst insert_node.simps) (auto simp: y cell_def)
  next
    case 3
    then have "rank k \<in> set (ranks rank r)" using Node.prems(3) st by (auto simp: y)
    with Node.IH(2) Node.prems(1) st obtain p i where
        "insert_node cmp malloc (addr_of r) k h x = Some ((0, p), h, x)" "(p, i) \<in> set (inorder r)" "rank i = rank k" by blast
    then show ?thesis using a c 3 by (subst insert_node.simps) (auto simp: y cell_def)
  qed
qed simp

lemma insert_fails:
  "orders cmp rank \<Longrightarrow> search_tree rank h t \<Longrightarrow> rank k \<notin> set (ranks rank t) \<Longrightarrow> malloc x = (0, x') \<Longrightarrow>
    insert_node cmp malloc (addr_of t) k h x = Some ((0, 0), h, x')"
proof (induction t)
  case Leaf
  then show ?case by (subst insert_node.simps) simp
next
  case (Node l y r)
  obtain a j where y: "y = (a, j)" by fastforce
  note st = search_tree_Node [OF Node.prems(2) [unfolded y]]
  have a: "a \<noteq> 0" "h a = Some (cell l j r)" using Node.prems(2) by (simp_all add: search_tree_def y)
  have "cmp k j \<noteq> 0" using Node.prems(1,3) by (auto simp: orders_def y)
  then show ?case using a Node.IH Node.prems st by (subst insert_node.simps) (auto simp: y cell_def Let_def)
qed

section \<open>Places\<close>

fun owner :: "place \<Rightarrow> addr set" where
  "owner Root = {}"
| "owner (LeftOf a) = {a}"
| "owner (RightOf a) = {a}"

fun set_place :: "troot \<Rightarrow> place \<Rightarrow> addr \<Rightarrow> troot" where
  "set_place (p, h) Root v = (v, h)"
| "set_place (p, h) (LeftOf a) v = (p, h(a := map_option (\<lambda>d. d\<lparr>nleft := v\<rparr>) (h a)))"
| "set_place (p, h) (RightOf a) v = (p, h(a := map_option (\<lambda>d. d\<lparr>nright := v\<rparr>) (h a)))"

text \<open>\<open>s'\<close> is \<open>s\<close> with \<open>v\<close> in the place \<open>n\<close> and nodes of \<open>X\<close> changed.\<close>

definition changed :: "troot \<Rightarrow> troot \<Rightarrow> place \<Rightarrow> addr \<Rightarrow> addr set \<Rightarrow> bool" where
  "changed s s' n v X \<longleftrightarrow> fst s' = fst (set_place s n v) \<and> (\<forall>b. b \<notin> X \<longrightarrow> snd s' b = snd (set_place s n v) b)"

lemma changed_refl: "peek s n = Some v \<Longrightarrow> changed s s n v X"
  by (cases s; cases n) (auto simp: changed_def)

lemma changed_mono: "changed s s' n v X \<Longrightarrow> X \<subseteq> Y \<Longrightarrow> changed s s' n v Y"
  by (auto simp: changed_def)

lemma changed_heap: "changed s s1 n v X \<Longrightarrow> (\<And>b. b \<notin> X \<Longrightarrow> h b = snd s1 b) \<Longrightarrow> changed s (fst s1, h) n v X"
  by (simp add: changed_def)

lemma changed_other: "changed s s' n v X \<Longrightarrow> b \<notin> X \<Longrightarrow> b \<notin> owner n \<Longrightarrow> snd s' b = snd s b"
  by (cases s; cases n) (auto simp: changed_def)

lemma changed_peek: "changed s s' n v X \<Longrightarrow> owner n \<inter> X = {} \<Longrightarrow> owner n \<subseteq> dom (snd s) \<Longrightarrow> peek s' n = Some v"
  by (cases s; cases s'; cases n) (auto simp: changed_def)

lemma changed_poke:
  assumes "changed s s1 n v X" "owner n \<inter> X = {}" "owner n \<subseteq> dom (snd s)"
  shows "\<exists>s2. poke s1 n w = Some s2 \<and> changed s s2 n w X \<and> (\<forall>b. b \<notin> owner n \<longrightarrow> snd s2 b = snd s1 b)"
  using assms by (cases s; cases s1; cases n) (auto simp: changed_def)

lemma peek_other: "changed s s' n v X \<Longrightarrow> owner n \<inter> owner n' = {} \<Longrightarrow> owner n' \<inter> X = {} \<Longrightarrow> n' \<noteq> n \<Longrightarrow> n \<noteq> Root \<Longrightarrow>
    peek s' n' = peek s n'"
  by (cases s; cases s'; cases n; cases n') (auto simp: changed_def)

lemma shrunk_right:
  assumes "avl (Node l x r)" "avl r'" "grows r' r"
  shows "height l \<le> height r' + 2" "height r' \<le> height l + 2" "grows (bal l x r') (Node l x r)"
proof -
  show d: "height l \<le> height r' + 2" "height r' \<le> height l + 2" using assms by (auto simp: grows_def)
  show "grows (bal l x r') (Node l x r)"
  proof (cases "height l \<le> height r' + 1")
    case True
    then have "height (bal l x r') = max (height l) (height r') + 1" using assms by (intro bal_near) (auto simp: grows_def)
    then show ?thesis using assms True by (auto simp: grows_def)
  next
    case False
    then have "height l = height r' + 2" "height r = height r' + 1" using assms by (auto simp: grows_def)
    then show ?thesis using bal_avl(2,3) [OF _ assms(2) d, of x] assms(1) by (auto simp: grows_def)
  qed
qed

lemma shrunk_left:
  assumes "avl (Node l x r)" "avl l'" "grows l' l"
  shows "height l' \<le> height r + 2" "height r \<le> height l' + 2" "grows (bal l' x r) (Node l x r)"
proof -
  show d: "height l' \<le> height r + 2" "height r \<le> height l' + 2" using assms by (auto simp: grows_def)
  show "grows (bal l' x r) (Node l x r)"
  proof (cases "height r \<le> height l' + 1")
    case True
    then have "height (bal l' x r) = max (height l') (height r) + 1" using assms by (intro bal_near) (auto simp: grows_def)
    then show ?thesis using assms True by (auto simp: grows_def)
  next
    case False
    then have "height r = height l' + 2" "height l = height l' + 1" using assms by (auto simp: grows_def)
    then show ?thesis using bal_avl(2,3) [OF assms(2) _ d, of x] assms(1) by (auto simp: grows_def)
  qed
qed

section \<open>Removal\<close>

lemma remove_rightmost_ok:
  assumes "owner out \<subseteq> dom (snd s)"
  shows "tree_at (snd s) t \<Longrightarrow> avl t \<Longrightarrow> t \<noteq> Leaf \<Longrightarrow> owner out \<inter> addrs t = {} \<Longrightarrow>
    \<exists>t' s' xs m j. inorder t = xs @ [(m, j)] \<and> inorder t' = xs \<and> remove_rightmost s (addr_of t) out = Some (addr_of t', s') \<and>
      changed s s' out m (addrs t') \<and> tree_at (snd s') t' \<and> avl t' \<and> grows t' t"
proof (induction t)
  case (Node l y r)
  obtain a j where y: "y = (a, j)" by fastforce
  have a: "a \<noteq> 0" "snd s a = Some (cell l j r)" "tree_at (snd s) l" "tree_at (snd s) r" "a \<notin> addrs l" "a \<notin> addrs r"
      "addrs l \<inter> addrs r = {}" "avl l" "avl r" "a \<notin> owner out" "owner out \<inter> addrs l = {}" "owner out \<inter> addrs r = {}"
    using Node.prems by (auto simp: y)
  show ?case
  proof (cases "r = Leaf")
    case True
    have "peek s out \<noteq> None" using assms by (cases s; cases out) auto
    then obtain v where "changed s s out v (addrs l)" using changed_refl by blast
    from changed_poke [OF this a(11) assms, of a] obtain s1 where
        1: "poke s out a = Some s1" "changed s s1 out a (addrs l)" "\<forall>b. b \<notin> owner out \<longrightarrow> snd s1 b = snd s b" by blast
    have "tree_at (snd s1) l" using 1(3) a(11) by (intro tree_at_frame [OF a(3)]) auto
    moreover have "remove_rightmost s a out = Some (addr_of l, s1)"
      using a(2,10) 1(1,3) True by (subst remove_rightmost.simps) (simp add: cell_def)
    ultimately show ?thesis using 1(2) a(8) True Node.prems(2)
      by (intro exI [of _ l] exI [of _ s1] exI [of _ "inorder l"] exI [of _ a] exI [of _ j]) (auto simp: y grows_def)
  next
    case False
    obtain r' s1 xs m i where 1: "inorder r = xs @ [(m, i)]" "inorder r' = xs"
        "remove_rightmost s (addr_of r) out = Some (addr_of r', s1)" "changed s s1 out m (addrs r')"
        "tree_at (snd s1) r'" "avl r'" "grows r' r"
      using Node.IH(2) a False by blast
    have ar: "addrs r' \<subseteq> addrs r" using 1(1,2) by (auto simp: addrs_inorder simp del: set_inorder)
    have ha: "snd s1 a = Some (cell l j r)" using changed_other [OF 1(4), of a] ar a(2,6,10) by auto
    have sl: "snd s1 b = snd s b" if "b \<in> addrs l" for b
      using changed_other [OF 1(4), of b] that ar a(7,11) by auto
    define h2 where "h2 = (snd s1)(a \<mapsto> (cell l j r)\<lparr>nright := addr_of r'\<rparr>)"
    have "tree_at (snd s1) l" using sl by (rule tree_at_frame [OF a(3)])
    moreover have "a \<notin> addrs r'" using ar a(6) by auto
    ultimately have t2: "tree_at h2 l" "tree_at h2 r'" using 1(5) a(5) by (auto simp: h2_def)
    have "h2 a = Some \<lparr>nkey = j, nleft = addr_of l, nright = addr_of r', nheight = nheight (cell l j r)\<rparr>"
      by (simp add: h2_def cell_def)
    from rebalance [OF this a(1) t2 a(5) _ _ a(8) 1(6) shrunk_right(1,2) [OF Node.prems(2) [unfolded y] 1(6,7)]]
    obtain h3 where 3: "balance h2 a = Some (addr_of (bal l (a, j) r'), h3)" "tree_at h3 (bal l (a, j) r')"
        "avl (bal l (a, j) r')" "\<forall>b. b \<notin> insert a (addrs l \<union> addrs r') \<longrightarrow> h3 b = h2 b"
      using ar a(6,7) by auto
    have "addr_of r \<noteq> 0" using False addr_of_0 [OF a(4)] by simp
    moreover have "poke s1 (RightOf a) (addr_of r') = Some (fst s1, h2)" using ha by (cases s1) (simp add: h2_def)
    ultimately have "remove_rightmost s a out = Some (addr_of (bal l (a, j) r'), fst s1, h3)"
      using a(2) 1(3) 3(1) by (subst remove_rightmost.simps) (simp add: cell_def)
    moreover have "changed s (fst s1, h3) out m (addrs (bal l (a, j) r'))"
      using 3(4) by (intro changed_heap [OF changed_mono [OF 1(4)]]) (auto simp: h2_def)
    ultimately show ?thesis using 3(2,3) shrunk_right(3) [OF Node.prems(2) [unfolded y] 1(6,7)] 1(1,2)
      by (intro exI [of _ "bal l (a, j) r'"] exI [of _ "(fst s1, h3)"] exI [of _ "inorder l @ (a, j) # xs"] exI [of _ m] exI [of _ i])
         (simp add: y inorder_bal)
  qed
qed simp

text \<open>The tree without the node \<open>x\<close>.\<close>

definition removed :: "addr \<times> u64 \<Rightarrow> atree \<Rightarrow> atree \<Rightarrow> bool" where
  "removed x t t' \<longleftrightarrow> (\<exists>xs ys. inorder t = xs @ x # ys \<and> inorder t' = xs @ ys)"

lemma removed_addrs: "removed x t t' \<Longrightarrow> addrs t' \<subseteq> addrs t"
  by (auto simp: removed_def addrs_inorder simp del: set_inorder)

lemma removed_sorted: "removed x t t' \<Longrightarrow> sorted_wrt (<) (ranks rank t) \<Longrightarrow> sorted_wrt (<) (ranks rank t')"
  by (auto simp: removed_def ranks_def sorted_wrt_append)

lemma balance_at_ok:
  assumes c: "changed s s1 n a X" "owner n \<inter> X = {}" "owner n \<subseteq> dom (snd s)"
    and h: "snd s1 a = Some \<lparr>nkey = k, nleft = addr_of l, nright = addr_of r, nheight = v\<rparr>" "a \<noteq> 0"
    and t: "tree_at (snd s1) l" "tree_at (snd s1) r" "a \<notin> addrs l" "a \<notin> addrs r" "addrs l \<inter> addrs r = {}"
    and b: "avl l" "avl r" "height l \<le> height r + 2" "height r \<le> height l + 2"
    and X: "insert a (addrs l \<union> addrs r) \<subseteq> X"
  shows "\<exists>s'. balance_at s1 n = Some s' \<and> changed s s' n (addr_of (bal l (a, k) r)) X \<and> tree_at (snd s') (bal l (a, k) r) \<and>
    avl (bal l (a, k) r) \<and> (\<forall>b. b \<notin> owner n \<and> b \<notin> insert a (addrs l \<union> addrs r) \<longrightarrow> snd s' b = snd s1 b)"
proof -
  define t' where "t' = bal l (a, k) r"
  obtain h' where h': "balance (snd s1) a = Some (addr_of t', h')" "tree_at h' t'" "avl t'"
      "\<forall>b. b \<notin> insert a (addrs l \<union> addrs r) \<longrightarrow> h' b = snd s1 b"
    using rebalance [OF h t b] by (auto simp: t'_def)
  have pk: "peek s1 n = Some a" using changed_peek [OF c] .
  have "changed s (fst s1, h') n a X" using c(1) by (rule changed_heap) (use h'(4) X in auto)
  from changed_poke [OF this c(2,3), of "addr_of t'"] obtain s2 where
      2: "poke (fst s1, h') n (addr_of t') = Some s2" "changed s s2 n (addr_of t') X" "\<forall>b. b \<notin> owner n \<longrightarrow> snd s2 b = h' b"
    by auto
  have "owner n \<inter> addrs t' = {}" using c(2) X by (auto simp: t'_def)
  then have "tree_at (snd s2) t'" using 2(3) by (intro tree_at_frame [OF h'(2)]) auto
  moreover have "balance_at s1 n = Some s2" using pk h'(1) 2(1) by (simp add: balance_at_def)
  ultimately show ?thesis using 2(2,3) h'(3,4) unfolding t'_def [symmetric] by (intro exI [of _ s2]) simp
qed

lemma tree_at_cell: "tree_at h t \<Longrightarrow> (m, j) \<in> set (inorder t) \<Longrightarrow> \<exists>l r. h m = Some (cell l j r)"
  by (induction h t rule: tree_at.induct) auto

lemma unlink_ok:
  assumes p: "peek s n = Some a" "owner n \<inter> insert a (addrs l \<union> addrs r) = {}" "owner n \<subseteq> dom (snd s)"
    and t: "tree_at (snd s) (Node l (a, k) r)" "avl (Node l (a, k) r)"
  shows "\<exists>t' s'. unlink s n = Some s' \<and> changed s s' n (addr_of t') (insert a (addrs l \<union> addrs r)) \<and> tree_at (snd s') t' \<and> avl t' \<and>
    grows t' (Node l (a, k) r) \<and> inorder t' = inorder l @ inorder r \<and> snd s' a = None"
proof -
  define X where "X = insert a (addrs l \<union> addrs r)"
  have a: "a \<noteq> 0" "snd s a = Some (cell l k r)" "tree_at (snd s) l" "tree_at (snd s) r" "a \<notin> addrs l" "a \<notin> addrs r"
      "addrs l \<inter> addrs r = {}" "avl l" "avl r" "height l \<le> height r + 1" "height r \<le> height l + 1"
    using t by simp_all
  have own: "owner n \<inter> X = {}" "a \<notin> owner n" using p(2) by (auto simp: X_def)
  define body where "body = (if nleft (cell l k r) \<noteq> 0 then
                   do { (l, s) \<leftarrow> remove_rightmost s (nleft (cell l k r)) n;
                        s \<leftarrow> poke s (LeftOf a) l;
                        p \<leftarrow> peek s n; l \<leftarrow> peek s (LeftOf a); s \<leftarrow> poke s (LeftOf p) l;
                        p \<leftarrow> peek s n; q \<leftarrow> peek s (RightOf a); s \<leftarrow> poke s (RightOf p) q;
                        balance_at s n }
                 else poke s n (nright (cell l k r)))"
  have un: "unlink s n = do { s \<leftarrow> body; Some (fst s, (snd s)(a := None)) }" using p(1) a(2) by (simp add: unlink_def body_def)
  have "\<exists>t' s'. body = Some s' \<and> changed s s' n (addr_of t') X \<and> tree_at (snd s') t' \<and> avl t' \<and>
    grows t' (Node l (a, k) r) \<and> inorder t' = inorder l @ inorder r"
  proof (cases "l = Leaf")
    case True
    from changed_poke [OF changed_refl [OF p(1)] own(1) p(3), of "addr_of r"] obtain s1 where
        1: "poke s n (addr_of r) = Some s1" "changed s s1 n (addr_of r) X" "\<forall>b. b \<notin> owner n \<longrightarrow> snd s1 b = snd s b" by blast
    have "tree_at (snd s1) r" using 1(3) own(1) by (intro tree_at_frame [OF a(4)]) (auto simp: X_def)
    then show ?thesis using True 1 a by (intro exI [of _ r] exI [of _ s1]) (simp add: body_def cell_def grows_def)
  next
    case False
    have "owner n \<inter> addrs l = {}" using own by (auto simp: X_def)
    from remove_rightmost_ok [OF p(3) a(3,8) False this] obtain l' s1 xs m j where
        1: "inorder l = xs @ [(m, j)]" "inorder l' = xs" "remove_rightmost s (addr_of l) n = Some (addr_of l', s1)"
          "changed s s1 n m (addrs l')" "tree_at (snd s1) l'" "avl l'" "grows l' l" by blast
    have al: "addrs l = insert m (addrs l')" using 1(1,2) by (auto simp: addrs_inorder simp del: set_inorder)
    have dist: "distinct (map fst (inorder t))" if "tree_at h t" for h t
      using that by (induction h t rule: tree_at.induct) (auto simp: addrs_def)
    have ml: "m \<notin> addrs l'" using dist [OF a(3)] 1(1,2) by (auto simp: addrs_inorder simp del: set_inorder)
    have ma: "m \<noteq> a" "m \<notin> owner n" "m \<notin> addrs r" "m \<noteq> 0" "a \<notin> addrs l'"
      using al a(5,7) own zero_not_in [OF a(3)] by (auto simp: X_def)
    have same: "snd s1 b = snd s b" if "b \<notin> addrs l'" "b \<notin> owner n" for b using changed_other [OF 1(4) that] .
    obtain l1 r1 where m: "snd s1 m = Some (cell l1 j r1)"
      using tree_at_cell [OF a(3), of m j] 1(1) same [OF ml ma(2)] by auto
    define h2 where "h2 = (snd s1)(a \<mapsto> (cell l k r)\<lparr>nleft := addr_of l'\<rparr>)"
    define h3 where "h3 = h2(m \<mapsto> (cell l1 j r1)\<lparr>nleft := addr_of l'\<rparr>)"
    define h4 where "h4 = h3(m \<mapsto> (cell l1 j r1)\<lparr>nleft := addr_of l', nright := addr_of r\<rparr>)"
    have ha: "snd s1 a = Some (cell l k r)" using same [OF ma(5) own(2)] a(2) by simp
    have c1: "changed s s1 n m X" using 1(4) by (rule changed_mono) (auto simp: X_def al)
    have c2: "changed s (fst s1, h2) n m X" using c1 by (rule changed_heap) (auto simp: h2_def X_def)
    have c3: "changed s (fst s1, h3) n m X" using c1 by (rule changed_heap) (auto simp: h2_def h3_def X_def al)
    have c4: "changed s (fst s1, h4) n m X" using c1 by (rule changed_heap) (auto simp: h2_def h3_def h4_def X_def al)
    have p1: "poke s1 (LeftOf a) (addr_of l') = Some (fst s1, h2)" using ha by (cases s1) (simp add: h2_def)
    have p2: "poke (fst s1, h2) (LeftOf m) (addr_of l') = Some (fst s1, h3)" using m ma(1) by (simp add: h2_def h3_def)
    have p3: "poke (fst s1, h3) (RightOf m) (addr_of r) = Some (fst s1, h4)" using m ma(1) by (simp add: h2_def h3_def h4_def)
    have q: "peek (fst s1, h2) n = Some m" "peek (fst s1, h3) n = Some m" "peek (fst s1, h2) (LeftOf a) = Some (addr_of l')"
        "peek (fst s1, h3) (RightOf a) = Some (addr_of r)"
      using changed_peek [OF c2 own(1) p(3)] changed_peek [OF c3 own(1) p(3)] ma(1) by (simp_all add: h2_def h3_def cell_def)
    have "addr_of l \<noteq> 0" using False addr_of_0 [OF a(3)] by simp
    then have body: "body = balance_at (fst s1, h4) n"
      using 1(3) p1 p2 p3 q by (simp add: body_def cell_def del: peek.simps poke.simps)
    have "tree_at (snd s1) r" using same own(1) al a(7) by (intro tree_at_frame [OF a(4)]) (auto simp: X_def)
    then have t4: "tree_at h4 l'" "tree_at h4 r" using 1(5) ml ma a(6) by (auto simp: h2_def h3_def h4_def)
    have h4m: "h4 m = Some \<lparr>nkey = j, nleft = addr_of l', nright = addr_of r, nheight = nheight (cell l1 j r1)\<rparr>"
      by (simp add: h4_def cell_def)
    have "addrs l' \<inter> addrs r = {}" "insert m (addrs l' \<union> addrs r) \<subseteq> X" using al a(7) by (auto simp: X_def)
    from balance_at_ok [OF c4 own(1) p(3) _ ma(4) _ _ ml ma(3) this(1) 1(6) a(9) shrunk_left(1,2) [OF t(2) 1(6,7)] this(2), of j] h4m t4
    obtain s' where "balance_at (fst s1, h4) n = Some s'" "changed s s' n (addr_of (bal l' (m, j) r)) X"
        "tree_at (snd s') (bal l' (m, j) r)" "avl (bal l' (m, j) r)"
      by auto
    moreover have "avl (Node l (m, j) r)" using t(2) by simp
    from shrunk_left(3) [OF this 1(6,7)] have "grows (bal l' (m, j) r) (Node l (a, k) r)" by (simp add: grows_def)
    ultimately show ?thesis using body 1(1,2)
      by (intro exI [of _ "bal l' (m, j) r"] exI [of _ s']) (simp add: inorder_bal grows_def)
  qed
  then obtain t' s' where r: "body = Some s'" "changed s s' n (addr_of t') X" "tree_at (snd s') t'" "avl t'"
      "grows t' (Node l (a, k) r)" "inorder t' = inorder l @ inorder r" by blast
  have "a \<notin> addrs t'" using r(6) a(5,6) by (auto simp: addrs_inorder simp del: set_inorder)
  then have "tree_at ((snd s')(a := None)) t'" using r(3) by simp
  moreover have "changed s (fst s', (snd s')(a := None)) n (addr_of t') X"
    using r(2) by (rule changed_heap) (auto simp: X_def)
  ultimately show ?thesis using un r X_def by (intro exI [of _ t'] exI [of _ "(fst s', (snd s')(a := None))"]) simp
qed

lemma changed_inner:
  assumes "changed s s1 n' v Y" "n' = LeftOf a \<or> n' = RightOf a" "insert a Y \<subseteq> X" "peek s n = Some w" "owner n \<inter> X = {}"
  shows "changed s s1 n w X"
  using assms by (cases s; cases s1; cases n) (auto simp: changed_def)

lemma changed_child:
  assumes "changed s s1 n' v Y" "a \<notin> Y" "snd s a = Some d"
  shows "n' = LeftOf a \<Longrightarrow> snd s1 a = Some (d\<lparr>nleft := v\<rparr>)" "n' = RightOf a \<Longrightarrow> snd s1 a = Some (d\<lparr>nright := v\<rparr>)"
  using assms by (cases s; cases s1; auto simp: changed_def)+

text \<open>The parent of the node that holds the key of rank \<open>i\<close>, \<open>p\<close> at the root.\<close>

fun above :: "(u64 \<Rightarrow> int) \<Rightarrow> int \<Rightarrow> atree \<Rightarrow> addr \<Rightarrow> addr" where
  "above rank i Leaf p = p"
| "above rank i (Node l (a, k) r) p =
     (if i = rank k then p else if i < rank k then above rank i l a else above rank i r a)"

lemma above_in: "above rank i t p = p \<or> above rank i t p \<in> addrs t"
  by (induction rank i t p rule: above.induct) (auto split: if_splits)

lemma removed_left:
  assumes "removed x l l'" shows "removed x (Node l y r) (bal l' y r)"
proof -
  obtain xs ys where "inorder l = xs @ x # ys" "inorder l' = xs @ ys" using assms by (auto simp: removed_def)
  then show ?thesis unfolding removed_def by (intro exI [of _ xs] exI [of _ "ys @ y # inorder r"]) (simp add: inorder_bal)
qed

lemma removed_right:
  assumes "removed x r r'" shows "removed x (Node l y r) (bal l y r')"
proof -
  obtain xs ys where "inorder r = xs @ x # ys" "inorder r' = xs @ ys" using assms by (auto simp: removed_def)
  then show ?thesis unfolding removed_def by (intro exI [of _ "inorder l @ y # xs"] exI [of _ ys]) (simp add: inorder_bal)
qed

lemma removed_in: "removed x t t' \<Longrightarrow> fst x \<in> addrs t"
  by (auto simp: removed_def addrs_inorder simp del: set_inorder)

text \<open>A key that is not there.\<close>

lemma remove_absent:
  assumes cmp: "orders cmp rank"
  shows "search_tree rank (snd s) t \<Longrightarrow> peek s n = Some (addr_of t) \<Longrightarrow> rank k \<notin> set (ranks rank t) \<Longrightarrow>
    remove_node cmp s n k q = Some (0, s)"
proof (induction t arbitrary: n q)
  case Leaf
  then show ?case by (subst remove_node.simps) simp
next
  case (Node l y r)
  obtain a j where y: "y = (a, j)" by fastforce
  note st = search_tree_Node [OF Node.prems(1) [unfolded y]]
  have a: "a \<noteq> 0" "snd s a = Some (cell l j r)" using Node.prems(1) by (simp_all add: search_tree_def y)
  have c: "cmp k j \<noteq> 0" using cmp Node.prems(3) by (auto simp: orders_def y)
  have "peek s (LeftOf a) = Some (addr_of l)" "peek s (RightOf a) = Some (addr_of r)" using a by (cases s; simp add: cell_def)+
  then have "remove_node cmp s (LeftOf a) k a = Some (0, s)" "remove_node cmp s (RightOf a) k a = Some (0, s)"
    using Node st by (simp_all add: y)
  then show ?case using a c Node.prems(2) by (subst remove_node.simps) (simp add: y cell_def Let_def)
qed

lemma remove_ok:
  assumes cmp: "orders cmp rank"
  shows "search_tree rank (snd s) t \<Longrightarrow> peek s n = Some (addr_of t) \<Longrightarrow> owner n \<inter> addrs t = {} \<Longrightarrow> owner n \<subseteq> dom (snd s) \<Longrightarrow>
    q \<noteq> 0 \<Longrightarrow> rank k \<in> set (ranks rank t) \<Longrightarrow>
    \<exists>t' s' x. remove_node cmp s n k q = Some (above rank (rank k) t q, s') \<and> changed s s' n (addr_of t') (addrs t) \<and>
      tree_at (snd s') t' \<and> avl t' \<and> grows t' t \<and> removed x t t' \<and> rank (snd x) = rank k \<and> snd s' (fst x) = None"
proof (induction t arbitrary: n q)
  case (Node l y r)
  obtain a j where y: "y = (a, j)" by fastforce
  note st = search_tree_Node [OF Node.prems(1) [unfolded y]]
  have t: "tree_at (snd s) (Node l (a, j) r)" "avl (Node l (a, j) r)" using Node.prems(1) by (simp_all add: search_tree_def y)
  then have a: "a \<noteq> 0" "snd s a = Some (cell l j r)" "tree_at (snd s) l" "tree_at (snd s) r" "a \<notin> addrs l" "a \<notin> addrs r"
      "addrs l \<inter> addrs r = {}" "avl l" "avl r" by simp_all
  have p: "peek s n = Some a" "owner n \<inter> insert a (addrs l \<union> addrs r) = {}" using Node.prems(2,3) by (simp_all add: y)
  have pl: "peek s (LeftOf a) = Some (addr_of l)" "peek s (RightOf a) = Some (addr_of r)"
    using a by (cases s; simp add: cell_def)+
  have own: "owner (LeftOf a) \<subseteq> dom (snd s)" "owner (RightOf a) \<subseteq> dom (snd s)"
      "owner (LeftOf a) \<inter> addrs l = {}" "owner (RightOf a) \<inter> addrs r = {}" using a by auto
  have c: "cmp k j = 0 \<longleftrightarrow> rank k = rank j" "cmp k j <s 0 \<longleftrightarrow> rank k < rank j" using cmp by (auto simp: orders_def y)
  consider "rank k = rank j" | "rank k < rank j" | "rank j < rank k" by linarith
  then show ?case
  proof cases
    case 1
    obtain t' s' where "unlink s n = Some s'" "changed s s' n (addr_of t') (insert a (addrs l \<union> addrs r))"
        "tree_at (snd s') t'" "avl t'" "grows t' (Node l (a, j) r)" "inorder t' = inorder l @ inorder r" "snd s' a = None"
      using unlink_ok [OF p Node.prems(4) t] by blast
    then show ?thesis using a(1,2) c 1 p(1) unfolding y
      by (intro exI [of _ t'] exI [of _ s'] exI [of _ "(a, j)"], subst remove_node.simps) (auto simp: removed_def cell_def)
  next
    case 2
    then have k: "rank k \<in> set (ranks rank l)" using Node.prems(6) st by (auto simp: y)
    from Node.IH(1) [OF conjunct1 [OF st] pl(1) own(3,1) a(1) k] obtain l' s1 x where
        1: "remove_node cmp s (LeftOf a) k a = Some (above rank (rank k) l a, s1)" "changed s s1 (LeftOf a) (addr_of l') (addrs l)"
          "tree_at (snd s1) l'" "avl l'" "grows l' l" "removed x l l'" "rank (snd x) = rank k" "snd s1 (fst x) = None" by blast
    have al: "addrs l' \<subseteq> addrs l" using 1(6) by (rule removed_addrs)
    have "snd s1 b = snd s b" if "b \<in> addrs r" for b
      using changed_other [OF 1(2), of b] that a(6,7) by auto
    then have tr: "tree_at (snd s1) r" by (rule tree_at_frame [OF a(4)])
    have h: "snd s1 a = Some \<lparr>nkey = j, nleft = addr_of l', nright = addr_of r, nheight = nheight (cell l j r)\<rparr>"
      using changed_child(1) [OF 1(2) a(5,2)] by (simp add: cell_def)
    have ch: "changed s s1 n a (insert a (addrs l \<union> addrs r))" using 1(2) _ _ p by (rule changed_inner) auto
    have d: "a \<notin> addrs l'" "addrs l' \<inter> addrs r = {}" "insert a (addrs l' \<union> addrs r) \<subseteq> insert a (addrs l \<union> addrs r)"
      using al a(5,7) by auto
    from balance_at_ok [OF ch p(2) Node.prems(4) h a(1) 1(3) tr d(1) a(6) d(2) 1(4) a(9) shrunk_left(1,2) [OF t(2) 1(4,5)] d(3)]
    obtain s' where s': "balance_at s1 n = Some s'" "changed s s' n (addr_of (bal l' (a, j) r)) (insert a (addrs l \<union> addrs r))"
        "tree_at (snd s') (bal l' (a, j) r)" "avl (bal l' (a, j) r)"
        "\<And>b. b \<notin> owner n \<Longrightarrow> b \<notin> insert a (addrs l' \<union> addrs r) \<Longrightarrow> snd s' b = snd s1 b" by blast
    have "fst x \<notin> addrs l'" using tree_at_mapped [OF 1(3)] 1(8) by blast
    then have "fst x \<notin> owner n" "fst x \<notin> insert a (addrs l' \<union> addrs r)" using removed_in [OF 1(6)] p(2) a(5,7) by auto
    then have "snd s' (fst x) = None" using s'(5) [of "fst x"] 1(8) by simp
    moreover have "above rank (rank k) l a \<noteq> 0" using above_in [of rank "rank k" l a] a(1) zero_not_in [OF a(3)] by metis
    then have "remove_node cmp s n k q = Some (above rank (rank k) l a, s')"
      using a(1,2) c 2 p(1) 1(1) s'(1) by (subst remove_node.simps) (simp add: cell_def)
    ultimately show ?thesis using s' 2 1(7) removed_left [OF 1(6), of "(a, j)" r] shrunk_left(3) [OF t(2) 1(4,5)] unfolding y
      by (intro exI [of _ "bal l' (a, j) r"] exI [of _ s'] exI [of _ x]) simp
  next
    case 3
    then have k: "rank k \<in> set (ranks rank r)" using Node.prems(6) st by (auto simp: y)
    from Node.IH(2) [OF conjunct1 [OF conjunct2 [OF st]] pl(2) own(4,2) a(1) k] obtain r' s1 x where
        1: "remove_node cmp s (RightOf a) k a = Some (above rank (rank k) r a, s1)" "changed s s1 (RightOf a) (addr_of r') (addrs r)"
          "tree_at (snd s1) r'" "avl r'" "grows r' r" "removed x r r'" "rank (snd x) = rank k" "snd s1 (fst x) = None" by blast
    have ar: "addrs r' \<subseteq> addrs r" using 1(6) by (rule removed_addrs)
    have "snd s1 b = snd s b" if "b \<in> addrs l" for b
      using changed_other [OF 1(2), of b] that a(5,7) by auto
    then have tl: "tree_at (snd s1) l" by (rule tree_at_frame [OF a(3)])
    have h: "snd s1 a = Some \<lparr>nkey = j, nleft = addr_of l, nright = addr_of r', nheight = nheight (cell l j r)\<rparr>"
      using changed_child(2) [OF 1(2) a(6,2)] by (simp add: cell_def)
    have ch: "changed s s1 n a (insert a (addrs l \<union> addrs r))" using 1(2) _ _ p by (rule changed_inner) auto
    have d: "a \<notin> addrs r'" "addrs l \<inter> addrs r' = {}" "insert a (addrs l \<union> addrs r') \<subseteq> insert a (addrs l \<union> addrs r)"
      using ar a(6,7) by auto
    from balance_at_ok [OF ch p(2) Node.prems(4) h a(1) tl 1(3) a(5) d(1,2) a(8) 1(4) shrunk_right(1,2) [OF t(2) 1(4,5)] d(3)]
    obtain s' where s': "balance_at s1 n = Some s'" "changed s s' n (addr_of (bal l (a, j) r')) (insert a (addrs l \<union> addrs r))"
        "tree_at (snd s') (bal l (a, j) r')" "avl (bal l (a, j) r')"
        "\<And>b. b \<notin> owner n \<Longrightarrow> b \<notin> insert a (addrs l \<union> addrs r') \<Longrightarrow> snd s' b = snd s1 b" by blast
    have "fst x \<notin> addrs r'" using tree_at_mapped [OF 1(3)] 1(8) by blast
    then have "fst x \<notin> owner n" "fst x \<notin> insert a (addrs l \<union> addrs r')" using removed_in [OF 1(6)] p(2) a(6,7) by auto
    then have "snd s' (fst x) = None" using s'(5) [of "fst x"] 1(8) by simp
    moreover have "above rank (rank k) r a \<noteq> 0" using above_in [of rank "rank k" r a] a(1) zero_not_in [OF a(4)] by metis
    then have "remove_node cmp s n k q = Some (above rank (rank k) r a, s')"
      using a(1,2) c 3 p(1) 1(1) s'(1) by (subst remove_node.simps) (simp add: cell_def)
    ultimately show ?thesis using s' 3 1(7) removed_right [OF 1(6), of l "(a, j)"] shrunk_right(3) [OF t(2) 1(4,5)] unfolding y
      by (intro exI [of _ "bal l (a, j) r'"] exI [of _ s'] exI [of _ x]) simp
  qed
qed simp

text \<open>The walk: in order, the visits that are the second of three or the only one.\<close>

lemma walk_ok:
  "tree_at h t \<Longrightarrow> \<exists>xs. walk_from h (addr_of t) d = Some xs \<and> length xs \<le> 3 * size t \<and>
    map fst (filter (\<lambda>v. fst (snd v) \<in> {postorder, leaf}) xs) = map fst (inorder t)"
proof (induction t arbitrary: d)
  case Leaf
  then show ?case by (subst walk_from.simps) simp
next
  case (Node l y r)
  obtain a j where y: "y = (a, j)" by fastforce
  have a: "a \<noteq> 0" "h a = Some (cell l j r)" "tree_at h l" "tree_at h r" using Node.prems by (simp_all add: y)
  obtain xs where xs: "walk_from h (addr_of l) (d + 1) = Some xs" "length xs \<le> 3 * size l"
      "map fst (filter (\<lambda>v. fst (snd v) \<in> {postorder, leaf}) xs) = map fst (inorder l)"
    using Node.IH(1) [OF a(3)] by blast
  obtain ys where ys: "walk_from h (addr_of r) (d + 1) = Some ys" "length ys \<le> 3 * size r"
      "map fst (filter (\<lambda>v. fst (snd v) \<in> {postorder, leaf}) ys) = map fst (inorder r)"
    using Node.IH(2) [OF a(4)] by blast
  show ?case
  proof (cases "l = Leaf \<and> r = Leaf")
    case True
    then show ?thesis using a by (subst walk_from.simps) (simp add: y cell_def)
  next
    case False
    then have "\<not> (addr_of l = 0 \<and> addr_of r = 0)" using addr_of_0 [OF a(3)] addr_of_0 [OF a(4)] by simp
    then have "walk_from h a d = Some ((a, preorder, d) # xs @ (a, postorder, d) # ys @ [(a, endorder, d)])"
      using a xs(1) ys(1) by (subst walk_from.simps) (simp add: cell_def)
    then show ?thesis using xs(2,3) ys(2,3) by (simp add: y)
  qed
qed

section \<open>Depth\<close>

text \<open>The least number of null links in a balanced tree of a height.\<close>

fun thinnest :: "nat \<Rightarrow> nat" where
  "thinnest 0 = 1"
| "thinnest (Suc 0) = 2"
| "thinnest (Suc (Suc n)) = thinnest n + thinnest (Suc n)"

lemma thinnest_mono: "m \<le> n \<Longrightarrow> thinnest m \<le> thinnest n"
proof (rule lift_Suc_mono_le [of thinnest])
  show "thinnest k \<le> thinnest (Suc k)" for k by (induction k rule: thinnest.induct) simp_all
qed

lemma avl_thinnest: "avl t \<Longrightarrow> thinnest (height t) \<le> size1 t"
proof (induction t)
  case (Node l x r)
  define m where "m = max (height l) (height r)"
  have IH: "thinnest (height l) \<le> size1 l" "thinnest (height r) \<le> size1 r" using Node by simp_all
  show ?case
  proof (cases m)
    case 0
    then show ?thesis by (simp add: m_def)
  next
    case (Suc n)
    then have "height l = Suc n \<and> n \<le> height r \<or> height r = Suc n \<and> n \<le> height l"
      using Node.prems unfolding m_def by (auto simp: max_def split: if_splits)
    then have "thinnest (Suc n) + thinnest n \<le> size1 l + size1 r"
      using IH thinnest_mono [of n "height l"] thinnest_mono [of n "height r"] by auto
    then show ?thesis using Suc by (simp add: m_def [symmetric])
  qed
qed simp

lemma thinnest_add: "thinnest (m + n + 3) = thinnest (m + 1) * thinnest (n + 1) + thinnest m * thinnest n"
proof (induction m arbitrary: n rule: thinnest.induct)
  case 1
  show ?case by (simp add: numeral_eq_Suc)
next
  case 2
  show ?case by (simp add: numeral_eq_Suc)
next
  case (3 m)
  have "thinnest (Suc (Suc m) + n + 3) = thinnest (m + n + 3) + thinnest (Suc m + n + 3)" by (simp add: numeral_eq_Suc)
  also have "\<dots> = (thinnest (m + 1) * thinnest (n + 1) + thinnest m * thinnest n) +
      (thinnest (Suc m + 1) * thinnest (n + 1) + thinnest (Suc m) * thinnest n)" by (simp only: 3)
  finally show ?case by (simp add: algebra_simps)
qed

lemma thinnest_46: "thinnest 46 = 4807526976"
proof -
  have 1: "thinnest 9 = 89" "thinnest 10 = 144" "thinnest 11 = 233" by (simp_all add: numeral_eq_Suc)
  have 2: "thinnest 21 = 28657" "thinnest 22 = 46368" "thinnest 23 = 75025"
    using thinnest_add [of 9 9] thinnest_add [of 10 9] thinnest_add [of 10 10] 1 by simp_all
  show ?thesis using thinnest_add [of 22 21] 2 by simp
qed

lemma avl_depth:
  assumes "avl t" "size t \<le> 2 ^ 32"
  shows "height t \<le> 45"
proof (rule ccontr)
  assume "\<not> height t \<le> 45"
  then have "thinnest 46 \<le> size1 t" using thinnest_mono [of 46 "height t"] avl_thinnest [OF assms(1)] by linarith
  then show False using assms(2) by (simp add: thinnest_46 size1_size)
qed

section \<open>Sessions\<close>

text \<open>
  A program that keeps a set of keys calls the functions in any order. The set is the one of the ranks of the
  keys; an answer is whether the function has returned a node.
\<close>

datatype key_op = Insert u64 | Remove u64 | Lookup u64

text \<open>What the answers promise. An insertion may be refused, for want of memory.\<close>

fun set_step :: "(u64 \<Rightarrow> int) \<Rightarrow> key_op \<Rightarrow> int set \<Rightarrow> bool \<Rightarrow> int set \<Rightarrow> bool" where
  "set_step rank (Insert k) K b K' \<longleftrightarrow> (if b then K' = insert (rank k) K else K' = K \<and> rank k \<notin> K)"
| "set_step rank (Remove k) K b K' \<longleftrightarrow> (b \<longleftrightarrow> rank k \<in> K) \<and> K' = K - {rank k}"
| "set_step rank (Lookup k) K b K' \<longleftrightarrow> (b \<longleftrightarrow> rank k \<in> K) \<and> K' = K"

fun set_run :: "(u64 \<Rightarrow> int) \<Rightarrow> key_op list \<Rightarrow> int set \<Rightarrow> bool list \<Rightarrow> int set \<Rightarrow> bool" where
  "set_run rank [] K bs K' \<longleftrightarrow> bs = [] \<and> K' = K"
| "set_run rank (p # ps) K bs K' \<longleftrightarrow> (\<exists>b cs L. bs = b # cs \<and> set_step rank p K b L \<and> set_run rank ps L cs K')"

fun session :: "(key_op \<Rightarrow> 's \<Rightarrow> (bool \<times> 's) option) \<Rightarrow> key_op list \<Rightarrow> 's \<Rightarrow> (bool list \<times> 's) option" where
  "session step [] s = Some ([], s)"
| "session step (p # ps) s = do { (b, s) \<leftarrow> step p s; (bs, s) \<leftarrow> session step ps s; Some (b # bs, s) }"

locale key_set =
  fixes rank_of :: "'s \<Rightarrow> u64 \<Rightarrow> int" and step :: "key_op \<Rightarrow> 's \<Rightarrow> (bool \<times> 's) option" and holds :: "'s \<Rightarrow> int set \<Rightarrow> bool"
  assumes step: "holds s K \<Longrightarrow> \<exists>b s' K'. step p s = Some (b, s') \<and> set_step (rank_of s) p K b K' \<and> holds s' K' \<and> rank_of s' = rank_of s"
begin

lemma run:
  "holds s K \<Longrightarrow> \<exists>bs s' K'. session step ps s = Some (bs, s') \<and> set_run (rank_of s) ps K bs K' \<and> holds s' K' \<and> rank_of s' = rank_of s"
proof (induction ps arbitrary: s K)
  case (Cons p ps)
  obtain b s1 L where 1: "step p s = Some (b, s1)" "set_step (rank_of s) p K b L" "holds s1 L" "rank_of s1 = rank_of s"
    using step [OF Cons.prems] by blast
  obtain bs s' K' where "session step ps s1 = Some (bs, s')" "set_run (rank_of s) ps L bs K'" "holds s' K'" "rank_of s' = rank_of s"
    using Cons.IH [OF 1(3)] 1(4) by auto
  with 1 show ?case by (intro exI [of _ "b # bs"] exI [of _ s'] exI [of _ K']) auto
qed simp

end

text \<open>
  The environment of the tree: the comparison with the ranks it goes by, \<open>malloc\<close> over the states of the
  allocator, and the pairs of such a state and the addresses in use that can come about.
\<close>

record 'x tenv =
  tcmp :: "u64 \<Rightarrow> u64 \<Rightarrow> u32"
  trank :: "u64 \<Rightarrow> int"
  tmalloc :: "'x \<Rightarrow> addr \<times> 'x"
  tused :: "'x \<Rightarrow> addr set \<Rightarrow> bool"

text \<open>\<open>malloc\<close> returns 0 or an address that is not in use; what is freed is no longer in use.\<close>

definition allocates :: "'x tenv \<Rightarrow> bool" where
  "allocates e \<longleftrightarrow>
     (\<forall>x A B. tused e x A \<and> B \<subseteq> A \<longrightarrow> tused e x B) \<and>
     (\<forall>x A p x'. tused e x A \<and> tmalloc e x = (p, x') \<longrightarrow> (if p = 0 then tused e x' A else p \<notin> A \<and> tused e x' (insert p A)))"

lemma allocates_malloc:
  "allocates e \<Longrightarrow> tused e x A \<Longrightarrow> tmalloc e x = (p, x') \<Longrightarrow>
    if p = 0 then tused e x' A else p \<notin> A \<and> tused e x' (insert p A)"
  unfolding allocates_def by blast

lemma allocates_mono: "allocates e \<Longrightarrow> tused e x A \<Longrightarrow> B \<subseteq> A \<Longrightarrow> tused e x B"
  unfolding allocates_def by blast

record 'x tstate =
  tenv :: "'x tenv"
  troot :: addr
  theap :: nheap
  talloc :: 'x

fun tree_step :: "key_op \<Rightarrow> 'x tstate \<Rightarrow> (bool \<times> 'x tstate) option" where
  "tree_step (Insert k) s =
     do { (p, root, h, x) \<leftarrow> tsearch (tcmp (tenv s)) (tmalloc (tenv s)) k (Some (troot s)) (theap s) (talloc s);
          root \<leftarrow> root; Some (p \<noteq> 0, s\<lparr>troot := root, theap := h, talloc := x\<rparr>) }"
| "tree_step (Remove k) s =
     do { (p, root, h) \<leftarrow> tdelete (tcmp (tenv s)) k (Some (troot s)) (theap s);
          root \<leftarrow> root; Some (p \<noteq> 0, s\<lparr>troot := root, theap := h\<rparr>) }"
| "tree_step (Lookup k) s =
     do { p \<leftarrow> tfind (tcmp (tenv s)) k (Some (troot s)) (theap s); Some (p \<noteq> 0, s) }"

definition tree_holds :: "'x tstate \<Rightarrow> int set \<Rightarrow> bool" where
  "tree_holds s K \<longleftrightarrow> orders (tcmp (tenv s)) (trank (tenv s)) \<and> allocates (tenv s) \<and> tused (tenv s) (talloc s) (dom (theap s)) \<and>
     (\<exists>t. troot s = addr_of t \<and> search_tree (trank (tenv s)) (theap s) t \<and> K = set (ranks (trank (tenv s)) t))"

lemma inserted_ranks: "inserted rank p k t t' \<Longrightarrow> set (ranks rank t') = insert (rank k) (set (ranks rank t))"
  unfolding inserted_def ranks_def by (elim exE conjE) (simp del: set_inorder)

lemma sorted_mid: "sorted_wrt (<) (us @ i # vs) \<Longrightarrow> set (us @ vs) = set (us @ i # vs) - {i :: int}"
  by (auto simp: sorted_wrt_append)

lemma removed_ranks:
  assumes "removed x t t'" "sorted_wrt (<) (ranks rank t)"
  shows "set (ranks rank t') = set (ranks rank t) - {rank (snd x)}"
proof -
  obtain xs ys where x: "inorder t = xs @ x # ys" "inorder t' = xs @ ys" using assms(1) unfolding removed_def by blast
  have "ranks rank t = map (rank \<circ> snd) xs @ rank (snd x) # map (rank \<circ> snd) ys" unfolding ranks_def x(1) by simp
  moreover have "ranks rank t' = map (rank \<circ> snd) xs @ map (rank \<circ> snd) ys" unfolding ranks_def x(2) by simp
  ultimately show ?thesis using sorted_mid assms(2) by metis
qed

lemma node_addr: "tree_at h t \<Longrightarrow> (p, j) \<in> set (inorder t) \<Longrightarrow> p \<noteq> 0"
  by (induction h t rule: tree_at.induct) auto

lemma insert_step:
  assumes "tree_holds s K"
  shows "\<exists>b s' K'. tree_step (Insert k) s = Some (b, s') \<and> set_step (trank (tenv s)) (Insert k) K b K' \<and> tree_holds s' K' \<and>
    trank (tenv s') = trank (tenv s)"
proof -
  obtain t where e: "orders (tcmp (tenv s)) (trank (tenv s))" "allocates (tenv s)" "tused (tenv s) (talloc s) (dom (theap s))"
    and t: "troot s = addr_of t" "search_tree (trank (tenv s)) (theap s) t" "K = set (ranks (trank (tenv s)) t)"
    using assms by (auto simp: tree_holds_def)
  have ts: "tree_at (theap s) t" "avl t" "sorted_wrt (<) (ranks (trank (tenv s)) t)" using t(2) by (simp_all add: search_tree_def)
  obtain p x' where m: "tmalloc (tenv s) (talloc s) = (p, x')" by fastforce
  then have al: "if p = 0 then tused (tenv s) x' (dom (theap s)) else p \<notin> dom (theap s) \<and> tused (tenv s) x' (insert p (dom (theap s)))"
    using allocates_malloc [OF e(2,3) m] by blast
  consider "trank (tenv s) k \<in> K" | "trank (tenv s) k \<notin> K" "p = 0" | "trank (tenv s) k \<notin> K" "p \<noteq> 0" by blast
  then show ?thesis
  proof cases
    case 1
    obtain p j where i: "insert_node (tcmp (tenv s)) (tmalloc (tenv s)) (addr_of t) k (theap s) (talloc s) = Some ((0, p), theap s, talloc s)"
        "(p, j) \<in> set (inorder t)" using insert_present [OF e(1) t(2) 1 [unfolded t(3)], where malloc = "tmalloc (tenv s)" and x = "talloc s"] by blast
    have "p \<noteq> 0" using node_addr [OF ts(1) i(2)] .
    then have "tree_step (Insert k) s = Some (True, s)" using i(1) t(1) by (simp add: tsearch_def)
    then show ?thesis using 1 assms by (intro exI [of _ True] exI [of _ s] exI [of _ K]) auto
  next
    case 2
    then have "tree_step (Insert k) s = Some (False, s\<lparr>talloc := x'\<rparr>)"
      using insert_fails [where malloc = "tmalloc (tenv s)" and x = "talloc s", OF e(1) t(2)] m t(1,3) by (simp add: tsearch_def)
    moreover have "tree_holds (s\<lparr>talloc := x'\<rparr>) K" using e t al 2 by (auto simp: tree_holds_def)
    ultimately show ?thesis using 2 by (intro exI [of _ False] exI [of _ "s\<lparr>talloc := x'\<rparr>"] exI [of _ K]) auto
  next
    case 3
    have "theap s p = None" using al 3 by auto
    from insert_ok [where malloc = "tmalloc (tenv s)" and x = "talloc s", OF e(1) m 3(2) this t(2) 3(1) [unfolded t(3)]] obtain t' h' where
        i: "insert_node (tcmp (tenv s)) (tmalloc (tenv s)) (addr_of t) k (theap s) (talloc s) = Some ((addr_of t', p), h', x')"
          "tree_at h' t'" "avl t'" "inserted (trank (tenv s)) p k t t'" "\<forall>b. b \<notin> insert p (addrs t) \<longrightarrow> h' b = theap s b" by blast
    have "addr_of t' \<noteq> 0" using addr_of_0 [OF i(2)] inserted_addrs [OF i(4)] by auto
    then have st: "tree_step (Insert k) s = Some (True, s\<lparr>troot := addr_of t', theap := h', talloc := x'\<rparr>)"
      using i(1) t(1) 3 by (simp add: tsearch_def)
    have "b \<in> insert p (dom (theap s))" if "b \<in> dom h'" for b
      using that i(5) tree_at_mapped [OF ts(1), of b] by (cases "b \<in> insert p (addrs t)") auto
    then have "dom h' \<subseteq> insert p (dom (theap s))" by blast
    moreover have "tused (tenv s) x' (insert p (dom (theap s)))" using al 3 by simp
    ultimately have "tused (tenv s) x' (dom h')" using allocates_mono [OF e(2)] by blast
    moreover have "search_tree (trank (tenv s)) h' t'" using i inserted_sorted [OF i(4) ts(3)] by (simp add: search_tree_def)
    ultimately have "tree_holds (s\<lparr>troot := addr_of t', theap := h', talloc := x'\<rparr>) (insert (trank (tenv s) k) K)"
      using e inserted_ranks [OF i(4)] t(3) by (auto simp: tree_holds_def)
    then show ?thesis using st by (intro exI [of _ True] exI [of _ "s\<lparr>troot := addr_of t', theap := h', talloc := x'\<rparr>"]) auto
  qed
qed

lemma remove_step:
  assumes "tree_holds s K"
  shows "\<exists>b s' K'. tree_step (Remove k) s = Some (b, s') \<and> set_step (trank (tenv s)) (Remove k) K b K' \<and> tree_holds s' K' \<and>
    trank (tenv s') = trank (tenv s)"
proof -
  obtain t where e: "orders (tcmp (tenv s)) (trank (tenv s))" "allocates (tenv s)" "tused (tenv s) (talloc s) (dom (theap s))"
    and t: "troot s = addr_of t" "search_tree (trank (tenv s)) (theap s) t" "K = set (ranks (trank (tenv s)) t)"
    using assms by (auto simp: tree_holds_def)
  have ts: "tree_at (theap s) t" "sorted_wrt (<) (ranks (trank (tenv s)) t)" using t(2) by (simp_all add: search_tree_def)
  show ?thesis
  proof (cases "trank (tenv s) k \<in> K")
    case False
    then have "remove_node (tcmp (tenv s)) (addr_of t, theap s) Root k (addr_of t) = Some (0, (addr_of t, theap s))"
      using t(2,3) by (intro remove_absent [OF e(1)]) auto
    then have "tree_step (Remove k) s = Some (False, s)" using t(1) by (simp add: tdelete_def)
    then show ?thesis using False assms by (intro exI [of _ False] exI [of _ s] exI [of _ K]) auto
  next
    case True
    then have n: "addr_of t \<noteq> 0" using addr_of_0 [OF ts(1)] t(3) by auto
    obtain t' s' x where r: "remove_node (tcmp (tenv s)) (addr_of t, theap s) Root k (addr_of t) =
          Some (above (trank (tenv s)) (trank (tenv s) k) t (addr_of t), s')"
        "changed (addr_of t, theap s) s' Root (addr_of t') (addrs t)"
        "tree_at (snd s') t'" "avl t'" "removed x t t'" "trank (tenv s) (snd x) = trank (tenv s) k"
      using remove_ok [OF e(1), where s = "(addr_of t, theap s)" and n = Root and q = "addr_of t"] t(2,3) n True by fastforce
    have "above (trank (tenv s)) (trank (tenv s) k) t (addr_of t) \<noteq> 0" using above_in [of "trank (tenv s)" "trank (tenv s) k" t "addr_of t"] n zero_not_in [OF ts(1)] by metis
    moreover have s': "fst s' = addr_of t'" "\<And>b. b \<notin> addrs t \<Longrightarrow> snd s' b = theap s b" using r(2) by (auto simp: changed_def)
    ultimately have st: "tree_step (Remove k) s = Some (True, s\<lparr>troot := addr_of t', theap := snd s'\<rparr>)"
      using r(1) t(1) by (cases s') (simp add: tdelete_def)
    have "b \<in> dom (theap s)" if "b \<in> dom (snd s')" for b
      using that s'(2) tree_at_mapped [OF ts(1), of b] by (cases "b \<in> addrs t") auto
    then have "dom (snd s') \<subseteq> dom (theap s)" by blast
    then have "tused (tenv s) (talloc s) (dom (snd s'))" using allocates_mono [OF e(2,3)] by blast
    moreover have "search_tree (trank (tenv s)) (snd s') t'" using r removed_sorted [OF r(5) ts(2)] by (simp add: search_tree_def)
    ultimately have "tree_holds (s\<lparr>troot := addr_of t', theap := snd s'\<rparr>) (K - {trank (tenv s) k})"
      using e removed_ranks [OF r(5) ts(2)] t(3) r(6) by (auto simp: tree_holds_def)
    then show ?thesis using st True by (intro exI [of _ True] exI [of _ "s\<lparr>troot := addr_of t', theap := snd s'\<rparr>"]) auto
  qed
qed

lemma lookup_step:
  assumes "tree_holds s K"
  shows "\<exists>b s' K'. tree_step (Lookup k) s = Some (b, s') \<and> set_step (trank (tenv s)) (Lookup k) K b K' \<and> tree_holds s' K' \<and>
    trank (tenv s') = trank (tenv s)"
proof -
  obtain t where e: "orders (tcmp (tenv s)) (trank (tenv s))"
    and t: "troot s = addr_of t" "search_tree (trank (tenv s)) (theap s) t" "K = set (ranks (trank (tenv s)) t)"
    using assms by (auto simp: tree_holds_def)
  obtain p where p: "find_node (tcmp (tenv s)) (theap s) (addr_of t) k = Some p"
      "if trank (tenv s) k \<in> K then \<exists>j. (p, j) \<in> set (inorder t) \<and> trank (tenv s) j = trank (tenv s) k else p = 0"
    using find_ok [OF e t(2)] t(3) by blast
  have "tree_at (theap s) t" using t(2) by (simp add: search_tree_def)
  then have "p \<noteq> 0 \<longleftrightarrow> trank (tenv s) k \<in> K" using p(2) node_addr by (metis (mono_tags, lifting))
  then have "tree_step (Lookup k) s = Some (trank (tenv s) k \<in> K, s)" using p(1) t(1) by (simp add: tfind_def)
  then show ?thesis using assms by (intro exI [of _ "trank (tenv s) k \<in> K"] exI [of _ s] exI [of _ K]) auto
qed

interpretation tree: key_set "\<lambda>s. trank (tenv s)" tree_step tree_holds
proof unfold_locales
  show "\<exists>b s' K'. tree_step p s = Some (b, s') \<and> set_step (trank (tenv s)) p K b K' \<and> tree_holds s' K' \<and> trank (tenv s') = trank (tenv s)"
    if "tree_holds s K" for s :: "'a tstate" and K p
    using insert_step [OF that] remove_step [OF that] lookup_step [OF that] by (cases p) blast+
qed

section \<open>The walk after a session\<close>

text \<open>The levels of a walk, and the keys in the nodes it visits.\<close>

lemma walk_levels:
  "tree_at h t \<Longrightarrow> unat d + height t < 2 ^ 32 \<Longrightarrow> walk_from h (addr_of t) d = Some xs \<Longrightarrow> v \<in> set xs \<Longrightarrow>
    unat (snd (snd v)) < unat d + height t"
proof (induction t arbitrary: d xs)
  case Leaf
  then show ?case by (simp add: walk_from.simps)
next
  case (Node l y r)
  obtain a j where y: "y = (a, j)" by fastforce
  have a: "a \<noteq> 0" "h a = Some (cell l j r)" "tree_at h l" "tree_at h r" using Node.prems(1) by (simp_all add: y)
  have u: "unat (d + 1) = unat d + 1" using Node.prems(2) unat_word_ariths(1) [of d 1] by simp
  show ?case
  proof (cases "addr_of l = 0 \<and> addr_of r = 0")
    case True
    then have "xs = [(a, leaf, d)]" using Node.prems(3) a by (simp add: y cell_def walk_from.simps [of h a])
    then show ?thesis using Node.prems(4) by simp
  next
    case False
    obtain ls where ls: "walk_from h (addr_of l) (d + 1) = Some ls" using walk_ok [OF a(3), of "d + 1"] by blast
    obtain rs where rs: "walk_from h (addr_of r) (d + 1) = Some rs" using walk_ok [OF a(4), of "d + 1"] by blast
    have "xs = (a, preorder, d) # ls @ (a, postorder, d) # rs @ [(a, endorder, d)]"
      using Node.prems(3) a ls rs False by (auto simp: y cell_def walk_from.simps [of h a])
    then consider "snd (snd v) = d" | "v \<in> set ls" | "v \<in> set rs" using Node.prems(4) by auto
    then show ?thesis
    proof cases
      case 2
      then have "unat (snd (snd v)) < unat (d + 1) + height l" using Node.prems(2) u by (intro Node.IH(1) [OF a(3) _ ls]) auto
      then show ?thesis using u by simp
    next
      case 3
      then have "unat (snd (snd v)) < unat (d + 1) + height r" using Node.prems(2) u by (intro Node.IH(2) [OF a(4) _ rs]) auto
      then show ?thesis using u by simp
    qed simp
  qed
qed

lemma tree_keys: "tree_at h t \<Longrightarrow> map (\<lambda>a. rank (nkey (the (h a)))) (map fst (inorder t)) = ranks rank t"
  by (induction h t rule: tree_at.induct) (auto simp: cell_def)

lemma sorted_ranks: "sorted_wrt (<) (ranks rank t) \<Longrightarrow> sorted_list_of_set (set (ranks rank t)) = ranks rank t"
  by (simp add: strict_sorted_iff sorted_list_of_set.idem_if_sorted_distinct)

text \<open>A walk through the tree that a session has left.\<close>

lemma holds_walk:
  assumes "tree_holds s K"
  shows "\<exists>xs. twalk (troot s) (theap s) = Some xs \<and>
    map (\<lambda>v. trank (tenv s) (nkey (the (theap s (fst v))))) (filter (\<lambda>v. fst (snd v) \<in> {postorder, leaf}) xs) = sorted_list_of_set K \<and>
    (\<forall>v\<in>set xs. \<exists>d. theap s (troot s) = Some d \<and> snd (snd v) < nheight d \<and> nheight d \<le> 129 \<and> (card K \<le> 2 ^ 32 \<longrightarrow> nheight d \<le> 45))"
proof -
  let ?rank = "trank (tenv s)"
  obtain t where t: "troot s = addr_of t" "search_tree ?rank (theap s) t" "K = set (ranks ?rank t)"
    using assms by (auto simp: tree_holds_def)
  have at: "tree_at (theap s) t" "avl t" "sorted_wrt (<) (ranks ?rank t)" using t(2) by (simp_all add: search_tree_def)
  obtain xs where xs: "twalk (addr_of t) (theap s) = Some xs"
      "map fst (filter (\<lambda>v. fst (snd v) \<in> {postorder, leaf}) xs) = map fst (inorder t)"
    using walk_ok [OF at(1), of 0] by (auto simp: twalk_def)
  have "map (\<lambda>v. ?rank (nkey (the (theap s (fst v))))) (filter (\<lambda>v. fst (snd v) \<in> {postorder, leaf}) xs) =
      map (\<lambda>a. ?rank (nkey (the (theap s a)))) (map fst (filter (\<lambda>v. fst (snd v) \<in> {postorder, leaf}) xs))" by simp
  also have "\<dots> = sorted_list_of_set K" unfolding xs(2) tree_keys [OF at(1)] t(3) sorted_ranks [OF at(3)] ..
  finally have keys: "map (\<lambda>v. ?rank (nkey (the (theap s (fst v))))) (filter (\<lambda>v. fst (snd v) \<in> {postorder, leaf}) xs) = sorted_list_of_set K" .
  have h: "height t \<le> 129" using avl_height [OF at(1,2)] .
  have "\<exists>d. theap s (troot s) = Some d \<and> snd (snd v) < nheight d \<and> nheight d \<le> 129 \<and> (card K \<le> 2 ^ 32 \<longrightarrow> nheight d \<le> 45)"
    if v: "v \<in> set xs" for v
  proof -
    have lv: "unat (snd (snd v)) < height t"
      using walk_levels [OF at(1) _ xs(1) [unfolded twalk_def] v] h by simp
    then obtain l a k r where n: "t = Node l (a, k) r" by (cases t) auto
    have uh: "unat (of_nat (height t) :: u32) = height t" using h by (simp add: unat_of_nat take_bit_nat_eq_self)
    have d: "theap s (troot s) = Some (cell l k r)" "nheight (cell l k r) = of_nat (height t)"
      using at(1) t(1) n by (simp_all add: cell_def)
    have "card K = size t" unfolding t(3) using at(3) distinct_card [of "ranks ?rank t"] by (simp add: strict_sorted_iff ranks_def)
    then have "card K \<le> 2 ^ 32 \<Longrightarrow> height t \<le> 45" using avl_depth [OF at(2)] by simp
    then show ?thesis using d lv h uh by (auto simp: word_less_nat_alt word_le_nat_alt)
  qed
  then show ?thesis using xs(1) keys t(1) by auto
qed

section \<open>An instance\<close>

text \<open>Keys compared as signed numbers, and an allocator that counts up and never reuses an address.\<close>

definition signed_cmp :: "u64 \<Rightarrow> u64 \<Rightarrow> u32" where
  "signed_cmp x y = (if x <s y then - 1 else if x = y then 0 else 1)"

definition bump :: "addr \<Rightarrow> addr \<times> addr" where
  "bump n = (if n = 0 then (0, 0) else (n, n + 1))"

definition demo_tenv :: "addr tenv" where
  "demo_tenv = \<lparr>tcmp = signed_cmp, trank = sint, tmalloc = bump, tused = (\<lambda>n A. n = 0 \<or> (\<forall>a\<in>A. a < n))\<rparr>"

lemma demo_orders: "orders signed_cmp sint"
  by (auto simp: orders_def signed_cmp_def word_sless_alt intro: signed_word_eqI)

lemma demo_allocates: "allocates demo_tenv"
proof -
  have "a < n + 1" if "a < n \<or> a = n" "n + 1 \<noteq> 0" for a n :: addr
    using that by uint_arith
  then show ?thesis by (auto simp: allocates_def demo_tenv_def bump_def)
qed

definition demo_tree_heap :: nheap where
  "demo_tree_heap = [0x1000 \<mapsto> \<lparr>nkey = 5, nleft = 0, nright = 0, nheight = 1\<rparr>]"

lemma demo_search_tree: "search_tree sint demo_tree_heap (Node Leaf (0x1000, 5) Leaf)"
  by (simp add: search_tree_def demo_tree_heap_def cell_def)

end
