(* ===== verification/Calendar.thy ===== *)
theory Calendar
  imports Xen "HOL-Library.Signed_Division"
begin

text \<open>
  Calendar time from \<open>time/__secs_to_tm.c\<close>, \<open>__year_to_secs.c\<close>, \<open>__month_to_secs.c\<close>, \<open>__tm_to_secs.c\<close>, \<open>gmtime_r.c\<close>
  and \<open>timegm.c\<close>. The reference is the Gregorian calendar: \<open>jan1\<close> counts the days before a year (a year being 366 days
  long exactly when it is a leap year, \<open>jan1_next\<close>), \<open>tm_secs\<close> the seconds before a date. Both directions of the
  conversion are shown to be the calendar's, over the whole range of \<open>long long\<close> times and \<open>int\<close> fields.
\<close>

section \<open>The code\<close>

text \<open>
  \<open>int\<close> and \<open>long long\<close> values are integers here. A signed result outside its type is undefined behaviour and
  \<open>None\<close>; a conversion to \<open>int\<close> wraps.
\<close>

definition int32 :: "int \<Rightarrow> int option" where
  "int32 x = (if - (2 ^ 31) \<le> x \<and> x < 2 ^ 31 then Some x else None)"

definition int64 :: "int \<Rightarrow> int option" where
  "int64 x = (if - (2 ^ 63) \<le> x \<and> x < 2 ^ 63 then Some x else None)"

definition to_int :: "int \<Rightarrow> int" where
  "to_int x = (x + 2 ^ 31) mod 2 ^ 32 - 2 ^ 31"

record tm =
  tm_sec :: int
  tm_min :: int
  tm_hour :: int
  tm_mday :: int
  tm_mon :: int
  tm_year :: int
  tm_wday :: int
  tm_yday :: int
  tm_isdst :: int
  tm_gmtoff :: int
  tm_zone :: addr

definition LEAPOCH :: int where
  "LEAPOCH = 946684800 + 86400 * (31 + 29)"

definition DAYS_PER_400Y :: int where
  "DAYS_PER_400Y = 365 * 400 + 97"

definition DAYS_PER_100Y :: int where
  "DAYS_PER_100Y = 365 * 100 + 24"

definition DAYS_PER_4Y :: int where
  "DAYS_PER_4Y = 365 * 4 + 1"

definition days_in_month :: "int list" where
  "days_in_month = [31, 30, 31, 30, 31, 31, 30, 31, 30, 31, 31, 29]"

text \<open>\<open>for (months=0; days_in_month[months] <= remdays; months++)\<close>; reading past the table is \<open>None\<close>.\<close>

fun months_loop :: "int list \<Rightarrow> int \<Rightarrow> int \<Rightarrow> (int \<times> int) option" where
  "months_loop [] months remdays = None"
| "months_loop (d # ds) months remdays =
     (if d \<le> remdays then months_loop ds (months + 1) (remdays - d) else Some (months, remdays))"

definition secs_to_tm :: "int \<Rightarrow> tm \<Rightarrow> (int \<times> tm) option" where
  "secs_to_tm t tm =
     (if t < - (2 ^ 31) * 31622400 \<or> (2 ^ 31 - 1) * 31622400 < t then Some (- 1, tm)
      else
        let secs = t - LEAPOCH;
            days = secs sdiv 86400;
            remsecs = secs smod 86400;
            (remsecs, days) = (if remsecs < 0 then (remsecs + 86400, days - 1) else (remsecs, days));
            wday = (3 + days) smod 7;
            wday = (if wday < 0 then wday + 7 else wday);
            qc_cycles = to_int (days sdiv DAYS_PER_400Y);
            remdays = days smod DAYS_PER_400Y;
            (remdays, qc_cycles) = (if remdays < 0 then (remdays + DAYS_PER_400Y, qc_cycles - 1) else (remdays, qc_cycles));
            c_cycles = remdays sdiv DAYS_PER_100Y;
            c_cycles = (if c_cycles = 4 then c_cycles - 1 else c_cycles);
            remdays = remdays - c_cycles * DAYS_PER_100Y;
            q_cycles = remdays sdiv DAYS_PER_4Y;
            q_cycles = (if q_cycles = 25 then q_cycles - 1 else q_cycles);
            remdays = remdays - q_cycles * DAYS_PER_4Y;
            remyears = remdays sdiv 365;
            remyears = (if remyears = 4 then remyears - 1 else remyears);
            remdays = remdays - remyears * 365;
            leap = of_bool (remyears = 0 \<and> (q_cycles \<noteq> 0 \<or> c_cycles = 0));
            yday = remdays + 31 + 28 + leap;
            yday = (if 365 + leap \<le> yday then yday - (365 + leap) else yday);
            years = remyears + 4 * q_cycles + 100 * c_cycles + 400 * qc_cycles
        in do { (months, remdays) \<leftarrow> months_loop days_in_month 0 remdays;
                let (months, years) = (if 10 \<le> months then (months - 12, years + 1) else (months, years));
                if 2 ^ 31 - 1 < years + 100 \<or> years + 100 < - (2 ^ 31) then Some (- 1, tm)
                else Some (0, tm\<lparr>tm_year := years + 100, tm_mon := months + 2, tm_mday := remdays + 1,
                  tm_wday := wday, tm_yday := yday, tm_hour := remsecs sdiv 3600,
                  tm_min := (remsecs sdiv 60) smod 60, tm_sec := remsecs smod 60\<rparr>) })"

text \<open>\<open>*is_leap\<close>, \<open>centuries\<close> and \<open>leaps\<close> of a year of the cycle of 400.\<close>

definition cycle_year :: "int \<Rightarrow> int \<times> int \<times> int" where
  "cycle_year rem =
     (if rem = 0 then (1, 0, 0)
        else let (centuries, rem) =
               (if 200 \<le> rem then if 300 \<le> rem then (3, rem - 300) else (2, rem - 200)
                else if 100 \<le> rem then (1, rem - 100) else (0, rem))
             in if rem = 0 then (0, centuries, 0)
                else let leaps = rem div 4; rem = rem mod 4 in (of_bool (rem = 0), centuries, leaps))"

text \<open>\<open>__year_to_secs\<close> with what it stores in \<open>*is_leap\<close>.\<close>

definition year_to_secs :: "int \<Rightarrow> (int \<times> int) option" where
  "year_to_secs year =
     (if (year - 2) mod 2 ^ 64 \<le> 136 then
        let y = to_int year;
            leaps = (y - 68) div 4;
            (leaps, is_leap) = (if (y - 68) mod 4 = 0 then (leaps - 1, 1) else (leaps, 0))
        in do { a \<leftarrow> int32 (31536000 * (y - 70)); b \<leftarrow> int32 (86400 * leaps); r \<leftarrow> int32 (a + b); Some (r, is_leap) }
      else do {
        y \<leftarrow> int64 (year - 100);
        let cycles = to_int (y sdiv 400);
        let rem = y smod 400;
        let (cycles, rem) = (if rem < 0 then (cycles - 1, rem + 400) else (cycles, rem));
        let (is_leap, centuries, leaps) = cycle_year rem;
        c \<leftarrow> int32 (97 * cycles);
        leaps \<leftarrow> int32 (leaps + (c + 24 * centuries - is_leap));
        a \<leftarrow> int64 (y * 31536000);
        r \<leftarrow> int64 (a + leaps * 86400 + 946684800 + 86400);
        Some (r, is_leap) })"

definition secs_through_month :: "int list" where
  "secs_through_month = [0, 31 * 86400, 59 * 86400, 90 * 86400, 120 * 86400, 151 * 86400, 181 * 86400, 212 * 86400,
     243 * 86400, 273 * 86400, 304 * 86400, 334 * 86400]"

definition month_to_secs :: "int \<Rightarrow> int \<Rightarrow> int option" where
  "month_to_secs month is_leap =
     (if 0 \<le> month \<and> month < 12 then
        let t = secs_through_month ! nat month
        in Some (if is_leap \<noteq> 0 \<and> 2 \<le> month then t + 86400 else t)
      else None)"

definition tm_to_secs :: "tm \<Rightarrow> int option" where
  "tm_to_secs tm =
     (let year = tm_year tm;
          month = tm_mon tm;
          (year, month) =
            (if 12 \<le> month \<or> month < 0 then
               let adj = month sdiv 12;
                   month = month smod 12;
                   (adj, month) = (if month < 0 then (adj - 1, month + 12) else (adj, month))
               in (year + adj, month)
             else (year, month))
      in do { (t, is_leap) \<leftarrow> year_to_secs year;
              s \<leftarrow> month_to_secs month is_leap;
              d \<leftarrow> int32 (tm_mday tm - 1);
              int64 (t + s + 86400 * d + 3600 * tm_hour tm + 60 * tm_min tm + tm_sec tm) })"

text \<open>The result with the value stored in \<open>errno\<close>; \<open>utc\<close> is the address of the name of the zone.\<close>

definition gmtime_r :: "addr \<Rightarrow> int \<Rightarrow> tm \<Rightarrow> (bool \<times> tm \<times> u32 option) option" where
  "gmtime_r utc t tm =
     do { (r, tm) \<leftarrow> secs_to_tm t tm;
          if r < 0 then Some (False, tm, Some EOVERFLOW)
          else Some (True, tm\<lparr>tm_isdst := 0, tm_gmtoff := 0, tm_zone := utc\<rparr>, None) }"

text \<open>\<open>new\<close> is what the uninitialised local holds.\<close>

definition timegm :: "addr \<Rightarrow> tm \<Rightarrow> tm \<Rightarrow> (int \<times> tm \<times> u32 option) option" where
  "timegm utc new tm =
     do { t \<leftarrow> tm_to_secs tm;
          (r, new) \<leftarrow> secs_to_tm t new;
          if r < 0 then Some (- 1, tm, Some EOVERFLOW)
          else Some (t, new\<lparr>tm_isdst := 0, tm_gmtoff := 0, tm_zone := utc\<rparr>, None) }"

section \<open>The calendar\<close>

definition leap_year :: "int \<Rightarrow> bool" where
  "leap_year y \<longleftrightarrow> 4 dvd y \<and> (\<not> 100 dvd y \<or> 400 dvd y)"

text \<open>The days from 1970-01-01 to the first of January of a year.\<close>

definition jan1 :: "int \<Rightarrow> int" where
  "jan1 y = 365 * (y - 1970) + (y - 1) div 4 - (y - 1) div 100 + (y - 1) div 400 - 477"

lemma jan1_1970: "jan1 1970 = 0"
  by (simp add: jan1_def)

lemma div_step: "(y :: int) div k = (y - 1) div k + of_bool (k dvd y)" if "0 < k"
proof (cases "k dvd y")
  case True
  then obtain q where "y = k * q" by blast
  moreover have "(k * q - 1) div k = q - 1"
    using that by (intro int_div_pos_eq [of _ _ _ "k - 1"]) (auto simp: algebra_simps)
  ultimately show ?thesis using True that by simp
next
  case False
  then have "y mod k \<noteq> 0" by (simp add: dvd_eq_mod_eq_0)
  then have "0 < y mod k" "y mod k < k" using pos_mod_sign [OF that, of y] pos_mod_bound [OF that, of y] by linarith+
  then have "(y - 1) div k = y div k"
    by (intro int_div_pos_eq [of _ _ _ "y mod k - 1"]) auto
  then show ?thesis using False by simp
qed

lemma jan1_next: "jan1 (y + 1) = jan1 y + (if leap_year y then 366 else 365)"
proof -
  have "400 dvd y \<Longrightarrow> 100 dvd y" "100 dvd y \<Longrightarrow> 4 dvd y" using dvd_trans [of 100 400 y] dvd_trans [of 4 100 y] by simp_all
  moreover have "jan1 (y + 1) = jan1 y + 365 + of_bool (4 dvd y) - of_bool (100 dvd y) + of_bool (400 dvd y)"
    unfolding jan1_def add_diff_cancel_right' div_step [of 4 y, simplified] div_step [of 100 y, simplified] div_step [of 400 y, simplified]
    by (simp only: algebra_simps)
  ultimately show ?thesis by (cases "4 dvd y"; cases "100 dvd y"; cases "400 dvd y") (simp_all only: leap_year_def, simp_all)
qed

text \<open>The days of a month, numbered from 0, and the days of the year before it.\<close>

definition month_days :: "bool \<Rightarrow> int \<Rightarrow> int" where
  "month_days leap m = (if m = 1 then if leap then 29 else 28 else if m \<in> {3, 5, 8, 10} then 30 else 31)"

definition month_start :: "bool \<Rightarrow> int \<Rightarrow> int" where
  "month_start leap m = (\<Sum>i\<leftarrow>[0..m - 1]. month_days leap i)"

text \<open>The day of the year, from 0; the days since 1970-01-01; the seconds since then.\<close>

definition tm_day_of_year :: "tm \<Rightarrow> int" where
  "tm_day_of_year tm = month_start (leap_year (1900 + tm_year tm)) (tm_mon tm) + tm_mday tm - 1"

definition tm_days :: "tm \<Rightarrow> int" where
  "tm_days tm = jan1 (1900 + tm_year tm) + tm_day_of_year tm"

definition tm_secs :: "tm \<Rightarrow> int" where
  "tm_secs tm = 86400 * tm_days tm + 3600 * tm_hour tm + 60 * tm_min tm + tm_sec tm"

definition valid_tm :: "tm \<Rightarrow> bool" where
  "valid_tm tm \<longleftrightarrow>
     0 \<le> tm_mon tm \<and> tm_mon tm < 12 \<and>
     1 \<le> tm_mday tm \<and> tm_mday tm \<le> month_days (leap_year (1900 + tm_year tm)) (tm_mon tm) \<and>
     0 \<le> tm_hour tm \<and> tm_hour tm < 24 \<and> 0 \<le> tm_min tm \<and> tm_min tm < 60 \<and> 0 \<le> tm_sec tm \<and> tm_sec tm < 60 \<and>
     tm_yday tm = tm_day_of_year tm \<and> tm_wday tm = (tm_days tm + 4) mod 7"

section \<open>Truncated division\<close>

lemma trunc_nonneg: "0 \<le> x \<Longrightarrow> 0 < n \<Longrightarrow> x sdiv n = x div n \<and> x smod n = x mod n" for x n :: int
  by (simp add: signed_divide_int_def signed_modulo_int_def sgn_if)

lemma trunc_neg: "x < 0 \<Longrightarrow> 0 < n \<Longrightarrow> x sdiv n = - (- x div n) \<and> x smod n = - (- x mod n)" for x n :: int
  by (simp add: signed_divide_int_def signed_modulo_int_def sgn_if)

lemma trunc_floor:
  "0 < n \<Longrightarrow> x sdiv n = (if x smod n < 0 then x div n + 1 else x div n)"
  "0 < n \<Longrightarrow> x smod n = (if x smod n < 0 then x mod n - n else x mod n)" for x n :: int
proof -
  assume n: "0 < n"
  show "x sdiv n = (if x smod n < 0 then x div n + 1 else x div n)" 
    using trunc_nonneg [OF _ n, of x] trunc_neg [OF _ n, of x] zdiv_zminus1_eq_if [of n x] zmod_zminus1_eq_if [of x n] n pos_mod_bound [OF n, of x] pos_mod_sign [OF n, of x]
    by (cases "x < 0") (auto simp: not_less)
  show "x smod n = (if x smod n < 0 then x mod n - n else x mod n)" 
    using trunc_nonneg [OF _ n, of x] trunc_neg [OF _ n, of x] zdiv_zminus1_eq_if [of n x] zmod_zminus1_eq_if [of x n] n pos_mod_bound [OF n, of x] pos_mod_sign [OF n, of x]
    by (cases "x < 0") (auto simp: not_less)
qed

lemma to_int_id: "- (2 ^ 31) \<le> x \<Longrightarrow> x < 2 ^ 31 \<Longrightarrow> to_int x = x"
  by (simp add: to_int_def)

lemma int32_id: "- (2 ^ 31) \<le> x \<Longrightarrow> x < 2 ^ 31 \<Longrightarrow> int32 x = Some x"
  by (simp add: int32_def)

lemma int64_id: "- (2 ^ 63) \<le> x \<Longrightarrow> x < 2 ^ 63 \<Longrightarrow> int64 x = Some x"
  by (simp add: int64_def)

lemma floor_adjust:
  fixes x n :: int
  assumes "0 < n"
  shows "(if x smod n < 0 then (x smod n + n, x sdiv n - 1) else (x smod n, x sdiv n)) = (x mod n, x div n)"
    "(if x smod n < 0 then (x sdiv n - 1, x smod n + n) else (x sdiv n, x smod n)) = (x div n, x mod n)"
    "(if x smod n < 0 then x smod n + n else x smod n) = x mod n"
  using trunc_floor [OF assms, of x] by auto

text \<open>A year as its place in the cycle of 400 years.\<close>

lemma cycle_div:
  fixes c e r :: int
  assumes "0 \<le> e" "e < 4" "0 \<le> r" "r < 100"
  defines "y \<equiv> 400 * c + 100 * e + r"
  shows "(1999 + y) div 4 = 499 + 100 * c + 25 * e + r div 4 + of_bool (r mod 4 \<noteq> 0)"
    "(1999 + y) div 100 = 19 + 4 * c + e + of_bool (r \<noteq> 0)"
    "(1999 + y) div 400 = 4 + c + of_bool (e \<noteq> 0 \<or> r \<noteq> 0)"
    "leap_year (2000 + y) \<longleftrightarrow> r mod 4 = 0 \<and> (r \<noteq> 0 \<or> e = 0)"
proof -
  show "(1999 + y) div 4 = 499 + 100 * c + 25 * e + r div 4 + of_bool (r mod 4 \<noteq> 0)"
  proof (cases "r mod 4 = 0")
    case True
    then obtain q where q: "r = 4 * q" by auto
    then have "1999 + y = 4 * (499 + 100 * c + 25 * e + q) + 3" unfolding y_def by simp
    then have "(1999 + y) div 4 = 499 + 100 * c + 25 * e + q" by (rule int_div_pos_eq) simp_all
    then show ?thesis using q by simp
  next
    case False
    have "4 * (r div 4) + r mod 4 = r" by simp
    then have "1999 + y = 4 * (500 + 100 * c + 25 * e + r div 4) + (r mod 4 - 1)" unfolding y_def by (simp add: algebra_simps)
    moreover have "0 \<le> r mod 4 - 1" "r mod 4 - 1 < 4" using False by presburger+
    ultimately have "(1999 + y) div 4 = 500 + 100 * c + 25 * e + r div 4" by (rule int_div_pos_eq)
    then show ?thesis using False by simp
  qed
  show "(1999 + y) div 100 = 19 + 4 * c + e + of_bool (r \<noteq> 0)"
    unfolding y_def using assms(1-4) by (intro int_div_pos_eq [of _ _ _ "if r = 0 then 99 else r - 1"]) (auto simp: algebra_simps)
  show "(1999 + y) div 400 = 4 + c + of_bool (e \<noteq> 0 \<or> r \<noteq> 0)"
    unfolding y_def using assms(1-4)
    by (intro int_div_pos_eq [of _ _ _ "if e = 0 \<and> r = 0 then 399 else 100 * e + r - 1"]) (auto simp: algebra_simps)
  have "2000 + y = 4 * (500 + 100 * c + 25 * e) + r" by (simp add: y_def)
  then have "4 dvd 2000 + y \<longleftrightarrow> r mod 4 = 0" by (metis dvd_add_right_iff dvd_triv_left dvd_eq_mod_eq_0)
  moreover have "2000 + y = 100 * (20 + 4 * c + e) + r" by (simp add: y_def)
  then have "100 dvd 2000 + y \<longleftrightarrow> 100 dvd r" by (metis dvd_add_right_iff dvd_triv_left)
  moreover have "100 dvd r \<longleftrightarrow> r = 0" using zdvd_not_zless [of r 100] assms(3,4) by fastforce
  moreover have "2000 + y = 400 * (c + 5) + (100 * e + r)" by (simp add: y_def)
  then have "400 dvd 2000 + y \<longleftrightarrow> 400 dvd 100 * e + r" by (metis dvd_add_right_iff dvd_triv_left)
  moreover have "400 dvd 100 * e + r \<longleftrightarrow> e = 0 \<and> r = 0"
  proof (cases "e = 0 \<and> r = 0")
    case False
    then have "0 < 100 * e + r" "100 * e + r < 400" using assms(1-4) by linarith+
    then show ?thesis using zdvd_not_zless False by blast
  qed simp
  ultimately show "leap_year (2000 + y) \<longleftrightarrow> r mod 4 = 0 \<and> (r \<noteq> 0 \<or> e = 0)" by (auto simp: leap_year_def)
qed

lemma cycle_jan1:
  fixes c e r :: int
  assumes "0 \<le> e" "e < 4" "0 \<le> r" "r < 100"
  defines "y \<equiv> 400 * c + 100 * e + r"
  shows "jan1 (2000 + y) = 365 * y + 10958 + 97 * c + 24 * e + r div 4 - of_bool (leap_year (2000 + y))"
proof -
  note div = cycle_div [OF assms(1-4), of c, folded y_def]
  have "2000 + y - 1 = 1999 + y" by simp
  then have "jan1 (2000 + y) = 365 * (2000 + y - 1970) + (499 + 100 * c + 25 * e + r div 4 + of_bool (r mod 4 \<noteq> 0)) -
      (19 + 4 * c + e + of_bool (r \<noteq> 0)) + (4 + c + of_bool (e \<noteq> 0 \<or> r \<noteq> 0)) - 477"
    unfolding jan1_def using div(1-3) by metis
  moreover have "of_bool (r mod 4 \<noteq> 0) - of_bool (r \<noteq> 0) + of_bool (e \<noteq> 0 \<or> r \<noteq> 0) = 1 - (of_bool (leap_year (2000 + y)) :: int)"
    unfolding div(4) by (cases "r = 0") auto
  moreover have "x = 365 * y + 10958 + 97 * c + 24 * e + q - l"
    if "x = 365 * (2000 + y - 1970) + (499 + 100 * c + 25 * e + q + i) - (19 + 4 * c + e + j) + (4 + c + k) - 477"
      "i - j + k = 1 - l" for x y q i j k l :: int
    using that by simp
  ultimately show ?thesis by blast
qed

lemma year_cycle:
  fixes y :: int
  obtains c e r where "y = 400 * c + 100 * e + r" "0 \<le> e" "e < 4" "0 \<le> r" "r < 100" "c = y div 400" "e = y mod 400 div 100" "r = y mod 400 mod 100"
proof (rule that [of "y div 400" "y mod 400 div 100" "y mod 400 mod 100"])
  show "y = 400 * (y div 400) + 100 * (y mod 400 div 100) + y mod 400 mod 100" by simp
  have "y mod 400 < 400" by simp
  then show "y mod 400 div 100 < 4" by linarith
  show "0 \<le> y mod 400 div 100" by (intro pos_imp_zdiv_nonneg_iff [THEN iffD2] pos_mod_sign) simp_all
qed (rule refl pos_mod_sign pos_mod_bound | simp only: zero_less_numeral)+

lemma year_to_secs_near:
  assumes "2 \<le> y" "y \<le> 138"
  shows "year_to_secs y = Some (86400 * jan1 (1900 + y), of_bool (leap_year (1900 + y)))"
proof -
  define L where "L = leap_year (1900 + y)"
  have *: "((y - 68) mod 4 = 0 \<longleftrightarrow> L) \<and> jan1 (1900 + y) = 365 * (y - 70) + (y - 68) div 4 - of_bool L"
  proof (cases "y < 100")
    case True
    have m: "(y - 68) mod 4 = 0 \<longleftrightarrow> y mod 4 = 0" "(y - 68) div 4 = y div 4 - 17" by presburger+
    have "leap_year (2000 + (400 * - 1 + 100 * 3 + y)) \<longleftrightarrow> y mod 4 = 0"
      using cycle_div(4) [of 3 y "- 1"] assms True by auto
    moreover have "jan1 (2000 + (400 * - 1 + 100 * 3 + y)) = 365 * (y - 100) + 10933 + y div 4 - of_bool (y mod 4 = 0)"
      using cycle_jan1 [of 3 y "- 1"] calculation assms True by simp
    ultimately show ?thesis using m by (simp add: L_def)
  next
    case False
    have m: "(y - 68) mod 4 = 0 \<longleftrightarrow> (y - 100) mod 4 = 0" "(y - 68) div 4 = (y - 100) div 4 + 8" by presburger+
    have "leap_year (2000 + (400 * 0 + 100 * 0 + (y - 100))) \<longleftrightarrow> (y - 100) mod 4 = 0"
      using cycle_div(4) [of 0 "y - 100" 0] assms False by auto
    moreover have "jan1 (2000 + (400 * 0 + 100 * 0 + (y - 100))) = 365 * (y - 100) + 10958 + (y - 100) div 4 - of_bool ((y - 100) mod 4 = 0)"
      using cycle_jan1 [of 0 "y - 100" 0] calculation assms False by simp
    ultimately show ?thesis using m by (simp add: L_def)
  qed
  have "(y - 2) mod 2 ^ 64 = y - 2" using assms by simp
  moreover have "to_int y = y" using assms by (intro to_int_id) simp_all
  moreover have "- 17 \<le> (y - 68) div 4" "(y - 68) div 4 \<le> 17" using assms by presburger+
  moreover have "leap_year (y + 1900) = L" by (simp add: L_def add.commute)
  ultimately show ?thesis using * assms
    by (auto simp: year_to_secs_def Let_def int32_def algebra_simps)
qed

lemma year_to_secs_far:
  assumes "y < 2 \<or> 138 < y" "- (2 ^ 33) \<le> y" "y \<le> 2 ^ 33"
  shows "year_to_secs y = Some (86400 * jan1 (1900 + y), of_bool (leap_year (1900 + y)))"
proof -
  obtain c e r where y: "y - 100 = 400 * c + 100 * e + r" "0 \<le> e" "e < 4" "0 \<le> r" "r < 100"
      and q: "c = (y - 100) div 400" "e = (y - 100) mod 400 div 100" "r = (y - 100) mod 400 mod 100"
    by (rule year_cycle)
  define L where "L = leap_year (1900 + y)"
  have n: "1900 + y = 2000 + (400 * c + 100 * e + r)" using y(1) by simp
  have l: "L \<longleftrightarrow> r mod 4 = 0 \<and> (r \<noteq> 0 \<or> e = 0)"
    and j: "jan1 (1900 + y) = 365 * (y - 100) + 10958 + 97 * c + 24 * e + r div 4 - of_bool L"
    using cycle_div(4) [OF y(2-5), of c] cycle_jan1 [OF y(2-5), of c] unfolding L_def n y(1) by simp_all
  have m: "(y - 100) mod 400 = 100 * e + r" using y(2-5) by (intro int_mod_pos_eq [of _ _ c]) (simp_all add: y(1))
  have b: "- 21500000 \<le> c" "c \<le> 21500000" "0 \<le> r div 4" "r div 4 < 25" using y assms(2,3) by simp_all
  have "(y - 100) sdiv 400 = c \<or> (y - 100) sdiv 400 = c + 1" using trunc_floor(1) [of 400 "y - 100"] q(1) by simp
  then have c: "to_int ((y - 100) sdiv 400) = (y - 100) sdiv 400" using b by (intro to_int_id) auto
  have f: "cycle_year (100 * e + r) = (of_bool L, e, r div 4)"
  proof -
    consider "e = 0" | "e = 1" | "e = 2" | "e = 3" using y by linarith
    then show ?thesis by cases (use y l in \<open>auto simp: cycle_year_def Let_def\<close>)
  qed
  have "\<not> (y - 2) mod 2 ^ 64 \<le> 136"
  proof (cases "y < 2")
    case True
    then have "(y - 2) mod 2 ^ 64 = y - 2 + 2 ^ 64" using assms(2) by (intro int_mod_pos_eq [of _ _ "- 1"]) simp_all
    then show ?thesis using assms(2) by simp
  next
    case False
    then have "(y - 2) mod 2 ^ 64 = y - 2" using assms by simp
    then show ?thesis using assms(1) False by simp
  qed
  moreover have "int64 (y - 100) = Some (y - 100)" using assms(2,3) by (intro int64_id) simp_all
  moreover have "int32 (97 * c) = Some (97 * c)" using b by (intro int32_id) simp_all
  moreover have "int32 (r div 4 + (97 * c + 24 * e - of_bool L)) = Some (r div 4 + (97 * c + 24 * e - of_bool L))"
    using b y by (intro int32_id) simp_all
  moreover have "int64 ((y - 100) * 31536000) = Some ((y - 100) * 31536000)" using assms(2,3) by (intro int64_id) simp_all
  moreover have "int64 ((y - 100) * 31536000 + (r div 4 + (97 * c + 24 * e - of_bool L)) * 86400 + 946684800 + 86400) =
      Some (86400 * jan1 (1900 + y))"
    using assms(2,3) b y j by (subst int64_id) (simp_all add: algebra_simps)
  ultimately have "year_to_secs y = Some (86400 * jan1 (1900 + y), of_bool L)"
    by (cases L) (simp_all add: year_to_secs_def c floor_adjust(2) m q(1) [symmetric] f)
  then show ?thesis by (simp add: L_def)
qed

lemma int_range_cases:
  fixes m :: int
  assumes "0 \<le> m" "m < 12"
  obtains "m = 0" | "m = 1" | "m = 2" | "m = 3" | "m = 4" | "m = 5" | "m = 6" | "m = 7" | "m = 8" | "m = 9" | "m = 10" | "m = 11"
proof (cases "m < 6")
  case True
  then have "m = 0 \<or> m = 1 \<or> m = 2 \<or> m = 3 \<or> m = 4 \<or> m = 5" using assms by linarith
  then show thesis using that by blast
next
  case False
  then have "m = 6 \<or> m = 7 \<or> m = 8 \<or> m = 9 \<or> m = 10 \<or> m = 11" using assms by linarith
  then show thesis using that by blast
qed

lemma month_start_values:
  "month_start l 0 = 0" "month_start l 1 = 31" "month_start l 2 = 59 + of_bool l" "month_start l 3 = 90 + of_bool l"
  "month_start l 4 = 120 + of_bool l" "month_start l 5 = 151 + of_bool l" "month_start l 6 = 181 + of_bool l"
  "month_start l 7 = 212 + of_bool l" "month_start l 8 = 243 + of_bool l" "month_start l 9 = 273 + of_bool l"
  "month_start l 10 = 304 + of_bool l" "month_start l 11 = 334 + of_bool l"
  by (cases l; simp add: month_start_def month_days_def upto_rec1)+

lemma month_to_secs_ok:
  assumes "0 \<le> m" "m < 12"
  shows "month_to_secs m (of_bool l) = Some (86400 * month_start l m)"
  using assms
  by (rule int_range_cases) (cases l; simp add: month_to_secs_def secs_through_month_def month_start_values numeral_eq_Suc)+

text \<open>A broken-down time as \<open>int\<close> fields can hold it, and with the month brought into the year.\<close>

definition int_tm :: "tm \<Rightarrow> bool" where
  "int_tm tm \<longleftrightarrow> (\<forall>x\<in>{tm_sec tm, tm_min tm, tm_hour tm, tm_mday tm, tm_mon tm, tm_year tm}. - (2 ^ 31) \<le> x \<and> x < 2 ^ 31)"

definition carry_months :: "tm \<Rightarrow> tm" where
  "carry_months tm = tm\<lparr>tm_year := tm_year tm + tm_mon tm div 12, tm_mon := tm_mon tm mod 12\<rparr>"

lemma year_to_secs_ok:
  assumes "- (2 ^ 33) \<le> y" "y \<le> 2 ^ 33"
  shows "year_to_secs y = Some (86400 * jan1 (1900 + y), of_bool (leap_year (1900 + y)))"
  using year_to_secs_near [of y] year_to_secs_far [of y] assms by (cases "y < 2 \<or> 138 < y") auto

lemma month_start_range: "0 \<le> m \<Longrightarrow> m < 12 \<Longrightarrow> 0 \<le> month_start l m \<and> month_start l m \<le> 335"
  by (erule int_range_cases) (simp_all add: month_start_values)

lemma tm_to_secs_ok:
  assumes "int_tm tm" "tm_mday tm \<noteq> - (2 ^ 31)"
  shows "tm_to_secs tm = Some (tm_secs (carry_months tm))"
proof -
  define y where "y = tm_year tm + tm_mon tm div 12"
  define m where "m = tm_mon tm mod 12"
  have f: "- (2 ^ 31) \<le> tm_mday tm" "tm_mday tm < 2 ^ 31" "- (2 ^ 31) \<le> tm_hour tm" "tm_hour tm < 2 ^ 31" "- (2 ^ 31) \<le> tm_min tm"
      "tm_min tm < 2 ^ 31" "- (2 ^ 31) \<le> tm_sec tm" "tm_sec tm < 2 ^ 31" "- (2 ^ 31) \<le> tm_year tm" "tm_year tm < 2 ^ 31"
      "- (2 ^ 31) \<le> tm_mon tm" "tm_mon tm < 2 ^ 31"
    using assms(1) by (simp_all add: int_tm_def)
  have y: "- (2 ^ 32) \<le> y" "y \<le> 2 ^ 32" using f by (simp_all add: y_def)
  have m: "0 \<le> m" "m < 12" by (simp_all add: m_def)
  have norm: "(if 12 \<le> tm_mon tm \<or> tm_mon tm < 0 then
        let adj = tm_mon tm sdiv 12; month = tm_mon tm smod 12;
            (adj, month) = (if month < 0 then (adj - 1, month + 12) else (adj, month))
        in (tm_year tm + adj, month)
      else (tm_year tm, tm_mon tm)) = (y, m)"
    by (auto simp: y_def m_def floor_adjust(2) Let_def)
  define l where "l = leap_year (1900 + y)"
  have ys: "year_to_secs y = Some (86400 * jan1 (1900 + y), of_bool l)"
    unfolding l_def using y by (intro year_to_secs_ok) simp_all
  have d: "int32 (tm_mday tm - 1) = Some (tm_mday tm - 1)" using f assms(2) by (intro int32_id) simp_all
  have "tm_secs (carry_months tm) = 86400 * jan1 (1900 + y) + 86400 * month_start l m + 86400 * (tm_mday tm - 1) +
      3600 * tm_hour tm + 60 * tm_min tm + tm_sec tm"
    by (simp add: tm_secs_def tm_days_def tm_day_of_year_def carry_months_def l_def y_def m_def algebra_simps)
  moreover have "- (2 ^ 45) \<le> jan1 (1900 + y)" "jan1 (1900 + y) \<le> 2 ^ 45"
    using y by (simp_all add: jan1_def)
  ultimately have "int64 (86400 * jan1 (1900 + y) + 86400 * month_start l m + 86400 * (tm_mday tm - 1) +
      3600 * tm_hour tm + 60 * tm_min tm + tm_sec tm) = Some (tm_secs (carry_months tm))"
    using f month_start_range [OF m, of l] by (subst int64_id) simp_all
  then show ?thesis
    unfolding tm_to_secs_def Let_def [of "tm_year tm"] Let_def [of "tm_mon tm"] norm
    using ys month_to_secs_ok [OF m, of l] d by simp
qed

section \<open>Dates from seconds\<close>

lemma jan1_mono: "y < z \<Longrightarrow> jan1 y < jan1 z"
proof (induction "nat (z - y)" arbitrary: z)
  case (Suc n)
  have "jan1 (z - 1) < jan1 z" using jan1_next [of "z - 1"] by (simp split: if_splits)
  moreover have "y = z - 1 \<or> jan1 y < jan1 (z - 1)" using Suc by (cases "y = z - 1") auto
  ultimately show ?case by auto
qed simp

lemma jan1_weak_mono: "y \<le> z \<Longrightarrow> jan1 y \<le> jan1 z"
  using jan1_mono [of y z] by (cases "y = z") auto

lemma jan1_unique:
  "jan1 y \<le> d \<Longrightarrow> d < jan1 (y + 1) \<Longrightarrow> jan1 z \<le> d \<Longrightarrow> d < jan1 (z + 1) \<Longrightarrow> y = z"
  using jan1_weak_mono [of "y + 1" z] jan1_weak_mono [of "z + 1" y] by linarith

text \<open>The months counted from March: the number, the days before it and its length.\<close>

definition march_months :: "(int \<times> int \<times> int) list" where
  "march_months = [(0, 0, 31), (1, 31, 30), (2, 61, 31), (3, 92, 30), (4, 122, 31), (5, 153, 31), (6, 184, 30), (7, 214, 31),
     (8, 245, 30), (9, 275, 31), (10, 306, 31), (11, 337, 29)]"

lemma march_cases:
  assumes "(k, s, n) \<in> set march_months"
  obtains "k = 0 \<and> s = 0 \<and> n = 31" | "k = 1 \<and> s = 31 \<and> n = 30" | "k = 2 \<and> s = 61 \<and> n = 31"
    | "k = 3 \<and> s = 92 \<and> n = 30" | "k = 4 \<and> s = 122 \<and> n = 31" | "k = 5 \<and> s = 153 \<and> n = 31"
    | "k = 6 \<and> s = 184 \<and> n = 30" | "k = 7 \<and> s = 214 \<and> n = 31" | "k = 8 \<and> s = 245 \<and> n = 30"
    | "k = 9 \<and> s = 275 \<and> n = 31" | "k = 10 \<and> s = 306 \<and> n = 31" | "k = 11 \<and> s = 337 \<and> n = 29"
proof -
  have "(k = 0 \<and> s = 0 \<and> n = 31) \<or> (k = 1 \<and> s = 31 \<and> n = 30) \<or> (k = 2 \<and> s = 61 \<and> n = 31) \<or>
    (k = 3 \<and> s = 92 \<and> n = 30) \<or> (k = 4 \<and> s = 122 \<and> n = 31) \<or> (k = 5 \<and> s = 153 \<and> n = 31) \<or>
    (k = 6 \<and> s = 184 \<and> n = 30) \<or> (k = 7 \<and> s = 214 \<and> n = 31) \<or> (k = 8 \<and> s = 245 \<and> n = 30) \<or>
    (k = 9 \<and> s = 275 \<and> n = 31) \<or> (k = 10 \<and> s = 306 \<and> n = 31) \<or> (k = 11 \<and> s = 337 \<and> n = 29)"
    using assms unfolding march_months_def list.set insert_iff empty_iff prod.inject simp_thms .
  then show thesis by (elim disjE) (fact that)+
qed

lemma months_loop_ok:
  assumes "0 \<le> d" "d \<le> 365"
  obtains k s n where "(k, s, n) \<in> set march_months" "s \<le> d" "d < s + n" "months_loop days_in_month 0 d = Some (k, d - s)"
proof -
  have step: "months_loop (n # ds) k (d - s) = (if s + n \<le> d then months_loop ds (k + 1) (d - (s + n)) else Some (k, d - s))" for n ds k s
    by (simp add: algebra_simps)
  have "\<exists>k s n. (k, s, n) \<in> set march_months \<and> s \<le> d \<and> d < s + n \<and> months_loop days_in_month 0 (d - 0) = Some (k, d - s)"
    unfolding days_in_month_def step march_months_def using assms by (simp del: months_loop.simps)
  then show thesis using that by auto
qed

text \<open>The day \<open>d\<close> of a year that begins in March is a date.\<close>

definition march_mon :: "int \<Rightarrow> int" where
  "march_mon k = (if 10 \<le> k then k - 10 else k + 2)"

definition march_year :: "int \<Rightarrow> int \<Rightarrow> int" where
  "march_year k y = (if 10 \<le> k then y + 1 else y)"

lemma march_date:
  assumes k: "(k, s, n) \<in> set march_months" "s \<le> d" "d < s + n" and d: "d = 365 \<Longrightarrow> leap_year (y + 1)"
  defines "l \<equiv> leap_year (march_year k y)"
  shows "0 \<le> march_mon k" "march_mon k < 12" "d - s < month_days l (march_mon k)"
    "jan1 (march_year k y) + month_start l (march_mon k) + (d - s) = jan1 y + 59 + of_bool (leap_year y) + d"
    "month_start l (march_mon k) + (d - s) =
      (if 365 + of_bool (leap_year y) \<le> d + 59 + of_bool (leap_year y) then d + 59 - 365 else d + 59 + of_bool (leap_year y))"
proof -
  have j: "jan1 (y + 1) = jan1 y + 365 + of_bool (leap_year y)" using jan1_next [of y] by simp
  have d2: "leap_year (y + 1) \<or> d < 365 \<or> 365 < d" using d by linarith
  note defs = march_mon_def march_year_def month_start_values month_days_def j l_def
  show "0 \<le> march_mon k" "march_mon k < 12" using k(1) by (auto simp: march_months_def march_mon_def)
  show "d - s < month_days l (march_mon k)" using k(1)
    by (rule march_cases) (use k(2,3) d2 in \<open>auto simp: defs\<close>)
  show "jan1 (march_year k y) + month_start l (march_mon k) + (d - s) = jan1 y + 59 + of_bool (leap_year y) + d" using k(1)
    by (rule march_cases) (simp_all add: defs)
  show "month_start l (march_mon k) + (d - s) =
      (if 365 + of_bool (leap_year y) \<le> d + 59 + of_bool (leap_year y) then d + 59 - 365 else d + 59 + of_bool (leap_year y))" using k(1)
    by (rule march_cases) (use k(2,3) in \<open>simp_all add: defs\<close>)
qed

text \<open>The day of the 400 years from 2000-03-01 as the code splits it.\<close>

lemma quarters:
  fixes r :: int
  assumes "0 \<le> r" "r < 146097"
  defines "c \<equiv> if r div 36524 = 4 then r div 36524 - 1 else r div 36524"
  defines "r1 \<equiv> r - c * 36524"
  defines "q \<equiv> if r1 div 1461 = 25 then r1 div 1461 - 1 else r1 div 1461"
  defines "r2 \<equiv> r1 - q * 1461"
  defines "y \<equiv> if r2 div 365 = 4 then r2 div 365 - 1 else r2 div 365"
  defines "d \<equiv> r2 - y * 365"
  shows "0 \<le> c" "c < 4" "0 \<le> r1" "0 \<le> q" "q < 25" "0 \<le> r2" "0 \<le> y" "y < 4" "0 \<le> d" "d \<le> 365" "d = 365 \<Longrightarrow> y = 3 \<and> (q < 24 \<or> c = 3)"
    "r = 36524 * c + 1461 * q + 365 * y + d"
proof -
  have c: "0 \<le> c" "c < 4" "0 \<le> r1" "r1 \<le> 36524" "r1 = 36524 \<Longrightarrow> c = 3" 
    using assms(1,2) unfolding r1_def c_def by (auto split: if_splits)
  have q: "0 \<le> q" "q < 25" "0 \<le> r2" "r2 \<le> 1460" "r2 = 1460 \<Longrightarrow> q = 24 \<Longrightarrow> r1 = 36524"
    using c unfolding r2_def q_def by (auto split: if_splits)
  have y: "0 \<le> y" "y < 4" "0 \<le> d" "d \<le> 365" "d = 365 \<Longrightarrow> y = 3" "d = 365 \<Longrightarrow> r2 = 1460"
    using q unfolding d_def y_def by (auto split: if_splits)
  show "0 \<le> c" "c < 4" "0 \<le> r1" "0 \<le> q" "q < 25" "0 \<le> r2" "0 \<le> y" "y < 4" "0 \<le> d" "d \<le> 365" using c q y by blast+
  show "y = 3 \<and> (q < 24 \<or> c = 3)" if "d = 365" using y(5,6) [OF that] q(2,5) c(5) by linarith
  show "r = 36524 * c + 1461 * q + 365 * y + d" by (simp add: d_def r2_def r1_def)
qed

lemma day_split:
  fixes D :: int
  defines "qc \<equiv> D div 146097" and "r \<equiv> D mod 146097"
  obtains c q y d where
    "c = (if r div 36524 = 4 then r div 36524 - 1 else r div 36524)"
    "q = (if (r - c * 36524) div 1461 = 25 then (r - c * 36524) div 1461 - 1 else (r - c * 36524) div 1461)"
    "y = (if (r - c * 36524 - q * 1461) div 365 = 4 then (r - c * 36524 - q * 1461) div 365 - 1 else (r - c * 36524 - q * 1461) div 365)"
    "d = r - c * 36524 - q * 1461 - y * 365" "0 \<le> r" "0 \<le> r - c * 36524" "0 \<le> r - c * 36524 - q * 1461" "0 \<le> d" "d \<le> 365"
    "leap_year (2000 + (y + 4 * q + 100 * c + 400 * qc)) \<longleftrightarrow> y = 0 \<and> (q \<noteq> 0 \<or> c = 0)"
    "d = 365 \<Longrightarrow> leap_year (2000 + (y + 4 * q + 100 * c + 400 * qc) + 1)"
    "jan1 (2000 + (y + 4 * q + 100 * c + 400 * qc)) + 59 + of_bool (leap_year (2000 + (y + 4 * q + 100 * c + 400 * qc))) + d = D + 11017"
proof -
  have r: "0 \<le> r" "r < 146097" by (simp_all add: r_def)
  define c where "c = (if r div 36524 = 4 then r div 36524 - 1 else r div 36524)"
  define q where "q = (if (r - c * 36524) div 1461 = 25 then (r - c * 36524) div 1461 - 1 else (r - c * 36524) div 1461)"
  define y where "y = (if (r - c * 36524 - q * 1461) div 365 = 4 then (r - c * 36524 - q * 1461) div 365 - 1 else (r - c * 36524 - q * 1461) div 365)"
  define d where "d = r - c * 36524 - q * 1461 - y * 365"
  note Q = quarters [OF r, folded c_def, folded q_def, folded y_def, folded d_def]
  have e: "y + 4 * q + 100 * c + 400 * qc = 400 * qc + 100 * c + (4 * q + y)" by simp
  have m: "(4 * q + y) div 4 = q" "(4 * q + y) mod 4 = y" using Q(7,8) by simp_all
  have rg: "0 \<le> 4 * q + y" "4 * q + y < 100" using Q by linarith+
  have l: "leap_year (2000 + (y + 4 * q + 100 * c + 400 * qc)) \<longleftrightarrow> y = 0 \<and> (q \<noteq> 0 \<or> c = 0)"
    unfolding e using cycle_div(4) [OF Q(1,2) rg, of qc] m Q(4,7) by auto
  have j: "jan1 (2000 + (y + 4 * q + 100 * c + 400 * qc)) = 365 * (400 * qc + 100 * c + (4 * q + y)) + 10958 + 97 * qc + 24 * c + q -
      of_bool (leap_year (2000 + (y + 4 * q + 100 * c + 400 * qc)))"
    unfolding e using cycle_jan1 [OF Q(1,2) rg, of qc] m by simp
  have D: "D = 146097 * qc + r" by (simp add: qc_def r_def)
  have n: "leap_year (2000 + (y + 4 * q + 100 * c + 400 * qc) + 1)" if "d = 365"
  proof (cases "q < 24")
    case True
    then have f: "2000 + (y + 4 * q + 100 * c + 400 * qc) + 1 = 2000 + (400 * qc + 100 * c + 4 * (q + 1))" using Q(11) that by simp
    have "0 \<le> 4 * (q + 1)" "4 * (q + 1) < 100" using True Q(4) by simp_all
    then show ?thesis unfolding f using cycle_div(4) [of c "4 * (q + 1)" qc] Q(1,2,4) by auto
  next
    case False
    then have f: "2000 + (y + 4 * q + 100 * c + 400 * qc) + 1 = 2000 + (400 * (qc + 1) + 100 * 0 + 0)" using Q(5,11) that by simp
    show ?thesis unfolding f using cycle_div(4) [of 0 0 "qc + 1"] by simp
  qed
  have s: "jan1 (2000 + (y + 4 * q + 100 * c + 400 * qc)) + 59 + of_bool (leap_year (2000 + (y + 4 * q + 100 * c + 400 * qc))) + d = D + 11017"
    unfolding j D using Q(12) by simp
  show thesis by (rule that [OF c_def q_def y_def d_def _ _ _ _ _ l n s]) (use Q r in simp_all)
qed

lemma valid_year:
  assumes "valid_tm tm"
  shows "jan1 (1900 + tm_year tm) \<le> tm_days tm" "tm_days tm < jan1 (1900 + tm_year tm + 1)"
proof -
  define l where "l = leap_year (1900 + tm_year tm)"
  have m: "0 \<le> tm_mon tm" "tm_mon tm < 12" "1 \<le> tm_mday tm" "tm_mday tm \<le> month_days l (tm_mon tm)"
    using assms by (simp_all add: valid_tm_def l_def)
  have "month_start l (tm_mon tm) + month_days l (tm_mon tm) \<le> 365 + of_bool l"
    using m(1,2) by (rule int_range_cases) (simp_all add: month_start_values month_days_def)
  moreover have "0 \<le> month_start l (tm_mon tm)" using month_start_range m(1,2) by blast
  ultimately show "jan1 (1900 + tm_year tm) \<le> tm_days tm" "tm_days tm < jan1 (1900 + tm_year tm + 1)"
    using m(3,4) jan1_next [of "1900 + tm_year tm"]
    by (auto simp: tm_days_def tm_day_of_year_def l_def [symmetric] split: if_splits)
qed

lemma Let_step: "e = v \<Longrightarrow> f v = res \<Longrightarrow> (let x = e in f x) = res"
  by simp

lemma Let_pair_step: "e = (v, w) \<Longrightarrow> f v w = res \<Longrightarrow> (let (x, y) = e in f x y) = res"
  by simp

lemma dpy: "DAYS_PER_400Y = 146097" "DAYS_PER_100Y = 36524" "DAYS_PER_4Y = 1461"
  by (simp_all add: DAYS_PER_400Y_def DAYS_PER_100Y_def DAYS_PER_4Y_def)

lemma secs_to_tm_ok:
  assumes Y: "86400 * jan1 Y \<le> t" "t < 86400 * jan1 (Y + 1)"
  shows "if - (2 ^ 31) \<le> Y - 1900 \<and> Y - 1900 < 2 ^ 31
    then \<exists>tm'. secs_to_tm t tm = Some (0, tm') \<and> tm_year tm' = Y - 1900 \<and> valid_tm tm' \<and> tm_secs tm' = t
    else secs_to_tm t tm = Some (- 1, tm)"
proof (cases "t < - (2 ^ 31) * 31622400 \<or> (2 ^ 31 - 1) * 31622400 < t")
  case True
  have "\<not> (- (2 ^ 31) \<le> Y - 1900 \<and> Y - 1900 < 2 ^ 31)"
    using jan1_weak_mono [of "1900 - 2 ^ 31" Y] jan1_weak_mono [of "Y + 1" "1900 + 2 ^ 31"] True Y
    by (auto simp: jan1_def [of "1900 - 2 ^ 31", simplified] jan1_def [of "1900 + 2 ^ 31", simplified])
  then show ?thesis using True by (auto simp: secs_to_tm_def)
next
  case False
  define D where "D = (t - LEAPOCH) div 86400"
  define R where "R = (t - LEAPOCH) mod 86400"
  define qc where "qc = D div 146097"
  define r where "r = D mod 146097"
  obtain c q y d where C: "c = (if r div 36524 = 4 then r div 36524 - 1 else r div 36524)"
    "q = (if (r - c * 36524) div 1461 = 25 then (r - c * 36524) div 1461 - 1 else (r - c * 36524) div 1461)"
    "y = (if (r - c * 36524 - q * 1461) div 365 = 4 then (r - c * 36524 - q * 1461) div 365 - 1 else (r - c * 36524 - q * 1461) div 365)"
    "d = r - c * 36524 - q * 1461 - y * 365"
    and n: "0 \<le> r" "0 \<le> r - c * 36524" "0 \<le> r - c * 36524 - q * 1461" "0 \<le> d" "d \<le> 365"
    and l: "leap_year (2000 + (y + 4 * q + 100 * c + 400 * qc)) \<longleftrightarrow> y = 0 \<and> (q \<noteq> 0 \<or> c = 0)"
    "d = 365 \<Longrightarrow> leap_year (2000 + (y + 4 * q + 100 * c + 400 * qc) + 1)"
    "jan1 (2000 + (y + 4 * q + 100 * c + 400 * qc)) + 59 + of_bool (leap_year (2000 + (y + 4 * q + 100 * c + 400 * qc))) + d = D + 11017"
    using day_split [of D] unfolding qc_def r_def by blast
  define y0 where "y0 = 2000 + (y + 4 * q + 100 * c + 400 * qc)"
  obtain k s m where k: "(k, s, m) \<in> set march_months" "s \<le> d" "d < s + m" "months_loop days_in_month 0 d = Some (k, d - s)"
    using months_loop_ok [OF n(4,5)] by blast
  note date = march_date [OF k(1-3) l(2), folded y0_def]
  have R: "0 \<le> R" "R < 86400" by (simp_all add: R_def)
  have t: "t = 86400 * (D + 11017) + R" by (simp add: D_def R_def LEAPOCH_def)
  have "- 800000000000 \<le> D" "D \<le> 800000000000" using False t R by simp_all
  then have "- 6000000 \<le> D div 146097" "D div 146097 \<le> 6000000" by simp_all
  moreover have "D sdiv 146097 = D div 146097 \<or> D sdiv 146097 = D div 146097 + 1" using trunc_floor(1) [of 146097 D] by simp
  ultimately have qb: "to_int (D sdiv 146097) = D sdiv 146097" by (intro to_int_id) auto
  define tm' where "tm' = tm\<lparr>tm_year := march_year k y0 - 1900, tm_mon := march_mon k, tm_mday := d - s + 1,
      tm_wday := (3 + D) mod 7, tm_yday := month_start (leap_year (march_year k y0)) (march_mon k) + (d - s),
      tm_hour := R div 3600, tm_min := R div 60 mod 60, tm_sec := R mod 60\<rparr>"
  have doy: "tm_day_of_year tm' = tm_yday tm'" by (simp add: tm_day_of_year_def tm'_def)
  have days: "tm_days tm' = D + 11017" using date(4) l(3) by (simp add: tm_days_def doy) (simp add: tm'_def y0_def)
  have wd: "tm_wday tm' = (3 + D) mod 7" by (simp add: tm'_def)
  have "D + 11017 + 4 = 3 + D + 1574 * 7" by simp
  then have w: "tm_wday tm' = (tm_days tm' + 4) mod 7" unfolding days by (simp only: mod_mult_self1 wd)
  have f: "tm_mon tm' = march_mon k" "tm_mday tm' = d - s + 1" "1900 + tm_year tm' = march_year k y0" by (simp_all add: tm'_def)
  have h: "0 \<le> tm_hour tm'" "tm_hour tm' < 24" using R by (simp_all add: tm'_def pos_imp_zdiv_nonneg_iff)
  have i: "0 \<le> tm_min tm'" "tm_min tm' < 60" "0 \<le> tm_sec tm'" "tm_sec tm' < 60" by (simp_all add: tm'_def)
  have m: "1 \<le> tm_mday tm'" "tm_mday tm' \<le> month_days (leap_year (march_year k y0)) (march_mon k)" using k(2) date(3) f(2) by simp_all
  have v: "valid_tm tm'" unfolding valid_tm_def f(1,3) by (intro conjI date(1,2) m h i w doy [symmetric])
  have "R div 3600 = R div 60 div 60" by (simp flip: zdiv_zmult2_eq)
  then have hms: "3600 * (R div 3600) + (60 * (R div 60 mod 60) + R mod 60) = R" by presburger
  have secs: "tm_secs tm' = t" using hms by (simp add: tm_secs_def days t) (simp add: tm'_def)
  have leapb: "of_bool (y = 0 \<and> (q \<noteq> 0 \<or> c = 0)) = (of_bool (leap_year y0) :: int)" using l(1) by (simp add: y0_def)
  have yday: "(if 365 + of_bool (leap_year y0) \<le> d + 31 + 28 + of_bool (leap_year y0)
      then d + 31 + 28 + of_bool (leap_year y0) - (365 + of_bool (leap_year y0)) else d + 31 + 28 + of_bool (leap_year y0)) =
      month_start (leap_year (march_year k y0)) (march_mon k) + (d - s)"
    using date(5) by simp
  have run: "secs_to_tm t tm = (if - (2 ^ 31) \<le> march_year k y0 - 1900 \<and> march_year k y0 - 1900 < 2 ^ 31 then Some (0, tm') else Some (- 1, tm))"
    unfolding secs_to_tm_def dpy if_not_P [OF False]
    apply (rule Let_step [OF refl])
    apply (rule Let_step [OF refl])
    apply (rule Let_step [OF refl])
    apply (rule Let_pair_step [OF floor_adjust(1)], simp, fold D_def R_def)
    apply (rule Let_step [OF refl])
    apply (rule Let_step [OF floor_adjust(3)], simp)
    apply (rule Let_step [OF qb])
    apply (rule Let_step [OF refl])
    apply (rule Let_pair_step [OF floor_adjust(1)], simp, fold qc_def r_def)
    apply (rule Let_step [OF conjunct1 [OF trunc_nonneg [OF n(1)]]], simp)
    apply (rule Let_step [OF C(1) [symmetric]])
    apply (rule Let_step [OF refl])
    apply (rule Let_step [OF conjunct1 [OF trunc_nonneg [OF n(2)]]], simp)
    apply (rule Let_step [OF C(2) [symmetric]])
    apply (rule Let_step [OF refl])
    apply (rule Let_step [OF conjunct1 [OF trunc_nonneg [OF n(3)]]], simp)
    apply (rule Let_step [OF C(3) [symmetric]])
    apply (rule Let_step [OF C(4) [symmetric]])
    apply (rule Let_step [OF leapb])
    apply (rule Let_step [OF refl])
    apply (rule Let_step [OF yday])
    apply (rule Let_step [OF refl])
    using R by (simp add: k(4) tm'_def march_mon_def march_year_def y0_def trunc_nonneg pos_imp_zdiv_nonneg_iff)
  have "jan1 (march_year k y0) \<le> D + 11017" "D + 11017 < jan1 (march_year k y0 + 1)"
    using valid_year [OF v] days by (simp_all add: tm'_def)
  moreover have "86400 * jan1 Y < 86400 * (D + 11018)" "86400 * (D + 11017) < 86400 * jan1 (Y + 1)" using Y t R by simp_all
  then have "jan1 Y \<le> D + 11017" "D + 11017 < jan1 (Y + 1)" by simp_all
  ultimately have yk: "march_year k y0 = Y" by (rule jan1_unique)
  then have yr: "tm_year tm' = Y - 1900" by (simp add: tm'_def)
  show ?thesis
  proof (cases "- (2 ^ 31) \<le> Y - 1900 \<and> Y - 1900 < 2 ^ 31")
    case True
    then show ?thesis unfolding run yk if_P [OF True] using yr v secs by blast
  next
    case False
    show ?thesis unfolding run yk if_not_P [OF False] by (rule refl)
  qed
qed

lemma valid_tm_zone [simp]: "valid_tm (tm\<lparr>tm_isdst := a, tm_gmtoff := b, tm_zone := c\<rparr>) = valid_tm tm"
  by (simp add: valid_tm_def tm_days_def tm_day_of_year_def)

lemma tm_secs_zone [simp]: "tm_secs (tm\<lparr>tm_isdst := a, tm_gmtoff := b, tm_zone := c\<rparr>) = tm_secs tm"
  by (simp add: tm_secs_def tm_days_def tm_day_of_year_def)

lemma month_days_le: "month_days l m \<le> 31"
  by (simp add: month_days_def)

lemma valid_carry: "valid_tm tm \<Longrightarrow> carry_months tm = tm"
  by (simp add: valid_tm_def carry_months_def)

lemma valid_int_tm:
  assumes "valid_tm tm" "- (2 ^ 31) \<le> tm_year tm" "tm_year tm < 2 ^ 31"
  shows "int_tm tm" "tm_mday tm \<noteq> - (2 ^ 31)"
proof -
  have "tm_mday tm \<le> 31" using assms(1) month_days_le [of "leap_year (1900 + tm_year tm)" "tm_mon tm"] by (simp add: valid_tm_def)
  then show "int_tm tm" "tm_mday tm \<noteq> - (2 ^ 31)" using assms by (simp_all add: valid_tm_def int_tm_def)
qed

text \<open>1970-01-01.\<close>

definition demo_tm :: tm where
  "demo_tm = \<lparr>tm_sec = 0, tm_min = 0, tm_hour = 0, tm_mday = 1, tm_mon = 0, tm_year = 70, tm_wday = 4, tm_yday = 0,
     tm_isdst = 0, tm_gmtoff = 0, tm_zone = 0x5000\<rparr>"

end
