(* ===== verification/Malloc.thy ===== *)
theory Malloc
  imports RtBits Xen
begin

text \<open>
  The heap allocator: \<^verbatim>\<open>musl/src/malloc/malloc.c\<close> (\<open>malloc\<close>, \<open>free\<close> and what they call) and
  \<^verbatim>\<open>musl/src/malloc/expand_heap.c\<close>. Memory is seen as chunks: a chunk header lies 16 bytes below the block it
  describes, and the two links of a free chunk in the first bytes of the block. A state holds the chunks that memory
  is made of and the static variables of both files; reading a header that is not mapped has no result, and neither has
  \<open>a_crash\<close>, which ends the program. System calls are parameters of the model. One thread runs, so that the locks do
  nothing. \<open>realloc\<close>, \<open>calloc\<close> and \<open>memalign\<close> are not modelled.
\<close>

section \<open>Chunks and bins\<close>

record heap_chunk =
  psize :: u64
  csize :: u64
  cnext :: addr
  cprev :: addr

type_synonym cheap = "addr \<Rightarrow> heap_chunk option"

definition SIZE_ALIGN :: u64 where "SIZE_ALIGN = 32"
definition SIZE_MASK :: u64 where "SIZE_MASK = - SIZE_ALIGN"
definition OVERHEAD :: u64 where "OVERHEAD = 16"
definition MMAP_THRESHOLD :: u64 where "MMAP_THRESHOLD = 0x1c00 * SIZE_ALIGN"
definition DONTCARE :: u64 where "DONTCARE = 16"
definition RECLAIM :: u64 where "RECLAIM = 163840"
definition C_INUSE :: u64 where "C_INUSE = 1"
definition PAGE_SIZE :: u64 where "PAGE_SIZE = 4096"
definition SIZE_MAX :: u64 where "SIZE_MAX = - 1"

text \<open>
  The system under the allocator: the address of \<open>BIN_TO_CHUNK(0)\<close>, the system calls with what they do to its
  state, and the two stack addresses \<open>traverses_stack_p\<close> looks at. \<open>anon_mmap len\<close> is
  \<open>__mmap(0, len, PROT_READ|PROT_WRITE, MAP_PRIVATE|MAP_ANONYMOUS, -1, 0)\<close>.
\<close>

record 'x menv =
  bin0 :: addr
  sys_brk :: "addr \<Rightarrow> 'x \<Rightarrow> addr \<times> 'x"
  anon_mmap :: "u64 \<Rightarrow> 'x \<Rightarrow> addr \<times> 'x"
  sys_munmap :: "addr \<Rightarrow> u64 \<Rightarrow> 'x \<Rightarrow> 'x"
  sys_madvise :: "addr \<Rightarrow> u64 \<Rightarrow> 'x \<Rightarrow> 'x"
  auxv :: addr
  stack :: addr

text \<open>The memory that chunks are in, with the static variables of \<open>malloc.c\<close> and \<open>expand_heap.c\<close>.\<close>

record 'x mstate =
  hmem :: cheap
  hbinmap :: u64
  hend :: addr
  hbrk :: addr
  hstep :: u32
  herrno :: u32
  hsys :: 'x

definition get_psize :: "addr \<Rightarrow> 'x mstate \<Rightarrow> u64 option" where "get_psize c s = map_option psize (hmem s c)"
definition get_csize :: "addr \<Rightarrow> 'x mstate \<Rightarrow> u64 option" where "get_csize c s = map_option csize (hmem s c)"
definition get_next :: "addr \<Rightarrow> 'x mstate \<Rightarrow> u64 option" where "get_next c s = map_option cnext (hmem s c)"
definition get_prev :: "addr \<Rightarrow> 'x mstate \<Rightarrow> u64 option" where "get_prev c s = map_option cprev (hmem s c)"

definition put_chunk :: "addr \<Rightarrow> (heap_chunk \<Rightarrow> heap_chunk) \<Rightarrow> 'x mstate \<Rightarrow> 'x mstate option" where
  "put_chunk c f s = map_option (\<lambda>d. s\<lparr>hmem := (hmem s)(c \<mapsto> f d)\<rparr>) (hmem s c)"

definition put_psize :: "addr \<Rightarrow> u64 \<Rightarrow> 'x mstate \<Rightarrow> 'x mstate option" where "put_psize c v = put_chunk c (\<lambda>d. d\<lparr>psize := v\<rparr>)"
definition put_csize :: "addr \<Rightarrow> u64 \<Rightarrow> 'x mstate \<Rightarrow> 'x mstate option" where "put_csize c v = put_chunk c (\<lambda>d. d\<lparr>csize := v\<rparr>)"
definition put_next :: "addr \<Rightarrow> addr \<Rightarrow> 'x mstate \<Rightarrow> 'x mstate option" where "put_next c v = put_chunk c (\<lambda>d. d\<lparr>cnext := v\<rparr>)"
definition put_prev :: "addr \<Rightarrow> addr \<Rightarrow> 'x mstate \<Rightarrow> 'x mstate option" where "put_prev c v = put_chunk c (\<lambda>d. d\<lparr>cprev := v\<rparr>)"

definition CHUNK_SIZE :: "addr \<Rightarrow> 'x mstate \<Rightarrow> u64 option" where
  "CHUNK_SIZE c s = map_option (\<lambda>k. k AND - 2) (get_csize c s)"

definition CHUNK_PSIZE :: "addr \<Rightarrow> 'x mstate \<Rightarrow> u64 option" where
  "CHUNK_PSIZE c s = map_option (\<lambda>k. k AND - 2) (get_psize c s)"

definition PREV_CHUNK :: "addr \<Rightarrow> 'x mstate \<Rightarrow> addr option" where
  "PREV_CHUNK c s = map_option (\<lambda>k. c - k) (CHUNK_PSIZE c s)"

definition NEXT_CHUNK :: "addr \<Rightarrow> 'x mstate \<Rightarrow> addr option" where
  "NEXT_CHUNK c s = map_option (\<lambda>k. c + k) (CHUNK_SIZE c s)"

definition MEM_TO_CHUNK :: "addr \<Rightarrow> addr" where "MEM_TO_CHUNK p = p - OVERHEAD"
definition CHUNK_TO_MEM :: "addr \<Rightarrow> addr" where "CHUNK_TO_MEM c = c + OVERHEAD"
definition BIN_TO_CHUNK :: "'x menv \<Rightarrow> nat \<Rightarrow> addr" where "BIN_TO_CHUNK K i = bin0 K + 24 * of_nat i"

text \<open>One thread runs, so that \<open>lock\<close> and \<open>unlock\<close> do nothing; what is left of \<open>lock_bin\<close> sets up an unused bin.\<close>

definition lock_bin :: "'x menv \<Rightarrow> nat \<Rightarrow> 'x mstate \<Rightarrow> 'x mstate option" where
  "lock_bin K i s =
     do { h \<leftarrow> get_next (BIN_TO_CHUNK K i) s;
          if h = 0 then do { s \<leftarrow> put_prev (BIN_TO_CHUNK K i) (BIN_TO_CHUNK K i) s; put_next (BIN_TO_CHUNK K i) (BIN_TO_CHUNK K i) s }
          else Some s }"

definition bin_tab :: "nat list" where
  "bin_tab = [32, 33, 34, 35, 36, 36, 37, 37, 38, 38, 39, 39,
     40, 40, 40, 40, 41, 41, 41, 41, 42, 42, 42, 42, 43, 43, 43, 43,
     44, 44, 44, 44, 44, 44, 44, 44, 45, 45, 45, 45, 45, 45, 45, 45,
     46, 46, 46, 46, 46, 46, 46, 46, 47, 47, 47, 47, 47, 47, 47, 47]"

definition bin_index :: "u64 \<Rightarrow> nat" where
  "bin_index x =
     (let x = x div SIZE_ALIGN - 1
      in if x \<le> 32 then unat x
         else if x < 512 then bin_tab ! unat (x div 8 - 4)
         else if 0x1c00 < x then 63
         else bin_tab ! unat (x div 128 - 4) + 16)"

definition bin_index_up :: "u64 \<Rightarrow> nat option" where
  "bin_index_up x =
     (let x = x div SIZE_ALIGN - 1
      in if x \<le> 32 then Some (unat x)
         else let x = x - 1
              in if x < 512 then Some (bin_tab ! unat (x div 8 - 4) + 1)
                 else if x div 128 - 4 < 60 then Some (bin_tab ! unat (x div 128 - 4) + 17)
                 else None)"

definition first_set :: "u64 \<Rightarrow> nat" where
  "first_set x = builtin_ctz x"

section \<open>Removal from bins\<close>

definition unbin :: "addr \<Rightarrow> nat \<Rightarrow> 'x mstate \<Rightarrow> 'x mstate option" where
  "unbin c i s =
     do { p \<leftarrow> get_prev c s; n \<leftarrow> get_next c s;
          let s = (if p = n then s\<lparr>hbinmap := hbinmap s AND NOT (push_bit i 1)\<rparr> else s);
          s \<leftarrow> put_next p n s;
          n \<leftarrow> get_next c s; p \<leftarrow> get_prev c s;
          s \<leftarrow> put_prev n p s;
          k \<leftarrow> get_csize c s;
          s \<leftarrow> put_csize c (k OR C_INUSE) s;
          e \<leftarrow> NEXT_CHUNK c s;
          k \<leftarrow> get_psize e s;
          put_psize e (k OR C_INUSE) s }"

partial_function (option) alloc_fwd :: "'x menv \<Rightarrow> addr \<Rightarrow> 'x mstate \<Rightarrow> (bool \<times> 'x mstate) option" where
  "alloc_fwd K c s =
     do { k \<leftarrow> get_csize c s;
          if k AND C_INUSE \<noteq> 0 then Some (False, s)
          else do { let i = bin_index k;
                    s \<leftarrow> lock_bin K i s;
                    k' \<leftarrow> get_csize c s;
                    if k' = k then do { s \<leftarrow> unbin c i s; Some (True, s) }
                    else alloc_fwd K c s } }"

partial_function (option) alloc_rev :: "'x menv \<Rightarrow> addr \<Rightarrow> 'x mstate \<Rightarrow> (bool \<times> 'x mstate) option" where
  "alloc_rev K c s =
     do { k \<leftarrow> get_psize c s;
          if k AND C_INUSE \<noteq> 0 then Some (False, s)
          else do { let i = bin_index k;
                    s \<leftarrow> lock_bin K i s;
                    k' \<leftarrow> get_psize c s;
                    if k' = k then do { p \<leftarrow> PREV_CHUNK c s; s \<leftarrow> unbin p i s; Some (True, s) }
                    else alloc_rev K c s } }"

section \<open>Freeing\<close>

text \<open>The merges of one round of \<open>free\<close>: what holds of \<open>self\<close>, \<open>next\<close>, \<open>final_size\<close> and \<open>reclaim\<close> after it.\<close>

definition merge_round :: "'x menv \<Rightarrow> addr \<Rightarrow> addr \<Rightarrow> u64 \<Rightarrow> u64 \<Rightarrow> bool \<Rightarrow> 'x mstate \<Rightarrow>
    (addr \<times> addr \<times> u64 \<times> bool \<times> 'x mstate) option" where
  "merge_round K self next final_size new_size reclaim s =
     do { (r, s) \<leftarrow> alloc_rev K self s;
          (self, final_size, reclaim) \<leftarrow>
            (if r then
               do { self \<leftarrow> PREV_CHUNK self s; size \<leftarrow> CHUNK_SIZE self s;
                    Some (self, final_size + size,
                      reclaim \<or> RECLAIM < new_size + size \<and> size < (new_size + size XOR size)) }
             else Some (self, final_size, reclaim));
          (r, s) \<leftarrow> alloc_fwd K next s;
          (next, final_size, reclaim) \<leftarrow>
            (if r then
               do { size \<leftarrow> CHUNK_SIZE next s; e \<leftarrow> NEXT_CHUNK next s;
                    Some (e, final_size + size,
                      reclaim \<or> RECLAIM < new_size + size \<and> size < (new_size + size XOR size)) }
             else Some (next, final_size, reclaim));
          Some (self, next, final_size, reclaim, s) }"

text \<open>\<open>self->psize & next->csize & C_INUSE\<close>\<close>

definition both_in_use :: "addr \<Rightarrow> addr \<Rightarrow> 'x mstate \<Rightarrow> bool option" where
  "both_in_use self next s = do { a \<leftarrow> get_psize self s; b \<leftarrow> get_csize next s; Some (a AND b AND C_INUSE \<noteq> 0) }"

partial_function (option) free_loop :: "'x menv \<Rightarrow> addr \<Rightarrow> addr \<Rightarrow> u64 \<Rightarrow> u64 \<Rightarrow> bool \<Rightarrow> 'x mstate \<Rightarrow>
    (addr \<times> addr \<times> u64 \<times> bool \<times> nat \<times> 'x mstate) option" where
  "free_loop K self next final_size new_size reclaim s =
     do { b \<leftarrow> both_in_use self next s;
          (b, i, s) \<leftarrow>
            (if b then
               do { s \<leftarrow> put_csize self (final_size OR C_INUSE) s;
                    s \<leftarrow> put_psize next (final_size OR C_INUSE) s;
                    let i = bin_index final_size;
                    s \<leftarrow> lock_bin K i s;
                    b \<leftarrow> both_in_use self next s;
                    Some (b, i, s) }
             else Some (False, 0, s));
          if b then Some (self, next, final_size, reclaim, i, s)
          else do { (self, next, final_size, reclaim, s) \<leftarrow> merge_round K self next final_size new_size reclaim s;
                    free_loop K self next final_size new_size reclaim s } }"

text \<open>\<open>madvise(a, len, MADV_DONTNEED)\<close> on private anonymous memory: the bytes of the range read as zero.\<close>

definition zeroed :: "addr \<Rightarrow> u64 \<Rightarrow> cheap \<Rightarrow> cheap" where
  "zeroed a len m = (\<lambda>c. map_option (\<lambda>d.
     \<lparr>psize = if c - a < len then 0 else psize d, csize = if c + 8 - a < len then 0 else csize d,
      cnext = if c + 16 - a < len then 0 else cnext d, cprev = if c + 24 - a < len then 0 else cprev d\<rparr>) (m c))"

text \<open>\<open>munmap\<close>: the chunks of the range are gone.\<close>

definition unmapped :: "addr \<Rightarrow> u64 \<Rightarrow> cheap \<Rightarrow> cheap" where
  "unmapped a len m = (\<lambda>c. if c - a < len then None else m c)"

text \<open>The end of \<open>free\<close>: the chunk goes to the end of its bin, and the pages of a large one back to the system.\<close>

definition release :: "'x menv \<Rightarrow> addr \<Rightarrow> addr \<Rightarrow> u64 \<Rightarrow> nat \<Rightarrow> 'x mstate \<Rightarrow> 'x mstate option" where
  "release K self next final_size i s =
     do { let s = (if hbinmap s AND push_bit i 1 = 0 then s\<lparr>hbinmap := hbinmap s OR push_bit i 1\<rparr> else s);
          s \<leftarrow> put_csize self final_size s;
          s \<leftarrow> put_psize next final_size s;
          s \<leftarrow> put_next self (BIN_TO_CHUNK K i) s;
          t \<leftarrow> get_prev (BIN_TO_CHUNK K i) s;
          s \<leftarrow> put_prev self t s;
          n \<leftarrow> get_next self s; s \<leftarrow> put_prev n self s;
          p \<leftarrow> get_prev self s; put_next p self s }"

definition give_back :: "'x menv \<Rightarrow> addr \<Rightarrow> addr \<Rightarrow> 'x mstate \<Rightarrow> 'x mstate" where
  "give_back K self next s =
     (let a = (self + SIZE_ALIGN + PAGE_SIZE - 1) AND - PAGE_SIZE;
          b = (next - SIZE_ALIGN) AND - PAGE_SIZE
      in s\<lparr>hmem := zeroed a (b - a) (hmem s), hsys := sys_madvise K a (b - a) (hsys s)\<rparr>)"

text \<open>\<open>a_crash\<close> ends the program and is \<open>None\<close>.\<close>

definition mfree :: "'x menv \<Rightarrow> addr \<Rightarrow> 'x mstate \<Rightarrow> 'x mstate option" where
  "mfree K p s =
     (if p = 0 then Some s
      else do {
        let self = MEM_TO_CHUNK p;
        k \<leftarrow> get_csize self s;
        if k AND C_INUSE = 0 then
          do { extra \<leftarrow> get_psize self s;
               let base = self - extra;
               size \<leftarrow> CHUNK_SIZE self s;
               let len = size + extra;
               if extra AND 1 \<noteq> 0 then None
               else Some (s\<lparr>hmem := unmapped base len (hmem s), hsys := sys_munmap K base len (hsys s)\<rparr>) }
        else do {
          size \<leftarrow> CHUNK_SIZE self s;
          next \<leftarrow> NEXT_CHUNK self s;
          f \<leftarrow> get_psize next s; k \<leftarrow> get_csize self s;
          if f \<noteq> k then None
          else do {
            (self, next, final_size, reclaim, i, s) \<leftarrow> free_loop K self next size size False s;
            s \<leftarrow> release K self next final_size i s;
            Some (if reclaim then give_back K self next s else s) } } })"

section \<open>Allocation\<close>

definition pretrim :: "addr \<Rightarrow> u64 \<Rightarrow> nat \<Rightarrow> nat \<Rightarrow> 'x mstate \<Rightarrow> (bool \<times> 'x mstate) option" where
  "pretrim self n i j s =
     (if j < 40 then Some (False, s)
      else do {
        n1 \<leftarrow> CHUNK_SIZE self s;
        if j < i + 3 \<and> (j \<noteq> 63 \<or> n1 - n \<le> MMAP_THRESHOLD) then Some (False, s)
        else if bin_index (n1 - n) \<noteq> j then Some (False, s)
        else do {
          next \<leftarrow> NEXT_CHUNK self s;
          let split = self + n;
          p \<leftarrow> get_prev self s; s \<leftarrow> put_prev split p s;
          q \<leftarrow> get_next self s; s \<leftarrow> put_next split q s;
          p \<leftarrow> get_prev split s; s \<leftarrow> put_next p split s;
          q \<leftarrow> get_next split s; s \<leftarrow> put_prev q split s;
          s \<leftarrow> put_psize split (n OR C_INUSE) s;
          s \<leftarrow> put_csize split (n1 - n) s;
          s \<leftarrow> put_psize next (n1 - n) s;
          s \<leftarrow> put_csize self (n OR C_INUSE) s;
          Some (True, s) } })"

definition trim :: "'x menv \<Rightarrow> addr \<Rightarrow> u64 \<Rightarrow> 'x mstate \<Rightarrow> 'x mstate option" where
  "trim K self n s =
     do { n1 \<leftarrow> CHUNK_SIZE self s;
          if n1 - DONTCARE \<le> n then Some s
          else do {
            next \<leftarrow> NEXT_CHUNK self s;
            let split = self + n;
            s \<leftarrow> put_psize split (n OR C_INUSE) s;
            s \<leftarrow> put_csize split ((n1 - n) OR C_INUSE) s;
            s \<leftarrow> put_psize next ((n1 - n) OR C_INUSE) s;
            s \<leftarrow> put_csize self (n OR C_INUSE) s;
            mfree K (CHUNK_TO_MEM split) s } }"

definition traverses_stack_p :: "'x menv \<Rightarrow> addr \<Rightarrow> addr \<Rightarrow> bool" where
  "traverses_stack_p K old new =
     (let len = push_bit 20 8;
          hit = (\<lambda>b. let a = (if len < b then b - len else 0) in a < new \<and> old < b)
      in hit (auxv K) \<or> hit (stack K))"

text \<open>The chunks of a fresh mapping: zero pages. The header of a chunk lies 16 bytes below its memory.\<close>

definition map_area :: "addr \<Rightarrow> u64 \<Rightarrow> cheap \<Rightarrow> cheap" where
  "map_area p n m = (\<lambda>c. if c - (p + 16) < n \<and> (c - (p + 16)) AND 31 = 0
     then Some \<lparr>psize = 0, csize = 0, cnext = 0, cprev = 0\<rparr> else m c)"

text \<open>\<open>__expand_heap\<close>: the area, 0 for none, and its size.\<close>

definition expand_pages :: "'x menv \<Rightarrow> u64 \<Rightarrow> 'x mstate \<Rightarrow> (addr \<times> u64 \<times> 'x mstate) option" where
  "expand_pages K n s =
     (if SIZE_MAX div 2 - PAGE_SIZE < n then Some (0, n, s\<lparr>herrno := ENOMEM\<rparr>)
      else
        let n = n + (- n AND (PAGE_SIZE - 1));
            s = (if hbrk s = 0
                 then let (b, x) = sys_brk K 0 (hsys s) in s\<lparr>hbrk := b + (- b AND (PAGE_SIZE - 1)), hsys := x\<rparr>
                 else s);
            brk = hbrk s;
            (grown, s) =
              (if n < SIZE_MAX - brk \<and> \<not> traverses_stack_p K brk (brk + n)
               then let (r, x) = sys_brk K (brk + n) (hsys s) in (r = brk + n, s\<lparr>hsys := x\<rparr>)
               else (False, s))
        in if grown then Some (brk, n, s\<lparr>hbrk := brk + n, hmem := map_area brk n (hmem s)\<rparr>)
           else if 64 \<le> unat (hstep s div 2) then None
           else
             let least = push_bit (unat (hstep s div 2)) PAGE_SIZE;
                 n = (if n < least then least else n);
                 (area, x) = anon_mmap K n (hsys s)
             in if area = MAP_FAILED then Some (0, n, s\<lparr>hsys := x\<rparr>)
                else Some (area, n, s\<lparr>hsys := x, hstep := hstep s + 1, hmem := map_area area n (hmem s)\<rparr>))"

definition expand_heap :: "'x menv \<Rightarrow> u64 \<Rightarrow> 'x mstate \<Rightarrow> (addr \<times> 'x mstate) option" where
  "expand_heap K n s =
     do { (p, n, s) \<leftarrow> expand_pages K (n + SIZE_ALIGN) s;
          if p = 0 then Some (0, s)
          else do {
            (p, n, s) \<leftarrow>
              (if p \<noteq> hend s then
                 do { s \<leftarrow> put_psize (MEM_TO_CHUNK (p + SIZE_ALIGN)) (0 OR C_INUSE) s; Some (p + SIZE_ALIGN, n - SIZE_ALIGN, s) }
               else Some (p, n, s));
            let s = s\<lparr>hend := p + n\<rparr>;
            let w = MEM_TO_CHUNK (p + n);
            s \<leftarrow> put_psize w (n OR C_INUSE) s;
            s \<leftarrow> put_csize w (0 OR C_INUSE) s;
            let w = MEM_TO_CHUNK p;
            s \<leftarrow> put_csize w (n OR C_INUSE) s;
            Some (w, s) } }"

text \<open>The adjusted size, or \<open>None\<close> for the failure.\<close>

definition adjust_size :: "u64 \<Rightarrow> u64 option" where
  "adjust_size n =
     (if PTRDIFF_MAX - SIZE_ALIGN - PAGE_SIZE < n - 1
      then if n \<noteq> 0 then None else Some SIZE_ALIGN
      else Some ((n + OVERHEAD + SIZE_ALIGN - 1) AND SIZE_MASK))"

text \<open>The new block is merged with a free one below it.\<close>

definition join_below :: "'x menv \<Rightarrow> addr \<Rightarrow> 'x mstate \<Rightarrow> (addr \<times> 'x mstate) option" where
  "join_below K c s =
     do { (r, s) \<leftarrow> alloc_rev K c s;
          if r then
            do { let x = c;
                 c \<leftarrow> PREV_CHUNK c s;
                 a \<leftarrow> get_csize x s; b \<leftarrow> CHUNK_SIZE c s;
                 e \<leftarrow> NEXT_CHUNK x s;
                 s \<leftarrow> put_csize c (a + b) s;
                 s \<leftarrow> put_psize e (a + b) s;
                 Some (c, s) }
          else Some (c, s) }"

text \<open>The loop of \<open>malloc\<close>: a chunk in use of at least \<open>n\<close> bytes, 0 for none.\<close>

partial_function (option) malloc_loop :: "'x menv \<Rightarrow> u64 \<Rightarrow> nat \<Rightarrow> 'x mstate \<Rightarrow> (addr \<times> 'x mstate) option" where
  "malloc_loop K n i s =
     (let mask = hbinmap s AND - push_bit i 1
      in if mask = 0 then
           do { (c, s) \<leftarrow> expand_heap K n s;
                if c = 0 then Some (0, s)
                else join_below K c s }
         else do {
           let j = first_set mask;
           s \<leftarrow> lock_bin K j s;
           c \<leftarrow> get_next (BIN_TO_CHUNK K j) s;
           if c \<noteq> BIN_TO_CHUNK K j then
             do { (r, s) \<leftarrow> pretrim c n i j s;
                  s \<leftarrow> (if r then Some s else unbin c j s);
                  Some (c, s) }
           else malloc_loop K n i s })"

definition malloc :: "'x menv \<Rightarrow> u64 \<Rightarrow> 'x mstate \<Rightarrow> (addr \<times> 'x mstate) option" where
  "malloc K n s =
     (case adjust_size n of None \<Rightarrow> Some (0, s\<lparr>herrno := ENOMEM\<rparr>)
      | Some n \<Rightarrow>
          if MMAP_THRESHOLD < n then
            let len = (n + OVERHEAD + PAGE_SIZE - 1) AND - PAGE_SIZE;
                (base, x) = anon_mmap K len (hsys s);
                s = s\<lparr>hsys := x\<rparr>
            in if base = MAP_FAILED then Some (0, s)
               else do {
                 let s = s\<lparr>hmem := map_area base len (hmem s)\<rparr>;
                 let c = base + SIZE_ALIGN - OVERHEAD;
                 s \<leftarrow> put_csize c (len - (SIZE_ALIGN - OVERHEAD)) s;
                 s \<leftarrow> put_psize c (SIZE_ALIGN - OVERHEAD) s;
                 Some (CHUNK_TO_MEM c, s) }
          else do {
            i \<leftarrow> bin_index_up n;
            (c, s) \<leftarrow> malloc_loop K n i s;
            if c = 0 then Some (0, s)
            else do { s \<leftarrow> trim K c n s; Some (CHUNK_TO_MEM c, s) } })"

end
