(* ===== verification/MallocHeap.thy ===== *)
theory MallocHeap
  imports Malloc
begin

text \<open>
  What a well-formed heap is. A ghost value says which blocks there are, with their sizes and whether they are in use,
  where the segments of the heap end, which free chunks every bin holds in which order, and which blocks are mappings
  of their own. \<open>heap\<close> ties it to the chunks: blocks are disjoint, cover their segments and lie in mapped memory
  (\<open>geometry\<close>), the size fields of a chunk and of its neighbour agree and no two free chunks are neighbours
  (\<open>tags\<close>), and every bin is a ring of its free chunks, with a bit in the bin map when it has any (\<open>bins\<close>).
  The lemmas show that taking a chunk from its bin, joining neighbours and cutting a chunk keep this, and that none of
  it writes to the blocks the program holds (\<open>untouched\<close>).
\<close>

section \<open>Fields of the chunks\<close>

definition pz :: "cheap \<Rightarrow> addr \<Rightarrow> u64" where "pz m c = psize (the (m c))"
definition cz :: "cheap \<Rightarrow> addr \<Rightarrow> u64" where "cz m c = csize (the (m c))"
definition nx :: "cheap \<Rightarrow> addr \<Rightarrow> addr" where "nx m c = cnext (the (m c))"
definition pv :: "cheap \<Rightarrow> addr \<Rightarrow> addr" where "pv m c = cprev (the (m c))"

definition set_pz :: "cheap \<Rightarrow> addr \<Rightarrow> u64 \<Rightarrow> cheap" where "set_pz m c v = m(c \<mapsto> (the (m c))\<lparr>psize := v\<rparr>)"
definition set_cz :: "cheap \<Rightarrow> addr \<Rightarrow> u64 \<Rightarrow> cheap" where "set_cz m c v = m(c \<mapsto> (the (m c))\<lparr>csize := v\<rparr>)"
definition set_nx :: "cheap \<Rightarrow> addr \<Rightarrow> addr \<Rightarrow> cheap" where "set_nx m c v = m(c \<mapsto> (the (m c))\<lparr>cnext := v\<rparr>)"
definition set_pv :: "cheap \<Rightarrow> addr \<Rightarrow> addr \<Rightarrow> cheap" where "set_pv m c v = m(c \<mapsto> (the (m c))\<lparr>cprev := v\<rparr>)"

lemma pz_set [simp]: "pz (set_pz m c v) = (pz m)(c := v)" "pz (set_cz m c v) = pz m" "pz (set_nx m c v) = pz m" "pz (set_pv m c v) = pz m"
  by (auto simp: pz_def set_pz_def set_cz_def set_nx_def set_pv_def)

lemma cz_set [simp]: "cz (set_cz m c v) = (cz m)(c := v)" "cz (set_pz m c v) = cz m" "cz (set_nx m c v) = cz m" "cz (set_pv m c v) = cz m"
  by (auto simp: cz_def set_pz_def set_cz_def set_nx_def set_pv_def)

lemma nx_set [simp]: "nx (set_nx m c v) = (nx m)(c := v)" "nx (set_pz m c v) = nx m" "nx (set_cz m c v) = nx m" "nx (set_pv m c v) = nx m"
  by (auto simp: nx_def set_pz_def set_cz_def set_nx_def set_pv_def)

lemma pv_set [simp]: "pv (set_pv m c v) = (pv m)(c := v)" "pv (set_pz m c v) = pv m" "pv (set_cz m c v) = pv m" "pv (set_nx m c v) = pv m"
  by (auto simp: pv_def set_pz_def set_cz_def set_nx_def set_pv_def)

lemma dom_set [simp]: "dom (set_pz m c v) = insert c (dom m)" "dom (set_cz m c v) = insert c (dom m)"
  "dom (set_nx m c v) = insert c (dom m)" "dom (set_pv m c v) = insert c (dom m)"
  by (auto simp: set_pz_def set_cz_def set_nx_def set_pv_def)

lemma set_other [simp]: "x \<noteq> c \<Longrightarrow> set_pz m c v x = m x" "x \<noteq> c \<Longrightarrow> set_cz m c v x = m x"
  "x \<noteq> c \<Longrightarrow> set_nx m c v x = m x" "x \<noteq> c \<Longrightarrow> set_pv m c v x = m x"
  by (simp_all add: set_pz_def set_cz_def set_nx_def set_pv_def)

lemma get_eq:
  assumes "c \<in> dom (hmem s)"
  shows "get_psize c s = Some (pz (hmem s) c)" "get_csize c s = Some (cz (hmem s) c)"
    "get_next c s = Some (nx (hmem s) c)" "get_prev c s = Some (pv (hmem s) c)"
    "CHUNK_SIZE c s = Some (cz (hmem s) c AND - 2)" "NEXT_CHUNK c s = Some (c + (cz (hmem s) c AND - 2))"
    "PREV_CHUNK c s = Some (c - (pz (hmem s) c AND - 2))"
  using assms by (auto simp: get_psize_def get_csize_def get_next_def get_prev_def CHUNK_SIZE_def NEXT_CHUNK_def PREV_CHUNK_def
      CHUNK_PSIZE_def pz_def cz_def nx_def pv_def)

lemma put_eq:
  assumes "c \<in> dom (hmem s)"
  shows "put_psize c v s = Some (s\<lparr>hmem := set_pz (hmem s) c v\<rparr>)" "put_csize c v s = Some (s\<lparr>hmem := set_cz (hmem s) c v\<rparr>)"
    "put_next c v s = Some (s\<lparr>hmem := set_nx (hmem s) c v\<rparr>)" "put_prev c v s = Some (s\<lparr>hmem := set_pv (hmem s) c v\<rparr>)"
  using assms by (auto simp: put_psize_def put_csize_def put_next_def put_prev_def put_chunk_def
      set_pz_def set_cz_def set_nx_def set_pv_def)

lemmas field_eqs = get_eq put_eq

section \<open>Rings\<close>

fun path :: "(addr \<Rightarrow> addr) \<Rightarrow> (addr \<Rightarrow> addr) \<Rightarrow> addr \<Rightarrow> addr list \<Rightarrow> addr \<Rightarrow> bool" where
  "path n p a [] b \<longleftrightarrow> n a = b \<and> p b = a"
| "path n p a (x # xs) b \<longleftrightarrow> n a = x \<and> p x = a \<and> path n p x xs b"

lemma path_append: "path n p a (xs @ x # ys) b \<longleftrightarrow> path n p a xs x \<and> path n p x ys b"
  by (induction xs arbitrary: a) auto

lemma path_cong:
  "(\<And>c. c \<in> insert a (set xs) \<Longrightarrow> n' c = n c) \<Longrightarrow> (\<And>c. c \<in> insert b (set xs) \<Longrightarrow> p' c = p c) \<Longrightarrow>
    path n' p' a xs b \<longleftrightarrow> path n p a xs b"
  by (induction xs arbitrary: a) auto

lemma path_last: "path n p a xs b \<Longrightarrow> n (last (a # xs)) = b \<and> p b = last (a # xs)"
  by (induction xs arbitrary: a) auto

lemma path_first: "path n p a xs b \<Longrightarrow> n a = hd (xs @ [b]) \<and> p (hd (xs @ [b])) = a"
  by (cases xs) auto

lemma path_inner: "path n p a xs b \<Longrightarrow> x \<in> set xs \<Longrightarrow> n x \<in> insert b (set xs) \<and> p x \<in> insert a (set xs)"
proof -
  assume p: "path n p a xs b" and x: "x \<in> set xs"
  obtain us vs where xs: "xs = us @ x # vs" using x by (auto simp: in_set_conv_decomp)
  then have "path n p a us x" "path n p x vs b" using p by (simp_all add: path_append)
  then show ?thesis using path_last [of n p a us x] path_first [of n p x vs b] xs by (cases us; cases vs) auto
qed

lemma path_end:
  "path n p a xs b \<Longrightarrow> distinct (a # xs) \<Longrightarrow> b' \<notin> set xs \<Longrightarrow>
    path (n(last (a # xs) := b')) (p(b' := last (a # xs))) a xs b'"
proof (induction xs arbitrary: a)
  case (Cons x xs)
  have l: "last (x # xs) \<noteq> a" using Cons.prems(2) last_in_set [of "x # xs"] by fastforce
  then show ?case using Cons by auto
qed simp

lemma path_remove:
  assumes "path n p s (xs @ x # ys) s" "distinct (s # xs @ x # ys)"
  defines "a \<equiv> last (s # xs)" and "b \<equiv> hd (ys @ [s])"
  shows "p x = a" "n x = b" "path (n(a := b)) (p(b := a)) s (xs @ ys) s"
proof -
  have 1: "path n p s xs x" "path n p x ys s" using assms(1) by (simp_all add: path_append)
  show "p x = a" "n x = b" using path_last [OF 1(1)] path_first [OF 1(2)] by (simp_all add: a_def b_def)
  have "a \<in> set (s # xs)" unfolding a_def by (rule last_in_set) simp
  then have a: "a \<notin> set ys" using assms(2) by auto
  show "path (n(a := b)) (p(b := a)) s (xs @ ys) s"
  proof (cases ys)
    case Nil
    then show ?thesis using path_end [OF 1(1), of s] assms(2) by (simp add: a_def b_def)
  next
    case (Cons y zs)
    have "path (n(a := b)) (p(b := a)) s xs y" using path_end [OF 1(1), of y] assms(2) Cons by (auto simp: a_def b_def)
    moreover have "path n p y zs s" using 1(2) Cons by simp
    then have "path (n(a := b)) (p(b := a)) y zs s"
      using a assms(2) Cons by (subst path_cong) (auto simp: b_def)
    ultimately show ?thesis using Cons by (simp add: path_append)
  qed
qed

lemma path_snoc:
  assumes "path n p s xs s" "distinct (s # xs)" "x \<notin> set (s # xs)"
  defines "t \<equiv> last (s # xs)"
  shows "p s = t" "path (n(x := s, t := x)) (p(x := t, s := x)) s (xs @ [x]) s"
proof -
  show "p s = t" using path_last [OF assms(1)] by (simp add: t_def)
  have t: "t \<in> set (s # xs)" unfolding t_def by (rule last_in_set) simp
  have e: "path (n(t := x)) (p(x := t)) s xs x" using path_end [OF assms(1,2), of x] assms(3) by (simp add: t_def)
  have "path (n(x := s, t := x)) (p(x := t, s := x)) s xs x"
    by (rule path_cong [THEN iffD2, OF _ _ e]) (use assms(2,3) t in auto)
  then show "path (n(x := s, t := x)) (p(x := t, s := x)) s (xs @ [x]) s"
    using assms(3) t by (auto simp: path_append)
qed

lemma path_replace:
  assumes "path n p s (xs @ x # ys) s" "distinct (s # xs @ x # ys)" "y \<notin> set (s # xs @ x # ys)"
  defines "a \<equiv> last (s # xs)" and "b \<equiv> hd (ys @ [s])"
  shows "p x = a" "n x = b" "path (n(y := b, a := y)) (p(y := a, b := y)) s (xs @ y # ys) s"
proof -
  have 1: "path n p s xs x" "path n p x ys s" using assms(1) by (simp_all add: path_append)
  show "p x = a" "n x = b" using path_last [OF 1(1)] path_first [OF 1(2)] by (simp_all add: a_def b_def)
  have "a \<in> set (s # xs)" unfolding a_def by (rule last_in_set) simp
  then have a: "a \<notin> set ys" "a \<noteq> y" "a \<noteq> x" using assms(2,3) by auto
  have b: "b \<notin> set xs" "b \<noteq> y" unfolding b_def using assms(2,3) by (cases ys; auto)+
  have e: "path (n(a := y)) (p(y := a)) s xs y" using path_end [OF 1(1), of y] assms(2,3) by (auto simp: a_def)
  have "path (n(y := b, a := y)) (p(y := a, b := y)) s xs y"
    by (rule path_cong [THEN iffD2, OF _ _ e]) (use assms(2,3) a b in auto)
  moreover have "path (n(y := b, a := y)) (p(y := a, b := y)) y ys s"
  proof (cases ys)
    case Nil
    then show ?thesis using a by (simp add: b_def)
  next
    case (Cons z zs)
    then have "path n p z zs s" using 1(2) by simp
    then have "path (n(y := b, a := y)) (p(y := a, b := y)) z zs s"
      by (rule path_cong [THEN iffD2, rotated 2]) (use assms(2,3) a Cons in \<open>auto simp: b_def\<close>)
    then show ?thesis using Cons a by (simp add: b_def)
  qed
  ultimately show "path (n(y := b, a := y)) (p(y := a, b := y)) s (xs @ y # ys) s" by (simp add: path_append)
qed

section \<open>Sizes and tags\<close>

text \<open>Sizes are multiples of 32; the lowest bit of a size field says that the chunk is in use.\<close>

definition tag :: "u64 \<Rightarrow> bool \<Rightarrow> u64" where
  "tag z u = (if u then z OR C_INUSE else z)"

definition sized :: "u64 \<Rightarrow> bool" where
  "sized z \<longleftrightarrow> 32 dvd unat z"

lemma sized_even: "sized z \<Longrightarrow> z AND 1 = 0"
proof -
  assume "sized z"
  then have "even (unat z)" unfolding sized_def by (rule dvd_trans [rotated]) simp
  then have "unat (z mod 2) = 0" by (simp add: unat_mod)
  then show ?thesis by (simp add: and_one_eq unat_eq_0)
qed

lemma even_or: "z AND 1 = 0 \<Longrightarrow> (z OR 1) AND 1 = (1 :: u64)" "z AND 1 = 0 \<Longrightarrow> (z OR 1) AND - 2 = (z :: u64)" "z AND 1 = 0 \<Longrightarrow> z AND - 2 = (z :: u64)"
proof -
  assume z: "z AND 1 = 0"
  have n: "- 2 = NOT (1 :: u64)" by simp
  show "(z OR 1) AND 1 = 1" by (simp add: bit.conj_disj_distrib2)
  have "z = z AND (1 OR NOT 1)" by simp
  also have "\<dots> = z AND NOT 1" unfolding bit.conj_disj_distrib z by simp
  finally show "z AND - 2 = z" unfolding n by simp
  then show "(z OR 1) AND - 2 = z" unfolding n by (simp add: bit.conj_disj_distrib2)
qed

lemma tag_simps [simp]:
  assumes "sized z"
  shows "tag z u AND C_INUSE = of_bool u" "tag z u AND - 2 = z" "tag z u OR C_INUSE = tag z True"
  using even_or [OF sized_even [OF assms]] sized_even [OF assms] by (simp_all add: tag_def C_INUSE_def)

lemma tag_eq: "sized z \<Longrightarrow> sized y \<Longrightarrow> tag z u = tag y v \<longleftrightarrow> z = y \<and> u = v"
proof -
  assume s: "sized z" "sized y"
  have "tag z u = tag y v \<Longrightarrow> z = y \<and> u = v"
    using tag_simps(1,2) [OF s(1), of u] tag_simps(1,2) [OF s(2), of v] by (cases u; cases v) auto
  then show ?thesis by blast
qed

section \<open>Bin numbers\<close>

lemma bin_tab_mono: "i \<le> j \<Longrightarrow> j < 60 \<Longrightarrow> bin_tab ! i \<le> bin_tab ! j"
proof -
  have "sorted bin_tab" "length bin_tab = 60" by (simp_all add: bin_tab_def)
  then show "i \<le> j \<Longrightarrow> j < 60 \<Longrightarrow> bin_tab ! i \<le> bin_tab ! j" by (simp add: sorted_nth_mono)
qed

lemma bin_tab_range: "i < 60 \<Longrightarrow> 32 \<le> bin_tab ! i \<and> bin_tab ! i \<le> 47"
  using bin_tab_mono [of 0 i] bin_tab_mono [of i 59] by (simp add: bin_tab_def)

text \<open>The bin of a size of \<open>x + 1\<close> units of 32 bytes.\<close>

definition unit_bin :: "nat \<Rightarrow> nat" where
  "unit_bin x = (if x \<le> 32 then x else if x < 512 then bin_tab ! (x div 8 - 4)
     else if 7168 < x then 63 else bin_tab ! (x div 128 - 4) + 16)"

lemma unit_bin_range: "unit_bin x < 64"
proof -
  have "x < 512 \<Longrightarrow> x div 8 - 4 < 60" "x \<le> 7168 \<Longrightarrow> x div 128 - 4 < 60" by linarith+
  then have "x < 512 \<Longrightarrow> bin_tab ! (x div 8 - 4) \<le> 47" "x \<le> 7168 \<Longrightarrow> bin_tab ! (x div 128 - 4) \<le> 47"
    using bin_tab_range by blast+
  then show ?thesis by (auto simp: unit_bin_def)
qed

lemma unit_bin_mono: "x \<le> y \<Longrightarrow> unit_bin x \<le> unit_bin y"
proof -
  assume le: "x \<le> y"
  have t8: "a < 512 \<Longrightarrow> a div 8 - 4 < 60" for a :: nat by linarith
  have t128: "a \<le> 7168 \<Longrightarrow> a div 128 - 4 < 60" for a :: nat by linarith
  have m: "x div 8 - 4 \<le> y div 8 - 4" "x div 128 - 4 \<le> y div 128 - 4" using le by (auto intro: diff_le_mono div_le_mono)
  have r8: "a < 512 \<Longrightarrow> 32 \<le> bin_tab ! (a div 8 - 4) \<and> bin_tab ! (a div 8 - 4) \<le> 47" for a using bin_tab_range t8 by blast
  have r128: "a \<le> 7168 \<Longrightarrow> 32 \<le> bin_tab ! (a div 128 - 4) \<and> bin_tab ! (a div 128 - 4) \<le> 47" for a using bin_tab_range t128 by blast
  show ?thesis
    using le bin_tab_mono [OF m(1)] bin_tab_mono [OF m(2)] t8 [of y] t128 [of y] r8 [of x] r8 [of y] r128 [of x] r128 [of y]
    by (auto simp: unit_bin_def)
qed

lemma units: "sized z \<Longrightarrow> z \<noteq> 0 \<Longrightarrow> unat (z div SIZE_ALIGN - 1) = unat z div 32 - 1"
proof -
  assume z: "sized z" "z \<noteq> 0"
  then have "32 \<le> unat z" unfolding sized_def by (intro dvd_imp_le) (auto simp: unat_gt_0)
  moreover have u: "unat (z div SIZE_ALIGN) = unat z div 32" by (simp add: unat_div SIZE_ALIGN_def)
  ultimately have "1 \<le> z div SIZE_ALIGN" by (simp add: word_le_nat_alt)
  then show ?thesis using u by (simp add: unat_sub)
qed

lemma bin_index_units:
  assumes "sized z" "z \<noteq> 0"
  shows "bin_index z = unit_bin (unat z div 32 - 1)"
proof -
  define x where "x = z div SIZE_ALIGN - 1"
  have x: "unat x = unat z div 32 - 1" unfolding x_def using units [OF assms] .
  have "4 \<le> x div 8" if "\<not> x \<le> 32" using that by (simp add: word_le_nat_alt unat_div)
  then have "unat (x div 8 - 4) = unat x div 8 - 4" if "\<not> x \<le> 32" using that by (subst unat_sub) (simp_all add: unat_div)
  moreover have "4 \<le> x div 128" if "\<not> x < 512" using that by (simp add: word_le_nat_alt word_less_nat_alt unat_div)
  then have "unat (x div 128 - 4) = unat x div 128 - 4" if "\<not> x < 512" using that by (subst unat_sub) (simp_all add: unat_div)
  ultimately show ?thesis
    unfolding bin_index_def x_def [symmetric] Let_def unit_bin_def x [symmetric]
    by (auto simp: word_le_nat_alt word_less_nat_alt)
qed

lemma bin_index_range: "sized z \<Longrightarrow> z \<noteq> 0 \<Longrightarrow> bin_index z < 64"
  using bin_index_units unit_bin_range by simp

text \<open>\<open>bin_index_up n\<close> is the least bin all of whose chunks have \<open>n\<close> bytes.\<close>

lemma bin_index_up_units:
  assumes "sized n" "n \<noteq> 0" "n \<le> MMAP_THRESHOLD"
  shows "\<exists>i. bin_index_up n = Some i \<and> i < 64 \<and> (\<forall>z. sized z \<longrightarrow> z \<noteq> 0 \<longrightarrow> i \<le> bin_index z \<longrightarrow> n \<le> z)"
proof -
  define x where "x = n div SIZE_ALIGN - 1"
  have x: "unat x = unat n div 32 - 1" unfolding x_def using units [OF assms(1,2)] .
  have "unat n \<le> 229376" using assms(3) by (simp add: MMAP_THRESHOLD_def SIZE_ALIGN_def word_le_nat_alt)
  then have xb: "unat x < 7168" unfolding x by linarith
  have nx: "unat n div 32 = unat x + 1" "unat n = 32 * (unat x + 1)"
  proof -
    have "32 \<le> unat n" using assms(1,2) unfolding sized_def by (intro dvd_imp_le) (auto simp: unat_gt_0)
    then show "unat n div 32 = unat x + 1" unfolding x by linarith
    then show "unat n = 32 * (unat x + 1)" using assms(1) unfolding sized_def by (metis dvd_mult_div_cancel)
  qed
  have up: "bin_index_up n = Some (if unat x \<le> 32 then unat x else unit_bin (unat x - 1) + 1)"
  proof (cases "x \<le> 32")
    case True
    then show ?thesis by (simp add: bin_index_up_def x_def [symmetric] word_le_nat_alt)
  next
    case False
    then have g: "32 < unat x" by (simp add: word_le_nat_alt)
    have u1: "unat (x - 1) = unat x - 1" using g by (subst unat_sub) (simp_all add: word_le_nat_alt)
    have d8: "unat ((x - 1) div 8 - 4) = (unat x - 1) div 8 - 4"
    proof -
      have "4 \<le> (unat x - 1) div 8" using g by linarith
      then show ?thesis by (subst unat_sub) (simp_all add: word_le_nat_alt unat_div u1)
    qed
    have d128: "unat ((x - 1) div 128 - 4) = (unat x - 1) div 128 - 4" if "512 \<le> unat x - 1"
    proof -
      have "4 \<le> (unat x - 1) div 128" using that by linarith
      then show ?thesis by (subst unat_sub) (simp_all add: word_le_nat_alt unat_div u1)
    qed
    have "(x - 1) div 128 - 4 < 60" if "512 \<le> unat x - 1"
    proof -
      have "(unat x - 1) div 128 - 4 < 60" using xb by linarith
      then show ?thesis using d128 [OF that] by (simp add: word_less_nat_alt)
    qed
    moreover have "unat x - 1 = 32 \<Longrightarrow> bin_tab ! ((unat x - 1) div 8 - 4) = 32" by (simp add: bin_tab_def)
    ultimately show ?thesis using False g xb d8 d128 u1
      unfolding bin_index_up_def x_def [symmetric] Let_def unit_bin_def
      by (auto simp: word_less_nat_alt not_less)
  qed
  have "n \<le> z" if z: "sized z" "z \<noteq> 0" "(if unat x \<le> 32 then unat x else unit_bin (unat x - 1) + 1) \<le> bin_index z" for z
  proof (rule ccontr)
    assume "\<not> n \<le> z"
    then have "unat z < unat n" by (simp add: word_le_nat_alt not_le)
    moreover have zd: "unat z = 32 * (unat z div 32)" "0 < unat z div 32"
      using z(1,2) by (auto simp: sized_def unat_gt_0 dvd_imp_le div_greater_zero_iff)
    ultimately have "32 * (unat z div 32) < 32 * (unat x + 1)" using nx(2) by metis
    then have lt: "unat z div 32 - 1 < unat x" using zd(2) by simp
    show False
    proof (cases "unat x \<le> 32")
      case True
      then show ?thesis using z(3) lt by (simp add: bin_index_units [OF z(1,2)] unit_bin_def)
    next
      case False
      have "unat z div 32 - 1 \<le> unat x - 1" using lt by linarith
      from unit_bin_mono [OF this] show ?thesis using z(3) False by (simp add: bin_index_units [OF z(1,2)])
    qed
  qed
  moreover have "(if unat x \<le> 32 then unat x else unit_bin (unat x - 1) + 1) < 64"
  proof (cases "unat x \<le> 32")
    case False
    have "unit_bin (unat x - 1) \<le> unit_bin 7167" using xb by (intro unit_bin_mono) linarith
    also have "\<dots> = 62" by (simp add: unit_bin_def bin_tab_def)
    finally have "unit_bin (unat x - 1) < 63" by simp
    then show ?thesis using False by simp
  qed simp
  ultimately show ?thesis using up by blast
qed

section \<open>The invariant\<close>

text \<open>
  What the heap means: the blocks with their sizes and whether they are in use, the sentinels at the ends of
  heap segments, the free chunks of every bin in order, and the blocks that are mappings of their own.
\<close>

record ghost =
  blk :: "addr \<Rightarrow> (u64 \<times> bool) option"
  ends :: "addr set"
  lists :: "nat \<Rightarrow> addr list"
  maps :: "addr \<Rightarrow> u64 option"

definition span :: "addr \<Rightarrow> u64 \<Rightarrow> nat set" where
  "span c z = {unat c ..< unat c + unat z}"

definition good :: "addr \<Rightarrow> u64 \<Rightarrow> bool" where
  "good c z \<longleftrightarrow> sized z \<and> z \<noteq> 0 \<and> unat c mod 32 = 16 \<and> unat c + unat z < 2 ^ 64"

definition owners :: "ghost \<Rightarrow> addr set" where
  "owners g = dom (blk g) \<union> ends g \<union> dom (maps g)"

text \<open>The bytes of a block, of the header of a sentinel, of a mapping.\<close>

definition block_bytes :: "ghost \<Rightarrow> addr \<Rightarrow> nat set" where
  "block_bytes g a = (case blk g a of Some (z, u) \<Rightarrow> span a z
     | None \<Rightarrow> if a \<in> ends g then span a 16
         else case maps g a of Some z \<Rightarrow> {unat a - 16 ..< unat a + unat z} | None \<Rightarrow> {})"

definition shape :: "cheap \<Rightarrow> ghost \<Rightarrow> bool" where
  "shape m g \<longleftrightarrow> (\<forall>c z u. blk g c = Some (z, u) \<longrightarrow> good c z \<and> c + z \<in> dom (blk g) \<union> ends g \<and>
     (\<forall>y. unat y \<in> span c z \<and> 32 dvd unat y - unat c \<longrightarrow> y \<in> dom m))"

definition kinds :: "cheap \<Rightarrow> ghost \<Rightarrow> bool" where
  "kinds m g \<longleftrightarrow> ends g \<inter> dom (blk g) = {} \<and> dom (maps g) \<inter> (dom (blk g) \<union> ends g) = {} \<and> ends g \<subseteq> dom m \<and>
     (\<forall>e\<in>ends g. unat e + 16 \<le> 2 ^ 64) \<and>
     (\<forall>c z. maps g c = Some z \<longrightarrow> c \<in> dom m \<and> z \<noteq> 0 \<and> 32 \<le> unat z \<and> z AND 1 = 0 \<and> unat c mod 32 = 16 \<and> unat c + unat z < 2 ^ 64)"

definition apart_blocks :: "nat set \<Rightarrow> ghost \<Rightarrow> bool" where
  "apart_blocks P g \<longleftrightarrow> (\<forall>a\<in>owners g. block_bytes g a \<subseteq> P \<and> (\<forall>b\<in>owners g. a \<noteq> b \<longrightarrow> block_bytes g a \<inter> block_bytes g b = {}))"

definition bins_apart :: "'x menv \<Rightarrow> cheap \<Rightarrow> nat set \<Rightarrow> ghost \<Rightarrow> bool" where
  "bins_apart K m P g \<longleftrightarrow> (\<forall>i<64. BIN_TO_CHUNK K i \<in> dom m \<and> (\<forall>a\<in>owners g. unat (BIN_TO_CHUNK K i) \<notin> block_bytes g a)) \<and>
     (\<forall>c\<in>dom m. unat c \<in> P)"

definition geometry :: "'x menv \<Rightarrow> cheap \<Rightarrow> nat set \<Rightarrow> ghost \<Rightarrow> bool" where
  "geometry K m P g \<longleftrightarrow> shape m g \<and> kinds m g \<and> apart_blocks P g \<and> bins_apart K m P g"

text \<open>The size fields: every chunk carries the size and state of its own and of the chunk below it.\<close>

definition tags :: "cheap \<Rightarrow> ghost \<Rightarrow> bool" where
  "tags m g \<longleftrightarrow> (\<forall>c z u. blk g c = Some (z, u) \<longrightarrow> cz m c = tag z u \<and> pz m (c + z) = tag z u) \<and>
     (\<forall>e\<in>ends g. cz m e = 1) \<and>
     (\<forall>c\<in>dom (blk g) \<union> ends g. pz m c AND 1 = 0 \<longrightarrow> blk g (c - pz m c) = Some (pz m c, False)) \<and>
     (\<forall>c z y v. blk g c = Some (z, False) \<longrightarrow> blk g (c + z) = Some (y, v) \<longrightarrow> v) \<and>
     (\<forall>c z. maps g c = Some z \<longrightarrow> cz m c = z \<and> pz m c = 16)"

definition free_in :: "ghost \<Rightarrow> nat \<Rightarrow> addr set" where
  "free_in g i = {c. \<exists>z. blk g c = Some (z, False) \<and> bin_index z = i}"

text \<open>Bin \<open>i\<close> is a ring of the free chunks of its sizes, or was never used; the bit map has the bins that are not empty.\<close>

definition bins :: "'x menv \<Rightarrow> cheap \<Rightarrow> u64 \<Rightarrow> ghost \<Rightarrow> bool" where
  "bins K m bm g \<longleftrightarrow> (\<forall>i<64.
     (lists g i = [] \<and> nx m (BIN_TO_CHUNK K i) = 0 \<or> path (nx m) (pv m) (BIN_TO_CHUNK K i) (lists g i) (BIN_TO_CHUNK K i)) \<and>
     distinct (lists g i) \<and> set (lists g i) = free_in g i \<and> (bit bm i \<longleftrightarrow> lists g i \<noteq> []))"

lemma bin_inj: "i < 64 \<Longrightarrow> j < 64 \<Longrightarrow> BIN_TO_CHUNK K i = BIN_TO_CHUNK K j \<longleftrightarrow> i = j"
proof -
  assume "i < 64" "j < 64"
  have "unat (of_nat (24 * k) :: addr) = 24 * k" if "k < 64" for k
    using that by (simp add: unat_of_nat take_bit_nat_eq_self del: of_nat_mult)
  then have "(of_nat (24 * i) :: addr) = of_nat (24 * j) \<longleftrightarrow> i = j"
    using \<open>i < 64\<close> \<open>j < 64\<close> by (metis mult_left_cancel zero_neq_numeral)
  then show ?thesis by (simp add: BIN_TO_CHUNK_def)
qed

lemma bin_facts:
  "bin_index z = i \<Longrightarrow> sized z \<Longrightarrow> z \<noteq> 0 \<Longrightarrow> i < 64"
  using bin_index_range by blast

subsection \<open>Geometry\<close>

lemma goodD: "good c z \<Longrightarrow> sized z" "good c z \<Longrightarrow> z \<noteq> 0" "good c z \<Longrightarrow> unat c + unat z < 2 ^ 64" "good c z \<Longrightarrow> unat c mod 32 = 16"
  by (simp_all add: good_def)

lemma unat_plus: "unat c + unat z < 2 ^ 64 \<Longrightarrow> unat (c + z :: u64) = unat c + unat z"
  by (simp add: unat_word_ariths)

lemma good_next: "good c z \<Longrightarrow> unat (c + z) = unat c + unat z"
  using goodD(3) unat_plus by blast

lemma geometry_block:
  assumes "geometry K m P g" "blk g c = Some (z, u)"
  shows "good c z" "c \<in> dom m" "c + z \<in> dom m" "c + z \<in> dom (blk g) \<union> ends g"
proof -
  have s: "\<And>c z u. blk g c = Some (z, u) \<Longrightarrow> good c z \<and> c + z \<in> dom (blk g) \<union> ends g \<and>
     (\<forall>y. unat y \<in> span c z \<and> 32 dvd unat y - unat c \<longrightarrow> y \<in> dom m)"
    using assms(1) unfolding geometry_def shape_def by blast
  have hd: "c \<in> dom m" if "blk g c = Some (z, u)" for c z u
    using s [OF that] goodD(2) [of c z] unat_gt_0 [of z] by (auto simp: span_def)
  show "good c z" "c \<in> dom m" "c + z \<in> dom (blk g) \<union> ends g" using s [OF assms(2)] hd [OF assms(2)] by blast+
  have "ends g \<subseteq> dom m" using assms(1) by (auto simp: geometry_def kinds_def)
  moreover have "c + z \<in> dom m" if "c + z \<in> dom (blk g)" using that hd by auto
  ultimately show "c + z \<in> dom m" using s [OF assms(2)] by blast
qed

lemma geometry_access:
  assumes "geometry K m P g" "blk g c = Some (z, u)" "sized n" "n < z"
  shows "c + n \<in> dom m" "unat (c + n) = unat c + unat n"
proof -
  have g: "good c z" using geometry_block [OF assms(1,2)] by blast
  have n: "unat n < unat z" using assms(4) by (simp add: word_less_nat_alt)
  show u: "unat (c + n) = unat c + unat n" using goodD(3) [OF g] n by (intro unat_plus) simp
  have "unat (c + n) \<in> span c z \<and> 32 dvd unat (c + n) - unat c" using assms(3) n u by (simp add: span_def sized_def)
  then show "c + n \<in> dom m" using assms(1,2) unfolding geometry_def shape_def by blast
qed

lemma owner_byte: "geometry K m P g \<Longrightarrow> a \<in> owners g \<Longrightarrow> unat a \<in> block_bytes g a"
  unfolding geometry_def shape_def kinds_def owners_def block_bytes_def span_def
  by (auto simp: good_def unat_gt_0 split: option.splits)

lemma owner_unique: "geometry K m P g \<Longrightarrow> a \<in> owners g \<Longrightarrow> b \<in> owners g \<Longrightarrow> x \<in> block_bytes g a \<Longrightarrow> x \<in> block_bytes g b \<Longrightarrow> a = b"
  unfolding geometry_def apart_blocks_def by blast

lemma reg_blk: "blk g c = Some (z, u) \<Longrightarrow> block_bytes g c = span c z \<and> c \<in> owners g"
  by (auto simp: block_bytes_def owners_def)

lemma bin_not_owner: "geometry K m P g \<Longrightarrow> i < 64 \<Longrightarrow> BIN_TO_CHUNK K i \<notin> owners g \<and> BIN_TO_CHUNK K i \<in> dom m"
  using owner_byte [of K m P g "BIN_TO_CHUNK K i"] unfolding geometry_def bins_apart_def by blast

lemma next_inj:
  assumes "geometry K m P g" "blk g c = Some (z, u)" "blk g d = Some (y, v)" "c + z = d + y"
  shows "c = d"
proof -
  have g: "good c z" "good d y" using geometry_block assms by blast+
  have "unat c + unat z = unat d + unat y" using good_next [OF g(1)] good_next [OF g(2)] assms(4) by simp
  moreover have "0 < unat z" "0 < unat y" using goodD(2) [OF g(1)] goodD(2) [OF g(2)] by (simp_all add: unat_gt_0)
  ultimately have "unat c + unat z - 1 \<in> span c z" "unat c + unat z - 1 \<in> span d y" by (auto simp: span_def)
  then have "unat c + unat z - 1 \<in> block_bytes g c" "unat c + unat z - 1 \<in> block_bytes g d"
    using reg_blk [OF assms(2)] reg_blk [OF assms(3)] by simp_all
  then show ?thesis using owner_unique [OF assms(1)] reg_blk assms(2,3) by blast
qed

lemma next_neq: "good c z \<Longrightarrow> c + z \<noteq> c"
  by (auto simp: good_def)

lemma geometry_cong:
  assumes "geometry K m P g" "dom m' = dom m" "map_option fst \<circ> blk g' = map_option fst \<circ> blk g" "ends g' = ends g" "maps g' = maps g"
  shows "geometry K m' P g'"
proof -
  have e: "map_option fst (blk g' a) = map_option fst (blk g a)" for a using assms(3) by (metis comp_apply)
  have d: "dom (blk g') = dom (blk g)"
  proof (rule set_eqI)
    show "a \<in> dom (blk g') \<longleftrightarrow> a \<in> dom (blk g)" for a using e [of a] by (auto simp: dom_def map_option_case split: option.splits)
  qed
  have b: "(\<exists>u. blk g' a = Some (z, u)) \<longleftrightarrow> (\<exists>u. blk g a = Some (z, u))" for a z
    using e [of a] by (cases "blk g a"; cases "blk g' a") auto
  have r: "block_bytes g' a = block_bytes g a" for a using e [of a] by (cases "blk g a"; cases "blk g' a") (auto simp: block_bytes_def assms)
  have o: "owners g' = owners g" by (simp add: owners_def d assms)
  have "shape m' g'" using assms(1) b unfolding geometry_def shape_def by (metis assms(2,4) d)
  then show ?thesis using assms unfolding geometry_def kinds_def apart_blocks_def bins_apart_def by (simp add: d r o)
qed

subsection \<open>Tags\<close>

lemma tagsD:
  assumes "tags m g"
  shows "blk g c = Some (z, u) \<Longrightarrow> cz m c = tag z u" "blk g c = Some (z, u) \<Longrightarrow> pz m (c + z) = tag z u"
    "e \<in> ends g \<Longrightarrow> cz m e = 1"
    "c \<in> dom (blk g) \<union> ends g \<Longrightarrow> pz m c AND 1 = 0 \<Longrightarrow> blk g (c - pz m c) = Some (pz m c, False)"
    "blk g c = Some (z, False) \<Longrightarrow> blk g (c + z) = Some (y, v) \<Longrightarrow> v"
    "maps g c = Some z' \<Longrightarrow> cz m c = z'" "maps g c = Some z' \<Longrightarrow> pz m c = 16"
  using assms unfolding tags_def by blast+

text \<open>Changing the state of a chunk. It may become free when its neighbours are in use.\<close>

lemma tags_mark:
  assumes G: "geometry K m P g" and T: "tags m g" and c: "blk g c = Some (z, u)"
    and m: "cz m' = (cz m)(c := tag z v)" "pz m' = (pz m)(c + z := tag z v)"
    and v: "v \<or> pz m c AND 1 \<noteq> 0 \<and> (\<forall>y w. blk g (c + z) = Some (y, w) \<longrightarrow> w)"
    and g': "blk g' = (blk g)(c \<mapsto> (z, v))" "ends g' = ends g" "maps g' = maps g"
  shows "tags m' g'"
proof -
  note D = tagsD [OF T]
  have gc: "good c z" using geometry_block [OF G c] by blast
  have k: "ends g \<inter> dom (blk g) = {}" "dom (maps g) \<inter> (dom (blk g) \<union> ends g) = {}" using G by (simp_all add: geometry_def kinds_def)
  have nz: "c + z \<noteq> c" using next_neq [OF gc] .
  have n: "d + y \<noteq> c + z" if "blk g d = Some (y, w)" "d \<noteq> c" for d y w using next_inj [OF G that(1) c] that(2) by blast
  have 1: "cz m' d = tag y w \<and> pz m' (d + y) = tag y w" if "blk g' d = Some (y, w)" for d y w
    using that D(1,2) n by (cases "d = c") (auto simp: m g')
  have 2: "cz m' e = 1" if "e \<in> ends g'" for e using that D(3) k c by (auto simp: m g')
  have 3: "blk g' (d - pz m' d) = Some (pz m' d, False)" if "d \<in> dom (blk g') \<union> ends g'" "pz m' d AND 1 = 0" for d
  proof (cases "d = c + z")
    case True
    then show ?thesis using that tag_simps(1) [OF goodD(1) [OF gc], of v] by (cases v) (auto simp: m g' tag_def C_INUSE_def)
  next
    case False
    have od: "d \<in> dom (blk g) \<union> ends g" using that(1) c by (auto simp: g' split: if_splits)
    then have o: "blk g (d - pz m d) = Some (pz m d, False)" using that False D(4) [OF od] by (simp add: m)
    have "d - pz m d \<noteq> c" using o c False by auto
    then show ?thesis using o False by (simp add: m g')
  qed
  have 4: "w" if a: "blk g' d = Some (y, False)" "blk g' (d + y) = Some (y', w)" for d y y' w
  proof (cases "d = c")
    case True
    then show ?thesis using a v nz by (auto simp: g')
  next
    case False
    then have o: "blk g d = Some (y, False)" using a by (simp add: g')
    show ?thesis
    proof (cases "d + y = c")
      case True
      have "pz m c = y" using D(2) [OF o] True by (simp add: tag_def)
      moreover have "y AND 1 = 0" using sized_even goodD(1) geometry_block(1) [OF G o] by blast
      ultimately show ?thesis using v a True by (auto simp: g')
    next
      case False
      then show ?thesis using a o D(5) [OF o] by (auto simp: g')
    qed
  qed
  have 5: "cz m' d = y \<and> pz m' d = 16" if "maps g' d = Some y" for d y
  proof -
    have "d \<noteq> c" "d \<noteq> c + z" using that k(2) c geometry_block(4) [OF G c] by (auto simp: g')
    then show ?thesis using that D(6,7) by (simp add: m g')
  qed
  show ?thesis unfolding tags_def using 1 2 3 4 5 by blast
qed

subsection \<open>Bins\<close>

lemma binsD:
  assumes "bins K m bm g" "i < 64"
  shows "lists g i = [] \<and> nx m (BIN_TO_CHUNK K i) = 0 \<or> path (nx m) (pv m) (BIN_TO_CHUNK K i) (lists g i) (BIN_TO_CHUNK K i)"
    "distinct (lists g i)" "set (lists g i) = free_in g i" "bit bm i \<longleftrightarrow> lists g i \<noteq> []"
  using assms unfolding bins_def by blast+

lemma free_in_dom: "free_in g i \<subseteq> dom (blk g)"
  by (auto simp: free_in_def)

text \<open>Bin \<open>i\<close> is changed; the links that change belong to it or to no bin.\<close>

lemma bins_change:
  assumes B: "bins K m bm g" "i < 64"
    and L: "path (nx m') (pv m') (BIN_TO_CHUNK K i) L (BIN_TO_CHUNK K i)" "distinct L" "set L = free_in g' i"
    and same: "\<And>a. a \<notin> X \<Longrightarrow> nx m' a = nx m a \<and> pv m' a = pv m a"
    and X: "\<And>k. k < 64 \<Longrightarrow> k \<noteq> i \<Longrightarrow> BIN_TO_CHUNK K k \<notin> X \<and> free_in g k \<inter> X = {}"
    and other: "\<And>k. k < 64 \<Longrightarrow> k \<noteq> i \<Longrightarrow> free_in g' k = free_in g k"
    and g': "lists g' = (lists g)(i := L)"
    and bm: "\<And>k. k < 64 \<Longrightarrow> bit bm' k \<longleftrightarrow> (if k = i then L \<noteq> [] else bit bm k)"
  shows "bins K m' bm' g'"
  unfolding bins_def
proof (intro allI impI)
  fix k :: nat assume k: "k < 64"
  show "(lists g' k = [] \<and> nx m' (BIN_TO_CHUNK K k) = 0 \<or> path (nx m') (pv m') (BIN_TO_CHUNK K k) (lists g' k) (BIN_TO_CHUNK K k)) \<and>
     distinct (lists g' k) \<and> set (lists g' k) = free_in g' k \<and> (bit bm' k \<longleftrightarrow> lists g' k \<noteq> [])"
  proof (cases "k = i")
    case True
    then show ?thesis using L bm [OF k] by (simp add: g')
  next
    case False
    note O = binsD [OF B(1) k]
    have s: "nx m' c = nx m c \<and> pv m' c = pv m c" if "c \<in> insert (BIN_TO_CHUNK K k) (set (lists g k))" for c
      using that X [OF k False] O(3) by (intro same) auto
    have "path (nx m') (pv m') (BIN_TO_CHUNK K k) (lists g k) (BIN_TO_CHUNK K k) \<longleftrightarrow>
        path (nx m) (pv m) (BIN_TO_CHUNK K k) (lists g k) (BIN_TO_CHUNK K k)"
      using s by (intro path_cong) auto
    moreover have "nx m' (BIN_TO_CHUNK K k) = nx m (BIN_TO_CHUNK K k)" using s by simp
    ultimately show ?thesis using False bm [OF k] O other [OF k False] by (simp add: g')
  qed
qed

lemma bins_cong:
  assumes B: "bins K m bm g" and f: "\<And>k. k < 64 \<Longrightarrow> free_in g' k = free_in g k" and l: "lists g' = lists g"
    and same: "\<And>a. (\<exists>k<64. a = BIN_TO_CHUNK K k \<or> a \<in> free_in g k) \<Longrightarrow> nx m' a = nx m a \<and> pv m' a = pv m a"
  shows "bins K m' bm g'"
  unfolding bins_def
proof (intro allI impI)
  fix k :: nat assume k: "k < 64"
  note O = binsD [OF B k]
  have s: "nx m' c = nx m c \<and> pv m' c = pv m c" if "c \<in> insert (BIN_TO_CHUNK K k) (set (lists g k))" for c
    using that k O(3) by (intro same) auto
  have "path (nx m') (pv m') (BIN_TO_CHUNK K k) (lists g k) (BIN_TO_CHUNK K k) \<longleftrightarrow>
      path (nx m) (pv m) (BIN_TO_CHUNK K k) (lists g k) (BIN_TO_CHUNK K k)"
    using s by (intro path_cong) auto
  moreover have "nx m' (BIN_TO_CHUNK K k) = nx m (BIN_TO_CHUNK K k)" using s by simp
  ultimately show "(lists g' k = [] \<and> nx m' (BIN_TO_CHUNK K k) = 0 \<or> path (nx m') (pv m') (BIN_TO_CHUNK K k) (lists g' k) (BIN_TO_CHUNK K k)) \<and>
     distinct (lists g' k) \<and> set (lists g' k) = free_in g' k \<and> (bit bm k \<longleftrightarrow> lists g' k \<noteq> [])"
    using O f [OF k] by (simp add: l)
qed

section \<open>The state and its users\<close>

text \<open>\<open>mp\<close> gives the bytes that are mapped, \<open>cur\<close> the break, 0 where there is none.\<close>

definition heap :: "'x menv \<Rightarrow> ('x \<Rightarrow> nat set) \<Rightarrow> ('x \<Rightarrow> nat) \<Rightarrow> ghost \<Rightarrow> 'x mstate \<Rightarrow> bool" where
  "heap K mp cur g s \<longleftrightarrow> geometry K (hmem s) (mp (hsys s)) g \<and> tags (hmem s) g \<and> bins K (hmem s) (hbinmap s) g \<and>
     (hend s = 0 \<or> hend s - 16 \<in> ends g) \<and> hstep s \<le> 102 \<and> (hbrk s = 0 \<or> 0 < cur (hsys s) \<and> cur (hsys s) \<le> unat (hbrk s) \<and> 4096 dvd unat (hbrk s))"

text \<open>The blocks the program holds, and what the allocator may not touch of them.\<close>

definition live :: "ghost \<Rightarrow> (addr \<times> u64) set" where
  "live g = {(c, z). blk g c = Some (z, True) \<or> maps g c = Some z}"

definition untouched :: "(addr \<times> u64) set \<Rightarrow> cheap \<Rightarrow> cheap \<Rightarrow> bool" where
  "untouched U m m' \<longleftrightarrow> (\<forall>(c, z)\<in>U. nx m' c = nx m c \<and> pv m' c = pv m c \<and> (\<forall>x. unat x \<in> span c z \<and> x \<noteq> c \<longrightarrow> m' x = m x))"

lemma untouched_refl: "untouched U m m"
  by (simp add: untouched_def)

lemma untouched_trans: "untouched U m m' \<Longrightarrow> untouched U m' m'' \<Longrightarrow> untouched U m m''"
  unfolding untouched_def by fastforce

lemma untouched_mono: "untouched U m m' \<Longrightarrow> V \<subseteq> U \<Longrightarrow> untouched V m m'"
  unfolding untouched_def by blast

lemma live_owner: "(c, z) \<in> live g \<Longrightarrow> c \<in> owners g"
  by (auto simp: live_def owners_def)

lemma live_reg: "geometry K m P g \<Longrightarrow> (c, z) \<in> live g \<Longrightarrow> span c z \<subseteq> block_bytes g c"
proof -
  assume g: "geometry K m P g" and l: "(c, z) \<in> live g"
  have "dom (maps g) \<inter> (dom (blk g) \<union> ends g) = {}" using g by (simp add: geometry_def kinds_def)
  then have "maps g c = Some z \<Longrightarrow> blk g c = None \<and> c \<notin> ends g" by auto
  then show "span c z \<subseteq> block_bytes g c" using l by (auto simp: live_def block_bytes_def span_def split: option.splits)
qed

text \<open>Writes to headers, to bins and inside a block not in \<open>U\<close> leave \<open>U\<close> alone.\<close>

lemma untouched_headers:
  assumes G: "geometry K m P g" and U: "U \<subseteq> live g"
    and w: "\<And>x. x \<notin> W \<Longrightarrow> m' x = m x"
    and W: "\<And>x. x \<in> W \<Longrightarrow> x \<in> owners g \<or> (\<exists>i<64. x = BIN_TO_CHUNK K i) \<or> (\<exists>a\<in>owners g. unat x \<in> block_bytes g a \<and> a \<notin> fst ` U)"
    and l: "\<And>c. c \<in> fst ` U \<Longrightarrow> nx m' c = nx m c \<and> pv m' c = pv m c"
  shows "untouched U m m'"
proof -
  have "m' x = m x" if x: "(c, z) \<in> U" "unat x \<in> span c z" "x \<noteq> c" for c z x
  proof (rule w, rule notI)
    assume "x \<in> W"
    have c: "c \<in> owners g" "unat x \<in> block_bytes g c" using x U live_owner live_reg [OF G] by blast+
    from W [OF \<open>x \<in> W\<close>] show False
    proof (elim disjE)
      assume o: "x \<in> owners g"
      show False using owner_unique [OF G o c(1) owner_byte [OF G o] c(2)] x(3) by simp
    next
      assume "\<exists>i<64. x = BIN_TO_CHUNK K i"
      then show False using G c unfolding geometry_def bins_apart_def by blast
    next
      assume "\<exists>a\<in>owners g. unat x \<in> block_bytes g a \<and> a \<notin> fst ` U"
      then obtain a where "a \<in> owners g" "unat x \<in> block_bytes g a" "a \<notin> fst ` U" by blast
      then show False using owner_unique [OF G _ c(1) _ c(2)] x(1) by force
    qed
  qed
  then show ?thesis using l unfolding untouched_def by force
qed

lemma heapD:
  assumes "heap K mp cur g s"
  shows "geometry K (hmem s) (mp (hsys s)) g" "tags (hmem s) g" "bins K (hmem s) (hbinmap s) g"
  using assms by (simp_all add: heap_def)

lemma free_in_mark:
  "blk g c = Some (z, u) \<Longrightarrow> blk g' = (blk g)(c \<mapsto> (z, v)) \<Longrightarrow>
    free_in g' i = (if v \<or> i \<noteq> bin_index z then free_in g i - {c} else insert c (free_in g i))"
  by (auto simp: free_in_def split: if_splits)

lemma free_in_at: "c \<in> free_in g i \<Longrightarrow> blk g c = Some (z, u) \<Longrightarrow> \<not> u \<and> i = bin_index z"
  by (auto simp: free_in_def)

lemma bin_notin: "geometry K m P g \<Longrightarrow> i < 64 \<Longrightarrow> BIN_TO_CHUNK K i \<notin> free_in g j"
  using bin_not_owner [of K m P g i] free_in_dom [of g j] by (auto simp: owners_def)

lemma lock_bin_ok:
  assumes H: "heap K mp cur g s" and i: "i < 64"
  shows "\<exists>s'. lock_bin K i s = Some s' \<and> heap K mp cur g s' \<and> path (nx (hmem s')) (pv (hmem s')) (BIN_TO_CHUNK K i) (lists g i) (BIN_TO_CHUNK K i) \<and>
    cz (hmem s') = cz (hmem s) \<and> pz (hmem s') = pz (hmem s) \<and> dom (hmem s') = dom (hmem s) \<and>
    hbinmap s' = hbinmap s \<and> hsys s' = hsys s \<and> (\<forall>U\<subseteq>live g. untouched U (hmem s) (hmem s'))"
proof -
  note HD = heapD [OF H]
  define S where "S = BIN_TO_CHUNK K i"
  have S: "S \<in> dom (hmem s)" "S \<notin> owners g" using bin_not_owner [OF HD(1) i] by (simp_all add: S_def)
  note B = binsD [OF HD(3) i, folded S_def]
  show ?thesis
  proof (cases "nx (hmem s) S = 0")
    case False
    then have "lock_bin K i s = Some s" using S by (simp add: lock_bin_def S_def [symmetric] get_eq)
    then show ?thesis using H B False untouched_refl by (auto simp: S_def)
  next
    case True
    have "lists g i = []"
    proof (cases "lists g i")
      case (Cons x xs)
      then have "nx (hmem s) S = x" using B(1) by simp
      moreover have "x \<in> dom (blk g)" using B(3) Cons free_in_dom by fastforce
      then obtain y u where "blk g x = Some (y, u)" by auto
      then have "unat x mod 32 = 16" using geometry_block(1) [OF HD(1)] goodD(4) by blast
      ultimately show ?thesis using True by auto
    qed
    define m' where "m' = set_nx (set_pv (hmem s) S S) S S"
    have l: "lock_bin K i s = Some (s\<lparr>hmem := m'\<rparr>)"
      using S True by (simp add: lock_bin_def S_def [symmetric] field_eqs m'_def)
    have d: "dom m' = dom (hmem s)" using S by (auto simp: m'_def)
    have g: "geometry K m' (mp (hsys s)) g" using geometry_cong [OF HD(1) d] by simp
    have "cz m' = cz (hmem s)" "pz m' = pz (hmem s)" by (simp_all add: m'_def)
    then have t: "tags m' g" using HD(2) unfolding tags_def by (simp only:)
    have p: "path (nx m') (pv m') S (lists g i) S" using \<open>lists g i = []\<close> by (simp add: m'_def)
    have b: "bins K m' (hbinmap s) g"
    proof (rule bins_change [OF HD(3) i p [unfolded S_def] B(2,3)])
      show "a \<notin> {S} \<Longrightarrow> nx m' a = nx (hmem s) a \<and> pv m' a = pv (hmem s) a" for a by (simp add: m'_def)
      show "BIN_TO_CHUNK K k \<notin> {S} \<and> free_in g k \<inter> {S} = {}" if "k < 64" "k \<noteq> i" for k
        using that bin_inj [of i k K] i bin_notin [OF HD(1) i] by (auto simp: S_def)
      show "bit (hbinmap s) k \<longleftrightarrow> (if k = i then lists g i \<noteq> [] else bit (hbinmap s) k)" for k using B(4) by simp
    qed simp_all
    have "untouched U (hmem s) m'" if "U \<subseteq> live g" for U
    proof (rule untouched_headers [OF HD(1) that, of "{S}"])
      show "nx m' c = nx (hmem s) c \<and> pv m' c = pv (hmem s) c" if "c \<in> fst ` U" for c
        using that \<open>U \<subseteq> live g\<close> S live_owner by (force simp: m'_def)
    qed (use i in \<open>auto simp: m'_def S_def\<close>)
    then show ?thesis using l g t b p H d by (auto simp: heap_def S_def m'_def)
  qed
qed

lemma unbin_ok:
  assumes H: "heap K mp cur g s" and c: "blk g c = Some (z, False)" and i: "i = bin_index z"
    and P: "path (nx (hmem s)) (pv (hmem s)) (BIN_TO_CHUNK K i) (lists g i) (BIN_TO_CHUNK K i)"
  defines "g' \<equiv> g\<lparr>blk := (blk g)(c \<mapsto> (z, True)), lists := (lists g)(i := remove1 c (lists g i))\<rparr>"
  shows "\<exists>s'. unbin c i s = Some s' \<and> heap K mp cur g' s' \<and> hsys s' = hsys s \<and>
    (\<forall>U\<subseteq>live g. untouched U (hmem s) (hmem s'))"
proof -
  note HD = heapD [OF H]
  define m where "m = hmem s"
  define S where "S = BIN_TO_CHUNK K i"
  have gc: "good c z" "c \<in> dom m" "c + z \<in> dom m" "c + z \<in> dom (blk g) \<union> ends g" using geometry_block [OF HD(1) c] by (simp_all add: m_def)
  have i64: "i < 64" using bin_facts [OF i [symmetric]] goodD(1,2) [OF gc(1)] by blast
  note B = binsD [OF HD(3) i64, folded S_def m_def]
  have S: "S \<in> dom m" "S \<notin> owners g" using bin_not_owner [OF HD(1) i64] by (simp_all add: S_def m_def)
  have cin: "c \<in> set (lists g i)" using B(3) c i by (auto simp: free_in_def)
  then obtain xs ys where L: "lists g i = xs @ c # ys" "c \<notin> set xs" by (meson split_list_first)
  have dist: "distinct (S # xs @ c # ys)" using B(2,3) L S free_in_dom [of g i] by (auto simp: owners_def)
  define a where "a = last (S # xs)"
  define b where "b = hd (ys @ [S])"
  note R = path_remove [OF P [folded S_def m_def, unfolded L(1)] dist, folded a_def b_def]
  have rem: "remove1 c (lists g i) = xs @ ys" using L by (simp add: remove1_append)
  have aX: "a \<in> insert S (free_in g i)" "b \<in> insert S (free_in g i)" "a \<noteq> c" "b \<noteq> c"
  proof -
    have "a \<in> set (S # xs)" unfolding a_def by (rule last_in_set) simp
    moreover have "b \<in> set (S # ys)" by (cases ys) (auto simp: b_def)
    ultimately show "a \<in> insert S (free_in g i)" "b \<in> insert S (free_in g i)" "a \<noteq> c" "b \<noteq> c" using B(3) L dist by auto
  qed
  have dm: "a \<in> dom m" "b \<in> dom m"
    using aX S geometry_block(2) [OF HD(1)] by (auto simp: free_in_def m_def [symmetric])
  have tg: "cz m c = tag z False" "pz m (c + z) = tag z False" using tagsD(1,2) [OF HD(2) c] by (simp_all add: m_def)
  define m' where "m' = set_pz (set_cz (set_pv (set_nx m a b) b a) c (tag z True)) (c + z) (tag z True)"
  define bm where "bm = (if a = b then hbinmap s AND NOT (push_bit i 1) else hbinmap s)"
  have un: "unbin c i s = Some (s\<lparr>hmem := m', hbinmap := bm\<rparr>)"
    using gc dm R(1,2) aX goodD(1) [OF gc(1)] tg
    by (simp add: unbin_def field_eqs m_def [symmetric] Let_def m'_def bm_def)
  have d: "dom m' = dom m" using gc dm by (auto simp: m'_def)
  have ab: "a = b \<longleftrightarrow> xs @ ys = []"
  proof -
    have "a = b" if "xs @ ys = []" using that by (simp add: a_def b_def)
    moreover have "a \<noteq> b" if "xs @ ys \<noteq> []"
    proof (cases "xs = []")
      case True
      then show ?thesis using that dist by (cases ys) (auto simp: a_def b_def)
    next
      case False
      then have "a \<in> set xs" by (simp add: a_def)
      then show ?thesis using dist by (cases ys) (auto simp: b_def)
    qed
    ultimately show ?thesis by blast
  qed
  have g: "geometry K m' (mp (hsys s)) g'"
    by (rule geometry_cong [OF HD(1) d [unfolded m_def]]) (use c in \<open>auto simp: g'_def fun_eq_iff\<close>)
  have t: "tags m' g'"
    by (rule tags_mark [OF HD(1,2) c, where v = True]) (simp_all add: m'_def g'_def m_def)
  have fi: "free_in g' k = free_in g k - {c}" for k using free_in_mark [OF c, of g' True k] by (simp add: g'_def)
  have bn: "bins K m' bm g'"
  proof (rule bins_change [OF HD(3) i64, where X = "insert S (free_in g i)" and L = "xs @ ys"])
    show "path (nx m') (pv m') (BIN_TO_CHUNK K i) (xs @ ys) (BIN_TO_CHUNK K i)" using R(3) by (simp add: m'_def S_def)
    show "distinct (xs @ ys)" using dist by simp
    show "set (xs @ ys) = free_in g' i" using B(3) L dist by (auto simp: fi)
    show "nx m' e = nx (hmem s) e \<and> pv m' e = pv (hmem s) e" if "e \<notin> insert S (free_in g i)" for e
      using that aX by (auto simp: m'_def m_def)
    show "BIN_TO_CHUNK K k \<notin> insert S (free_in g i) \<and> free_in g k \<inter> insert S (free_in g i) = {}" if "k < 64" "k \<noteq> i" for k
      using that bin_inj [of i k K] i64 bin_notin [OF HD(1)] by (auto simp: S_def free_in_def)
    show "free_in g' k = free_in g k" if "k \<noteq> i" for k
    proof -
      have "c \<notin> free_in g k" using that c i by (auto simp: free_in_def)
      then show ?thesis by (simp add: fi)
    qed
    show "lists g' = (lists g)(i := xs @ ys)" by (simp add: g'_def rem)
    show "bit bm k \<longleftrightarrow> (if k = i then xs @ ys \<noteq> [] else bit (hbinmap s) k)" if "k < 64" for k
    proof (cases "k = i")
      case True
      then show ?thesis using ab B(4) L i64 by (auto simp: bm_def bit_and_iff bit_not_iff bit_push_bit_iff bit_exp_iff)
    next
      case False
      then show ?thesis using that by (auto simp: bm_def bit_and_iff bit_not_iff bit_push_bit_iff bit_1_iff bit_exp_iff)
    qed
  qed
  have "untouched U (hmem s) m'" if U: "U \<subseteq> live g" for U
  proof (rule untouched_headers [OF HD(1) U, of "{a, b, c, c + z}"])
    show "m' x = hmem s x" if "x \<notin> {a, b, c, c + z}" for x using that by (simp add: m'_def m_def)
    show "x \<in> owners g \<or> (\<exists>i<64. x = BIN_TO_CHUNK K i) \<or> (\<exists>a\<in>owners g. unat x \<in> block_bytes g a \<and> a \<notin> fst ` U)" if "x \<in> {a, b, c, c + z}" for x
      using that aX c gc(4) i64 by (auto simp: owners_def free_in_def S_def)
    have "e \<noteq> a \<and> e \<noteq> b" if "(e, y) \<in> live g" for e y
    proof -
      have "e \<in> owners g" using that live_owner by blast
      then have "e \<noteq> S" using S by blast
      moreover have "e \<notin> free_in g i" using that HD(1) by (auto simp: live_def free_in_def geometry_def kinds_def)
      ultimately show ?thesis using aX by auto
    qed
    then show "nx m' e = nx (hmem s) e \<and> pv m' e = pv (hmem s) e" if "e \<in> fst ` U" for e
      using that U by (force simp: m'_def m_def)
  qed
  then show ?thesis using un g t bn H by (auto simp: heap_def g'_def m_def)
qed

definition taken :: "ghost \<Rightarrow> addr \<Rightarrow> u64 \<Rightarrow> ghost" where
  "taken g c z = g\<lparr>blk := (blk g)(c \<mapsto> (z, True)), lists := (lists g)(bin_index z := remove1 c (lists g (bin_index z)))\<rparr>"

lemma taken_simps [simp]: "blk (taken g c z) = (blk g)(c \<mapsto> (z, True))" "ends (taken g c z) = ends g" "maps (taken g c z) = maps g"
  by (simp_all add: taken_def)

lemma live_untouched_eq: "(\<forall>U\<subseteq>live g. untouched U m m') \<longleftrightarrow> untouched (live g) m m'"
  using untouched_mono by blast

text \<open>Taking a free chunk out of its bin.\<close>

lemma take_ok:
  assumes H: "heap K mp cur g s" and c: "blk g c = Some (z, False)"
  shows "\<exists>s1 s2. lock_bin K (bin_index z) s = Some s1 \<and> cz (hmem s1) = cz (hmem s) \<and> pz (hmem s1) = pz (hmem s) \<and>
    dom (hmem s1) = dom (hmem s) \<and> unbin c (bin_index z) s1 = Some s2 \<and> heap K mp cur (taken g c z) s2 \<and> hsys s2 = hsys s \<and>
    untouched (live g) (hmem s) (hmem s2)"
proof -
  have gc: "good c z" using geometry_block(1) [OF heapD(1) [OF H] c] .
  then have i: "bin_index z < 64" using bin_facts [OF refl] goodD(1,2) by blast
  obtain s1 where 1: "lock_bin K (bin_index z) s = Some s1" "heap K mp cur g s1" "cz (hmem s1) = cz (hmem s)"
      "path (nx (hmem s1)) (pv (hmem s1)) (BIN_TO_CHUNK K (bin_index z)) (lists g (bin_index z)) (BIN_TO_CHUNK K (bin_index z))"
      "pz (hmem s1) = pz (hmem s)" "dom (hmem s1) = dom (hmem s)" "hsys s1 = hsys s" "untouched (live g) (hmem s) (hmem s1)"
    using lock_bin_ok [OF H i] by blast
  obtain s2 where "unbin c (bin_index z) s1 = Some s2" "heap K mp cur (taken g c z) s2" "hsys s2 = hsys s1"
      "untouched (live g) (hmem s1) (hmem s2)"
    using unbin_ok [OF 1(2) c refl 1(4)] unfolding taken_def by blast
  with 1 show ?thesis using untouched_trans by metis
qed

lemma alloc_fwd_ok:
  assumes H: "heap K mp cur g s" and c: "c \<in> dom (blk g) \<union> ends g"
  shows "if \<exists>z. blk g c = Some (z, False)
    then \<exists>z s'. blk g c = Some (z, False) \<and> alloc_fwd K c s = Some (True, s') \<and> heap K mp cur (taken g c z) s' \<and> hsys s' = hsys s \<and>
      untouched (live g) (hmem s) (hmem s')
    else alloc_fwd K c s = Some (False, s) \<and> cz (hmem s) c AND 1 \<noteq> 0"
proof (cases "\<exists>z. blk g c = Some (z, False)")
  case True
  then obtain z where z: "blk g c = Some (z, False)" by blast
  note HD = heapD [OF H]
  have dc: "c \<in> dom (hmem s)" and gc: "sized z" using geometry_block [OF HD(1) z] goodD(1) by blast+
  have k: "cz (hmem s) c = z" using tagsD(1) [OF HD(2) z] by (simp add: tag_def)
  obtain s1 s2 where 1: "lock_bin K (bin_index z) s = Some s1" "cz (hmem s1) = cz (hmem s)" "dom (hmem s1) = dom (hmem s)"
      "unbin c (bin_index z) s1 = Some s2" "heap K mp cur (taken g c z) s2" "hsys s2 = hsys s" "untouched (live g) (hmem s) (hmem s2)"
    using take_ok [OF H z] by blast
  have "alloc_fwd K c s = Some (True, s2)"
    using dc k 1(1-4) sized_even [OF gc] by (subst alloc_fwd.simps) (simp add: field_eqs C_INUSE_def)
  then show ?thesis using True z 1(5-7) by auto
next
  case False
  note HD = heapD [OF H]
  have dc: "c \<in> dom (hmem s)" using c geometry_block(2) [OF HD(1)] HD(1) by (auto simp: geometry_def kinds_def)
  have "cz (hmem s) c AND C_INUSE \<noteq> 0"
  proof (cases "c \<in> ends g")
    case True
    then show ?thesis using tagsD(3) [OF HD(2)] by (simp add: C_INUSE_def)
  next
    case F: False
    then obtain z u where z: "blk g c = Some (z, u)" using c by auto
    then have "u" using False by (cases u) auto
    then show ?thesis using tagsD(1) [OF HD(2) z] tag_simps(1) goodD(1) [OF geometry_block(1) [OF HD(1) z]] by simp
  qed
  then have k: "cz (hmem s) c AND 1 \<noteq> 0" by (simp add: C_INUSE_def)
  then have "alloc_fwd K c s = Some (False, s)" using dc by (subst alloc_fwd.simps) (simp add: field_eqs C_INUSE_def)
  with k show ?thesis unfolding if_not_P [OF False] by blast
qed

text \<open>The free chunk below \<open>c\<close>.\<close>

lemma below_free:
  assumes H: "heap K mp cur g s" and c: "c \<in> dom (blk g) \<union> ends g" and k: "pz (hmem s) c AND 1 = 0"
  shows "blk g (c - pz (hmem s) c) = Some (pz (hmem s) c, False)" "pz (hmem s) c AND - 2 = pz (hmem s) c"
  using tagsD(4) [OF heapD(2) [OF H] c k] even_or(3) [OF k] by simp_all

lemma below_used:
  assumes H: "heap K mp cur g s" and k: "pz (hmem s) c AND 1 \<noteq> 0"
  shows "blk g b = Some (y, u) \<Longrightarrow> b + y = c \<Longrightarrow> u"
proof -
  assume b: "blk g b = Some (y, u)" "b + y = c"
  have "pz (hmem s) c = tag y u" using tagsD(2) [OF heapD(2) [OF H] b(1)] b(2) by simp
  moreover have "sized y" using geometry_block(1) [OF heapD(1) [OF H] b(1)] goodD(1) by blast
  ultimately show u using k sized_even by (auto simp: tag_def split: if_splits)
qed

lemma alloc_rev_ok:
  assumes H: "heap K mp cur g s" and c: "c \<in> dom (blk g) \<union> ends g"
  shows "if pz (hmem s) c AND 1 = 0
    then \<exists>b z s'. b + z = c \<and> b = c - (pz (hmem s) c AND - 2) \<and> blk g b = Some (z, False) \<and> alloc_rev K c s = Some (True, s') \<and>
      heap K mp cur (taken g b z) s' \<and> hsys s' = hsys s \<and> untouched (live g) (hmem s) (hmem s')
    else alloc_rev K c s = Some (False, s)"
proof (cases "pz (hmem s) c AND 1 = 0")
  case True
  note HD = heapD [OF H]
  define z where "z = pz (hmem s) c"
  define b where "b = c - z"
  have z: "blk g b = Some (z, False)" "z AND - 2 = z" using below_free [OF H c True] by (simp_all add: b_def z_def)
  have dc: "c \<in> dom (hmem s)" using c geometry_block(2) [OF HD(1)] HD(1) by (auto simp: geometry_def kinds_def)
  obtain s1 s2 where 1: "lock_bin K (bin_index z) s = Some s1" "pz (hmem s1) = pz (hmem s)" "dom (hmem s1) = dom (hmem s)"
      "unbin b (bin_index z) s1 = Some s2" "heap K mp cur (taken g b z) s2" "hsys s2 = hsys s" "untouched (live g) (hmem s) (hmem s2)"
    using take_ok [OF H z(1)] by blast
  have "alloc_rev K c s = Some (True, s2)"
    using dc 1(1-4) True z(2) by (subst alloc_rev.simps) (simp add: field_eqs C_INUSE_def z_def [symmetric] b_def [symmetric])
  moreover have "b + z = c" "b = c - (pz (hmem s) c AND - 2)" using z(2) by (simp_all add: b_def z_def)
  ultimately show ?thesis using True z(1) 1(5-7) by auto
next
  case False
  have "c \<in> dom (hmem s)" using c geometry_block(2) [OF heapD(1) [OF H]] heapD(1) [OF H] by (auto simp: geometry_def kinds_def)
  then have "alloc_rev K c s = Some (False, s)" using False by (subst alloc_rev.simps) (simp add: field_eqs C_INUSE_def)
  then show ?thesis unfolding if_not_P [OF False] .
qed

section \<open>Joining and splitting chunks in use\<close>

lemma span_plus:
  assumes "good c y" "good (c + y) z"
  shows "good c (y + z)" "span c (y + z) = span c y \<union> span (c + y) z" "unat (y + z) = unat y + unat z"
proof -
  have u: "unat (c + y) = unat c + unat y" using good_next [OF assms(1)] .
  then have s: "unat c + unat y + unat z < 2 ^ 64" using goodD(3) [OF assms(2)] by simp
  show z: "unat (y + z) = unat y + unat z" using s by (intro unat_plus) simp
  have "y + z \<noteq> 0" using z goodD(2) [OF assms(1)] by (metis add_is_0 unat_eq_0)
  then show "good c (y + z)" using assms s z by (simp add: good_def sized_def)
  show "span c (y + z) = span c y \<union> span (c + y) z" by (auto simp: span_def z u)
qed

definition joined :: "ghost \<Rightarrow> addr \<Rightarrow> u64 \<Rightarrow> u64 \<Rightarrow> ghost" where
  "joined g c y z = g\<lparr>blk := (blk g)(c + y := None, c \<mapsto> (y + z, True))\<rparr>"

lemma joined_simps [simp]: "ends (joined g c y z) = ends g" "maps (joined g c y z) = maps g" "lists (joined g c y z) = lists g"
  by (simp_all add: joined_def)

lemma geometry_join:
  assumes G: "geometry K m P g" and c: "blk g c = Some (y, u)" and d: "blk g (c + y) = Some (z, v)" and m': "dom m' = dom m"
  shows "geometry K m' P (joined g c y z)"
proof -
  define g' where "g' = joined g c y z"
  have gd: "good c y" "good (c + y) z" using geometry_block(1) [OF G] c d by blast+
  note sp = span_plus [OF gd]
  have u: "unat (c + y) = unat c + unat y" using good_next [OF gd(1)] .
  have nc: "c + y \<noteq> c" using next_neq [OF gd(1)] .
  have b': "blk g' c = Some (y + z, True)" "blk g' (c + y) = None" "\<And>e. e \<noteq> c \<Longrightarrow> e \<noteq> c + y \<Longrightarrow> blk g' e = blk g e"
    using nc by (simp_all add: g'_def joined_def)
  have e': "ends g' = ends g" "maps g' = maps g" by (simp_all add: g'_def)
  have D': "dom (blk g') = dom (blk g) - {c + y}" using b' c by (auto simp: dom_def) (metis option.distinct(1))+
  have kd: "ends g \<inter> dom (blk g) = {}" "dom (maps g) \<inter> (dom (blk g) \<union> ends g) = {}" using G by (simp_all add: geometry_def kinds_def)
  have o': "owners g' = owners g - {c + y}" using kd d by (auto simp: owners_def D' e')
  have r1: "block_bytes g' c = block_bytes g c \<union> block_bytes g (c + y)" using sp(2) reg_blk [OF c] reg_blk [OF d] reg_blk [OF b'(1)] by simp
  have r2: "block_bytes g' e = block_bytes g e" if "e \<noteq> c" "e \<noteq> c + y" for e unfolding block_bytes_def e' b'(3) [OF that] ..
  note r' = r1 r2
  have "shape m' g'"
    unfolding shape_def
  proof (intro allI impI)
    fix e x w assume e: "blk g' e = Some (x, w)"
    have ac: "f \<in> dom m" if "blk g a = Some (i, j)" "unat f \<in> span a i" "32 dvd unat f - unat a" for a i j f
      using G that unfolding geometry_def shape_def by blast
    show "good e x \<and> e + x \<in> dom (blk g') \<union> ends g' \<and> (\<forall>f. unat f \<in> span e x \<and> 32 dvd unat f - unat e \<longrightarrow> f \<in> dom m')"
    proof (cases "e = c")
      case True
      have "f \<in> dom m" if f: "unat f \<in> span c (y + z)" "32 dvd unat f - unat c" for f
      proof (cases "unat f \<in> span c y")
        case False
        then have s: "unat f \<in> span (c + y) z" "unat c + unat y \<le> unat f" using f sp(2) by (auto simp: span_def u)
        have "32 dvd unat y" using goodD(1) [OF gd(1)] by (simp add: sized_def)
        moreover have "unat f - unat (c + y) = unat f - unat c - unat y" by (simp add: u)
        ultimately have "32 dvd unat f - unat (c + y)" using f(2) s(2) by (metis dvd_diff_nat)
        then show ?thesis using ac [OF d s(1)] by blast
      qed (use ac [OF c] f(2) in blast)
      moreover have "c + y + z \<noteq> c + y" using next_neq [OF gd(2)] .
      then have "c + (y + z) \<in> dom (blk g') \<union> ends g'" using geometry_block(4) [OF G d] by (auto simp: D' e' add.assoc)
      ultimately show ?thesis using True e b' sp(1) m' by auto
    next
      case False
      then have o: "blk g e = Some (x, w)" "e \<noteq> c + y" using e b' by (metis option.distinct(1))+
      have "e + x \<noteq> c + y" using next_inj [OF G o(1) c] False by blast
      then show ?thesis using geometry_block [OF G o(1)] ac [OF o(1)] m' by (auto simp: D' e')
    qed
  qed
  moreover have "kinds m' g'" using G unfolding geometry_def kinds_def by (auto simp: D' e' m')
  moreover have "apart_blocks P g'"
    unfolding apart_blocks_def
  proof (intro ballI conjI impI)
    fix a assume a: "a \<in> owners g'"
    have A: "\<And>a. a \<in> owners g \<Longrightarrow> block_bytes g a \<subseteq> P" using G by (simp add: geometry_def apart_blocks_def)
    show "block_bytes g' a \<subseteq> P" using a r' A [of a] A [of c] A [of "c + y"] reg_blk [OF c] reg_blk [OF d] by (cases "a = c") (auto simp: o')
    fix b assume b: "b \<in> owners g'" "a \<noteq> b"
    show "block_bytes g' a \<inter> block_bytes g' b = {}"
    proof (rule ccontr)
      assume "block_bytes g' a \<inter> block_bytes g' b \<noteq> {}"
      then obtain x where x: "x \<in> block_bytes g' a" "x \<in> block_bytes g' b" by blast
      have f: "\<exists>f. f \<in> owners g \<and> x \<in> block_bytes g f \<and> (if f = c + y then e = c else f = e)" if "e \<in> owners g'" "x \<in> block_bytes g' e" for e
      proof (cases "x \<in> block_bytes g (c + y) \<and> e = c")
        case True
        then show ?thesis using reg_blk [OF d] by (intro exI [of _ "c + y"]) simp
      next
        case False
        then show ?thesis using that r' reg_blk [OF c] nc by (intro exI [of _ e]) (cases "e = c"; auto simp: o')
      qed
      show False using f [OF a x(1)] f [OF b(1) x(2)] owner_unique [OF G] b(2) by (metis (full_types))
    qed
  qed
  moreover have "bins_apart K m' P g'"
  proof -
    have "unat (BIN_TO_CHUNK K i) \<notin> block_bytes g' a" if "i < 64" "a \<in> owners g'" for i a
    proof -
      have "unat (BIN_TO_CHUNK K i) \<notin> block_bytes g e" if "e \<in> owners g" for e
        using G that \<open>i < 64\<close> unfolding geometry_def bins_apart_def by blast
      from this [of c] this [of "c + y"] this [of a] that show ?thesis
        using r' reg_blk [OF c] reg_blk [OF d] by (cases "a = c") (auto simp: o')
    qed
    then show ?thesis using G m' unfolding geometry_def bins_apart_def by auto
  qed
  ultimately show ?thesis unfolding g'_def [symmetric] geometry_def by blast
qed

lemma free_in_join:
  "blk g c = Some (y, True) \<Longrightarrow> blk g (c + y) = Some (z, True) \<Longrightarrow> free_in (joined g c y z) i = free_in g i"
  by (auto simp: free_in_def joined_def)

lemma tags_join:
  assumes G: "geometry K m P g" and T: "tags m g" and c: "blk g c = Some (y, True)" and d: "blk g (c + y) = Some (z, True)"
    and m': "cz m' = (cz m)(c := tag (y + z) True)" "pz m' = (pz m)(c + (y + z) := tag (y + z) True)"
  shows "tags m' (joined g c y z)"
proof -
  note D = tagsD [OF T]
  have gd: "good c y" "good (c + y) z" using geometry_block(1) [OF G] c d by blast+
  note sp = span_plus [OF gd]
  have nc: "c + y \<noteq> c" "c + y + z \<noteq> c + y" using next_neq gd by blast+
  have kd: "ends g \<inter> dom (blk g) = {}" "dom (maps g) \<inter> (dom (blk g) \<union> ends g) = {}" using G by (simp_all add: geometry_def kinds_def)
  define g' where "g' = joined g c y z"
  have b': "blk g' c = Some (y + z, True)" "blk g' (c + y) = None" "\<And>e. e \<noteq> c \<Longrightarrow> e \<noteq> c + y \<Longrightarrow> blk g' e = blk g e"
    using nc by (simp_all add: g'_def joined_def)
  have e': "ends g' = ends g" "maps g' = maps g" by (simp_all add: g'_def)
  have old: "blk g e = Some (x, w)" "e \<noteq> c + y" if "blk g' e = Some (x, w)" "e \<noteq> c" for e x w
    using that b' by (metis option.distinct(1))+
  have 1: "cz m' e = tag x w \<and> pz m' (e + x) = tag x w" if e: "blk g' e = Some (x, w)" for e x w
  proof (cases "e = c")
    case True
    then show ?thesis using e b' by (simp add: m')
  next
    case False
    note o = old [OF e False]
    have "e + x \<noteq> c + (y + z)" using next_inj [OF G o(1) d] o(2) by (auto simp: add.assoc)
    then show ?thesis using D(1,2) [OF o(1)] False by (simp add: m')
  qed
  have 2: "cz m' e = 1" if "e \<in> ends g'" for e using that D(3) kd c by (auto simp: m' e')
  have 3: "blk g' (e - pz m' e) = Some (pz m' e, False)" if e: "e \<in> dom (blk g') \<union> ends g'" "pz m' e AND 1 = 0" for e
  proof (cases "e = c + (y + z)")
    case True
    then show ?thesis using e(2) tag_simps(1) [OF goodD(1) [OF sp(1)], of True] by (simp add: m' C_INUSE_def)
  next
    case False
    have "e \<in> dom (blk g) \<union> ends g" using e(1) b' c by (cases "e = c") (auto simp: e' dest: old)
    then have o: "blk g (e - pz m e) = Some (pz m e, False)" using e(2) False D(4) by (simp add: m')
    then have "e - pz m e \<noteq> c" "e - pz m e \<noteq> c + y" using c d by auto
    then show ?thesis using o False b'(3) by (simp add: m')
  qed
  have 4: "w" if a: "blk g' e = Some (x, False)" "blk g' (e + x) = Some (x', w)" for e x x' w
  proof -
    have "e \<noteq> c" using a(1) b'(1) by auto
    then have o: "blk g e = Some (x, False)" using old a(1) by blast
    show ?thesis
    proof (cases "e + x = c")
      case True
      then show ?thesis using a(2) b'(1) by simp
    next
      case False
      then show ?thesis using D(5) [OF o] old [OF a(2) False] by blast
    qed
  qed
  have 5: "cz m' e = x \<and> pz m' e = 16" if "maps g' e = Some x" for e x
  proof -
    have "e \<noteq> c" "e \<noteq> c + (y + z)" using that kd(2) c geometry_block(4) [OF G d] by (auto simp: e' add.assoc)
    then show ?thesis using that D(6,7) by (simp add: m' e')
  qed
  show ?thesis unfolding tags_def g'_def [symmetric] using 1 2 3 4 5 by blast
qed

text \<open>Two neighbours in use become one.\<close>

lemma heap_join:
  assumes H: "heap K mp cur g s" and c: "blk g c = Some (y, True)" and d: "blk g (c + y) = Some (z, True)"
  shows "heap K mp cur (joined g c y z)
    (s\<lparr>hmem := set_pz (set_cz (hmem s) c (tag (y + z) True)) (c + (y + z)) (tag (y + z) True)\<rparr>)"
proof -
  note HD = heapD [OF H]
  define m' where "m' = set_pz (set_cz (hmem s) c (tag (y + z) True)) (c + (y + z)) (tag (y + z) True)"
  have "c + (y + z) \<in> dom (hmem s)" using geometry_block(3) [OF HD(1) d] by (simp add: add.assoc)
  then have dm: "dom m' = dom (hmem s)" using geometry_block(2) [OF HD(1) c] by (auto simp: m'_def)
  have "geometry K m' (mp (hsys s)) (joined g c y z)" using geometry_join [OF HD(1) c d dm] .
  moreover have "tags m' (joined g c y z)" using tags_join [OF HD(1,2) c d] by (simp add: m'_def)
  moreover have "bins K m' (hbinmap s) (joined g c y z)"
    by (rule bins_cong [OF HD(3)]) (simp_all add: free_in_join [OF c d] m'_def)
  ultimately show ?thesis using H by (simp add: heap_def m'_def)
qed

lemma live_join:
  assumes "geometry K m P g" "blk g c = Some (y, True)" "blk g (c + y) = Some (z, True)"
  shows "live (joined g c y z) = insert (c, y + z) (live g - {(c, y), (c + y, z)})"
proof -
  have "c + y \<noteq> c" using next_neq geometry_block(1) [OF assms(1,2)] by blast
  moreover have "maps g c = None" "maps g (c + y) = None" using assms by (auto simp: geometry_def kinds_def)
  ultimately show ?thesis using assms(2,3) by (auto simp: live_def joined_def split: if_splits)
qed

lemma cut_sizes:
  assumes "good c z" "sized n" "n \<noteq> 0" "n < z"
  shows "good c n" "good (c + n) (z - n)" "unat (z - n) = unat z - unat n" "unat (c + n) = unat c + unat n" "unat n < unat z"
    "c + n + (z - n) = c + z" "n + (z - n) = z"
proof -
  show n: "unat n < unat z" using assms(4) by (simp add: word_less_nat_alt)
  show d: "unat (z - n) = unat z - unat n" using assms(4) by (simp add: unat_sub order_less_imp_le)
  have b: "unat c + unat z < 2 ^ 64" using goodD(3) [OF assms(1)] .
  then show u: "unat (c + n) = unat c + unat n" using n by (intro unat_plus) simp
  show "good c n" using assms n b by (simp add: good_def)
  have "unat (z - n) \<noteq> 0" using d n by simp
  then have "z - n \<noteq> 0" by auto
  moreover have "sized (z - n)" using assms(1,2) d by (simp add: sized_def good_def dvd_diff_nat)
  moreover have "unat (c + n) mod 32 = 16" using assms(1,2) u by (auto simp: good_def sized_def)
  ultimately show "good (c + n) (z - n)" using b n d u by (simp add: good_def)
  show "c + n + (z - n) = c + z" "n + (z - n) = z" by simp_all
qed

lemma inside_not_owner:
  assumes "geometry K m P g" "blk g c = Some (z, u)" "sized n" "n \<noteq> 0" "n < z"
  shows "c + n \<notin> owners g" "c + n \<in> dom m"
proof -
  have gc: "good c z" using geometry_block(1) [OF assms(1,2)] .
  note cs = cut_sizes [OF gc assms(3-5)]
  have "unat (c + n) \<in> block_bytes g c" using reg_blk [OF assms(2)] cs(4,5) by (simp add: span_def)
  moreover have "c + n \<noteq> c" using next_neq [OF cs(1)] .
  ultimately show "c + n \<notin> owners g" using owner_unique [OF assms(1)] owner_byte [OF assms(1)] reg_blk [OF assms(2)] by metis
  show "c + n \<in> dom m" using geometry_access(1) [OF assms(1,2,3,5)] .
qed

lemma geometry_cut:
  assumes G: "geometry K m P g" and c: "blk g c = Some (z, u)" and n: "sized n" "n \<noteq> 0" "n < z" and m': "dom m' = dom m"
    and g': "blk g' = (blk g)(c \<mapsto> (n, a), c + n \<mapsto> (z - n, b))" "ends g' = ends g" "maps g' = maps g"
  shows "geometry K m' P g'"
proof -
  define d where "d = c + n"
  have gc: "good c z" using geometry_block(1) [OF G c] .
  note cs = cut_sizes [OF gc n, folded d_def]
  have dn: "d \<notin> owners g" using inside_not_owner [OF G c n] by (simp add: d_def)
  have nc: "d \<noteq> c" using next_neq [OF cs(1)] by (simp add: d_def)
  have b': "blk g' c = Some (n, a)" "blk g' d = Some (z - n, b)" "\<And>e. e \<noteq> c \<Longrightarrow> e \<noteq> d \<Longrightarrow> blk g' e = blk g e"
    using nc by (simp_all add: g' d_def)
  have D': "dom (blk g') = insert d (dom (blk g))" using c by (auto simp: g' d_def)
  have o': "owners g' = insert d (owners g)" unfolding owners_def D' g'(2,3) by simp
  have sp: "span c z = span c n \<union> span d (z - n)" "span c n \<inter> span d (z - n) = {}" using cs(3-5) by (auto simp: span_def)
  have r2: "block_bytes g' e = block_bytes g e" if "e \<noteq> c" "e \<noteq> d" for e unfolding block_bytes_def g'(2,3) b'(3) [OF that] ..
  note r' = reg_blk [OF b'(1), THEN conjunct1] reg_blk [OF b'(2), THEN conjunct1] r2
  note rc = reg_blk [OF c]
  have sub: "block_bytes g' e \<subseteq> (if e = d then block_bytes g c else block_bytes g e)" for e
    using r' rc sp(1) by (cases "e = c"; cases "e = d") auto
  have "shape m' g'"
    unfolding shape_def
  proof (intro allI impI)
    fix e x w assume e: "blk g' e = Some (x, w)"
    have ac: "f \<in> dom m" if "blk g a = Some (i, j)" "unat f \<in> span a i" "32 dvd unat f - unat a" for a i j f
      using G that unfolding geometry_def shape_def by blast
    consider "e = c" | "e = d" | "e \<noteq> c" "e \<noteq> d" by blast
    then show "good e x \<and> e + x \<in> dom (blk g') \<union> ends g' \<and> (\<forall>f. unat f \<in> span e x \<and> 32 dvd unat f - unat e \<longrightarrow> f \<in> dom m')"
    proof cases
      case 1
      have "f \<in> dom m" if "unat f \<in> span c n" "32 dvd unat f - unat c" for f
        using ac [OF c _ that(2)] that(1) sp(1) by blast
      then show ?thesis using 1 e b'(1) cs(1) m' by (auto simp: D' d_def)
    next
      case 2
      have "f \<in> dom m" if f: "unat f \<in> span d (z - n)" "32 dvd unat f - unat d" for f
      proof -
        have "unat f - unat c = (unat f - unat d) + unat n" using f(1) cs(4) by (simp add: span_def)
        moreover have "32 dvd unat n" using n(1) by (simp add: sized_def)
        ultimately have "32 dvd unat f - unat c" using f(2) by simp
        then show ?thesis using ac [OF c] f(1) sp(1) by blast
      qed
      moreover have "d + (z - n) \<in> dom (blk g') \<union> ends g'" using geometry_block(4) [OF G c] cs(6) by (auto simp: D' g' d_def)
      ultimately show ?thesis using 2 e b'(2) cs(2) m' by auto
    next
      case 3
      then have o: "blk g e = Some (x, w)" using e b'(3) by simp
      then show ?thesis using geometry_block [OF G o] ac [OF o] m' by (auto simp: D' g')
    qed
  qed
  moreover have "kinds m g" using G by (simp add: geometry_def)
  then have "kinds m' g'" unfolding kinds_def g'(2,3) D' m' using dn unfolding owners_def by blast
  moreover have "apart_blocks P g'"
    unfolding apart_blocks_def
  proof (intro ballI conjI impI)
    fix a assume a: "a \<in> owners g'"
    have A: "\<And>a. a \<in> owners g \<Longrightarrow> block_bytes g a \<subseteq> P" using G by (simp add: geometry_def apart_blocks_def)
    show "block_bytes g' a \<subseteq> P" using sub [of a] A [of a] A [of c] rc a by (auto simp: o' split: if_splits)
    fix b assume b: "b \<in> owners g'" "a \<noteq> b"
    show "block_bytes g' a \<inter> block_bytes g' b = {}"
    proof (rule ccontr)
      assume "block_bytes g' a \<inter> block_bytes g' b \<noteq> {}"
      then obtain x where x: "x \<in> block_bytes g' a" "x \<in> block_bytes g' b" by blast
      then have "x \<in> block_bytes g (if a = d then c else a)" "x \<in> block_bytes g (if b = d then c else b)"
        using sub [of a] sub [of b] by (auto split: if_splits)
      moreover have "(if a = d then c else a) \<in> owners g" "(if b = d then c else b) \<in> owners g" using a b rc by (auto simp: o')
      ultimately have "(if a = d then c else a) = (if b = d then c else b)" using owner_unique [OF G] by blast
      then have "a = d \<and> b = c \<or> a = c \<and> b = d" using b(2) by (auto split: if_splits)
      then show False using x sp(2) r' by auto
    qed
  qed
  moreover have "bins_apart K m' P g'"
  proof -
    have "unat (BIN_TO_CHUNK K i) \<notin> block_bytes g' a" if "i < 64" "a \<in> owners g'" for i a
    proof -
      have "unat (BIN_TO_CHUNK K i) \<notin> block_bytes g e" if "e \<in> owners g" for e
        using G that \<open>i < 64\<close> unfolding geometry_def bins_apart_def by blast
      from this [of c] this [of a] that sub [of a] rc show ?thesis by (auto simp: o' split: if_splits)
    qed
    then show ?thesis using G m' unfolding geometry_def bins_apart_def by auto
  qed
  ultimately show ?thesis unfolding geometry_def by blast
qed

lemma tags_cut:
  assumes G: "geometry K m P g" and T: "tags m g" and c: "blk g c = Some (z, u)" and n: "sized n" "n \<noteq> 0" "n < z" and b: "u \<Longrightarrow> b"
    and g': "blk g' = (blk g)(c \<mapsto> (n, True), c + n \<mapsto> (z - n, b))" "ends g' = ends g" "maps g' = maps g"
    and m': "cz m' = (cz m)(c + n := tag (z - n) b, c := tag n True)" "pz m' = (pz m)(c + n := tag n True, c + z := tag (z - n) b)"
  shows "tags m' g'"
proof -
  note D = tagsD [OF T]
  define d where "d = c + n"
  have gc: "good c z" using geometry_block(1) [OF G c] .
  note cs = cut_sizes [OF gc n, folded d_def]
  have dn: "d \<notin> owners g" using inside_not_owner [OF G c n] by (simp add: d_def)
  have nc: "d \<noteq> c" "c + z \<noteq> d" using next_neq [OF cs(1)] next_neq [OF cs(2)] cs(6) by (simp_all add: d_def)
  have kd: "ends g \<inter> dom (blk g) = {}" "dom (maps g) \<inter> (dom (blk g) \<union> ends g) = {}" using G by (simp_all add: geometry_def kinds_def)
  have b': "blk g' c = Some (n, True)" "blk g' d = Some (z - n, b)" "\<And>e. e \<noteq> c \<Longrightarrow> e \<noteq> d \<Longrightarrow> blk g' e = blk g e"
    using nc by (simp_all add: g' d_def)
  have old: "blk g e = Some (x, w)" if "blk g' e = Some (x, w)" "e \<noteq> c" "e \<noteq> d" for e x w using that b'(3) by simp
  note m'' = m' [folded d_def]
  have nd: "e + x \<noteq> d" if "blk g e = Some (x, w)" for e x w
    using geometry_block(4) [OF G that] dn by (auto simp: owners_def)
  have 1: "cz m' e = tag x w \<and> pz m' (e + x) = tag x w" if e: "blk g' e = Some (x, w)" for e x w
  proof -
    consider "e = c" | "e = d" | "e \<noteq> c" "e \<noteq> d" by blast
    then show ?thesis
    proof cases
      case 1
      then show ?thesis using e b'(1) nc by (auto simp: m'' d_def)
    next
      case 2
      then show ?thesis using e b'(2) nc cs(6) by (simp add: m'' d_def)
    next
      case 3
      note o = old [OF e 3]
      have "e + x \<noteq> c + z" using next_inj [OF G o c] 3 by blast
      then show ?thesis using D(1,2) [OF o] 3 nd [OF o] by (simp add: m'')
    qed
  qed
  have 2: "cz m' e = 1" if "e \<in> ends g'" for e using that D(3) kd c dn by (auto simp: m'' g' owners_def)
  have 3: "blk g' (e - pz m' e) = Some (pz m' e, False)" if e: "e \<in> dom (blk g') \<union> ends g'" "pz m' e AND 1 = 0" for e
  proof -
    consider "e = d" | "e = c + z" | "e \<noteq> d" "e \<noteq> c + z" by blast
    then show ?thesis
    proof cases
      case 1
      then show ?thesis using e(2) nc tag_simps(1) [OF n(1), of True] by (simp add: m'' C_INUSE_def)
    next
      case 2
      have "\<not> b" using e(2) 2 tag_simps(1) [OF goodD(1) [OF cs(2)], of b] by (cases b) (simp_all add: m'' C_INUSE_def)
      moreover have "c + z - (z - n) = d" by (simp add: d_def)
      ultimately show ?thesis using 2 b'(2) by (simp add: m'' tag_def)
    next
      case 3
      have "e \<in> dom (blk g) \<union> ends g" using e(1) 3(1) c by (auto simp: g' d_def split: if_splits)
      then have o: "blk g (e - pz m e) = Some (pz m e, False)" using e(2) 3 D(4) by (simp add: m'')
      have "e - pz m e \<noteq> c" using o c 3(2) by auto
      moreover have "e - pz m e \<noteq> d" using o dn by (auto simp: owners_def)
      ultimately show ?thesis using o 3 b'(3) by (simp add: m'')
    qed
  qed
  have 4: "w" if a: "blk g' e = Some (x, False)" "blk g' (e + x) = Some (x', w)" for e x x' w
  proof (cases "e = d")
    case True
    then have x: "x = z - n" "\<not> b" using a(1) b'(2) by auto
    have "\<not> u" using x(2) b by blast
    moreover have "d + x = c + z" "c + z \<noteq> c" using cs(6) next_neq [OF gc] by (simp_all add: x d_def)
    then have "blk g (c + z) = Some (x', w)" using a(2) True old nc by auto
    ultimately show ?thesis using D(5) c by simp
  next
    case False
    have "e \<noteq> c" using a(1) b'(1) by auto
    then have o: "blk g e = Some (x, False)" using old a(1) False by blast
    show ?thesis
    proof (cases "e + x = c")
      case True
      then show ?thesis using a(2) b'(1) by simp
    next
      case False
      then show ?thesis using D(5) [OF o] old [OF a(2) False nd [OF o]] by blast
    qed
  qed
  have 5: "cz m' e = x \<and> pz m' e = 16" if "maps g' e = Some x" for e x
  proof -
    have "e \<noteq> c" "e \<noteq> c + z" "e \<noteq> d" using that kd(2) c geometry_block(4) [OF G c] dn by (auto simp: g' owners_def)
    then show ?thesis using that D(6,7) by (simp add: m'' g')
  qed
  show ?thesis unfolding tags_def using 1 2 3 4 5 by blast
qed

end
