(* ===== verification/MallocFree.thy ===== *)
theory MallocFree
  imports MallocHeap
begin

text \<open>
  \<open>free\<close> keeps the heap well-formed and gives up exactly the block it is called with. Its loop ends after at most one
  round of merges (\<open>free_loop_ok\<close>): the chunk with its free neighbours is one chunk in use whose neighbours are in
  use. It goes to the end of its bin (\<open>release_ok\<close>), and the pages given back lie inside it (\<open>give_back_ok\<close>); a block
  with a mapping of its own is unmapped (\<open>unmap_ok\<close>). \<open>trim\<close> cuts a chunk in use and frees the rest. The laws of
  \<open>madvise\<close> and \<open>munmap\<close> are hypotheses about the bytes that are mapped (\<open>mp\<close>).
\<close>

lemma tags_cong:
  assumes T: "tags m g" and G: "geometry K m P g" and e: "\<And>a. a \<in> owners g \<Longrightarrow> cz m' a = cz m a \<and> pz m' a = pz m a"
  shows "tags m' g"
proof -
  have o: "c \<in> owners g \<and> c + z \<in> owners g" if "blk g c = Some (z, u)" for c z u
    using geometry_block(4) [OF G that] that by (auto simp: owners_def)
  have o2: "c \<in> owners g" if "c \<in> dom (blk g) \<union> ends g" for c using that by (auto simp: owners_def)
  have o3: "c \<in> owners g" if "maps g c = Some z" for c z using that by (auto simp: owners_def)
  note D = tagsD [OF T]
  have 1: "cz m' c = tag z u \<and> pz m' (c + z) = tag z u" if "blk g c = Some (z, u)" for c z u
    using D(1,2) [OF that] o [OF that] e by simp
  have 2: "cz m' c = 1" if "c \<in> ends g" for c using D(3) [OF that] o2 [of c] that e by simp
  have 3: "blk g (c - pz m' c) = Some (pz m' c, False)" if "c \<in> dom (blk g) \<union> ends g" "pz m' c AND 1 = 0" for c
    using D(4) [OF that(1)] that(2) e [OF o2 [OF that(1)]] by simp
  have 5: "cz m' c = z \<and> pz m' c = 16" if "maps g c = Some z" for c z using D(6,7) [OF that] e [OF o3 [OF that]] by simp
  show ?thesis unfolding tags_def using 1 2 3 D(5) 5 by blast
qed

lemma heap_cong:
  assumes H: "heap K mp cur g s" and d: "dom m' = dom (hmem s)"
    and t: "\<And>a. a \<in> owners g \<Longrightarrow> cz m' a = cz (hmem s) a \<and> pz m' a = pz (hmem s) a"
    and l: "\<And>a. (\<exists>k<64. a = BIN_TO_CHUNK K k \<or> a \<in> free_in g k) \<Longrightarrow> nx m' a = nx (hmem s) a \<and> pv m' a = pv (hmem s) a"
  shows "heap K mp cur g (s\<lparr>hmem := m'\<rparr>)"
proof -
  note HD = heapD [OF H]
  have "geometry K m' (mp (hsys s)) g" using geometry_cong [OF HD(1) d] by simp
  moreover have "tags m' g" using tags_cong [OF HD(2,1) t] .
  moreover have "bins K m' (hbinmap s) g" by (rule bins_cong [OF HD(3)]) (use l in auto)
  ultimately show ?thesis using H by (simp add: heap_def)
qed

text \<open>The tags of a chunk whose neighbour below, or which itself, is not free.\<close>

lemma below_odd:
  assumes H: "heap K mp cur g s" and c: "c \<in> dom (blk g) \<union> ends g" and n: "\<And>b y. blk g b = Some (y, False) \<Longrightarrow> b + y \<noteq> c"
  shows "pz (hmem s) c AND 1 \<noteq> 0"
  using below_free(1) [OF H c] n by fastforce

lemma above_odd:
  assumes H: "heap K mp cur g s" and c: "c \<in> dom (blk g) \<union> ends g" and n: "\<And>z. blk g c \<noteq> Some (z, False)"
  shows "cz (hmem s) c AND 1 \<noteq> 0"
  using alloc_fwd_ok [OF H c] n by auto

text \<open>Cutting a chunk in use in two.\<close>

definition cut :: "ghost \<Rightarrow> addr \<Rightarrow> u64 \<Rightarrow> u64 \<Rightarrow> ghost" where
  "cut g c n z = g\<lparr>blk := (blk g)(c \<mapsto> (n, True), c + n \<mapsto> (z - n, True))\<rparr>"

lemma cut_simps [simp]: "ends (cut g c n z) = ends g" "maps (cut g c n z) = maps g" "lists (cut g c n z) = lists g"
  "blk (cut g c n z) = (blk g)(c \<mapsto> (n, True), c + n \<mapsto> (z - n, True))"
  by (simp_all add: cut_def)

definition cut_mem :: "cheap \<Rightarrow> addr \<Rightarrow> u64 \<Rightarrow> u64 \<Rightarrow> cheap" where
  "cut_mem m c n z = set_cz (set_pz (set_cz (set_pz m (c + n) (tag n True)) (c + n) (tag (z - n) True)) (c + z) (tag (z - n) True)) c (tag n True)"

lemma heap_cut:
  assumes H: "heap K mp cur g s" and c: "blk g c = Some (z, True)" and n: "sized n" "n \<noteq> 0" "n < z"
  shows "heap K mp cur (cut g c n z) (s\<lparr>hmem := cut_mem (hmem s) c n z\<rparr>)"
proof -
  note HD = heapD [OF H]
  define m' where "m' = cut_mem (hmem s) c n z"
  have gc: "good c z" using geometry_block(1) [OF HD(1) c] .
  note cs = cut_sizes [OF gc n]
  have dn: "c + n \<notin> owners g" "c + n \<in> dom (hmem s)" using inside_not_owner [OF HD(1) c n] by simp_all
  have d: "dom m' = dom (hmem s)" using geometry_block(2,3) [OF HD(1) c] dn(2) by (auto simp: m'_def cut_mem_def)
  have "geometry K m' (mp (hsys s)) (cut g c n z)" by (rule geometry_cut [OF HD(1) c n d]) simp_all
  moreover have "tags m' (cut g c n z)" by (rule tags_cut [OF HD(1,2) c n, where b = True]) (simp_all add: m'_def cut_mem_def)
  moreover have "blk g (c + n) = None" using dn(1) by (auto simp: owners_def)
  then have "free_in (cut g c n z) k = free_in g k" for k using c by (auto simp: free_in_def)
  then have "bins K m' (hbinmap s) (cut g c n z)" by (intro bins_cong [OF HD(3)]) (simp_all add: m'_def cut_mem_def)
  ultimately show ?thesis using H by (simp add: heap_def m'_def)
qed

lemma live_cut:
  assumes "geometry K m P g" "blk g c = Some (z, True)" "sized n" "n \<noteq> 0" "n < z"
  shows "live (cut g c n z) = live g - {(c, z)} \<union> {(c, n), (c + n, z - n)}"
proof -
  have "c + n \<notin> owners g" using inside_not_owner [OF assms] by simp
  then have "maps g (c + n) = None" "blk g (c + n) = None" by (auto simp: owners_def)
  moreover have "maps g c = None" using assms by (auto simp: geometry_def kinds_def)
  moreover have "c + n \<noteq> c" using assms(4) by simp
  ultimately show ?thesis using assms(2) by (auto simp: live_def split: if_splits)
qed

lemma untouched_cut:
  assumes G: "geometry K m P g" and c: "blk g c = Some (z, True)" and n: "sized n" "n \<noteq> 0" "n < z"
  shows "untouched (live g - {(c, z)}) m (cut_mem m c n z)"
proof (rule untouched_headers [OF G, of _ "{c, c + n, c + z}"])
  have gc: "good c z" using geometry_block(1) [OF G c] .
  note cs = cut_sizes [OF gc n]
  have "maps g c = None" using G c by (auto simp: geometry_def kinds_def)
  then have "c \<notin> fst ` (live g - {(c, z)})" using c by (auto simp: live_def)
  moreover have "unat (c + n) \<in> block_bytes g c" using reg_blk [OF c] cs(4,5) by (simp add: span_def)
  ultimately have "\<exists>a\<in>owners g. unat (c + n) \<in> block_bytes g a \<and> a \<notin> fst ` (live g - {(c, z)})" using reg_blk [OF c] by blast
  moreover have "c \<in> owners g" "c + z \<in> owners g" using c geometry_block(4) [OF G c] by (auto simp: owners_def)
  ultimately show "x \<in> owners g \<or> (\<exists>i<64. x = BIN_TO_CHUNK K i) \<or> (\<exists>a\<in>owners g. unat x \<in> block_bytes g a \<and> a \<notin> fst ` (live g - {(c, z)}))"
    if "x \<in> {c, c + n, c + z}" for x
    using that by blast
qed (auto simp: cut_mem_def)

section \<open>Freeing\<close>

lemma both_in_use_eq:
  "a \<in> dom (hmem s) \<Longrightarrow> b \<in> dom (hmem s) \<Longrightarrow>
    both_in_use a b s = Some (pz (hmem s) a AND 1 \<noteq> 0 \<and> cz (hmem s) b AND 1 \<noteq> 0)"
  by (simp add: both_in_use_def field_eqs C_INUSE_def) (simp add: and_one_eq mod_2_eq_odd bit_simps flip: bit_0)

text \<open>The size fields of a chunk in use, as \<open>free\<close> writes them before it looks for the bin.\<close>

definition mark :: "cheap \<Rightarrow> addr \<Rightarrow> u64 \<Rightarrow> cheap" where
  "mark m b F = set_pz (set_cz m b (tag F True)) (b + F) (tag F True)"

lemma mark_same:
  assumes H: "heap K mp cur g s" and c: "blk g c = Some (z, True)"
  shows "heap K mp cur g (s\<lparr>hmem := mark (hmem s) c z\<rparr>)"
proof (rule heap_cong [OF H])
  note HD = heapD [OF H]
  show "dom (mark (hmem s) c z) = dom (hmem s)" using geometry_block(2,3) [OF HD(1) c] by (auto simp: mark_def)
  show "cz (mark (hmem s) c z) a = cz (hmem s) a \<and> pz (mark (hmem s) c z) a = pz (hmem s) a" for a
    using tagsD(1,2) [OF HD(2) c] by (simp add: mark_def)
qed (simp_all add: mark_def)

lemma mark_join:
  assumes H: "heap K mp cur g (s\<lparr>hmem := mark m c F\<rparr>)" and b: "blk g b = Some (y, True)" "b + y = c" and c: "blk g c = Some (F, True)"
    and d: "dom (mark m c F) = dom m"
  shows "heap K mp cur (joined g b y F) (s\<lparr>hmem := mark m b (y + F)\<rparr>)"
proof -
  define m' where "m' = mark m c F"
  note G = heapD(1) [OF H, simplified]
  have e: "b + (y + F) = c + F" using b(2) by (simp add: add.assoc [symmetric])
  have J: "heap K mp cur (joined g b y F) (s\<lparr>hmem := mark m' b (y + F)\<rparr>)"
    using heap_join [OF H b(1), of F] c b(2) by (simp add: mark_def m'_def)
  have db: "b \<in> dom m" "c + F \<in> dom m" using geometry_block(2) [OF G b(1)] geometry_block(3) [OF G c] d by auto
  have nc: "c \<notin> owners (joined g b y F)"
  proof -
    have "dom (maps g) \<inter> (dom (blk g) \<union> ends g) = {}" "ends g \<inter> dom (blk g) = {}" using G by (simp_all add: geometry_def kinds_def)
    then have "c \<notin> dom (maps g)" "c \<notin> ends g" using c by auto
    moreover have "c \<noteq> b" using next_neq [OF geometry_block(1) [OF G b(1)]] b(2) by simp
    ultimately show ?thesis using b(2) by (auto simp: owners_def joined_def)
  qed
  have "heap K mp cur (joined g b y F) (s\<lparr>hmem := mark m' b (y + F), hmem := mark m b (y + F)\<rparr>)"
  proof (rule heap_cong [OF J])
    show "dom (mark m b (y + F)) = dom (hmem (s\<lparr>hmem := mark m' b (y + F)\<rparr>))" using db d e by (auto simp: mark_def m'_def)
  qed (use nc e in \<open>auto simp: mark_def m'_def\<close>)
  then show ?thesis by simp
qed

lemma live_taken:
  "geometry K m P g \<Longrightarrow> blk g b = Some (y, False) \<Longrightarrow> live (taken g b y) = insert (b, y) (live g)"
proof -
  assume "geometry K m P g" "blk g b = Some (y, False)"
  moreover from this have "maps g b = None" by (auto simp: geometry_def kinds_def)
  ultimately show ?thesis by (auto simp: live_def split: if_splits)
qed

lemma untouched_live_taken:
  assumes "geometry K m P g" "blk g b = Some (y, False)" "untouched (live (taken g b y)) m1 m2"
  shows "untouched (live g) m1 m2"
  by (rule untouched_mono [OF assms(3)]) (simp add: live_taken [OF assms(1,2)] subset_insertI)

text \<open>The chunk at \<open>c\<close> after what follows it was taken: \<open>F\<close> bytes, with a chunk in use or an end behind it.\<close>

definition fwd_state :: "'x menv \<Rightarrow> ('x \<Rightarrow> nat set) \<Rightarrow> ('x \<Rightarrow> nat) \<Rightarrow> ghost \<Rightarrow> addr \<Rightarrow> u64 \<Rightarrow> u64 \<Rightarrow> 'x mstate \<Rightarrow> bool" where
  "fwd_state K mp cur g c z F s' \<longleftrightarrow> c + F \<in> dom (hmem s') \<and> cz (hmem s') (c + F) AND 1 \<noteq> 0 \<and>
     (\<forall>a\<in>dom (blk g) \<union> ends g. a \<in> dom (hmem s') \<and> ((\<forall>b y. blk g b = Some (y, False) \<longrightarrow> b + y \<noteq> a) \<longrightarrow> pz (hmem s') a AND 1 \<noteq> 0)) \<and>
     (\<exists>g'. heap K mp cur g' (s'\<lparr>hmem := mark (hmem s') c F\<rparr>) \<and> blk g' c = Some (F, True) \<and> live g' = insert (c, F) (live g - {(c, z)}) \<and>
       (\<forall>a y. a \<noteq> c \<longrightarrow> blk g a = Some (y, True) \<longrightarrow> blk g' a = Some (y, True)))"

lemma heap_dom: "heap K mp cur g s \<Longrightarrow> a \<in> dom (blk g) \<union> ends g \<Longrightarrow> a \<in> dom (hmem s)"
proof -
  assume "heap K mp cur g s" "a \<in> dom (blk g) \<union> ends g"
  note G = heapD(1) [OF this(1)] and this(2)
  moreover have "ends g \<subseteq> dom (hmem s)" using G(1) by (simp add: geometry_def kinds_def)
  ultimately show ?thesis using geometry_block(2) [OF G(1)] by (metis UnE domD prod.exhaust subsetD)
qed

lemma fwd_used:
  assumes H: "heap K mp cur g s" and c: "blk g c = Some (z, True)" and n: "\<And>w. blk g (c + z) \<noteq> Some (w, False)"
  shows "alloc_fwd K (c + z) s = Some (False, s)" "fwd_state K mp cur g c z z s"
proof -
  note HD = heapD [OF H]
  have e: "c + z \<in> dom (blk g) \<union> ends g" using geometry_block(4) [OF HD(1) c] .
  have a: "alloc_fwd K (c + z) s = Some (False, s)" "cz (hmem s) (c + z) AND 1 \<noteq> 0" using alloc_fwd_ok [OF H e] n by auto
  show "alloc_fwd K (c + z) s = Some (False, s)" using a by simp
  have "live g = insert (c, z) (live g - {(c, z)})" using c by (auto simp: live_def)
  then show "fwd_state K mp cur g c z z s"
    unfolding fwd_state_def using a(2) heap_dom [OF H e] heap_dom [OF H] below_odd [OF H] mark_same [OF H c] c by blast
qed

lemma fwd_free:
  assumes H: "heap K mp cur g s" and c: "blk g c = Some (z, True)" and w: "blk g (c + z) = Some (w, False)"
  shows "\<exists>s'. alloc_fwd K (c + z) s = Some (True, s') \<and> CHUNK_SIZE (c + z) s' = Some w \<and> NEXT_CHUNK (c + z) s' = Some (c + (z + w)) \<and>
    hsys s' = hsys s \<and> untouched (live g) (hmem s) (hmem s') \<and> unat (z + w) = unat z + unat w \<and> fwd_state K mp cur g c z (z + w) s'"
proof -
  note HD = heapD [OF H]
  define e where "e = c + z"
  note w = w [folded e_def]
  have e: "e \<in> dom (blk g) \<union> ends g" using w by auto
  have ne: "e \<noteq> c" using next_neq [OF geometry_block(1) [OF HD(1) c]] by (simp add: e_def)
  obtain s' where a: "alloc_fwd K e s = Some (True, s')" "heap K mp cur (taken g e w) s'" "hsys s' = hsys s" "untouched (live g) (hmem s) (hmem s')"
    using alloc_fwd_ok [OF H e] w by auto
  define g1 where "g1 = taken g e w"
  note H1 = a(2) [folded g1_def]
  have b1: "blk g1 = (blk g)(e \<mapsto> (w, True))" "ends g1 = ends g" "maps g1 = maps g" by (simp_all add: g1_def)
  have c1: "blk g1 c = Some (z, True)" "blk g1 (c + z) = Some (w, True)" using ne c by (simp_all add: b1 e_def)
  note HD1 = heapD [OF H1]
  have gd: "good c z" "good (c + z) w" using geometry_block(1) [OF HD1(1)] c1 by blast+
  have sw: "sized w" using goodD(1) [OF gd(2)] .
  have J: "heap K mp cur (joined g1 c z w) (s'\<lparr>hmem := mark (hmem s') c (z + w)\<rparr>)"
    using heap_join [OF H1 c1] by (simp add: mark_def)
  have ew: "e + w = c + (z + w)" by (simp add: e_def add.assoc)
  have de: "e \<in> dom (hmem s')" "c + (z + w) \<in> dom (hmem s')" using geometry_block(2,3) [OF HD1(1) c1(2)] by (simp_all add: e_def add.assoc)
  have ce: "cz (hmem s') e AND - 2 = w" using tagsD(1) [OF HD1(2) c1(2)] tag_simps(2) [OF sw] by (simp add: e_def)
  have "cz (hmem s') (c + (z + w)) AND 1 \<noteq> 0"
  proof (rule above_odd [OF H1])
    show "c + (z + w) \<in> dom (blk g1) \<union> ends g1" using geometry_block(4) [OF HD1(1) c1(2)] by (simp add: add.assoc)
    show "blk g1 (c + (z + w)) \<noteq> Some (x, False)" for x using tagsD(5) [OF HD(2) w] by (auto simp: b1 ew split: if_splits)
  qed
  moreover have "a \<in> dom (hmem s') \<and> ((\<forall>b y. blk g b = Some (y, False) \<longrightarrow> b + y \<noteq> a) \<longrightarrow> pz (hmem s') a AND 1 \<noteq> 0)"
    if "a \<in> dom (blk g) \<union> ends g" for a
  proof -
    have o: "a \<in> dom (blk g1) \<union> ends g1" using that by (auto simp: b1)
    show ?thesis
    proof (intro conjI impI)
      assume "\<forall>b y. blk g b = Some (y, False) \<longrightarrow> b + y \<noteq> a"
      then show "pz (hmem s') a AND 1 \<noteq> 0" by (intro below_odd [OF H1 o]) (auto simp: b1 split: if_splits)
    qed (rule heap_dom [OF H1 o])
  qed
  moreover have "maps g e = None" "maps g c = None" using HD(1) w c by (auto simp: geometry_def kinds_def)
  then have "(e, w) \<notin> live g" using w by (auto simp: live_def)
  then have "live (joined g1 c z w) = insert (c, z + w) (live g - {(c, z)})"
    using live_join [OF HD1(1) c1] live_taken [OF HD(1) w] ne by (auto simp: g1_def e_def)
  moreover have "blk (joined g1 c z w) a = Some (y, True)" if "a \<noteq> c" "blk g a = Some (y, True)" for a y
    using that w by (auto simp: joined_def b1 e_def)
  moreover have "blk (joined g1 c z w) c = Some (z + w, True)" by (simp add: joined_def)
  ultimately have "fwd_state K mp cur g c z (z + w) s'" unfolding fwd_state_def using J de(2) by blast
  moreover have "CHUNK_SIZE e s' = Some w" "NEXT_CHUNK e s' = Some (c + (z + w))" using de ce ew by (simp_all add: field_eqs)
  ultimately show ?thesis using a(1,3,4) span_plus(3) [OF gd] by (auto simp: e_def)
qed

text \<open>What one round of merges gives: one larger chunk, whose neighbours are in use.\<close>

definition merged :: "'x menv \<Rightarrow> ('x \<Rightarrow> nat set) \<Rightarrow> ('x \<Rightarrow> nat) \<Rightarrow> ghost \<Rightarrow> addr \<Rightarrow> u64 \<Rightarrow> 'x mstate \<Rightarrow> addr \<Rightarrow> u64 \<Rightarrow> 'x mstate \<Rightarrow> bool" where
  "merged K mp cur g c z s b F s' \<longleftrightarrow> hsys s' = hsys s \<and> untouched (live g - {(c, z)}) (hmem s) (hmem s') \<and>
     pz (hmem s') b AND 1 \<noteq> 0 \<and> cz (hmem s') (b + F) AND 1 \<noteq> 0 \<and> b \<in> dom (hmem s') \<and> b + F \<in> dom (hmem s') \<and>
     (b, F) \<notin> live g - {(c, z)} \<and>
     (\<exists>g'. heap K mp cur g' (s'\<lparr>hmem := mark (hmem s') b F\<rparr>) \<and> blk g' b = Some (F, True) \<and> live g' = insert (b, F) (live g - {(c, z)}))"

lemma dom_mark: "b \<in> dom m \<Longrightarrow> b + F \<in> dom m \<Longrightarrow> dom (mark m b F) = dom m"
  by (auto simp: mark_def)

lemma fwd_merged:
  assumes H: "heap K mp cur g s" and c: "blk g c = Some (z, True)" and p: "pz (hmem s) c AND 1 \<noteq> 0"
    and F: "fwd_state K mp cur g c z F s'" "hsys s' = hsys s" "untouched (live g) (hmem s) (hmem s')"
  shows "merged K mp cur g c z s c F s'"
proof -
  have c': "c \<in> dom (blk g) \<union> ends g" using c by auto
  have "\<forall>b y. blk g b = Some (y, False) \<longrightarrow> b + y \<noteq> c" using below_used [OF H p] by blast
  then have "c \<in> dom (hmem s') \<and> pz (hmem s') c AND 1 \<noteq> 0" using F(1) c' unfolding fwd_state_def by blast
  moreover have "untouched (live g - {(c, z)}) (hmem s) (hmem s')" by (rule untouched_mono [OF F(3)]) blast
  moreover have "maps g c = None" using heapD(1) [OF H] c by (auto simp: geometry_def kinds_def)
  then have "(c, F) \<notin> live g - {(c, z)}" using c by (auto simp: live_def)
  ultimately show ?thesis using F(1,2) unfolding merged_def fwd_state_def by blast
qed

lemma rev_merged:
  assumes H: "heap K mp cur g s" and c: "blk g c = Some (z, True)" and b: "blk g b = Some (y, False)" "b + y = c"
    and H1: "heap K mp cur (taken g b y) s1" "hsys s1 = hsys s" "untouched (live g) (hmem s) (hmem s1)"
    and F: "fwd_state K mp cur (taken g b y) c z F s'" "hsys s' = hsys s1" "untouched (live (taken g b y)) (hmem s1) (hmem s')"
  shows "merged K mp cur g c z s b (y + F) s'" "unat (y + F) = unat y + unat F"
proof -
  note HD = heapD [OF H] and HD1 = heapD [OF H1(1)]
  have nb: "b \<noteq> c" using next_neq [OF geometry_block(1) [OF HD(1) b(1)]] b(2) by auto
  have b1: "blk (taken g b y) b = Some (y, True)" "blk (taken g b y) c = Some (z, True)" using nb c by simp_all
  obtain g' where g': "heap K mp cur g' (s'\<lparr>hmem := mark (hmem s') c F\<rparr>)" "blk g' c = Some (F, True)"
      "live g' = insert (c, F) (live (taken g b y) - {(c, z)})" "blk g' b = Some (y, True)"
    using F(1) nb b1(1) unfolding fwd_state_def by blast
  note G' = heapD(1) [OF g'(1), simplified]
  have gd: "good b y" "good (b + y) F" using geometry_block(1) [OF G'] g' b(2) by blast+
  show "unat (y + F) = unat y + unat F" using span_plus(3) [OF gd] .
  have e: "b + (y + F) = c + F" using b(2) by (simp add: add.assoc [symmetric])
  have "a \<in> dom (hmem s')" if "a \<in> dom (blk (taken g b y)) \<union> ends (taken g b y)" for a using F(1) that unfolding fwd_state_def by blast
  from this [of c] this [of b] have "c \<in> dom (hmem s')" "b \<in> dom (hmem s')" using b1 by (blast intro: domI)+
  moreover have "c + F \<in> dom (hmem s')" using F(1) unfolding fwd_state_def by blast
  ultimately have dc: "c \<in> dom (hmem s')" "b \<in> dom (hmem s')" "c + F \<in> dom (hmem s')" by blast+
  have J: "heap K mp cur (joined g' b y F) (s'\<lparr>hmem := mark (hmem s') b (y + F)\<rparr>)"
    using mark_join [OF g'(1,4) b(2) g'(2) dom_mark [OF dc(1,3)]] .
  have mp: "maps g b = None" "maps g c = None" using HD(1) b c by (auto simp: geometry_def kinds_def)
  have nl: "(b, x) \<notin> live g" "(c, x) \<in> live g \<Longrightarrow> x = z" for x using b c mp by (auto simp: live_def)
  have lj: "live (joined g' b y F) = insert (b, y + F) (live g' - {(b, y), (c, F)})" using live_join [OF G' g'(4)] g'(2) b(2) by simp
  have L: "live (joined g' b y F) = insert (b, y + F) (live g - {(c, z)})"
    unfolding lj g'(3) live_taken [OF HD(1) b(1)] using nl nb by blast
  have "\<forall>d x. blk (taken g b y) d = Some (x, False) \<longrightarrow> d + x \<noteq> b"
    using tagsD(5) [OF HD(2)] b(1) by (fastforce split: if_splits)
  then have "pz (hmem s') b AND 1 \<noteq> 0" using F(1) b1(1) unfolding fwd_state_def by blast
  moreover have "untouched (live g) (hmem s) (hmem s')"
    using untouched_trans [OF H1(3) untouched_live_taken [OF HD(1) b(1) F(3)]] .
  then have "untouched (live g - {(c, z)}) (hmem s) (hmem s')" by (rule untouched_mono) blast
  moreover have "blk (joined g' b y F) b = Some (y + F, True)" by (simp add: joined_def)
  moreover have "(b, y + F) \<notin> live g - {(c, z)}" using nl by blast
  ultimately show "merged K mp cur g c z s b (y + F) s'"
    unfolding merged_def e using J L dc F(1,2) H1(2) unfolding fwd_state_def by (metis e)
qed

lemma merge_round_ok:
  assumes H: "heap K mp cur g s" and c: "blk g c = Some (z, True)"
  shows "\<exists>b F r s'. merge_round K c (c + z) z z rc s = Some (b, b + F, F, r, s') \<and> (r \<longrightarrow> rc \<or> RECLAIM < F) \<and>
    merged K mp cur g c z s b F s'"
proof -
  note HD = heapD [OF H]
  have c': "c \<in> dom (blk g) \<union> ends g" using c by auto
  have big: "RECLAIM < x \<Longrightarrow> unat x \<le> unat y \<Longrightarrow> RECLAIM < y" for x y :: u64 by (simp add: word_less_nat_alt)
  show ?thesis
  proof (cases "pz (hmem s) c AND 1 = 0")
    case False
    then have r: "alloc_rev K c s = Some (False, s)" using alloc_rev_ok [OF H c'] by simp
    show ?thesis
    proof (cases "\<exists>w. blk g (c + z) = Some (w, False)")
      case True
      then obtain w where w: "blk g (c + z) = Some (w, False)" by blast
      obtain s' where f: "alloc_fwd K (c + z) s = Some (True, s')" "CHUNK_SIZE (c + z) s' = Some w" "NEXT_CHUNK (c + z) s' = Some (c + (z + w))"
          "hsys s' = hsys s" "untouched (live g) (hmem s) (hmem s')" "fwd_state K mp cur g c z (z + w) s'"
        using fwd_free [OF H c w] by blast
      have "merged K mp cur g c z s c (z + w) s'" using fwd_merged [OF H c False f(6,4,5)] .
      then show ?thesis using r f(1-3) by (auto simp: merge_round_def)
    next
      case n: False
      then have f: "alloc_fwd K (c + z) s = Some (False, s)" "fwd_state K mp cur g c z z s" using fwd_used [OF H c] by blast+
      have "merged K mp cur g c z s c z s" using fwd_merged [OF H c False f(2)] untouched_refl by blast
      then show ?thesis using r f(1) by (auto simp: merge_round_def)
    qed
  next
    case True
    then obtain b y s1 where b: "b + y = c" "blk g b = Some (y, False)" "alloc_rev K c s = Some (True, s1)"
        and s1: "heap K mp cur (taken g b y) s1" "hsys s1 = hsys s" "untouched (live g) (hmem s) (hmem s1)"
      using alloc_rev_ok [OF H c', unfolded if_P [OF True]] by blast
    have nb: "b \<noteq> c" using next_neq [OF geometry_block(1) [OF HD(1) b(2)]] b(1) by auto
    have b1: "blk (taken g b y) b = Some (y, True)" "blk (taken g b y) c = Some (z, True)" using nb c by simp_all
    note HD1 = heapD [OF s1(1)]
    have sy: "sized y" using goodD(1) [OF geometry_block(1) [OF HD(1) b(2)]] .
    have "pz (hmem s1) c AND - 2 = y" "cz (hmem s1) b AND - 2 = y"
      using tagsD(1,2) [OF HD1(2) b1(1)] b(1) tag_simps(2) [OF sy] by simp_all
    moreover have "c \<in> dom (hmem s1)" "b \<in> dom (hmem s1)" using geometry_block(2) [OF HD1(1)] b1 by blast+
    moreover have "c - y = b" using b(1) by (simp flip: b(1))
    ultimately have p: "PREV_CHUNK c s1 = Some b" "CHUNK_SIZE b s1 = Some y" by (simp_all add: field_eqs)
    show ?thesis
    proof (cases "\<exists>w. blk (taken g b y) (c + z) = Some (w, False)")
      case True
      then obtain w where w: "blk (taken g b y) (c + z) = Some (w, False)" by blast
      obtain s' where f: "alloc_fwd K (c + z) s1 = Some (True, s')" "CHUNK_SIZE (c + z) s' = Some w" "NEXT_CHUNK (c + z) s' = Some (c + (z + w))"
          "hsys s' = hsys s1" "untouched (live (taken g b y)) (hmem s1) (hmem s')" "unat (z + w) = unat z + unat w"
          "fwd_state K mp cur (taken g b y) c z (z + w) s'"
        using fwd_free [OF s1(1) b1(2) w] by blast
      note M = rev_merged [OF H c b(2,1) s1 f(7,4,5)]
      have e: "z + y + w = y + (z + w)" "c + (z + w) = b + (y + (z + w))" using b(1) by (simp_all add: algebra_simps)
      have u: "unat (z + y) \<le> unat (y + (z + w))" "unat (z + w) \<le> unat (y + (z + w))"
        using M(2) f(6) unat_plus_if' [of z y] by (auto split: if_splits)
      have "merge_round K c (c + z) z z rc s = Some (b, b + (y + (z + w)), y + (z + w),
          (rc \<or> RECLAIM < z + y \<and> y < (z + y XOR y)) \<or> RECLAIM < z + w \<and> w < (z + w XOR w), s')"
        using b(3) p f(1-3) by (simp add: merge_round_def e)
      then show ?thesis using M(1) big [OF _ u(1)] big [OF _ u(2)] by blast
    next
      case n: False
      then have f: "alloc_fwd K (c + z) s1 = Some (False, s1)" "fwd_state K mp cur (taken g b y) c z z s1"
        using fwd_used [OF s1(1) b1(2)] by blast+
      note M = rev_merged [OF H c b(2,1) s1 f(2) refl untouched_refl]
      have e: "z + y = y + z" "c + z = b + (y + z)" using b(1) by (simp_all add: algebra_simps)
      have "merge_round K c (c + z) z z rc s = Some (b, b + (y + z), y + z, rc \<or> RECLAIM < y + z \<and> y < (y + z XOR y), s1)"
        using b(3) p f(1) by (simp add: merge_round_def e)
      then show ?thesis using M(1) by blast
    qed
  qed
qed

lemma free_loop_done:
  assumes H: "heap K mp cur g (s\<lparr>hmem := mark (hmem s) b F\<rparr>)" and b: "blk g b = Some (F, True)"
    and o: "pz (hmem s) b AND 1 \<noteq> 0" "cz (hmem s) (b + F) AND 1 \<noteq> 0" and d: "b \<in> dom (hmem s)" "b + F \<in> dom (hmem s)"
  shows "\<exists>s'. free_loop K b (b + F) F z r s = Some (b, b + F, F, r, bin_index F, s') \<and> heap K mp cur g s' \<and>
    path (nx (hmem s')) (pv (hmem s')) (BIN_TO_CHUNK K (bin_index F)) (lists g (bin_index F)) (BIN_TO_CHUNK K (bin_index F)) \<and>
    pz (hmem s') b AND 1 \<noteq> 0 \<and> cz (hmem s') (b + F) AND 1 \<noteq> 0 \<and> hsys s' = hsys s \<and> untouched (live g) (mark (hmem s) b F) (hmem s')"
proof -
  note G = heapD(1) [OF H, simplified]
  have gb: "good b F" using geometry_block(1) [OF G b] .
  have nb: "b + F \<noteq> b" using next_neq [OF gb] .
  define m where "m = mark (hmem s) b F"
  have m: "pz m b = pz (hmem s) b" "cz m (b + F) = cz (hmem s) (b + F)" "dom m = dom (hmem s)"
    using nb dom_mark [OF d] by (simp_all add: m_def mark_def)
  have i: "bin_index F < 64" using bin_facts [OF refl] goodD(1,2) [OF gb] by blast
  obtain s' where l: "lock_bin K (bin_index F) (s\<lparr>hmem := m\<rparr>) = Some s'" "heap K mp cur g s'"
      "path (nx (hmem s')) (pv (hmem s')) (BIN_TO_CHUNK K (bin_index F)) (lists g (bin_index F)) (BIN_TO_CHUNK K (bin_index F))"
      "cz (hmem s') = cz m" "pz (hmem s') = pz m" "dom (hmem s') = dom m" "hsys s' = hsys s" "untouched (live g) m (hmem s')"
    using lock_bin_ok [OF H i] by (auto simp: m_def)
  have w: "put_csize b (F OR C_INUSE) s = Some (s\<lparr>hmem := set_cz (hmem s) b (tag F True)\<rparr>)"
    "put_psize (b + F) (F OR C_INUSE) (s\<lparr>hmem := set_cz (hmem s) b (tag F True)\<rparr>) = Some (s\<lparr>hmem := m\<rparr>)"
    using d by (simp_all add: field_eqs tag_def m_def mark_def)
  have u: "both_in_use b (b + F) s = Some True" "both_in_use b (b + F) s' = Some True"
    using both_in_use_eq [of b s "b + F"] both_in_use_eq [of b s' "b + F"] o d m l(4-6) by simp_all
  have "free_loop K b (b + F) F z r s = Some (b, b + F, F, r, bin_index F, s')"
    using w u l(1) by (subst free_loop.simps) simp
  then show ?thesis using l o m by (auto simp: m_def)
qed

lemma untouched_mark:
  assumes H: "heap K mp cur g (s\<lparr>hmem := mark (hmem s) b F\<rparr>)" and b: "blk g b = Some (F, True)"
    and d: "b \<in> dom (hmem s)" "b + F \<in> dom (hmem s)" and U: "U \<subseteq> live g"
  shows "untouched U (hmem s) (mark (hmem s) b F)"
proof -
  note G = heapD(1) [OF H, simplified]
  have G': "geometry K (hmem s) (mp (hsys s)) g" using geometry_cong [OF G, of "hmem s" g] dom_mark [OF d] by simp
  have "b \<in> owners g" "b + F \<in> owners g" using b geometry_block(4) [OF G b] by (auto simp: owners_def)
  then show ?thesis using U by (intro untouched_headers [OF G', of U "{b, b + F}"]) (auto simp: mark_def)
qed

lemma free_loop_ok:
  assumes H: "heap K mp cur g s" and c: "blk g c = Some (z, True)"
  shows "\<exists>b F r s' g'. free_loop K c (c + z) z z False s = Some (b, b + F, F, r, bin_index F, s') \<and> heap K mp cur g' s' \<and>
    blk g' b = Some (F, True) \<and> live g' = insert (b, F) (live g - {(c, z)}) \<and> (b, F) \<notin> live g - {(c, z)} \<and> (r \<longrightarrow> RECLAIM < F) \<and>
    path (nx (hmem s')) (pv (hmem s')) (BIN_TO_CHUNK K (bin_index F)) (lists g' (bin_index F)) (BIN_TO_CHUNK K (bin_index F)) \<and>
    pz (hmem s') b AND 1 \<noteq> 0 \<and> cz (hmem s') (b + F) AND 1 \<noteq> 0 \<and> hsys s' = hsys s \<and> untouched (live g - {(c, z)}) (hmem s) (hmem s')"
proof -
  note HD = heapD [OF H]
  have d: "c \<in> dom (hmem s)" "c + z \<in> dom (hmem s)" using geometry_block(2,3) [OF HD(1) c] .
  show ?thesis
  proof (cases "pz (hmem s) c AND 1 \<noteq> 0 \<and> cz (hmem s) (c + z) AND 1 \<noteq> 0")
    case True
    note M = mark_same [OF H c]
    obtain s' where s': "free_loop K c (c + z) z z False s = Some (c, c + z, z, False, bin_index z, s')" "heap K mp cur g s'"
        "path (nx (hmem s')) (pv (hmem s')) (BIN_TO_CHUNK K (bin_index z)) (lists g (bin_index z)) (BIN_TO_CHUNK K (bin_index z))"
        "pz (hmem s') c AND 1 \<noteq> 0" "cz (hmem s') (c + z) AND 1 \<noteq> 0" "hsys s' = hsys s" "untouched (live g) (mark (hmem s) c z) (hmem s')"
      using free_loop_done [OF M c _ _ d] True by blast
    have "untouched (live g) (hmem s) (hmem s')" using untouched_trans [OF untouched_mark [OF M c d order_refl] s'(7)] .
    then have "untouched (live g - {(c, z)}) (hmem s) (hmem s')" by (rule untouched_mono) blast
    moreover have "live g = insert (c, z) (live g - {(c, z)})" using c by (auto simp: live_def)
    ultimately show ?thesis using s'(1-6) c by blast
  next
    case False
    obtain b F r s1 where m: "merge_round K c (c + z) z z False s = Some (b, b + F, F, r, s1)" "r \<longrightarrow> RECLAIM < F"
        "merged K mp cur g c z s b F s1"
      using merge_round_ok [OF H c, of False] by auto
    obtain g' where g': "heap K mp cur g' (s1\<lparr>hmem := mark (hmem s1) b F\<rparr>)" "blk g' b = Some (F, True)"
        "live g' = insert (b, F) (live g - {(c, z)})"
      using m(3) unfolding merged_def by blast
    have nl: "(b, F) \<notin> live g - {(c, z)}" using m(3) unfolding merged_def by blast
    have M: "hsys s1 = hsys s" "untouched (live g - {(c, z)}) (hmem s) (hmem s1)" "pz (hmem s1) b AND 1 \<noteq> 0"
        "cz (hmem s1) (b + F) AND 1 \<noteq> 0" "b \<in> dom (hmem s1)" "b + F \<in> dom (hmem s1)"
      using m(3) unfolding merged_def by blast+
    obtain s' where s': "free_loop K b (b + F) F z r s1 = Some (b, b + F, F, r, bin_index F, s')" "heap K mp cur g' s'"
        "path (nx (hmem s')) (pv (hmem s')) (BIN_TO_CHUNK K (bin_index F)) (lists g' (bin_index F)) (BIN_TO_CHUNK K (bin_index F))"
        "pz (hmem s') b AND 1 \<noteq> 0" "cz (hmem s') (b + F) AND 1 \<noteq> 0" "hsys s' = hsys s1" "untouched (live g') (mark (hmem s1) b F) (hmem s')"
      using free_loop_done [OF g'(1,2) M(3-6)] by blast
    have "both_in_use c (c + z) s = Some False" using both_in_use_eq [OF d] False by simp
    then have f: "free_loop K c (c + z) z z False s = Some (b, b + F, F, r, bin_index F, s')"
      using m(1) s'(1) by (subst free_loop.simps) simp
    have "untouched (live g') (hmem s1) (hmem s')"
      using untouched_trans [OF untouched_mark [OF g'(1,2) M(5,6) order_refl] s'(7)] .
    then have "untouched (live g - {(c, z)}) (hmem s1) (hmem s')" by (rule untouched_mono) (use g'(3) in blast)
    from untouched_trans [OF M(2) this] have "untouched (live g - {(c, z)}) (hmem s) (hmem s')" .
    moreover have "hsys s' = hsys s" using s'(6) M(1) by simp
    ultimately show ?thesis using f s'(2-5) g'(2,3) m(2) nl by blast
  qed
qed

definition given :: "ghost \<Rightarrow> addr \<Rightarrow> u64 \<Rightarrow> ghost" where
  "given g c z = g\<lparr>blk := (blk g)(c \<mapsto> (z, False)), lists := (lists g)(bin_index z := lists g (bin_index z) @ [c])\<rparr>"

lemma given_simps [simp]: "blk (given g c z) = (blk g)(c \<mapsto> (z, False))" "ends (given g c z) = ends g" "maps (given g c z) = maps g"
  by (simp_all add: given_def)

lemma live_given:
  "geometry K m P g \<Longrightarrow> blk g b = Some (y, True) \<Longrightarrow> live (given g b y) = live g - {(b, y)}"
proof -
  assume "geometry K m P g" "blk g b = Some (y, True)"
  moreover from this have "maps g b = None" by (auto simp: geometry_def kinds_def)
  ultimately show ?thesis by (auto simp: live_def split: if_splits)
qed

lemma bit_set_bin: "i < 64 \<Longrightarrow> k < 64 \<Longrightarrow> bit (if bm AND push_bit i 1 = 0 then bm OR push_bit i 1 else bm :: u64) k \<longleftrightarrow> k = i \<or> bit bm k"
proof -
  assume i: "i < 64" "k < 64"
  have b: "bit (push_bit i 1 :: u64) j \<longleftrightarrow> j = i" for j using i(1) by (auto simp: bit_simps)
  have "bm AND push_bit i 1 = 0 \<longleftrightarrow> \<not> bit bm i"
    by (simp add: bit_iff_and_push_bit_not_eq_0)
  then show ?thesis using b by (auto simp: bit_or_iff)
qed

lemma release_ok:
  assumes H: "heap K mp cur g s" and c: "blk g c = Some (z, True)" and i: "i = bin_index z"
    and P: "path (nx (hmem s)) (pv (hmem s)) (BIN_TO_CHUNK K i) (lists g i) (BIN_TO_CHUNK K i)"
    and o: "pz (hmem s) c AND 1 \<noteq> 0" "cz (hmem s) (c + z) AND 1 \<noteq> 0"
  shows "\<exists>s'. release K c (c + z) z i s = Some s' \<and> heap K mp cur (given g c z) s' \<and> hsys s' = hsys s \<and>
    untouched (live g - {(c, z)}) (hmem s) (hmem s')"
proof -
  note HD = heapD [OF H]
  define m where "m = hmem s"
  define S where "S = BIN_TO_CHUNK K i"
  define t where "t = last (S # lists g i)"
  have gc: "good c z" "c \<in> dom m" "c + z \<in> dom m" "c + z \<in> dom (blk g) \<union> ends g" using geometry_block [OF HD(1) c] by (simp_all add: m_def)
  have i64: "i < 64" using bin_facts [OF i [symmetric]] goodD(1,2) [OF gc(1)] by blast
  note B = binsD [OF HD(3) i64, folded S_def m_def]
  have S: "S \<in> dom m" "S \<notin> owners g" using bin_not_owner [OF HD(1) i64] by (simp_all add: S_def m_def)
  have co: "c \<in> owners g" using c by (auto simp: owners_def)
  have cn: "c \<notin> free_in g k" for k using c by (auto simp: free_in_def)
  have fo: "free_in g k \<subseteq> owners g" for k using free_in_dom [of g k] by (auto simp: owners_def)
  have dist: "distinct (S # lists g i)" "c \<notin> set (S # lists g i)" using B(2,3) S co cn [of i] fo [of i] by auto
  note R = path_snoc [OF P [folded S_def m_def] dist, folded t_def]
  have tS: "t \<in> insert S (free_in g i)"
  proof -
    have "t \<in> set (S # lists g i)" unfolding t_def by (rule last_in_set) simp
    then show ?thesis using B(3) by simp
  qed
  have "free_in g i \<subseteq> dom m" using geometry_block(2) [OF HD(1)] by (auto simp: free_in_def m_def)
  then have dt: "t \<in> dom m" using tS S by blast
  have nc: "c \<noteq> S" "c \<noteq> t" "c + z \<noteq> c" using dist tS cn [of i] next_neq [OF gc(1)] by auto
  define bm where "bm = (if hbinmap s AND push_bit i 1 = 0 then hbinmap s OR push_bit i 1 else hbinmap s)"
  define m' where "m' = set_nx (set_pv (set_pv (set_nx (set_pz (set_cz m c z) (c + z) z) c S) c t) S c) t c"
  have re: "release K c (c + z) z i s = Some (s\<lparr>hmem := m', hbinmap := bm\<rparr>)"
    using gc S dt R(1) nc by (simp add: release_def field_eqs m_def [symmetric] S_def [symmetric] Let_def m'_def bm_def)
  have d: "dom m' = dom m" using gc S dt by (auto simp: m'_def)
  define g' where "g' = given g c z"
  have g: "geometry K m' (mp (hsys s)) g'"
    by (rule geometry_cong [OF HD(1) d [unfolded m_def]]) (use c in \<open>auto simp: g'_def fun_eq_iff\<close>)
  have v: "w" if y: "blk g (c + z) = Some (y, w)" for y w
    using o(2) tagsD(1) [OF HD(2) y] sized_even [OF goodD(1) [OF geometry_block(1) [OF HD(1) y]]] by (cases w) (auto simp: tag_def)
  have t: "tags m' g'"
    by (rule tags_mark [OF HD(1,2) c, where v = False]) (use o(1) v in \<open>auto simp: m'_def g'_def m_def tag_def\<close>)
  have fi: "free_in g' k = (if k \<noteq> i then free_in g k else insert c (free_in g k))" for k
    using free_in_mark [OF c, of g' False k] cn by (simp add: g'_def i)
  have bn: "bins K m' bm g'"
  proof (rule bins_change [OF HD(3) i64, where X = "insert c (insert S (free_in g i))" and L = "lists g i @ [c]"])
    show "path (nx m') (pv m') (BIN_TO_CHUNK K i) (lists g i @ [c]) (BIN_TO_CHUNK K i)" using R(2) by (simp add: m'_def S_def)
    show "distinct (lists g i @ [c])" using dist by simp
    show "set (lists g i @ [c]) = free_in g' i" using B(3) by (auto simp: fi)
    show "nx m' e = nx (hmem s) e \<and> pv m' e = pv (hmem s) e" if "e \<notin> insert c (insert S (free_in g i))" for e
      using that tS by (auto simp: m'_def m_def)
    show "BIN_TO_CHUNK K k \<notin> insert c (insert S (free_in g i)) \<and> free_in g k \<inter> insert c (insert S (free_in g i)) = {}" if k: "k < 64" "k \<noteq> i" for k
    proof -
      have "BIN_TO_CHUNK K k \<noteq> c" using bin_not_owner [OF HD(1) k(1)] co by auto
      then show ?thesis using k bin_inj [of i k K] i64 bin_notin [OF HD(1)] cn by (auto simp: S_def free_in_def)
    qed
    show "free_in g' k = free_in g k" if "k \<noteq> i" for k using that by (simp add: fi)
    show "lists g' = (lists g)(i := lists g i @ [c])" by (simp add: g'_def given_def i)
    show "bit bm k \<longleftrightarrow> (if k = i then lists g i @ [c] \<noteq> [] else bit (hbinmap s) k)" if "k < 64" for k
      unfolding bm_def bit_set_bin [OF i64 that] by auto
  qed
  have "untouched (live g - {(c, z)}) (hmem s) m'"
  proof (rule untouched_headers [OF HD(1), of _ "{c, c + z, S, t}"])
    show "m' x = hmem s x" if "x \<notin> {c, c + z, S, t}" for x using that by (simp add: m'_def m_def)
    show "x \<in> owners g \<or> (\<exists>i<64. x = BIN_TO_CHUNK K i) \<or> (\<exists>a\<in>owners g. unat x \<in> block_bytes g a \<and> a \<notin> fst ` (live g - {(c, z)}))"
      if "x \<in> {c, c + z, S, t}" for x
      using that tS co gc(4) i64 fo [of i] by (auto simp: owners_def S_def)
    have mc: "maps g c = None" using HD(1) c by (auto simp: geometry_def kinds_def)
    have "e \<noteq> c \<and> e \<noteq> S \<and> e \<noteq> t" if l: "(e, y) \<in> live g - {(c, z)}" for e y
    proof -
      have "e \<in> owners g" using l live_owner by blast
      then have "e \<noteq> S" using S by blast
      moreover have "e \<notin> free_in g i" using l HD(1) by (auto simp: live_def free_in_def geometry_def kinds_def)
      moreover have "e \<noteq> c" using l c mc by (auto simp: live_def)
      ultimately show ?thesis using tS by auto
    qed
    then show "nx m' e = nx (hmem s) e \<and> pv m' e = pv (hmem s) e" if "e \<in> fst ` (live g - {(c, z)})" for e
      using that by (force simp: m'_def m_def)
  qed blast
  then show ?thesis using re g t bn H by (auto simp: heap_def g'_def m_def)
qed

section \<open>Giving pages back\<close>

lemma align_down: "n < 64 \<Longrightarrow> unat (x AND - (2 ^ n) :: u64) = unat x - unat x mod 2 ^ n"
proof -
  assume n: "n < 64"
  have e: "x AND - (2 ^ n) = push_bit n (drop_bit n x)"
    by (rule bit_word_eqI) (auto simp: minus_exp_eq_not_mask bit_simps)
  have p: "unat (2 ^ n :: u64) = 2 ^ n"
  proof -
    have "(2 ^ n :: u64) = of_nat (2 ^ n)" by simp
    then show ?thesis using power_strict_increasing [OF n, of "2 :: nat"]
      by (simp only: unat_of_nat) (simp add: take_bit_nat_eq_self)
  qed
  have "unat x div 2 ^ n * 2 ^ n \<le> unat x" by simp
  also have "\<dots> < 2 ^ 64" using unsigned_less [of x] by simp
  finally have q: "unat x div 2 ^ n * 2 ^ n < 2 ^ 64" .
  moreover have "unat x div 2 ^ n < 2 ^ 64" by (rule le_less_trans [OF div_le_dividend]) (use unsigned_less [of x, where 'a = nat] in simp)
  ultimately have "unat (push_bit n (drop_bit n x)) = unat x div 2 ^ n * 2 ^ n"
    by (simp add: push_bit_eq_mult unat_word_ariths drop_bit_eq_div unat_div p mod_less del: unat_drop_bit_eq)
  then show ?thesis by (simp add: e minus_mod_eq_div_mult)
qed

lemma align_page: "unat (x AND - PAGE_SIZE) = unat x - unat x mod 4096"
  using align_down [of 12 x] by (simp add: PAGE_SIZE_def)

lemma geometry_more: "geometry K m P g \<Longrightarrow> P \<subseteq> P' \<Longrightarrow> geometry K m P' g"
  unfolding geometry_def apart_blocks_def bins_apart_def by blast

lemma heap_sys:
  assumes "heap K mp cur g s" "mp (hsys s) \<subseteq> mp x" "cur x = cur (hsys s)"
  shows "heap K mp cur g (s\<lparr>hsys := x\<rparr>)"
  using assms geometry_more [OF heapD(1) [OF assms(1)] assms(2)] by (simp add: heap_def)

lemma zeroed_field:
  fixes A B c x k :: u64
  assumes "A \<le> B" "unat c + 32 \<le> unat A" "unat B + 32 \<le> unat c + unat z" "x + k - A < B - A" "unat k < 32"
  shows "unat x \<in> span c z" "x \<noteq> c"
proof -
  define w where "w = x + k - A"
  have u: "unat (B - A) = unat B - unat A" using assms(1) by (simp add: unat_sub)
  have w: "unat w < unat B - unat A" using assms(4) unfolding w_def [symmetric] by (simp add: word_less_nat_alt u)
  have "unat B < 2 ^ 64" using unsigned_less [of B] by simp
  then have a: "unat (A + w) = unat A + unat w" using w by (intro unat_plus) linarith
  have "k \<le> A + w" using assms(2,5) by (simp add: word_le_nat_alt a)
  then have "unat (A + w - k) = unat A + unat w - unat k" using a by (simp add: unat_sub)
  moreover have "A + w - k = x" by (simp add: w_def)
  ultimately have x: "unat x = unat A + unat w - unat k" by simp
  then show "unat x \<in> span c z" using assms(2,3,5) w unfolding span_def by simp linarith
  show "x \<noteq> c" using x assms(2,5) by auto
qed

lemma zeroed_outside:
  assumes "A \<le> B" "unat c + 32 \<le> unat A" "unat B + 32 \<le> unat c + unat z" "unat x \<notin> span c z \<or> x = c"
  shows "zeroed A (B - A) m x = m x"
proof -
  have f: "\<not> x + k - A < B - A" if "unat k < 32" for k using zeroed_field [OF assms(1-3) _ that] assms(4) by blast
  from f [of 0] f [of 8] f [of 16] f [of 24] show ?thesis by (cases "m x") (simp_all add: zeroed_def)
qed

definition madvise_law :: "'x menv \<Rightarrow> ('x \<Rightarrow> nat set) \<Rightarrow> ('x \<Rightarrow> nat) \<Rightarrow> bool" where
  "madvise_law K mp cur \<longleftrightarrow> (\<forall>a len x. mp x \<subseteq> mp (sys_madvise K a len x) \<and> cur (sys_madvise K a len x) = cur x)"

lemma give_back_ok:
  assumes H: "heap K mp cur g s" and c: "blk g c = Some (z, False)" and big: "RECLAIM < z" and law: "madvise_law K mp cur"
  shows "heap K mp cur g (give_back K c (c + z) s)" "untouched (live g) (hmem s) (hmem (give_back K c (c + z) s))"
proof -
  note HD = heapD [OF H]
  define A where "A = (c + SIZE_ALIGN + PAGE_SIZE - 1) AND - PAGE_SIZE"
  define B where "B = (c + z - SIZE_ALIGN) AND - PAGE_SIZE"
  define m' where "m' = zeroed A (B - A) (hmem s)"
  have gc: "good c z" using geometry_block(1) [OF HD(1) c] .
  have z: "163840 < unat z" "unat c + unat z < 2 ^ 64" using big goodD(3) [OF gc] by (simp_all add: RECLAIM_def word_less_nat_alt)
  have "unat (c + 4127) = unat c + 4127" using z unat_plus [of c 4127] by simp
  moreover have "c + SIZE_ALIGN + PAGE_SIZE - 1 = c + 4127" by (simp add: SIZE_ALIGN_def PAGE_SIZE_def)
  ultimately have a: "unat A = unat c + 4127 - (unat c + 4127) mod 4096" by (simp only: A_def align_page)
  have "unat (c + z - 32) = unat c + unat z - 32" using good_next [OF gc] z by (subst unat_sub) (simp_all add: word_le_nat_alt)
  then have b: "unat B = unat c + unat z - 32 - (unat c + unat z - 32) mod 4096" unfolding B_def align_page by (simp add: SIZE_ALIGN_def)
  have ab: "unat c + 32 \<le> unat A" "unat A \<le> unat c + 4127" "unat B + 32 \<le> unat c + unat z" "unat c + unat z \<le> unat B + 32 + 4095"
  proof -
    have m: "(unat c + 4127) mod 4096 \<le> 4095" "(unat c + unat z - 32) mod 4096 \<le> 4095"
      using mod_less_divisor [of 4096] by (simp_all add: less_Suc_eq_le [symmetric])
    have l: "(unat c + unat z - 32) mod 4096 \<le> unat c + unat z - 32" by simp
    show "unat c + 32 \<le> unat A" "unat A \<le> unat c + 4127" using a m(1) by linarith+
    show "unat B + 32 \<le> unat c + unat z" "unat c + unat z \<le> unat B + 32 + 4095" using b m(2) l z by linarith+
  qed
  have "A \<le> B" using ab z by (simp add: word_le_nat_alt)
  note out = zeroed_outside [OF this ab(1,3), of _ "hmem s", folded m'_def]
  have d: "dom m' = dom (hmem s)" by (auto simp: m'_def zeroed_def)
  have o: "m' e = hmem s e" if "e \<in> owners g" for e
    using that owner_unique [OF HD(1) that] owner_byte [OF HD(1) that] reg_blk [OF c] by (intro out) metis
  have bn: "m' (BIN_TO_CHUNK K k) = hmem s (BIN_TO_CHUNK K k)" if "k < 64" for k
    using HD(1) that reg_blk [OF c] unfolding geometry_def bins_apart_def by (intro out) metis
  have H': "heap K mp cur g (s\<lparr>hmem := m'\<rparr>)"
  proof (rule heap_cong [OF H d])
    show "cz m' e = cz (hmem s) e \<and> pz m' e = pz (hmem s) e" if "e \<in> owners g" for e using o [OF that] by (simp add: cz_def pz_def)
    show "nx m' e = nx (hmem s) e \<and> pv m' e = pv (hmem s) e" if "\<exists>k<64. e = BIN_TO_CHUNK K k \<or> e \<in> free_in g k" for e
    proof -
      have "m' e = hmem s e" using that bn o free_in_dom by (force simp: owners_def)
      then show ?thesis by (simp add: nx_def pv_def)
    qed
  qed
  have e: "give_back K c (c + z) s = s\<lparr>hmem := m', hsys := sys_madvise K A (B - A) (hsys s)\<rparr>"
    by (simp add: give_back_def Let_def A_def B_def m'_def)
  show "heap K mp cur g (give_back K c (c + z) s)"
    unfolding e using heap_sys [OF H', of "sys_madvise K A (B - A) (hsys s)"] law by (simp add: madvise_law_def)
  have cm: "maps g c = None" using HD(1) c by (auto simp: geometry_def kinds_def)
  have "untouched (live g) (hmem s) m'"
  proof (rule untouched_headers [OF HD(1) order_refl, of "{x. m' x \<noteq> hmem s x}"])
    show "nx m' e = nx (hmem s) e \<and> pv m' e = pv (hmem s) e" if "e \<in> fst ` live g" for e
    proof -
      have "m' e = hmem s e" using that live_owner o by force
      then show ?thesis by (simp add: nx_def pv_def)
    qed
    show "x \<in> owners g \<or> (\<exists>i<64. x = BIN_TO_CHUNK K i) \<or> (\<exists>a\<in>owners g. unat x \<in> block_bytes g a \<and> a \<notin> fst ` live g)"
      if "x \<in> {x. m' x \<noteq> hmem s x}" for x
    proof -
      have "unat x \<in> block_bytes g c" using that out [of x] reg_blk [OF c] by auto
      moreover have "c \<notin> fst ` live g" using c cm by (auto simp: live_def)
      ultimately show ?thesis using reg_blk [OF c] by blast
    qed
  qed simp
  then show "untouched (live g) (hmem s) (hmem (give_back K c (c + z) s))" by (simp add: e)
qed

text \<open>What the system calls do to the mappings and the break.\<close>

definition munmap_law :: "'x menv \<Rightarrow> ('x \<Rightarrow> nat set) \<Rightarrow> ('x \<Rightarrow> nat) \<Rightarrow> bool" where
  "munmap_law K mp cur \<longleftrightarrow> (\<forall>a len x. mp x - {unat a ..< unat a + unat len} \<subseteq> mp (sys_munmap K a len x) \<and> cur (sys_munmap K a len x) = cur x)"

lemma range_word: "unat a + unat n \<le> 2 ^ 64 \<Longrightarrow> x - a < n \<longleftrightarrow> unat x \<in> {unat a ..< unat a + unat (n :: u64)}"
proof -
  assume b: "unat a + unat n \<le> 2 ^ 64"
  have n: "unat n < 2 ^ 64" using unsigned_less [of n, where 'a = nat] by simp
  show ?thesis
  proof (cases "a \<le> x")
    case True
    then have "unat (x - a) = unat x - unat a" by (simp add: unat_sub)
    then show ?thesis using True by (auto simp: word_less_nat_alt word_le_nat_alt)
  next
    case False
    have "unat (x - a) = 2 ^ 64 + unat x - unat a" using False unat_sub_if' [of x a] by (simp add: word_le_nat_alt)
    then show ?thesis using False b by (auto simp: word_less_nat_alt word_le_nat_alt)
  qed
qed

lemma mapD:
  assumes "geometry K m P g" "maps g c = Some z"
  shows "blk g c = None" "c \<notin> ends g" "c \<in> dom m" "32 \<le> unat z" "z AND 1 = 0" "unat c mod 32 = 16" "unat c + unat z < 2 ^ 64"
    "block_bytes g c = {unat c - 16 ..< unat c + unat z}" "c \<in> owners g"
proof -
  have k: "kinds m g" using assms(1) by (simp add: geometry_def)
  then show b: "blk g c = None" "c \<notin> ends g" using assms(2) unfolding kinds_def by (metis IntI UnCI domI domIff empty_iff)+
  show "c \<in> dom m" "32 \<le> unat z" "z AND 1 = 0" "unat c mod 32 = 16" "unat c + unat z < 2 ^ 64"
    using k assms(2) unfolding kinds_def by blast+
  show "block_bytes g c = {unat c - 16 ..< unat c + unat z}" using b assms(2) by (simp add: block_bytes_def)
  show "c \<in> owners g" using assms(2) by (auto simp: owners_def)
qed

definition unmap :: "ghost \<Rightarrow> addr \<Rightarrow> ghost" where
  "unmap g c = g\<lparr>maps := (maps g)(c := None)\<rparr>"

lemma unmap_simps [simp]: "blk (unmap g c) = blk g" "ends (unmap g c) = ends g" "lists (unmap g c) = lists g"
  "maps (unmap g c) = (maps g)(c := None)"
  by (simp_all add: unmap_def)

lemma unmap_ok:
  assumes H: "heap K mp cur g s" and c: "maps g c = Some z" and law: "munmap_law K mp cur"
  defines "m' \<equiv> unmapped (c - 16) (z + 16) (hmem s)"
  shows "heap K mp cur (unmap g c) (s\<lparr>hmem := m', hsys := sys_munmap K (c - 16) (z + 16) (hsys s)\<rparr>)"
    "untouched (live g - {(c, z)}) (hmem s) m'" "live (unmap g c) = live g - {(c, z)}"
proof -
  note HD = heapD [OF H]
  note M = mapD [OF HD(1) c]
  define x' where "x' = sys_munmap K (c - 16) (z + 16) (hsys s)"
  have "16 \<le> unat c" using M(6) by (metis mod_less_eq_dividend)
  then have u: "unat (c - 16) = unat c - 16" "unat (z + 16) = unat z + 16" "16 \<le> unat c"
    using M(7) unat_plus [of z 16] by (simp_all add: unat_sub word_le_nat_alt)
  have r: "{unat (c - 16) ..< unat (c - 16) + unat (z + 16)} = block_bytes g c" using u M(8) by auto
  have m': "m' x = (if unat x \<in> block_bytes g c then None else hmem s x)" for x
  proof -
    have "x - (c - 16) < z + 16 \<longleftrightarrow> unat x \<in> block_bytes g c" unfolding r [symmetric] by (rule range_word) (use u M(7) in simp)
    then show ?thesis by (simp add: m'_def unmapped_def)
  qed
  have o': "owners (unmap g c) = owners g - {c}" using M(1,2) by (auto simp: owners_def)
  have r': "block_bytes (unmap g c) e = block_bytes g e" if "e \<noteq> c" for e
    unfolding block_bytes_def unmap_simps fun_upd_other [OF that] ..
  have out: "block_bytes g e \<inter> block_bytes g c = {}" if "e \<in> owners g" "e \<noteq> c" for e using owner_unique [OF HD(1) that(1) M(9)] that(2) by blast
  have cell: "m' e = hmem s e" if "e \<in> owners g" "e \<noteq> c" for e using out [OF that] owner_byte [OF HD(1) that(1)] by (auto simp: m')
  have P: "mp (hsys s) - block_bytes g c \<subseteq> mp x'" "cur x' = cur (hsys s)" using law r unfolding munmap_law_def x'_def by metis+
  have bn: "m' (BIN_TO_CHUNK K k) = hmem s (BIN_TO_CHUNK K k)" if "k < 64" for k
    using HD(1) M(9) that unfolding geometry_def bins_apart_def by (simp add: m')
  have b2: "f \<in> dom m'" if "blk g e = Some (y, w)" "unat f \<in> span e y" "32 dvd unat f - unat e" for e y w f
  proof -
    have "f \<in> dom (hmem s)" using HD(1) that unfolding geometry_def shape_def by blast
    moreover have "e \<noteq> c" using that M(1) by auto
    then have "unat f \<notin> block_bytes g c" using out [of e] reg_blk [OF that(1)] that(2) by auto
    ultimately show ?thesis by (auto simp: m')
  qed
  have "shape m' (unmap g c)" using HD(1) b2 unfolding geometry_def shape_def by simp
  moreover have "kinds m' (unmap g c)"
  proof -
    have k: "kinds (hmem s) g" using HD(1) by (simp add: geometry_def)
    have dm: "e \<in> dom m'" if "e \<in> ends g \<or> e \<noteq> c \<and> maps g e \<noteq> None" for e
    proof -
      have "e \<in> dom (hmem s)" using k that unfolding kinds_def by blast
      moreover have "e \<in> owners g \<and> e \<noteq> c" using that M(2) by (auto simp: owners_def)
      ultimately show ?thesis using cell by (simp add: dom_def)
    qed
    have "dom (maps g) \<inter> (dom (blk g) \<union> ends g) = {}" using k unfolding kinds_def by (elim conjE)
    then have "dom (maps (unmap g c)) \<inter> (dom (blk g) \<union> ends g) = {}" by auto
    moreover have "ends g \<subseteq> dom m'" using dm by blast
    moreover have "\<forall>e y. maps (unmap g c) e = Some y \<longrightarrow>
        e \<in> dom m' \<and> y \<noteq> 0 \<and> 32 \<le> unat y \<and> y AND 1 = 0 \<and> unat e mod 32 = 16 \<and> unat e + unat y < 2 ^ 64"
    proof (intro allI impI)
      fix e y assume "maps (unmap g c) e = Some y"
      then have e: "e \<noteq> c" "maps g e = Some y" by (auto split: if_splits)
      then have "e \<in> dom m'" using dm [of e] by simp
      then show "e \<in> dom m' \<and> y \<noteq> 0 \<and> 32 \<le> unat y \<and> y AND 1 = 0 \<and> unat e mod 32 = 16 \<and> unat e + unat y < 2 ^ 64"
        using mapD [OF HD(1) e(2)] by auto
    qed
    ultimately show ?thesis using k unfolding kinds_def unmap_simps(1,2) by (elim conjE) (intro conjI; assumption)
  qed
  moreover have "apart_blocks (mp x') (unmap g c)"
    unfolding apart_blocks_def
  proof (intro ballI conjI impI)
    fix a assume a: "a \<in> owners (unmap g c)"
    have "block_bytes g a \<subseteq> mp (hsys s)" using a HD(1) by (simp add: o' geometry_def apart_blocks_def)
    then show "block_bytes (unmap g c) a \<subseteq> mp x'" using a out [of a] r' [of a] P by (auto simp: o')
    fix b assume "b \<in> owners (unmap g c)" "a \<noteq> b"
    then show "block_bytes (unmap g c) a \<inter> block_bytes (unmap g c) b = {}" using a owner_unique [OF HD(1), of a b] by (auto simp: o' r')
  qed
  moreover have "bins_apart K m' (mp x') (unmap g c)"
  proof -
    have B: "(\<forall>i<64. BIN_TO_CHUNK K i \<in> dom (hmem s) \<and> (\<forall>a\<in>owners g. unat (BIN_TO_CHUNK K i) \<notin> block_bytes g a)) \<and> (\<forall>c\<in>dom (hmem s). unat c \<in> mp (hsys s))"
      using HD(1) by (simp add: geometry_def bins_apart_def)
    have "BIN_TO_CHUNK K i \<in> dom m'" if "i < 64" for i using B that bn [OF that] by (simp add: dom_def)
    moreover have "unat e \<in> mp x'" if "e \<in> dom m'" for e
    proof -
      have "unat e \<notin> block_bytes g c" "e \<in> dom (hmem s)" using that by (auto simp: m' split: if_splits)
      then show ?thesis using B P by blast
    qed
    ultimately show ?thesis using B unfolding bins_apart_def by (auto simp: o' r')
  qed
  ultimately have G: "geometry K m' (mp x') (unmap g c)" by (simp add: geometry_def)
  have bo: "e \<in> owners g \<and> e \<noteq> c" if "e \<in> dom (blk g) \<union> ends g" for e using that M(1,2) by (auto simp: owners_def)
  have tg: "tags m' (unmap g c)"
  proof -
    note D = tagsD [OF HD(2)]
    have v: "cz m' e = cz (hmem s) e \<and> pz m' e = pz (hmem s) e" if "e \<in> owners g" "e \<noteq> c" for e using cell [OF that] by (simp add: cz_def pz_def)
    have 1: "cz m' e = tag y w \<and> pz m' (e + y) = tag y w" if "blk (unmap g c) e = Some (y, w)" for e y w
    proof -
      have b: "blk g e = Some (y, w)" using that by simp
      have "e \<in> owners g \<and> e \<noteq> c" using b bo [of e] by auto
      moreover have "e + y \<in> owners g \<and> e + y \<noteq> c" using bo geometry_block(4) [OF HD(1) b] by blast
      ultimately show ?thesis using D(1,2) [OF b] v by simp
    qed
    have 2: "cz m' e = 1" if "e \<in> ends (unmap g c)" for e using that D(3) v bo by simp
    have 3: "blk (unmap g c) (e - pz m' e) = Some (pz m' e, False)"
      if "e \<in> dom (blk (unmap g c)) \<union> ends (unmap g c)" "pz m' e AND 1 = 0" for e
      using that D(4) v bo by simp
    have 5: "cz m' e = y \<and> pz m' e = 16" if "maps (unmap g c) e = Some y" for e y
      using that D(6,7) v [of e] by (auto simp: owners_def split: if_splits)
    show ?thesis unfolding tags_def using 1 2 3 D(5) 5 by simp blast
  qed
  have bi: "bins K m' (hbinmap s) (unmap g c)"
  proof (rule bins_cong [OF HD(3)])
    show "nx m' e = nx (hmem s) e \<and> pv m' e = pv (hmem s) e" if "\<exists>k<64. e = BIN_TO_CHUNK K k \<or> e \<in> free_in g k" for e
    proof -
      have "m' e = hmem s e" using that bn cell bo free_in_dom by blast
      then show ?thesis by (simp add: nx_def pv_def)
    qed
  qed (simp_all add: free_in_def)
  show "heap K mp cur (unmap g c) (s\<lparr>hmem := m', hsys := sys_munmap K (c - 16) (z + 16) (hsys s)\<rparr>)"
    using H G tg bi P(2) by (simp add: heap_def x'_def)
  show "live (unmap g c) = live g - {(c, z)}" using c M(1) by (auto simp: live_def split: if_splits)
  show "untouched (live g - {(c, z)}) (hmem s) m'"
  proof (rule untouched_headers [OF HD(1), of _ "{x. unat x \<in> block_bytes g c}"])
    have n: "c \<notin> fst ` (live g - {(c, z)})" using c M(1) by (auto simp: live_def)
    show "nx m' e = nx (hmem s) e \<and> pv m' e = pv (hmem s) e" if "e \<in> fst ` (live g - {(c, z)})" for e
    proof -
      have "e \<in> owners g" "e \<noteq> c" using that n live_owner by (force, blast)
      from cell [OF this] show ?thesis by (simp add: nx_def pv_def)
    qed
    show "x \<in> owners g \<or> (\<exists>i<64. x = BIN_TO_CHUNK K i) \<or> (\<exists>a\<in>owners g. unat x \<in> block_bytes g a \<and> a \<notin> fst ` (live g - {(c, z)}))"
      if "x \<in> {x. unat x \<in> block_bytes g c}" for x
      using that n M(9) by blast
  qed (auto simp: m')
qed

section \<open>\<open>free\<close> and \<open>trim\<close>\<close>

lemma CHUNK_MEM [simp]: "MEM_TO_CHUNK (CHUNK_TO_MEM c) = c"
  by (simp add: MEM_TO_CHUNK_def CHUNK_TO_MEM_def)

lemma mfree_block:
  assumes H: "heap K mp cur g s" and c: "blk g c = Some (z, True)" and law: "madvise_law K mp cur"
  shows "\<exists>s' g'. mfree K (CHUNK_TO_MEM c) s = Some s' \<and> heap K mp cur g' s' \<and> live g' = live g - {(c, z)} \<and>
    untouched (live g - {(c, z)}) (hmem s) (hmem s')"
proof -
  note HD = heapD [OF H]
  have gc: "good c z" "c \<in> dom (hmem s)" "c + z \<in> dom (hmem s)" using geometry_block [OF HD(1) c] by blast+
  have p0: "CHUNK_TO_MEM c \<noteq> 0"
  proof
    assume "CHUNK_TO_MEM c = 0"
    then have "c = - 16" by (simp add: CHUNK_TO_MEM_def OVERHEAD_def eq_neg_iff_add_eq_0)
    moreover have "32 \<le> unat z" using goodD(1,2) [OF gc(1)] unfolding sized_def by (intro dvd_imp_le) (auto simp: unat_gt_0)
    ultimately show False using goodD(3) [OF gc(1)] by simp
  qed
  have k: "cz (hmem s) c = tag z True" "pz (hmem s) (c + z) = tag z True" using tagsD(1,2) [OF HD(2) c] by auto
  have kz: "tag z True AND C_INUSE \<noteq> 0" "tag z True AND - 2 = z" using tag_simps(1,2) [OF goodD(1) [OF gc(1)], of True] by simp_all
  have r: "get_csize c s = Some (tag z True)" "CHUNK_SIZE c s = Some z" "NEXT_CHUNK c s = Some (c + z)" "get_psize (c + z) s = Some (tag z True)"
    using gc k kz(2) by (simp_all add: field_eqs)
  define U where "U = live g - {(c, z)}"
  obtain b F r' s1 g1 where L: "free_loop K c (c + z) z z False s = Some (b, b + F, F, r', bin_index F, s1)" "heap K mp cur g1 s1"
      "blk g1 b = Some (F, True)" "live g1 = insert (b, F) U" "(b, F) \<notin> U" "r' \<longrightarrow> RECLAIM < F"
      "path (nx (hmem s1)) (pv (hmem s1)) (BIN_TO_CHUNK K (bin_index F)) (lists g1 (bin_index F)) (BIN_TO_CHUNK K (bin_index F))"
      "pz (hmem s1) b AND 1 \<noteq> 0" "cz (hmem s1) (b + F) AND 1 \<noteq> 0" "hsys s1 = hsys s" "untouched U (hmem s) (hmem s1)"
    unfolding U_def using free_loop_ok [OF H c] by blast
  obtain s2 where R: "release K b (b + F) F (bin_index F) s1 = Some s2" "heap K mp cur (given g1 b F) s2"
      "untouched (live g1 - {(b, F)}) (hmem s1) (hmem s2)"
    using release_ok [OF L(2,3) refl L(7-9)] by blast
  have lg: "live (given g1 b F) = U" using live_given [OF heapD(1) [OF L(2)] L(3)] L(4,5) by auto
  have "live g1 - {(b, F)} = U" using L(4,5) by auto
  then have u2: "untouched U (hmem s) (hmem s2)" using untouched_trans [OF L(11)] R(3) by simp
  define s3 where "s3 = (if r' then give_back K b (b + F) s2 else s2)"
  have "heap K mp cur (given g1 b F) s3" "untouched U (hmem s2) (hmem s3)"
    using give_back_ok [OF R(2) _ _ law, of b F] L(6) R(2) untouched_refl by (auto simp: s3_def lg)
  moreover have "mfree K (CHUNK_TO_MEM c) s = Some s3"
    using p0 r kz L(1) R(1) by (simp add: mfree_def s3_def)
  ultimately show ?thesis using untouched_trans [OF u2] lg unfolding U_def by blast
qed

lemma mfree_map:
  assumes H: "heap K mp cur g s" and c: "maps g c = Some z" and law: "munmap_law K mp cur"
  shows "\<exists>s' g'. mfree K (CHUNK_TO_MEM c) s = Some s' \<and> heap K mp cur g' s' \<and> live g' = live g - {(c, z)} \<and>
    untouched (live g - {(c, z)}) (hmem s) (hmem s')"
proof -
  note HD = heapD [OF H]
  note M = mapD [OF HD(1) c]
  have p0: "CHUNK_TO_MEM c \<noteq> 0"
  proof
    assume "CHUNK_TO_MEM c = 0"
    then have "c = - 16" by (simp add: CHUNK_TO_MEM_def OVERHEAD_def eq_neg_iff_add_eq_0)
    then show False using M(4,7) by simp
  qed
  have k: "cz (hmem s) c = z" "pz (hmem s) c = 16" using tagsD(6,7) [OF HD(2) c] by auto
  have "mfree K (CHUNK_TO_MEM c) s =
      Some (s\<lparr>hmem := unmapped (c - 16) (z + 16) (hmem s), hsys := sys_munmap K (c - 16) (z + 16) (hsys s)\<rparr>)"
    using p0 k M(3,5) even_or(3) [OF M(5)] by (simp add: mfree_def field_eqs C_INUSE_def Let_def)
  then show ?thesis using unmap_ok [OF H c law] by auto
qed

lemma mfree_ok:
  assumes "heap K mp cur g s" "(c, z) \<in> live g" "madvise_law K mp cur" "munmap_law K mp cur"
  shows "\<exists>s' g'. mfree K (CHUNK_TO_MEM c) s = Some s' \<and> heap K mp cur g' s' \<and> live g' = live g - {(c, z)} \<and>
    untouched (live g - {(c, z)}) (hmem s) (hmem s')"
  using assms mfree_block mfree_map unfolding live_def by blast

lemma trim_ok:
  assumes H: "heap K mp cur g s" and c: "blk g c = Some (z, True)" and n: "sized n" "n \<noteq> 0" "n \<le> z" and law: "madvise_law K mp cur"
  shows "\<exists>s' g'. trim K c n s = Some s' \<and> heap K mp cur g' s' \<and> live g' = insert (c, n) (live g - {(c, z)}) \<and>
    untouched (live g - {(c, z)}) (hmem s) (hmem s')"
proof -
  note HD = heapD [OF H]
  have gc: "good c z" "c \<in> dom (hmem s)" "c + z \<in> dom (hmem s)" using geometry_block [OF HD(1) c] by blast+
  have k: "cz (hmem s) c = tag z True" using tagsD(1) [OF HD(2) c] .
  have kz: "tag z True AND - 2 = z" using tag_simps(2) [OF goodD(1) [OF gc(1)]] .
  have r: "CHUNK_SIZE c s = Some z" "NEXT_CHUNK c s = Some (c + z)" using gc k kz by (simp_all add: field_eqs)
  have mc: "maps g c = None" using HD(1) c by (auto simp: geometry_def kinds_def)
  obtain i j where ij: "unat z = 32 * i" "unat n = 32 * j" using goodD(1) [OF gc(1)] n(1) by (auto simp: sized_def dvd_def)
  have le: "unat n \<le> unat z" using n(3) by (simp add: word_le_nat_alt)
  have "z \<noteq> 0" using goodD(2) [OF gc(1)] .
  then have "32 \<le> unat z" using ij(1) unat_gt_0 [of z] by (cases i) auto
  then have d: "unat (z - DONTCARE) = unat z - 16" by (subst unat_sub) (simp_all add: DONTCARE_def word_le_nat_alt)
  show ?thesis
  proof (cases "n = z")
    case True
    then have "trim K c n s = Some s" using r d by (simp add: trim_def word_le_nat_alt)
    moreover have "live g = insert (c, n) (live g - {(c, z)})" using True c by (auto simp: live_def)
    ultimately show ?thesis using H untouched_refl by blast
  next
    case False
    then have "unat n \<noteq> unat z" using word_unat_eq_iff by blast
    then have "j < i" using le ij by simp
    then have lt: "n < z" "\<not> z - DONTCARE \<le> n" using ij d by (simp_all add: word_less_nat_alt word_le_nat_alt)
    define m' where "m' = cut_mem (hmem s) c n z"
    have dn: "c + n \<notin> owners g" "c + n \<in> dom (hmem s)" using inside_not_owner [OF HD(1) c n(1,2) lt(1)] by simp_all
    have H': "heap K mp cur (cut g c n z) (s\<lparr>hmem := m'\<rparr>)" using heap_cut [OF H c n(1,2) lt(1)] by (simp add: m'_def)
    have b': "blk (cut g c n z) (c + n) = Some (z - n, True)" by simp
    have L: "live (cut g c n z) = live g - {(c, z)} \<union> {(c, n), (c + n, z - n)}" using live_cut [OF HD(1) c n(1,2) lt(1)] .
    obtain s' g' where f: "mfree K (CHUNK_TO_MEM (c + n)) (s\<lparr>hmem := m'\<rparr>) = Some s'" "heap K mp cur g' s'"
        "live g' = live (cut g c n z) - {(c + n, z - n)}" "untouched (live (cut g c n z) - {(c + n, z - n)}) m' (hmem s')"
      using mfree_block [OF H' b' law] by auto
    have "c + n \<noteq> c" using n(2) by simp
    moreover have "(c + n, x) \<notin> live g" for x using dn(1) live_owner by blast
    ultimately have lg: "live g' = insert (c, n) (live g - {(c, z)})" unfolding f(3) L by auto
    have "trim K c n s = Some s'"
      using lt(2) r gc dn(2) f(1) by (simp add: trim_def field_eqs m'_def cut_mem_def tag_def)
    moreover have "untouched (live g - {(c, z)}) m' (hmem s')"
      by (rule untouched_mono [OF f(4)]) (simp only: f(3) [symmetric] lg subset_insertI)
    then have "untouched (live g - {(c, z)}) (hmem s) (hmem s')"
      unfolding m'_def by (rule untouched_trans [OF untouched_cut [OF HD(1) c n(1,2) lt(1)]])
    ultimately show ?thesis using f(2) lg by blast
  qed
qed

end
