(* ===== verification/MallocOps.thy ===== *)
theory MallocOps
  imports MallocFree
begin

text \<open>
  \<open>malloc\<close> keeps the heap well-formed: it takes a chunk from a bin that fits, cut before it leaves the bin
  (\<open>pretrim_cut\<close>) or after (\<open>trim_ok\<close>), grows the heap (\<open>expand_heap_ok\<close>, \<open>heap_grow\<close>), or maps a block of its own
  (\<open>heap_map\<close>). The loop of \<open>malloc\<close> never goes round: a bin whose bit is set has a chunk. The laws of \<open>mmap\<close> and
  \<open>brk\<close> are hypotheses about the bytes that are mapped (\<open>mp\<close>) and about the break (\<open>cur\<close>, 0 without one).
\<close>

section \<open>Allocation from a bin\<close>

lemma bin_index_small: "sized n \<Longrightarrow> n \<noteq> 0 \<Longrightarrow> n \<le> MMAP_THRESHOLD \<Longrightarrow> bin_index n < 63"
proof -
  assume n: "sized n" "n \<noteq> 0" "n \<le> MMAP_THRESHOLD"
  have "unat n \<le> 229376" using n(3) by (simp add: MMAP_THRESHOLD_def SIZE_ALIGN_def word_le_nat_alt)
  then have "unit_bin (unat n div 32 - 1) \<le> unit_bin 7167" by (intro unit_bin_mono) linarith
  also have "\<dots> = 62" by (simp add: unit_bin_def bin_tab_def)
  finally show ?thesis using bin_index_units [OF n(1,2)] by simp
qed

lemma bin_index_0: "bin_index 0 = 63"
  by (simp add: bin_index_def Let_def word_le_nat_alt word_less_nat_alt unsigned_minus_1_eq_mask mask_eq_exp_minus_1)

definition split_off :: "ghost \<Rightarrow> addr \<Rightarrow> u64 \<Rightarrow> u64 \<Rightarrow> ghost" where
  "split_off g c n z = g\<lparr>blk := (blk g)(c \<mapsto> (n, True), c + n \<mapsto> (z - n, False)),
     lists := (lists g)(bin_index z := map (\<lambda>x. if x = c then c + n else x) (lists g (bin_index z)))\<rparr>"

lemma split_off_simps [simp]: "ends (split_off g c n z) = ends g" "maps (split_off g c n z) = maps g"
  "blk (split_off g c n z) = (blk g)(c \<mapsto> (n, True), c + n \<mapsto> (z - n, False))"
  by (simp_all add: split_off_def)

lemma pretrim_cut:
  assumes H: "heap K mp cur g s" and c: "blk g c = Some (z, False)" and j: "j = bin_index z"
    and P: "path (nx (hmem s)) (pv (hmem s)) (BIN_TO_CHUNK K j) (lists g j) (BIN_TO_CHUNK K j)"
    and n: "sized n" "n \<noteq> 0" "n < z" and b: "bin_index (z - n) = j"
    and cond: "40 \<le> j" "\<not> (j < i + 3 \<and> (j \<noteq> 63 \<or> z - n \<le> MMAP_THRESHOLD))"
  shows "\<exists>s'. pretrim c n i j s = Some (True, s') \<and> heap K mp cur (split_off g c n z) s' \<and> hsys s' = hsys s \<and>
    live (split_off g c n z) = insert (c, n) (live g) \<and> untouched (live g) (hmem s) (hmem s')"
proof -
  note HD = heapD [OF H]
  define m where "m = hmem s"
  define S where "S = BIN_TO_CHUNK K j"
  define d where "d = c + n"
  have gc: "good c z" "c \<in> dom m" "c + z \<in> dom m" "c + z \<in> dom (blk g) \<union> ends g" using geometry_block [OF HD(1) c] by (simp_all add: m_def)
  have j64: "j < 64" using bin_facts [OF j [symmetric]] goodD(1,2) [OF gc(1)] by blast
  note B = binsD [OF HD(3) j64, folded S_def m_def]
  note cs = cut_sizes [OF gc(1) n, folded d_def]
  have dn: "d \<notin> owners g" "d \<in> dom m" using inside_not_owner [OF HD(1) c n] by (simp_all add: d_def m_def)
  have S: "S \<in> dom m" "S \<notin> owners g" using bin_not_owner [OF HD(1) j64] by (simp_all add: S_def m_def)
  have dr: "unat d \<in> block_bytes g c" using reg_blk [OF c] cs(4,5) by (simp add: span_def)
  have dS: "BIN_TO_CHUNK K k \<noteq> d" if "k < 64" for k
    using HD(1) that dr reg_blk [OF c] unfolding geometry_def bins_apart_def by metis
  have cin: "c \<in> set (lists g j)" using B(3) c j by (auto simp: free_in_def)
  then obtain xs ys where L: "lists g j = xs @ c # ys" "c \<notin> set xs" by (meson split_list_first)
  have fo: "free_in g k \<subseteq> owners g" for k using free_in_dom [of g k] by (auto simp: owners_def)
  have dist: "distinct (S # xs @ c # ys)" using B(2,3) L S fo [of j] by auto
  have dd: "d \<notin> set (S # xs @ c # ys)" using dn(1) fo [of j] B(3) L dS [OF j64] by (auto simp: S_def)
  define a where "a = last (S # xs)"
  define b where "b = hd (ys @ [S])"
  note R = path_replace [OF P [folded S_def m_def, unfolded L(1)] dist dd, folded a_def b_def]
  have aX: "a \<in> insert S (free_in g j)" "b \<in> insert S (free_in g j)" "a \<noteq> c" "b \<noteq> c" "a \<noteq> d" "b \<noteq> d"
  proof -
    have "a \<in> set (S # xs)" unfolding a_def by (rule last_in_set) simp
    moreover have "b \<in> set (S # ys)" by (cases ys) (auto simp: b_def)
    ultimately show "a \<in> insert S (free_in g j)" "b \<in> insert S (free_in g j)" "a \<noteq> c" "b \<noteq> c" "a \<noteq> d" "b \<noteq> d" using B(3) L dist dd by auto
  qed
  have "free_in g j \<subseteq> dom m" using geometry_block(2) [OF HD(1)] by (auto simp: free_in_def m_def)
  then have dm: "a \<in> dom m" "b \<in> dom m" using aX S by blast+
  have nc: "d \<noteq> c" "c + z \<noteq> c" "c + z \<noteq> d" using next_neq [OF cs(1)] next_neq [OF gc(1)] next_neq [OF cs(2)] cs(6) by (simp_all add: d_def)
  define m' where "m' = set_cz (set_pz (set_cz (set_pz (set_pv (set_nx (set_nx (set_pv m d a) d b) a d) b d) d (tag n True)) d (z - n)) (c + z) (z - n)) c (tag n True)"
  have "cz m c = z" using tagsD(1) [OF HD(2) c] by (simp add: m_def tag_def)
  then have r: "cz m c AND - 2 = z" using even_or(3) [OF sized_even [OF goodD(1) [OF gc(1)]]] by simp
  have pr: "pretrim c n i j s = Some (True, s\<lparr>hmem := m'\<rparr>)"
    using gc dm dn(2) R(1,2) aX nc cond assms(8) r
    by (simp add: pretrim_def field_eqs m_def [symmetric] d_def [symmetric] m'_def tag_def Let_def insert_absorb)
  define g' where "g' = split_off g c n z"
  have d': "dom m' = dom m" using gc dm dn(2) by (auto simp: m'_def)
  have G: "geometry K m' (mp (hsys s)) g'" by (rule geometry_cut [OF HD(1) c n d' [unfolded m_def]]) (simp_all add: g'_def)
  have tg: "tags m' g'"
    by (rule tags_cut [OF HD(1,2) c n, where b = False]) (simp_all add: g'_def m'_def d_def m_def tag_def)
  have bd: "blk g d = None" using dn(1) by (auto simp: owners_def)
  have ff: "free_in g' k = (if k = j then insert d (free_in g k - {c}) else free_in g k)" for k
    using c bd nc(1) j assms(8) by (auto simp: g'_def free_in_def d_def [symmetric] split: if_splits)
  have lj: "lists g' = (lists g)(j := xs @ d # ys)"
  proof -
    have "map (\<lambda>x. if x = c then d else x) xs = xs" "map (\<lambda>x. if x = c then d else x) ys = ys"
      using dist by (auto intro!: map_idI)
    then show ?thesis using L unfolding g'_def split_off_def j [symmetric] d_def [symmetric] by simp
  qed
  have bn: "bins K m' (hbinmap s) g'"
  proof (rule bins_change [OF HD(3) j64, where X = "insert d (insert S (free_in g j))" and L = "xs @ d # ys"])
    show "path (nx m') (pv m') (BIN_TO_CHUNK K j) (xs @ d # ys) (BIN_TO_CHUNK K j)" using R(3) by (simp add: m'_def S_def)
    show "distinct (xs @ d # ys)" using dist dd by auto
    show "set (xs @ d # ys) = free_in g' j" using B(3) L dist by (auto simp: ff)
    show "nx m' e = nx (hmem s) e \<and> pv m' e = pv (hmem s) e" if "e \<notin> insert d (insert S (free_in g j))" for e
      using that aX by (auto simp: m'_def m_def)
    show "BIN_TO_CHUNK K k \<notin> insert d (insert S (free_in g j)) \<and> free_in g k \<inter> insert d (insert S (free_in g j)) = {}"
      if k: "k < 64" "k \<noteq> j" for k
    proof -
      have "d \<notin> free_in g k" using dn(1) fo by blast
      then show ?thesis using k bin_inj [of j k K] j64 bin_notin [OF HD(1)] dS by (auto simp: S_def free_in_def)
    qed
    show "free_in g' k = free_in g k" if "k \<noteq> j" for k using that by (simp add: ff)
    show "lists g' = (lists g)(j := xs @ d # ys)" by (rule lj)
    show "bit (hbinmap s) k \<longleftrightarrow> (if k = j then xs @ d # ys \<noteq> [] else bit (hbinmap s) k)" if "k < 64" for k
      using B(4) L by auto
  qed
  have mcd: "maps g c = None" "maps g d = None" using HD(1) c dn(1) by (auto simp: geometry_def kinds_def owners_def)
  have lv: "live g' = insert (c, n) (live g)"
    using mcd c bd nc(1) by (auto simp: live_def g'_def d_def [symmetric] split: if_splits)
  have cl: "c \<notin> fst ` live g" using c mcd by (auto simp: live_def)
  have "untouched (live g) (hmem s) m'"
  proof (rule untouched_headers [OF HD(1) order_refl, of "{a, b, c, d, c + z}"])
    show "m' x = hmem s x" if "x \<notin> {a, b, c, d, c + z}" for x using that by (simp add: m'_def m_def)
    show "x \<in> owners g \<or> (\<exists>i<64. x = BIN_TO_CHUNK K i) \<or> (\<exists>a\<in>owners g. unat x \<in> block_bytes g a \<and> a \<notin> fst ` live g)" if "x \<in> {a, b, c, d, c + z}" for x
    proof -
      have o: "c \<in> owners g" "c + z \<in> owners g" using c gc(4) by (auto simp: owners_def)
      have ab: "y \<in> owners g \<or> (\<exists>i<64. y = BIN_TO_CHUNK K i)" if "y \<in> insert S (free_in g j)" for y
        using that fo [of j] j64 by (auto simp: S_def)
      show ?thesis using that o ab [OF aX(1)] ab [OF aX(2)] dr cl by blast
    qed
    have "e \<noteq> a \<and> e \<noteq> b \<and> e \<noteq> d" if "(e, y) \<in> live g" for e y
    proof -
      have "e \<in> owners g" using that live_owner by blast
      then have "e \<noteq> S" "e \<noteq> d" using S dn(1) by blast+
      moreover have "e \<notin> free_in g j" using that HD(1) by (auto simp: live_def free_in_def geometry_def kinds_def)
      ultimately show ?thesis using aX by auto
    qed
    then show "nx m' e = nx (hmem s) e \<and> pv m' e = pv (hmem s) e" if "e \<in> fst ` live g" for e
      using that by (force simp: m'_def m_def)
  qed
  then show ?thesis using pr G tg bn lv H by (auto simp: heap_def g'_def m_def)
qed

section \<open>Growing the heap\<close>

definition grown :: "ghost \<Rightarrow> addr \<Rightarrow> u64 \<Rightarrow> ghost" where
  "grown g c N = g\<lparr>blk := (blk g)(c \<mapsto> (N, True)), ends := insert (c + N) (ends g - {c})\<rparr>"

lemma grown_simps [simp]: "blk (grown g c N) = (blk g)(c \<mapsto> (N, True))" "ends (grown g c N) = insert (c + N) (ends g - {c})"
  "maps (grown g c N) = maps g" "lists (grown g c N) = lists g"
  by (simp_all add: grown_def)

text \<open>The bytes \<open>R\<close> are new; the block at \<open>c\<close> lies in them, or begins at an old end.\<close>

definition fresh_block :: "nat set \<Rightarrow> nat set \<Rightarrow> cheap \<Rightarrow> ghost \<Rightarrow> addr \<Rightarrow> u64 \<Rightarrow> nat set \<Rightarrow> cheap \<Rightarrow> bool" where
  "fresh_block R P m g c N P' m' \<longleftrightarrow> R \<inter> P = {} \<and> R \<subseteq> P' \<and> P \<subseteq> P' \<and> good c N \<and> unat c + unat N + 16 \<le> 2 ^ 64 \<and>
     (c \<in> ends g \<and> {unat c + 16 ..< unat c + unat N + 16} \<subseteq> R \<and> pz m' c = pz m c \<or>
      {unat c ..< unat c + unat N + 16} \<subseteq> R \<and> pz m' c = 1) \<and>
     (\<forall>x. unat x \<in> P \<and> x \<noteq> c \<longrightarrow> m' x = m x) \<and> (\<forall>x\<in>dom m'. unat x \<in> R \<or> x \<in> dom m) \<and> dom m \<subseteq> dom m' \<and>
     (\<forall>x. unat x \<in> {unat c .. unat c + unat N} \<and> 32 dvd unat x - unat c \<longrightarrow> x \<in> dom m') \<and>
     cz m' c = tag N True \<and> pz m' (c + N) = tag N True \<and> cz m' (c + N) = 1"

lemma fresh_block_facts:
  assumes G: "geometry K m P g" and F: "fresh_block R P m g c N P' m'"
  shows "c \<notin> dom (blk g) \<union> dom (maps g)" "c + N \<notin> owners g" "c + N \<noteq> c" "unat (c + N) = unat c + unat N"
    "\<And>a. a \<in> owners g \<Longrightarrow> a \<noteq> c \<Longrightarrow> block_bytes g a \<inter> {unat c ..< unat c + unat N + 16} = {}"
    "\<And>a. a \<in> owners g \<Longrightarrow> a \<noteq> c \<Longrightarrow> m' a = m a"
    "\<And>k. k < 64 \<Longrightarrow> unat (BIN_TO_CHUNK K k) \<notin> {unat c ..< unat c + unat N + 16} \<and> m' (BIN_TO_CHUNK K k) = m (BIN_TO_CHUNK K k)"
proof -
  have gc: "good c N" using F by (simp add: fresh_block_def)
  have RP: "R \<inter> P = {}" using F by (simp add: fresh_block_def)
  have oP: "block_bytes g a \<subseteq> P" if "a \<in> owners g" for a using G that unfolding geometry_def apart_blocks_def by blast
  show u: "unat (c + N) = unat c + unat N" using good_next [OF gc] .
  show "c + N \<noteq> c" using next_neq [OF gc] .
  have cases: "c \<in> ends g \<and> {unat c + 16 ..< unat c + unat N + 16} \<subseteq> R \<or> {unat c ..< unat c + unat N + 16} \<subseteq> R"
    using F unfolding fresh_block_def by blast
  have N32: "32 \<le> unat N" using goodD(1,2) [OF gc] unfolding sized_def by (intro dvd_imp_le) (auto simp: unat_gt_0)
  have kd: "ends g \<inter> dom (blk g) = {}" "dom (maps g) \<inter> (dom (blk g) \<union> ends g) = {}" using G by (simp_all add: geometry_def kinds_def)
  have re: "block_bytes g c = span c 16" if "c \<in> ends g" using that kd by (auto simp: block_bytes_def split: option.splits)
  have notin: "a \<notin> owners g" if "unat a \<in> R" for a using owner_byte [OF G, of a] oP [of a] that RP by blast
  show "c \<notin> dom (blk g) \<union> dom (maps g)"
  proof (cases "c \<in> ends g")
    case True
    then show ?thesis using kd by blast
  next
    case False
    then have "unat c \<in> R" using cases by auto
    then show ?thesis using notin [of c] by (auto simp: owners_def)
  qed
  have "unat (c + N) \<in> R" using cases u N32 by auto
  then show "c + N \<notin> owners g" by (rule notin)
  show disj: "block_bytes g a \<inter> {unat c ..< unat c + unat N + 16} = {}" if a: "a \<in> owners g" "a \<noteq> c" for a
  proof (cases "c \<in> ends g \<and> {unat c + 16 ..< unat c + unat N + 16} \<subseteq> R")
    case True
    then have "c \<in> owners g" by (auto simp: owners_def)
    then have "block_bytes g a \<inter> block_bytes g c = {}" using owner_unique [OF G a(1)] a(2) by blast
    moreover have "{unat c ..< unat c + unat N + 16} = span c 16 \<union> {unat c + 16 ..< unat c + unat N + 16}" using N32 by (auto simp: span_def)
    ultimately show ?thesis using True re RP oP [OF a(1)] by auto
  next
    case False
    then have "{unat c ..< unat c + unat N + 16} \<subseteq> R" using cases by blast
    then show ?thesis using RP oP [OF a(1)] by blast
  qed
  have same: "m' x = m x" if "unat x \<in> P" "x \<noteq> c" for x using F that unfolding fresh_block_def by blast
  show "m' a = m a" if "a \<in> owners g" "a \<noteq> c" for a using same that owner_byte [OF G that(1)] oP by blast
  show "unat (BIN_TO_CHUNK K k) \<notin> {unat c ..< unat c + unat N + 16} \<and> m' (BIN_TO_CHUNK K k) = m (BIN_TO_CHUNK K k)" if k: "k < 64" for k
  proof -
    have b: "BIN_TO_CHUNK K k \<in> dom m" "\<And>a. a \<in> owners g \<Longrightarrow> unat (BIN_TO_CHUNK K k) \<notin> block_bytes g a"
      using G k unfolding geometry_def bins_apart_def by blast+
    have p: "unat (BIN_TO_CHUNK K k) \<in> P" using b(1) G unfolding geometry_def bins_apart_def by blast
    have n: "unat (BIN_TO_CHUNK K k) \<notin> {unat c ..< unat c + unat N + 16}"
    proof (cases "c \<in> ends g \<and> {unat c + 16 ..< unat c + unat N + 16} \<subseteq> R")
      case True
      then have "unat (BIN_TO_CHUNK K k) \<notin> span c 16" using b(2) [of c] re by (auto simp: owners_def)
      moreover have "unat (BIN_TO_CHUNK K k) \<notin> {unat c + 16 ..< unat c + unat N + 16}" using True p RP by blast
      ultimately show ?thesis by (auto simp: span_def)
    next
      case False
      then show ?thesis using cases p RP by blast
    qed
    then have "BIN_TO_CHUNK K k \<noteq> c" using N32 by auto
    then show ?thesis using n same p by blast
  qed
qed

lemma reg_grown:
  assumes G: "geometry K m P g" and F: "fresh_block R P m g c N P' m'"
  shows "block_bytes (grown g c N) c = span c N" "block_bytes (grown g c N) (c + N) = span (c + N) 16"
    "a \<noteq> c \<Longrightarrow> a \<noteq> c + N \<Longrightarrow> block_bytes (grown g c N) a = block_bytes g a"
    "owners (grown g c N) = insert c (insert (c + N) (owners g))"
proof -
  note X = fresh_block_facts [OF G F]
  show "block_bytes (grown g c N) c = span c N" by (simp add: block_bytes_def)
  have "blk g (c + N) = None" using X(2) by (auto simp: owners_def)
  then show "block_bytes (grown g c N) (c + N) = span (c + N) 16" using X(3) by (simp add: block_bytes_def)
  show "block_bytes (grown g c N) a = block_bytes g a" if "a \<noteq> c" "a \<noteq> c + N"
  proof -
    have "blk (grown g c N) a = blk g a" "a \<in> ends (grown g c N) \<longleftrightarrow> a \<in> ends g" using that by simp_all
    then show ?thesis unfolding block_bytes_def grown_simps(3) by simp
  qed
  show "owners (grown g c N) = insert c (insert (c + N) (owners g))" by (auto simp: owners_def)
qed

lemma geometry_grow:
  assumes G: "geometry K m P g" and F: "fresh_block R P m g c N P' m'"
  shows "geometry K m' P' (grown g c N)"
proof -
  note X = fresh_block_facts [OF G F]
  note Rg = reg_grown [OF G F]
  have gc: "good c N" "unat c + unat N + 16 \<le> 2 ^ 64" "R \<inter> P = {}" "R \<subseteq> P'" "P \<subseteq> P'" "dom m \<subseteq> dom m'"
    and cells: "\<And>x. unat x \<in> {unat c .. unat c + unat N} \<Longrightarrow> 32 dvd unat x - unat c \<Longrightarrow> x \<in> dom m'"
    and dm: "\<And>x. x \<in> dom m' \<Longrightarrow> unat x \<in> R \<or> x \<in> dom m"
    using F unfolding fresh_block_def by blast+
  have N32: "32 dvd unat N" using goodD(1) [OF gc(1)] by (simp add: sized_def)
  have new: "{unat c ..< unat c + unat N + 16} = span c N \<union> span (c + N) 16" "span c N \<inter> span (c + N) 16 = {}"
    using X(4) by (auto simp: span_def)
  have eP: "block_bytes g c \<subseteq> P" if "c \<in> ends g" using that G unfolding geometry_def apart_blocks_def by (auto simp: owners_def)
  have kd: "ends g \<inter> dom (blk g) = {}" "dom (maps g) \<inter> (dom (blk g) \<union> ends g) = {}" using G by (simp_all add: geometry_def kinds_def)
  have inP: "{unat c ..< unat c + unat N + 16} \<subseteq> P'"
  proof (cases "c \<in> ends g \<and> {unat c + 16 ..< unat c + unat N + 16} \<subseteq> R")
    case True
    then have "block_bytes g c = span c 16" using kd by (auto simp: block_bytes_def split: option.splits)
    then have "span c 16 \<subseteq> P'" using eP True gc(5) by blast
    moreover have "x \<in> span c 16 \<or> x \<in> {unat c + 16 ..< unat c + unat N + 16}" if "x \<in> {unat c ..< unat c + unat N + 16}" for x
      using that by (auto simp: span_def)
    ultimately show ?thesis using True gc(4) by blast
  next
    case False
    then have "{unat c ..< unat c + unat N + 16} \<subseteq> R" using F unfolding fresh_block_def by blast
    then show ?thesis using gc(4) by blast
  qed
  have "shape m' (grown g c N)"
    unfolding shape_def
  proof (intro allI impI)
    fix e x w assume e: "blk (grown g c N) e = Some (x, w)"
    show "good e x \<and> e + x \<in> dom (blk (grown g c N)) \<union> ends (grown g c N) \<and> (\<forall>y. unat y \<in> span e x \<and> 32 dvd unat y - unat e \<longrightarrow> y \<in> dom m')"
    proof (cases "e = c")
      case True
      then show ?thesis using e gc(1) cells by (auto simp: span_def)
    next
      case False
      then have o: "blk g e = Some (x, w)" using e by simp
      then have "good e x \<and> e + x \<in> dom (blk g) \<union> ends g \<and> (\<forall>y. unat y \<in> span e x \<and> 32 dvd unat y - unat e \<longrightarrow> y \<in> dom m)"
        using G unfolding geometry_def shape_def by blast
      moreover from this have "e + x \<in> dom (blk (grown g c N)) \<union> ends (grown g c N)" by auto
      ultimately show ?thesis using gc(6) by blast
    qed
  qed
  moreover have "kinds m' (grown g c N)"
  proof -
    have k: "kinds m g" using G by (simp add: geometry_def)
    have 1: "ends (grown g c N) \<inter> dom (blk (grown g c N)) = {}" using kd X(2,3) by (auto simp: owners_def)
    have 2: "dom (maps (grown g c N)) \<inter> (dom (blk (grown g c N)) \<union> ends (grown g c N)) = {}"
      using kd X(1,2) by (auto simp: owners_def)
    have "c + N \<in> dom m'" using cells [of "c + N"] X(4) N32 by simp
    moreover have "ends g \<subseteq> dom m'" using k gc(6) unfolding kinds_def by blast
    ultimately have 3: "ends (grown g c N) \<subseteq> dom m'" unfolding grown_simps by blast
    have 4: "\<forall>e\<in>ends (grown g c N). unat e + 16 \<le> 2 ^ 64"
      using k X(4) gc(2) unfolding kinds_def grown_simps by auto
    have 5: "\<forall>e z. maps (grown g c N) e = Some z \<longrightarrow>
        e \<in> dom m' \<and> z \<noteq> 0 \<and> 32 \<le> unat z \<and> z AND 1 = 0 \<and> unat e mod 32 = 16 \<and> unat e + unat z < 2 ^ 64"
      using k gc(6) unfolding grown_simps kinds_def by blast
    show ?thesis unfolding kinds_def using 1 2 3 4 5 by blast
  qed
  moreover have "apart_blocks P' (grown g c N)"
  proof -
    have old: "block_bytes g a \<subseteq> P'" "block_bytes g a \<inter> span c N = {}" "block_bytes g a \<inter> span (c + N) 16 = {}" if "a \<in> owners g" "a \<noteq> c" for a
      using X(5) [OF that] new(1) G that gc(5) unfolding geometry_def apart_blocks_def by blast+
    show ?thesis
      unfolding apart_blocks_def
    proof (intro ballI conjI impI)
      fix a assume a: "a \<in> owners (grown g c N)"
      consider "a = c" | "a = c + N" | "a \<noteq> c" "a \<noteq> c + N" "a \<in> owners g" using a Rg(4) by blast
      note ca = this
      from ca show "block_bytes (grown g c N) a \<subseteq> P'" using Rg inP new(1) old(1) by cases auto
      fix b assume b: "b \<in> owners (grown g c N)" "a \<noteq> b"
      consider "b = c" | "b = c + N" | "b \<noteq> c" "b \<noteq> c + N" "b \<in> owners g" using b(1) Rg(4) by blast
      then show "block_bytes (grown g c N) a \<inter> block_bytes (grown g c N) b = {}"
      proof cases
        case b1: 1
        from ca show ?thesis
        proof cases
          case 3
          then show ?thesis using old(2) [of a] Rg(1) Rg(3) [OF 3(1,2)] b1 by simp
        qed (use b(2) b1 Rg(1,2) new(2) in auto)
      next
        case b2: 2
        from ca show ?thesis
        proof cases
          case 3
          then show ?thesis using old(3) [of a] Rg(2) Rg(3) [OF 3(1,2)] b2 by simp
        qed (use b(2) b2 Rg(1,2) new(2) in auto)
      next
        case b3: 3
        note rb = Rg(3) [OF b3(1,2)]
        from ca show ?thesis
        proof cases
          case 1
          then show ?thesis using old(2) [OF b3(3,1)] rb Rg(1) by (simp add: Int_commute)
        next
          case 2
          then show ?thesis using old(3) [OF b3(3,1)] rb Rg(2) by (simp add: Int_commute)
        next
          case 3
          then show ?thesis using owner_unique [OF G 3(3) b3(3)] rb Rg(3) [OF 3(1,2)] b(2) by blast
        qed
      qed
    qed
  qed
  moreover have "bins_apart K m' P' (grown g c N)"
    unfolding bins_apart_def
  proof (intro conjI allI impI ballI)
    fix i :: nat assume i: "i < 64"
    show "BIN_TO_CHUNK K i \<in> dom m'" using G i gc(6) unfolding geometry_def bins_apart_def by blast
    fix a assume a: "a \<in> owners (grown g c N)"
    consider "a = c" | "a = c + N" | "a \<noteq> c" "a \<noteq> c + N" "a \<in> owners g" using a Rg(4) by blast
    then show "unat (BIN_TO_CHUNK K i) \<notin> block_bytes (grown g c N) a"
    proof cases
      case 3
      then show ?thesis using G i Rg(3) unfolding geometry_def bins_apart_def by blast
    qed (use X(7) [OF i] new(1) Rg(1,2) in blast)+
  next
    fix x assume "x \<in> dom m'"
    then show "unat x \<in> P'" using dm gc(4,5) G unfolding geometry_def bins_apart_def by blast
  qed
  ultimately show ?thesis by (simp add: geometry_def)
qed

lemma heap_grow:
  assumes H: "heap K mp cur g s" and F: "fresh_block R (mp (hsys s)) (hmem s) g c N (mp (hsys s')) (hmem s')"
    and s': "hbinmap s' = hbinmap s" "hend s' = 0 \<or> hend s' - 16 \<in> ends (grown g c N)" "hstep s' \<le> 102"
      "hbrk s' = 0 \<or> 0 < cur (hsys s') \<and> cur (hsys s') \<le> unat (hbrk s') \<and> 4096 dvd unat (hbrk s')"
  shows "heap K mp cur (grown g c N) s'" "live (grown g c N) = insert (c, N) (live g)" "(c, N) \<notin> live g"
    "untouched (live g) (hmem s) (hmem s')"
proof -
  note HD = heapD [OF H]
  define m where "m = hmem s"
  define m' where "m' = hmem s'"
  note F = F [folded m_def m'_def]
  note G = HD(1) [folded m_def]
  note T = HD(2) [folded m_def]
  note X = fresh_block_facts [OF G F]
  have gc: "good c N" and v: "cz m' c = tag N True" "pz m' (c + N) = tag N True" "cz m' (c + N) = 1"
    and pc: "c \<in> ends g \<and> pz m' c = pz m c \<or> pz m' c = 1"
    using F unfolding fresh_block_def by blast+
  note D = tagsD [OF T]
  have same: "cz m' a = cz m a \<and> pz m' a = pz m a" if "a \<in> owners g" "a \<noteq> c" for a using X(6) [OF that] by (simp add: cz_def pz_def)
  have ob: "a \<in> owners g" if "a \<in> dom (blk g) \<union> ends g" for a using that by (auto simp: owners_def)
  have bc: "blk g c = None" "maps g c = None" "blk g (c + N) = None" using X(1,2) by (auto simp: owners_def)
  have old: "blk g e = Some (x, w) \<and> e \<noteq> c \<or> e = c \<and> x = N \<and> w" if "blk (grown g c N) e = Some (x, w)" for e x w
    using that by (auto split: if_splits)
  have 1: "cz m' e = tag x w \<and> pz m' (e + x) = tag x w" if e: "blk (grown g c N) e = Some (x, w)" for e x w
  proof (cases "e = c")
    case True
    then show ?thesis using e v by simp
  next
    case False
    then have o: "blk g e = Some (x, w)" using e by simp
    have en: "e + x \<in> dom (blk g) \<union> ends g" using geometry_block(4) [OF G o] .
    have "pz m' (e + x) = pz m (e + x)"
    proof (cases "e + x = c")
      case True
      have "pz m' c = pz m c"
      proof (rule ccontr)
        assume "pz m' c \<noteq> pz m c"
        then have "{unat c ..< unat c + unat N + 16} \<subseteq> R" "R \<inter> mp (hsys s) = {}" using F unfolding fresh_block_def by blast+
        moreover have "unat c \<in> mp (hsys s)" using owner_byte [OF G ob [OF en]] G ob [OF en] True unfolding geometry_def apart_blocks_def by blast
        moreover have "unat c \<in> {unat c ..< unat c + unat N + 16}" by simp
        ultimately show False by blast
      qed
      then show ?thesis using True by simp
    qed (use same ob [OF en] in blast)
    moreover have "e \<in> owners g" using o by (auto simp: owners_def)
    ultimately show ?thesis using D(1,2) [OF o] same False by simp
  qed
  have 2: "cz m' e = 1" if "e \<in> ends (grown g c N)" for e
  proof (cases "e = c + N")
    case False
    then have "e \<in> ends g" "e \<noteq> c" using that by auto
    then show ?thesis using same [of e] ob [of e] D(3) by simp
  qed (use v in simp)
  have 3: "blk (grown g c N) (e - pz m' e) = Some (pz m' e, False)"
    if e: "e \<in> dom (blk (grown g c N)) \<union> ends (grown g c N)" "pz m' e AND 1 = 0" for e
  proof -
    have "e \<noteq> c + N" using e(2) v(2) tag_simps(1) [OF goodD(1) [OF gc], of True] by (auto simp: C_INUSE_def)
    have p: "pz m' e = pz m e \<and> e \<in> dom (blk g) \<union> ends g"
    proof (cases "e = c")
      case True
      then show ?thesis using pc e(2) by auto
    next
      case False
      then have "e \<in> dom (blk g) \<union> ends g" using e(1) \<open>e \<noteq> c + N\<close> by (auto split: if_splits)
      then show ?thesis using same ob False by simp
    qed
    then have "blk g (e - pz m e) = Some (pz m e, False)" using D(4) e(2) by simp
    then show ?thesis using p bc(1) by auto
  qed
  have 4: "w" if a: "blk (grown g c N) e = Some (x, False)" "blk (grown g c N) (e + x) = Some (y, w)" for e x y w
  proof -
    have o: "blk g e = Some (x, False)" using old [OF a(1)] by blast
    show ?thesis using old [OF a(2)] D(5) [OF o] by blast
  qed
  have 5: "cz m' e = x \<and> pz m' e = 16" if "maps (grown g c N) e = Some x" for e x
  proof -
    have m: "maps g e = Some x" using that by simp
    then have "e \<in> owners g" "e \<noteq> c" using X(1) by (auto simp: owners_def)
    then show ?thesis using same D(6,7) [OF m] by simp
  qed
  have tg: "tags m' (grown g c N)" unfolding tags_def using 1 2 3 4 5 by blast
  have fi: "free_in (grown g c N) k = free_in g k" for k using bc(1) by (auto simp: free_in_def)
  have fo: "free_in g k \<subseteq> owners g" for k using free_in_dom [of g k] by (auto simp: owners_def)
  have bn: "bins K m' (hbinmap s) (grown g c N)"
  proof (rule bins_cong [OF HD(3)])
    show "nx m' e = nx (hmem s) e \<and> pv m' e = pv (hmem s) e" if "\<exists>k<64. e = BIN_TO_CHUNK K k \<or> e \<in> free_in g k" for e
    proof -
      have "c \<notin> free_in g k" for k using bc(1) by (auto simp: free_in_def)
      then have "m' e = m e" using that X(6,7) fo by blast
      then show ?thesis by (simp add: nx_def pv_def m_def)
    qed
  qed (simp_all add: fi)
  show "heap K mp cur (grown g c N) s'"
    unfolding heap_def using geometry_grow [OF G F] tg bn s' by (simp add: m'_def)
  show "live (grown g c N) = insert (c, N) (live g)" using bc by (auto simp: live_def split: if_splits)
  show "(c, N) \<notin> live g" using bc by (auto simp: live_def)
  have mp: "\<And>x. unat x \<in> mp (hsys s) \<Longrightarrow> x \<noteq> c \<Longrightarrow> m' x = m x" using F unfolding fresh_block_def by blast
  show "untouched (live g) (hmem s) (hmem s')"
    unfolding untouched_def m_def [symmetric] m'_def [symmetric]
  proof (clarify, intro conjI allI impI)
    fix e z assume l: "(e, z) \<in> live g"
    have e: "e \<in> owners g" "e \<noteq> c" using l live_owner bc by (blast, auto simp: live_def)
    show "nx m' e = nx m e" "pv m' e = pv m e" using X(6) [OF e] by (simp_all add: nx_def pv_def)
    fix x assume x: "unat x \<in> span e z \<and> x \<noteq> e"
    have r: "unat x \<in> block_bytes g e" using live_reg [OF G l] x by blast
    then have "unat x \<in> mp (hsys s)" using G e(1) unfolding geometry_def apart_blocks_def by blast
    moreover have "x \<noteq> c" using X(5) [OF e] r by auto
    ultimately show "m' x = m x" by (rule mp)
  qed
qed

section \<open>New memory\<close>

definition area :: "addr \<Rightarrow> u64 \<Rightarrow> nat set" where
  "area p n = {unat p ..< unat p + unat n}"

text \<open>
  \<open>mmap\<close> gives whole pages that were not mapped, or \<open>MAP_FAILED\<close>; there is no area beyond \<open>PTRDIFF_MAX\<close>.
  \<open>brk\<close> moves the break up to the address asked for, over memory that was not mapped, or leaves it and returns it;
  where the system has no break (\<open>cur\<close> is 0), it returns an error code.
\<close>

definition mmap_law :: "'x menv \<Rightarrow> ('x \<Rightarrow> nat set) \<Rightarrow> ('x \<Rightarrow> nat) \<Rightarrow> bool" where
  "mmap_law K mp cur \<longleftrightarrow> (\<forall>len x p x'. anon_mmap K len x = (p, x') \<longrightarrow> cur x' = cur x \<and> mp x \<subseteq> mp x' \<and>
     (p \<noteq> MAP_FAILED \<longrightarrow> len \<le> PTRDIFF_MAX \<and> p \<noteq> 0 \<and> 4096 dvd unat p \<and> unat p + unat len < 2 ^ 64 \<and>
        area p len \<inter> mp x = {} \<and> area p len \<subseteq> mp x'))"

definition brk_law :: "'x menv \<Rightarrow> ('x \<Rightarrow> nat set) \<Rightarrow> ('x \<Rightarrow> nat) \<Rightarrow> bool" where
  "brk_law K mp cur \<longleftrightarrow> (\<forall>a x r x'. sys_brk K a x = (r, x') \<longrightarrow> (a = 0 \<or> cur x \<le> unat a) \<longrightarrow> mp x \<subseteq> mp x' \<and>
     (if cur x = 0 then cur x' = 0 \<and> 2 ^ 64 - 4096 < unat r
      else if r = a \<and> cur x \<le> unat a then cur x' = unat a \<and> {cur x ..< unat a} \<inter> mp x = {} \<and> {cur x ..< unat a} \<subseteq> mp x'
      else cur x' = cur x \<and> unat r = cur x \<and> cur x + 4096 \<le> 2 ^ 64))"

lemma heap_fields:
  assumes "heap K mp cur g s" "mp (hsys s) \<subseteq> mp (hsys s')" "hmem s' = hmem s" "hbinmap s' = hbinmap s" "hend s' = hend s" "hstep s' \<le> 102"
    "hbrk s' = 0 \<or> 0 < cur (hsys s') \<and> cur (hsys s') \<le> unat (hbrk s') \<and> 4096 dvd unat (hbrk s')"
  shows "heap K mp cur g s'"
  using assms geometry_more [OF heapD(1) [OF assms(1)] assms(2)] by (simp add: heap_def)

text \<open>Rounding up to pages.\<close>

lemma page_up:
  assumes "unat n + 4095 < 2 ^ 64"
  shows "4096 dvd unat (n + (- n AND (PAGE_SIZE - 1)))" "unat n \<le> unat (n + (- n AND (PAGE_SIZE - 1)))"
    "unat (n + (- n AND (PAGE_SIZE - 1))) < unat n + 4096"
proof -
  define r where "r = unat n mod 4096"
  have "PAGE_SIZE - 1 = mask 12" by (simp add: PAGE_SIZE_def mask_eq_exp_minus_1)
  then have a: "- n AND (PAGE_SIZE - 1) = take_bit 12 (- n)" by (simp add: take_bit_eq_mask)
  have "unat (take_bit 12 (- n)) = unat (- n) mod 4096" by (simp add: take_bit_eq_mod unat_mod)
  moreover have "unat (- n) mod 4096 = (if r = 0 then 0 else 4096 - r)"
  proof (cases "n = 0")
    case False
    then have m: "unat (- n) = 2 ^ 64 - unat n" using unat_sub_if' [of 0 n] by (simp add: word_le_nat_alt unat_gt_0)
    have l: "unat n < 2 ^ 64" using unsigned_less [of n, where 'a = nat] by simp
    have e: "unat n = 4096 * (unat n div 4096) + r" by (simp add: r_def)
    define q where "q = unat n div 4096"
    have q: "unat n = 4096 * q + r" "r < 4096" using e by (simp_all add: q_def r_def)
    have ql: "q < 2 ^ 52" using q l by simp
    show ?thesis
    proof (cases "r = 0")
      case True
      then have "2 ^ 64 - unat n = 4096 * (2 ^ 52 - q)" using q by simp
      then show ?thesis using True m by simp
    next
      case False
      then have "2 ^ 64 - unat n = (4096 - r) + 4096 * (2 ^ 52 - 1 - q)" using q ql by simp
      then have "unat (- n) mod 4096 = ((4096 - r) + 4096 * (2 ^ 52 - 1 - q)) mod 4096" by (simp only: m)
      also have "\<dots> = 4096 - r" using False unfolding mod_mult_self2 by simp
      finally show ?thesis using False by simp
    qed
  qed (simp add: r_def)
  ultimately have u: "unat (- n AND (PAGE_SIZE - 1)) = (if r = 0 then 0 else 4096 - r)" using a by simp
  have r: "r < 4096" "r \<le> unat n" by (simp_all add: r_def)
  have s: "unat (n + (- n AND (PAGE_SIZE - 1))) = unat n + (if r = 0 then 0 else 4096 - r)"
    using assms r u by (subst unat_plus) auto
  have e: "unat n + (if r = 0 then 0 else 4096 - r) = (if r = 0 then unat n else unat n - r + 4096)" using r by simp
  have "4096 dvd unat n - r" unfolding r_def by (simp add: minus_mod_eq_mult_div)
  then show "4096 dvd unat (n + (- n AND (PAGE_SIZE - 1)))" unfolding s e by (cases "r = 0") (simp_all add: r_def [symmetric] dvd_add)
  show "unat n \<le> unat (n + (- n AND (PAGE_SIZE - 1)))" "unat (n + (- n AND (PAGE_SIZE - 1))) < unat n + 4096"
    unfolding s using r by auto
qed

definition brk_ok :: "('x \<Rightarrow> nat) \<Rightarrow> 'x mstate \<Rightarrow> bool" where
  "brk_ok cur s \<longleftrightarrow> hbrk s = 0 \<and> cur (hsys s) = 0 \<or> 0 < cur (hsys s) \<and> cur (hsys s) \<le> unat (hbrk s) \<and> 4096 dvd unat (hbrk s)"

definition first_brk :: "'x menv \<Rightarrow> 'x mstate \<Rightarrow> 'x mstate" where
  "first_brk K s = (if hbrk s = 0
     then let (b, x) = sys_brk K 0 (hsys s) in s\<lparr>hbrk := b + (- b AND (PAGE_SIZE - 1)), hsys := x\<rparr> else s)"

lemma first_brk_ok:
  assumes "hbrk s = 0 \<or> 0 < cur (hsys s) \<and> cur (hsys s) \<le> unat (hbrk s) \<and> 4096 dvd unat (hbrk s)" "brk_law K mp cur"
  shows "brk_ok cur (first_brk K s)" "mp (hsys s) \<subseteq> mp (hsys (first_brk K s))" "hmem (first_brk K s) = hmem s"
    "hbinmap (first_brk K s) = hbinmap s" "hend (first_brk K s) = hend s" "hstep (first_brk K s) = hstep s"
proof -
  obtain b x where bx: "sys_brk K 0 (hsys s) = (b, x)" by fastforce
  then have L: "mp (hsys s) \<subseteq> mp x" "if cur (hsys s) = 0 then cur x = 0 \<and> 2 ^ 64 - 4096 < unat b
      else cur x = cur (hsys s) \<and> unat b = cur (hsys s) \<and> cur (hsys s) + 4096 \<le> 2 ^ 64"
    using assms(2) unfolding brk_law_def by (metis, metis le_0_eq unat_0)
  show "brk_ok cur (first_brk K s)"
  proof (cases "hbrk s = 0")
    case h: True
    show ?thesis
    proof (cases "cur (hsys s) = 0")
      case True
      then have b: "2 ^ 64 - 4096 < unat b" "cur x = 0" using L(2) by simp_all
      then have "unat (- b) = 2 ^ 64 - unat b" using unat_sub_if' [of 0 b] by (simp add: word_le_nat_alt unat_gt_0)
      then have "unat (- b) < 4096" using b(1) by simp
      then have "take_bit 12 (- b) = - b" by (simp add: take_bit_eq_mod mod_word_less word_less_nat_alt)
      moreover have "PAGE_SIZE - 1 = mask 12" by (simp add: PAGE_SIZE_def mask_eq_exp_minus_1)
      ultimately have "b + (- b AND (PAGE_SIZE - 1)) = 0" by (simp add: take_bit_eq_mask)
      then show ?thesis using h b(2) bx by (simp add: first_brk_def brk_ok_def)
    next
      case False
      then have b: "cur x = cur (hsys s)" "unat b = cur (hsys s)" "cur (hsys s) + 4096 \<le> 2 ^ 64" using L(2) by simp_all
      then show ?thesis using h False bx page_up [of b] by (simp add: first_brk_def brk_ok_def)
    qed
  next
    case False
    then show ?thesis using assms(1) by (simp add: first_brk_def brk_ok_def)
  qed
  show "mp (hsys s) \<subseteq> mp (hsys (first_brk K s))" using bx L(1) by (simp add: first_brk_def)
qed (simp_all add: first_brk_def split: prod.split)

definition got_area :: "('x \<Rightarrow> nat set) \<Rightarrow> ('x \<Rightarrow> nat) \<Rightarrow> 'x mstate \<Rightarrow> addr \<Rightarrow> u64 \<Rightarrow> 'x mstate \<Rightarrow> bool" where
  "got_area mp cur s p n s' \<longleftrightarrow> p \<noteq> 0 \<and> 4096 dvd unat p \<and> 4096 dvd unat n \<and> unat p + unat n < 2 ^ 64 \<and>
     area p n \<inter> mp (hsys s) = {} \<and> area p n \<subseteq> mp (hsys s') \<and> mp (hsys s) \<subseteq> mp (hsys s') \<and> hmem s' = map_area p n (hmem s) \<and>
     hbinmap s' = hbinmap s \<and> hend s' = hend s \<and> hstep s' \<le> 102 \<and>
     (hbrk s' = 0 \<or> 0 < cur (hsys s') \<and> cur (hsys s') \<le> unat (hbrk s') \<and> 4096 dvd unat (hbrk s'))"

lemma brk_grow:
  assumes B: "brk_ok cur s" and law: "brk_law K mp cur" and n: "unat n < 2 ^ 22" "4096 dvd unat n" "0 < unat n"
    and lt: "n < SIZE_MAX - hbrk s" and r: "sys_brk K (hbrk s + n) (hsys s) = (r, x)"
  shows "r = hbrk s + n \<Longrightarrow> hstep s \<le> 102 \<Longrightarrow> got_area mp cur s (hbrk s) n (s\<lparr>hbrk := hbrk s + n, hmem := map_area (hbrk s) n (hmem s), hsys := x\<rparr>)"
    "r \<noteq> hbrk s + n \<Longrightarrow> brk_ok cur (s\<lparr>hsys := x\<rparr>) \<and> mp (hsys s) \<subseteq> mp x"
proof -
  have m: "unat (- 1 :: u64) = 2 ^ 64 - 1" by (simp add: unsigned_minus_1_eq_mask mask_eq_exp_minus_1)
  have "unat (SIZE_MAX - hbrk s) = 2 ^ 64 - 1 - unat (hbrk s)"
    unfolding SIZE_MAX_def by (subst unat_sub) (simp_all only: word_order.extremum m)
  then have "unat n < 2 ^ 64 - 1 - unat (hbrk s)" using lt by (simp add: word_less_nat_alt)
  then have u: "unat (hbrk s + n) = unat (hbrk s) + unat n" "unat (hbrk s) + unat n < 2 ^ 64" by (auto intro: unat_plus)
  have ge: "cur (hsys s) \<le> unat (hbrk s + n)" using B u(1) by (auto simp: brk_ok_def)
  have L: "mp (hsys s) \<subseteq> mp x" "if cur (hsys s) = 0 then cur x = 0 \<and> 2 ^ 64 - 4096 < unat r
      else if r = hbrk s + n then cur x = unat (hbrk s + n) \<and> {cur (hsys s) ..< unat (hbrk s + n)} \<inter> mp (hsys s) = {} \<and>
        {cur (hsys s) ..< unat (hbrk s + n)} \<subseteq> mp x
      else cur x = cur (hsys s)"
    using law r ge unfolding brk_law_def by (metis, metis)
  show "brk_ok cur (s\<lparr>hsys := x\<rparr>) \<and> mp (hsys s) \<subseteq> mp x" if "r \<noteq> hbrk s + n"
    using L B that by (auto simp: brk_ok_def split: if_splits)
  assume e: "r = hbrk s + n" and st: "hstep s \<le> 102"
  have c0: "cur (hsys s) \<noteq> 0"
  proof
    assume z: "cur (hsys s) = 0"
    then have "hbrk s = 0" using B by (simp add: brk_ok_def)
    then show False using L(2) z e n(1) by simp
  qed
  then have b: "cur (hsys s) \<le> unat (hbrk s)" "4096 dvd unat (hbrk s)" using B by (auto simp: brk_ok_def)
  have A: "area (hbrk s) n \<subseteq> {cur (hsys s) ..< unat (hbrk s + n)}" using b(1) u(1) by (auto simp: area_def)
  have "hbrk s \<noteq> 0" using c0 b(1) by auto
  moreover have "4096 dvd unat (hbrk s + n)" using u(1) b(2) n(2) by simp
  moreover have "0 < cur x" "cur x \<le> unat (hbrk s + n)" using L(2) c0 e u(1) n(3) by auto
  ultimately show "got_area mp cur s (hbrk s) n (s\<lparr>hbrk := hbrk s + n, hmem := map_area (hbrk s) n (hmem s), hsys := x\<rparr>)"
    unfolding got_area_def using A L c0 e u(2) b(2) n(2) st by auto
qed

lemma expand_pages_alt:
  "expand_pages K n s =
     (if SIZE_MAX div 2 - PAGE_SIZE < n then Some (0, n, s\<lparr>herrno := ENOMEM\<rparr>)
      else
        let n = n + (- n AND (PAGE_SIZE - 1)); s = first_brk K s; brk = hbrk s;
            (grown, s) =
              (if n < SIZE_MAX - brk \<and> \<not> traverses_stack_p K brk (brk + n)
               then let (r, x) = sys_brk K (brk + n) (hsys s) in (r = brk + n, s\<lparr>hsys := x\<rparr>)
               else (False, s))
        in if grown then Some (brk, n, s\<lparr>hbrk := brk + n, hmem := map_area brk n (hmem s)\<rparr>)
           else if 64 \<le> unat (hstep s div 2) then None
           else
             let least = push_bit (unat (hstep s div 2)) PAGE_SIZE;
                 n = (if n < least then least else n);
                 (area, x) = anon_mmap K n (hsys s)
             in if area = MAP_FAILED then Some (0, n, s\<lparr>hsys := x\<rparr>)
                else Some (area, n, s\<lparr>hsys := x, hstep := hstep s + 1, hmem := map_area area n (hmem s)\<rparr>))"
  unfolding expand_pages_def first_brk_def ..

lemma mmap_grow:
  assumes B: "brk_ok cur s" "hstep s \<le> 102" and law: "mmap_law K mp cur" and n: "4096 dvd unat n"
    and r: "anon_mmap K n (hsys s) = (p, x)" and big: "unat (push_bit (unat (hstep s div 2)) PAGE_SIZE) \<le> unat n"
  shows "p \<noteq> MAP_FAILED \<Longrightarrow> got_area mp cur s p n (s\<lparr>hsys := x, hstep := hstep s + 1, hmem := map_area p n (hmem s)\<rparr>)"
    "mp (hsys s) \<subseteq> mp x" "cur x = cur (hsys s)"
proof -
  have L: "cur x = cur (hsys s)" "mp (hsys s) \<subseteq> mp x" "p \<noteq> MAP_FAILED \<longrightarrow> n \<le> PTRDIFF_MAX \<and> p \<noteq> 0 \<and> 4096 dvd unat p \<and> unat p + unat n < 2 ^ 64 \<and>
        area p n \<inter> mp (hsys s) = {} \<and> area p n \<subseteq> mp x"
    using law r unfolding mmap_law_def by blast+
  show "mp (hsys s) \<subseteq> mp x" "cur x = cur (hsys s)" by fact+
  assume p: "p \<noteq> MAP_FAILED"
  have "hstep s \<noteq> 102"
  proof
    assume "hstep s = 102"
    then have "9223372036854775808 \<le> unat n" using big by (simp add: PAGE_SIZE_def push_bit_eq_mult)
    moreover have "unat n \<le> 9223372036854775807" using L(3) p by (simp add: PTRDIFF_MAX_def word_le_nat_alt)
    ultimately show False by simp
  qed
  then have "hstep s < 102" using B(2) by simp
  then have h: "hstep s + 1 \<le> 102" by (simp add: word_less_nat_alt word_le_nat_alt unat_plus_if')
  then show "got_area mp cur s p n (s\<lparr>hsys := x, hstep := hstep s + 1, hmem := map_area p n (hmem s)\<rparr>)"
    using B L p n unfolding got_area_def brk_ok_def by auto
qed

lemma expand_pages_ok:
  assumes H: "heap K mp cur g s" and laws: "mmap_law K mp cur" "brk_law K mp cur" and n: "unat n \<le> 2 ^ 20" "0 < unat n"
  shows "\<exists>p n' s' s1. expand_pages K n s = Some (p, n', s') \<and> heap K mp cur g s1 \<and> hmem s1 = hmem s \<and> mp (hsys s) \<subseteq> mp (hsys s1) \<and>
    hend s1 = hend s \<and> (p = 0 \<and> s' = s1 \<or> unat n \<le> unat n' \<and> got_area mp cur s1 p n' s')"
proof -
  define N where "N = n + (- n AND (PAGE_SIZE - 1))"
  have N: "4096 dvd unat N" "unat n \<le> unat N" "unat N < unat n + 4096" using page_up [of n] n(1) by (simp_all add: N_def)
  define s0 where "s0 = first_brk K s"
  have br: "hbrk s = 0 \<or> 0 < cur (hsys s) \<and> cur (hsys s) \<le> unat (hbrk s) \<and> 4096 dvd unat (hbrk s)" and st: "hstep s \<le> 102"
    using H by (simp_all add: heap_def)
  note S = first_brk_ok [OF br laws(2), folded s0_def]
  have hp: "heap K mp cur g s'" if "brk_ok cur s'" "mp (hsys s) \<subseteq> mp (hsys s')" "hmem s' = hmem s" "hbinmap s' = hbinmap s" "hend s' = hend s"
      "hstep s' = hstep s" for s'
    by (rule heap_fields [OF H that(2-5)]) (use that st in \<open>auto simp: brk_ok_def\<close>)
  have h0: "heap K mp cur g s0" using hp S by blast
  have small: "\<not> SIZE_MAX div 2 - PAGE_SIZE < n"
  proof -
    have "unat (SIZE_MAX div 2 - PAGE_SIZE) = 9223372036854771711" by (simp add: SIZE_MAX_def PAGE_SIZE_def)
    then show ?thesis using n(1) by (simp add: word_less_nat_alt)
  qed
  define cond where "cond \<longleftrightarrow> N < SIZE_MAX - hbrk s0 \<and> \<not> traverses_stack_p K (hbrk s0) (hbrk s0 + N)"
  obtain r x where rx: "sys_brk K (hbrk s0 + N) (hsys s0) = (r, x)" by fastforce
  have small2: "unat N < 2 ^ 22" "0 < unat N" using N n by simp_all
  have e: "expand_pages K n s =
      (if cond \<and> r = hbrk s0 + N then Some (hbrk s0, N, s0\<lparr>hbrk := hbrk s0 + N, hmem := map_area (hbrk s0) N (hmem s0), hsys := x\<rparr>)
       else
         let s2 = (if cond then s0\<lparr>hsys := x\<rparr> else s0)
         in if 64 \<le> unat (hstep s2 div 2) then None
           else
             let least = push_bit (unat (hstep s2 div 2)) PAGE_SIZE;
                 n = (if N < least then least else N);
                 (area, x) = anon_mmap K n (hsys s2)
             in if area = MAP_FAILED then Some (0, n, s2\<lparr>hsys := x\<rparr>)
                else Some (area, n, s2\<lparr>hsys := x, hstep := hstep s2 + 1, hmem := map_area area n (hmem s2)\<rparr>))"
    unfolding expand_pages_alt if_not_P [OF small] Let_def N_def [symmetric] s0_def [symmetric] cond_def [symmetric] rx
    by (cases cond; cases "r = hbrk s0 + N") simp_all
  show ?thesis
  proof (cases "cond \<and> r = hbrk s0 + N")
    case True
    then have "got_area mp cur s0 (hbrk s0) N (s0\<lparr>hbrk := hbrk s0 + N, hmem := map_area (hbrk s0) N (hmem s0), hsys := x\<rparr>)"
      using brk_grow(1) [OF S(1) laws(2) small2(1) N(1) small2(2) _ rx] st S(6) by (simp add: cond_def)
    then show ?thesis using e True h0 S(2,3,5) N(2) by auto
  next
    case False
    define s2 where "s2 = (if cond then s0\<lparr>hsys := x\<rparr> else s0)"
    have s2: "hmem s2 = hmem s" "hbinmap s2 = hbinmap s" "hend s2 = hend s" "hstep s2 = hstep s" using S(3-6) by (simp_all add: s2_def)
    have b2: "brk_ok cur s2" "mp (hsys s) \<subseteq> mp (hsys s2)"
      using brk_grow(2) [OF S(1) laws(2) small2(1) N(1) small2(2) _ rx] False S(1,2) by (auto simp: s2_def cond_def)
    have h2: "heap K mp cur g s2" using hp [OF b2 s2] .
    define least where "least = push_bit (unat (hstep s2 div 2)) PAGE_SIZE"
    define n' where "n' = (if N < least then least else N)"
    obtain p y where py: "anon_mmap K n' (hsys s2) = (p, y)" by fastforce
    have k: "unat (hstep s2 div 2) \<le> 51" using st s2(4) by (simp add: unat_div word_le_nat_alt)
    then have e': "expand_pages K n s = (if p = MAP_FAILED then Some (0, n', s2\<lparr>hsys := y\<rparr>)
        else Some (p, n', s2\<lparr>hsys := y, hstep := hstep s2 + 1, hmem := map_area p n' (hmem s2)\<rparr>))"
      unfolding e if_not_P [OF False] Let_def s2_def [symmetric] least_def [symmetric] n'_def [symmetric] py by simp
    have "unat least = 4096 * 2 ^ unat (hstep s2 div 2)"
    proof -
      have "(4096 :: nat) * 2 ^ unat (hstep s2 div 2) \<le> 4096 * 2 ^ 51" using k by (intro mult_le_mono2 power_increasing) auto
      then have "(4096 :: nat) * 2 ^ unat (hstep s2 div 2) < 2 ^ 64" by simp
      moreover have "least = of_nat (4096 * 2 ^ unat (hstep s2 div 2))" by (simp add: least_def PAGE_SIZE_def push_bit_eq_mult mult.commute)
      ultimately show ?thesis by (simp add: unat_of_nat take_bit_nat_eq_self del: of_nat_mult)
    qed
    then have n': "4096 dvd unat n'" "unat least \<le> unat n'" "unat n \<le> unat n'" using N by (auto simp: n'_def word_less_nat_alt)
    note M = mmap_grow [OF b2(1) _ laws(1) n'(1) py n'(2) [unfolded least_def]]
    have st2: "hstep s2 \<le> 102" using st s2(4) by simp
    show ?thesis
    proof (cases "p = MAP_FAILED")
      case True
      have "heap K mp cur g (s2\<lparr>hsys := y\<rparr>)"
        using heap_sys [OF h2] M(2,3) st2 by simp
      moreover have "expand_pages K n s = Some (0, n', s2\<lparr>hsys := y\<rparr>)" using e' True by simp
      moreover have "mp (hsys s) \<subseteq> mp (hsys (s2\<lparr>hsys := y\<rparr>))" using b2(2) M(2) [OF st2] by simp
      moreover have "hmem (s2\<lparr>hsys := y\<rparr>) = hmem s" "hend (s2\<lparr>hsys := y\<rparr>) = hend s" using s2 by simp_all
      ultimately show ?thesis by blast
    next
      case F: False
      then show ?thesis using e' M(1) [OF st2 F] h2 s2 b2(2) n'(3) by auto
    qed
  qed
qed

lemma and_31: "(x AND 31 = 0) \<longleftrightarrow> 32 dvd unat (x :: u64)"
proof -
  have "(31 :: u64) = mask 5" by (simp add: mask_eq_exp_minus_1)
  then have "x AND 31 = x mod 32" by (simp only: take_bit_eq_mask [symmetric]) (simp add: take_bit_eq_mod)
  moreover have "x mod 32 = 0 \<longleftrightarrow> unat (x mod 32) = 0" by (simp add: unat_eq_0)
  ultimately show ?thesis by (simp add: unat_mod dvd_eq_mod_eq_0)
qed

lemma map_area_cell:
  assumes "4096 dvd unat p" "4096 dvd unat N" "unat p + unat N < 2 ^ 64"
  shows "map_area p N m x = (if unat x \<in> {unat p + 16 ..< unat p + unat N} \<and> 32 dvd unat x - (unat p + 16)
    then Some \<lparr>psize = 0, csize = 0, cnext = 0, cprev = 0\<rparr> else m x)"
    "unat p + unat N + 4096 \<le> 2 ^ 64"
proof -
  have "4096 dvd unat p + unat N" using assms by simp
  then obtain k where k: "unat p + unat N = 4096 * k" by (auto simp: dvd_def)
  then have "k < 2 ^ 52" using assms(3) by simp
  then show b: "unat p + unat N + 4096 \<le> 2 ^ 64" using k by simp
  then have u: "unat (p + 16) = unat p + 16" using unat_plus [of p 16] by simp
  then have r: "x - (p + 16) < N \<longleftrightarrow> unat x \<in> {unat p + 16 ..< unat p + 16 + unat N}" using range_word [of "p + 16" N x] b by simp
  have "unat (x - (p + 16)) = unat x - (unat p + 16)" if "unat x \<in> {unat p + 16 ..< unat p + 16 + unat N}"
    using that u by (subst unat_sub) (auto simp: word_le_nat_alt)
  then have "x - (p + 16) < N \<and> (x - (p + 16)) AND 31 = 0 \<longleftrightarrow>
      unat x \<in> {unat p + 16 ..< unat p + 16 + unat N} \<and> 32 dvd unat x - (unat p + 16)"
    using r and_31 [of "x - (p + 16)"] by auto
  moreover have "unat x \<in> {unat p + 16 ..< unat p + 16 + unat N} \<and> 32 dvd unat x - (unat p + 16) \<longleftrightarrow>
      unat x \<in> {unat p + 16 ..< unat p + unat N} \<and> 32 dvd unat x - (unat p + 16)"
  proof -
    have False if h: "unat p + 16 \<le> u" "unat p + unat N \<le> u" "u < unat p + 16 + unat N" "32 dvd u - (unat p + 16)" for u
    proof -
      obtain j where "u - (unat p + 16) = 32 * j" using h(4) by (auto elim: dvdE)
      moreover have "32 dvd unat N" using assms(2) by (rule dvd_trans [rotated]) simp
      then obtain q where "unat N = 32 * q" by (auto elim: dvdE)
      ultimately have "32 * q \<le> 16 + 32 * j" "j < q" using h(1-3) by linarith+
      then show False by linarith
    qed
    from this [of "unat x"] show ?thesis by (cases "unat p + unat N \<le> unat x") auto
  qed
  ultimately show "map_area p N m x = (if unat x \<in> {unat p + 16 ..< unat p + unat N} \<and> 32 dvd unat x - (unat p + 16)
    then Some \<lparr>psize = 0, csize = 0, cnext = 0, cprev = 0\<rparr> else m x)" by (simp add: map_area_def)
qed

text \<open>The header and the footer of the new block.\<close>

definition footed :: "cheap \<Rightarrow> addr \<Rightarrow> u64 \<Rightarrow> cheap" where
  "footed m c N = set_cz (set_cz (set_pz m (c + N) (tag N True)) (c + N) 1) c (tag N True)"

lemma fresh_new:
  assumes A: "got_area mp cur s p n s'" and n: "4096 \<le> unat n"
  shows "fresh_block (area p n) (mp (hsys s)) (hmem s) g (p + 16) (n - 32) (mp (hsys s')) (footed (set_pz (hmem s') (p + 16) 1) (p + 16) (n - 32))"
    "p + 16 \<in> dom (hmem s')" "p + 16 + (n - 32) \<in> dom (hmem s')"
proof -
  have a: "4096 dvd unat p" "4096 dvd unat n" "unat p + unat n < 2 ^ 64" "area p n \<inter> mp (hsys s) = {}" "area p n \<subseteq> mp (hsys s')"
      "mp (hsys s) \<subseteq> mp (hsys s')" "hmem s' = map_area p n (hmem s)"
    using A by (simp_all add: got_area_def)
  note M = map_area_cell(1) [OF a(1-3), of "hmem s", folded a(7)] map_area_cell(2) [OF a(1-3)]
  define c where "c = p + 16"
  define N where "N = n - 32"
  have uN: "unat N = unat n - 32" using n by (simp add: N_def unat_sub word_le_nat_alt)
  have uc: "unat c = unat p + 16" using M(2) unat_plus [of p 16] by (simp add: c_def)
  have ue: "unat (c + N) = unat p + unat n - 16" using uc uN n M(2) by (subst unat_plus) auto
  have d32: "32 dvd unat p" "32 dvd unat n" using a(1,2) by (auto intro: dvd_trans [of 32 4096])
  then have "32 dvd unat N" using uN by (simp add: dvd_diff_nat)
  moreover have "unat N \<noteq> 0" using uN n by simp
  then have "N \<noteq> 0" by auto
  moreover have "unat c mod 32 = 16" using d32(1) uc by (auto elim: dvdE)
  ultimately have g: "good c N" using uc uN M(2) by (simp add: good_def sized_def)
  have dc: "c \<in> dom (hmem s')" using M(1) [of c] uc n by (simp add: dom_def)
  have "unat p + unat n - 16 - (unat p + 16) = unat n - 32" using n by simp
  then have "unat (c + N) \<in> {unat p + 16 ..< unat p + unat n} \<and> 32 dvd unat (c + N) - (unat p + 16)"
    using ue uN n \<open>32 dvd unat N\<close> by auto
  then have de: "c + N \<in> dom (hmem s')" using M(1) [of "c + N"] by (simp add: dom_def)
  have ne: "c + N \<noteq> c" using next_neq [OF g] .
  define m' where "m' = footed (set_pz (hmem s') c 1) c N"
  have dm: "dom m' = dom (hmem s')" using dc de by (auto simp: m'_def footed_def)
  have dh: "dom (hmem s) \<subseteq> dom (hmem s')" using M(1) by (auto simp: dom_def)
  have old: "m' x = hmem s x" if "unat x \<in> mp (hsys s)" "x \<noteq> c" for x
  proof -
    have x: "unat x \<notin> area p n" using that(1) a(4) by blast
    have "x \<noteq> c + N" using x ue n by (auto simp: area_def)
    then have "m' x = hmem s' x" using that(2) by (simp add: m'_def footed_def)
    also have "\<dots> = hmem s x"
    proof -
      have "\<not> (unat x \<in> {unat p + 16 ..< unat p + unat n} \<and> 32 dvd unat x - (unat p + 16))"
        using x by (auto simp: area_def)
      then show ?thesis using M(1) [of x] by (simp only: if_False)
    qed
    finally show ?thesis .
  qed
  have new: "unat x \<in> area p n \<or> x \<in> dom (hmem s)" if "x \<in> dom m'" for x
  proof (cases "unat x \<in> {unat p + 16 ..< unat p + unat n} \<and> 32 dvd unat x - (unat p + 16)")
    case True
    then show ?thesis by (auto simp: area_def)
  next
    case False
    then have "hmem s' x = hmem s x" using M(1) [of x] by (simp only: if_False)
    then show ?thesis using that unfolding dm by (simp add: dom_def)
  qed
  have cells: "x \<in> dom m'" if "unat x \<in> {unat c .. unat c + unat N}" "32 dvd unat x - unat c" for x
  proof -
    have "unat x \<in> {unat p + 16 ..< unat p + unat n} \<and> 32 dvd unat x - (unat p + 16)" using that uc uN n by auto
    then show ?thesis using M(1) [of x] unfolding dm by (simp add: dom_def)
  qed
  have v: "pz m' c = 1" "cz m' c = tag N True" "pz m' (c + N) = tag N True" "cz m' (c + N) = 1"
    using ne by (simp_all add: m'_def footed_def)
  have "unat c + unat N + 16 \<le> 2 ^ 64" "{unat c ..< unat c + unat N + 16} \<subseteq> area p n"
    using uc uN n M(2) by (auto simp: area_def)
  then show "fresh_block (area p n) (mp (hsys s)) (hmem s) g (p + 16) (n - 32) (mp (hsys s')) (footed (set_pz (hmem s') (p + 16) 1) (p + 16) (n - 32))"
    unfolding c_def [symmetric] N_def [symmetric] m'_def [symmetric] fresh_block_def
    using a(4-6) g old new cells v dh dm by blast
  show "p + 16 \<in> dom (hmem s')" "p + 16 + (n - 32) \<in> dom (hmem s')" using dc de by (simp_all only: c_def N_def)
qed

lemma fresh_ext:
  assumes A: "got_area mp cur s p n s'" and n: "4096 \<le> unat n" and G: "geometry K (hmem s) (mp (hsys s)) g" and c: "p - 16 \<in> ends g"
  shows "fresh_block (area p n) (mp (hsys s)) (hmem s) g (p - 16) n (mp (hsys s')) (footed (hmem s') (p - 16) n)"
    "p - 16 \<in> dom (hmem s')" "p - 16 + n \<in> dom (hmem s')"
proof -
  have a: "4096 dvd unat p" "4096 dvd unat n" "unat p + unat n < 2 ^ 64" "area p n \<inter> mp (hsys s) = {}" "area p n \<subseteq> mp (hsys s')"
      "mp (hsys s) \<subseteq> mp (hsys s')" "hmem s' = map_area p n (hmem s)" "p \<noteq> 0"
    using A by (simp_all add: got_area_def)
  note M = map_area_cell(1) [OF a(1-3), of "hmem s", folded a(7)] map_area_cell(2) [OF a(1-3)]
  define c where "c = p - 16"
  have p: "4096 \<le> unat p" using a(1,8) by (intro dvd_imp_le) (auto simp: unat_gt_0)
  then have uc: "unat c = unat p - 16" by (simp add: c_def unat_sub word_le_nat_alt)
  have ue: "unat (c + n) = unat p + unat n - 16" using uc p M(2) by (subst unat_plus) auto
  have d32: "32 dvd unat p" "32 dvd unat n" using a(1,2) by (auto intro: dvd_trans [of 32 4096])
  obtain kp where kp: "unat p = 32 * kp" using d32(1) by (auto elim: dvdE)
  obtain q where q: "unat n = 32 * q" using d32(2) by (auto elim: dvdE)
  have "unat n \<noteq> 0" using n by simp
  then have "n \<noteq> 0" by auto
  moreover have "unat c = 32 * (kp - 1) + 16" using uc kp p by simp
  then have "unat c mod 32 = 16" by simp
  ultimately have g: "good c n" using uc p d32(2) M(2) by (simp add: good_def sized_def)
  have cm: "c \<in> dom (hmem s)" using G c by (auto simp: geometry_def kinds_def c_def)
  have "unat c \<notin> {unat p + 16 ..< unat p + unat n}" using uc by auto
  then have co: "hmem s' c = hmem s c" using M(1) [of c] by (simp only: simp_thms if_False)
  then have dc: "c \<in> dom (hmem s')" using cm by (simp add: dom_def)
  have "unat p + unat n - 16 - (unat p + 16) = 32 * (q - 1)" using n q by simp
  then have "32 dvd unat (c + n) - (unat p + 16)" unfolding ue by (simp only: dvd_triv_left)
  moreover have "unat (c + n) \<in> {unat p + 16 ..< unat p + unat n}" unfolding ue using n by auto
  ultimately have de: "c + n \<in> dom (hmem s')" using M(1) [of "c + n"] by (simp add: dom_def)
  have ne: "c + n \<noteq> c" using next_neq [OF g] .
  define m' where "m' = footed (hmem s') c n"
  have dm: "dom m' = dom (hmem s')" using dc de by (auto simp: m'_def footed_def)
  have dh: "dom (hmem s) \<subseteq> dom (hmem s')" using M(1) by (auto simp: dom_def)
  have old: "m' x = hmem s x" if "unat x \<in> mp (hsys s)" "x \<noteq> c" for x
  proof -
    have x: "unat x \<notin> area p n" using that(1) a(4) by blast
    have "x \<noteq> c + n" using x ue n by (auto simp: area_def)
    then have "m' x = hmem s' x" using that(2) by (simp add: m'_def footed_def)
    also have "\<dots> = hmem s x"
    proof -
      have "\<not> (unat x \<in> {unat p + 16 ..< unat p + unat n} \<and> 32 dvd unat x - (unat p + 16))"
        using x by (auto simp: area_def)
      then show ?thesis using M(1) [of x] by (simp only: if_False)
    qed
    finally show ?thesis .
  qed
  have new: "unat x \<in> area p n \<or> x \<in> dom (hmem s)" if "x \<in> dom m'" for x
  proof (cases "unat x \<in> {unat p + 16 ..< unat p + unat n} \<and> 32 dvd unat x - (unat p + 16)")
    case True
    then show ?thesis by (auto simp: area_def)
  next
    case False
    then have "hmem s' x = hmem s x" using M(1) [of x] by (simp only: if_False)
    then show ?thesis using that unfolding dm by (simp add: dom_def)
  qed
  have cells: "x \<in> dom m'" if x: "unat x \<in> {unat c .. unat c + unat n}" "32 dvd unat x - unat c" for x
  proof (cases "x = c")
    case False
    then have "unat x \<noteq> unat c" using word_unat_eq_iff by blast
    moreover obtain k where k: "unat x - unat c = 32 * k" using x(2) by (auto elim: dvdE)
    ultimately have "unat x = unat c + 32 * k" "0 < k" using x(1) by auto
    then have "unat x = unat p + 16 + 32 * (k - 1)" "unat p + 16 \<le> unat x" using uc p by auto
    then have "unat x \<in> {unat p + 16 ..< unat p + unat n} \<and> 32 dvd unat x - (unat p + 16)" using x(1) uc p by auto
    then show ?thesis using M(1) [of x] unfolding dm by (simp add: dom_def)
  qed (use dc dm in simp)
  have v: "pz m' c = pz (hmem s) c" "cz m' c = tag n True" "pz m' (c + n) = tag n True" "cz m' (c + n) = 1"
    using ne co by (simp_all add: m'_def footed_def pz_def [of "hmem s'"] pz_def [of "hmem s"])
  have "unat c + unat n + 16 \<le> 2 ^ 64" "{unat c + 16 ..< unat c + unat n + 16} \<subseteq> area p n"
    using uc p M(2) by (auto simp: area_def)
  then show "fresh_block (area p n) (mp (hsys s)) (hmem s) g (p - 16) n (mp (hsys s')) (footed (hmem s') (p - 16) n)"
    unfolding c_def [symmetric] m'_def [symmetric] fresh_block_def
    using a(4-6) g old new cells v dh dm c by (simp only: c_def) blast
  show "p - 16 \<in> dom (hmem s')" "p - 16 + n \<in> dom (hmem s')" using dc de by (simp_all only: c_def)
qed

lemma or_C_INUSE: "tag 0 True = 1" "n OR C_INUSE = tag n True"
  by (simp_all add: C_INUSE_def tag_def)

text \<open>The writes of \<open>expand_heap\<close>, on the block at \<open>c\<close> of size \<open>N\<close> that ends at \<open>hend\<close>.\<close>

lemma expand_writes:
  assumes "c \<in> dom (hmem s)" "c + N \<in> dom (hmem s)"
  shows "do { s \<leftarrow> put_psize (c + N) (N OR C_INUSE) s; s \<leftarrow> put_csize (c + N) (0 OR C_INUSE) s; s \<leftarrow> put_csize c (N OR C_INUSE) s; Some (c, s) } =
    Some (c, s\<lparr>hmem := footed (hmem s) c N\<rparr>)"
  using assms by (simp add: field_eqs or_C_INUSE footed_def)

lemma expand_heap_ok:
  assumes H: "heap K mp cur g s" and laws: "mmap_law K mp cur" "brk_law K mp cur" and n: "unat n \<le> 2 ^ 19" "0 < unat n"
  shows "\<exists>c s'. expand_heap K n s = Some (c, s') \<and>
    (c = 0 \<and> heap K mp cur g s' \<and> untouched (live g) (hmem s) (hmem s') \<or>
     c \<noteq> 0 \<and> (\<exists>N g'. n \<le> N \<and> heap K mp cur g' s' \<and> blk g' c = Some (N, True) \<and> live g' = insert (c, N) (live g) \<and> (c, N) \<notin> live g \<and>
       untouched (live g) (hmem s) (hmem s')))"
proof -
  have u: "unat (n + SIZE_ALIGN) = unat n + 32" using n(1) unat_plus [of n 32] by (simp add: SIZE_ALIGN_def)
  obtain p n' s' s1 where e: "expand_pages K (n + SIZE_ALIGN) s = Some (p, n', s')" and h1: "heap K mp cur g s1" "hmem s1 = hmem s"
      "mp (hsys s) \<subseteq> mp (hsys s1)" "hend s1 = hend s" and r: "p = 0 \<and> s' = s1 \<or> unat (n + SIZE_ALIGN) \<le> unat n' \<and> got_area mp cur s1 p n' s'"
    using expand_pages_ok [OF H laws, of "n + SIZE_ALIGN"] n u by auto
  show ?thesis
  proof (cases "p = 0")
    case True
    then have "s' = s1" using r by (auto simp: got_area_def)
    moreover have "expand_heap K n s = Some (0, s')" using e True by (simp add: expand_heap_def)
    ultimately show ?thesis using h1(1,2) untouched_refl by metis
  next
    case False
    then have A: "got_area mp cur s1 p n' s'" and ge: "unat n + 32 \<le> unat n'" using r u by simp_all
    have a: "4096 dvd unat n'" "4096 dvd unat p" "hbinmap s' = hbinmap s1" "hstep s' \<le> 102" "unat p + unat n' < 2 ^ 64"
        "hbrk s' = 0 \<or> 0 < cur (hsys s') \<and> cur (hsys s') \<le> unat (hbrk s') \<and> 4096 dvd unat (hbrk s')" "hend s' = hend s1"
      using A unfolding got_area_def by blast+
    have n4: "4096 \<le> unat n'" using a(1) ge by (intro dvd_imp_le) auto
    note HD = heapD [OF h1(1)]
    define fin where "fin = (\<lambda>m. s'\<lparr>hend := p + n', hmem := m\<rparr>)"
    have fin: "hsys (fin m) = hsys s'" "hmem (fin m) = m" "hbinmap (fin m) = hbinmap s'" "hstep (fin m) = hstep s'" "hbrk (fin m) = hbrk s'"
        "hend (fin m) = p + n'" for m by (simp_all add: fin_def)
    have pn: "4096 \<le> unat p" using a(2) False by (intro dvd_imp_le) (auto simp: unat_gt_0)
    show ?thesis
    proof (cases "p = hend s'")
      case True
      define c where "c = p - 16"
      have ce: "p - 16 \<in> ends g" using h1(1) False True a(7) by (simp add: heap_def)
      note F = fresh_ext [OF A n4 HD(1) ce]
      define m where "m = footed (hmem s') c n'"
      have "hend (fin m) - 16 = c + n'" by (simp add: fin c_def)
      note X = heap_grow [OF h1(1), of "area p n'" c n' "fin m", unfolded fin,
          OF F(1) [folded c_def, folded m_def] a(3) _ a(4,6)]
      have end_in: "p + n' = 0 \<or> p + n' - 16 \<in> ends (grown g c n')" by (simp add: c_def)
      note X = X [OF end_in]
      have "expand_heap K n s = Some (c, fin m)"
        using e False True expand_writes [of c "s'\<lparr>hend := p + n'\<rparr>" n'] F(2,3)
        by (simp add: expand_heap_def MEM_TO_CHUNK_def OVERHEAD_def c_def m_def fin_def Let_def algebra_simps)
      moreover have "unat c = unat p - 16" using pn by (simp add: c_def unat_sub word_le_nat_alt)
      then have "c \<noteq> 0" using pn by auto
      moreover have "n \<le> n'" using ge by (simp add: word_le_nat_alt)
      moreover have "blk (grown g c n') c = Some (n', True)" by simp
      ultimately show ?thesis using X h1(2) fin(2) by metis
    next
      case ne: False
      define c where "c = p + 16"
      define N where "N = n' - 32"
      note F = fresh_new(1) [OF A n4, of g] fresh_new(2,3) [OF A n4]
      define m where "m = footed (set_pz (hmem s') c 1) c N"
      note X = heap_grow [OF h1(1), of "area p n'" c N "fin m", unfolded fin,
          OF F(1) [folded c_def N_def, folded m_def] a(3) _ a(4,6)]
      have cN: "p + n' - 16 = c + N" by (simp add: c_def N_def)
      have end_in: "p + n' = 0 \<or> p + n' - 16 \<in> ends (grown g c N)" unfolding cN by simp
      note X = X [OF end_in]
      have ps: "put_psize c (0 OR C_INUSE) s' = Some (s'\<lparr>hmem := set_pz (hmem s') c 1\<rparr>)"
        using F(2) by (simp add: field_eqs or_C_INUSE c_def)
      have "c \<in> dom (hmem s')" "c + N \<in> dom (hmem s')" using F(2,3) by (simp_all only: c_def N_def)
      then have w: "do { s \<leftarrow> put_psize (c + N) (N OR C_INUSE) (s'\<lparr>hmem := set_pz (hmem s') c 1, hend := p + n'\<rparr>);
          s \<leftarrow> put_csize (c + N) (0 OR C_INUSE) s; s \<leftarrow> put_csize c (N OR C_INUSE) s; Some (c, s) } = Some (c, fin m)"
        using expand_writes [of c "s'\<lparr>hmem := set_pz (hmem s') c 1, hend := p + n'\<rparr>" N] by (simp add: fin_def m_def)
      have mc: "MEM_TO_CHUNK (p + SIZE_ALIGN) = c" "n' - SIZE_ALIGN = N" "p + SIZE_ALIGN + N = p + n'" "MEM_TO_CHUNK (p + n') = c + N"
        using cN by (simp_all add: MEM_TO_CHUNK_def OVERHEAD_def SIZE_ALIGN_def c_def N_def)
      have "expand_heap K n s = Some (c, fin m)"
        using e False ne ps w mc by (simp add: expand_heap_def Let_def add.assoc)
      moreover have "unat p + 4096 \<le> 2 ^ 64" using a(5) n4 by simp
      then have "unat c = unat p + 16" using unat_plus [of p 16] by (simp add: c_def)
      then have "c \<noteq> 0" by auto
      moreover have "unat N = unat n' - 32" using n4 by (simp add: N_def unat_sub word_le_nat_alt)
      then have "n \<le> N" using ge by (simp add: word_le_nat_alt)
      moreover have "blk (grown g c N) c = Some (N, True)" by simp
      ultimately show ?thesis using X h1(2) fin(2) by metis
    qed
  qed
qed

section \<open>\<open>malloc\<close>\<close>

definition obtained :: "'x menv \<Rightarrow> ('x \<Rightarrow> nat set) \<Rightarrow> ('x \<Rightarrow> nat) \<Rightarrow> ghost \<Rightarrow> u64 \<Rightarrow> 'x mstate \<Rightarrow> addr \<Rightarrow> 'x mstate \<Rightarrow> bool" where
  "obtained K mp cur g n s c s' \<longleftrightarrow> untouched (live g) (hmem s) (hmem s') \<and>
     (c = 0 \<and> heap K mp cur g s' \<or>
      c \<noteq> 0 \<and> (\<exists>N g'. n \<le> N \<and> heap K mp cur g' s' \<and> blk g' c = Some (N, True) \<and> live g' = insert (c, N) (live g) \<and> (c, N) \<notin> live g))"

lemma tag_plus: "sized z \<Longrightarrow> sized y \<Longrightarrow> sized (z + y) \<Longrightarrow> tag z True + y = tag (z + y) True"
proof -
  have "tag z True = z + 1" if "sized z" for z
    using word_plus_and_or [of z 1] sized_even [OF that] by (simp add: tag_def C_INUSE_def)
  then show "sized z \<Longrightarrow> sized y \<Longrightarrow> sized (z + y) \<Longrightarrow> tag z True + y = tag (z + y) True" by simp
qed

lemma block_nonzero: "good c z \<Longrightarrow> c \<noteq> 0"
  by (auto simp: good_def)

lemma join_below_ok:
  assumes H: "heap K mp cur g s" and c: "blk g c = Some (N, True)" and n: "n \<le> N" and L: "live g = insert (c, N) L" "(c, N) \<notin> L"
  shows "\<exists>b s' M g'. join_below K c s = Some (b, s') \<and> b \<noteq> 0 \<and> n \<le> M \<and> heap K mp cur g' s' \<and> blk g' b = Some (M, True) \<and>
    live g' = insert (b, M) L \<and> (b, M) \<notin> L \<and> untouched L (hmem s) (hmem s')"
proof -
  note HD = heapD [OF H]
  have gc: "good c N" "c \<in> dom (hmem s)" using geometry_block [OF HD(1) c] by blast+
  have c': "c \<in> dom (blk g) \<union> ends g" using c by auto
  show ?thesis
  proof (cases "pz (hmem s) c AND 1 = 0")
    case False
    then have "join_below K c s = Some (c, s)" using alloc_rev_ok [OF H c'] by (simp add: join_below_def)
    then show ?thesis using H c n L untouched_refl block_nonzero [OF gc(1)] by blast
  next
    case True
    then obtain b y s1 where b: "b + y = c" "blk g b = Some (y, False)" "alloc_rev K c s = Some (True, s1)"
        and s1: "heap K mp cur (taken g b y) s1" "untouched (live g) (hmem s) (hmem s1)"
      using alloc_rev_ok [OF H c', unfolded if_P [OF True]] by blast
    have nb: "b \<noteq> c" using next_neq [OF geometry_block(1) [OF HD(1) b(2)]] b(1) by auto
    have b1: "blk (taken g b y) b = Some (y, True)" "blk (taken g b y) (b + y) = Some (N, True)" using nb c b(1) by simp_all
    note HD1 = heapD [OF s1(1)]
    have gd: "good b y" "good (b + y) N" using geometry_block(1) [OF HD1(1)] b1 by blast+
    have d: "c \<in> dom (hmem s1)" "b \<in> dom (hmem s1)" "c + N \<in> dom (hmem s1)"
      using geometry_block(2) [OF HD1(1)] geometry_block(3) [OF HD1(1) b1(2)] b1 b(1) by blast+
    have t: "pz (hmem s1) c = tag y True" "cz (hmem s1) b = tag y True" "cz (hmem s1) c = tag N True"
      using tagsD(1,2) [OF HD1(2) b1(1)] tagsD(1) [OF HD1(2) b1(2)] b(1) by simp_all
    have sz: "sized y" "sized N" "sized (y + N)" using gd span_plus(1) [OF gd] goodD(1) by blast+
    have "c - y = b" using b(1) by (simp flip: b(1))
    then have r: "PREV_CHUNK c s1 = Some b" "get_csize c s1 = Some (tag N True)" "CHUNK_SIZE b s1 = Some y" "NEXT_CHUNK c s1 = Some (c + N)"
      using d t tag_simps(2) [OF sz(1)] tag_simps(2) [OF sz(2)] by (simp_all add: field_eqs)
    have s: "tag N True + y = tag (y + N) True" using tag_plus [OF sz(2,1)] sz(3) by (simp add: add.commute)
    define s2 where "s2 = s1\<lparr>hmem := set_pz (set_cz (hmem s1) b (tag (y + N) True)) (c + N) (tag (y + N) True)\<rparr>"
    have e: "b + (y + N) = c + N" using b(1) by (simp add: add.assoc [symmetric])
    have J: "heap K mp cur (joined (taken g b y) b y N) s2" using heap_join [OF s1(1) b1] by (simp add: s2_def e)
    have j: "join_below K c s = Some (b, s2)"
      using b(3) r d s by (simp add: join_below_def Let_def field_eqs s2_def)
    have mb: "maps g b = None" using HD(1) b(2) by (auto simp: geometry_def kinds_def)
    have nl: "(b, x) \<notin> live g" for x using mb b(2) by (auto simp: live_def)
    have lt: "live (taken g b y) = insert (b, y) (live g)" using live_taken [OF HD(1) b(2)] .
    have lj: "live (joined (taken g b y) b y N) = insert (b, y + N) L"
      using live_join [OF HD1(1) b1] lt L nl [of y] by (auto simp: b(1))
    have "(b, y + N) \<notin> L" using nl L(1) by blast
    moreover have "n \<le> y + N" using n span_plus(3) [OF gd] by (simp add: word_le_nat_alt)
    moreover have "untouched L (hmem s1) (hmem s2)"
    proof (rule untouched_headers [OF HD1(1), of _ "{b, c + N}"])
      show "L \<subseteq> live (taken g b y)" unfolding lt L(1) by blast
      show "x \<in> owners (taken g b y) \<or> (\<exists>i<64. x = BIN_TO_CHUNK K i) \<or> (\<exists>a\<in>owners (taken g b y). unat x \<in> block_bytes (taken g b y) a \<and> a \<notin> fst ` L)"
        if "x \<in> {b, c + N}" for x
        using that b1 geometry_block(4) [OF HD1(1) b1(2)] b(1) by (auto simp: owners_def)
    qed (auto simp: s2_def)
    moreover have "untouched L (hmem s) (hmem s1)" by (rule untouched_mono [OF s1(2)]) (use L in blast)
    ultimately show ?thesis using j J lj block_nonzero [OF gd(1)] untouched_trans [of L "hmem s" "hmem s1" "hmem s2"]
      by (intro exI [of _ b] exI [of _ s2] exI [of _ "y + N"] exI [of _ "joined (taken g b y) b y N"]) (simp add: joined_def)
  qed
qed

lemma first_set_bit: "x \<noteq> 0 \<Longrightarrow> bit x (first_set x) \<and> first_set x < 64"
proof -
  assume x: "x \<noteq> 0"
  then have "unat x \<noteq> 0" by (simp add: unat_eq_0)
  then obtain m where m: "odd m" "unat x = 2 ^ ntz (unat x) * m" using ntz_decomp by blast
  have "unat x div 2 ^ ntz (unat x) = m" using m(2) by (metis nonzero_mult_div_cancel_left power_not_zero zero_neq_numeral)
  then have "bit (unat x) (ntz (unat x))" using m(1) by (simp add: bit_iff_odd)
  then have "bit x (first_set x)" by (simp add: first_set_def builtin_ctz_def bit_unsigned_iff)
  moreover from this have "first_set x < LENGTH(64)" by (rule bit_imp_le_length)
  ultimately show ?thesis by simp
qed

lemma mask_bits: "i < 64 \<Longrightarrow> bit (bm AND - push_bit i 1 :: u64) j \<longleftrightarrow> bit bm j \<and> i \<le> j"
proof -
  have "- push_bit i 1 = (NOT (mask i) :: u64)" by (simp add: push_bit_eq_mult minus_exp_eq_not_mask)
  then show ?thesis using bit_imp_le_length [of bm j] by (auto simp: bit_simps)
qed

lemma bin_take_ok:
  assumes H: "heap K mp cur g s" and j: "j < 64" "bit (hbinmap s) j"
    and n: "sized n" "n \<noteq> 0" "n \<le> MMAP_THRESHOLD" "\<And>z. sized z \<Longrightarrow> z \<noteq> 0 \<Longrightarrow> j \<le> bin_index z \<Longrightarrow> n \<le> z"
  shows "\<exists>c s1 r s2 s3. lock_bin K j s = Some s1 \<and> get_next (BIN_TO_CHUNK K j) s1 = Some c \<and> c \<noteq> BIN_TO_CHUNK K j \<and>
    pretrim c n i j s1 = Some (r, s2) \<and> (if r then Some s2 else unbin c j s2) = Some s3 \<and> c \<noteq> 0 \<and> obtained K mp cur g n s c s3"
proof -
  obtain s1 where l: "lock_bin K j s = Some s1" "heap K mp cur g s1"
      "path (nx (hmem s1)) (pv (hmem s1)) (BIN_TO_CHUNK K j) (lists g j) (BIN_TO_CHUNK K j)" "hbinmap s1 = hbinmap s"
      "untouched (live g) (hmem s) (hmem s1)"
    using lock_bin_ok [OF H j(1)] by blast
  note HD = heapD [OF l(2)]
  define S where "S = BIN_TO_CHUNK K j"
  have S: "S \<in> dom (hmem s1)" "S \<notin> owners g" using bin_not_owner [OF HD(1) j(1)] by (simp_all add: S_def)
  note B = binsD [OF HD(3) j(1)]
  have "lists g j \<noteq> []" using B(4) j(2) l(4) by simp
  then obtain c xs where cx: "lists g j = c # xs" by (cases "lists g j") auto
  have nc: "nx (hmem s1) S = c" using l(3) cx by (simp add: S_def)
  have "c \<in> free_in g j" using B(3) cx by auto
  then obtain z where z: "blk g c = Some (z, False)" "bin_index z = j" by (auto simp: free_in_def)
  have gc: "good c z" "c \<in> dom (hmem s1)" using geometry_block [OF HD(1) z(1)] by blast+
  have cS: "c \<noteq> S" using S(2) z(1) by (auto simp: owners_def)
  have nz: "n \<le> z" using n(4) [OF goodD(1,2) [OF gc(1)]] z(2) by simp
  have cz: "cz (hmem s1) c AND - 2 = z" using tagsD(1) [OF HD(2) z(1)] tag_simps(2) [OF goodD(1) [OF gc(1)]] by simp
  have mc: "maps g c = None" using HD(1) z(1) by (auto simp: geometry_def kinds_def)
  have nl: "(c, x) \<notin> live g" for x using mc z(1) by (auto simp: live_def)
  have g0: "get_next (BIN_TO_CHUNK K j) s1 = Some c" using S(1) nc by (simp add: field_eqs S_def)
  have tr: "untouched (live g) (hmem s) (hmem s2)" if "untouched (live g) (hmem s1) (hmem s2)" for s2 :: "'a mstate"
    using untouched_trans [OF l(5) that] .
  show ?thesis
  proof (cases "40 \<le> j \<and> \<not> (j < i + 3 \<and> (j \<noteq> 63 \<or> z - n \<le> MMAP_THRESHOLD)) \<and> bin_index (z - n) = j")
    case True
    have "n \<noteq> z"
    proof
      assume "n = z"
      then have "j = 63" "bin_index z < 63" using True bin_index_0 bin_index_small [OF n(1-3)] by simp_all
      then show False using z(2) by simp
    qed
    then have lt: "n < z" using nz by simp
    obtain s2 where p: "pretrim c n i j s1 = Some (True, s2)" "heap K mp cur (split_off g c n z) s2"
        "live (split_off g c n z) = insert (c, n) (live g)" "untouched (live g) (hmem s1) (hmem s2)"
      using pretrim_cut [OF l(2) z(1) z(2) [symmetric] l(3) n(1,2) lt, of i] True by blast
    have "blk (split_off g c n z) c = Some (n, True)" using n(2) by simp
    then have "obtained K mp cur g n s c s2"
      unfolding obtained_def using p(2-4) nl [of n] tr block_nonzero [OF gc(1)] by blast
    then show ?thesis using l(1) g0 cS p(1) block_nonzero [OF gc(1)] by (auto simp: S_def)
  next
    case False
    then have p: "pretrim c n i j s1 = Some (False, s1)" using gc(2) cz by (auto simp: pretrim_def field_eqs)
    obtain s2 where u: "unbin c j s1 = Some s2" "heap K mp cur (taken g c z) s2" "untouched (live g) (hmem s1) (hmem s2)"
      using unbin_ok [OF l(2) z(1) z(2) [symmetric] l(3)] unfolding taken_def z(2) by blast
    have "blk (taken g c z) c = Some (z, True)" by simp
    then have "obtained K mp cur g n s c s2"
      unfolding obtained_def using u(2,3) nz nl [of z] tr block_nonzero [OF gc(1)] live_taken [OF HD(1) z(1)] by blast
    then show ?thesis using l(1) g0 cS p u(1) block_nonzero [OF gc(1)] by (auto simp: S_def)
  qed
qed

lemma malloc_loop_ok:
  assumes H: "heap K mp cur g s" and laws: "mmap_law K mp cur" "brk_law K mp cur" and n: "sized n" "n \<noteq> 0" "n \<le> MMAP_THRESHOLD"
    and i: "bin_index_up n = Some i"
  shows "\<exists>c s'. malloc_loop K n i s = Some (c, s') \<and> obtained K mp cur g n s c s'"
proof -
  have i': "i < 64" "\<And>z. sized z \<Longrightarrow> z \<noteq> 0 \<Longrightarrow> i \<le> bin_index z \<Longrightarrow> n \<le> z" using bin_index_up_units [OF n] i by auto
  define mask where "mask = hbinmap s AND - push_bit i 1"
  show ?thesis
  proof (cases "mask = 0")
    case True
    have un: "unat n \<le> 2 ^ 19" "0 < unat n" using n(2,3) by (simp_all add: MMAP_THRESHOLD_def SIZE_ALIGN_def word_le_nat_alt unat_gt_0)
    obtain c s' where e: "expand_heap K n s = Some (c, s')"
      "c = 0 \<and> heap K mp cur g s' \<and> untouched (live g) (hmem s) (hmem s') \<or>
        c \<noteq> 0 \<and> (\<exists>N g'. n \<le> N \<and> heap K mp cur g' s' \<and> blk g' c = Some (N, True) \<and> live g' = insert (c, N) (live g) \<and> (c, N) \<notin> live g \<and>
          untouched (live g) (hmem s) (hmem s'))"
      using expand_heap_ok [OF H laws un] by blast
    show ?thesis
    proof (cases "c = 0")
      case c0: True
      then have "malloc_loop K n i s = Some (0, s')" using True e(1) unfolding mask_def by (subst malloc_loop.simps) simp
      then show ?thesis using e(2) c0 unfolding obtained_def by blast
    next
      case False
      then obtain N g' where g': "n \<le> N" "heap K mp cur g' s'" "blk g' c = Some (N, True)" "live g' = insert (c, N) (live g)"
          "(c, N) \<notin> live g" "untouched (live g) (hmem s) (hmem s')"
        using e(2) by blast
      obtain b s'' M g'' where "join_below K c s' = Some (b, s'')" "b \<noteq> 0" "n \<le> M" "heap K mp cur g'' s''" "blk g'' b = Some (M, True)"
          "live g'' = insert (b, M) (live g)" "(b, M) \<notin> live g" "untouched (live g) (hmem s') (hmem s'')"
        using join_below_ok [OF g'(2,3,1,4,5)] by blast
      moreover from this(1) have "malloc_loop K n i s = Some (b, s'')" using True e(1) False unfolding mask_def by (subst malloc_loop.simps) simp
      ultimately show ?thesis using untouched_trans [OF g'(6)] unfolding obtained_def by blast
    qed
  next
    case False
    define j where "j = first_set mask"
    have j: "j < 64" "bit (hbinmap s) j" "i \<le> j" using first_set_bit [OF False] mask_bits [OF i'(1)] by (simp_all add: j_def mask_def)
    have ge: "n \<le> z" if "sized z" "z \<noteq> 0" "j \<le> bin_index z" for z using i'(2) that j(3) by simp
    obtain c s1 r s2 s3 where t: "lock_bin K j s = Some s1" "get_next (BIN_TO_CHUNK K j) s1 = Some c" "c \<noteq> BIN_TO_CHUNK K j"
        "pretrim c n i j s1 = Some (r, s2)" "(if r then Some s2 else unbin c j s2) = Some s3" "obtained K mp cur g n s c s3"
      using bin_take_ok [OF H j(1,2) n ge] by blast
    have "malloc_loop K n i s = Some (c, s3)"
      unfolding malloc_loop.simps [of K n i s] mask_def [symmetric] Let_def if_not_P [OF False] j_def [symmetric]
      using t(1-5) by simp
    then show ?thesis using t(6) by blast
  qed
qed

definition mapped_at :: "ghost \<Rightarrow> addr \<Rightarrow> u64 \<Rightarrow> ghost" where
  "mapped_at g c z = g\<lparr>maps := (maps g)(c \<mapsto> z)\<rparr>"

lemma mapped_at_simps [simp]: "blk (mapped_at g c z) = blk g" "ends (mapped_at g c z) = ends g" "lists (mapped_at g c z) = lists g"
  "maps (mapped_at g c z) = (maps g)(c \<mapsto> z)"
  by (simp_all add: mapped_at_def)

text \<open>A block that is a mapping of its own.\<close>

lemma heap_map:
  assumes H: "heap K mp cur g s" and p: "p \<noteq> 0" "4096 dvd unat p" "4096 dvd unat len" "unat p + unat len < 2 ^ 64" "len \<noteq> 0"
    and R: "area p len \<inter> mp (hsys s) = {}" "area p len \<subseteq> mp x" "mp (hsys s) \<subseteq> mp x" "cur x = cur (hsys s)"
  defines "c \<equiv> p + 16" and "z \<equiv> len - 16"
  defines "m' \<equiv> set_pz (set_cz (map_area p len (hmem s)) c z) c 16"
  shows "c \<in> dom (map_area p len (hmem s))" "unat z = unat len - 16" "heap K mp cur (mapped_at g c z) (s\<lparr>hsys := x, hmem := m'\<rparr>)"
    "live (mapped_at g c z) = insert (c, z) (live g)" "(c, z) \<notin> live g" "untouched (live g) (hmem s) m'"
proof -
  note HD = heapD [OF H]
  define m where "m = map_area p len (hmem s)"
  note M = map_area_cell(1) [OF p(2-4), of "hmem s", folded m_def] map_area_cell(2) [OF p(2-4)]
  have l4: "4096 \<le> unat len" using p(3,5) by (intro dvd_imp_le) (auto simp: unat_gt_0)
  show uz: "unat z = unat len - 16" using l4 by (simp add: z_def unat_sub word_le_nat_alt)
  have uc: "unat c = unat p + 16" using M(2) unat_plus [of p 16] by (simp add: c_def)
  have "unat c \<in> {unat p + 16 ..< unat p + unat len}" using uc l4 by auto
  then have dc: "c \<in> dom m" using M(1) [of c] uc by (simp add: dom_def)
  then show "c \<in> dom (map_area p len (hmem s))" by (simp add: m_def)
  have dm: "dom m' = dom m" using dc by (auto simp: m'_def m_def)
  have cR: "unat c \<in> area p len" using uc l4 by (simp add: area_def)
  have oP: "block_bytes g a \<subseteq> mp (hsys s)" if "a \<in> owners g" for a using HD(1) that unfolding geometry_def apart_blocks_def by blast
  have cn: "c \<notin> owners g" using owner_byte [OF HD(1), of c] oP [of c] cR R(1) by blast
  then have c0: "blk g c = None" "c \<notin> ends g" "maps g c = None" by (auto simp: owners_def)
  have old: "m' y = hmem s y" if "unat y \<in> mp (hsys s)" for y
  proof -
    have y: "unat y \<notin> area p len" using that R(1) by blast
    then have "y \<noteq> c" using cR by auto
    moreover have "\<not> (unat y \<in> {unat p + 16 ..< unat p + unat len} \<and> 32 dvd unat y - (unat p + 16))" using y by (auto simp: area_def)
    then have "m y = hmem s y" using M(1) [of y] by (simp only: if_False)
    ultimately show ?thesis by (simp add: m'_def m_def)
  qed
  have cells: "\<And>y. y \<in> dom (hmem s) \<Longrightarrow> unat y \<in> mp (hsys s)" using HD(1) unfolding geometry_def bins_apart_def by blast
  have same: "m' a = hmem s a" if "a \<in> owners g" for a using old owner_byte [OF HD(1) that] oP [OF that] by blast
  have bn: "m' (BIN_TO_CHUNK K k) = hmem s (BIN_TO_CHUNK K k)" "BIN_TO_CHUNK K k \<in> dom (hmem s)" if "k < 64" for k
  proof -
    show "BIN_TO_CHUNK K k \<in> dom (hmem s)" using HD(1) that unfolding geometry_def bins_apart_def by blast
    from cells [OF this] show "m' (BIN_TO_CHUNK K k) = hmem s (BIN_TO_CHUNK K k)" by (rule old)
  qed
  have dh: "y \<in> dom m'" if "y \<in> dom (hmem s)" for y using old [OF cells [OF that]] that by (simp add: dom_def)
  define g' where "g' = mapped_at g c z"
  have o': "owners g' = insert c (owners g)" by (auto simp: owners_def g'_def)
  have rc: "block_bytes g' c = area p len" using c0 uc uz l4 by (auto simp: block_bytes_def g'_def area_def)
  have rn: "block_bytes g' a = block_bytes g a" if "a \<noteq> c" for a unfolding block_bytes_def g'_def mapped_at_simps fun_upd_other [OF that] ..
  have "32 dvd unat p" "32 dvd unat len" using p(2,3) by (auto intro: dvd_trans [of 32 4096])
  then obtain kp kl where k: "unat p = 32 * kp" "unat len = 32 * kl" by (auto elim!: dvdE)
  have "unat c mod 32 = 16" using uc k(1) by simp
  moreover have "even (unat z)" using uz k(2) l4 by simp
  then have "unat (z mod 2) = 0" by (simp add: unat_mod)
  then have "z AND 1 = 0" by (simp add: and_one_eq unat_eq_0)
  moreover have "32 \<le> unat z" "unat c + unat z < 2 ^ 64" using uc uz l4 p(4) by simp_all
  ultimately have zc: "z \<noteq> 0 \<and> 32 \<le> unat z \<and> z AND 1 = 0 \<and> unat c mod 32 = 16 \<and> unat c + unat z < 2 ^ 64" by auto
  have "shape m' g'"
  proof -
    have "y \<in> dom m'" if "blk g e = Some (w, u)" "unat y \<in> span e w" "32 dvd unat y - unat e" for e w u y
    proof -
      have "y \<in> dom (hmem s)" using HD(1) that unfolding geometry_def shape_def by blast
      then show ?thesis by (rule dh)
    qed
    then show ?thesis using HD(1) unfolding geometry_def shape_def g'_def by simp
  qed
  moreover have "kinds m' g'"
  proof -
    have kk: "kinds (hmem s) g" using HD(1) by (simp add: geometry_def)
    have "dom (maps g') \<inter> (dom (blk g) \<union> ends g) = {}" using kk c0 unfolding kinds_def by (auto simp: g'_def)
    moreover have "ends g \<subseteq> dom m'" using kk dh unfolding kinds_def by blast
    moreover have "\<forall>e y. maps g' e = Some y \<longrightarrow>
        e \<in> dom m' \<and> y \<noteq> 0 \<and> 32 \<le> unat y \<and> y AND 1 = 0 \<and> unat e mod 32 = 16 \<and> unat e + unat y < 2 ^ 64"
    proof (intro allI impI)
      fix e y assume e: "maps g' e = Some y"
      show "e \<in> dom m' \<and> y \<noteq> 0 \<and> 32 \<le> unat y \<and> y AND 1 = 0 \<and> unat e mod 32 = 16 \<and> unat e + unat y < 2 ^ 64"
      proof (cases "e = c")
        case True
        then show ?thesis using e zc dc dm by (simp add: g'_def)
      next
        case False
        then have "maps g e = Some y" using e by (simp add: g'_def)
        from mapD [OF HD(1) this] dh show ?thesis by auto
      qed
    qed
    ultimately show ?thesis using kk unfolding kinds_def g'_def mapped_at_simps(1,2) by (elim conjE) (intro conjI; assumption)
  qed
  moreover have "apart_blocks (mp x) g'"
    unfolding apart_blocks_def
  proof (intro ballI conjI impI)
    fix a assume a: "a \<in> owners g'"
    show "block_bytes g' a \<subseteq> mp x" using a rc rn [of a] oP [of a] R(2,3) by (cases "a = c") (auto simp: o')
    fix b assume b: "b \<in> owners g'" "a \<noteq> b"
    consider "a = c" "b \<in> owners g" "b \<noteq> c" | "b = c" "a \<in> owners g" "a \<noteq> c" | "a \<in> owners g" "b \<in> owners g" "a \<noteq> c" "b \<noteq> c"
      using a b cn by (auto simp: o')
    then show "block_bytes g' a \<inter> block_bytes g' b = {}"
    proof cases
      case 1
      then show ?thesis using rc rn [of b] oP [of b] R(1) by auto
    next
      case 2
      then show ?thesis using rc rn [of a] oP [of a] R(1) by auto
    next
      case 3
      then show ?thesis using owner_unique [OF HD(1) 3(1,2)] b(2) rn by blast
    qed
  qed
  moreover have "bins_apart K m' (mp x) g'"
    unfolding bins_apart_def
  proof (intro conjI allI impI ballI)
    fix i :: nat assume i: "i < 64"
    show "BIN_TO_CHUNK K i \<in> dom m'" using bn(2) [OF i] dh by blast
    fix a assume "a \<in> owners g'"
    then show "unat (BIN_TO_CHUNK K i) \<notin> block_bytes g' a"
      using HD(1) i rc rn [of a] cells [OF bn(2) [OF i]] R(1) unfolding geometry_def bins_apart_def by (cases "a = c") (auto simp: o')
  next
    fix y assume y: "y \<in> dom m'"
    show "unat y \<in> mp x"
    proof (cases "unat y \<in> {unat p + 16 ..< unat p + unat len} \<and> 32 dvd unat y - (unat p + 16)")
      case True
      then show ?thesis using R(2) by (auto simp: area_def)
    next
      case False
      then have "m y = hmem s y" using M(1) [of y] by (simp only: if_False)
      then have "y \<in> dom (hmem s)" using y unfolding dm by (simp add: dom_def)
      then show ?thesis using cells R(3) by blast
    qed
  qed
  ultimately have G: "geometry K m' (mp x) g'" by (simp add: geometry_def)
  have tg: "tags m' g'"
  proof -
    note D = tagsD [OF HD(2)]
    have v: "cz m' e = cz (hmem s) e \<and> pz m' e = pz (hmem s) e" if "e \<in> owners g" for e using same [OF that] by (simp add: cz_def pz_def)
    have ob: "e \<in> owners g" if "e \<in> dom (blk g) \<union> ends g" for e using that by (auto simp: owners_def)
    have 1: "cz m' e = tag y w \<and> pz m' (e + y) = tag y w" if b: "blk g e = Some (y, w)" for e y w
    proof -
      have "e \<in> dom (blk g) \<union> ends g" using b by auto
      then show ?thesis using D(1,2) [OF b] v [OF ob] geometry_block(4) [OF HD(1) b] by simp
    qed
    have 3: "blk g (e - pz m' e) = Some (pz m' e, False)" if "e \<in> dom (blk g) \<union> ends g" "pz m' e AND 1 = 0" for e
      using that D(4) v [OF ob [OF that(1)]] by simp
    have 5: "cz m' e = y \<and> pz m' e = 16" if e: "maps g' e = Some y" for e y
    proof (cases "e = c")
      case True
      then show ?thesis using e by (simp add: g'_def m'_def)
    next
      case False
      then have "maps g e = Some y" using e by (simp add: g'_def)
      then show ?thesis using D(6,7) v [of e] by (auto simp: owners_def)
    qed
    have 2: "cz m' e = 1" if "e \<in> ends g" for e using D(3) [OF that] v [OF ob] that by auto
    have g': "blk g' = blk g" "ends g' = ends g" by (simp_all add: g'_def)
    show ?thesis unfolding tags_def g' using 1 2 3 D(5) 5 by blast
  qed
  have bi: "bins K m' (hbinmap s) g'"
  proof (rule bins_cong [OF HD(3)])
    show "nx m' e = nx (hmem s) e \<and> pv m' e = pv (hmem s) e" if "\<exists>k<64. e = BIN_TO_CHUNK K k \<or> e \<in> free_in g k" for e
    proof -
      have "m' e = hmem s e" using that bn same free_in_dom unfolding owners_def by blast
      then show ?thesis by (simp add: nx_def pv_def)
    qed
  qed (simp_all add: free_in_def g'_def)
  show "heap K mp cur (mapped_at g c z) (s\<lparr>hsys := x, hmem := m'\<rparr>)"
    using H G tg bi R(4) by (simp add: heap_def g'_def)
  show "live (mapped_at g c z) = insert (c, z) (live g)" "(c, z) \<notin> live g" using c0 by (auto simp: live_def split: if_splits)
  show "untouched (live g) (hmem s) m'"
    unfolding untouched_def
  proof (clarify, intro conjI allI impI)
    fix e w assume l: "(e, w) \<in> live g"
    have e: "e \<in> owners g" using l live_owner by blast
    show "nx m' e = nx (hmem s) e" "pv m' e = pv (hmem s) e" using same [OF e] by (simp_all add: nx_def pv_def)
    fix y assume "unat y \<in> span e w \<and> y \<noteq> e"
    then have "unat y \<in> block_bytes g e" using live_reg [OF HD(1) l] by blast
    then show "m' y = hmem s y" using old oP [OF e] by blast
  qed
qed

lemma adjust_size_ok:
  assumes "adjust_size n = Some z"
  shows "sized z" "z \<noteq> 0" "unat n + 16 \<le> unat z" "unat z \<le> 2 ^ 63"
proof -
  define lim where "lim = PTRDIFF_MAX - SIZE_ALIGN - PAGE_SIZE"
  have ul: "unat lim = 2 ^ 63 - 1 - 32 - 4096" by (simp add: lim_def PTRDIFF_MAX_def SIZE_ALIGN_def PAGE_SIZE_def)
  have "sized z \<and> z \<noteq> 0 \<and> unat n + 16 \<le> unat z \<and> unat z \<le> 2 ^ 63"
  proof (cases "lim < n - 1")
    case True
    then have "n = 0" "z = SIZE_ALIGN" using assms by (simp_all add: adjust_size_def lim_def split: if_splits)
    then show ?thesis by (simp add: SIZE_ALIGN_def sized_def)
  next
    case False
    have n0: "n \<noteq> 0"
    proof
      assume "n = 0"
      moreover have "unat (- 1 :: u64) = 2 ^ 64 - 1" by (simp add: unsigned_minus_1_eq_mask mask_eq_exp_minus_1)
      ultimately show False using False ul by (simp add: word_less_nat_alt)
    qed
    then have u1: "unat (n - 1) = unat n - 1" by (subst unat_sub) (simp_all add: word_le_nat_alt unat_gt_0 Suc_leI)
    have n: "unat n \<le> 2 ^ 63 - 32 - 4096" using False ul u1 by (simp add: word_less_nat_alt)
    have "unat (n + 47) = unat n + 47" using n unat_plus [of n 47] by simp
    moreover have "n + OVERHEAD + SIZE_ALIGN - 1 = n + 47" by (simp add: OVERHEAD_def SIZE_ALIGN_def)
    moreover have "SIZE_MASK = - (2 ^ 5)" by (simp add: SIZE_MASK_def SIZE_ALIGN_def)
    moreover have "z = (n + OVERHEAD + SIZE_ALIGN - 1) AND SIZE_MASK"
      using assms False unfolding adjust_size_def lim_def [symmetric] by simp
    ultimately have z: "unat z = unat n + 47 - (unat n + 47) mod 32"
      using align_down [of 5 "n + 47"] by (simp only:) simp
    have r: "(unat n + 47) mod 32 < 32" by simp
    have "32 dvd unat z" unfolding z by (simp add: minus_mod_eq_mult_div)
    moreover have ge: "unat n + 16 \<le> unat z" using z r by linarith
    moreover have "unat z \<le> unat n + 47" using z by simp
    moreover have "z \<noteq> 0" using ge by auto
    ultimately show ?thesis using n unfolding sized_def by simp
  qed
  then show "sized z" "z \<noteq> 0" "unat n + 16 \<le> unat z" "unat z \<le> 2 ^ 63" by blast+
qed

lemma mem_nonzero: "unat c mod 32 = 16 \<Longrightarrow> unat c + 32 \<le> 2 ^ 64 \<Longrightarrow> CHUNK_TO_MEM c \<noteq> 0 \<and> unat (CHUNK_TO_MEM c) = unat c + 16"
  using unat_plus [of c 16] by (auto simp: CHUNK_TO_MEM_def OVERHEAD_def)

lemma live_shape:
  assumes "heap K mp cur g s" "(c, z) \<in> live g"
  shows "unat c mod 32 = 16" "32 \<le> unat z" "unat c + unat z < 2 ^ 64" "CHUNK_TO_MEM c \<noteq> 0" "unat (CHUNK_TO_MEM c) = unat c + 16"
    "span c z \<subseteq> mp (hsys s)"
proof -
  note G = heapD(1) [OF assms(1)]
  have "unat c mod 32 = 16 \<and> 32 \<le> unat z \<and> unat c + unat z < 2 ^ 64"
  proof (cases "maps g c = Some z")
    case True
    from mapD [OF G this] show ?thesis by simp
  next
    case False
    then have "good c z" using assms(2) geometry_block(1) [OF G] by (auto simp: live_def)
    moreover from this have "32 \<le> unat z" unfolding good_def sized_def by (intro dvd_imp_le) (auto simp: unat_gt_0)
    ultimately show ?thesis by (simp add: good_def)
  qed
  then show "unat c mod 32 = 16" "32 \<le> unat z" "unat c + unat z < 2 ^ 64" "CHUNK_TO_MEM c \<noteq> 0" "unat (CHUNK_TO_MEM c) = unat c + 16"
    using mem_nonzero [of c] by auto
  have "block_bytes g c \<subseteq> mp (hsys s)" using G live_owner [OF assms(2)] unfolding geometry_def apart_blocks_def by blast
  then show "span c z \<subseteq> mp (hsys s)" using live_reg [OF G assms(2)] by blast
qed

lemma live_disjoint:
  assumes "heap K mp cur g s" "(c, z) \<in> live g" "(d, y) \<in> live g" "c \<noteq> d"
  shows "span c z \<inter> span d y = {}"
  using owner_unique [OF heapD(1) [OF assms(1)] live_owner [OF assms(2)] live_owner [OF assms(3)]] assms(4)
    live_reg [OF heapD(1) [OF assms(1)] assms(2)] live_reg [OF heapD(1) [OF assms(1)] assms(3)] by blast

lemma live_fun: "heap K mp cur g s \<Longrightarrow> (c, z) \<in> live g \<Longrightarrow> (c, y) \<in> live g \<Longrightarrow> z = y"
  using heapD(1) mapD(1) unfolding live_def by fastforce

text \<open>What a call of \<open>malloc\<close> gives.\<close>

definition malloc_gives :: "'x menv \<Rightarrow> ('x \<Rightarrow> nat set) \<Rightarrow> ('x \<Rightarrow> nat) \<Rightarrow> ghost \<Rightarrow> u64 \<Rightarrow> 'x mstate \<Rightarrow> addr \<Rightarrow> 'x mstate \<Rightarrow> bool" where
  "malloc_gives K mp cur g n s p s' \<longleftrightarrow> untouched (live g) (hmem s) (hmem s') \<and>
     (p = 0 \<and> heap K mp cur g s' \<or>
      (\<exists>c z g'. p = CHUNK_TO_MEM c \<and> unat n + 16 \<le> unat z \<and> heap K mp cur g' s' \<and> live g' = insert (c, z) (live g) \<and> (c, z) \<notin> live g))"

lemma malloc_map:
  assumes H: "heap K mp cur g s" and law: "mmap_law K mp cur" and n: "MMAP_THRESHOLD < n" "unat n \<le> 2 ^ 63"
    and k: "unat k + 16 \<le> unat n" and a: "adjust_size k = Some n"
  shows "\<exists>p s'. malloc K k s = Some (p, s') \<and> malloc_gives K mp cur g k s p s'"
proof -
  define len where "len = (n + OVERHEAD + PAGE_SIZE - 1) AND - PAGE_SIZE"
  have "n + OVERHEAD + PAGE_SIZE - 1 = n + 4111" by (simp add: OVERHEAD_def PAGE_SIZE_def)
  moreover have "unat (n + 4111) = unat n + 4111" using n(2) unat_plus [of n 4111] by simp
  ultimately have ul: "unat len = unat n + 4111 - (unat n + 4111) mod 4096" by (simp only: len_def align_page)
  have "(unat n + 4111) mod 4096 < 4096" by simp
  then have ge: "unat n + 16 \<le> unat len" using ul by linarith
  have d: "4096 dvd unat len" unfolding ul by (simp add: minus_mod_eq_mult_div)
  have l0: "len \<noteq> 0" using ge by auto
  obtain p x where px: "anon_mmap K len (hsys s) = (p, x)" by fastforce
  have L: "cur x = cur (hsys s)" "mp (hsys s) \<subseteq> mp x" "p \<noteq> MAP_FAILED \<Longrightarrow> p \<noteq> 0 \<and> 4096 dvd unat p \<and> unat p + unat len < 2 ^ 64 \<and>
        area p len \<inter> mp (hsys s) = {} \<and> area p len \<subseteq> mp x"
    using law px unfolding mmap_law_def by blast+
  show ?thesis
  proof (cases "p = MAP_FAILED")
    case True
    then have "malloc K k s = Some (0, s\<lparr>hsys := x\<rparr>)" using a n(1) px by (simp add: malloc_def Let_def len_def [symmetric])
    moreover have "heap K mp cur g (s\<lparr>hsys := x\<rparr>)" using heap_sys [OF H] L(1,2) by simp
    ultimately show ?thesis unfolding malloc_gives_def using untouched_refl by (metis (no_types, lifting) mstate.select_convs(1) mstate.surjective mstate.update_convs(7))
  next
    case False
    note F = L(3) [OF False]
    note X = heap_map [OF H, of p len x, OF conjunct1 [OF F]]
    define c where "c = p + 16"
    define z where "z = len - 16"
    define m' where "m' = set_pz (set_cz (map_area p len (hmem s)) c z) c 16"
    have Y: "c \<in> dom (map_area p len (hmem s))" "unat z = unat len - 16" "heap K mp cur (mapped_at g c z) (s\<lparr>hsys := x, hmem := m'\<rparr>)"
        "live (mapped_at g c z) = insert (c, z) (live g)" "(c, z) \<notin> live g" "untouched (live g) (hmem s) m'"
      unfolding c_def z_def m'_def using X F d l0 L(1,2) by simp_all
    have e: "p + SIZE_ALIGN - OVERHEAD = c" "SIZE_ALIGN - OVERHEAD = 16" "len - 16 = z" by (simp_all add: c_def z_def SIZE_ALIGN_def OVERHEAD_def)
    have "malloc K k s = Some (CHUNK_TO_MEM c, s\<lparr>hsys := x, hmem := m'\<rparr>)"
      using a n(1) px False Y(1) by (simp add: malloc_def Let_def len_def [symmetric] e field_eqs m'_def)
    moreover have "unat k + 16 \<le> unat z" using Y(2) ge k by simp
    ultimately show ?thesis unfolding malloc_gives_def using Y by fastforce
  qed
qed

lemma malloc_ok:
  assumes H: "heap K mp cur g s" and laws: "mmap_law K mp cur" "brk_law K mp cur" "madvise_law K mp cur"
  shows "\<exists>p s'. malloc K k s = Some (p, s') \<and> malloc_gives K mp cur g k s p s'"
proof (cases "adjust_size k")
  case None
  have "heap K mp cur g (s\<lparr>herrno := ENOMEM\<rparr>)" using H by (simp add: heap_def)
  then show ?thesis using None untouched_refl by (auto simp: malloc_def malloc_gives_def)
next
  case (Some n)
  note A = adjust_size_ok [OF Some]
  show ?thesis
  proof (cases "MMAP_THRESHOLD < n")
    case True
    then show ?thesis using malloc_map [OF H laws(1) True A(4,3) Some] by blast
  next
    case False
    then have le: "n \<le> MMAP_THRESHOLD" by simp
    obtain i where i: "bin_index_up n = Some i" using bin_index_up_units [OF A(1,2) le] by blast
    obtain c s' where l: "malloc_loop K n i s = Some (c, s')" "obtained K mp cur g n s c s'"
      using malloc_loop_ok [OF H laws(1,2) A(1,2) le i] by blast
    show ?thesis
    proof (cases "c = 0")
      case True
      then have "malloc K k s = Some (0, s')" using Some False i l(1) by (simp add: malloc_def)
      then show ?thesis using l(2) True unfolding obtained_def malloc_gives_def by blast
    next
      case c0: False
      obtain N g' where g': "n \<le> N" "heap K mp cur g' s'" "blk g' c = Some (N, True)" "live g' = insert (c, N) (live g)" "(c, N) \<notin> live g"
          "untouched (live g) (hmem s) (hmem s')"
        using l(2) c0 unfolding obtained_def by blast
      have lg: "live g' - {(c, N)} = live g" using g'(4,5) by blast
      obtain s'' g'' where t: "trim K c n s' = Some s''" "heap K mp cur g'' s''" "live g'' = insert (c, n) (live g)"
          "untouched (live g) (hmem s') (hmem s'')"
        using trim_ok [OF g'(2,3) A(1,2) g'(1) laws(3)] unfolding lg by blast
      have "(c, n) \<notin> live g" using live_fun [OF g'(2), of c n N] g'(4,5) by blast
      moreover have "malloc K k s = Some (CHUNK_TO_MEM c, s'')" using Some False i l(1) c0 t(1) by (simp add: malloc_def)
      ultimately show ?thesis unfolding malloc_gives_def using t(2-4) untouched_trans [OF g'(6)] A(3) by blast
    qed
  qed
qed

end
