(* ===== verification/MallocRuns.thy ===== *)
theory MallocRuns
  imports MallocOps
begin

text \<open>
  The allocator and its client. The locale \<open>allocator\<close> is the contract: a call returns, gives a block apart from those
  that are held, and leaves their words alone; a program that keeps to what it holds can go on for ever. \<open>malloc\<close> and
  \<open>free\<close> are interpreted in it. At the end there is a system that obeys the laws, with a heap at its start.
\<close>

section \<open>The contract of an allocator\<close>

text \<open>
  A program that asks for blocks and gives them back: it holds a list of blocks with the sizes it asked for, and
  \<open>Give i\<close> gives back the \<open>i\<close>-th of them.
\<close>

datatype request = Ask u64 | Give nat

fun run_requests :: "(u64 \<Rightarrow> 's \<Rightarrow> (addr \<times> 's) option) \<Rightarrow> (addr \<Rightarrow> 's \<Rightarrow> 's option) \<Rightarrow>
    request list \<Rightarrow> (addr \<times> u64) list \<Rightarrow> 's \<Rightarrow> ((addr \<times> u64) list \<times> 's) option" where
  "run_requests alloc dealloc [] B s = Some (B, s)"
| "run_requests alloc dealloc (Ask n # rs) B s =
     do { (p, s) \<leftarrow> alloc n s; run_requests alloc dealloc rs (if p = 0 then B else B @ [(p, n)]) s }"
| "run_requests alloc dealloc (Give i # rs) B s =
     (if i < length B
      then do { s \<leftarrow> dealloc (fst (B ! i)) s; run_requests alloc dealloc rs (take i B @ drop (Suc i) B) s }
      else run_requests alloc dealloc rs B s)"

definition kept :: "('s \<Rightarrow> addr \<Rightarrow> u64) \<Rightarrow> (addr \<times> u64) set \<Rightarrow> 's \<Rightarrow> 's \<Rightarrow> bool" where
  "kept word B s s' \<longleftrightarrow> (\<forall>(p, n)\<in>B. \<forall>a. unat a \<in> area p n \<and> 8 dvd unat a \<longrightarrow> word s' a = word s a)"

lemma kept_refl: "kept word B s s"
  by (simp add: kept_def)

lemma kept_trans: "kept word B s s' \<Longrightarrow> kept word B s' s'' \<Longrightarrow> kept word B s s''"
  unfolding kept_def by fastforce

lemma kept_mono: "kept word B s s' \<Longrightarrow> A \<subseteq> B \<Longrightarrow> kept word A s s'"
  unfolding kept_def by blast

locale allocator =
  fixes alloc :: "u64 \<Rightarrow> 's \<Rightarrow> (addr \<times> 's) option"
    and dealloc :: "addr \<Rightarrow> 's \<Rightarrow> 's option"
    and inv :: "'s \<Rightarrow> (addr \<times> u64) set \<Rightarrow> bool"
    and word :: "'s \<Rightarrow> addr \<Rightarrow> u64"
  assumes alloc_law: "inv s B \<Longrightarrow> \<exists>p s'. alloc n s = Some (p, s') \<and> inv s' (if p = 0 then B else insert (p, n) B) \<and>
      (p \<noteq> 0 \<longrightarrow> p \<notin> fst ` B) \<and> kept word B s s'"
    and dealloc_law: "inv s B \<Longrightarrow> (p, n) \<in> B \<Longrightarrow> \<exists>s'. dealloc p s = Some s' \<and> inv s' (B - {(p, n)}) \<and> kept word (B - {(p, n)}) s s'"
    and apart_law: "inv s B \<Longrightarrow> (p, n) \<in> B \<Longrightarrow> (q, k) \<in> B \<Longrightarrow> (p, n) \<noteq> (q, k) \<Longrightarrow> area p n \<inter> area q k = {}"
begin

lemma runs:
  "inv s (set (H @ B)) \<Longrightarrow> distinct (map fst (H @ B)) \<Longrightarrow> (\<And>i. Give i \<in> set rs \<Longrightarrow> length H \<le> i) \<Longrightarrow>
    \<exists>C s'. run_requests alloc dealloc rs (H @ B) s = Some (H @ C, s') \<and> inv s' (set (H @ C)) \<and> distinct (map fst (H @ C)) \<and>
      kept word (set H) s s'"
proof (induction rs arbitrary: B s)
  case Nil
  then show ?case using kept_refl by auto
next
  case (Cons r rs)
  note G = Cons.prems(3)
  have G': "\<And>i. Give i \<in> set rs \<Longrightarrow> length H \<le> i" using G by simp
  show ?case
  proof (cases r)
    case (Ask n)
    obtain p s1 where a: "alloc n s = Some (p, s1)" "inv s1 (if p = 0 then set (H @ B) else insert (p, n) (set (H @ B)))"
        "p \<noteq> 0 \<longrightarrow> p \<notin> fst ` set (H @ B)" "kept word (set (H @ B)) s s1"
      using alloc_law [OF Cons.prems(1), of n] by blast
    define B' where "B' = (if p = 0 then B else B @ [(p, n)])"
    have "set (H @ B') = (if p = 0 then set (H @ B) else insert (p, n) (set (H @ B)))" by (simp add: B'_def)
    then have "inv s1 (set (H @ B'))" using a(2) by simp
    moreover have "distinct (map fst (H @ B'))" using Cons.prems(2) a(3) by (auto simp: B'_def)
    ultimately obtain C s' where C: "run_requests alloc dealloc rs (H @ B') s1 = Some (H @ C, s')" "inv s' (set (H @ C))"
        "distinct (map fst (H @ C))" "kept word (set H) s1 s'"
      using Cons.IH [OF _ _ G'] by blast
    have "kept word (set H) s s1" by (rule kept_mono [OF a(4)]) simp
    then have "kept word (set H) s s'" using C(4) by (rule kept_trans)
    moreover have "run_requests alloc dealloc (r # rs) (H @ B) s = Some (H @ C, s')"
      using a(1) C(1) by (simp add: Ask B'_def split: if_splits)
    ultimately show ?thesis using C(2,3) by blast
  next
    case (Give i)
    then have i: "length H \<le> i" using G by simp
    show ?thesis
    proof (cases "i < length (H @ B)")
      case False
      obtain C s' where "run_requests alloc dealloc rs (H @ B) s = Some (H @ C, s')" "inv s' (set (H @ C))"
          "distinct (map fst (H @ C))" "kept word (set H) s s'"
        using Cons.IH [OF Cons.prems(1,2) G'] by blast
      then show ?thesis using False Give by auto
    next
      case True
      define j where "j = i - length H"
      have j: "i = length H + j" "j < length B" using i True by (auto simp: j_def)
      obtain p n where pn: "B ! j = (p, n)" by fastforce
      have mem: "(p, n) \<in> set (H @ B)" using pn j(2) by (metis UnCI nth_mem set_append)
      obtain s1 where a: "dealloc p s = Some s1" "inv s1 (set (H @ B) - {(p, n)})" "kept word (set (H @ B) - {(p, n)}) s s1"
        using dealloc_law [OF Cons.prems(1) mem] by blast
      define B' where "B' = take j B @ drop (Suc j) B"
      have B: "B = take j B @ (p, n) # drop (Suc j) B" using id_take_nth_drop [OF j(2)] pn by simp
      have d: "distinct (map fst (H @ take j B @ (p, n) # drop (Suc j) B))" using Cons.prems(2) B by metis
      have nin: "(p, n) \<notin> set H" "(p, n) \<notin> set (take j B)" "(p, n) \<notin> set (drop (Suc j) B)"
        using d by (simp_all add: image_iff) (metis fst_conv)+
      have "set B = insert (p, n) (set (take j B) \<union> set (drop (Suc j) B))" by (subst B) auto
      then have S: "set (H @ B) - {(p, n)} = set (H @ B')" "(p, n) \<notin> set H" using nin unfolding B'_def by auto
      have "distinct (map fst (H @ B'))" using d by (simp add: B'_def)
      then obtain C s' where C: "run_requests alloc dealloc rs (H @ B') s1 = Some (H @ C, s')" "inv s' (set (H @ C))"
          "distinct (map fst (H @ C))" "kept word (set H) s1 s'"
        using Cons.IH [OF _ _ G', of s1 B'] a(2) S(1) by auto
      have "kept word (set H) s s1" by (rule kept_mono [OF a(3)]) (use S(2) in auto)
      then have "kept word (set H) s s'" using C(4) by (rule kept_trans)
      moreover have "(H @ B) ! i = (p, n)" "take i (H @ B) @ drop (Suc i) (H @ B) = H @ B'"
        using pn j by (simp_all add: nth_append B'_def)
      then have "run_requests alloc dealloc (r # rs) (H @ B) s = Some (H @ C, s')"
        using a(1) C(1) True by (simp add: Give)
      ultimately show ?thesis using C(2,3) by blast
    qed
  qed
qed

lemma blocks_apart:
  "inv s (set B) \<Longrightarrow> distinct (map fst B) \<Longrightarrow> i < length B \<Longrightarrow> j < length B \<Longrightarrow> i \<noteq> j \<Longrightarrow>
    area (fst (B ! i)) (snd (B ! i)) \<inter> area (fst (B ! j)) (snd (B ! j)) = {}"
proof -
  assume a: "inv s (set B)" "distinct (map fst B)" "i < length B" "j < length B" "i \<noteq> j"
  then have "B ! i \<noteq> B ! j" by (metis distinct_map nth_eq_iff_index_eq)
  then show ?thesis using apart_law [OF a(1), of "fst (B ! i)" "snd (B ! i)" "fst (B ! j)" "snd (B ! j)"] a(3,4) by simp
qed

end

section \<open>The allocator of musl keeps the contract\<close>

definition system :: "'x menv \<Rightarrow> ('x \<Rightarrow> nat set) \<Rightarrow> ('x \<Rightarrow> nat) \<Rightarrow> bool" where
  "system K mp cur \<longleftrightarrow> mmap_law K mp cur \<and> brk_law K mp cur \<and> madvise_law K mp cur \<and> munmap_law K mp cur"

text \<open>The 8-byte word at an address, through the chunk it lies in.\<close>

definition word_at :: "'x mstate \<Rightarrow> addr \<Rightarrow> u64" where
  "word_at s a = (let r = unat a mod 32; m = hmem s
     in if r = 0 then nx m (a - 16) else if r = 8 then pv m (a - 24) else if r = 16 then pz m a else cz m (a - 8))"

definition holds :: "'x menv \<Rightarrow> ('x \<Rightarrow> nat set) \<Rightarrow> ('x \<Rightarrow> nat) \<Rightarrow> 'x mstate \<Rightarrow> (addr \<times> u64) set \<Rightarrow> bool" where
  "holds K mp cur s B \<longleftrightarrow> system K mp cur \<and> inj_on fst B \<and> (\<exists>g. heap K mp cur g s \<and>
     (\<forall>(p, n)\<in>B. \<exists>c z. p = CHUNK_TO_MEM c \<and> (c, z) \<in> live g \<and> unat n + 16 \<le> unat z))"

lemma word_at_untouched:
  assumes U: "untouched U (hmem s) (hmem s')" "(c, z) \<in> U" and c: "unat c mod 32 = 16" "unat c + unat z < 2 ^ 64"
    and a: "unat a \<in> {unat c + 16 ..< unat c + unat z}" "8 dvd unat a"
  shows "word_at s' a = word_at s a"
proof -
  note T = U [unfolded untouched_def]
  have h: "nx (hmem s') c = nx (hmem s) c" "pv (hmem s') c = pv (hmem s) c" and b: "\<And>x. unat x \<in> span c z \<Longrightarrow> x \<noteq> c \<Longrightarrow> hmem s' x = hmem s x"
    using T by blast+
  obtain k where k: "unat c = 32 * k + 16" using c(1) by (metis div_mult_mod_eq mult.commute)
  define j r where "j = unat a div 32" and "r = unat a mod 32"
  have ar: "unat a = 32 * j + r" "r < 32" by (simp_all add: j_def r_def)
  have "8 dvd r" using a(2) by (simp add: r_def dvd_mod_iff)
  then obtain i where "r = 8 * i" by (auto elim: dvdE)
  then have "r \<in> {0, 8, 16, 24}" using ar(2) by auto
  moreover have jk: "k < j" using a(1) ar k by auto
  have sub: "unat (a - w) = unat a - unat w" if "unat w \<le> unat a" for w using that by (simp add: unat_sub word_le_nat_alt)
  have same: "hmem s' x = hmem s x" if "unat x = 32 * j + 16" "16 \<le> r" for x
  proof -
    have "x \<noteq> c" using that(1) k jk by auto
    moreover have "unat x \<in> span c z" using that a(1) ar k jk by (auto simp: span_def)
    ultimately show ?thesis using b by blast
  qed
  show ?thesis
  proof (cases "r = 0 \<or> r = 8")
    case True
    define x where "x = a - (if r = 0 then 16 else 24)"
    have ux: "unat x = 32 * (j - 1) + 16" using True sub [of 16] sub [of 24] ar jk by (auto simp: x_def)
    have "nx (hmem s') x = nx (hmem s) x \<and> pv (hmem s') x = pv (hmem s) x"
    proof (cases "x = c")
      case False
      have "unat x \<in> span c z" using ux a(1) ar k jk by (auto simp: span_def)
      then show ?thesis using b [OF _ False] by (simp add: nx_def pv_def)
    qed (use h in simp)
    then show ?thesis using True by (auto simp: word_at_def r_def [symmetric] x_def Let_def)
  next
    case False
    then have "r = 16 \<or> r = 24" using \<open>r \<in> {0, 8, 16, 24}\<close> by auto
    then show ?thesis
    proof
      assume r: "r = 16"
      then show ?thesis using same [of a] ar by (simp add: word_at_def r_def [symmetric] pz_def Let_def)
    next
      assume r: "r = 24"
      then have "unat (a - 8) = 32 * j + 16" using sub [of 8] ar by simp
      then show ?thesis using same [of "a - 8"] r by (simp add: word_at_def r_def [symmetric] cz_def Let_def)
    qed
  qed
qed

lemma kept_untouched:
  assumes H: "heap K mp cur g s" and U: "untouched U (hmem s) (hmem s')" "U \<subseteq> live g"
    and B: "\<And>p n. (p, n) \<in> B \<Longrightarrow> \<exists>c z. p = CHUNK_TO_MEM c \<and> (c, z) \<in> U \<and> unat n + 16 \<le> unat z"
  shows "kept word_at B s s'"
  unfolding kept_def
proof (intro ballI, clarify)
  fix p n and a :: addr assume b: "(p, n) \<in> B" and a: "unat a \<in> area p n" "8 dvd unat a"
  obtain c z where c: "p = CHUNK_TO_MEM c" "(c, z) \<in> U" "unat n + 16 \<le> unat z" using B [OF b] by blast
  have l: "(c, z) \<in> live g" using c(2) U(2) by blast
  note L = live_shape [OF H l]
  have "unat a \<in> {unat c + 16 ..< unat c + unat z}" using a(1) c(1,3) L(5) by (auto simp: area_def)
  then show "word_at s' a = word_at s a" by (rule word_at_untouched [OF U(1) c(2) L(1,3) _ a(2)])
qed

lemma mem_inj: "CHUNK_TO_MEM c = CHUNK_TO_MEM d \<longleftrightarrow> c = d"
  by (simp add: CHUNK_TO_MEM_def)

interpretation musl: allocator "malloc K" "mfree K" "holds K mp cur" word_at
proof
  fix s B n
  assume h: "holds K mp cur s B"
  then obtain g where sy: "system K mp cur" and i: "inj_on fst B" and H: "heap K mp cur g s"
      and B: "\<And>p n. (p, n) \<in> B \<Longrightarrow> \<exists>c z. p = CHUNK_TO_MEM c \<and> (c, z) \<in> live g \<and> unat n + 16 \<le> unat z"
    unfolding holds_def by fastforce
  obtain p s' where m: "malloc K n s = Some (p, s')" "malloc_gives K mp cur g n s p s'"
    using malloc_ok [OF H, of n] sy unfolding system_def by blast
  have k: "kept word_at B s s'" using kept_untouched [OF H _ order_refl B] m(2) unfolding malloc_gives_def by blast
  show "\<exists>p s'. malloc K n s = Some (p, s') \<and> holds K mp cur s' (if p = 0 then B else insert (p, n) B) \<and>
      (p \<noteq> 0 \<longrightarrow> p \<notin> fst ` B) \<and> kept word_at B s s'"
  proof (cases "p = 0")
    case True
    have "heap K mp cur g s'"
    proof (rule ccontr)
      assume "\<not> heap K mp cur g s'"
      then obtain c z g' where "p = CHUNK_TO_MEM c" "heap K mp cur g' s'" "live g' = insert (c, z) (live g)"
        using m(2) unfolding malloc_gives_def by blast
      then show False using live_shape(4) [of K mp cur g' s' c z] True by auto
    qed
    then have "holds K mp cur s' B" unfolding holds_def using sy i B by fast
    then show ?thesis using m(1) True k by auto
  next
    case False
    then obtain c z g' where c: "p = CHUNK_TO_MEM c" "unat n + 16 \<le> unat z" "heap K mp cur g' s'" "live g' = insert (c, z) (live g)" "(c, z) \<notin> live g"
      using m(2) unfolding malloc_gives_def by blast
    have new: "p \<notin> fst ` B"
    proof
      assume "p \<in> fst ` B"
      then obtain n' where "(p, n') \<in> B" by auto
      then obtain d y where d: "p = CHUNK_TO_MEM d" "(d, y) \<in> live g" using B by blast
      then have "(c, y) \<in> live g" using c(1) mem_inj by simp
      then show False using live_fun [OF c(3), of c y z] c(4,5) by auto
    qed
    have "inj_on fst (insert (p, n) B)" using i new by (auto simp: inj_on_def)
    then have "holds K mp cur s' (insert (p, n) B)"
      unfolding holds_def using sy c(1-4) B by (intro conjI exI [of _ g']) fast+
    then show ?thesis using m(1) False new k by auto
  qed
next
  fix s B p n
  assume h: "holds K mp cur s B" and pn: "(p, n) \<in> B"
  then obtain g where sy: "system K mp cur" and i: "inj_on fst B" and H: "heap K mp cur g s"
      and B: "\<And>p n. (p, n) \<in> B \<Longrightarrow> \<exists>c z. p = CHUNK_TO_MEM c \<and> (c, z) \<in> live g \<and> unat n + 16 \<le> unat z"
    unfolding holds_def by fastforce
  obtain c z where c: "p = CHUNK_TO_MEM c" "(c, z) \<in> live g" using B [OF pn] by blast
  obtain s' g' where m: "mfree K p s = Some s'" "heap K mp cur g' s'" "live g' = live g - {(c, z)}" "untouched (live g - {(c, z)}) (hmem s) (hmem s')"
    using mfree_ok [OF H c(2)] sy c(1) unfolding system_def by blast
  have B': "\<exists>d y. q = CHUNK_TO_MEM d \<and> (d, y) \<in> live g - {(c, z)} \<and> unat k + 16 \<le> unat y" if q: "(q, k) \<in> B - {(p, n)}" for q k
  proof -
    obtain d y where d: "q = CHUNK_TO_MEM d" "(d, y) \<in> live g" "unat k + 16 \<le> unat y" using B q by blast
    have "q \<noteq> p" using inj_onD [OF i, of "(q, k)" "(p, n)"] q pn by auto
    then have "d \<noteq> c" using d(1) c(1) by auto
    then show ?thesis using d by blast
  qed
  have "inj_on fst (B - {(p, n)})" by (rule inj_on_subset [OF i]) blast
  then have "holds K mp cur s' (B - {(p, n)})" unfolding holds_def using sy m(2,3) B' by (intro conjI exI [of _ g']) auto
  moreover have "kept word_at (B - {(p, n)}) s s'" by (rule kept_untouched [OF H m(4) _ B']) auto
  ultimately show "\<exists>s'. mfree K p s = Some s' \<and> holds K mp cur s' (B - {(p, n)}) \<and> kept word_at (B - {(p, n)}) s s'" using m(1) by blast
next
  fix s B p n q k
  assume h: "holds K mp cur s B" and pq: "(p, n) \<in> B" "(q, k) \<in> B" "(p, n) \<noteq> (q, k)"
  then obtain g where i: "inj_on fst B" and H: "heap K mp cur g s"
      and B: "\<And>p n. (p, n) \<in> B \<Longrightarrow> \<exists>c z. p = CHUNK_TO_MEM c \<and> (c, z) \<in> live g \<and> unat n + 16 \<le> unat z"
    unfolding holds_def by fastforce
  obtain c z where c: "p = CHUNK_TO_MEM c" "(c, z) \<in> live g" "unat n + 16 \<le> unat z" using B [OF pq(1)] by blast
  obtain d y where d: "q = CHUNK_TO_MEM d" "(d, y) \<in> live g" "unat k + 16 \<le> unat y" using B [OF pq(2)] by blast
  have "p \<noteq> q" using inj_onD [OF i, of "(p, n)" "(q, k)"] pq by auto
  then have "span c z \<inter> span d y = {}" using live_disjoint [OF H c(2) d(2)] c(1) d(1) by auto
  moreover have "area p n \<subseteq> span c z" using live_shape(5) [OF H c(2)] c(1,3) by (auto simp: area_def span_def)
  moreover have "area q k \<subseteq> span d y" using live_shape(5) [OF H d(2)] d(1,3) by (auto simp: area_def span_def)
  ultimately show "area p n \<inter> area q k = {}" by blast
qed

section \<open>The heap at the start\<close>

text \<open>The static variables are zero and no memory but the bins is mapped for the heap.\<close>

definition fresh_heap :: "'x menv \<Rightarrow> ('x \<Rightarrow> nat set) \<Rightarrow> 'x mstate \<Rightarrow> bool" where
  "fresh_heap K mp s \<longleftrightarrow> hbinmap s = 0 \<and> hend s = 0 \<and> hbrk s = 0 \<and> hstep s = 0 \<and>
     (\<forall>i<64. BIN_TO_CHUNK K i \<in> dom (hmem s) \<and> nx (hmem s) (BIN_TO_CHUNK K i) = 0) \<and> (\<forall>c\<in>dom (hmem s). unat c \<in> mp (hsys s))"

definition no_blocks :: ghost where
  "no_blocks = \<lparr>blk = Map.empty, ends = {}, lists = (\<lambda>i. []), maps = Map.empty\<rparr>"

lemma no_blocks_simps [simp]: "blk no_blocks = Map.empty" "ends no_blocks = {}" "lists no_blocks i = []" "maps no_blocks = Map.empty" "live no_blocks = {}"
  by (simp_all add: no_blocks_def live_def)

lemma fresh_heap_ok: "fresh_heap K mp s \<Longrightarrow> heap K mp cur no_blocks s"
  by (simp add: fresh_heap_def heap_def geometry_def shape_def kinds_def apart_blocks_def bins_apart_def owners_def tags_def bins_def free_in_def)

lemma fresh_holds: "system K mp cur \<Longrightarrow> fresh_heap K mp s \<Longrightarrow> holds K mp cur s {}"
  unfolding holds_def using fresh_heap_ok by fastforce

lemma holds_block:
  assumes "holds K mp cur s B" "(p, n) \<in> B"
  shows "p \<noteq> 0" "16 dvd unat p" "area p n \<subseteq> mp (hsys s)"
proof -
  obtain g c z where g: "heap K mp cur g s" "p = CHUNK_TO_MEM c" "(c, z) \<in> live g" "unat n + 16 \<le> unat z"
    using assms unfolding holds_def by fast
  note L = live_shape [OF g(1,3)]
  show "p \<noteq> 0" using L(4) g(2) by simp
  have "unat c mod 16 = 0" using L(1) by (metis mod_mod_cancel [of 16 32] dvd_triv_left mod_self mult_2_right numeral_Bit0)
  then show "16 dvd unat p" using L(5) g(2) by (simp add: dvd_eq_mod_eq_0 mod_add_right_eq)
  have "area p n \<subseteq> span c z" using L(5) g(2,4) by (auto simp: area_def span_def)
  then show "area p n \<subseteq> mp (hsys s)" using L(6) by blast
qed

section \<open>A system\<close>

text \<open>
  A system without a break whose state is the number of pages it has mapped above the first 16, in the order of the
  calls, and that keeps what is unmapped.
\<close>

definition pages_end :: "nat \<Rightarrow> nat" where
  "pages_end k = 4096 * (k + 16)"

definition page_system :: "nat menv" where
  "page_system = \<lparr>bin0 = 4096, sys_brk = (\<lambda>a k. (- 38, k)),
     anon_mmap = (\<lambda>len k. if 4096 dvd unat len \<and> unat len + pages_end k \<le> 2 ^ 62
        then (of_nat (pages_end k), k + unat len div 4096) else (MAP_FAILED, k)),
     sys_munmap = (\<lambda>a len k. k), sys_madvise = (\<lambda>a len k. k), auxv = 0, stack = 0\<rparr>"

definition page_bytes :: "nat \<Rightarrow> nat set" where
  "page_bytes k = {0 ..< pages_end k}"

definition page_start :: "nat mstate" where
  "page_start = \<lparr>hmem = (\<lambda>c. if \<exists>i\<in>{0..<64}. c = BIN_TO_CHUNK page_system i then Some \<lparr>psize = 0, csize = 0, cnext = 0, cprev = 0\<rparr> else None),
     hbinmap = 0, hend = 0, hbrk = 0, hstep = 0, herrno = 0, hsys = 0\<rparr>"

lemma page_system_ok: "system page_system page_bytes (\<lambda>k. 0)"
proof -
  have "mmap_law page_system page_bytes (\<lambda>k. 0)"
    unfolding mmap_law_def
  proof (intro allI impI, goal_cases)
    case (1 len k p k')
    show ?case
    proof (cases "4096 dvd unat len \<and> unat len + pages_end k \<le> 2 ^ 62")
      case False
      then have "p = MAP_FAILED" "k' = k" using 1 unfolding page_system_def menv.simps if_not_P [OF False] by simp_all
      then show ?thesis by simp
    next
      case True
      then have p: "p = of_nat (pages_end k)" "k' = k + unat len div 4096" using 1 by (auto simp: page_system_def)
      have "pages_end k < 2 ^ 64" using True by simp
      then have u: "unat p = pages_end k" unfolding p(1) by (simp add: unat_of_nat take_bit_nat_eq_self)
      have e: "pages_end k' = pages_end k + unat len" using True by (auto simp: pages_end_def p(2) elim!: dvdE)
      have "unat p \<noteq> 0" by (simp add: u pages_end_def)
      then have "p \<noteq> 0" by auto
      moreover have "4096 dvd unat p" by (simp add: u pages_end_def)
      ultimately show ?thesis using True u e
        by (auto simp: page_bytes_def area_def PTRDIFF_MAX_def word_le_nat_alt)
    qed
  qed
  moreover have "brk_law page_system page_bytes (\<lambda>k. 0)"
  proof -
    have "unat (- 38 :: u64) = 2 ^ 64 - 38" by simp
    then show ?thesis by (auto simp: brk_law_def page_system_def)
  qed
  moreover have "madvise_law page_system page_bytes (\<lambda>k. 0)" "munmap_law page_system page_bytes (\<lambda>k. 0)"
    by (auto simp: madvise_law_def munmap_law_def page_system_def)
  ultimately show ?thesis by (simp add: system_def)
qed

lemma page_start_ok: "fresh_heap page_system page_bytes page_start"
proof -
  have u: "unat (BIN_TO_CHUNK page_system i) = 4096 + 24 * i" if "i < 64" for i
  proof -
    have "BIN_TO_CHUNK page_system i = of_nat (4096 + 24 * i)" by (simp add: BIN_TO_CHUNK_def page_system_def)
    then show ?thesis using that by (simp only: unat_of_nat) (simp add: take_bit_nat_eq_self)
  qed
  have "hmem page_start (BIN_TO_CHUNK page_system i) = Some \<lparr>psize = 0, csize = 0, cnext = 0, cprev = 0\<rparr>" if "i < 64" for i
    using that by (auto simp: page_start_def)
  then have "BIN_TO_CHUNK page_system i \<in> dom (hmem page_start) \<and> nx (hmem page_start) (BIN_TO_CHUNK page_system i) = 0" if "i < 64" for i
    using that by (simp add: nx_def dom_def)
  moreover have "unat c \<in> page_bytes (hsys page_start)" if "c \<in> dom (hmem page_start)" for c
    using that u by (auto simp: page_start_def page_bytes_def pages_end_def split: if_splits)
  ultimately show ?thesis by (simp add: fresh_heap_def page_start_def)
qed

end
