(* ===== verification/Spec2Isabelle.thy ===== *)
theory Spec2Isabelle
  imports RtDiv Logging Hash Tsearch Calendar MallocRuns
begin

text \<open>
  A model of synthol, the base layer of a Xen unikernel. The program is a C library, musl under
  \<open>src/src/musl\<close>, with the compiler-rt builtins of \<open>src/src/compiler-rt\<close>, on top of a small layer of its own,
  \<open>src/src/src\<close>, \<open>src/src/crt\<close> and \<open>src/src/include\<close>, that starts the application, talks to the hypervisor and logs.

  \<^bold>\<open>How the parts interact.\<close> The boot code calls \<open>synthol_setup\<close>, which prints its state on the console
  through \<open>HYPERCALL_console_io\<close>, runs \<open>synthol_main\<close> and shuts the domain down. The walks through the
  tables of constructors and destructors (\<open>do_ctors\<close>, \<open>do_dtors\<close>) are there, but nothing in the repository calls them: their callers
  are commented out. \<open>abort\<close> and failed assertions go through the logging functions to the same
  shutdown hypercalls. The logging functions format with \<open>vsnprintf\<close> or through a \<open>FILE\<close> whose write
  function calls the console, so that they rest on \<open>vfprintf\<close>, the buffer of \<open>FILE\<close>, the multibyte conversions
  and the string functions. Memory is asked for with \<open>mmap\<close>, which goes through the system call convention of
  musl. The compiler calls the builtins for wide and checked arithmetic.

  \<^bold>\<open>Conventions.\<close> Memory is a partial map from 64-bit addresses to bytes; an access outside it is \<open>None\<close>, as is undefined
  behaviour and a loop that does not end, so that a result \<open>Some\<close> says the code returns. Loops are
  \<open>partial_function\<close>s in the option type, or structural recursion where they count; no loop has a fuel bound. Machine integers are words and wrap;
  signed comparisons are the signed ones. In the calendar and the abstract specifications they are integers with the range checks
  written out. A \<open>struct\<close> is a record, an \<open>enum\<close> a datatype; \<open>errno\<close> is a cell of memory or part of the result. Code that is not in the repository is a parameter: the hypervisor, the
  application, the system calls, \<open>malloc\<close> where the trees call it, callbacks, the C locale's data; what the code relies on about it is
  a named hypothesis.

  \<^bold>\<open>The theories.\<close>
  \<^item> \<open>Prelude\<close>: facts on words and bits, bounded loops and the options they return.
  \<^item> \<open>RtArith\<close>, \<open>RtBits\<close>, \<open>RtDiv\<close>: the builtins of \<open>compiler-rt\<close>: checked arithmetic, bit
    counting, shifts and comparisons of double words, multiplication and division. The double-word operations are proved in
    locales over the split of a word in halves, interpreted for 64 and 128 bits.
  \<^item> \<open>Mem\<close>, \<open>StrScan\<close>, \<open>StrCopy\<close>, \<open>StrMove\<close>: the memory and \<open>musl/src/string\<close>. Scans and comparisons find what a scan
    byte by byte finds, although they read words; copies and fills change the destination and nothing else, overlapping
    moves included.
  \<^item> \<open>Xen\<close>: \<open>hypercalls.c\<close>, \<open>setup.c\<close>, \<open>abort.c\<close>, \<open>crtbegin.c\<close>, \<open>mman/mmap.c\<close>, \<open>internal/syscall_ret.c\<close>, with the state of the
    hypervisor threaded through and a run of calls that may stop the domain.
  \<^item> \<open>Stdio\<close>: the write side of \<open>FILE\<close> (\<open>__towrite\<close>, \<open>fwrite\<close>, \<open>fputs\<close>, \<open>fputc\<close>, \<open>fflush\<close>, \<open>__stdio_write\<close>, \<open>sn_write\<close>):
    the buffer and what was written are together the text put so far, for every program of such calls (\<open>do_calls\<close>).
  \<^item> \<open>Multibyte\<close>: \<open>musl/src/multibyte\<close> for single characters, with the tables and the state machine of UTF-8.
  \<^item> \<open>Printf\<close>: \<open>printf_core\<close>, \<open>vfprintf\<close>, \<open>vsnprintf\<close>; \<open>PrintfField\<close>, \<open>PrintfSpec\<close>, \<open>PrintfText\<close>: a reference for
    formats (\<open>formats\<close>, an inductive relation between a format, its arguments and its text) and the proof that both passes
    of the code implement it.
  \<^item> \<open>Logging\<close>: \<open>logging.c\<close> and \<open>assert.c\<close>, composed of \<open>Printf\<close>, \<open>Stdio\<close> and \<open>Xen\<close>.
  \<^item> \<open>Hash\<close>: MD5, SHA-256 and SHA-512 of \<open>musl/src/crypt\<close>; the locale \<open>block_hash\<close> shows once that the incremental
    interface does not depend on how a message is cut, and is interpreted on the three.
  \<^item> \<open>Tsearch\<close>: the AVL trees of \<open>search/tsearch_avl.c\<close> in a heap of nodes, with the invariant \<open>search_tree\<close> and the
    refinement to a set of keys (locale \<open>key_set\<close>), and what a walk finds after a session.
  \<^item> \<open>Malloc\<close>: \<open>malloc\<close> and \<open>free\<close> of \<open>musl/src/malloc/malloc.c\<close> with \<open>expand_heap.c\<close>, over the chunks of the heap;
    \<open>MallocHeap\<close>: the invariant \<open>heap\<close> of boundary tags, bins and disjoint blocks; \<open>MallocFree\<close>, \<open>MallocOps\<close>: that
    \<open>free\<close> and \<open>malloc\<close> keep it; \<open>MallocRuns\<close>: the contract of an allocator (locale \<open>allocator\<close>), interpreted on them.
  \<^item> \<open>Calendar\<close>: the conversions between seconds and dates of \<open>musl/src/time\<close> against the Gregorian calendar.

  \<^bold>\<open>The properties\<close> below are stated over these theories: first the base layer and formatted output, then the
  data structures and conversions, then the string functions and builtins. Each has a witness at a concrete
  input where it has hypotheses.

  \<^bold>\<open>Not modelled.\<close> The assembly start-up, the linker script and ELF notes; the conversion of floating-point numbers and all of the
  mathematics library and the floating and complex builtins (no IEEE semantics here); the thread, signal, process and file-system
  calls, which only wrap system calls the hypervisor does not have; regular expressions, DES and Blowfish; the
  conversion tables of \<open>iconv\<close> and the locale; time zones; \<open>realloc\<close>, \<open>calloc\<close> and \<open>memalign\<close>. The locks of \<open>FILE\<close> and
  of the allocator are not taken: one thread runs.
\<close>

section \<open>Start, stop, tables, memory\<close>

text \<open>C1: \<open>itoa\<close> writes sixteen hexadecimal digits and a terminator, and the digits read back as the number.\<close>

theorem itoa_roundtrip:
  assumes "mapped m p 17"
  shows "\<exists>ds. itoa m p v = Some (put_bytes m p (ds @ [0])) \<and> length ds = 16 \<and> 0 \<notin> set ds \<and> hex_value 0 ds = Some (unat v)"
  using itoa_put [OF assms, of v] hexs_nonzero [of 16 v] hex_value_hexs [of 16 v] unsigned_less [of v, where ?'a = nat]
  by (intro exI [of _ "hexs 16 v"]) simp

theorem itoa_roundtrip_witness:
  "\<exists>ds. itoa (flat 0 []) 0x1000 0xdeadbeef = Some (put_bytes (flat 0 []) 0x1000 (ds @ [0])) \<and> hex_value 0 ds = Some 0xdeadbeef"
  using itoa_roundtrip [of "flat 0 []" "0x1000" "0xdeadbeef"] by auto

text \<open>
  C2: a whole run of the entry: the banner with both addresses, the application, its result
  and the end of the banner reach the console in this order, and the domain is then stopped by
  a power-off and not by a crash.
\<close>

theorem setup_run:
  assumes "writes_console H log" "stops_domain H off" "SHUTDOWN_poweroff H = 0" "image_ok I m"
    and "main (shown I m init_sp) (foldl log x (banner_before start_info init_sp)) = Some (Done rc m2 x2)"
    and "image_ok I m2"
  shows "synthol_setup H I main start_info init_sp m x =
    Some (Off (off (foldl log x2 (banner_after rc)) (SHUTDOWN_poweroff H)))"
  using assms by (rule synthol_setup_run [where main = main])

theorem setup_run_witness:
  "synthol_setup demo_hyp demo_image (\<lambda>m x. Some (Done 7 m x)) 0x10 0x20 (flat 0x1000 demo_text) ([], None) =
     Some (Off (banner_before 0x10 0x20 @ banner_after 7, Some 0))"
  using setup_run [OF demo_writes_console demo_stops_domain _ demo_image_ok _ image_shown [OF demo_image_ok],
      where main = "\<lambda>m x. Some (Done 7 m x)" and x = "([], None)" and start_info = "0x10" and init_sp = "0x20"
        and rc = 7]
  by (simp add: demo_hyp_def banner_before_def banner_after_def demo_log_def demo_off_def)

text \<open>C3: \<open>shutdown\<close> and \<open>abort\<close> never return to their caller, whatever the hypervisor answers.\<close>

theorem stop_never_returns:
  "shutdown H I reason m x \<noteq> Some (Done u m' x') \<and> abort H I m x \<noteq> Some (Done u m' x')"
  using stop_with_stops by (fastforce simp: shutdown_def abort_def)

text \<open>
  C4: on a hypervisor that honours the hypercall, \<open>shutdown\<close> ends the domain with a power-off
  for reason 0 and a crash otherwise, and \<open>abort\<close> with a crash.
\<close>

theorem stop_reason:
  assumes "stops_domain H off" "mapped m (op_at I) 4"
  shows "shutdown H I r m x = Some (Off (off x (if r \<noteq> 0 then SHUTDOWN_crash H else SHUTDOWN_poweroff H))) \<and>
         abort H I m x = Some (Off (off x (SHUTDOWN_crash H)))"
  using assms by (simp add: shutdown_reason abort_reason)

theorem stop_reason_witness: "shutdown demo_hyp demo_image 1 (flat 0 []) ([], None) = Some (Off ([], Some 3))"
  using stop_reason [OF demo_stops_domain, of "flat 0 []" demo_image 1 "([], None)"]
  by (simp add: demo_hyp_def demo_off_def)

text \<open>
  C5: the constructors of the table are called once each, in reverse order, and the destructors
  in order, as long as the functions called leave the tables alone.
\<close>

theorem table_order:
  assumes "keeps_table call (a + 8) fs" "0 \<notin> set fs" "words_at m (a + 8) (fs @ [0])"
    "unat a + 8 * (length fs + 1) < 2 ^ 64"
  shows "do_ctors call a m x = call_all call (rev fs) m x \<and> do_dtors call a m x = call_all call fs m x"
  using assms by (simp add: do_ctors_order do_dtors_order)

theorem table_order_witness:
  "do_ctors (\<lambda>f m x. Some (Done () m (x @ [f]))) 0x1000 (flat 0x1008 (concat (map (word_bytes 8) [1 :: u64, 2, 0]))) [] =
     Some (Done () (flat 0x1008 (concat (map (word_bytes 8) [1 :: u64, 2, 0]))) [2, 1])"
  using table_order [of "\<lambda>f m x. Some (Done () m (x @ [f]))" "0x1000" "[1, 2]" "flat 0x1008 (concat (map (word_bytes 8) [1 :: u64, 2, 0]))" "[]"]
    words_at_flat [of "[1, 2, 0]" "0x1008"]
  by (auto simp add: keeps_table_def seq_def ret_def simp del: concat.simps list.map)

text \<open>
  C6: \<open>mmap\<close> returns an address only when the arguments are sound and the system call
  succeeded, leaving memory as the call did; otherwise it returns \<open>MAP_FAILED\<close> with a code in \<open>errno\<close>.
\<close>

theorem mmap_reports:
  assumes "mapped m errno 4"
    "syscall SYS_mmap [start, len, scast prot, scast fl, scast d, off] m x = Some (Done rc m x')"
  shows "\<exists>r m' x''. mmap syscall errno start len prot fl d off m x = Some (Done r m' x'') \<and>
    (r \<noteq> MAP_FAILED \<longrightarrow> r = rc \<and> m' = m \<and> rc \<le> - 4096 \<and> 4096 dvd unat off \<and> len < PTRDIFF_MAX) \<and>
    (r = MAP_FAILED \<longrightarrow> (\<exists>c :: u32. c \<noteq> 0 \<and> c < 4096 \<and> m' = put_bytes m errno (word_bytes 4 c)))"
  by (rule mmap_convention [where syscall = syscall, OF assms])

theorem mmap_reports_witness:
  "\<exists>r m'. mmap (\<lambda>n args m x. Some (Done (- 1) m x)) 0x1000 0 4096 3 0x22 (- 1) 0 (flat 0 []) () = Some (Done r m' ())"
  using mmap_reports [of "flat 0 []" "0x1000" "\<lambda>n args m x. Some (Done (- 1) m x)" 0 4096 3 "0x22" "- 1" 0 "()"]
  by auto

section \<open>Formatted output\<close>

text \<open>
  C7: \<open>vsnprintf\<close> formats as the reference \<open>formats\<close> says: it returns the length of the whole text,
  leaves the part that fits, terminated, at the destination, and changes nothing else but its
  working storage. It always returns.
\<close>

theorem vsnprintf_formats:
  assumes "sn_ready E s n a fmt m" "formats E m (sn_area E s n \<union> work E) fmt args T" "length T < 2 ^ 31"
  shows "\<exists>m'. vsnprintf E s n a (map ISlot args @ ap) m x = Some (Done (of_nat (length T)) m' x) \<and>
    bytes_at m' (sn_start E s n) (take (unat n - 1) T @ [0]) \<and> same_but (sn_area E s n \<union> work E) m m'"
  by (rule vsnprintf_ok [OF assms])

theorem vsnprintf_formats_witness:
  "\<exists>m'. vsnprintf demo_pfenv 0x3000 8 0x100a [ISlot 0x1015, ISlot 42] demo_mem () = Some (Done 10 m' ()) \<and>
     bytes_at m' 0x3000 (bytes_of ''cpu: 00'' @ [0])"
  using vsnprintf_formats [OF demo_sn_ready demo_formats_area, of 8 "[]" "()"]
  by (simp add: sn_start_def) (auto simp: numeral_eq_Suc)

text \<open>
  C8: \<open>synthol_nlogf\<close> prints the formatted text when it fits in the buffer of \<open>n\<close> bytes with its
  terminator. Whether it fits or not, the console is asked for as many bytes as the whole text
  has, so a longer text makes it read past the buffer.
\<close>

theorem nlogf_prints:
  assumes "writes_console H log" "sn_ready E p n a fmt m" "formats E m (sn_area E p n \<union> work E) fmt args T"
    "length T < 2 ^ 31" "n \<noteq> 0"
  shows "\<exists>m'. synthol_nlogf H E p n a (map ISlot args @ ap) m x =
      HYPERCALL_console_io H (CONSOLEIO_write H) (of_nat (length T)) p m' x \<and>
    bytes_at m' p (take (unat n - 1) T @ [0]) \<and>
    (length T < unat n \<longrightarrow> synthol_nlogf H E p n a (map ISlot args @ ap) m x = Some (Done 0 m' (log x T)))"
proof -
  obtain m' where 1: "synthol_nlogf H E p n a (map ISlot args @ ap) m x =
      HYPERCALL_console_io H (CONSOLEIO_write H) (of_nat (length T)) p m' x"
      "bytes_at m' p (take (unat n - 1) T @ [0])"
    using nlogf_console [OF assms(2-5)] by blast
  moreover have "HYPERCALL_console_io H (CONSOLEIO_write H) (of_nat (length T)) p m' x = Some (Done 0 m' (log x T))"
    if "length T < unat n"
    using 1(2) that by (intro console_write assms) (simp add: bytes_at_append)
  ultimately show ?thesis by auto
qed

theorem nlogf_prints_witness:
  "\<exists>m'. synthol_nlogf demo_hyp demo_pfenv 0x3000 11 0x100a [ISlot 0x1015, ISlot 42] demo_mem ([], None) =
     Some (Done 0 m' ([bytes_of ''cpu: 0042%''], None))"
  using nlogf_prints [OF demo_writes_console demo_sn_ready demo_formats_area, of 11 "[]" "([], None)"]
  by (auto simp: demo_log_def)

text \<open>
  C9: \<open>synthol_logf\<close> prints a text without directives in one piece, unless the text is a single
  byte other than a newline: that byte goes to the stream's buffer, from which \<open>vlogf_write\<close>
  never writes, and nothing is printed although the call returns 1.
\<close>

theorem logf_prints:
  assumes "writes_console H log" "\<forall>c\<in>set T. plain c" "T \<noteq> []" "length T < 2 ^ 31" "bytes_at m a (T @ [0])"
    "mapped m (stream_buf L) 1" "stream_buf L \<notin> reg a (Suc (length T))"
  shows "\<exists>m'. synthol_logf H I E L a ap m x =
    Some (Done (of_nat (length T)) m' (if length T = 1 \<and> T \<noteq> [10] then x else log x T))"
  using logf_text [OF assms] by (simp only: lost_def)

theorem logf_prints_witness:
  "\<exists>m'. synthol_logf demo_hyp demo_image demo_pfenv demo_frame 0x100c [] (flat 0x100c [0x41, 0]) ([], None) =
     Some (Done 1 m' ([], None))"
proof -
  have "stream_buf demo_frame \<notin> reg 0x100c (Suc (length [0x41 :: byte]))"
    using reg_apart [of "0x100c" "Suc (length [0x41 :: byte])" "stream_buf demo_frame" 1] by (auto simp: demo_frame_def reg_def)
  then show ?thesis
    using logf_prints [OF demo_writes_console, of "[0x41]" "flat 0x100c [0x41, 0]" "0x100c" demo_frame demo_image demo_pfenv "[]" "([], None)"]
      flat_bytes [of "[0x41, 0]" "0x100c"]
    by simp
qed

section \<open>The heap allocator\<close>

text \<open>
  C10: a program may ask for blocks and give back blocks it holds in any order: every call of \<open>malloc\<close> and \<open>free\<close>
  returns, on every system that obeys the laws of its memory calls, and the blocks the program then holds are distinct,
  not null, aligned to 16 bytes, of mapped memory, and no two of them overlap.
\<close>

theorem malloc_free_runs:
  assumes "system K mp cur" "fresh_heap K mp s"
  shows "\<exists>B s'. run_requests (malloc K) (mfree K) rs [] s = Some (B, s') \<and> distinct (map fst B) \<and>
    (\<forall>i<length B. fst (B ! i) \<noteq> 0 \<and> 16 dvd unat (fst (B ! i)) \<and> area (fst (B ! i)) (snd (B ! i)) \<subseteq> mp (hsys s') \<and>
      (\<forall>j<length B. i \<noteq> j \<longrightarrow> area (fst (B ! i)) (snd (B ! i)) \<inter> area (fst (B ! j)) (snd (B ! j)) = {}))"
proof -
  have "holds K mp cur s (set [])" using fresh_holds [OF assms] by simp
  then obtain B s' where B: "run_requests (malloc K) (mfree K) rs [] s = Some (B, s')" "holds K mp cur s' (set B)" "distinct (map fst B)"
    using musl.runs [of K mp cur s "[]" "[]" rs] by auto
  have "(fst (B ! i), snd (B ! i)) \<in> set B" if "i < length B" for i using that by simp
  note b = holds_block [OF B(2) this]
  show ?thesis using B b musl.blocks_apart [OF B(2,3)] by blast
qed

theorem malloc_free_runs_witness:
  "\<exists>B s'. run_requests (malloc page_system) (mfree page_system) [Ask 100, Ask 300000, Ask 0, Give 0, Ask 5000, Give 1] [] page_start = Some (B, s') \<and>
    distinct (map fst B)"
  using malloc_free_runs [OF page_system_ok page_start_ok, of "[Ask 100, Ask 300000, Ask 0, Give 0, Ask 5000, Give 1]"] by blast

text \<open>
  C11: whatever a program asks for and gives back, the blocks it keeps keep what is in them: while none of the blocks
  \<open>H\<close> it holds is given back, no call of \<open>malloc\<close> or \<open>free\<close> changes a word of them.
\<close>

theorem malloc_keeps_blocks:
  assumes "system K mp cur" "fresh_heap K mp s" "run_requests (malloc K) (mfree K) rs [] s = Some (H, s1)"
    and "\<And>i. Give i \<in> set rs' \<Longrightarrow> length H \<le> i"
  shows "\<exists>C s2. run_requests (malloc K) (mfree K) rs' H s1 = Some (H @ C, s2) \<and>
    (\<forall>(p, n)\<in>set H. \<forall>a. unat a \<in> area p n \<and> 8 dvd unat a \<longrightarrow> word_at s2 a = word_at s1 a)"
proof -
  have "holds K mp cur s (set [])" using fresh_holds [OF assms(1,2)] by simp
  then have B: "holds K mp cur s1 (set H)" "distinct (map fst H)"
    using musl.runs [of K mp cur s "[]" "[]" rs] assms(3) by auto
  then show ?thesis using musl.runs [of K mp cur s1 H "[]" rs'] assms(4) unfolding kept_def by auto
qed

theorem malloc_keeps_blocks_witness:
  "\<exists>H s1 C s2. run_requests (malloc page_system) (mfree page_system) [Ask 100, Ask 300000] [] page_start = Some (H, s1) \<and>
    run_requests (malloc page_system) (mfree page_system) [Ask 8, Ask 200] H s1 = Some (H @ C, s2) \<and>
    (\<forall>(p, n)\<in>set H. \<forall>a. unat a \<in> area p n \<and> 8 dvd unat a \<longrightarrow> word_at s2 a = word_at s1 a)"
proof -
  have "holds page_system page_bytes (\<lambda>k. 0) page_start (set ([] @ []))" using fresh_holds [OF page_system_ok page_start_ok] by simp
  then obtain H s1 where H: "run_requests (malloc page_system) (mfree page_system) [Ask 100, Ask 300000] [] page_start = Some (H, s1)"
    using musl.runs [of page_system page_bytes "\<lambda>k. 0" page_start "[]" "[]" "[Ask 100, Ask 300000]"] by auto
  then show ?thesis
    using malloc_keeps_blocks [OF page_system_ok page_start_ok H, of "[Ask 8, Ask 200]"] by auto
qed

text \<open>
  C12: \<open>malloc\<close> and \<open>free\<close> keep the heap well-formed (blocks apart, size fields that agree, free neighbours merged,
  bins that are rings of their free chunks, the bit map), and change the blocks in use by exactly one: \<open>malloc n\<close> gives
  one of at least \<open>n\<close> bytes and its 16 bytes of header, or none, and \<open>free\<close> takes the one it is called with.
\<close>

theorem heap_well_formed:
  assumes "system K mp cur" "heap K mp cur g s"
  shows "(\<exists>p s' g'. malloc K n s = Some (p, s') \<and> heap K mp cur g' s' \<and>
      (if p = 0 then live g' = live g
       else \<exists>z. unat n + 16 \<le> unat z \<and> (MEM_TO_CHUNK p, z) \<notin> live g \<and> live g' = insert (MEM_TO_CHUNK p, z) (live g))) \<and>
    (\<forall>(c, z)\<in>live g. \<exists>s' g'. mfree K (CHUNK_TO_MEM c) s = Some s' \<and> heap K mp cur g' s' \<and> live g' = live g - {(c, z)})"
proof -
  note laws = assms(1) [unfolded system_def]
  obtain p s' where m: "malloc K n s = Some (p, s')" "malloc_gives K mp cur g n s p s'" using malloc_ok [OF assms(2)] laws by blast
  have "\<exists>p s' g'. malloc K n s = Some (p, s') \<and> heap K mp cur g' s' \<and>
      (if p = 0 then live g' = live g
       else \<exists>z. unat n + 16 \<le> unat z \<and> (MEM_TO_CHUNK p, z) \<notin> live g \<and> live g' = insert (MEM_TO_CHUNK p, z) (live g))"
    using m live_shape(4) unfolding malloc_gives_def by (metis CHUNK_MEM insertI1)
  then show ?thesis using mfree_ok [OF assms(2)] laws by blast
qed

theorem heap_well_formed_witness:
  "\<exists>p s' g'. malloc page_system 100 page_start = Some (p, s') \<and> heap page_system page_bytes (\<lambda>k. 0) g' s'"
  using heap_well_formed [OF page_system_ok fresh_heap_ok [OF page_start_ok], of 100] by blast

text \<open>
  C13: \<open>bin_index\<close> puts every chunk in one of the 64 bins, larger ones in later bins, and for a size \<open>malloc\<close> looks
  for in the bins, \<open>bin_index_up\<close> names a bin from which on every chunk is large enough.
\<close>

theorem bins_fit:
  assumes "sized n" "n \<noteq> 0"
  shows "bin_index n < 64 \<and> (\<forall>z. sized z \<and> n \<le> z \<longrightarrow> bin_index n \<le> bin_index z) \<and>
    (n \<le> MMAP_THRESHOLD \<longrightarrow> (\<exists>i<64. bin_index_up n = Some i \<and> (\<forall>z. sized z \<and> z \<noteq> 0 \<and> i \<le> bin_index z \<longrightarrow> n \<le> z)))"
proof -
  have "bin_index n \<le> bin_index z" if "sized z" "n \<le> z" for z
  proof -
    have "z \<noteq> 0" using that(2) assms(2) by (auto simp: word_le_nat_alt unat_eq_0)
    then have "bin_index z = unit_bin (unat z div 32 - 1)" using bin_index_units that(1) by blast
    moreover have "unat n div 32 - 1 \<le> unat z div 32 - 1" using that(2) by (simp add: word_le_nat_alt div_le_mono diff_le_mono)
    ultimately show ?thesis using bin_index_units [OF assms] unit_bin_mono by simp
  qed
  then show ?thesis using bin_index_range [OF assms] bin_index_up_units [OF assms] by blast
qed

theorem bins_fit_witness: "\<exists>i<64. bin_index_up 4096 = Some i \<and> (\<forall>z. sized z \<and> z \<noteq> 0 \<and> i \<le> bin_index z \<longrightarrow> 4096 \<le> z)"
  using bins_fit [of 4096] by (simp add: sized_def MMAP_THRESHOLD_def SIZE_ALIGN_def word_le_nat_alt)

section \<open>Search trees\<close>

text \<open>
  C14: any sequence of calls of \<open>tsearch\<close>, \<open>tdelete\<close> and \<open>tfind\<close> on a tree returns, and answers as a set of
  keys does: \<open>tdelete\<close> and \<open>tfind\<close> return a node exactly for the keys that are in, and \<open>tsearch\<close> returns none
  only for a new key, with the set unchanged.
\<close>

theorem tree_session:
  assumes "tree_holds s K"
  shows "\<exists>bs s' K'. session tree_step ps s = Some (bs, s') \<and> set_run (trank (tenv s)) ps K bs K' \<and> tree_holds s' K'"
  using tree.run [OF assms, of ps] by blast

theorem tree_session_witness:
  "\<exists>bs s' K'. session tree_step [Insert 5, Insert 7, Remove 5, Lookup 5, Lookup 7]
      \<lparr>tenv = demo_tenv, troot = 0, theap = (\<lambda>_. None), talloc = 1\<rparr> = Some (bs, s') \<and>
    set_run sint [Insert 5, Insert 7, Remove 5, Lookup 5, Lookup 7] {} bs K' \<and> tree_holds s' K'"
proof -
  have "tree_holds \<lparr>tenv = demo_tenv, troot = 0, theap = (\<lambda>_. None), talloc = 1\<rparr> {}"
    unfolding tree_holds_def using demo_orders demo_allocates
    by (auto simp: search_tree_def demo_tenv_def intro!: exI [of _ Leaf])
  from tree_session [OF this, of "[Insert 5, Insert 7, Remove 5, Lookup 5, Lookup 7]"]
  show ?thesis by (simp add: demo_tenv_def)
qed

text \<open>
  C15: \<open>tsearch\<close> for a key that is not in the tree makes the new node a part of it, at its place in the order,
  and returns that node: the tree is again balanced and ordered, its stored heights are right, it has all the
  nodes it had, and no other node is touched.
\<close>

theorem tsearch_inserts:
  assumes "orders cmp rank" "search_tree rank h t" "rank k \<notin> set (ranks rank t)"
    and "alloc x = (p, x')" "p \<noteq> 0" "h p = None"
  shows "\<exists>t' h'. tsearch cmp alloc k (Some (addr_of t)) h x = Some (p, Some (addr_of t'), h', x') \<and>
    search_tree rank h' t' \<and> inserted rank p k t t' \<and> (\<forall>b. b \<notin> insert p (addrs t) \<longrightarrow> h' b = h b)"
proof -
  obtain t' h' where i: "insert_node cmp alloc (addr_of t) k h x = Some ((addr_of t', p), h', x')" "tree_at h' t'" "avl t'"
      "inserted rank p k t t'" "\<forall>b. b \<notin> insert p (addrs t) \<longrightarrow> h' b = h b"
    using insert_ok [where malloc = alloc and x = x, OF assms(1,4-6,2,3)] by blast
  have "addr_of t' \<noteq> 0" using addr_of_0 [OF i(2)] inserted_addrs [OF i(4)] by auto
  then have "tsearch cmp alloc k (Some (addr_of t)) h x = Some (p, Some (addr_of t'), h', x')" using i(1) by (simp add: tsearch_def)
  moreover have "search_tree rank h' t'"
    using i(2,3) inserted_sorted [OF i(4)] assms(2) by (simp add: search_tree_def)
  ultimately show ?thesis using i(4,5) by blast
qed

theorem tsearch_inserts_witness:
  "\<exists>t' h'. tsearch signed_cmp bump 7 (Some 0x1000) demo_tree_heap 0x2000 = Some (0x2000, Some (addr_of t'), h', 0x2001) \<and>
    search_tree sint h' t' \<and> inserted sint 0x2000 7 (Node Leaf (0x1000, 5) Leaf) t'"
  using tsearch_inserts [OF demo_orders demo_search_tree, of 7 bump "0x2000" "0x2000" "0x2001"]
  by (auto simp: bump_def demo_tree_heap_def)

text \<open>
  C16: \<open>tdelete\<close> for a key in the tree unlinks and frees its node and returns the node's parent, or the old root when
  the root was removed; the other nodes stay in order in a balanced tree, and no other node is touched. For any
  other key it returns null and changes nothing.
\<close>

theorem tdelete_removes:
  assumes "orders cmp rank" "search_tree rank h t"
  shows "if rank k \<in> set (ranks rank t)
    then \<exists>t' h' x. tdelete cmp k (Some (addr_of t)) h = Some (above rank (rank k) t (addr_of t), Some (addr_of t'), h') \<and>
      search_tree rank h' t' \<and> removed x t t' \<and> rank (snd x) = rank k \<and> h' (fst x) = None \<and>
      (\<forall>b. b \<notin> addrs t \<longrightarrow> h' b = h b)
    else tdelete cmp k (Some (addr_of t)) h = Some (0, Some (addr_of t), h)"
proof (cases "rank k \<in> set (ranks rank t)")
  case False
  then have "remove_node cmp (addr_of t, h) Root k (addr_of t) = Some (0, (addr_of t, h))"
    using assms(2) by (intro remove_absent [OF assms(1)]) auto
  then show ?thesis using False by (simp add: tdelete_def)
next
  case True
  have ts: "tree_at h t" "sorted_wrt (<) (ranks rank t)" using assms(2) by (simp_all add: search_tree_def)
  have "addr_of t \<noteq> 0" using addr_of_0 [OF ts(1)] True by auto
  then obtain t' s' x where r: "remove_node cmp (addr_of t, h) Root k (addr_of t) = Some (above rank (rank k) t (addr_of t), s')"
      "changed (addr_of t, h) s' Root (addr_of t') (addrs t)" "tree_at (snd s') t'" "avl t'" "removed x t t'"
      "rank (snd x) = rank k" "snd s' (fst x) = None"
    using remove_ok [OF assms(1), where s = "(addr_of t, h)" and n = Root and q = "addr_of t"] assms(2) True by fastforce
  have "tdelete cmp k (Some (addr_of t)) h = Some (above rank (rank k) t (addr_of t), Some (addr_of t'), snd s')"
      "\<forall>b. b \<notin> addrs t \<longrightarrow> snd s' b = h b"
    using r(1,2) by (cases s'; simp add: tdelete_def changed_def)+
  moreover have "search_tree rank (snd s') t'" using r removed_sorted [OF r(5) ts(2)] by (simp add: search_tree_def)
  ultimately show ?thesis using True r(5-7) by (simp del: split_paired_Ex) blast
qed

theorem tdelete_removes_witness:
  "\<exists>t' h'. tdelete signed_cmp 5 (Some 0x1000) demo_tree_heap = Some (0x1000, Some (addr_of t'), h') \<and> search_tree sint h' t' \<and>
    h' 0x1000 = None"
proof -
  have "sint (5 :: u64) \<in> set (ranks sint (Node Leaf (0x1000, 5) Leaf))" by simp
  then obtain t' h' x where r: "tdelete signed_cmp 5 (Some 0x1000) demo_tree_heap = Some (0x1000, Some (addr_of t'), h')"
      "search_tree sint h' t'" "removed x (Node Leaf (0x1000, 5) Leaf) t'" "h' (fst x) = None"
    using tdelete_removes [OF demo_orders demo_search_tree, of 5] by (simp del: split_paired_Ex) blast
  have "fst x = 0x1000" using removed_in [OF r(3)] by simp
  then show ?thesis using r by (intro exI [of _ t'] exI [of _ h']) simp
qed

text \<open>
  C17: \<open>twalk\<close> returns on every tree in the heap, after at most three calls of the action for each node; the calls
  for a second visit and for a leaf come in the order of the keys, one for each node.
\<close>

theorem twalk_returns:
  assumes "tree_at h t"
  shows "\<exists>xs. twalk (addr_of t) h = Some xs \<and> length xs \<le> 3 * size t \<and>
    map fst (filter (\<lambda>v. fst (snd v) \<in> {postorder, leaf}) xs) = map fst (inorder t)"
  using walk_ok [OF assms, of 0] by (simp add: twalk_def)

theorem twalk_returns_witness:
  "\<exists>xs. twalk 0x1000 demo_tree_heap = Some xs \<and> map fst (filter (\<lambda>v. fst (snd v) \<in> {postorder, leaf}) xs) = [0x1000]"
  using twalk_returns [of demo_tree_heap "Node Leaf (0x1000, 5) Leaf"] demo_search_tree by (auto simp: search_tree_def)

text \<open>
  C18: after any sequence of calls of \<open>tsearch\<close>, \<open>tdelete\<close> and \<open>tfind\<close>, \<open>twalk\<close> visits the keys of the set that is
  left in ascending order, once each, and no level it reports reaches the height stored in the root. That height is at
  most 129, and at most 45, the recursion depth the source states, when there are at most 2^32 keys.
\<close>

theorem tree_depth:
  assumes "tree_holds s K"
  shows "\<exists>bs s' K' xs. session tree_step ps s = Some (bs, s') \<and> set_run (trank (tenv s)) ps K bs K' \<and>
    twalk (troot s') (theap s') = Some xs \<and>
    map (\<lambda>v. trank (tenv s) (nkey (the (theap s' (fst v))))) (filter (\<lambda>v. fst (snd v) \<in> {postorder, leaf}) xs) = sorted_list_of_set K' \<and>
    (\<forall>v\<in>set xs. \<exists>d. theap s' (troot s') = Some d \<and> snd (snd v) < nheight d \<and> nheight d \<le> 129 \<and>
      (card K' \<le> 2 ^ 32 \<longrightarrow> nheight d \<le> 45))"
proof -
  obtain bs s' K' where r: "session tree_step ps s = Some (bs, s')" "set_run (trank (tenv s)) ps K bs K'" "tree_holds s' K'"
      "trank (tenv s') = trank (tenv s)"
    using tree.run [OF assms, of ps] by blast
  show ?thesis using r(1,2) holds_walk [OF r(3)] unfolding r(4) by blast
qed

theorem tree_depth_witness:
  "\<exists>bs s' xs. session tree_step [Insert 5, Remove 7] \<lparr>tenv = demo_tenv, troot = 0, theap = (\<lambda>_. None), talloc = 1\<rparr> = Some (bs, s') \<and>
    twalk (troot s') (theap s') = Some xs \<and> (\<forall>v\<in>set xs. snd (snd v) < 45)"
proof -
  have "tree_holds \<lparr>tenv = demo_tenv, troot = 0, theap = (\<lambda>_. None), talloc = 1\<rparr> {}"
    unfolding tree_holds_def using demo_orders demo_allocates
    by (auto simp: search_tree_def demo_tenv_def intro!: exI [of _ Leaf])
  note d = tree_depth [OF this, of "[Insert 5, Remove 7]"]
  have rank: "trank (tenv \<lparr>tenv = demo_tenv, troot = 0, theap = (\<lambda>_. None), talloc = 1\<rparr>) = sint"
    by (simp add: demo_tenv_def)
  obtain bs s' K' xs where
      w: "session tree_step [Insert 5, Remove 7] \<lparr>tenv = demo_tenv, troot = 0, theap = (\<lambda>_. None), talloc = 1\<rparr> = Some (bs, s')"
        "set_run sint [Insert 5, Remove 7] {} bs K'" "twalk (troot s') (theap s') = Some xs"
        "\<forall>v\<in>set xs. \<exists>d. theap s' (troot s') = Some d \<and> snd (snd v) < nheight d \<and> nheight d \<le> 129 \<and> (card K' \<le> 2 ^ 32 \<longrightarrow> nheight d \<le> 45)"
    using d unfolding rank by blast
  have "K' \<subseteq> {5}" using w(2) by (auto split: if_splits)
  then have "card K' \<le> 2 ^ 32" using card_mono [of "{5}" K'] by simp
  then have "\<forall>v\<in>set xs. snd (snd v) < 45" using w(4) by (meson order_less_le_trans)
  then show ?thesis using w(1,3) by blast
qed

section \<open>Output streams\<close>

text \<open>
  C19: a program of calls of \<open>fwrite\<close>, \<open>fputs\<close>, \<open>fputc\<close> and \<open>fflush\<close> on a descriptor stream, whether the stream is
  new, was flushed or has bytes in its buffer, gets the answers of success, and a last \<open>fflush\<close> has every byte
  delivered once and in order, the buffered ones first, although \<open>writev\<close> may take any nonempty prefix of what it is given.
  The stream can be used again, and nothing but its buffer and the stack slot of \<open>fputc\<close> is written.
\<close>

theorem flush_delivers:
  assumes "writev_ok writev outp" "out_stream f m B" "m slot \<noteq> None" "slot \<notin> buf_reg f"
    and "list_all2 (call_bytes m (insert slot (buf_reg f))) cs Ds"
  shows "\<exists>f' m' x'. seq (do_calls (stdio_write writev) seek slot cs f)
      (\<lambda>(rs, f). seq (fflush (stdio_write writev) seek f) (\<lambda>(r, f). ret (rs, r, f))) m x = Some (Done (map answer cs, 0, f') m' x') \<and>
    outp x' = outp x @ B @ concat Ds \<and> out_stream f' m' [] \<and> same_but (insert slot (buf_reg f)) m m'"
  by (rule do_calls_flush [OF assms])

theorem flush_delivers_witness:
  "\<exists>f' m'. seq (do_calls (stdio_write demo_writev) (\<lambda>f n. ret f) 0x3000 [Fwrite 0x1000 1 5, Fputc 33, Fflush, Fputc 34, Fwrite 0x1000 5 2] demo_file)
      (\<lambda>(rs, f). seq (fflush (stdio_write demo_writev) (\<lambda>f n. ret f) f) (\<lambda>(r, f). ret (rs, r, f)))
      (flat 0x1000 [1, 2, 10, 4, 5, 6, 7, 8, 9, 10]) [7] =
    Some (Done ([5, 33, 0, 34, 2], 0, f') m' [7, 1, 2, 10, 4, 5, 33, 34, 1, 2, 10, 4, 5, 6, 7, 8, 9, 10])"
proof -
  define m where "m = flat 0x1000 [1, 2, 10, 4, 5, 6, 7, 8, 9, 10]"
  have b: "bytes_at m 0x1000 ([1, 2, 10, 4, 5] @ [6, 7, 8, 9, 10])" 
    unfolding m_def using flat_bytes [of "[1, 2, 10, 4, 5, 6, 7, 8, 9, 10]" "0x1000"] by (simp del: bytes_at.simps)
  then have b5: "bytes_at m 0x1000 [1, 2, 10, 4, 5]" unfolding bytes_at_append by blast
  have e: "buf_reg demo_file = reg 0x2000 8" "reg 0x3000 1 = {0x3000 :: addr}" by (simp_all add: buf_reg_def demo_file_def reg_def)
  have "reg 0x1000 10 \<inter> reg 0x2000 8 = {}" "reg 0x1000 10 \<inter> reg 0x3000 1 = {}" "reg 0x2000 8 \<inter> reg 0x3000 1 = {}"
    using apart_before [of "0x1000" 10 "0x2000" 8] apart_before [of "0x1000" 10 "0x3000" 1] apart_before [of "0x2000" 8 "0x3000" 1]
    by (simp_all only: apart_reg) simp_all
  then have r: "reg 0x1000 10 \<inter> insert 0x3000 (buf_reg demo_file) = {}" "0x3000 \<notin> buf_reg demo_file" unfolding e by auto
  then have r5: "reg 0x1000 5 \<inter> insert 0x3000 (buf_reg demo_file) = {}" using reg_mono [of 5 10 "0x1000"] by auto
  have len: "(10 :: nat) = length ([1, 2, 10, 4, 5] @ [6, 7, 8, 9, 10 :: byte])" "(5 :: nat) = length [1, 2, 10, 4, 5 :: byte]" by simp_all
  have "list_all2 (call_bytes m (insert 0x3000 (buf_reg demo_file))) [Fwrite 0x1000 1 5, Fputc 33, Fflush, Fputc 34, Fwrite 0x1000 5 2]
      [[1, 2, 10, 4, 5], [33], [], [34], [1, 2, 10, 4, 5] @ [6, 7, 8, 9, 10]]"
    using b b5 r(1) [unfolded len(1)] r5 [unfolded len(2)] by simp
  from flush_delivers [OF demo_writev_ok _ _ r(2) this, of "[]" "\<lambda>f n. ret f" "[7]"]
  show ?thesis using demo_file_out unfolding m_def by auto
qed

section \<open>Multibyte characters\<close>

text \<open>C20: what \<open>wcrtomb\<close> writes for a Unicode scalar value \<open>mbrtowc\<close> reads back, with the same count (0 for the null character).\<close>

theorem utf8_roundtrip:
  assumes "\<not> one_byte E" "scalar wc" "s \<noteq> 0" "a \<noteq> 0" "st \<noteq> 0" "mapped m s (length (utf8 wc))" "mapped m a 4"
    "load32 m st = Some 0" "apart st 4 s (length (utf8 wc))"
  shows "\<exists>k m1 m2. wcrtomb E m s wc = Some (k, m1) \<and> unat k = length (utf8 wc) \<and>
    mbrtowc E m1 a s k st = Some (if wc = 0 then 0 else k, m2) \<and> load32 m2 a = Some wc"
  by (rule wcrtomb_mbrtowc [OF assms])

theorem utf8_roundtrip_witness:
  "\<exists>k m1 m2. wcrtomb demo_mbenv (flat 0 []) 0x1000 0x20ac = Some (k, m1) \<and>
     mbrtowc demo_mbenv m1 0x2000 0x1000 k 0x3000 = Some (k, m2) \<and> load32 m2 0x2000 = Some 0x20ac"
proof -
  have "load32 (flat 0 []) 0x3000 = Some 0" using load32_at [of "flat 0 []" "0x3000" "[0, 0, 0, 0]"]
    by (simp add: flat_def le_word_def)
  moreover have "apart 0x3000 4 0x1000 (length (utf8 0x20ac))" by (intro apart_after) (simp_all add: utf8_def)
  ultimately show ?thesis
    using utf8_roundtrip [of demo_mbenv "0x20ac" "0x1000" "0x2000" "0x3000" "flat 0 []"] by (auto simp: demo_mbenv_def scalar_def)
qed

text \<open>C21: \<open>wcrtomb\<close> rejects surrogates and everything beyond U+10FFFF with \<open>EILSEQ\<close> and stores no byte of output.\<close>

theorem wcrtomb_refuses:
  assumes "\<not> one_byte E" "\<not> scalar wc" "s \<noteq> 0" "mapped m (mbenv.errno_at E) 4"
  shows "wcrtomb E m s wc = Some (- 1, put_bytes m (mbenv.errno_at E) (word_bytes 4 EILSEQ))"
  by (rule wcrtomb_rejects [OF assms])

theorem wcrtomb_refuses_witness:
  "wcrtomb demo_mbenv (flat 0 []) 0x1000 0xd812 = Some (- 1, put_bytes (flat 0 []) 0x4000 (word_bytes 4 EILSEQ))"
  using wcrtomb_refuses [of demo_mbenv "0xd812" "0x1000" "flat 0 []"] by (simp add: demo_mbenv_def scalar_def)

text \<open>
  C22: the count \<open>mbrtowc\<close> returns for a complete multibyte character is its length exactly when
  the limit \<open>n\<close> is below 2^32: the code keeps \<open>n\<close> in an \<open>unsigned\<close>.
\<close>

theorem mbrtowc_count_limit:
  assumes "decoding E m a s st wc" "length (utf8 wc) \<le> unat n" "\<not> wc < 0x80"
  shows "\<exists>k. mbrtowc E m a s n st = Some (k, put_bytes m a (word_bytes 4 wc)) \<and>
    (k = of_nat (length (utf8 wc)) \<longleftrightarrow> n < 2 ^ 32)"
  by (rule mbrtowc_count [OF assms])

theorem mbrtowc_count_limit_witness:
  "\<exists>k m'. mbrtowc demo_mbenv (flat 0x1000 [0xc3, 0xa9]) 0x2000 0x1000 0x100000002 0x3000 = Some (k, m') \<and> k \<noteq> 2"
proof -
  have "load32 (flat 0x1000 [0xc3, 0xa9]) 0x3000 = Some 0"
    using load32_at [of "flat 0x1000 [0xc3, 0xa9]" "0x3000" "[0, 0, 0, 0]"] by (simp add: flat_def put_bytes_def le_word_def)
  moreover have "utf8 0xe9 = [0xc3, 0xa9]" by (simp add: utf8_def cont_def)
  ultimately show ?thesis
    using mbrtowc_count_limit [of demo_mbenv "flat 0x1000 [0xc3, 0xa9]" "0x2000" "0x1000" "0x3000" "0xe9" "0x100000002"]
    by (auto simp: decoding_def demo_mbenv_def scalar_def simp del: bytes_at.simps)
qed

section \<open>Hash functions\<close>

text \<open>
  C23: however a message is cut into calls of \<open>update\<close>, MD5, SHA-256 and SHA-512 return the hash
  of the padded message taken block by block, whatever the buffer held before.
\<close>

theorem hash_chunks:
  assumes "length (hbuf s) = 64" "length (hbuf t) = 64" "length (hbuf v) = 128"
  shows "snd (md5_sum (foldl md5_update (md5_init s) ps)) =
      md5_out (hash_ref 64 56 56 le_len md5_block (hst (md5_init s)) (concat ps)) \<and>
    snd (sha256_sum (foldl sha256_update (sha256_init t) ps)) =
      be_out 4 (hash_ref 64 56 56 be_len sha256_block (hst (sha256_init t)) (concat ps)) \<and>
    snd (sha512_sum (foldl sha512_update (sha512_init v) ps)) =
      be_out 8 (hash_ref 128 112 120 be_len sha512_block (hst (sha512_init v)) (concat ps))"
  using assms by (simp add: md5_chunks sha256_chunks sha512_chunks)

theorem hash_chunks_witness:
  "snd (md5_sum (foldl md5_update (md5_init \<lparr>hlen = 0, hst = [], hbuf = replicate 64 0\<rparr>) [[97], [98, 99]])) =
     md5_out (hash_ref 64 56 56 le_len md5_block [0x67452301, 0xefcdab89, 0x98badcfe, 0x10325476] [97, 98, 99])"
  using hash_chunks [of "\<lparr>hlen = 0, hst = [], hbuf = replicate 64 0\<rparr>" "\<lparr>hlen = 0, hst = [], hbuf = replicate 64 0\<rparr>"
      "\<lparr>hlen = 0, hst = [], hbuf = replicate 128 0\<rparr>" "[[97], [98, 99]]"]
  by (simp add: md5_init_def)

section \<open>Calendar time\<close>

text \<open>
  C24: \<open>gmtime_r\<close> breaks a time in the year \<open>Y\<close> of the Gregorian calendar into the one date and time of day it is,
  with the day of the week and of the year; when the year does not fit an \<open>int\<close> it fails with \<open>EOVERFLOW\<close> and
  leaves the structure alone.
\<close>

theorem gmtime_date:
  assumes "86400 * jan1 Y \<le> t" "t < 86400 * jan1 (Y + 1)"
  shows "if - (2 ^ 31) \<le> Y - 1900 \<and> Y - 1900 < 2 ^ 31
    then \<exists>tm'. gmtime_r utc t tm = Some (True, tm', None) \<and> tm_year tm' = Y - 1900 \<and> valid_tm tm' \<and> tm_secs tm' = t
    else gmtime_r utc t tm = Some (False, tm, Some EOVERFLOW)"
proof (cases "- (2 ^ 31) \<le> Y - 1900 \<and> Y - 1900 < 2 ^ 31")
  case True
  then obtain tm' where "secs_to_tm t tm = Some (0, tm')" "tm_year tm' = Y - 1900" "valid_tm tm'" "tm_secs tm' = t"
    using secs_to_tm_ok [OF assms] by (simp only: if_P) blast
  then show ?thesis using True
    by (intro if_P [OF True, THEN iffD2] exI [of _ "tm'\<lparr>tm_isdst := 0, tm_gmtoff := 0, tm_zone := utc\<rparr>"]) (simp add: gmtime_r_def)
next
  case False
  have "secs_to_tm t tm = Some (- 1, tm)" using secs_to_tm_ok [OF assms, of tm] unfolding if_not_P [OF False] .
  then show ?thesis unfolding if_not_P [OF False] by (simp add: gmtime_r_def)
qed

theorem gmtime_date_witness:
  "\<exists>tm'. gmtime_r 0x5000 951782400 demo_tm = Some (True, tm', None) \<and> tm_year tm' = 100 \<and> valid_tm tm' \<and> tm_secs tm' = 951782400"
  using gmtime_date [of 2000 951782400 "0x5000" demo_tm] by (simp add: jan1_def)

text \<open>
  C25: \<open>timegm\<close> inverts \<open>gmtime_r\<close>: it returns the time the date was made from, for every time whose year fits
  an \<open>int\<close>, before 1970 too.
\<close>

theorem gmtime_roundtrip:
  assumes "86400 * jan1 Y \<le> t" "t < 86400 * jan1 (Y + 1)" "- (2 ^ 31) \<le> Y - 1900" "Y - 1900 < 2 ^ 31"
  shows "\<exists>tm' tm''. gmtime_r utc t tm = Some (True, tm', None) \<and> timegm utc new tm' = Some (t, tm'', None) \<and>
    valid_tm tm'' \<and> tm_secs tm'' = t"
proof -
  have r: "- (2 ^ 31) \<le> Y - 1900 \<and> Y - 1900 < 2 ^ 31" using assms(3,4) by simp
  have *: "\<exists>tm'. secs_to_tm t tm = Some (0, tm') \<and> tm_year tm' = Y - 1900 \<and> valid_tm tm' \<and> tm_secs tm' = t" for tm
    using secs_to_tm_ok [OF assms(1,2)] unfolding if_P [OF r] .
  obtain a where a: "secs_to_tm t tm = Some (0, a)" "tm_year a = Y - 1900" "valid_tm a" "tm_secs a = t" using * by blast
  obtain b where b: "secs_to_tm t new = Some (0, b)" "valid_tm b" "tm_secs b = t" using * by blast
  define tm' where "tm' = a\<lparr>tm_isdst := 0, tm_gmtoff := 0, tm_zone := utc\<rparr>"
  have v: "valid_tm tm'" "tm_secs tm' = t" "tm_year tm' = Y - 1900" using a by (simp_all add: tm'_def)
  have "tm_to_secs tm' = Some t"
    using tm_to_secs_ok [OF valid_int_tm [OF v(1)]] v(2,3) assms(3,4) valid_carry [OF v(1)] by simp
  then have "timegm utc new tm' = Some (t, b\<lparr>tm_isdst := 0, tm_gmtoff := 0, tm_zone := utc\<rparr>, None)" using b(1) by (simp add: timegm_def)
  moreover have "gmtime_r utc t tm = Some (True, tm', None)" using a(1) by (simp add: gmtime_r_def tm'_def)
  ultimately show ?thesis using b(2,3) by (intro exI [of _ tm'] exI [of _ "b\<lparr>tm_isdst := 0, tm_gmtoff := 0, tm_zone := utc\<rparr>"]) simp
qed

theorem gmtime_roundtrip_witness:
  "\<exists>tm' tm''. gmtime_r 0x5000 (- 1) demo_tm = Some (True, tm', None) \<and> timegm 0x5000 demo_tm tm' = Some (- 1, tm'', None)"
  using gmtime_roundtrip [of 1969 "- 1" "0x5000" demo_tm demo_tm] by (auto simp: jan1_def)

text \<open>
  C26: \<open>timegm\<close> brings fields out of range, months and negative values included, into the date and time they
  add up to, and returns its time, or fails with \<open>EOVERFLOW\<close> and leaves the structure alone; the computation
  overflows for no fields but the least \<open>int\<close> as the day of the month.
\<close>

theorem timegm_normalises:
  assumes "int_tm tm" "tm_mday tm \<noteq> - (2 ^ 31)" "t = tm_secs (carry_months tm)"
    and "86400 * jan1 Y \<le> t" "t < 86400 * jan1 (Y + 1)"
  shows "if - (2 ^ 31) \<le> Y - 1900 \<and> Y - 1900 < 2 ^ 31
    then \<exists>tm'. timegm utc new tm = Some (t, tm', None) \<and> tm_year tm' = Y - 1900 \<and> valid_tm tm' \<and> tm_secs tm' = t
    else timegm utc new tm = Some (- 1, tm, Some EOVERFLOW)"
proof (cases "- (2 ^ 31) \<le> Y - 1900 \<and> Y - 1900 < 2 ^ 31")
  case True
  then obtain tm' where "secs_to_tm t new = Some (0, tm')" "tm_year tm' = Y - 1900" "valid_tm tm'" "tm_secs tm' = t"
    using secs_to_tm_ok [OF assms(4,5)] by (simp only: if_P) blast
  then show ?thesis using True tm_to_secs_ok [OF assms(1,2)] assms(3)
    by (intro if_P [OF True, THEN iffD2] exI [of _ "tm'\<lparr>tm_isdst := 0, tm_gmtoff := 0, tm_zone := utc\<rparr>"]) (simp add: timegm_def)
next
  case False
  have "secs_to_tm t new = Some (- 1, new)" using secs_to_tm_ok [OF assms(4,5), of new] unfolding if_not_P [OF False] .
  then show ?thesis unfolding if_not_P [OF False] using tm_to_secs_ok [OF assms(1,2)] assms(3) by (simp add: timegm_def)
qed

theorem timegm_normalises_witness:
  "\<exists>tm'. timegm 0x5000 demo_tm (demo_tm\<lparr>tm_mon := - 1, tm_mday := 32\<rparr>) = Some (0, tm', None) \<and> tm_year tm' = 70"
proof -
  have "tm_secs (carry_months (demo_tm\<lparr>tm_mon := - 1, tm_mday := 32\<rparr>)) = 0"
    by (simp add: demo_tm_def jan1_def tm_secs_def tm_days_def tm_day_of_year_def carry_months_def month_start_values leap_year_def)
  moreover have "int_tm (demo_tm\<lparr>tm_mon := - 1, tm_mday := 32\<rparr>)" by (simp add: demo_tm_def int_tm_def)
  moreover have "jan1 1970 = 0" "jan1 (1970 + 1) = 365" by (simp_all add: jan1_def)
  ultimately show ?thesis
    using timegm_normalises [of "demo_tm\<lparr>tm_mon := - 1, tm_mday := 32\<rparr>" 0 1970 "0x5000" demo_tm] by auto
qed

section \<open>Strings\<close>

text \<open>C27: on every NUL-terminated string \<open>strlen\<close> returns its length, although it reads whole words.\<close>

theorem strlen_length:
  assumes "word_mapped m" "cstr m a s"
  shows "strlen m a = Some (of_nat (length s))"
  using assms by (rule strlen_correct)

theorem strlen_length_witness: "strlen (flat 0x1003 [104, 101, 108, 108, 111, 0]) 0x1003 = Some 5"
  using strlen_length [OF flat_mapped(2) flat_cstr, of "[104, 101, 108, 108, 111]" "0x1003"] by simp

text \<open>
  C28: \<open>strchr\<close> finds the first and \<open>strrchr\<close> the last occurrence of a byte in a string, its
  terminator included, and returns a null pointer when there is none; \<open>strchrnul\<close> returns the end then.
\<close>

theorem string_search:
  assumes "word_mapped m" "cstr m a s" "a \<noteq> 0"
  shows "strchr m a c = Some (if ucast c \<in> set (s @ [0]) then a + of_nat (find_byte (ucast c) s) else 0) \<and>
         strrchr m a c = Some (if ucast c \<in> set (s @ [0])
           then a + of_nat (length s - find_byte (ucast c) (rev (s @ [0]))) else 0) \<and>
         strchrnul m a c = Some (a + of_nat (find_byte (ucast c) s))"
  by (intro conjI strchr_correct strrchr_correct strchrnul_correct assms)

theorem string_search_witness:
  "strchr (flat 0x1003 [108, 105, 108, 0]) 0x1003 108 = Some 0x1003 \<and> strrchr (flat 0x1003 [108, 105, 108, 0]) 0x1003 108 = Some 0x1005"
  using string_search [OF flat_mapped(2) flat_cstr, of "[108, 105, 108]" "0x1003" 108] by (simp add: find_byte_def)

text \<open>
  C29: \<open>memchr\<close> and \<open>memrchr\<close> find the first and the last occurrence of a byte in a block, and
  \<open>strnlen\<close> the length of the string in it, reading no further than the block.
\<close>

theorem block_search:
  assumes "bytes_at m a bs" "length bs = unat n" "a \<noteq> 0" "unat a + length bs \<le> 2 ^ 64"
  shows "memchr m a c n = Some (if ucast c \<in> set bs then a + of_nat (find_byte (ucast c) bs) else 0) \<and>
         memrchr m a c n = Some (if ucast c \<in> set bs then a + of_nat (length bs - 1 - find_byte (ucast c) (rev bs)) else 0) \<and>
         strnlen m a n = Some (of_nat (find_byte 0 bs))"
  by (intro conjI memchr_correct memrchr_correct strnlen_correct assms)

theorem block_search_witness: "strnlen (region 0x1003 [108, 105, 108]) 0x1003 3 = Some 3"
  using block_search [of "region 0x1003 [108, 105, 108]" "0x1003" "[108, 105, 108]" 3 0]
  by (simp add: region_def bytes_at_put find_byte_def del: bytes_at.simps)

text \<open>
  C30: \<open>strcmp\<close>, \<open>strncmp\<close> and \<open>memcmp\<close> return 0 exactly on equal operands and a negative number
  exactly when the first is lexicographically smaller as unsigned bytes.
\<close>

theorem comparisons_order:
  assumes "cstr m l s" "cstr m r t" "bytes_at m p xs" "bytes_at m q ys" "length xs = unat k" "length ys = unat k"
  shows "\<exists>u v w. strcmp m l r = Some u \<and> (u = 0 \<longleftrightarrow> s = t) \<and> (u <s 0 \<longleftrightarrow> ord_class.lexordp s t) \<and>
    strncmp m l r n = Some v \<and> (v = 0 \<longleftrightarrow> take (unat n) s = take (unat n) t) \<and>
    (v <s 0 \<longleftrightarrow> ord_class.lexordp (take (unat n) s) (take (unat n) t)) \<and>
    memcmp m p q k = Some w \<and> (w = 0 \<longleftrightarrow> xs = ys) \<and> (w <s 0 \<longleftrightarrow> ord_class.lexordp xs ys)"
  using assms strcmp_correct [of m l s r t] strncmp_correct [of m l s r t n] memcmp_correct [of m p xs q ys k]
    cmp_bytes_order [of s t] cmp_bytes_order [of "take (unat n) s" "take (unat n) t"] cmp_bytes_order_len [of xs ys]
  by (simp add: cstr_def cmp_take_nonzero)

theorem comparisons_order_witness:
  "\<exists>u. strcmp (flat 0x1003 [97, 98, 0, 97, 200, 0]) 0x1003 0x1006 = Some u \<and> u <s 0"
  using comparisons_order [of "flat 0x1003 [97, 98, 0, 97, 200, 0]" "0x1003" "[97, 98]" "0x1006" "[97, 200]" 0 "[]" 0 "[]" 0 0]
  by (auto simp: cstr_def flat_def put_bytes_def)

text \<open>C31: \<open>strspn\<close> and \<open>strcspn\<close> measure the longest prefix inside and outside a set of bytes, which they keep in a bit table.\<close>

theorem spans:
  assumes "word_mapped m" "cstr m a s" "cstr m c cs"
  shows "strspn m a c = Some (of_nat (length (takeWhile (\<lambda>b. b \<in> set cs) s))) \<and>
         strcspn m a c = Some (of_nat (length (takeWhile (\<lambda>b. b \<notin> set cs) s)))"
  using assms strspn_correct [of m a s c cs] strcspn_correct [of m a s c cs] by (simp add: cstr_def)

theorem spans_witness: "strcspn (flat 0x1003 [97, 98, 0, 98, 97, 0]) 0x1003 0x1007 = Some 0"
  using spans [of "flat 0x1003 [97, 98, 0, 98, 97, 0]" "0x1003" "[97, 98]" "0x1007" "[97]"]
  by (simp add: cstr_def flat_def[of "0x1003"] put_bytes_def word_mapped_def)

section \<open>Block copies\<close>

text \<open>
  C32: \<open>memcpy\<close> on disjoint blocks copies every byte and changes nothing else, for every
  alignment of source and destination and every length.
\<close>

theorem memcpy_copies:
  assumes "bytes_at m s bs" "mapped m d (length bs)" "apart d (length bs) s (length bs)" "unat n = length bs"
  shows "memcpy m d s n = Some (d, put_bytes m d bs)"
  using assms unsigned_less [of n, where ?'a = nat] by (intro memcpy_correct) (simp_all add: copying_def)

theorem memcpy_copies_witness:
  "memcpy (flat 0x1003 [1, 2, 3]) 0x2001 0x1003 3 = Some (0x2001, put_bytes (flat 0x1003 [1, 2, 3]) 0x2001 [1, 2, 3])"
  using memcpy_copies [of "flat 0x1003 [1, 2, 3]" "0x1003" "[1, 2, 3]" "0x2001" 3]
  by (simp add: apart_def less_Suc_eq del: bytes_at.simps)

text \<open>C33: \<open>memset\<close> fills exactly the given block, although it stores some bytes several times.\<close>

theorem memset_fills:
  assumes "mapped m d (unat n)"
  shows "memset m d c n = Some (d, put_bytes m d (replicate (unat n) (ucast c)))"
  using assms by (rule memset_correct)

theorem memset_fills_witness: "memset (flat 0 []) 0x1001 0x41 21 = Some (0x1001, put_bytes (flat 0 []) 0x1001 (replicate 21 0x41))"
  using memset_fills [of "flat 0 []" "0x1001" 21 "0x41"] by simp

text \<open>C34: \<open>memmove\<close> gives the destination the bytes the source had before the call, however the two blocks overlap.\<close>

theorem memmove_overlap:
  assumes "bytes_at m s bs" "mapped m d (length bs)" "unat n = length bs"
    "unat s + length bs < 2 ^ 64" "unat d + length bs < 2 ^ 64"
  shows "memmove m d s n = Some (d, put_bytes m d bs)"
  using assms by (rule memmove_correct)

theorem memmove_overlap_witness:
  "memmove (flat 0x1000 [1, 2, 3, 4]) 0x1001 0x1000 4 = Some (0x1001, put_bytes (flat 0x1000 [1, 2, 3, 4]) 0x1001 [1, 2, 3, 4])"
  using memmove_overlap [of "flat 0x1000 [1, 2, 3, 4]" "0x1000" "[1, 2, 3, 4]" "0x1001" 4] by (simp del: bytes_at.simps)

section \<open>The compiler runtime\<close>

text \<open>C35: the two-word divisions trap exactly on a zero divisor and otherwise return quotient and remainder.\<close>

theorem udivmod_contract:
  "udivmoddi4 a b = (if b = 0 then Inl DivideTrap else Inr (a div b, a mod b)) \<and>
   udivmodti4 x y = (if y = 0 then Inl DivideTrap else Inr (x div y, x mod y))"
  by (simp add: udivmoddi4_def udivmodti4_def udivmod_correct)

text \<open>C36: the signed divisions and remainders truncate towards zero at every width, trap on a zero divisor, and agree with each other.\<close>

theorem signed_division_truncates:
  "divsi3 p q = (if q = 0 then Inl DivideTrap else Inr (word_of_int (sint p sdiv sint q))) \<and>
   divdi3 a b = (if b = 0 then Inl DivideTrap else Inr (word_of_int (sint a sdiv sint b))) \<and>
   divti3 x y = (if y = 0 then Inl DivideTrap else Inr (word_of_int (sint x sdiv sint y))) \<and>
   modsi3 p q = (if q = 0 then Inl DivideTrap else Inr (word_of_int (sint p smod sint q))) \<and>
   moddi3 a b = (if b = 0 then Inl DivideTrap else Inr (word_of_int (sint a smod sint b))) \<and>
   modti3 x y = (if y = 0 then Inl DivideTrap else Inr (word_of_int (sint x smod sint y))) \<and>
   divmodsi4 p q = (if q = 0 then Inl DivideTrap else Inr (word_of_int (sint p sdiv sint q), word_of_int (sint p smod sint q))) \<and>
   divmoddi4 a b = (if b = 0 then Inl DivideTrap else Inr (word_of_int (sint a sdiv sint b), word_of_int (sint a smod sint b)))"
  by (simp add: div_correct mod_correct divmod_correct c_sdiv_def c_smod_def)

text \<open>C37: the multi-word products are exact, modulo the width of their result.\<close>

theorem products_exact:
  "muldi3 a b = a * b \<and> multi3 x y = x * y \<and> unat (muldsi3 p q) = unat p * unat q \<and>
   unat (mulddi3 a b) = unat a * unat b"
  by (simp add: mul_correct muls_correct)

text \<open>C38: the trapping additions, subtractions, negations, absolute values and products return the exact signed value when it is representable and abort exactly otherwise.\<close>

theorem checked_arithmetic:
  "addvsi3 p q = checked (sint p + sint q) \<and> addvdi3 a b = checked (sint a + sint b) \<and>
   addvti3 x y = checked (sint x + sint y) \<and>
   subvsi3 p q = checked (sint p - sint q) \<and> subvdi3 a b = checked (sint a - sint b) \<and>
   subvti3 x y = checked (sint x - sint y) \<and>
   negvsi2 p = checked (- sint p) \<and> negvdi2 a = checked (- sint a) \<and> negvti2 x = checked (- sint x) \<and>
   absvsi2 p = checked \<bar>sint p\<bar> \<and> absvdi2 a = checked \<bar>sint a\<bar> \<and> absvti2 x = checked \<bar>sint x\<bar> \<and>
   mulvsi3 p q = checked (sint p * sint q) \<and> mulvdi3 a b = checked (sint a * sint b) \<and>
   mulvti3 x y = checked (sint x * sint y)"
  by (simp add: arith_instances addv_checked subv_checked negv_checked absv_checked mulv_checked)

text \<open>C39: the overflow-reporting products return the wrapped product, with the flag set exactly when the signed product is not representable.\<close>

theorem overflow_flags:
  "mulosi4 p q = (p * q, if in_range TYPE(32) (sint p * sint q) then 0 else 1) \<and>
   mulodi4 a b = (a * b, if in_range TYPE(64) (sint a * sint b) then 0 else 1) \<and>
   muloti4 x y = (x * y, if in_range TYPE(128) (sint x * sint y) then 0 else 1)"
  by (simp add: arith_instances mulo_flag)

text \<open>C40: the count-leading-zeros routines locate the highest set bit of a nonzero word.\<close>

theorem clz_highest_bit:
  assumes "p \<noteq> 0" "a \<noteq> 0" "x \<noteq> 0"
  shows "unat p div 2 ^ (31 - unat (clzsi2 p)) = 1 \<and> unat a div 2 ^ (63 - unat (clzdi2 a)) = 1 \<and>
         unat x div 2 ^ (127 - unat (clzti2 x)) = 1"
  using assms clz_top [of p] clz_top [of a] clz_top [of x]
  by (simp add: clzsi2_correct clzdi2_correct clzti2_correct)

theorem clz_highest_bit_witness: "unat (0x00f0 :: u32) div 2 ^ (31 - unat (clzsi2 0x00f0)) = 1"
  using clz_highest_bit [of "0x00f0" 1 1] by simp

end
